(* ===== verification/Prelude.thy ===== *)
theory Prelude
  imports Main "HOL-Library.Word"
begin

unbundle bit_operations_syntax

text \<open>
  Shared vocabulary of the development: the machine types of the C code, the model of
  \<open>memcpy\<close> and \<open>memset\<close> on byte arrays, the cutting of a byte string into blocks, and
  the generic lemmas on lists and words that the component theories use.

  \<^item> \<open>byte\<close>, \<open>u32\<close>, \<open>u64\<close> are C's \<open>unsigned char\<close>, \<open>sph_u32\<close>, \<open>sph_u64\<close> on a machine
    where the last two have exactly 32 and 64 bits.
  \<^item> a C array is a list of the array's length; an index stays inside the array wherever
    the theorems are about it.
\<close>

type_synonym byte = "8 word"
type_synonym bytes = "8 word list"
type_synonym u32 = "32 word"
type_synonym u64 = "64 word"

named_theorems bytes_simps \<open>lengths and positions of encoded words\<close>
named_theorems stream_simps \<open>buffered absorption of a byte stream\<close>

section \<open>Memory blocks\<close>

definition memcpy :: "'a list \<Rightarrow> nat \<Rightarrow> 'a list \<Rightarrow> 'a list" where
  "memcpy buf off src = take off buf @ src @ drop (off + length src) buf"

definition memset :: "'a list \<Rightarrow> nat \<Rightarrow> 'a \<Rightarrow> nat \<Rightarrow> 'a list" where
  "memset buf off c n = memcpy buf off (replicate n c)"

lemma length_memcpy [simp]:
  "off + length src \<le> length buf \<Longrightarrow> length (memcpy buf off src) = length buf"
  by (simp add: memcpy_def)

lemma length_memset [simp]:
  "off + n \<le> length buf \<Longrightarrow> length (memset buf off c n) = length buf"
  by (simp add: memset_def)

lemma memcpy_Nil [simp]: "memcpy buf off [] = buf"
  by (simp add: memcpy_def)

lemma memcpy_Cons:
  "off < length buf \<Longrightarrow> memcpy buf off (x # xs) = memcpy (buf[off := x]) (Suc off) xs"
  by (simp add: memcpy_def upd_conv_take_nth_drop take_Suc_conv_app_nth add.commute)

lemma memcpy_memcpy:
  "off + length a \<le> length buf \<Longrightarrow>
   memcpy (memcpy buf off a) (off + length a) b = memcpy buf off (a @ b)"
  by (cases a) (auto simp: memcpy_def min_def ac_simps)

lemma memcpy_full: "length src = length buf \<Longrightarrow> memcpy buf 0 src = src"
  by (simp add: memcpy_def)

lemma take_memcpy:
  "off \<le> length buf \<Longrightarrow> take (off + length src) (memcpy buf off src) = take off buf @ src"
  by (simp add: memcpy_def)

lemma take_memcpy_end:
  "off \<le> length buf \<Longrightarrow> n = off + length src \<Longrightarrow> take n (memcpy buf off src) = take off buf @ src"
  by (simp add: take_memcpy)

lemma memcpy_to_end:
  "off + length src = length buf \<Longrightarrow> memcpy buf off src = take off buf @ src"
  by (simp add: memcpy_def)

section \<open>Blocks of a byte string\<close>

definition full_blocks :: "nat \<Rightarrow> 'a list \<Rightarrow> 'a list list" where
  "full_blocks n xs = map (\<lambda>i. take n (drop (i * n) xs)) [0..<length xs div n]"

definition tail_bytes :: "nat \<Rightarrow> 'a list \<Rightarrow> 'a list" where
  "tail_bytes n xs = drop (length xs div n * n) xs"

lemma length_full_blocks [simp]: "length (full_blocks n xs) = length xs div n"
  by (simp add: full_blocks_def)

lemma full_blocks_Nil [simp]: "full_blocks n [] = []"
  by (simp add: full_blocks_def)

lemma full_blocks_short: "length xs < n \<Longrightarrow> full_blocks n xs = []"
  by (simp add: full_blocks_def)

lemma full_blocks_Cons:
  assumes "length b = n" "0 < n"
  shows "full_blocks n (b @ xs) = b # full_blocks n xs"
proof -
  have "length (b @ xs) div n = Suc (length xs div n)"
    using assms by (metis add.commute add_Suc_right div_add_self1 length_append not_gr_zero plus_1_eq_Suc)
  moreover have "map (\<lambda>i. take n (drop (i * n) (b @ xs))) [Suc 0..<Suc k] =
      map (\<lambda>i. take n (drop (i * n) xs)) [0..<k]" for k
    using assms by (simp add: map_Suc_upt [symmetric] del: upt_Suc)
  ultimately show ?thesis
    using assms by (simp add: full_blocks_def upt_conv_Cons del: upt_Suc)
qed

lemma full_blocks_one: "length b = n \<Longrightarrow> 0 < n \<Longrightarrow> full_blocks n b = [b]"
  using full_blocks_Cons [of b n "[]"] by simp

lemma no_block_empty: "n dvd length xs \<Longrightarrow> length xs div n = 0 \<Longrightarrow> xs = []"
  by (metis dvd_div_mult_self length_0_conv mult_zero_left)

lemma full_blocks_append:
  "0 < n \<Longrightarrow> n dvd length xs \<Longrightarrow> full_blocks n (xs @ ys) = full_blocks n xs @ full_blocks n ys"
proof (induction "length xs div n" arbitrary: xs)
  case 0
  then have "xs = []"
    using no_block_empty [of n xs] by simp
  then show ?case by simp
next
  case (Suc k)
  define b r where "b = take n xs" and "r = drop n xs"
  have len: "n \<le> length xs"
    using Suc.hyps(2) by (metis Suc_neq_Zero div_less not_le)
  then have xs: "xs = b @ r" and lb: "length b = n"
    by (simp_all add: b_def r_def)
  have "k = length r div n" "n dvd length r"
    using Suc.hyps(2) Suc.prems xs lb by (simp_all add: dvd_add_right_iff)
  then have "full_blocks n (r @ ys) = full_blocks n r @ full_blocks n ys"
    using Suc.hyps(1) Suc.prems by blast
  then show ?case
    using lb Suc.prems by (simp add: xs full_blocks_Cons)
qed

lemma block_tail_split:
  assumes "0 < n"
  shows "\<exists>p. xs = p @ tail_bytes n xs \<and> n dvd length p \<and> length (tail_bytes n xs) < n
     \<and> full_blocks n p = full_blocks n xs"
proof -
  define k where "k = length xs div n * n"
  have k: "k \<le> length xs" "length xs - k < n"
    using assms by (simp_all add: k_def minus_div_mult_eq_mod)
  have "length (tail_bytes n xs) < n"
    using k by (simp add: tail_bytes_def k_def)
  moreover have "length (take k xs) = k"
    using k by simp
  then have "n dvd length (take k xs)"
    by (simp add: k_def)
  moreover from this have "full_blocks n (take k xs @ drop k xs) = full_blocks n (take k xs)"
    using assms k by (subst full_blocks_append) (simp_all add: full_blocks_short)
  ultimately show ?thesis
    by (intro exI [of _ "take k xs"]) (simp add: tail_bytes_def k_def)
qed

lemma length_tail_bytes [simp]: "length (tail_bytes n xs) = length xs mod n"
  by (simp add: tail_bytes_def minus_div_mult_eq_mod)

lemma full_blocks_length: "b \<in> set (full_blocks n xs) \<Longrightarrow> length b = n"
proof -
  assume "b \<in> set (full_blocks n xs)"
  then obtain i where i: "i < length xs div n" "b = take n (drop (i * n) xs)"
    by (auto simp: full_blocks_def)
  then have "Suc i * n \<le> length xs div n * n"
    by (intro mult_le_mono1) simp
  also have "\<dots> \<le> length xs" by simp
  finally show ?thesis using i by simp
qed

section \<open>Concrete ranges\<close>

lemma upt_2: "[0..<2] =
    [0, 1]"
  by (simp add: upt_rec)

lemma upt_4: "[0..<4] =
    [0, 1, 2, 3]"
  by (simp add: upt_rec)

lemma upt_5: "[0..<5] =
    [0, 1, 2, 3, 4]"
  by (simp add: upt_rec)

lemma upt_7: "[0..<7] =
    [0, 1, 2, 3, 4, 5, 6]"
  by (simp add: upt_rec)

lemma upt_8: "[0..<8] =
    [0, 1, 2, 3, 4, 5, 6, 7]"
  by (simp add: upt_rec)

lemma upt_16: "[0..<16] =
    [0, 1, 2, 3, 4, 5, 6, 7, 8, 9, 10, 11, 12, 13, 14, 15]"
  by (simp add: upt_rec)

lemma upt_32: "[0..<32] =
    [0, 1, 2, 3, 4, 5, 6, 7, 8, 9, 10, 11, 12, 13, 14, 15, 16, 17, 18, 19, 20, 21, 22,
     23, 24, 25, 26, 27, 28, 29, 30, 31]"
  by (simp add: upt_rec)

lemma upt_64: "[0..<64] =
    [0, 1, 2, 3, 4, 5, 6, 7, 8, 9, 10, 11, 12, 13, 14, 15, 16, 17, 18, 19, 20, 21, 22,
     23, 24, 25, 26, 27, 28, 29, 30, 31, 32, 33, 34, 35, 36, 37, 38, 39, 40, 41, 42, 43,
     44, 45, 46, 47, 48, 49, 50, 51, 52, 53, 54, 55, 56, 57, 58, 59, 60, 61, 62, 63]"
  by (simp add: upt_rec)

lemma upt_9: "[0..<9] =
    [0, 1, 2, 3, 4, 5, 6, 7, 8]"
  by (simp add: upt_rec)

lemma upt_10: "[0..<10] =
    [0, 1, 2, 3, 4, 5, 6, 7, 8, 9]"
  by (simp add: upt_rec)

lemma upt_12: "[0..<12] =
    [0, 1, 2, 3, 4, 5, 6, 7, 8, 9, 10, 11]"
  by (simp add: upt_rec)

lemma upt_14: "[0..<14] =
    [0, 1, 2, 3, 4, 5, 6, 7, 8, 9, 10, 11, 12, 13]"
  by (simp add: upt_rec)

lemma upt_20: "[0..<20] =
    [0, 1, 2, 3, 4, 5, 6, 7, 8, 9, 10, 11, 12, 13, 14, 15, 16, 17, 18, 19]"
  by (simp add: upt_rec)

lemma upt_24: "[0..<24] =
    [0, 1, 2, 3, 4, 5, 6, 7, 8, 9, 10, 11, 12, 13, 14, 15, 16, 17, 18, 19, 20, 21, 22, 23]"
  by (simp add: upt_rec)

lemma upt_25: "[0..<25] =
    [0, 1, 2, 3, 4, 5, 6, 7, 8, 9, 10, 11, 12, 13, 14, 15, 16, 17, 18, 19, 20, 21, 22,
     23, 24]"
  by (simp add: upt_rec)

lemma upt_26: "[0..<26] =
    [0, 1, 2, 3, 4, 5, 6, 7, 8, 9, 10, 11, 12, 13, 14, 15, 16, 17, 18, 19, 20, 21, 22,
     23, 24, 25]"
  by (simp add: upt_rec)

lemma upt_3: "[0..<3] =
    [0, 1, 2]"
  by (simp add: upt_rec)

lemma upt_6: "[0..<6] =
    [0, 1, 2, 3, 4, 5]"
  by (simp add: upt_rec)

lemma upt_11: "[0..<11] =
    [0, 1, 2, 3, 4, 5, 6, 7, 8, 9, 10]"
  by (simp add: upt_rec)

lemma upt_13: "[0..<13] =
    [0, 1, 2, 3, 4, 5, 6, 7, 8, 9, 10, 11, 12]"
  by (simp add: upt_rec)

lemma upt_15: "[0..<15] =
    [0, 1, 2, 3, 4, 5, 6, 7, 8, 9, 10, 11, 12, 13, 14]"
  by (simp add: upt_rec)

lemma upt_17: "[0..<17] =
    [0, 1, 2, 3, 4, 5, 6, 7, 8, 9, 10, 11, 12, 13, 14, 15, 16]"
  by (simp add: upt_rec)

lemma upt_18: "[0..<18] =
    [0, 1, 2, 3, 4, 5, 6, 7, 8, 9, 10, 11, 12, 13, 14, 15, 16, 17]"
  by (simp add: upt_rec)

lemma upt_48: "[0..<48] =
    [0, 1, 2, 3, 4, 5, 6, 7, 8, 9, 10, 11, 12, 13, 14, 15, 16, 17, 18, 19, 20, 21, 22, 23,
     24, 25, 26, 27, 28, 29, 30, 31, 32, 33, 34, 35, 36, 37, 38, 39, 40, 41, 42, 43, 44, 45,
     46, 47]"
  by (simp add: upt_rec)

lemmas upt_lits = upt_17 upt_2 upt_48 upt_18 upt_15 upt_13 upt_11 upt_6 upt_3 upt_9 upt_10 upt_12 upt_14 upt_20 upt_24 upt_25 upt_26 upt_4 upt_5 upt_7 upt_8 upt_16 upt_32 upt_64

lemma replicate_numeral:
  "replicate (numeral k) x = x # replicate (pred_numeral k) x"
  by (simp add: numeral_eq_Suc)

end
