(* ===== verification/Sph_Types.thy ===== *)
theory Sph_Types
  imports Prelude
begin

unbundle bit_operations_syntax

text \<open>
  The word primitives of \<^verbatim>\<open>src/src/crypto/sph_types.h\<close>: truncation, rotation, byte
  swapping, and the encoders and decoders between words and byte arrays.  Every encoder
  and decoder has two bodies in the source, chosen by the preprocessor: one that swaps
  the bytes of a word and stores it in the machine's order (little endian, \<open>SPH_UPTR\<close> and
  \<open>SPH_UNALIGNED\<close> set: the amd64 build), and a portable one that writes byte by byte.  The
  first is the model of the function, the second has the suffix \<open>_generic\<close>, and the
  two are proved equal.
\<close>

section \<open>Truncation and rotation\<close>

definition SPH_T32 :: "u32 \<Rightarrow> u32" where
  "SPH_T32 x = x AND 0xFFFFFFFF"

definition SPH_ROTL32 :: "u32 \<Rightarrow> nat \<Rightarrow> u32" where
  "SPH_ROTL32 x n = SPH_T32 (push_bit n x OR drop_bit (32 - n) x)"

definition SPH_ROTR32 :: "u32 \<Rightarrow> nat \<Rightarrow> u32" where
  "SPH_ROTR32 x n = SPH_ROTL32 x (32 - n)"

definition SPH_T64 :: "u64 \<Rightarrow> u64" where
  "SPH_T64 x = x AND 0xFFFFFFFFFFFFFFFF"

definition SPH_ROTL64 :: "u64 \<Rightarrow> nat \<Rightarrow> u64" where
  "SPH_ROTL64 x n = SPH_T64 (push_bit n x OR drop_bit (64 - n) x)"

definition SPH_ROTR64 :: "u64 \<Rightarrow> nat \<Rightarrow> u64" where
  "SPH_ROTR64 x n = SPH_ROTL64 x (64 - n)"

section \<open>Byte swapping\<close>

definition sph_bswap32 :: "u32 \<Rightarrow> u32" where
  "sph_bswap32 x0 =
     (let x = SPH_T32 (push_bit 16 x0 OR drop_bit 16 x0)
      in drop_bit 8 (x AND 0xFF00FF00) OR push_bit 8 (x AND 0x00FF00FF))"

definition sph_bswap64 :: "u64 \<Rightarrow> u64" where
  "sph_bswap64 x0 =
     (let x = SPH_T64 (push_bit 32 x0 OR drop_bit 32 x0);
          x = drop_bit 16 (x AND 0xFFFF0000FFFF0000) OR push_bit 16 (x AND 0x0000FFFF0000FFFF)
      in drop_bit 8 (x AND 0xFF00FF00FF00FF00) OR push_bit 8 (x AND 0x00FF00FF00FF00FF))"

section \<open>Native word access on a little-endian machine\<close>

text \<open>What \<open>*(sph_u32 *)dst = val\<close> and \<open>*(const sph_u32 *)src\<close> do there.\<close>

definition store32 :: "u32 \<Rightarrow> bytes" where
  "store32 v = [ucast v, ucast (drop_bit 8 v), ucast (drop_bit 16 v), ucast (drop_bit 24 v)]"

definition load32 :: "bytes \<Rightarrow> u32" where
  "load32 src = ucast (src ! 0) OR push_bit 8 (ucast (src ! 1))
     OR push_bit 16 (ucast (src ! 2)) OR push_bit 24 (ucast (src ! 3))"

definition store64 :: "u64 \<Rightarrow> bytes" where
  "store64 v = [ucast v, ucast (drop_bit 8 v), ucast (drop_bit 16 v), ucast (drop_bit 24 v),
     ucast (drop_bit 32 v), ucast (drop_bit 40 v), ucast (drop_bit 48 v), ucast (drop_bit 56 v)]"

definition load64 :: "bytes \<Rightarrow> u64" where
  "load64 src = ucast (src ! 0) OR push_bit 8 (ucast (src ! 1))
     OR push_bit 16 (ucast (src ! 2)) OR push_bit 24 (ucast (src ! 3))
     OR push_bit 32 (ucast (src ! 4)) OR push_bit 40 (ucast (src ! 5))
     OR push_bit 48 (ucast (src ! 6)) OR push_bit 56 (ucast (src ! 7))"

section \<open>Encoders and decoders\<close>

definition sph_enc16be :: "u32 \<Rightarrow> bytes" where
  "sph_enc16be val = [ucast (drop_bit 8 val), ucast val]"

definition sph_dec16be :: "bytes \<Rightarrow> u32" where
  "sph_dec16be src = push_bit 8 (ucast (src ! 0)) OR ucast (src ! 1)"

definition sph_enc16le :: "u32 \<Rightarrow> bytes" where
  "sph_enc16le val = [ucast val, ucast (drop_bit 8 val)]"

definition sph_dec16le :: "bytes \<Rightarrow> u32" where
  "sph_dec16le src = ucast (src ! 0) OR push_bit 8 (ucast (src ! 1))"

definition sph_enc32be :: "u32 \<Rightarrow> bytes" where
  "sph_enc32be val = store32 (sph_bswap32 val)"

definition sph_enc32be_generic :: "u32 \<Rightarrow> bytes" where
  "sph_enc32be_generic val =
     [ucast (drop_bit 24 val), ucast (drop_bit 16 val), ucast (drop_bit 8 val), ucast val]"

definition sph_enc32be_aligned :: "u32 \<Rightarrow> bytes" where
  "sph_enc32be_aligned val = store32 (sph_bswap32 val)"

definition sph_dec32be :: "bytes \<Rightarrow> u32" where
  "sph_dec32be src = sph_bswap32 (load32 src)"

definition sph_dec32be_generic :: "bytes \<Rightarrow> u32" where
  "sph_dec32be_generic src = push_bit 24 (ucast (src ! 0)) OR push_bit 16 (ucast (src ! 1))
     OR push_bit 8 (ucast (src ! 2)) OR ucast (src ! 3)"

definition sph_dec32be_aligned :: "bytes \<Rightarrow> u32" where
  "sph_dec32be_aligned src = sph_bswap32 (load32 src)"

definition sph_enc32le :: "u32 \<Rightarrow> bytes" where
  "sph_enc32le val = store32 val"

definition sph_enc32le_generic :: "u32 \<Rightarrow> bytes" where
  "sph_enc32le_generic val =
     [ucast val, ucast (drop_bit 8 val), ucast (drop_bit 16 val), ucast (drop_bit 24 val)]"

definition sph_enc32le_aligned :: "u32 \<Rightarrow> bytes" where
  "sph_enc32le_aligned val = store32 val"

definition sph_dec32le :: "bytes \<Rightarrow> u32" where
  "sph_dec32le src = load32 src"

definition sph_dec32le_generic :: "bytes \<Rightarrow> u32" where
  "sph_dec32le_generic src = ucast (src ! 0) OR push_bit 8 (ucast (src ! 1))
     OR push_bit 16 (ucast (src ! 2)) OR push_bit 24 (ucast (src ! 3))"

definition sph_dec32le_aligned :: "bytes \<Rightarrow> u32" where
  "sph_dec32le_aligned src = load32 src"

definition sph_enc64be :: "u64 \<Rightarrow> bytes" where
  "sph_enc64be val = store64 (sph_bswap64 val)"

definition sph_enc64be_generic :: "u64 \<Rightarrow> bytes" where
  "sph_enc64be_generic val =
     [ucast (drop_bit 56 val), ucast (drop_bit 48 val), ucast (drop_bit 40 val),
      ucast (drop_bit 32 val), ucast (drop_bit 24 val), ucast (drop_bit 16 val),
      ucast (drop_bit 8 val), ucast val]"

definition sph_enc64be_aligned :: "u64 \<Rightarrow> bytes" where
  "sph_enc64be_aligned val = store64 (sph_bswap64 val)"

definition sph_dec64be :: "bytes \<Rightarrow> u64" where
  "sph_dec64be src = sph_bswap64 (load64 src)"

definition sph_dec64be_generic :: "bytes \<Rightarrow> u64" where
  "sph_dec64be_generic src = push_bit 56 (ucast (src ! 0)) OR push_bit 48 (ucast (src ! 1))
     OR push_bit 40 (ucast (src ! 2)) OR push_bit 32 (ucast (src ! 3))
     OR push_bit 24 (ucast (src ! 4)) OR push_bit 16 (ucast (src ! 5))
     OR push_bit 8 (ucast (src ! 6)) OR ucast (src ! 7)"

definition sph_dec64be_aligned :: "bytes \<Rightarrow> u64" where
  "sph_dec64be_aligned src = sph_bswap64 (load64 src)"

definition sph_enc64le :: "u64 \<Rightarrow> bytes" where
  "sph_enc64le val = store64 val"

definition sph_enc64le_generic :: "u64 \<Rightarrow> bytes" where
  "sph_enc64le_generic val =
     [ucast val, ucast (drop_bit 8 val), ucast (drop_bit 16 val), ucast (drop_bit 24 val),
      ucast (drop_bit 32 val), ucast (drop_bit 40 val), ucast (drop_bit 48 val),
      ucast (drop_bit 56 val)]"

definition sph_enc64le_aligned :: "u64 \<Rightarrow> bytes" where
  "sph_enc64le_aligned val = store64 val"

definition sph_dec64le :: "bytes \<Rightarrow> u64" where
  "sph_dec64le src = load64 src"

definition sph_dec64le_generic :: "bytes \<Rightarrow> u64" where
  "sph_dec64le_generic src = ucast (src ! 0) OR push_bit 8 (ucast (src ! 1))
     OR push_bit 16 (ucast (src ! 2)) OR push_bit 24 (ucast (src ! 3))
     OR push_bit 32 (ucast (src ! 4)) OR push_bit 40 (ucast (src ! 5))
     OR push_bit 48 (ucast (src ! 6)) OR push_bit 56 (ucast (src ! 7))"

definition sph_dec64le_aligned :: "bytes \<Rightarrow> u64" where
  "sph_dec64le_aligned src = load64 src"

section \<open>Truncation and rotation, characterised\<close>

lemma SPH_T32_id [simp]: "SPH_T32 x = x"
proof -
  have "(0xFFFFFFFF :: u32) = - 1" by simp
  then show ?thesis by (simp only: SPH_T32_def) simp
qed

lemma SPH_T64_id [simp]: "SPH_T64 x = x"
proof -
  have "(0xFFFFFFFFFFFFFFFF :: u64) = - 1" by simp
  then show ?thesis by (simp only: SPH_T64_def) simp
qed

lemma rotl_shifts:
  fixes x :: "'a::len word"
  assumes "n \<le> LENGTH('a)"
  shows "push_bit n x OR drop_bit (LENGTH('a) - n) x = word_rotl n x"
proof (cases "n = LENGTH('a)")
  case True
  then show ?thesis
    by (intro bit_word_eqI) (auto simp: bit_simps dest: bit_imp_le_length)
next
  case False
  with assms have n: "n < LENGTH('a)" by simp
  show ?thesis
  proof (rule bit_word_eqI)
    fix i assume i: "i < LENGTH('a)"
    show "bit (push_bit n x OR drop_bit (LENGTH('a) - n) x) i = bit (word_rotl n x) i"
    proof (cases "n \<le> i")
      case True
      then have "(i + (LENGTH('a) - n)) mod LENGTH('a) = i - n"
        using i n by (simp add: mod_if)
      moreover have "\<not> bit x (LENGTH('a) - n + i)"
        using True i by (auto dest: bit_imp_le_length)
      ultimately show ?thesis
        using True i n by (simp add: bit_simps)
    next
      case False
      then have "(i + (LENGTH('a) - n)) mod LENGTH('a) = i + (LENGTH('a) - n)"
        using i n by simp
      then show ?thesis
        using False i n by (simp add: bit_simps ac_simps)
    qed
  qed
qed

lemma SPH_ROTL32_rotl: "n \<le> 32 \<Longrightarrow> SPH_ROTL32 x n = word_rotl n x"
  using rotl_shifts [of n x] by (simp add: SPH_ROTL32_def)

lemma SPH_ROTL64_rotl: "n \<le> 64 \<Longrightarrow> SPH_ROTL64 x n = word_rotl n x"
  using rotl_shifts [of n x] by (simp add: SPH_ROTL64_def)

lemma rotl_diff_rotr:
  fixes x :: "'a::len word"
  assumes "n \<le> LENGTH('a)"
  shows "word_rotl (LENGTH('a) - n) x = word_rotr n x"
proof (cases "n = 0")
  case True
  then show ?thesis
    by (intro bit_word_eqI) (simp add: bit_word_rotl_iff bit_word_rotr_iff)
next
  case False
  with assms have "(LENGTH('a) - n) mod LENGTH('a) = LENGTH('a) - n" by simp
  with False assms show ?thesis
    by (intro bit_word_eqI) (simp add: bit_word_rotl_iff bit_word_rotr_iff)
qed

lemma SPH_ROTR32_rotr: "n \<le> 32 \<Longrightarrow> SPH_ROTR32 x n = word_rotr n x"
  using rotl_diff_rotr [of n x] by (simp add: SPH_ROTR32_def SPH_ROTL32_rotl)

lemma SPH_ROTR64_rotr: "n \<le> 64 \<Longrightarrow> SPH_ROTR64 x n = word_rotr n x"
  using rotl_diff_rotr [of n x] by (simp add: SPH_ROTR64_def SPH_ROTL64_rotl)

lemmas sph_rot = SPH_ROTL32_rotl SPH_ROTL64_rotl SPH_ROTR32_rotr SPH_ROTR64_rotr

section \<open>Words as bytes\<close>

lemma octet_cases32:
  assumes "(i::nat) < 32"
  obtains "i < 8" | "8 \<le> i" "i < 16" | "16 \<le> i" "i < 24" | "24 \<le> i" "i < 32"
  using assms by linarith

lemma octet_cases64:
  assumes "(i::nat) < 64"
  obtains "i < 32" | "32 \<le> i" "i < 40" | "40 \<le> i" "i < 48" | "48 \<le> i" "i < 56"
    | "56 \<le> i" "i < 64"
  using assms by linarith

lemma byte_eqI:
  fixes a b :: byte
  assumes "bit a 0 = bit b 0" "bit a 1 = bit b 1" "bit a 2 = bit b 2" "bit a 3 = bit b 3"
    "bit a 4 = bit b 4" "bit a 5 = bit b 5" "bit a 6 = bit b 6" "bit a 7 = bit b 7"
  shows "a = b"
proof (rule bit_word_eqI)
  fix i assume "i < LENGTH(8)"
  then have "i \<in> {0, 1, 2, 3, 4, 5, 6, 7}" by auto
  then show "bit a i = bit b i" using assms by blast
qed

lemma bit_outside [simp]:
  "8 \<le> n \<Longrightarrow> \<not> bit (b :: byte) n" "32 \<le> n \<Longrightarrow> \<not> bit (v :: u32) n" "64 \<le> n \<Longrightarrow> \<not> bit (w :: u64) n"
  by (auto dest: bit_imp_le_length)

lemma load32_store32 [simp]: "load32 (store32 v) = v"
proof (rule bit_word_eqI)
  fix i assume "i < LENGTH(32)"
  then have "i < 32" by simp
  then show "bit (load32 (store32 v)) i = bit v i"
    by (cases rule: octet_cases32) (simp_all add: load32_def store32_def bit_simps less_diff_conv2)
qed

lemma load64_store64 [simp]: "load64 (store64 v) = v"
proof (rule bit_word_eqI)
  fix i assume "i < LENGTH(64)"
  then have i: "i < 64" by simp
  show "bit (load64 (store64 v)) i = bit v i"
  proof (cases "i < 32")
    case True
    then show ?thesis
      by (cases rule: octet_cases32) (simp_all add: load64_def store64_def bit_simps less_diff_conv2)
  next
    case False
    with i show ?thesis
      by (cases rule: octet_cases64) (simp_all add: load64_def store64_def bit_simps less_diff_conv2)
  qed
qed

lemma length_store [simp, bytes_simps]: "length (store32 v) = 4" "length (store64 w) = 8"
  by (simp_all add: store32_def store64_def)

lemma nth_store32:
  "i < 4 \<Longrightarrow> store32 v ! i = ucast (drop_bit (8 * i) v)"
  by (auto simp: store32_def less_Suc_eq numeral_eq_Suc)

lemma store32_load32:
  assumes "length bs = 4"
  shows "store32 (load32 bs) = bs"
proof -
  obtain b0 b1 b2 b3 where bs: "bs = [b0, b1, b2, b3]"
    using assms by (auto simp: length_Suc_conv numeral_eq_Suc)
  show ?thesis
    by (simp add: bs store32_def load32_def) (intro conjI byte_eqI; simp add: bit_simps)
qed

lemma store64_load64:
  assumes "length bs = 8"
  shows "store64 (load64 bs) = bs"
proof -
  obtain b0 b1 b2 b3 b4 b5 b6 b7 where bs: "bs = [b0, b1, b2, b3, b4, b5, b6, b7]"
    using assms by (auto simp: length_Suc_conv numeral_eq_Suc)
  show ?thesis
    by (simp add: bs store64_def load64_def) (intro conjI byte_eqI; simp add: bit_simps)
qed

lemma enc32be_generic: "sph_enc32be v = sph_enc32be_generic v"
  by (simp add: sph_enc32be_def sph_enc32be_generic_def store32_def)
    (intro conjI byte_eqI; simp add: sph_bswap32_def Let_def bit_simps)

lemma enc64be_generic: "sph_enc64be v = sph_enc64be_generic v"
  by (simp add: sph_enc64be_def sph_enc64be_generic_def store64_def)
    (intro conjI byte_eqI; simp add: sph_bswap64_def Let_def bit_simps)

lemma store_bswap:
  "store32 (sph_bswap32 v) = rev (store32 v)" "store64 (sph_bswap64 w) = rev (store64 w)"
  using enc32be_generic [of v] enc64be_generic [of w]
  by (simp_all add: sph_enc32be_def sph_enc32be_generic_def sph_enc64be_def
      sph_enc64be_generic_def store32_def store64_def)

lemma bswap_load:
  "length bs = 4 \<Longrightarrow> sph_bswap32 (load32 bs) = load32 (rev bs)"
  "length bs = 8 \<Longrightarrow> sph_bswap64 (load64 bs) = load64 (rev bs)"
  by (metis load32_store32 store_bswap(1) store32_load32,
      metis load64_store64 store_bswap(2) store64_load64)

lemma bswap_bswap [simp]: "sph_bswap32 (sph_bswap32 v) = v" "sph_bswap64 (sph_bswap64 w) = w"
  by (metis load32_store32 rev_rev_ident store_bswap(1),
      metis load64_store64 rev_rev_ident store_bswap(2))

lemma length_enc [simp, bytes_simps]:
  "length (sph_enc32be v) = 4" "length (sph_enc32be_aligned v) = 4"
  "length (sph_enc32le v) = 4" "length (sph_enc32le_aligned v) = 4"
  "length (sph_enc64be w) = 8" "length (sph_enc64be_aligned w) = 8"
  "length (sph_enc64le w) = 8" "length (sph_enc64le_aligned w) = 8"
  by (simp_all add: sph_enc32be_def sph_enc32be_aligned_def sph_enc32le_def sph_enc32le_aligned_def
      sph_enc64be_def sph_enc64be_aligned_def sph_enc64le_def sph_enc64le_aligned_def)

lemmas sph_codec_defs =
  sph_enc32be_def sph_enc32be_aligned_def sph_enc32le_def sph_enc32le_aligned_def
  sph_enc64be_def sph_enc64be_aligned_def sph_enc64le_def sph_enc64le_aligned_def
  sph_dec32be_def sph_dec32be_aligned_def sph_dec32le_def sph_dec32le_aligned_def
  sph_dec64be_def sph_dec64be_aligned_def sph_dec64le_def sph_dec64le_aligned_def

lemma dec32be_generic: "length bs = 4 \<Longrightarrow> sph_dec32be bs = sph_dec32be_generic bs"
  by (simp add: sph_dec32be_def bswap_load)
    (simp add: load32_def sph_dec32be_generic_def rev_nth or.commute or.left_commute)

lemma dec64be_generic: "length bs = 8 \<Longrightarrow> sph_dec64be bs = sph_dec64be_generic bs"
  by (simp add: sph_dec64be_def bswap_load)
    (simp add: load64_def sph_dec64be_generic_def rev_nth or.commute or.left_commute)

lemma enc_dec_le_generic:
  "sph_enc32le v = sph_enc32le_generic v" "sph_dec32le bs = sph_dec32le_generic bs"
  "sph_enc64le w = sph_enc64le_generic w" "sph_dec64le bs = sph_dec64le_generic bs"
  by (simp_all add: sph_codec_defs sph_enc32le_generic_def sph_dec32le_generic_def
      sph_enc64le_generic_def sph_dec64le_generic_def store32_def store64_def load32_def load64_def)

lemma dec_enc [simp]:
  "sph_dec32be (sph_enc32be v) = v" "sph_dec32le (sph_enc32le v) = v"
  "sph_dec64be (sph_enc64be w) = w" "sph_dec64le (sph_enc64le w) = w"
  by (simp_all add: sph_codec_defs)

lemma enc_dec:
  "length bs = 4 \<Longrightarrow> sph_enc32be (sph_dec32be bs) = bs"
  "length bs = 4 \<Longrightarrow> sph_enc32le (sph_dec32le bs) = bs"
  "length cs = 8 \<Longrightarrow> sph_enc64be (sph_dec64be cs) = cs"
  "length cs = 8 \<Longrightarrow> sph_enc64le (sph_dec64le cs) = cs"
  by (simp_all add: sph_codec_defs store_bswap store32_load32 store64_load64)

section \<open>Properties\<close>

text \<open>
  the byte-order primitives.  The word accesses of the little-endian build (\<open>SPH_UPTR\<close>,
  \<open>SPH_UNALIGNED\<close>) write and read the same bytes as the portable byte-by-byte branches of the same
  functions, the aligned variants agree with the unaligned ones, and encoding and decoding are
  inverse to each other in both directions.
\<close>

theorem sph_codecs_correct:
  assumes "length bs = 4" "length cs = 8"
  shows "sph_enc32be v = sph_enc32be_generic v \<and> sph_enc32le v = sph_enc32le_generic v
    \<and> sph_enc64be w = sph_enc64be_generic w \<and> sph_enc64le w = sph_enc64le_generic w
    \<and> sph_dec32be bs = sph_dec32be_generic bs \<and> sph_dec32le bs = sph_dec32le_generic bs
    \<and> sph_dec64be cs = sph_dec64be_generic cs \<and> sph_dec64le cs = sph_dec64le_generic cs
    \<and> sph_enc32be_aligned v = sph_enc32be v \<and> sph_enc32le_aligned v = sph_enc32le v
    \<and> sph_enc64be_aligned w = sph_enc64be w \<and> sph_enc64le_aligned w = sph_enc64le w
    \<and> sph_dec32be (sph_enc32be v) = v \<and> sph_dec32le (sph_enc32le v) = v
    \<and> sph_dec64be (sph_enc64be w) = w \<and> sph_dec64le (sph_enc64le w) = w
    \<and> sph_enc32be (sph_dec32be bs) = bs \<and> sph_enc32le (sph_dec32le bs) = bs
    \<and> sph_enc64be (sph_dec64be cs) = cs \<and> sph_enc64le (sph_dec64le cs) = cs"
  using assms
  by (simp add: enc_dec dec32be_generic [symmetric] dec64be_generic [symmetric]
      enc32be_generic [symmetric] enc64be_generic [symmetric] enc_dec_le_generic [symmetric])
    (simp add: sph_codec_defs)

theorem sph_codecs_correct_witness:
  "sph_enc32be 0x01020304 = [1, 2, 3, 4] \<and> sph_dec64le [8, 7, 6, 5, 4, 3, 2, 1] = 0x0102030405060708"
proof -
  have "sph_enc32be 0x01020304 = sph_enc32be_generic 0x01020304"
    "sph_dec64le [8, 7, 6, 5, 4, 3, 2, 1] = sph_dec64le_generic [8, 7, 6, 5, 4, 3, 2, 1]"
    using sph_codecs_correct [where bs = "[1, 2, 3, 4]" and cs = "[8, 7, 6, 5, 4, 3, 2, 1]" and v = "0x01020304"] by simp_all
  then show ?thesis
    by (simp add: sph_enc32be_generic_def sph_dec64le_generic_def drop_bit_eq_div push_bit_eq_mult)
qed

end
