(* ===== verification/Sph_Buffer.thy ===== *)
theory Sph_Buffer
  imports Sph_Types
begin

text \<open>
  The input side that the sphlib hash functions share.  A context holds a block buffer
  \<open>buf\<close> and a fill level \<open>ptr\<close>; the update function copies input into the buffer and runs
  the compression function whenever the buffer is full.  \<open>buf_loop\<close> is that loop,
  \<open>buf_update\<close> the loop behind the early return most of the files put before it
  (\<^verbatim>\<open>blake32\<close>, \<^verbatim>\<open>blake64\<close>, \<^verbatim>\<open>keccak_core\<close>, \<^verbatim>\<open>jh_core\<close>, \<^verbatim>\<open>groestl_small_core\<close>, \dots).
  The state between calls is the triple \<open>(h, buf, ptr)\<close> of chaining value, buffer and fill
  level.  The locale \<open>sph_stream\<close> states what a context and its update function promise:
  what it absorbs does not depend on how the input was cut into calls.
\<close>

section \<open>The loop\<close>

text \<open>
  \<open>clen = bs - ptr\<close> is an unsigned subtraction: with \<open>ptr\<close> beyond the block it wraps to a
  number larger than any length, so that \<open>clen\<close> becomes \<open>len\<close>.  A block size is
  \<open>sizeof buf\<close> and never 0.
\<close>

function buf_loop ::
  "nat \<Rightarrow> ('h \<Rightarrow> bytes \<Rightarrow> 'h) \<Rightarrow> 'h \<times> bytes \<times> nat \<Rightarrow> bytes \<Rightarrow> 'h \<times> bytes \<times> nat" where
  "buf_loop bs f (h, buf, ptr) data =
     (if data = [] \<or> bs = 0 then (h, buf, ptr)
      else let clen = (if ptr \<le> bs then bs - ptr else length data);
               clen = (if clen > length data then length data else clen);
               buf = memcpy buf ptr (take clen data);
               ptr = ptr + clen;
               data = drop clen data
           in if ptr = bs then buf_loop bs f (f h buf, buf, 0) data
              else buf_loop bs f (h, buf, ptr) data)"
  by pat_completeness auto
termination
  by (relation "measures [\<lambda>(bs, f, (h, buf, ptr), data). length data,
        \<lambda>(bs, f, (h, buf, ptr), data). if ptr = bs then 1 else 0]")
    (auto split: if_splits)

declare buf_loop.simps [simp del]

definition buf_update ::
  "nat \<Rightarrow> ('h \<Rightarrow> bytes \<Rightarrow> 'h) \<Rightarrow> 'h \<times> bytes \<times> nat \<Rightarrow> bytes \<Rightarrow> 'h \<times> bytes \<times> nat" where
  "buf_update bs f s data =
     (case s of (h, buf, ptr) \<Rightarrow>
        if length data < bs - ptr then (h, memcpy buf ptr data, ptr + length data)
        else buf_loop bs f (h, buf, ptr) data)"

section \<open>One byte at a time\<close>

text \<open>The specification of the loop: each byte is stored, and a full buffer is compressed.\<close>

definition absorb1 :: "nat \<Rightarrow> ('h \<Rightarrow> bytes \<Rightarrow> 'h) \<Rightarrow> 'h \<times> bytes \<times> nat \<Rightarrow> byte \<Rightarrow> 'h \<times> bytes \<times> nat" where
  "absorb1 bs f s x =
     (case s of (h, buf, ptr) \<Rightarrow>
        let buf = buf[ptr := x] in
        if Suc ptr = bs then (f h buf, buf, 0) else (h, buf, Suc ptr))"

definition absorb :: "nat \<Rightarrow> ('h \<Rightarrow> bytes \<Rightarrow> 'h) \<Rightarrow> 'h \<times> bytes \<times> nat \<Rightarrow> bytes \<Rightarrow> 'h \<times> bytes \<times> nat" where
  "absorb bs f = foldl (absorb1 bs f)"

definition buf_wf :: "nat \<Rightarrow> 'h \<times> bytes \<times> nat \<Rightarrow> bool" where
  "buf_wf bs s \<longleftrightarrow> (case s of (h, buf, ptr) \<Rightarrow> length buf = bs \<and> ptr < bs)"

lemma absorb_Nil [simp]: "absorb bs f s [] = s"
  by (simp add: absorb_def)

lemma absorb_append: "absorb bs f s (a @ b) = absorb bs f (absorb bs f s a) b"
  by (simp add: absorb_def)

lemma absorb1_wf: "buf_wf bs s \<Longrightarrow> buf_wf bs (absorb1 bs f s x)"
  by (cases s) (auto simp: buf_wf_def absorb1_def Let_def)

lemma absorb_wf: "buf_wf bs s \<Longrightarrow> buf_wf bs (absorb bs f s xs)"
  by (induction xs arbitrary: s) (simp_all add: absorb_def absorb1_wf)

text \<open>Input that does not reach the end of the buffer, and input that just does.\<close>

lemma absorb_partial:
  "length buf = bs \<Longrightarrow> ptr + length xs < bs \<Longrightarrow>
   absorb bs f (h, buf, ptr) xs = (h, memcpy buf ptr xs, ptr + length xs)"
proof (induction xs arbitrary: buf ptr)
  case Nil
  then show ?case by simp
next
  case (Cons x xs)
  from Cons.prems have "absorb bs f (h, buf[ptr := x], Suc ptr) xs =
      (h, memcpy (buf[ptr := x]) (Suc ptr) xs, Suc ptr + length xs)"
    by (intro Cons.IH) simp_all
  with Cons.prems show ?case
    by (simp add: absorb_def absorb1_def memcpy_Cons)
qed

lemma absorb_fill:
  assumes "length buf = bs" "ptr + length xs = bs" "xs \<noteq> []"
  shows "absorb bs f (h, buf, ptr) xs = (f h (memcpy buf ptr xs), memcpy buf ptr xs, 0)"
proof -
  obtain ys y where xs: "xs = ys @ [y]"
    using assms(3) by (cases xs rule: rev_cases) auto
  have "absorb bs f (h, buf, ptr) ys = (h, memcpy buf ptr ys, ptr + length ys)"
    using assms by (intro absorb_partial) (simp_all add: xs)
  moreover have "(memcpy buf ptr ys)[ptr + length ys := y] = memcpy buf ptr xs"
    using assms by (simp add: xs memcpy_memcpy [symmetric] memcpy_Cons)
  ultimately show ?thesis
    using assms by (simp add: xs absorb_append) (simp add: absorb_def absorb1_def Let_def)
qed

theorem buf_loop_absorb: "buf_wf bs s \<Longrightarrow> buf_loop bs f s data = absorb bs f s data"
proof (induction bs f s data rule: buf_loop.induct)
  case (1 bs f h buf ptr data)
  from "1.prems" have len: "length buf = bs" and ptr: "ptr < bs" by (simp_all add: buf_wf_def)
  show ?case
  proof (cases "data = []")
    case True
    then show ?thesis by (simp add: buf_loop.simps)
  next
    case ne: False
    show ?thesis
    proof (cases "bs - ptr > length data")
      case True
      then show ?thesis
        using len ptr ne by (simp add: buf_loop.simps absorb_partial Let_def)
    next
      case False
      define d1 d2 where "d1 = take (bs - ptr) data" and "d2 = drop (bs - ptr) data"
      have d: "data = d1 @ d2" and l1: "ptr + length d1 = bs" and n1: "d1 \<noteq> []"
        using False ptr ne by (simp_all add: d1_def d2_def)
      let ?b = "memcpy buf ptr d1"
      have wf: "buf_wf bs (f h ?b, ?b, 0)"
        using l1 len ptr by (simp add: buf_wf_def)
      have "buf_loop bs f (h, buf, ptr) data = buf_loop bs f (f h ?b, ?b, 0) d2"
        using False ptr ne by (simp add: buf_loop.simps [of bs f h buf ptr] d1_def d2_def Let_def)
      also have "\<dots> = absorb bs f (f h ?b, ?b, 0) d2"
        using "1.IH"(1) [OF _ refl refl refl refl refl] False ptr ne wf
        by (simp add: d1_def d2_def)
      also have "\<dots> = absorb bs f (h, buf, ptr) data"
        using l1 n1 len by (simp add: d absorb_append absorb_fill)
      finally show ?thesis .
    qed
  qed
qed

theorem buf_update_absorb: "buf_wf bs s \<Longrightarrow> buf_update bs f s data = absorb bs f s data"
  by (cases s) (auto simp: buf_update_def buf_loop_absorb buf_wf_def absorb_partial)

text \<open>A buffer longer than the block size: the bytes behind the block are never touched.\<close>

lemma memcpy_rest: "off + length d \<le> length b \<Longrightarrow> memcpy (b @ r) off d = memcpy b off d @ r"
  by (simp add: memcpy_def)

lemma buf_loop_rest:
  assumes f: "\<And>h b. length b = bs \<Longrightarrow> f h (b @ r) = f' h b"
  shows "length b = bs \<Longrightarrow> p < bs \<Longrightarrow> buf_loop bs f (h, b @ r, p) d =
     (case buf_loop bs f' (h, b, p) d of (h', b', p') \<Rightarrow> (h', b' @ r, p'))"
proof (induction "length d" arbitrary: h b p d rule: less_induct)
  case less
  show ?case
  proof (cases "length d < bs - p")
    case True
    then have "p + length d \<noteq> bs" by simp
    then show ?thesis
      using less.prems True by (cases "d = []") (simp_all add: buf_loop.simps Let_def memcpy_rest)
  next
    case False
    let ?x = "memcpy b p (take (bs - p) d)"
    have cp: "memcpy (b @ r) p (take (bs - p) d) = ?x @ r" and lb: "length ?x = bs"
      and lt: "length (drop (bs - p) d) < length d" and ne: "d \<noteq> []"
      using False less.prems by (auto simp: memcpy_rest)
    show ?thesis
      using less.prems False ne less.hyps [OF lt lb, of 0 "f' h ?x"]
      by (simp add: buf_loop.simps [of _ _ _ "b @ r"] buf_loop.simps [of _ _ _ b] Let_def cp f lb)
  qed
qed

lemma buf_update_rest:
  assumes "\<And>h b. length b = bs \<Longrightarrow> f h (b @ r) = f' h b" "length b = bs" "p < bs"
  shows "buf_update bs f (h, b @ r, p) d =
     (case buf_update bs f' (h, b, p) d of (h', b', p') \<Rightarrow> (h', b' @ r, p'))"
  using assms(2,3) buf_loop_rest [of bs f r f', OF assms(1) assms(2,3)]
  by (simp add: buf_update_def memcpy_rest)

section \<open>Whole messages\<close>

lemma absorb_block:
  "length buf = bs \<Longrightarrow> length b = bs \<Longrightarrow> 0 < bs \<Longrightarrow> absorb bs f (h, buf, 0) b = (f h b, b, 0)"
  by (subst absorb_fill) (auto simp: memcpy_full)

lemma absorb_blocks:
  "length buf = bs \<Longrightarrow> 0 < bs \<Longrightarrow> bs dvd length m \<Longrightarrow>
   \<exists>buf'. length buf' = bs \<and> absorb bs f (h, buf, 0) m = (foldl f h (full_blocks bs m), buf', 0)"
proof (induction "length m div bs" arbitrary: m h buf)
  case 0
  then have "m = []"
    using no_block_empty [of bs m] by simp
  with 0 show ?case by simp
next
  case (Suc k)
  define b r where "b = take bs m" and "r = drop bs m"
  have "bs \<le> length m"
    using Suc.hyps(2) by (metis Suc_neq_Zero div_less not_le)
  then have m: "m = b @ r" and lb: "length b = bs"
    by (simp_all add: b_def r_def)
  have "k = length r div bs" "bs dvd length r"
    using Suc.hyps(2) Suc.prems m lb by (simp_all add: dvd_add_right_iff)
  then obtain buf' where "length buf' = bs"
    "absorb bs f (f h b, b, 0) r = (foldl f (f h b) (full_blocks bs r), buf', 0)"
    using Suc.hyps(1) [of r b "f h b"] lb Suc.prems by blast
  then show ?case
    using Suc.prems lb by (intro exI [of _ buf']) (simp add: m absorb_append absorb_block full_blocks_Cons)
qed

lemma absorb_message:
  assumes "length buf = bs" "0 < bs"
  obtains buf' where "length buf' = bs"
    "absorb bs f (h, buf, 0) m = (foldl f h (full_blocks bs m), buf', length m mod bs)"
    "take (length m mod bs) buf' = tail_bytes bs m"
proof -
  obtain p where m: "m = p @ tail_bytes bs m" and p: "bs dvd length p"
    and t: "length (tail_bytes bs m) < bs" and fb: "full_blocks bs p = full_blocks bs m"
    using block_tail_split [OF assms(2), of m] by blast
  obtain buf1 where b1: "length buf1 = bs"
    "absorb bs f (h, buf, 0) p = (foldl f h (full_blocks bs p), buf1, 0)"
    using absorb_blocks [OF assms p, of f h] by blast
  have "absorb bs f (h, buf, 0) m = absorb bs f (absorb bs f (h, buf, 0) p) (tail_bytes bs m)"
    unfolding absorb_append [symmetric] using m by (rule arg_cong)
  also have "\<dots> = (foldl f h (full_blocks bs m), memcpy buf1 0 (tail_bytes bs m), length m mod bs)"
    using b1 t by (simp add: absorb_partial fb)
  finally have "absorb bs f (h, buf, 0) m = \<dots>" .
  moreover have "take (length m mod bs) (memcpy buf1 0 (tail_bytes bs m)) = tail_bytes bs m"
    by (simp add: memcpy_def)
  ultimately show ?thesis
    using b1 t that [of "memcpy buf1 0 (tail_bytes bs m)"] by simp
qed

section \<open>What a streaming context promises\<close>

text \<open>
  \<open>view\<close> reads the triple \<open>(h, buf, ptr)\<close> off a context.  A provider shows that its update
  function absorbs bytes into that triple and touches nothing else.
\<close>

locale sph_stream =
  fixes bs :: nat
    and step :: "'h \<Rightarrow> bytes \<Rightarrow> 'h"
    and view :: "'c \<Rightarrow> 'h \<times> bytes \<times> nat"
    and update :: "'c \<Rightarrow> bytes \<Rightarrow> 'c"
  assumes bs_pos: "0 < bs"
    and view_inj: "view c = view d \<Longrightarrow> c = d"
    and view_update: "buf_wf bs (view c) \<Longrightarrow> view (update c data) = absorb bs step (view c) data"
begin

lemma update_wf: "buf_wf bs (view c) \<Longrightarrow> buf_wf bs (view (update c data))"
  by (simp add: view_update absorb_wf)

lemma update_append:
  "buf_wf bs (view c) \<Longrightarrow> update (update c a) b = update c (a @ b)"
  by (rule view_inj) (simp add: view_update update_wf absorb_append absorb_wf)

lemma update_Nil: "buf_wf bs (view c) \<Longrightarrow> update c [] = c"
  by (rule view_inj) (simp add: view_update)

lemma update_chunks:
  "buf_wf bs (view c) \<Longrightarrow> foldl update c chunks = update c (concat chunks)"
  by (induction chunks arbitrary: c) (simp_all add: update_Nil update_wf update_append)

lemma view_message:
  assumes "view c = (h, buf, 0)" "length buf = bs"
  obtains buf' where "length buf' = bs"
    "view (update c m) = (foldl step h (full_blocks bs m), buf', length m mod bs)"
    "take (length m mod bs) buf' = tail_bytes bs m"
  using absorb_message [of buf bs step h m] assms bs_pos view_update [of c m]
  by (auto simp: buf_wf_def)

end

text \<open>
  A whole hash function: \<open>init\<close> makes any memory of the right shape a fresh context,
  \<open>close\<close> (the \<open>_addbits_and_close\<close> functions, with up to 7 extra bits) returns the digest
  of what was absorbed since and leaves a fresh context behind.  A session is a sequence of
  messages, each given in pieces and ended by extra bits, hashed one after the other in one
  context.
\<close>

definition fresh_ctx :: "nat \<Rightarrow> ('h \<Rightarrow> bool) \<Rightarrow> ('c \<Rightarrow> 'h \<times> bytes \<times> nat) \<Rightarrow> 'c \<Rightarrow> bool" where
  "fresh_ctx bs h0 view c \<longleftrightarrow> (\<exists>h buf. view c = (h, buf, 0) \<and> h0 h \<and> length buf = bs)"

type_synonym message = "bytes list \<times> u32 \<times> nat"

fun hash_session ::
  "('c \<Rightarrow> bytes \<Rightarrow> 'c) \<Rightarrow> ('c \<Rightarrow> u32 \<Rightarrow> nat \<Rightarrow> 'c \<times> bytes) \<Rightarrow> 'c \<Rightarrow> message list \<Rightarrow> bytes list" where
  "hash_session upd cls c [] = []"
| "hash_session upd cls c ((chunks, ub, n) # rest) =
     (case cls (foldl upd c chunks) ub n of (c', d) \<Rightarrow> d # hash_session upd cls c' rest)"

definition messages_ok :: "message list \<Rightarrow> bool" where
  "messages_ok msgs = list_all (\<lambda>(chunks, ub, n). n < 8) msgs"

definition digests :: "(bytes \<Rightarrow> byte \<Rightarrow> nat \<Rightarrow> bytes) \<Rightarrow> message list \<Rightarrow> bytes list" where
  "digests spec msgs = map (\<lambda>(chunks, ub, n). spec (concat chunks) (ucast ub) n) msgs"

locale sph_hash = sph_stream +
  fixes h0 :: "'h \<Rightarrow> bool"
    and mem_ok :: "'c \<Rightarrow> bool"
    and init :: "'c \<Rightarrow> 'c"
    and close :: "'c \<Rightarrow> u32 \<Rightarrow> nat \<Rightarrow> 'c \<times> bytes"
    and spec :: "bytes \<Rightarrow> byte \<Rightarrow> nat \<Rightarrow> bytes"
  assumes init_fresh: "mem_ok c \<Longrightarrow> fresh_ctx bs h0 view (init c)"
    and close_digest: "fresh_ctx bs h0 view c \<Longrightarrow> n < 8 \<Longrightarrow> snd (close (update c m) ub n) = spec m (ucast ub) n"
    and close_fresh: "fresh_ctx bs h0 view c \<Longrightarrow> n < 8 \<Longrightarrow> fresh_ctx bs h0 view (fst (close (update c m) ub n))"
begin

lemma fresh_wf: "fresh_ctx bs h0 view c \<Longrightarrow> buf_wf bs (view c)"
  using bs_pos by (auto simp: fresh_ctx_def buf_wf_def)

lemma digest_chunks:
  "fresh_ctx bs h0 view c \<Longrightarrow> n < 8 \<Longrightarrow>
   snd (close (foldl update c chunks) ub n) = spec (concat chunks) (ucast ub) n"
  by (simp add: update_chunks fresh_wf close_digest)

lemma session_digests:
  "fresh_ctx bs h0 view c \<Longrightarrow> messages_ok msgs \<Longrightarrow> hash_session update close c msgs = digests spec msgs"
proof (induction msgs arbitrary: c)
  case Nil
  show ?case by (simp add: digests_def)
next
  case (Cons msg rest)
  obtain chunks ub n where msg: "msg = (chunks, ub, n)" by (cases msg)
  with Cons.prems have n: "n < 8" and ok: "messages_ok rest" by (simp_all add: messages_ok_def)
  obtain c' d where cls: "close (foldl update c chunks) ub n = (c', d)" by fastforce
  then have "fresh_ctx bs h0 view c'"
    using close_fresh [OF Cons.prems(1) n, of "concat chunks" ub] Cons.prems(1)
    by (simp add: update_chunks fresh_wf)
  then have "hash_session update close c' rest = digests spec rest"
    using ok by (rule Cons.IH)
  moreover have "d = spec (concat chunks) (ucast ub) n"
    using digest_chunks [OF Cons.prems(1) n, of chunks ub] cls by simp
  ultimately show ?case by (simp add: msg cls digests_def)
qed

lemma session_after_init:
  "mem_ok c \<Longrightarrow> messages_ok msgs \<Longrightarrow> hash_session update close (init c) msgs = digests spec msgs"
  by (simp add: session_digests init_fresh)

end

end
