(* ===== verification/Padding.thy ===== *)
theory Padding
  imports Sph_Buffer
begin

unbundle bit_operations_syntax

text \<open>
  Padding, seen as the hash function specifications state it: on bit strings.  A message is
  a byte string followed by \<open>n < 8\<close> further bits (the \<open>ub\<close>, \<open>n\<close> arguments of the
  \<open>_addbits_and_close\<close> functions), most significant bit first.  The padded message is the
  message, a 1 bit, as many 0 bits as the block length asks for, and a trailer that holds
  the length.  The files build the same thing from bytes; the lemmas here connect the two.
\<close>

section \<open>Bits of bytes\<close>

definition byte_bits :: "byte \<Rightarrow> bool list" where
  "byte_bits b = map (bit b) [7, 6, 5, 4, 3, 2, 1, 0]"

definition bytes_bits :: "bytes \<Rightarrow> bool list" where
  "bytes_bits bs = concat (map byte_bits bs)"

definition bits_byte :: "bool list \<Rightarrow> byte" where
  "bits_byte l = foldl (\<lambda>w b. 2 * w + of_bool b) 0 l"

definition bits_bytes :: "bool list \<Rightarrow> bytes" where
  "bits_bytes l = map bits_byte (full_blocks 8 l)"

text \<open>The low \<open>w\<close> bits of a number, most significant first.\<close>

definition nat_bits :: "nat \<Rightarrow> nat \<Rightarrow> bool list" where
  "nat_bits w k = map (bit k) (rev [0..<w])"

definition msg_bits :: "bytes \<Rightarrow> byte \<Rightarrow> nat \<Rightarrow> bool list" where
  "msg_bits m ub n = bytes_bits m @ take n (byte_bits ub)"

text \<open>
  The padding of an \<open>L\<close>-bit message to a multiple of \<open>bb\<close> bits, with the given trailer.
\<close>

definition pad_zeros :: "nat \<Rightarrow> nat \<Rightarrow> nat" where
  "pad_zeros bb used = (bb - used mod bb) mod bb"

definition pad_bits :: "nat \<Rightarrow> bool list \<Rightarrow> nat \<Rightarrow> bool list" where
  "pad_bits bb trailer L = True # replicate (pad_zeros bb (L + 1 + length trailer)) False @ trailer"

section \<open>Conversions\<close>

lemma length_byte_bits [simp]: "length (byte_bits b) = 8"
  by (simp add: byte_bits_def)

lemma bytes_bits_simps [simp]:
  "bytes_bits [] = []" "bytes_bits (b # bs) = byte_bits b @ bytes_bits bs"
  "bytes_bits (xs @ ys) = bytes_bits xs @ bytes_bits ys"
  by (simp_all add: bytes_bits_def)

lemma length_bytes_bits [simp]: "length (bytes_bits bs) = 8 * length bs"
  by (induction bs) simp_all

lemma bytes_bits_zeros [simp]: "bytes_bits (replicate k 0) = replicate (8 * k) False"
proof (induction k)
  case (Suc k)
  have "byte_bits 0 = replicate 8 False" by (simp add: byte_bits_def numeral_eq_Suc)
  with Suc show ?case by (simp add: replicate_add)
qed simp

lemma bits_byte_bits [simp]: "bits_byte (byte_bits b) = b"
proof -
  have "b = horner_sum of_bool 2 (map (bit b) [0..<8])"
    using horner_sum_bit_eq_take_bit [of b 8] by (simp add: take_bit_word_eq_self)
  also have "\<dots> = bits_byte (byte_bits b)"
    by (simp add: bits_byte_def byte_bits_def numeral_eq_Suc algebra_simps)
  finally show ?thesis by simp
qed

lemma bits_bytes_bits [simp]: "bits_bytes (bytes_bits bs) = bs"
  by (induction bs) (simp_all add: bits_bytes_def full_blocks_Cons)

lemma length_nat_bits [simp]: "length (nat_bits w k) = w"
  by (simp add: nat_bits_def)

lemma nat_bits_8: "nat_bits 8 k = byte_bits (of_nat k)"
  by (simp add: nat_bits_def byte_bits_def numeral_eq_Suc bit_of_nat_iff)

lemma nat_bits_append: "nat_bits (a + b) k = nat_bits a (k div 2 ^ b) @ nat_bits b k"
proof -
  have "map (bit k) (rev [b..<a + b]) = map (bit (k div 2 ^ b)) (rev [0..<a])"
    by (simp add: map_add_upt [symmetric] rev_map drop_bit_eq_div [symmetric] bit_drop_bit_eq
        o_def add.commute)
  moreover have "[0..<a + b] = [0..<b] @ [b..<a + b]"
    by (metis add.commute le_add1 upt_add_eq_append zero_le)
  ultimately show ?thesis
    by (simp add: nat_bits_def)
qed

lemma nat_bits_mod [simp]: "nat_bits w (k mod 2 ^ w) = nat_bits w k"
  by (simp add: nat_bits_def take_bit_eq_mod [symmetric] bit_take_bit_iff)

lemma bits_enc32be [simp]: "bytes_bits (sph_enc32be v) = nat_bits 32 (unat v)"
  by (simp add: enc32be_generic sph_enc32be_generic_def nat_bits_def byte_bits_def bit_simps
      upt_lits)

lemma bits_enc64be [simp]: "bytes_bits (sph_enc64be w) = nat_bits 64 (unat w)"
  by (simp add: enc64be_generic sph_enc64be_generic_def nat_bits_def byte_bits_def bit_simps
      upt_lits)

lemma bits_enc_of_nat:
  "bytes_bits (sph_enc32be (of_nat k)) = nat_bits 32 k"
  "bytes_bits (sph_enc64be (of_nat k)) = nat_bits 64 k"
  using nat_bits_mod [of 32 k] nat_bits_mod [of 64 k]
  by (simp_all add: unat_of_nat del: nat_bits_mod)

section \<open>The byte that ends the message\<close>

text \<open>
  \<open>z = 0x80 >> n; buf[ptr] = ((ub & -z) | z) & 0xFF\<close>: the \<open>n\<close> extra bits, the 1 bit and
  zeros.
\<close>

definition end_byte :: "u32 \<Rightarrow> nat \<Rightarrow> byte" where
  "end_byte ub n = (let z = drop_bit n 0x80 in ucast (((ub AND - z) OR z) AND 0xFF))"

lemma end_byte_bits:
  assumes "n < 8"
  shows "byte_bits (end_byte ub n) = take n (byte_bits (ucast ub)) @ True # replicate (7 - n) False"
proof -
  from assms have "n \<in> {0, 1, 2, 3, 4, 5, 6, 7}" by auto
  then show ?thesis
    by (elim insertE emptyE)
      (simp_all add: end_byte_def byte_bits_def bit_simps Let_def replicate_numeral)
qed

lemma end_byte_0 [simp]: "end_byte 0 0 = 0x80"
  by (simp add: end_byte_def)

lemma length_msg_bits [simp]: "n \<le> 8 \<Longrightarrow> length (msg_bits m ub n) = 8 * length m + n"
  by (simp add: msg_bits_def)

section \<open>Padding in bytes\<close>

lemma pad_zeros_eq:
  assumes "used + z = c * bb" "z < bb"
  shows "pad_zeros bb used = z"
proof (cases "z = 0")
  case True
  then show ?thesis using assms by (simp add: pad_zeros_def)
next
  case False
  then obtain c' where c: "c = Suc c'"
    using assms by (cases c) auto
  have "used = c' * bb + (bb - z)"
    using assms c by simp
  then have "used mod bb = (bb - z) mod bb"
    by (metis mod_mult_self3)
  then have "used mod bb = bb - z"
    using assms False by simp
  then show ?thesis using assms False by (simp add: pad_zeros_def)
qed

text \<open>
  The end byte and \<open>k\<close> zero bytes; some functions set the last bit of the run as well.
\<close>

definition pad_body :: "byte \<Rightarrow> nat \<Rightarrow> bool \<Rightarrow> bytes" where
  "pad_body e k fl =
     (let x = e # replicate k 0 in if fl then x[k := x ! k OR 1] else x)"

lemma length_pad_body [simp]: "length (pad_body e k fl) = Suc k"
  by (simp add: pad_body_def Let_def del: list_update.simps)

lemma bytes_bits_run:
  "n < 8 \<Longrightarrow> bytes_bits (end_byte ub n # replicate k 0) =
     take n (byte_bits (ucast ub)) @ True # replicate (8 * k + 7 - n) False"
  by (simp add: end_byte_bits replicate_add [symmetric])

lemma bytes_bits_set_last:
  assumes "length xs = Suc k"
  shows "bytes_bits (xs[k := xs ! k OR 1]) = butlast (bytes_bits xs) @ [True]"
proof -
  obtain ys y where xs: "xs = ys @ [y]" and ys: "length ys = k"
    using assms by (cases xs rule: rev_cases) auto
  have "byte_bits (y OR 1) = butlast (byte_bits y) @ [True]"
    by (simp add: byte_bits_def bit_simps)
  moreover have "xs[k := xs ! k OR 1] = ys @ [y OR 1]"
    using ys by (simp add: xs nth_append list_update_append)
  moreover have "byte_bits y \<noteq> []"
    by (simp add: byte_bits_def)
  ultimately show ?thesis
    by (simp add: xs butlast_append)
qed

lemma bytes_bits_pad_body:
  assumes "n < 8" "n + 2 \<le> 8 * Suc k"
  shows "bytes_bits (pad_body (end_byte ub n) k fl) =
     take n (byte_bits (ucast ub)) @ True # replicate (8 * Suc k - n - 2) False @ [fl]"
proof -
  have z: "8 * k + 7 - n = Suc (8 * Suc k - n - 2)"
    using assms by simp
  have "bytes_bits (end_byte ub n # replicate k 0) =
      take n (byte_bits (ucast ub)) @ True # replicate (8 * Suc k - n - 2) False @ [False]"
    using assms(1) by (simp only: bytes_bits_run z replicate_Suc replicate_append_same)
  moreover have "bytes_bits (pad_body (end_byte ub n) k True) =
      butlast (bytes_bits (end_byte ub n # replicate k 0)) @ [True]"
    using bytes_bits_set_last [of "end_byte ub n # replicate k 0" k] by (simp add: pad_body_def Let_def)
  ultimately show ?thesis
    by (cases fl) (simp_all add: butlast_append, simp add: pad_body_def)
qed

lemma pad_bytes_flag:
  assumes n: "n < 8" and fill: "length m + Suc k + length len = c * BS"
    and room: "n + 2 \<le> 8 * Suc k" and least: "8 * Suc k - n - 2 < 8 * BS"
  shows "bits_bytes (msg_bits m (ucast ub) n
             @ pad_bits (8 * BS) (fl # bytes_bits len) (8 * length m + n))
         = m @ pad_body (end_byte ub n) k fl @ len"
proof -
  have "8 * (length m + Suc k + length len) = c * (8 * BS)"
    using fill by simp
  then have "8 * length m + n + 1 + length (fl # bytes_bits len) + (8 * Suc k - n - 2) = c * (8 * BS)"
    using room by simp
  then have "pad_zeros (8 * BS) (8 * length m + n + 1 + length (fl # bytes_bits len)) = 8 * Suc k - n - 2"
    using least by (rule pad_zeros_eq)
  then have "msg_bits m (ucast ub) n @ pad_bits (8 * BS) (fl # bytes_bits len) (8 * length m + n) =
      bytes_bits (m @ pad_body (end_byte ub n) k fl @ len)"
    using n room by (simp add: msg_bits_def pad_bits_def bytes_bits_pad_body)
  then show ?thesis by (simp only: bits_bytes_bits)
qed

lemma pad_bytes_plain:
  assumes n: "n < 8" and fill: "length m + Suc k + length len = c * BS"
    and least: "8 * k + 7 - n < 8 * BS"
  shows "bits_bytes (msg_bits m (ucast ub) n
             @ pad_bits (8 * BS) (bytes_bits len) (8 * length m + n))
         = m @ end_byte ub n # replicate k 0 @ len"
proof -
  have "8 * (length m + Suc k + length len) = c * (8 * BS)"
    using fill by simp
  then have "8 * length m + n + 1 + length (bytes_bits len) + (8 * k + 7 - n) = c * (8 * BS)"
    using n by simp
  then have "pad_zeros (8 * BS) (8 * length m + n + 1 + length (bytes_bits len)) = 8 * k + 7 - n"
    using least by (rule pad_zeros_eq)
  then have "msg_bits m (ucast ub) n @ pad_bits (8 * BS) (bytes_bits len) (8 * length m + n) =
      bytes_bits (m @ (end_byte ub n # replicate k 0) @ len)"
    using bytes_bits_run [OF n, of ub k]
    by (simp add: msg_bits_def pad_bits_def del: bytes_bits_simps(2)) (simp add: bytes_bits_def)
  then show ?thesis by (simp only: bits_bytes_bits append_Cons append_assoc)
qed

section \<open>Padding built in an array\<close>

lemma replicate_update:
  assumes "p < N"
  shows "(replicate N z)[p := e] = replicate p z @ e # replicate (N - Suc p) z"
proof -
  have "replicate N z = replicate p z @ z # replicate (N - Suc p) z"
    using assms by (metis Suc_diff_Suc le_add_diff_inverse less_imp_le replicate_Suc replicate_add)
  then show ?thesis by (simp add: list_update_append)
qed

lemma memset_zeros:
  "k \<le> j \<Longrightarrow> memset (xs @ replicate j z) (length xs) z k = xs @ replicate j z"
  by (simp add: memset_def memcpy_def replicate_add [symmetric])

lemma end_array:
  assumes "p < N" "k \<le> N - Suc p"
  shows "memset ((replicate N 0)[p := e]) (p + 1) 0 k = replicate p 0 @ e # replicate (N - Suc p) (0 :: byte)"
  using memset_zeros [of k "N - Suc p" "replicate p 0 @ [e]" 0] assms
  by (simp add: replicate_update)

lemma memcpy_append_replicate:
  assumes "length xs = a" "length src \<le> j"
  shows "memcpy (xs @ replicate j z) a src = xs @ src @ replicate (j - length src) z"
  using assms by (simp add: memcpy_def)

text \<open>
  One final block: end byte at \<open>p\<close>, zeros, the flag in the byte before the length field, the
  length in two words.
\<close>

lemma final_array:
  assumes "p < a" "a + length x + length y = N"
  shows "drop p (memcpy (memcpy
           (let v = memset ((replicate N 0)[p := e]) (p + 1) 0 (a - 1 - p)
            in if fl then v[a - 1 := v ! (a - 1) OR 1] else v) a x) (a + length x) y)
         = pad_body e (a - 1 - p) fl @ x @ y"
proof -
  obtain k where a: "a = Suc (p + k)"
    using assms(1) less_iff_Suc_add by blast
  have "replicate (N - Suc p) (0::byte) = replicate k 0 @ replicate (N - a) 0"
    using assms by (simp add: a replicate_add [symmetric])
  then have v: "memset ((replicate N 0)[p := e]) (p + 1) 0 k
      = replicate p 0 @ (e # replicate k 0) @ replicate (N - a) 0"
    using assms end_array [of p N k e] by (simp add: a)
  let ?y = "e # replicate k 0"
  have "(let v = replicate p 0 @ ?y @ replicate (N - a) 0
      in if fl then v[p + k := v ! (p + k) OR 1] else v) =
      (replicate p 0 @ pad_body e k fl) @ replicate (N - a) 0"
    by (simp add: pad_body_def Let_def nth_append list_update_append del: list_update.simps append_Cons)
  moreover have idx: "a - 1 - p = k" "a - 1 = p + k"
    by (simp_all add: a)
  ultimately have W: "(let v = memset ((replicate N 0)[p := e]) (p + 1) 0 (a - 1 - p)
      in if fl then v[a - 1 := v ! (a - 1) OR 1] else v) =
      (replicate p 0 @ pad_body e k fl) @ replicate (N - a) 0"
    by (simp only: idx v)
  show ?thesis
    unfolding W unfolding idx(1) using assms by (simp add: memcpy_def a)
qed

lemma zero_array:
  assumes "0 < a" "a + length x + length y = N" "length u = N"
  shows "memcpy (memcpy
           (if fl then (memset u 0 0 a)[a - 1 := 1] else memset u 0 0 a) a x) (a + length x) y
         = replicate (a - 1) 0 @ [if fl then 1 else 0] @ x @ (y :: bytes)"
proof -
  have "replicate a (0::byte) = replicate (a - 1) 0 @ [0]"
    using assms by (metis Suc_pred' replicate_Suc replicate_append_same)
  then have "(if fl then (memset u 0 0 a)[a - 1 := 1] else memset u 0 0 a)
      = (replicate (a - 1) 0 @ [if fl then 1 else 0]) @ drop a u"
    using assms by (simp add: memset_def memcpy_def list_update_append)
  then show ?thesis
    using assms by (simp add: memcpy_def)
qed

lemma pad_body_two:
  assumes "0 < a"
  shows "(e # replicate k 0) @ replicate (a - 1) 0 @ [if fl then 1 else 0] = pad_body e (k + a) fl"
proof -
  obtain j where a: "a = Suc j"
    using assms by (cases a) auto
  have "replicate (Suc (k + j)) (0::byte) = replicate (k + j) 0 @ [0]"
    by (simp add: replicate_append_same)
  then show ?thesis
    by (simp add: a pad_body_def Let_def nth_append list_update_append replicate_add del: replicate_Suc)
qed

text \<open>The blocks of a padded message: those of the message and those the padding completes.\<close>

lemma full_blocks_padded:
  assumes "0 < BS" "length m mod BS + length pad = BS"
  shows "full_blocks BS (m @ pad) = full_blocks BS m @ [tail_bytes BS m @ pad]"
proof -
  obtain p where m: "m = p @ tail_bytes BS m" and p: "BS dvd length p"
    and fb: "full_blocks BS p = full_blocks BS m"
    using block_tail_split [OF assms(1), of m] by blast
  have "m @ pad = p @ (tail_bytes BS m @ pad)"
    using m by (metis append.assoc)
  then have "full_blocks BS (m @ pad) = full_blocks BS p @ full_blocks BS (tail_bytes BS m @ pad)"
    using assms(1) p by (simp only: full_blocks_append)
  then show ?thesis
    using assms by (simp add: fb full_blocks_one)
qed

lemma full_blocks_padded2:
  assumes "0 < BS" "length m mod BS + length pad1 = BS" "length pad2 = BS"
  shows "full_blocks BS (m @ pad1 @ pad2) = full_blocks BS m @ [tail_bytes BS m @ pad1, pad2]"
proof -
  have "BS dvd length (m @ pad1)"
    using assms by (metis dvd_triv_left length_append mod_add_left_eq mod_self dvd_eq_mod_eq_0)
  then show ?thesis
    using assms full_blocks_append [of BS "m @ pad1" pad2] full_blocks_padded [of BS m pad1]
    by (simp add: full_blocks_one)
qed

text \<open>
  The blocks of a padded message, when the length field at offset \<open>a\<close> fits behind the end
  byte in the last block of the message and when it does not.
\<close>

lemma padded_length:
  fixes L :: nat
  shows "L mod BS + j = c * BS \<Longrightarrow> L + j = (L div BS + c) * BS"
  by (metis add.assoc add_mult_distrib div_mult_mod_eq)

lemma flag_blocks_one:
  assumes "n < 8" "a + length len = BS" "8 * (length m mod BS) + n + 2 \<le> 8 * a"
  shows "full_blocks BS (bits_bytes (msg_bits m (ucast ub) n
             @ pad_bits (8 * BS) (fl # bytes_bits len) (8 * length m + n)))
         = full_blocks BS m @ [tail_bytes BS m @ pad_body (end_byte ub n) (a - 1 - length m mod BS) fl @ len]"
proof -
  define p where "p = length m mod BS"
  have pa: "p < a" and BS: "0 < BS"
    using assms by (auto simp: p_def)
  have fill: "length m + Suc (a - 1 - p) + length len = Suc (length m div BS) * BS"
    using padded_length [of "length m" BS "Suc (a - 1 - p) + length len" 1] pa assms(2)
    by (simp add: p_def [symmetric])
  have "bits_bytes (msg_bits m (ucast ub) n @ pad_bits (8 * BS) (fl # bytes_bits len) (8 * length m + n))
      = m @ pad_body (end_byte ub n) (a - 1 - p) fl @ len"
    by (rule pad_bytes_flag [OF assms(1) fill]) (use assms(2,3) in \<open>simp_all add: p_def [symmetric]\<close>)
  then show ?thesis
    using full_blocks_padded [OF BS, of m "pad_body (end_byte ub n) (a - 1 - p) fl @ len"] pa assms(2)
    by (simp add: p_def)
qed

lemma flag_blocks_two:
  assumes "n < 8" "a + length len = BS" "0 < a" "8 * a < 8 * (length m mod BS) + n + 2"
  shows "full_blocks BS (bits_bytes (msg_bits m (ucast ub) n
             @ pad_bits (8 * BS) (fl # bytes_bits len) (8 * length m + n)))
         = full_blocks BS m @ [tail_bytes BS m @ end_byte ub n # replicate (BS - 1 - length m mod BS) 0,
             replicate (a - 1) 0 @ [if fl then 1 else 0] @ len]"
proof -
  define p where "p = length m mod BS"
  have BS: "0 < BS" using assms by simp
  then have p: "p < BS" by (simp add: p_def)
  have fill: "length m + Suc (BS - 1 - p + a) + length len = Suc (Suc (length m div BS)) * BS"
    using padded_length [of "length m" BS "Suc (BS - 1 - p + a) + length len" 2] p assms(2)
    by (simp add: p_def [symmetric])
  have "bits_bytes (msg_bits m (ucast ub) n @ pad_bits (8 * BS) (fl # bytes_bits len) (8 * length m + n))
      = m @ pad_body (end_byte ub n) (BS - 1 - p + a) fl @ len"
    by (rule pad_bytes_flag [OF assms(1) fill]) (use assms p in \<open>simp_all add: p_def [symmetric]\<close>)
  also have "\<dots> = m @ (end_byte ub n # replicate (BS - 1 - p) 0) @ (replicate (a - 1) 0 @ [if fl then 1 else 0] @ len)"
    using pad_body_two [OF assms(3), of "end_byte ub n" "BS - 1 - p" fl] by simp
  finally have eq: "bits_bytes (msg_bits m (ucast ub) n @ pad_bits (8 * BS) (fl # bytes_bits len) (8 * length m + n)) = \<dots>" .
  show ?thesis
    unfolding eq p_def [symmetric]
    by (rule full_blocks_padded2 [OF BS]) (use p assms(2,3) in \<open>simp_all add: p_def [symmetric]\<close>)
qed

lemma plain_blocks_one:
  assumes "n < 8" "a + length len = BS" "length m mod BS < a"
  shows "full_blocks BS (bits_bytes (msg_bits m (ucast ub) n
             @ pad_bits (8 * BS) (bytes_bits len) (8 * length m + n)))
         = full_blocks BS m @ [tail_bytes BS m @ end_byte ub n # replicate (a - 1 - length m mod BS) 0 @ len]"
proof -
  define p where "p = length m mod BS"
  have pa: "p < a" and BS: "0 < BS"
    using assms by (auto simp: p_def)
  have fill: "length m + Suc (a - 1 - p) + length len = Suc (length m div BS) * BS"
    using padded_length [of "length m" BS "Suc (a - 1 - p) + length len" 1] pa assms(2)
    by (simp add: p_def [symmetric])
  have "bits_bytes (msg_bits m (ucast ub) n @ pad_bits (8 * BS) (bytes_bits len) (8 * length m + n))
      = m @ end_byte ub n # replicate (a - 1 - p) 0 @ len"
    by (rule pad_bytes_plain [OF assms(1) fill]) (use assms(1,2) pa in simp)
  then show ?thesis
    using full_blocks_padded [OF BS, of m "end_byte ub n # replicate (a - 1 - p) 0 @ len"] pa assms(2)
    by (simp add: p_def)
qed

lemma plain_blocks_two:
  assumes "n < 8" "a + length len = BS" "a \<le> length m mod BS" "0 < BS"
  shows "full_blocks BS (bits_bytes (msg_bits m (ucast ub) n
             @ pad_bits (8 * BS) (bytes_bits len) (8 * length m + n)))
         = full_blocks BS m @ [tail_bytes BS m @ end_byte ub n # replicate (BS - 1 - length m mod BS) 0,
             replicate a 0 @ len]"
proof -
  define p where "p = length m mod BS"
  have p: "p < BS" using assms(4) by (simp add: p_def)
  have fill: "length m + Suc (BS - 1 - p + a) + length len = Suc (Suc (length m div BS)) * BS"
    using padded_length [of "length m" BS "Suc (BS - 1 - p + a) + length len" 2] p assms(2)
    by (simp add: p_def [symmetric])
  have "bits_bytes (msg_bits m (ucast ub) n @ pad_bits (8 * BS) (bytes_bits len) (8 * length m + n))
      = m @ end_byte ub n # replicate (BS - 1 - p + a) 0 @ len"
    by (rule pad_bytes_plain [OF assms(1) fill]) (use assms(1-3) p in \<open>simp add: p_def [symmetric]\<close>)
  also have "\<dots> = m @ (end_byte ub n # replicate (BS - 1 - p) 0) @ (replicate a 0 @ len)"
    by (simp add: replicate_add)
  finally show ?thesis
    using full_blocks_padded2 [OF assms(4), of m "end_byte ub n # replicate (BS - 1 - p) 0"
        "replicate a 0 @ len"] p assms(2)
    by (simp add: p_def)
qed

end
