(* ===== verification/BlakeSpec.thy ===== *)
theory BlakeSpec
  imports Padding
begin

unbundle bit_operations_syntax

text \<open>
  The hash function BLAKE as its specification describes it, for words of 32 and 64 bits alike
  and independent of \<^verbatim>\<open>src/src/crypto/blake.c\<close>: the state is a function from positions to words,
  the constants are the first bits of the fraction of pi, the permutations are rows of
  hexadecimal digits, the initial values are fractions of square roots of primes, messages and
  digests are bit strings, and the block counter is the number of message bits hashed so far.
\<close>

section \<open>Constants\<close>

definition pi_fraction :: nat where
  "pi_fraction = 0x243F6A8885A308D313198A2E03707344A4093822299F31D0082EFA98EC4E6C89452821E638D01377BE5466CF34E90C6CC0AC29B7C97C50DD3F84D5B5B54709179216D5D98979FB1BD1310BA698DFB5AC2FFD72DBD01ADFB7B8E1AFED6A267E96BA7C9045F12C7F9924A19947B3916CF70801F2E2858EFC16636920D871574E69"

definition blake_u :: "nat \<Rightarrow> 'w::len word" where
  "blake_u i = of_nat (pi_fraction div 2 ^ (1024 - LENGTH('w) * (i + 1)) mod 2 ^ LENGTH('w))"

text \<open>The rows of the permutation, one hexadecimal digit for each position.\<close>

definition blake_row :: "nat \<Rightarrow> nat" where
  "blake_row r =
     [0x0123456789ABCDEF, 0xEA489FD61C02B753, 0xB8C052FDAE367194, 0x7931DCBE265A40F8, 0x905724AFE1BC683D,
      0x2C6A0B834D75FE19, 0xC51FED4A0763928B, 0xDB7EC13950F4862A, 0x6FE9B308C2D714A5, 0xA2847615FB9E3CD0] ! (r mod 10)"

definition blake_perm :: "nat \<Rightarrow> nat \<Rightarrow> nat" where
  "blake_perm r i = blake_row r div 16 ^ (15 - i) mod 16"

text \<open>The integer square root, bit by bit, and the first \<open>w\<close> bits of the fraction of a root.\<close>

definition floor_root :: "nat \<Rightarrow> nat \<Rightarrow> nat" where
  "floor_root bits n = foldl (\<lambda>r k. if (r + 2 ^ k)\<^sup>2 \<le> n then r + 2 ^ k else r) 0 (rev [0..<bits])"

definition root_fraction :: "nat \<Rightarrow> nat \<Rightarrow> nat" where
  "root_fraction w p = floor_root (w + 3) (p * 4 ^ w) mod 2 ^ w"

section \<open>Compression\<close>

text \<open>The distances of the rotations and the number of rounds, by word size.\<close>

type_synonym blake_size = "(nat \<times> nat \<times> nat \<times> nat) \<times> nat"

definition blake_small :: blake_size where
  "blake_small = ((16, 12, 8, 7), 14)"

definition blake_big :: blake_size where
  "blake_big = ((32, 25, 16, 11), 16)"

text \<open>The columns of the 4 by 4 matrix of words, then its diagonals.\<close>

definition blake_cells :: "nat \<Rightarrow> nat \<times> nat \<times> nat \<times> nat" where
  "blake_cells i = (if i < 4 then (i, 4 + i, 8 + i, 12 + i)
     else (i - 4, 4 + (i - 4 + 1) mod 4, 8 + (i - 4 + 2) mod 4, 12 + (i - 4 + 3) mod 4))"

definition blake_G ::
  "nat \<times> nat \<times> nat \<times> nat \<Rightarrow> (nat \<Rightarrow> 'w::len word) \<Rightarrow> nat \<Rightarrow> nat \<Rightarrow> (nat \<Rightarrow> 'w word) \<Rightarrow> nat \<Rightarrow> 'w word" where
  "blake_G rot m r i v = (case rot of (r1, r2, r3, r4) \<Rightarrow> case blake_cells i of (pa, pb, pc, pd) \<Rightarrow>
     let j = blake_perm r (2 * i); k = blake_perm r (2 * i + 1);
         a = v pa + v pb + (m j XOR blake_u k); d = word_rotr r1 (v pd XOR a);
         c = v pc + d; b = word_rotr r2 (v pb XOR c);
         a = a + b + (m k XOR blake_u j); d = word_rotr r3 (d XOR a);
         c = c + d; b = word_rotr r4 (b XOR c)
     in v(pa := a, pb := b, pc := c, pd := d))"

definition blake_round :: "nat \<times> nat \<times> nat \<times> nat \<Rightarrow> (nat \<Rightarrow> 'w::len word) \<Rightarrow> nat \<Rightarrow> (nat \<Rightarrow> 'w word) \<Rightarrow> nat \<Rightarrow> 'w word" where
  "blake_round rot m r v = foldl (\<lambda>v i. blake_G rot m r i v) v [0..<8]"

definition blake_init :: "'w::len word list \<Rightarrow> 'w word list \<Rightarrow> 'w word \<Rightarrow> 'w word \<Rightarrow> nat \<Rightarrow> 'w word" where
  "blake_init h s t0 t1 i =
     (if i < 8 then h ! i else (if i < 12 then s ! (i - 8) else if i < 14 then t0 else t1) XOR blake_u (i - 8))"

text \<open>A word from its bits, most significant first; the words of a block of bytes.\<close>

definition bits_word :: "bool list \<Rightarrow> 'w::len word" where
  "bits_word l = foldl (\<lambda>w b. 2 * w + of_bool b) 0 l"

definition block_word :: "bytes \<Rightarrow> nat \<Rightarrow> 'w::len word" where
  "block_word block i = bits_word (take LENGTH('w) (drop (LENGTH('w) * i) (bytes_bits block)))"

definition blake_compress ::
  "blake_size \<Rightarrow> 'w::len word list \<Rightarrow> 'w word list \<Rightarrow> 'w word \<Rightarrow> 'w word \<Rightarrow> bytes \<Rightarrow> 'w word list" where
  "blake_compress sz h s t0 t1 block = (case sz of (rot, rounds) \<Rightarrow>
     let v = foldl (\<lambda>v r. blake_round rot (block_word block) r v) (blake_init h s t0 t1) [0..<rounds]
     in map (\<lambda>i. h ! i XOR s ! (i mod 4) XOR v i XOR v (i + 8)) [0..<8])"

section \<open>The hash function\<close>

text \<open>
  The counter of block \<open>i\<close> of an \<open>L\<close>-bit message: the message bits up to the end of the
  block, or 0 when the block holds padding only.  A counter is kept in two words.
\<close>

definition blake_ctr :: "nat \<Rightarrow> nat \<Rightarrow> nat \<Rightarrow> nat" where
  "blake_ctr bb L i = (if bb * i < L then min (bb * (i + 1)) L else 0)"

definition ctr_hi :: "nat \<Rightarrow> 'w::len word" where
  "ctr_hi k = of_nat (k div 2 ^ LENGTH('w))"

definition blake_chain ::
  "('w::len word list \<Rightarrow> 'w word list \<Rightarrow> 'w word \<Rightarrow> 'w word \<Rightarrow> bytes \<Rightarrow> 'w word list) \<Rightarrow>
   'w word list \<Rightarrow> nat \<Rightarrow> nat \<Rightarrow> 'w word list \<Rightarrow> bytes list \<Rightarrow> 'w word list" where
  "blake_chain cmp S bb L H blocks =
     foldl (\<lambda>H (i, b). cmp H S (of_nat (blake_ctr bb L i)) (ctr_hi (blake_ctr bb L i)) b) H
       (enumerate 0 blocks)"

text \<open>
  The digest of the first \<open>out\<close> words, of the message \<open>m\<close> and the first \<open>n\<close> bits of \<open>ub\<close>.  The bit
  before the length tells the full digest from a truncated one.
\<close>

definition blake_digest :: "blake_size \<Rightarrow> 'w::len word list \<Rightarrow> nat \<Rightarrow> bytes \<Rightarrow> byte \<Rightarrow> nat \<Rightarrow> bytes" where
  "blake_digest sz iv out m ub n =
     (let w = LENGTH('w);
          L = 8 * length m + n;
          P = bits_bytes (msg_bits m ub n @ pad_bits (16 * w) ((out = 8) # nat_bits (2 * w) L) L);
          H = blake_chain (blake_compress sz) [0, 0, 0, 0] (16 * w) L iv (full_blocks (2 * w) P)
      in bits_bytes (concat (map (\<lambda>k. nat_bits w (unat (H ! k))) [0..<out])))"

definition BLAKE_512 :: "bytes \<Rightarrow> byte \<Rightarrow> nat \<Rightarrow> bytes" where
  "BLAKE_512 = blake_digest blake_big (map (\<lambda>p. of_nat (root_fraction 64 p)) [2, 3, 5, 7, 11, 13, 17, 19] :: u64 list) 8"

definition BLAKE_384 :: "bytes \<Rightarrow> byte \<Rightarrow> nat \<Rightarrow> bytes" where
  "BLAKE_384 = blake_digest blake_big (map (\<lambda>p. of_nat (root_fraction 64 p)) [23, 29, 31, 37, 41, 43, 47, 53] :: u64 list) 6"

definition BLAKE_256 :: "bytes \<Rightarrow> byte \<Rightarrow> nat \<Rightarrow> bytes" where
  "BLAKE_256 = blake_digest blake_small (map (\<lambda>p. of_nat (root_fraction 32 p)) [2, 3, 5, 7, 11, 13, 17, 19] :: u32 list) 8"

definition BLAKE_224 :: "bytes \<Rightarrow> byte \<Rightarrow> nat \<Rightarrow> bytes" where
  "BLAKE_224 = blake_digest blake_small
     (map (\<lambda>p. of_nat (root_fraction 64 p mod 2 ^ 32)) [23, 29, 31, 37, 41, 43, 47, 53] :: u32 list) 7"

section \<open>Digits and roots\<close>

lemma digits_nth:
  fixes B :: nat
  assumes "0 < B" "list_all (\<lambda>d. d < B) ds" "i < length ds"
  shows "foldl (\<lambda>n d. n * B + d) 0 ds div B ^ (length ds - 1 - i) mod B = ds ! i"
  using assms(2,3)
proof (induction ds arbitrary: i rule: rev_induct)
  case (snoc d ds)
  let ?n = "foldl (\<lambda>n d. n * B + d) 0 ds"
  have d: "(?n * B + d) div B = ?n" "(?n * B + d) mod B = d" using snoc.prems(1) assms(1) by simp_all
  show ?case
  proof (cases "i = length ds")
    case True
    then show ?thesis using d by simp
  next
    case False
    then have i: "i < length ds" using snoc.prems(2) by simp
    then have "B ^ (length ds - i) = B * B ^ (length ds - 1 - i)" by (metis Suc_diff_Suc diff_Suc_eq_diff_pred power_Suc)
    then have "(?n * B + d) div B ^ (length ds - i) mod B = ?n div B ^ (length ds - 1 - i) mod B"
      by (simp only: div_mult2_eq d)
    then show ?thesis using snoc.IH [OF _ i] snoc.prems(1) i by (simp add: nth_append)
  qed
qed simp

lemma floor_root_loop:
  fixes r n :: nat
  assumes "r\<^sup>2 \<le> n" "n < (r + 1)\<^sup>2"
  shows "s \<le> r \<Longrightarrow> r < s + 2 ^ bits \<Longrightarrow>
    foldl (\<lambda>r k. if (r + 2 ^ k)\<^sup>2 \<le> n then r + 2 ^ k else r) s (rev [0..<bits]) = r"
proof (induction bits arbitrary: s)
  case (Suc b)
  show ?case
  proof (cases "(s + 2 ^ b)\<^sup>2 \<le> n")
    case True
    then have "(s + 2 ^ b)\<^sup>2 < (r + 1)\<^sup>2" using assms(2) by (rule le_less_trans)
    then have "s + 2 ^ b \<le> r" using power2_less_imp_less [of "s + 2 ^ b" "r + 1"] by simp
    then show ?thesis using Suc True by simp
  next
    case False
    then have "r\<^sup>2 < (s + 2 ^ b)\<^sup>2" using assms(1) by simp
    then have "r < s + 2 ^ b" using power2_less_imp_less by blast
    then show ?thesis using Suc False by simp
  qed
qed simp

lemma root_fraction_eq:
  assumes "(a * 2 ^ w + v)\<^sup>2 \<le> p * 4 ^ w" "p * 4 ^ w < (a * 2 ^ w + v + 1)\<^sup>2" "a < 8" "v < 2 ^ w"
  shows "root_fraction w p = v"
proof -
  have "a * 2 ^ w + v < (a + 1) * 2 ^ w" using assms(4) by simp
  also have "\<dots> \<le> 8 * 2 ^ w" using assms(3) by (intro mult_le_mono1) simp
  finally have "a * 2 ^ w + v < 0 + 2 ^ (w + 3)" by (simp add: power_add)
  then have "floor_root (w + 3) (p * 4 ^ w) = a * 2 ^ w + v"
    unfolding floor_root_def by (intro floor_root_loop [OF assms(1,2)]) simp
  then show ?thesis using assms(4) by (simp add: root_fraction_def)
qed

section \<open>Words and bits\<close>

lemma bits_word_nat_bits: "bits_word (nat_bits n k) = (of_nat (k mod 2 ^ n) :: 'w::len word)"
proof (induction n arbitrary: k)
  case 0
  show ?case by (simp add: bits_word_def nat_bits_def)
next
  case (Suc n)
  have "nat_bits (Suc n) k = nat_bits n (k div 2) @ [odd k]"
    using nat_bits_append [of n 1 k] by (simp add: nat_bits_def bit_0)
  then have "bits_word (nat_bits (Suc n) k) = 2 * bits_word (nat_bits n (k div 2)) + (of_bool (odd k) :: 'w word)"
    by (simp add: bits_word_def)
  also have "\<dots> = of_nat (2 * (k div 2 mod 2 ^ n) + k mod 2)" by (simp add: Suc.IH mod_2_eq_odd)
  also have "2 * (k div 2 mod 2 ^ n) + k mod 2 = k mod 2 ^ Suc n"
    using mod_mult2_eq [of k 2 "2 ^ n"] by (simp add: power_Suc)
  finally show ?case .
qed

lemma bits_word_self: "bits_word (nat_bits LENGTH('w) (unat w)) = (w :: 'w::len word)"
  by (simp add: bits_word_nat_bits)

lemma bytes_bits_part:
  "take (8 * a) (drop (8 * b) (bytes_bits bs)) = bytes_bits (take a (drop b bs))"
proof -
  have t: "take (8 * a) (bytes_bits cs) = bytes_bits (take a cs)" for cs :: bytes and a
  proof (induction a arbitrary: cs)
    case (Suc a)
    then show ?case by (cases cs) simp_all
  qed simp
  have d: "drop (8 * b) (bytes_bits cs) = bytes_bits (drop b cs)" for cs :: bytes and b
  proof (induction b arbitrary: cs)
    case (Suc b)
    then show ?case by (cases cs) simp_all
  qed simp
  show ?thesis by (simp only: t d)
qed

lemma block_word_be:
  "4 * i + 4 \<le> length bs \<Longrightarrow> (block_word bs i :: u32) = sph_dec32be (take 4 (drop (4 * i) bs))"
  "8 * j + 8 \<le> length bs \<Longrightarrow> (block_word bs j :: u64) = sph_dec64be (take 8 (drop (8 * j) bs))"
proof -
  assume l: "4 * i + 4 \<le> length bs"
  let ?b = "take 4 (drop (4 * i) bs)"
  have "bytes_bits ?b = nat_bits 32 (unat (sph_dec32be ?b))"
    using bits_enc32be [of "sph_dec32be ?b"] enc_dec(1) [of ?b] l by simp
  then show "(block_word bs i :: u32) = sph_dec32be ?b"
    using bytes_bits_part [of 4 "4 * i" bs] bits_word_self [of "sph_dec32be ?b"] by (simp add: block_word_def)
next
  assume l: "8 * j + 8 \<le> length bs"
  let ?b = "take 8 (drop (8 * j) bs)"
  have "bytes_bits ?b = nat_bits 64 (unat (sph_dec64be ?b))"
    using bits_enc64be [of "sph_dec64be ?b"] enc_dec(3) [of ?b] l by simp
  then show "(block_word bs j :: u64) = sph_dec64be ?b"
    using bytes_bits_part [of 8 "8 * j" bs] bits_word_self [of "sph_dec64be ?b"] by (simp add: block_word_def)
qed

lemma length_block_words:
  "length bs = 64 \<Longrightarrow> i < 16 \<Longrightarrow> 4 * i + 4 \<le> length bs" "length bs = 128 \<Longrightarrow> i < 16 \<Longrightarrow> 8 * i + 8 \<le> length bs"
  by simp_all

end
