(* ===== verification/Blake.thy ===== *)
theory Blake
  imports BlakeSpec
begin

unbundle bit_operations_syntax

text \<open>
  \<^verbatim>\<open>src/src/crypto/blake.c\<close>: BLAKE-224/256 (32-bit words, \<open>blake32\<close>) and BLAKE-384/512
  (64-bit words, \<open>blake64\<close>).  The preprocessor offers two bodies for the rounds: unrolled,
  where the message permutation is spelled with the \<open>Z\<close> macros (the default build), and
  compact, where it is read from the table \<open>sigma\<close>; both are modelled and proved equal.
  The contexts are records with the fields of the C structs, \<open>blake32\<close> and \<open>blake64\<close> are
  the buffered update of \<open>Sph_Buffer\<close> around the loop body, the close functions build the
  final blocks and adjust the bit counter \<open>T0\<close>, \<open>T1\<close> before they feed them to the update
  function.  The specification is BLAKE's, in the theory \<open>BlakeSpec\<close>; nothing in it refers to
  the definitions of this theory.
\<close>

section \<open>Constants\<close>

definition IV224 :: "u32 list" where
  "IV224 =
    [0xC1059ED8, 0x367CD507, 0x3070DD17, 0xF70E5939, 0xFFC00B31, 0x68581511, 0x64F98FA7,
     0xBEFA4FA4]"

definition IV256 :: "u32 list" where
  "IV256 =
    [0x6A09E667, 0xBB67AE85, 0x3C6EF372, 0xA54FF53A, 0x510E527F, 0x9B05688C, 0x1F83D9AB,
     0x5BE0CD19]"

definition IV384 :: "u64 list" where
  "IV384 =
    [0xCBBB9D5DC1059ED8, 0x629A292A367CD507, 0x9159015A3070DD17, 0x152FECD8F70E5939,
     0x67332667FFC00B31, 0x8EB44A8768581511, 0xDB0C2E0D64F98FA7, 0x47B5481DBEFA4FA4]"

definition IV512 :: "u64 list" where
  "IV512 =
    [0x6A09E667F3BCC908, 0xBB67AE8584CAA73B, 0x3C6EF372FE94F82B, 0xA54FF53A5F1D36F1,
     0x510E527FADE682D1, 0x9B05688C2B3E6C1F, 0x1F83D9ABFB41BD6B, 0x5BE0CD19137E2179]"

definition sigma :: "nat list list" where
  "sigma =
    [[0, 1, 2, 3, 4, 5, 6, 7, 8, 9, 10, 11, 12, 13, 14, 15],
     [14, 10, 4, 8, 9, 15, 13, 6, 1, 12, 0, 2, 11, 7, 5, 3],
     [11, 8, 12, 0, 5, 2, 15, 13, 10, 14, 3, 6, 7, 1, 9, 4],
     [7, 9, 3, 1, 13, 12, 11, 14, 2, 6, 5, 10, 4, 0, 15, 8],
     [9, 0, 5, 7, 2, 4, 10, 15, 14, 1, 11, 12, 6, 8, 3, 13],
     [2, 12, 6, 10, 0, 11, 8, 3, 4, 13, 7, 5, 15, 14, 1, 9],
     [12, 5, 1, 15, 14, 13, 4, 10, 0, 7, 6, 3, 9, 2, 8, 11],
     [13, 11, 7, 14, 12, 1, 3, 9, 5, 0, 15, 4, 8, 6, 2, 10],
     [6, 15, 14, 9, 11, 3, 0, 8, 12, 2, 13, 7, 1, 4, 10, 5],
     [10, 2, 8, 4, 7, 6, 1, 5, 15, 11, 9, 14, 3, 12, 13, 0],
     [0, 1, 2, 3, 4, 5, 6, 7, 8, 9, 10, 11, 12, 13, 14, 15],
     [14, 10, 4, 8, 9, 15, 13, 6, 1, 12, 0, 2, 11, 7, 5, 3],
     [11, 8, 12, 0, 5, 2, 15, 13, 10, 14, 3, 6, 7, 1, 9, 4],
     [7, 9, 3, 1, 13, 12, 11, 14, 2, 6, 5, 10, 4, 0, 15, 8],
     [9, 0, 5, 7, 2, 4, 10, 15, 14, 1, 11, 12, 6, 8, 3, 13],
     [2, 12, 6, 10, 0, 11, 8, 3, 4, 13, 7, 5, 15, 14, 1, 9]]"

text \<open>The macros \<open>Z00\<close> to \<open>Z9F\<close>; row \<open>r\<close> lists \<open>Zr0\<close> to \<open>ZrF\<close>.\<close>

definition Z :: "nat list list" where
  "Z =
    [[0, 1, 2, 3, 4, 5, 6, 7, 8, 9, 10, 11, 12, 13, 14, 15],
     [14, 10, 4, 8, 9, 15, 13, 6, 1, 12, 0, 2, 11, 7, 5, 3],
     [11, 8, 12, 0, 5, 2, 15, 13, 10, 14, 3, 6, 7, 1, 9, 4],
     [7, 9, 3, 1, 13, 12, 11, 14, 2, 6, 5, 10, 4, 0, 15, 8],
     [9, 0, 5, 7, 2, 4, 10, 15, 14, 1, 11, 12, 6, 8, 3, 13],
     [2, 12, 6, 10, 0, 11, 8, 3, 4, 13, 7, 5, 15, 14, 1, 9],
     [12, 5, 1, 15, 14, 13, 4, 10, 0, 7, 6, 3, 9, 2, 8, 11],
     [13, 11, 7, 14, 12, 1, 3, 9, 5, 0, 15, 4, 8, 6, 2, 10],
     [6, 15, 14, 9, 11, 3, 0, 8, 12, 2, 13, 7, 1, 4, 10, 5],
     [10, 2, 8, 4, 7, 6, 1, 5, 15, 11, 9, 14, 3, 12, 13, 0]]"

definition CS :: "u32 list" where
  "CS =
    [0x243F6A88, 0x85A308D3, 0x13198A2E, 0x03707344, 0xA4093822, 0x299F31D0, 0x082EFA98,
     0xEC4E6C89, 0x452821E6, 0x38D01377, 0xBE5466CF, 0x34E90C6C, 0xC0AC29B7, 0xC97C50DD,
     0x3F84D5B5, 0xB5470917]"

definition CB :: "u64 list" where
  "CB =
    [0x243F6A8885A308D3, 0x13198A2E03707344, 0xA4093822299F31D0, 0x082EFA98EC4E6C89,
     0x452821E638D01377, 0xBE5466CF34E90C6C, 0xC0AC29B7C97C50DD, 0x3F84D5B5B5470917,
     0x9216D5D98979FB1B, 0xD1310BA698DFB5AC, 0x2FFD72DBD01ADFB7, 0xB8E1AFED6A267E96,
     0xBA7C9045F12C7F99, 0x24A19947B3916CF7, 0x0801F2E2858EFC16, 0x636920D871574E69]"

section \<open>Rounds\<close>

text \<open>A macro on four of the sixteen variables \<open>V0\<close> \dots \<open>VF\<close>, by their positions.\<close>

definition on4 ::
  "('a \<times> 'a \<times> 'a \<times> 'a \<Rightarrow> 'a \<times> 'a \<times> 'a \<times> 'a) \<Rightarrow> nat \<times> nat \<times> nat \<times> nat \<Rightarrow> 'a list \<Rightarrow> 'a list" where
  "on4 g ix V = (case ix of (i, j, k, l) \<Rightarrow>
     case g (V ! i, V ! j, V ! k, V ! l) of (a, b, c, d) \<Rightarrow> V[i := a, j := b, k := c, l := d])"

definition GS :: "u32 \<Rightarrow> u32 \<Rightarrow> u32 \<Rightarrow> u32 \<Rightarrow> u32 \<times> u32 \<times> u32 \<times> u32 \<Rightarrow> u32 \<times> u32 \<times> u32 \<times> u32" where
  "GS m0 m1 c0 c1 v = (case v of (a, b, c, d) \<Rightarrow>
     let a = SPH_T32 (a + b + (m0 XOR c1));
         d = SPH_ROTR32 (d XOR a) 16;
         c = SPH_T32 (c + d);
         b = SPH_ROTR32 (b XOR c) 12;
         a = SPH_T32 (a + b + (m1 XOR c0));
         d = SPH_ROTR32 (d XOR a) 8;
         c = SPH_T32 (c + d);
         b = SPH_ROTR32 (b XOR c) 7
     in (a, b, c, d))"

definition ROUND_S :: "u32 list \<Rightarrow> nat \<Rightarrow> u32 list \<Rightarrow> u32 list" where
  "ROUND_S M r V =
     (let x = (\<lambda>i. Z ! r ! i);
         V = on4 (GS (M ! x 0) (M ! x 1) (CS ! x 0) (CS ! x 1)) (0, 4, 8, 12) V;
         V = on4 (GS (M ! x 2) (M ! x 3) (CS ! x 2) (CS ! x 3)) (1, 5, 9, 13) V;
         V = on4 (GS (M ! x 4) (M ! x 5) (CS ! x 4) (CS ! x 5)) (2, 6, 10, 14) V;
         V = on4 (GS (M ! x 6) (M ! x 7) (CS ! x 6) (CS ! x 7)) (3, 7, 11, 15) V;
         V = on4 (GS (M ! x 8) (M ! x 9) (CS ! x 8) (CS ! x 9)) (0, 5, 10, 15) V;
         V = on4 (GS (M ! x 10) (M ! x 11) (CS ! x 10) (CS ! x 11)) (1, 6, 11, 12) V;
         V = on4 (GS (M ! x 12) (M ! x 13) (CS ! x 12) (CS ! x 13)) (2, 7, 8, 13) V;
         V = on4 (GS (M ! x 14) (M ! x 15) (CS ! x 14) (CS ! x 15)) (3, 4, 9, 14) V
      in V)"

definition ROUND_S_compact :: "u32 list \<Rightarrow> nat \<Rightarrow> u32 list \<Rightarrow> u32 list" where
  "ROUND_S_compact M r V =
     (let x = (\<lambda>i. sigma ! r ! i);
         V = on4 (GS (M ! x 0) (M ! x 1) (CS ! x 0) (CS ! x 1)) (0, 4, 8, 12) V;
         V = on4 (GS (M ! x 2) (M ! x 3) (CS ! x 2) (CS ! x 3)) (1, 5, 9, 13) V;
         V = on4 (GS (M ! x 4) (M ! x 5) (CS ! x 4) (CS ! x 5)) (2, 6, 10, 14) V;
         V = on4 (GS (M ! x 6) (M ! x 7) (CS ! x 6) (CS ! x 7)) (3, 7, 11, 15) V;
         V = on4 (GS (M ! x 8) (M ! x 9) (CS ! x 8) (CS ! x 9)) (0, 5, 10, 15) V;
         V = on4 (GS (M ! x 10) (M ! x 11) (CS ! x 10) (CS ! x 11)) (1, 6, 11, 12) V;
         V = on4 (GS (M ! x 12) (M ! x 13) (CS ! x 12) (CS ! x 13)) (2, 7, 8, 13) V;
         V = on4 (GS (M ! x 14) (M ! x 15) (CS ! x 14) (CS ! x 15)) (3, 4, 9, 14) V
      in V)"

definition GB :: "u64 \<Rightarrow> u64 \<Rightarrow> u64 \<Rightarrow> u64 \<Rightarrow> u64 \<times> u64 \<times> u64 \<times> u64 \<Rightarrow> u64 \<times> u64 \<times> u64 \<times> u64" where
  "GB m0 m1 c0 c1 v = (case v of (a, b, c, d) \<Rightarrow>
     let a = SPH_T64 (a + b + (m0 XOR c1));
         d = SPH_ROTR64 (d XOR a) 32;
         c = SPH_T64 (c + d);
         b = SPH_ROTR64 (b XOR c) 25;
         a = SPH_T64 (a + b + (m1 XOR c0));
         d = SPH_ROTR64 (d XOR a) 16;
         c = SPH_T64 (c + d);
         b = SPH_ROTR64 (b XOR c) 11
     in (a, b, c, d))"

definition ROUND_B :: "u64 list \<Rightarrow> nat \<Rightarrow> u64 list \<Rightarrow> u64 list" where
  "ROUND_B M r V =
     (let x = (\<lambda>i. Z ! r ! i);
         V = on4 (GB (M ! x 0) (M ! x 1) (CB ! x 0) (CB ! x 1)) (0, 4, 8, 12) V;
         V = on4 (GB (M ! x 2) (M ! x 3) (CB ! x 2) (CB ! x 3)) (1, 5, 9, 13) V;
         V = on4 (GB (M ! x 4) (M ! x 5) (CB ! x 4) (CB ! x 5)) (2, 6, 10, 14) V;
         V = on4 (GB (M ! x 6) (M ! x 7) (CB ! x 6) (CB ! x 7)) (3, 7, 11, 15) V;
         V = on4 (GB (M ! x 8) (M ! x 9) (CB ! x 8) (CB ! x 9)) (0, 5, 10, 15) V;
         V = on4 (GB (M ! x 10) (M ! x 11) (CB ! x 10) (CB ! x 11)) (1, 6, 11, 12) V;
         V = on4 (GB (M ! x 12) (M ! x 13) (CB ! x 12) (CB ! x 13)) (2, 7, 8, 13) V;
         V = on4 (GB (M ! x 14) (M ! x 15) (CB ! x 14) (CB ! x 15)) (3, 4, 9, 14) V
      in V)"

definition ROUND_B_compact :: "u64 list \<Rightarrow> nat \<Rightarrow> u64 list \<Rightarrow> u64 list" where
  "ROUND_B_compact M r V =
     (let x = (\<lambda>i. sigma ! r ! i);
         V = on4 (GB (M ! x 0) (M ! x 1) (CB ! x 0) (CB ! x 1)) (0, 4, 8, 12) V;
         V = on4 (GB (M ! x 2) (M ! x 3) (CB ! x 2) (CB ! x 3)) (1, 5, 9, 13) V;
         V = on4 (GB (M ! x 4) (M ! x 5) (CB ! x 4) (CB ! x 5)) (2, 6, 10, 14) V;
         V = on4 (GB (M ! x 6) (M ! x 7) (CB ! x 6) (CB ! x 7)) (3, 7, 11, 15) V;
         V = on4 (GB (M ! x 8) (M ! x 9) (CB ! x 8) (CB ! x 9)) (0, 5, 10, 15) V;
         V = on4 (GB (M ! x 10) (M ! x 11) (CB ! x 10) (CB ! x 11)) (1, 6, 11, 12) V;
         V = on4 (GB (M ! x 12) (M ! x 13) (CB ! x 12) (CB ! x 13)) (2, 7, 8, 13) V;
         V = on4 (GB (M ! x 14) (M ! x 15) (CB ! x 14) (CB ! x 15)) (3, 4, 9, 14) V
      in V)"

section \<open>Compression\<close>

definition blake32_V :: "u32 list \<Rightarrow> u32 list \<Rightarrow> u32 \<Rightarrow> u32 \<Rightarrow> u32 list" where
  "blake32_V H S T0 T1 =
     [H ! 0, H ! 1, H ! 2, H ! 3, H ! 4, H ! 5, H ! 6, H ! 7,
      S ! 0 XOR CS ! 0, S ! 1 XOR CS ! 1, S ! 2 XOR CS ! 2, S ! 3 XOR CS ! 3,
      T0 XOR CS ! 4, T0 XOR CS ! 5, T1 XOR CS ! 6, T1 XOR CS ! 7]"

definition blake32_M :: "bytes \<Rightarrow> u32 list" where
  "blake32_M buf = map (\<lambda>i. sph_dec32be_aligned (drop (4 * i) buf)) [0..<16]"

definition blake32_out :: "u32 list \<Rightarrow> u32 list \<Rightarrow> u32 list \<Rightarrow> u32 list" where
  "blake32_out H S V =
     map (\<lambda>i. H ! i XOR S ! (i mod 4) XOR V ! i XOR V ! (i + 8)) [0..<8]"

definition COMPRESS32 :: "u32 list \<Rightarrow> u32 list \<Rightarrow> u32 \<Rightarrow> u32 \<Rightarrow> bytes \<Rightarrow> u32 list" where
  "COMPRESS32 H S T0 T1 buf =
     (let V = blake32_V H S T0 T1;
          M = blake32_M buf;
          V = foldl (\<lambda>V r. ROUND_S M r V) V [0, 1, 2, 3, 4, 5, 6, 7, 8, 9, 0, 1, 2, 3]
      in blake32_out H S V)"

definition COMPRESS32_compact :: "u32 list \<Rightarrow> u32 list \<Rightarrow> u32 \<Rightarrow> u32 \<Rightarrow> bytes \<Rightarrow> u32 list" where
  "COMPRESS32_compact H S T0 T1 buf =
     (let V = blake32_V H S T0 T1;
          M = blake32_M buf;
          V = foldl (\<lambda>V r. ROUND_S_compact M r V) V [0..<14]
      in blake32_out H S V)"

definition blake64_V :: "u64 list \<Rightarrow> u64 list \<Rightarrow> u64 \<Rightarrow> u64 \<Rightarrow> u64 list" where
  "blake64_V H S T0 T1 =
     [H ! 0, H ! 1, H ! 2, H ! 3, H ! 4, H ! 5, H ! 6, H ! 7,
      S ! 0 XOR CB ! 0, S ! 1 XOR CB ! 1, S ! 2 XOR CB ! 2, S ! 3 XOR CB ! 3,
      T0 XOR CB ! 4, T0 XOR CB ! 5, T1 XOR CB ! 6, T1 XOR CB ! 7]"

definition blake64_M :: "bytes \<Rightarrow> u64 list" where
  "blake64_M buf = map (\<lambda>i. sph_dec64be_aligned (drop (8 * i) buf)) [0..<16]"

definition blake64_out :: "u64 list \<Rightarrow> u64 list \<Rightarrow> u64 list \<Rightarrow> u64 list" where
  "blake64_out H S V =
     map (\<lambda>i. H ! i XOR S ! (i mod 4) XOR V ! i XOR V ! (i + 8)) [0..<8]"

definition COMPRESS64 :: "u64 list \<Rightarrow> u64 list \<Rightarrow> u64 \<Rightarrow> u64 \<Rightarrow> bytes \<Rightarrow> u64 list" where
  "COMPRESS64 H S T0 T1 buf =
     (let V = blake64_V H S T0 T1;
          M = blake64_M buf;
          V = foldl (\<lambda>V r. ROUND_B M r V) V [0, 1, 2, 3, 4, 5, 6, 7, 8, 9, 0, 1, 2, 3, 4, 5]
      in blake64_out H S V)"

definition COMPRESS64_compact :: "u64 list \<Rightarrow> u64 list \<Rightarrow> u64 \<Rightarrow> u64 \<Rightarrow> bytes \<Rightarrow> u64 list" where
  "COMPRESS64_compact H S T0 T1 buf =
     (let V = blake64_V H S T0 T1;
          M = blake64_M buf;
          V = foldl (\<lambda>V r. ROUND_B_compact M r V) V [0..<16]
      in blake64_out H S V)"

section \<open>Contexts and operations\<close>

record sph_blake_small_context =
  bs_buf :: bytes
  bs_ptr :: nat
  bs_H :: "u32 list"
  bs_S :: "u32 list"
  bs_T0 :: u32
  bs_T1 :: u32

definition salt_zero_small :: "u32 list" where
  "salt_zero_small = [0, 0, 0, 0]"

definition blake32_init :: "sph_blake_small_context \<Rightarrow> u32 list \<Rightarrow> u32 list \<Rightarrow> sph_blake_small_context" where
  "blake32_init sc iv salt =
     sc\<lparr>bs_H := iv, bs_S := salt, bs_T0 := 0, bs_T1 := 0, bs_ptr := 0\<rparr>"

text \<open>The body of the loop for a full buffer: advance the counter, compress.\<close>

definition blake32_block :: "u32 list \<times> u32 list \<times> u32 \<times> u32 \<Rightarrow> bytes \<Rightarrow> u32 list \<times> u32 list \<times> u32 \<times> u32" where
  "blake32_block st buf = (case st of (H, S, T0, T1) \<Rightarrow>
     let T0 = SPH_T32 (T0 + 512);
         T1 = (if T0 < 512 then SPH_T32 (T1 + 1) else T1)
     in (COMPRESS32 H S T0 T1 buf, S, T0, T1))"

definition blake32 :: "sph_blake_small_context \<Rightarrow> bytes \<Rightarrow> sph_blake_small_context" where
  "blake32 sc data =
     (case buf_update 64 blake32_block
        ((bs_H sc, bs_S sc, bs_T0 sc, bs_T1 sc), bs_buf sc, bs_ptr sc) data of
        ((H, S, T0, T1), buf, ptr) \<Rightarrow>
          sc\<lparr>bs_buf := buf, bs_ptr := ptr, bs_H := H, bs_S := S, bs_T0 := T0, bs_T1 := T1\<rparr>)"

text \<open>
  \<open>u.buf\<close> starts as zeros here; in C it is an uninitialised local of which every byte
  that is read has been written.
\<close>

definition blake32_close ::
  "sph_blake_small_context \<Rightarrow> u32 \<Rightarrow> nat \<Rightarrow> nat \<Rightarrow> sph_blake_small_context \<times> bytes" where
  "blake32_close sc ub n out_size =
     (let ptr = bs_ptr sc;
          bit_len = 8 * ptr + n;
          u = (replicate 64 0)[ptr := end_byte ub n];
          tl = bs_T0 sc + of_nat bit_len;
          th = bs_T1 sc;
          sc = (if ptr = 0 \<and> n = 0 then
                  sc\<lparr>bs_T0 := 0xFFFFFE00, bs_T1 := 0xFFFFFFFF\<rparr>
                else if bs_T0 sc = 0 then
                  sc\<lparr>bs_T0 := 0xFFFFFE00 + of_nat bit_len, bs_T1 := SPH_T32 (bs_T1 sc - 1)\<rparr>
                else sc\<lparr>bs_T0 := bs_T0 sc - (512 - of_nat bit_len)\<rparr>);
          sc = (if bit_len \<le> 446 then
                  let u = memset u (ptr + 1) 0 (55 - ptr);
                      u = (if out_size = 8 then u[55 := u ! 55 OR 1] else u);
                      u = memcpy u 56 (sph_enc32be_aligned th);
                      u = memcpy u 60 (sph_enc32be_aligned tl)
                  in blake32 sc (drop ptr u)
                else
                  let u = memset u (ptr + 1) 0 (63 - ptr);
                      sc = blake32 sc (drop ptr u);
                      sc = sc\<lparr>bs_T0 := 0xFFFFFE00, bs_T1 := 0xFFFFFFFF\<rparr>;
                      u = memset u 0 0 56;
                      u = (if out_size = 8 then u[55 := 1] else u);
                      u = memcpy u 56 (sph_enc32be_aligned th);
                      u = memcpy u 60 (sph_enc32be_aligned tl)
                  in blake32 sc u)
      in (sc, concat (map (\<lambda>k. sph_enc32be (bs_H sc ! k)) [0..<out_size])))"

record sph_blake_big_context =
  bb_buf :: bytes
  bb_ptr :: nat
  bb_H :: "u64 list"
  bb_S :: "u64 list"
  bb_T0 :: u64
  bb_T1 :: u64

definition salt_zero_big :: "u64 list" where
  "salt_zero_big = [0, 0, 0, 0]"

definition blake64_init :: "sph_blake_big_context \<Rightarrow> u64 list \<Rightarrow> u64 list \<Rightarrow> sph_blake_big_context" where
  "blake64_init sc iv salt =
     sc\<lparr>bb_H := iv, bb_S := salt, bb_T0 := 0, bb_T1 := 0, bb_ptr := 0\<rparr>"

text \<open>The body of the loop for a full buffer: advance the counter, compress.\<close>

definition blake64_block :: "u64 list \<times> u64 list \<times> u64 \<times> u64 \<Rightarrow> bytes \<Rightarrow> u64 list \<times> u64 list \<times> u64 \<times> u64" where
  "blake64_block st buf = (case st of (H, S, T0, T1) \<Rightarrow>
     let T0 = SPH_T64 (T0 + 1024);
         T1 = (if T0 < 1024 then SPH_T64 (T1 + 1) else T1)
     in (COMPRESS64 H S T0 T1 buf, S, T0, T1))"

definition blake64 :: "sph_blake_big_context \<Rightarrow> bytes \<Rightarrow> sph_blake_big_context" where
  "blake64 sc data =
     (case buf_update 128 blake64_block
        ((bb_H sc, bb_S sc, bb_T0 sc, bb_T1 sc), bb_buf sc, bb_ptr sc) data of
        ((H, S, T0, T1), buf, ptr) \<Rightarrow>
          sc\<lparr>bb_buf := buf, bb_ptr := ptr, bb_H := H, bb_S := S, bb_T0 := T0, bb_T1 := T1\<rparr>)"

text \<open>
  \<open>u.buf\<close> starts as zeros here; in C it is an uninitialised local of which every byte
  that is read has been written.
\<close>

definition blake64_close ::
  "sph_blake_big_context \<Rightarrow> u32 \<Rightarrow> nat \<Rightarrow> nat \<Rightarrow> sph_blake_big_context \<times> bytes" where
  "blake64_close sc ub n out_size =
     (let ptr = bb_ptr sc;
          bit_len = 8 * ptr + n;
          u = (replicate 128 0)[ptr := end_byte ub n];
          tl = bb_T0 sc + of_nat bit_len;
          th = bb_T1 sc;
          sc = (if ptr = 0 \<and> n = 0 then
                  sc\<lparr>bb_T0 := 0xFFFFFFFFFFFFFC00, bb_T1 := 0xFFFFFFFFFFFFFFFF\<rparr>
                else if bb_T0 sc = 0 then
                  sc\<lparr>bb_T0 := 0xFFFFFFFFFFFFFC00 + of_nat bit_len, bb_T1 := SPH_T64 (bb_T1 sc - 1)\<rparr>
                else sc\<lparr>bb_T0 := bb_T0 sc - (1024 - of_nat bit_len)\<rparr>);
          sc = (if bit_len \<le> 894 then
                  let u = memset u (ptr + 1) 0 (111 - ptr);
                      u = (if out_size = 8 then u[111 := u ! 111 OR 1] else u);
                      u = memcpy u 112 (sph_enc64be_aligned th);
                      u = memcpy u 120 (sph_enc64be_aligned tl)
                  in blake64 sc (drop ptr u)
                else
                  let u = memset u (ptr + 1) 0 (127 - ptr);
                      sc = blake64 sc (drop ptr u);
                      sc = sc\<lparr>bb_T0 := 0xFFFFFFFFFFFFFC00, bb_T1 := 0xFFFFFFFFFFFFFFFF\<rparr>;
                      u = memset u 0 0 112;
                      u = (if out_size = 8 then u[111 := 1] else u);
                      u = memcpy u 112 (sph_enc64be_aligned th);
                      u = memcpy u 120 (sph_enc64be_aligned tl)
                  in blake64 sc u)
      in (sc, concat (map (\<lambda>k. sph_enc64be (bb_H sc ! k)) [0..<out_size])))"

definition sph_blake224_init :: "sph_blake_small_context \<Rightarrow> sph_blake_small_context" where
  "sph_blake224_init cc = blake32_init cc IV224 salt_zero_small"

definition sph_blake224 :: "sph_blake_small_context \<Rightarrow> bytes \<Rightarrow> sph_blake_small_context" where
  "sph_blake224 cc data = blake32 cc data"

definition sph_blake224_addbits_and_close ::
  "sph_blake_small_context \<Rightarrow> u32 \<Rightarrow> nat \<Rightarrow> sph_blake_small_context \<times> bytes" where
  "sph_blake224_addbits_and_close cc ub n =
     (case blake32_close cc ub n 7 of (cc, dst) \<Rightarrow> (sph_blake224_init cc, dst))"

definition sph_blake224_close :: "sph_blake_small_context \<Rightarrow> sph_blake_small_context \<times> bytes" where
  "sph_blake224_close cc = sph_blake224_addbits_and_close cc 0 0"

definition sph_blake256_init :: "sph_blake_small_context \<Rightarrow> sph_blake_small_context" where
  "sph_blake256_init cc = blake32_init cc IV256 salt_zero_small"

definition sph_blake256 :: "sph_blake_small_context \<Rightarrow> bytes \<Rightarrow> sph_blake_small_context" where
  "sph_blake256 cc data = blake32 cc data"

definition sph_blake256_addbits_and_close ::
  "sph_blake_small_context \<Rightarrow> u32 \<Rightarrow> nat \<Rightarrow> sph_blake_small_context \<times> bytes" where
  "sph_blake256_addbits_and_close cc ub n =
     (case blake32_close cc ub n 8 of (cc, dst) \<Rightarrow> (sph_blake256_init cc, dst))"

definition sph_blake256_close :: "sph_blake_small_context \<Rightarrow> sph_blake_small_context \<times> bytes" where
  "sph_blake256_close cc = sph_blake256_addbits_and_close cc 0 0"

definition sph_blake384_init :: "sph_blake_big_context \<Rightarrow> sph_blake_big_context" where
  "sph_blake384_init cc = blake64_init cc IV384 salt_zero_big"

definition sph_blake384 :: "sph_blake_big_context \<Rightarrow> bytes \<Rightarrow> sph_blake_big_context" where
  "sph_blake384 cc data = blake64 cc data"

definition sph_blake384_addbits_and_close ::
  "sph_blake_big_context \<Rightarrow> u32 \<Rightarrow> nat \<Rightarrow> sph_blake_big_context \<times> bytes" where
  "sph_blake384_addbits_and_close cc ub n =
     (case blake64_close cc ub n 6 of (cc, dst) \<Rightarrow> (sph_blake384_init cc, dst))"

definition sph_blake384_close :: "sph_blake_big_context \<Rightarrow> sph_blake_big_context \<times> bytes" where
  "sph_blake384_close cc = sph_blake384_addbits_and_close cc 0 0"

definition sph_blake512_init :: "sph_blake_big_context \<Rightarrow> sph_blake_big_context" where
  "sph_blake512_init cc = blake64_init cc IV512 salt_zero_big"

definition sph_blake512 :: "sph_blake_big_context \<Rightarrow> bytes \<Rightarrow> sph_blake_big_context" where
  "sph_blake512 cc data = blake64 cc data"

definition sph_blake512_addbits_and_close ::
  "sph_blake_big_context \<Rightarrow> u32 \<Rightarrow> nat \<Rightarrow> sph_blake_big_context \<times> bytes" where
  "sph_blake512_addbits_and_close cc ub n =
     (case blake64_close cc ub n 8 of (cc, dst) \<Rightarrow> (sph_blake512_init cc, dst))"

definition sph_blake512_close :: "sph_blake_big_context \<Rightarrow> sph_blake_big_context \<times> bytes" where
  "sph_blake512_close cc = sph_blake512_addbits_and_close cc 0 0"
section \<open>The rounds permute the state\<close>

lemma xor_cancel [simp]: "(x XOR y) XOR y = x" "y XOR (y XOR x) = x" "y XOR (x XOR y) = x"
  for x y :: "'a::len word"
  by (rule bit_word_eqI; auto simp: bit_simps)+

definition GS_inv :: "u32 \<Rightarrow> u32 \<Rightarrow> u32 \<Rightarrow> u32 \<Rightarrow> u32 \<times> u32 \<times> u32 \<times> u32 \<Rightarrow> u32 \<times> u32 \<times> u32 \<times> u32" where
  "GS_inv m0 m1 c0 c1 v = (case v of (a, b, c, d) \<Rightarrow>
     let b = word_rotl 7 b XOR c; c = c - d; d = word_rotl 8 d XOR a; a = a - b - (m1 XOR c0);
         b = word_rotl 12 b XOR c; c = c - d; d = word_rotl 16 d XOR a; a = a - b - (m0 XOR c1)
     in (a, b, c, d))"

definition GB_inv :: "u64 \<Rightarrow> u64 \<Rightarrow> u64 \<Rightarrow> u64 \<Rightarrow> u64 \<times> u64 \<times> u64 \<times> u64 \<Rightarrow> u64 \<times> u64 \<times> u64 \<times> u64" where
  "GB_inv m0 m1 c0 c1 v = (case v of (a, b, c, d) \<Rightarrow>
     let b = word_rotl 11 b XOR c; c = c - d; d = word_rotl 16 d XOR a; a = a - b - (m1 XOR c0);
         b = word_rotl 25 b XOR c; c = c - d; d = word_rotl 32 d XOR a; a = a - b - (m0 XOR c1)
     in (a, b, c, d))"

lemma GS_inv_GS: "GS_inv m0 m1 c0 c1 (GS m0 m1 c0 c1 v) = v"
  by (cases v) (simp add: GS_inv_def GS_def Let_def sph_rot add.assoc)

lemma GB_inv_GB: "GB_inv m0 m1 c0 c1 (GB m0 m1 c0 c1 v) = v"
  by (cases v) (simp add: GB_inv_def GB_def Let_def sph_rot add.assoc)

lemma inj_GS: "inj (GS m0 m1 c0 c1)"
  by (rule inj_on_inverseI) (rule GS_inv_GS)

lemma inj_GB: "inj (GB m0 m1 c0 c1)"
  by (rule inj_on_inverseI) (rule GB_inv_GB)

definition quad_ok :: "nat \<Rightarrow> nat \<times> nat \<times> nat \<times> nat \<Rightarrow> bool" where
  "quad_ok N ix \<longleftrightarrow> (case ix of (i, j, k, l) \<Rightarrow> distinct [i, j, k, l] \<and> {i, j, k, l} \<subseteq> {..<N})"

lemma length_on4 [simp]: "length (on4 g ix V) = length V"
  by (simp add: on4_def split: prod.split)

lemma on4_on4:
  assumes "quad_ok (length V) ix" "\<And>v. g' (g v) = v"
  shows "on4 g' ix (on4 g ix V) = V"
proof -
  obtain i j k l where ix: "ix = (i, j, k, l)" by (cases ix)
  obtain a b c d where g: "g (V ! i, V ! j, V ! k, V ! l) = (a, b, c, d)"
    by (cases "g (V ! i, V ! j, V ! k, V ! l)")
  have "g' (a, b, c, d) = (V ! i, V ! j, V ! k, V ! l)"
    using assms(2) [of "(V ! i, V ! j, V ! k, V ! l)"] g by simp
  moreover have "distinct [i, j, k, l]" "i < length V" "j < length V" "k < length V" "l < length V"
    using assms(1) by (simp_all add: quad_ok_def ix)
  ultimately show ?thesis
    by (auto simp: on4_def ix g list_update_swap intro: nth_equalityI simp: nth_list_update)
qed

lemma inj_on_on4:
  assumes "quad_ok N ix" "inj g"
  shows "inj_on (on4 g ix) {V. length V = N}"
  using assms on4_on4 [of _ ix "inv g" g] by (intro inj_on_inverseI [of _ "on4 (inv g) ix"]) simp

definition steps4 :: "(('a \<times> 'a \<times> 'a \<times> 'a \<Rightarrow> 'a \<times> 'a \<times> 'a \<times> 'a) \<times> nat \<times> nat \<times> nat \<times> nat) list \<Rightarrow> 'a list \<Rightarrow> 'a list" where
  "steps4 gs V = foldl (\<lambda>V (g, ix). on4 g ix V) V gs"

lemma length_steps4 [simp]: "length (steps4 gs V) = length V"
  by (induction gs arbitrary: V) (auto simp: steps4_def)

lemma inj_on_steps4:
  assumes "\<forall>(g, ix) \<in> set gs. inj g \<and> quad_ok N ix"
  shows "inj_on (steps4 gs) {V. length V = N}"
  using assms
proof (induction gs)
  case Nil
  then show ?case by (simp add: steps4_def inj_on_def)
next
  case (Cons p gs)
  obtain g ix where p: "p = (g, ix)" by (cases p)
  from Cons.prems have g: "inj g" "quad_ok N ix" and gs: "\<forall>(g, ix) \<in> set gs. inj g \<and> quad_ok N ix"
    by (simp_all add: p)
  have "on4 g ix ` {V. length V = N} \<subseteq> {V. length V = N}"
    by auto
  with Cons.IH [OF gs] have "inj_on (steps4 gs) (on4 g ix ` {V. length V = N})"
    by (rule inj_on_subset)
  with inj_on_on4 [OF g(2,1)] have "inj_on (steps4 gs \<circ> on4 g ix) {V. length V = N}"
    by (rule comp_inj_on)
  moreover have "steps4 (p # gs) = steps4 gs \<circ> on4 g ix"
    by (simp add: fun_eq_iff steps4_def p)
  ultimately show ?case by (simp only:)
qed

lemma lists_bij:
  fixes F :: "'a::len word list \<Rightarrow> 'a word list"
  assumes inj: "inj_on F {V. length V = N}" and len: "\<And>V. length V = N \<Longrightarrow> length (F V) = N"
  shows "bij_betw F {V. length V = N} {V. length V = N}"
proof -
  have "finite {V :: 'a word list. length V = N}"
    using finite_lists_length_eq [of "UNIV :: 'a word set" N] by simp
  moreover have "F ` {V. length V = N} \<subseteq> {V. length V = N}"
    using len by auto
  ultimately have "F ` {V. length V = N} = {V. length V = N}"
    using inj by (rule endo_inj_surj)
  with inj show ?thesis by (simp add: bij_betw_def)
qed

lemma bij_betw_foldl:
  assumes "\<And>x. bij_betw (f x) A A"
  shows "bij_betw (\<lambda>V. foldl (\<lambda>V x. f x V) V xs) A A"
proof (induction xs)
  case Nil
  then show ?case by (simp add: bij_betw_def inj_on_def)
next
  case (Cons x xs)
  then have "bij_betw ((\<lambda>V. foldl (\<lambda>V x. f x V) V xs) \<circ> f x) A A"
    using assms by (rule bij_betw_trans [rotated])
  then show ?case by (simp add: o_def)
qed

definition round_quads :: "(nat \<times> nat \<times> nat \<times> nat) list" where
  "round_quads = [(0, 4, 8, 12), (1, 5, 9, 13), (2, 6, 10, 14), (3, 7, 11, 15),
     (0, 5, 10, 15), (1, 6, 11, 12), (2, 7, 8, 13), (3, 4, 9, 14)]"

lemma ROUND_S_steps:
  "ROUND_S M r = steps4 (map (\<lambda>i. (GS (M ! (Z ! r ! (2 * i))) (M ! (Z ! r ! (2 * i + 1)))
     (CS ! (Z ! r ! (2 * i))) (CS ! (Z ! r ! (2 * i + 1))), round_quads ! i)) [0..<8])"
  by (simp add: fun_eq_iff ROUND_S_def Let_def steps4_def round_quads_def upt_lits)

lemma ROUND_B_steps:
  "ROUND_B M r = steps4 (map (\<lambda>i. (GB (M ! (Z ! r ! (2 * i))) (M ! (Z ! r ! (2 * i + 1)))
     (CB ! (Z ! r ! (2 * i))) (CB ! (Z ! r ! (2 * i + 1))), round_quads ! i)) [0..<8])"
  by (simp add: fun_eq_iff ROUND_B_def Let_def steps4_def round_quads_def upt_lits)

lemma quad_ok_round: "i < 8 \<Longrightarrow> quad_ok 16 (round_quads ! i)"
proof -
  have "\<forall>q \<in> set round_quads. quad_ok 16 q"
    by (simp add: round_quads_def quad_ok_def)
  moreover assume "i < 8"
  then have "round_quads ! i \<in> set round_quads"
    by (intro nth_mem) (simp add: round_quads_def)
  ultimately show ?thesis by blast
qed

lemma ROUND_S_bij: "bij_betw (ROUND_S M r) {V. length V = 16} {V. length V = 16}"
  unfolding ROUND_S_steps
  by (rule lists_bij, rule inj_on_steps4) (auto simp: inj_GS quad_ok_round)

lemma ROUND_B_bij: "bij_betw (ROUND_B M r) {V. length V = 16} {V. length V = 16}"
  unfolding ROUND_B_steps
  by (rule lists_bij, rule inj_on_steps4) (auto simp: inj_GB quad_ok_round)

section \<open>The compact rounds\<close>

lemma sigma_Z: "r < 16 \<Longrightarrow> sigma ! r = Z ! (r mod 10)"
proof -
  assume r: "r < 16"
  have "sigma = map (\<lambda>r. Z ! (r mod 10)) [0..<16]"
    by (simp add: sigma_def Z_def upt_lits)
  then have "sigma ! r = map (\<lambda>r. Z ! (r mod 10)) [0..<16] ! r"
    by (rule arg_cong)
  with r show ?thesis by simp
qed

lemma ROUND_compact:
  "r < 16 \<Longrightarrow> ROUND_S_compact M r = ROUND_S M' (r mod 10)"
  "r < 16 \<Longrightarrow> ROUND_B_compact N r = ROUND_B N' (r mod 10)"
  if "M' = M" "N' = N" for M' N'
  using that by (simp_all add: fun_eq_iff ROUND_S_compact_def ROUND_S_def ROUND_B_compact_def ROUND_B_def
      sigma_Z)

lemma COMPRESS32_compact_eq: "COMPRESS32_compact H S T0 T1 buf = COMPRESS32 H S T0 T1 buf"
  by (simp add: COMPRESS32_compact_def COMPRESS32_def Let_def ROUND_compact upt_lits)

lemma COMPRESS64_compact_eq: "COMPRESS64_compact H S T0 T1 buf = COMPRESS64 H S T0 T1 buf"
  by (simp add: COMPRESS64_compact_def COMPRESS64_def Let_def ROUND_compact upt_lits)

section \<open>The compression function of the specification\<close>

text \<open>The sixteen variables as a list, and the state of the specification.\<close>

definition same_state :: "'w::len word list \<Rightarrow> (nat \<Rightarrow> 'w word) \<Rightarrow> bool" where
  "same_state V v \<longleftrightarrow> length V = 16 \<and> (\<forall>i < 16. V ! i = v i)"

lemma same_state_on4:
  assumes "same_state V v" "quad_ok 16 (i, j, k, l)" "g (v i, v j, v k, v l) = (a, b, c, d)"
  shows "same_state (on4 g (i, j, k, l) V) (v(i := a, j := b, k := c, l := d))"
proof -
  have "V ! i = v i" "V ! j = v j" "V ! k = v k" "V ! l = v l"
    using assms(1,2) by (simp_all add: same_state_def quad_ok_def)
  then show ?thesis
    using assms by (auto simp: same_state_def quad_ok_def on4_def nth_list_update)
qed

lemma same_state_foldl:
  assumes "same_state V v" "\<And>x V v. x \<in> set xs \<Longrightarrow> same_state V v \<Longrightarrow> same_state (F V x) (f v x)"
  shows "same_state (foldl F V xs) (foldl f v xs)"
  using assms by (induction xs arbitrary: V v) simp_all

lemma blake_u_digits:
  assumes "pi_fraction = foldl (\<lambda>n d. n * 2 ^ LENGTH('w) + d) 0 ds" "list_all (\<lambda>d. d < 2 ^ LENGTH('w)) ds"
    "LENGTH('w) * length ds = 1024" "i < length ds"
  shows "(blake_u i :: 'w::len word) = of_nat (ds ! i)"
proof -
  have "1024 - LENGTH('w) * (i + 1) = LENGTH('w) * (length ds - 1 - i)"
    unfolding assms(3) [symmetric] by (simp add: diff_mult_distrib2 diff_diff_left add.commute)
  then show ?thesis
    using digits_nth [OF _ assms(2,4)] by (simp add: blake_u_def assms(1) power_mult)
qed

lemma constants_64: "CB = map blake_u [0..<16]"
proof -
  let ?ds = "map unat CB"
  have "pi_fraction = foldl (\<lambda>n d. n * 2 ^ LENGTH(64) + d) 0 ?ds" "list_all (\<lambda>d. d < 2 ^ LENGTH(64)) ?ds" "length ?ds = 16"
    by (simp_all add: pi_fraction_def CB_def)
  then have "blake_u i = CB ! i" if "i < 16" for i
    using blake_u_digits [of ?ds i, where ?'w = 64] that by simp
  then show ?thesis by (intro nth_equalityI) (simp_all add: CB_def)
qed

lemma constants_32: "CS = map blake_u [0..<16]"
proof -
  let ?ds = "map unat CS @ map unat [0x9216D5D9, 0x8979FB1B, 0xD1310BA6, 0x98DFB5AC, 0x2FFD72DB, 0xD01ADFB7, 0xB8E1AFED, 0x6A267E96,
    0xBA7C9045, 0xF12C7F99, 0x24A19947, 0xB3916CF7, 0x0801F2E2, 0x858EFC16, 0x636920D8, 0x71574E69 :: u32]"
  have "pi_fraction = foldl (\<lambda>n d. n * 2 ^ LENGTH(32) + d) 0 ?ds" "list_all (\<lambda>d. d < 2 ^ LENGTH(32)) ?ds" "length ?ds = 32"
    by (simp_all add: pi_fraction_def CS_def)
  moreover have "?ds ! i = unat (CS ! i)" if "i < 16" for i
  proof -
    have "length CS = 16" by (simp add: CS_def)
    with that show ?thesis by (simp only: nth_append length_map nth_map if_True)
  qed
  ultimately have "blake_u i = CS ! i" if "i < 16" for i
    using blake_u_digits [of ?ds i, where ?'w = 32] that by simp
  then show ?thesis by (intro nth_equalityI) (simp_all add: CS_def)
qed

lemmas constants_spec = constants_32 constants_64

lemma Z_spec: "Z = map (\<lambda>r. map (blake_perm r) [0..<16]) [0..<10]"
proof -
  have row: "map (blake_perm r) [0..<16] = ds" if "blake_row r = foldl (\<lambda>n d. n * 16 + d) 0 ds" "list_all (\<lambda>d. d < 16) ds" "length ds = 16"
    for r ds
    using digits_nth [of 16 ds] that by (intro nth_equalityI) (simp_all add: blake_perm_def)
  show ?thesis
    by (simp only: Z_def upt_10 list.map list.inject)
       (intro conjI refl; rule row [symmetric]; simp add: blake_row_def)
qed

lemma round_quads_spec: "round_quads = map blake_cells [0..<8]"
  by (simp add: round_quads_def blake_cells_def upt_lits)

lemma blake_perm_16: "blake_perm r i < 16"
  by (simp add: blake_perm_def)

lemma blake_perm_mod: "blake_perm (r mod 10) i = blake_perm r i"
  by (simp add: blake_perm_def blake_row_def)

lemma Z_nth: "r < 16 \<Longrightarrow> i < 16 \<Longrightarrow> Z ! (r mod 10) ! i = blake_perm r i"
  by (simp add: Z_spec blake_perm_mod)

lemma roots_1:
  "root_fraction 64 2 = 0x6A09E667F3BCC908"
  "root_fraction 64 3 = 0xBB67AE8584CAA73B"
  "root_fraction 32 2 = 0x6A09E667"
  "root_fraction 32 3 = 0xBB67AE85"
  by (rule root_fraction_eq [where a = 1]; simp)+

lemma roots_2:
  "root_fraction 64 5 = 0x3C6EF372FE94F82B"
  "root_fraction 64 7 = 0xA54FF53A5F1D36F1"
  "root_fraction 32 5 = 0x3C6EF372"
  "root_fraction 32 7 = 0xA54FF53A"
  by (rule root_fraction_eq [where a = 2]; simp)+

lemma roots_3:
  "root_fraction 64 11 = 0x510E527FADE682D1"
  "root_fraction 64 13 = 0x9B05688C2B3E6C1F"
  "root_fraction 32 11 = 0x510E527F"
  "root_fraction 32 13 = 0x9B05688C"
  by (rule root_fraction_eq [where a = 3]; simp)+

lemma roots_4:
  "root_fraction 64 17 = 0x1F83D9ABFB41BD6B"
  "root_fraction 64 19 = 0x5BE0CD19137E2179"
  "root_fraction 64 23 = 0xCBBB9D5DC1059ED8"
  "root_fraction 32 17 = 0x1F83D9AB"
  "root_fraction 32 19 = 0x5BE0CD19"
  by (rule root_fraction_eq [where a = 4]; simp)+

lemma roots_5:
  "root_fraction 64 29 = 0x629A292A367CD507"
  "root_fraction 64 31 = 0x9159015A3070DD17"
  by (rule root_fraction_eq [where a = 5]; simp)+

lemma roots_6:
  "root_fraction 64 37 = 0x152FECD8F70E5939"
  "root_fraction 64 41 = 0x67332667FFC00B31"
  "root_fraction 64 43 = 0x8EB44A8768581511"
  "root_fraction 64 47 = 0xDB0C2E0D64F98FA7"
  by (rule root_fraction_eq [where a = 6]; simp)+

lemma roots_7:
  "root_fraction 64 53 = 0x47B5481DBEFA4FA4"
  by (rule root_fraction_eq [where a = 7]; simp)+

lemma IVs_spec:
  "IV512 = map (\<lambda>p. of_nat (root_fraction 64 p)) [2, 3, 5, 7, 11, 13, 17, 19]"
  "IV384 = map (\<lambda>p. of_nat (root_fraction 64 p)) [23, 29, 31, 37, 41, 43, 47, 53]"
  "IV256 = map (\<lambda>p. of_nat (root_fraction 32 p)) [2, 3, 5, 7, 11, 13, 17, 19]"
  "IV224 = map (\<lambda>p. of_nat (root_fraction 64 p mod 2 ^ 32)) [23, 29, 31, 37, 41, 43, 47, 53]"
  by (simp_all add: IV512_def IV384_def IV256_def IV224_def roots_1 roots_2 roots_3 roots_4 roots_5 roots_6 roots_7)

lemma step_B_spec:
  assumes "same_state V v" "\<forall>i < 16. M ! i = m i" "r < 16" "i < 8"
  shows "same_state (on4 (GB (M ! (Z ! (r mod 10) ! (2 * i))) (M ! (Z ! (r mod 10) ! (2 * i + 1)))
      (CB ! (Z ! (r mod 10) ! (2 * i))) (CB ! (Z ! (r mod 10) ! (2 * i + 1)))) (round_quads ! i) V)
    (blake_G (32, 25, 16, 11) m r i v)"
proof -
  obtain pa pb pc pd where p: "blake_cells i = (pa, pb, pc, pd)" by (metis prod_cases4)
  have q: "round_quads ! i = (pa, pb, pc, pd)" using assms(4) p by (simp add: round_quads_spec)
  then have ok: "quad_ok 16 (pa, pb, pc, pd)" using quad_ok_round [OF assms(4)] by simp
  let ?j = "blake_perm r (2 * i)" and ?k = "blake_perm r (2 * i + 1)"
  have z: "Z ! (r mod 10) ! (2 * i) = ?j" "Z ! (r mod 10) ! (2 * i + 1) = ?k" using Z_nth assms(3,4) by simp_all
  have c: "CB ! ?j = blake_u ?j" "CB ! ?k = blake_u ?k" "M ! ?j = m ?j" "M ! ?k = m ?k"
    using blake_perm_16 assms(2) by (simp_all add: constants_spec(2))
  obtain a b c' d where g: "GB (M ! ?j) (M ! ?k) (CB ! ?j) (CB ! ?k) (v pa, v pb, v pc, v pd) = (a, b, c', d)"
    by (metis prod_cases4)
  have "blake_G (32, 25, 16, 11) m r i v = v(pa := a, pb := b, pc := c', pd := d)"
    using g unfolding c by (auto simp: GB_def blake_G_def p Let_def sph_rot)
  then show ?thesis
    unfolding z q using same_state_on4 [where g = "GB (M ! ?j) (M ! ?k) (CB ! ?j) (CB ! ?k)", OF assms(1) ok g] by simp
qed

lemma step_S_spec:
  assumes "same_state V v" "\<forall>i < 16. M ! i = m i" "r < 16" "i < 8"
  shows "same_state (on4 (GS (M ! (Z ! (r mod 10) ! (2 * i))) (M ! (Z ! (r mod 10) ! (2 * i + 1)))
      (CS ! (Z ! (r mod 10) ! (2 * i))) (CS ! (Z ! (r mod 10) ! (2 * i + 1)))) (round_quads ! i) V)
    (blake_G (16, 12, 8, 7) m r i v)"
proof -
  obtain pa pb pc pd where p: "blake_cells i = (pa, pb, pc, pd)" by (metis prod_cases4)
  have q: "round_quads ! i = (pa, pb, pc, pd)" using assms(4) p by (simp add: round_quads_spec)
  then have ok: "quad_ok 16 (pa, pb, pc, pd)" using quad_ok_round [OF assms(4)] by simp
  let ?j = "blake_perm r (2 * i)" and ?k = "blake_perm r (2 * i + 1)"
  have z: "Z ! (r mod 10) ! (2 * i) = ?j" "Z ! (r mod 10) ! (2 * i + 1) = ?k" using Z_nth assms(3,4) by simp_all
  have c: "CS ! ?j = blake_u ?j" "CS ! ?k = blake_u ?k" "M ! ?j = m ?j" "M ! ?k = m ?k"
    using blake_perm_16 assms(2) by (simp_all add: constants_spec(1))
  obtain a b c' d where g: "GS (M ! ?j) (M ! ?k) (CS ! ?j) (CS ! ?k) (v pa, v pb, v pc, v pd) = (a, b, c', d)"
    by (metis prod_cases4)
  have "blake_G (16, 12, 8, 7) m r i v = v(pa := a, pb := b, pc := c', pd := d)"
    using g unfolding c by (auto simp: GS_def blake_G_def p Let_def sph_rot)
  then show ?thesis
    unfolding z q using same_state_on4 [where g = "GS (M ! ?j) (M ! ?k) (CS ! ?j) (CS ! ?k)", OF assms(1) ok g] by simp
qed

lemma round_spec:
  assumes "same_state V v" "\<forall>i < 16. M ! i = m i" "r < 16"
  shows "same_state (ROUND_B M (r mod 10) V) (blake_round (32, 25, 16, 11) m r v)"
  using same_state_foldl [OF assms(1) step_B_spec [OF _ assms(2,3)], of "[0..<8]"]
  by (simp add: ROUND_B_steps steps4_def foldl_map blake_round_def)

lemma round_S_spec:
  assumes "same_state V v" "\<forall>i < 16. M ! i = m i" "r < 16"
  shows "same_state (ROUND_S M (r mod 10) V) (blake_round (16, 12, 8, 7) m r v)"
  using same_state_foldl [OF assms(1) step_S_spec [OF _ assms(2,3)], of "[0..<8]"]
  by (simp add: ROUND_S_steps steps4_def foldl_map blake_round_def)

lemma words_of_block:
  "length b = 128 \<Longrightarrow> \<forall>i < 16. blake64_M b ! i = block_word b i"
  "length c = 64 \<Longrightarrow> \<forall>i < 16. blake32_M c ! i = block_word c i"
proof -
  have "load64 (take 8 s) = load64 s" "load32 (take 4 s) = load32 s" for s
    by (simp_all add: load64_def load32_def)
  then show "length b = 128 \<Longrightarrow> \<forall>i < 16. blake64_M b ! i = block_word b i"
    "length c = 64 \<Longrightarrow> \<forall>i < 16. blake32_M c ! i = block_word c i"
    by (simp_all add: blake64_M_def blake32_M_def block_word_be sph_codec_defs)
qed

lemma initial_states:
  "same_state (blake64_V H S T0 T1) (blake_init H S T0 T1)" "same_state (blake32_V G R t0 t1) (blake_init G R t0 t1)"
proof -
  have "blake64_V H S T0 T1 = map (blake_init H S T0 T1) [0..<16]" "blake32_V G R t0 t1 = map (blake_init G R t0 t1) [0..<16]"
    by (simp_all add: blake64_V_def blake32_V_def blake_init_def constants_spec upt_lits)
  then show "same_state (blake64_V H S T0 T1) (blake_init H S T0 T1)" "same_state (blake32_V G R t0 t1) (blake_init G R t0 t1)"
    by (simp_all add: same_state_def)
qed

lemma COMPRESS64_spec:
  assumes "length b = 128"
  shows "COMPRESS64 H S T0 T1 b = blake_compress blake_big H S T0 T1 b"
proof -
  have "same_state (foldl (\<lambda>V r. ROUND_B (blake64_M b) (r mod 10) V) (blake64_V H S T0 T1) [0..<16])
      (foldl (\<lambda>v r. blake_round (32, 25, 16, 11) (block_word b) r v) (blake_init H S T0 T1) [0..<16])"
    using initial_states(1) by (rule same_state_foldl) (simp add: round_spec words_of_block(1) [OF assms])
  moreover have "[0, 1, 2, 3, 4, 5, 6, 7, 8, 9, 0, 1, 2, 3, 4, 5] = map (\<lambda>r. r mod 10) [0..<16]"
    by (simp add: upt_lits)
  ultimately show ?thesis
    by (simp add: COMPRESS64_def blake_compress_def blake_big_def blake64_out_def Let_def foldl_map same_state_def)
qed

lemma COMPRESS32_spec:
  assumes "length b = 64"
  shows "COMPRESS32 H S T0 T1 b = blake_compress blake_small H S T0 T1 b"
proof -
  have "same_state (foldl (\<lambda>V r. ROUND_S (blake32_M b) (r mod 10) V) (blake32_V H S T0 T1) [0..<14])
      (foldl (\<lambda>v r. blake_round (16, 12, 8, 7) (block_word b) r v) (blake_init H S T0 T1) [0..<14])"
    using initial_states(2) by (rule same_state_foldl) (simp add: round_S_spec words_of_block(2) [OF assms])
  moreover have "[0, 1, 2, 3, 4, 5, 6, 7, 8, 9, 0, 1, 2, 3] = map (\<lambda>r. r mod 10) [0..<14]"
    by (simp add: upt_lits)
  ultimately show ?thesis
    by (simp add: COMPRESS32_def blake_compress_def blake_small_def blake32_out_def Let_def foldl_map same_state_def)
qed

text \<open>
  A step between the code and the specification: padding and counters of the specification,
  with the compression functions and encodings of the code.
\<close>

definition blake32_hash :: "u32 list \<Rightarrow> nat \<Rightarrow> bytes \<Rightarrow> byte \<Rightarrow> nat \<Rightarrow> bytes" where
  "blake32_hash iv out m ub n =
     (let L = 8 * length m + n;
          P = bits_bytes (msg_bits m ub n @ pad_bits 512 ((out = 8) # nat_bits 64 L) L);
          H = blake_chain COMPRESS32 salt_zero_small 512 L iv (full_blocks 64 P)
      in concat (map (\<lambda>k. sph_enc32be (H ! k)) [0..<out]))"

definition blake64_hash :: "u64 list \<Rightarrow> nat \<Rightarrow> bytes \<Rightarrow> byte \<Rightarrow> nat \<Rightarrow> bytes" where
  "blake64_hash iv out m ub n =
     (let L = 8 * length m + n;
          P = bits_bytes (msg_bits m ub n @ pad_bits 1024 ((out = 8) # nat_bits 128 L) L);
          H = blake_chain COMPRESS64 salt_zero_big 1024 L iv (full_blocks 128 P)
      in concat (map (\<lambda>k. sph_enc64be (H ! k)) [0..<out]))"

lemma blake_chain_cong:
  assumes "\<And>H T0 T1 b. b \<in> set bs \<Longrightarrow> f H S T0 T1 b = g H S T0 T1 b"
  shows "blake_chain f S bb L H bs = blake_chain g S bb L H bs"
  unfolding blake_chain_def
  by (rule foldl_cong) (auto simp: in_set_enumerate_eq assms)

lemma blake_hash_digest:
  "blake64_hash iv out m ub n = blake_digest blake_big iv out m ub n"
  "blake32_hash iv' out m ub n = blake_digest blake_small iv' out m ub n"
proof -
  have out: "concat (map (\<lambda>k. sph_enc64be (H ! k)) ks) = bits_bytes (concat (map (\<lambda>k. nat_bits 64 (unat (H ! k))) ks))"
    "concat (map (\<lambda>k. sph_enc32be (H' ! k)) ks) = bits_bytes (concat (map (\<lambda>k. nat_bits 32 (unat (H' ! k))) ks))"
    for H H' and ks :: "nat list"
  proof -
    have "concat (map (\<lambda>k. nat_bits 64 (unat (H ! k))) ks) = bytes_bits (concat (map (\<lambda>k. sph_enc64be (H ! k)) ks))"
      "concat (map (\<lambda>k. nat_bits 32 (unat (H' ! k))) ks) = bytes_bits (concat (map (\<lambda>k. sph_enc32be (H' ! k)) ks))"
      by (induction ks) simp_all
    then show "concat (map (\<lambda>k. sph_enc64be (H ! k)) ks) = bits_bytes (concat (map (\<lambda>k. nat_bits 64 (unat (H ! k))) ks))"
      "concat (map (\<lambda>k. sph_enc32be (H' ! k)) ks) = bits_bytes (concat (map (\<lambda>k. nat_bits 32 (unat (H' ! k))) ks))"
      by simp_all
  qed
  have c: "blake_chain COMPRESS64 S bb L H (full_blocks 128 P) = blake_chain (blake_compress blake_big) S bb L H (full_blocks 128 P)"
    "blake_chain COMPRESS32 S' bb L H' (full_blocks 64 P) = blake_chain (blake_compress blake_small) S' bb L H' (full_blocks 64 P)"
    for S S' bb L H H' P
    by (rule blake_chain_cong, simp add: COMPRESS64_spec COMPRESS32_spec full_blocks_length)+
  show "blake64_hash iv out m ub n = blake_digest blake_big iv out m ub n"
    "blake32_hash iv' out m ub n = blake_digest blake_small iv' out m ub n"
    by (simp_all add: blake64_hash_def blake32_hash_def blake_digest_def Let_def out c salt_zero_small_def salt_zero_big_def)
qed

lemma BLAKE_hash:
  "BLAKE_512 = blake64_hash IV512 8" "BLAKE_384 = blake64_hash IV384 6"
  "BLAKE_256 = blake32_hash IV256 8" "BLAKE_224 = blake32_hash IV224 7"
  by (simp_all only: fun_eq_iff blake_hash_digest BLAKE_512_def BLAKE_384_def BLAKE_256_def BLAKE_224_def IVs_spec simp_thms)

section \<open>The counter\<close>

text \<open>
  What the two word sizes share: a loop body that advances a two-word counter by the block
  length and compresses.  \<open>adjust\<close> is what the close functions do to the counter first.
\<close>

definition adjust :: "nat \<Rightarrow> nat \<Rightarrow> 'w::len word \<times> 'w word \<Rightarrow> 'w word \<times> 'w word" where
  "adjust bb bl T = (case T of (T0, T1) \<Rightarrow>
     if bl = 0 then (- of_nat bb, - 1)
     else if T0 = 0 then (- of_nat bb + of_nat bl, T1 - 1)
     else (T0 - (of_nat bb - of_nat bl), T1))"

locale blake_mode =
  fixes bb :: nat
    and cmp :: "'w::len word list \<Rightarrow> 'w word list \<Rightarrow> 'w word \<Rightarrow> 'w word \<Rightarrow> bytes \<Rightarrow> 'w word list"
    and blk :: "'w word list \<times> 'w word list \<times> 'w word \<times> 'w word \<Rightarrow> bytes \<Rightarrow>
      'w word list \<times> 'w word list \<times> 'w word \<times> 'w word"
  assumes bb_pos: "0 < bb" and bb_less: "bb < 2 ^ LENGTH('w)" and bb_dvd: "bb dvd 2 ^ LENGTH('w)"
    and blk: "blk (H, S, T0, T1) b =
      (let t0 = T0 + of_nat bb; t1 = (if t0 < of_nat bb then T1 + 1 else T1) in (cmp H S t0 t1 b, S, t0, t1))"
begin

lemma less_bb: "(of_nat k :: 'w word) < of_nat bb \<longleftrightarrow> k mod 2 ^ LENGTH('w) < bb"
  using bb_less by (simp add: word_less_nat_alt unat_of_nat)

lemma mult_bb_mod:
  assumes "j < bb"
  shows "(bb * i + j) mod 2 ^ LENGTH('w) < bb \<longleftrightarrow> bb * i mod 2 ^ LENGTH('w) = 0"
    and "(bb * i + j) div 2 ^ LENGTH('w) = bb * i div 2 ^ LENGTH('w)"
    and "(bb * i + j) mod 2 ^ LENGTH('w) = bb * i mod 2 ^ LENGTH('w) + j"
proof -
  obtain q where q: "2 ^ LENGTH('w) = bb * q" using bb_dvd by blast
  have q0: "0 < q" using q by (cases q) simp_all
  have r: "bb * i mod 2 ^ LENGTH('w) = bb * (i mod q)"
    unfolding q by (simp only: mult_mod_right)
  have "bb * (i mod q) + j < bb * q"
  proof -
    have "bb * Suc (i mod q) \<le> bb * q"
      using q0 by (intro mult_le_mono2) (simp add: Suc_leI)
    then show ?thesis using assms by simp
  qed
  then have lt: "bb * i mod 2 ^ LENGTH('w) + j < 2 ^ LENGTH('w)"
    using r q by simp
  show m: "(bb * i + j) mod 2 ^ LENGTH('w) = bb * i mod 2 ^ LENGTH('w) + j"
    using lt by (metis mod_add_left_eq mod_less)
  show "(bb * i + j) div 2 ^ LENGTH('w) = bb * i div 2 ^ LENGTH('w)"
    using lt by (subst div_add1_eq) simp
  show "(bb * i + j) mod 2 ^ LENGTH('w) < bb \<longleftrightarrow> bb * i mod 2 ^ LENGTH('w) = 0"
    unfolding m r using assms bb_pos by (cases "i mod q") auto
qed

lemma Suc_div:
  "bb * Suc i div 2 ^ LENGTH('w) =
   (if bb * Suc i mod 2 ^ LENGTH('w) < bb then Suc (bb * i div 2 ^ LENGTH('w)) else bb * i div 2 ^ LENGTH('w))"
proof -
  have "bb * Suc i = Suc (bb * i + (bb - 1))"
    using bb_pos by simp
  then have "bb * Suc i div 2 ^ LENGTH('w) =
      (if bb * Suc i mod 2 ^ LENGTH('w) = 0 then Suc ((bb * i + (bb - 1)) div 2 ^ LENGTH('w))
       else (bb * i + (bb - 1)) div 2 ^ LENGTH('w))"
    by (metis div_Suc)
  then show ?thesis
    using mult_bb_mod(1) [of 0 "Suc i"] mult_bb_mod(2) [of "bb - 1" i] bb_pos by simp
qed

lemma blk_step:
  "blk (H, S, of_nat (bb * i), ctr_hi (bb * i)) b =
   (cmp H S (of_nat (bb * Suc i)) (ctr_hi (bb * Suc i)) b, S, of_nat (bb * Suc i), ctr_hi (bb * Suc i))"
proof -
  have t0: "of_nat (bb * i) + of_nat bb = (of_nat (bb * Suc i) :: 'w word)"
    by (simp add: algebra_simps)
  have "(if (of_nat (bb * Suc i) :: 'w word) < of_nat bb then ctr_hi (bb * i) + 1 else ctr_hi (bb * i))
      = (ctr_hi (bb * Suc i) :: 'w word)"
    unfolding less_bb ctr_hi_def Suc_div by simp
  then show ?thesis
    by (simp only: blk t0 Let_def)
qed

lemma foldl_blk:
  "foldl blk (H, S, of_nat (bb * i), ctr_hi (bb * i)) bs =
   (foldl (\<lambda>H (j, b). cmp H S (of_nat (bb * Suc j)) (ctr_hi (bb * Suc j)) b) H (enumerate i bs),
    S, of_nat (bb * (i + length bs)), ctr_hi (bb * (i + length bs)))"
  by (induction bs arbitrary: H i) (simp_all add: blk_step del: mult_Suc_right of_nat_mult)

lemma foldl_blk_0:
  "foldl blk (H, S, 0, 0) bs =
   (foldl (\<lambda>H (j, b). cmp H S (of_nat (bb * Suc j)) (ctr_hi (bb * Suc j)) b) H (enumerate 0 bs),
    S, of_nat (bb * length bs), ctr_hi (bb * length bs))"
  using foldl_blk [of H S 0 bs] by (simp add: ctr_hi_def)

lemma blk_adjust:
  assumes "bl < bb" "adjust bb bl (of_nat (bb * i), ctr_hi (bb * i)) = (T0, T1)"
    and c: "c = (if bl = 0 then 0 else bb * i + bl)"
  shows "blk (H, S, T0, T1) b = (cmp H S (of_nat c) (ctr_hi c) b, S, of_nat c, ctr_hi c)"
proof -
  let ?T = "of_nat (bb * i) :: 'w word"
  have zero: "?T = 0 \<longleftrightarrow> bb * i mod 2 ^ LENGTH('w) = 0"
    by (simp only: of_nat_eq_0_iff word_of_nat_eq_0_iff dvd_eq_mod_eq_0)
  have hi: "ctr_hi (bb * i + bl) = (ctr_hi (bb * i) :: 'w word)"
    using mult_bb_mod(2) [OF assms(1)] by (simp add: ctr_hi_def)
  have lt: "(of_nat (bb * i + bl) :: 'w word) < of_nat bb \<longleftrightarrow> ?T = 0"
    unfolding less_bb zero by (rule mult_bb_mod(1) [OF assms(1)])
  have bl: "(of_nat bl :: 'w word) < of_nat bb"
    unfolding less_bb using assms(1) bb_less by simp
  have b0: "(0 :: 'w word) < of_nat bb"
    using bl by (metis word_not_simps(1) word_neq_0_conv)
  consider "bl = 0" | "bl \<noteq> 0" "?T = 0" | "bl \<noteq> 0" "?T \<noteq> 0" by blast
  then show ?thesis
  proof cases
    case 1
    then show ?thesis
      using assms b0 by (auto simp: adjust_def blk Let_def c ctr_hi_def)
  next
    case 2
    then show ?thesis
      using assms bl hi by (auto simp: adjust_def blk Let_def c)
  next
    case 3
    then show ?thesis
      using assms lt hi by (auto simp: adjust_def blk Let_def c algebra_simps)
  qed
qed

lemma blk_padding: "blk (H, S, - of_nat bb, - 1) b = (cmp H S 0 0 b, S, 0, 0)"
  using blk_adjust [of 0 0 "- of_nat bb" "- 1" 0 H S b] bb_pos
  by (simp add: adjust_def ctr_hi_def)

text \<open>The chain with the counters of the specification, for one or two final blocks.\<close>

lemma chain_full:
  assumes "bb * length bs \<le> L"
  shows "blake_chain cmp S bb L H bs = fst (foldl blk (H, S, 0, 0) bs)"
proof -
  have ctr: "blake_ctr bb L j = bb * Suc j" if "j < length bs" for j
  proof -
    have "bb * Suc j \<le> bb * length bs" using that by (intro mult_le_mono2) simp
    then have "bb * Suc j \<le> L" using assms by (rule le_trans)
    then show ?thesis using bb_pos by (simp add: blake_ctr_def)
  qed
  have "foldl (\<lambda>H (i, b). cmp H S (of_nat (blake_ctr bb L i)) (ctr_hi (blake_ctr bb L i)) b) H (enumerate 0 bs) =
    foldl (\<lambda>H (j, b). cmp H S (of_nat (bb * Suc j)) (ctr_hi (bb * Suc j)) b) H (enumerate 0 bs)"
    by (rule foldl_cong) (auto simp: in_set_enumerate_eq ctr simp del: mult_Suc_right of_nat_mult)
  then show ?thesis
    by (simp only: blake_chain_def foldl_blk_0 fst_conv)
qed

lemma chain_one:
  assumes "bl < bb" "foldl blk (H, S, 0, 0) bs = (Hk, S, T0, T1)" "adjust bb bl (T0, T1) = (t0, t1)"
  shows "blake_chain cmp S bb (bb * length bs + bl) H (bs @ [b]) = fst (blk (Hk, S, t0, t1) b)"
proof -
  let ?L = "bb * length bs + bl"
  have T: "T0 = of_nat (bb * length bs)" "T1 = ctr_hi (bb * length bs)"
    using assms(2) foldl_blk_0 [of H S bs] by (simp_all del: of_nat_mult)
  have "blake_ctr bb ?L (length bs) = (if bl = 0 then 0 else ?L)"
    using assms(1) by (simp add: blake_ctr_def)
  then have "fst (blk (Hk, S, t0, t1) b) =
      cmp Hk S (of_nat (blake_ctr bb ?L (length bs))) (ctr_hi (blake_ctr bb ?L (length bs))) b"
    using blk_adjust [OF assms(1), of "length bs" t0 t1] assms(3) T by simp
  moreover have "Hk = blake_chain cmp S bb ?L H bs"
    using chain_full [of bs ?L S H] assms(2) by simp
  ultimately show ?thesis
    by (simp add: blake_chain_def enumerate_append_eq)
qed

lemma chain_two:
  assumes "bl < bb" "foldl blk (H, S, 0, 0) bs = (Hk, S, T0, T1)" "adjust bb bl (T0, T1) = (t0, t1)"
    and "blk (Hk, S, t0, t1) b = (H', S, t0', t1')"
  shows "blake_chain cmp S bb (bb * length bs + bl) H (bs @ [b, c])
    = fst (blk (H', S, - of_nat bb, - 1) c)"
proof -
  let ?L = "bb * length bs + bl"
  have "blake_ctr bb ?L (Suc (length bs)) = 0"
    using assms(1) by (simp add: blake_ctr_def)
  moreover have "H' = blake_chain cmp S bb ?L H (bs @ [b])"
    using chain_one [OF assms(1-3), of b] assms(4) by simp
  ultimately show ?thesis
    by (simp add: blake_chain_def enumerate_append_eq blk_padding ctr_hi_def)
qed

lemma length_words:
  assumes "bl < bb"
  shows "of_nat (bb * k) + of_nat bl = (of_nat (bb * k + bl) :: 'w word)"
    and "(ctr_hi (bb * k) :: 'w word) = ctr_hi (bb * k + bl)"
  using mult_bb_mod(2) [OF assms, of k] by (simp_all add: ctr_hi_def)

end

interpretation b32: blake_mode 512 COMPRESS32 blake32_block
  by unfold_locales (simp_all add: blake32_block_def Let_def)

interpretation b64: blake_mode 1024 COMPRESS64 blake64_block
  by unfold_locales (simp_all add: blake64_block_def Let_def)

section \<open>Streaming and closing\<close>

definition blake32_view ::
  "sph_blake_small_context \<Rightarrow> (u32 list \<times> u32 list \<times> u32 \<times> u32) \<times> bytes \<times> nat" where
  "blake32_view sc = ((bs_H sc, bs_S sc, bs_T0 sc, bs_T1 sc), bs_buf sc, bs_ptr sc)"

interpretation s32: sph_stream 64 blake32_block blake32_view blake32
proof unfold_locales
  fix c d :: sph_blake_small_context and data
  show "0 < (64::nat)" by simp
  show "blake32_view c = blake32_view d \<Longrightarrow> c = d"
    by (simp add: blake32_view_def)
  assume "buf_wf 64 (blake32_view c)"
  then show "blake32_view (blake32 c data) = absorb 64 blake32_block (blake32_view c) data"
    by (simp add: blake32_def blake32_view_def buf_update_absorb split: prod.split)
qed

lemma blake32_fill:
  assumes "blake32_view sc = (st, buf, p)" "length buf = 64" "p + length d = 64" "d \<noteq> []"
  shows "blake32_view (blake32 sc d) = (blake32_block st (take p buf @ d), take p buf @ d, 0)"
proof -
  have "p < 64" using assms(3,4) by (cases d) auto
  then show ?thesis
    using assms s32.view_update [of sc d] by (simp add: buf_wf_def absorb_fill memcpy_to_end)
qed

lemma blake32_set_T:
  "blake32_view (sc\<lparr>bs_T0 := t0, bs_T1 := t1\<rparr>) =
     ((bs_H sc, bs_S sc, t0, t1), bs_buf sc, bs_ptr sc)"
  by (simp add: blake32_view_def)

lemma blake32_adjust:
  fixes sc :: sph_blake_small_context
  assumes "bl = 8 * p + n" "adjust 512 bl (bs_T0 sc, bs_T1 sc) = (t0, t1)"
  shows "(if p = 0 \<and> n = 0 then sc\<lparr>bs_T0 := 0xfffffe00, bs_T1 := 0xffffffff\<rparr>
      else if bs_T0 sc = 0 then
        sc\<lparr>bs_T0 := 0xfffffe00 + of_nat bl, bs_T1 := SPH_T32 (bs_T1 sc - 1)\<rparr>
      else sc\<lparr>bs_T0 := bs_T0 sc - (512 - of_nat bl)\<rparr>) = sc\<lparr>bs_T0 := t0, bs_T1 := t1\<rparr>"
  using assms by (cases sc) (auto simp: adjust_def split: if_splits)

lemma blake32_length_field:
  assumes "bl < 512" "L = 512 * k + bl"
  shows "bytes_bits (sph_enc32be_aligned (ctr_hi (512 * k)) @ sph_enc32be_aligned (of_nat (512 * k) + of_nat bl))
    = nat_bits 64 L"
proof -
  have "sph_enc32be_aligned = sph_enc32be"
    by (simp add: fun_eq_iff sph_codec_defs)
  moreover have "nat_bits 64 L = nat_bits 32 (L div 2 ^ 32) @ nat_bits 32 L"
    using nat_bits_append [of 32 32 L] by simp
  ultimately show ?thesis
    using b32.length_words [OF assms(1), of k] assms(2)
    by (simp add: ctr_hi_def bits_enc_of_nat del: bits_enc32be of_nat_add of_nat_mult)
qed

definition blake32_digest :: "nat \<Rightarrow> u32 list \<Rightarrow> bytes" where
  "blake32_digest out H = concat (map (\<lambda>k. sph_enc32be (H ! k)) [0..<out])"

abbreviation blake32_len :: "nat \<Rightarrow> u32 \<Rightarrow> u32 \<Rightarrow> bytes" where
  "blake32_len bl T0 T1 \<equiv> sph_enc32be_aligned T1 @ sph_enc32be_aligned (T0 + of_nat bl)"

lemma blake32_close_one:
  assumes view: "blake32_view sc = ((Hk, S, T0, T1), buf, p)" and len: "length buf = 64"
    and bl: "bl = 8 * p + n" "bl \<le> 446" and adj: "adjust 512 bl (T0, T1) = (t0, t1)"
    and b: "b = take p buf @ pad_body (end_byte ub n) (55 - p) (out = 8) @ blake32_len bl T0 T1"
  obtains sc' where "blake32_close sc ub n out = (sc', blake32_digest out (bs_H sc'))"
    "blake32_view sc' = (blake32_block (Hk, S, t0, t1) b, b, 0)"
proof -
  let ?sc = "sc\<lparr>bs_T0 := t0, bs_T1 := t1\<rparr>"
  define pad where "pad = pad_body (end_byte ub n) (55 - p) (out = 8) @ blake32_len bl T0 T1"
  have T: "bs_T0 sc = T0" "bs_T1 sc = T1" "bs_ptr sc = p"
    using view by (simp_all add: blake32_view_def)
  have pa: "p < 56" using bl by simp
  have lp: "p + length pad = 64" using pa by (simp add: pad_def)
  then have ne: "pad \<noteq> []" using pa by auto
  have "blake32_view ?sc = ((Hk, S, t0, t1), buf, p)"
    using view by (simp add: blake32_view_def)
  from blake32_fill [OF this len lp ne]
  have v: "blake32_view (blake32 ?sc pad) = (blake32_block (Hk, S, t0, t1) b, b, 0)"
    by (simp add: b pad_def)
  let ?u = "memset ((replicate 64 0)[p := end_byte ub n]) (p + 1) 0 (55 - p)"
  have u: "drop p (memcpy (memcpy (if out = 8 then ?u[55 := ?u ! 55 OR 1] else ?u)
      56 (sph_enc32be_aligned T1)) 60 (sph_enc32be_aligned (T0 + of_nat bl))) = pad"
    using final_array [of p 56 "sph_enc32be_aligned T1" "sph_enc32be_aligned (T0 + of_nat bl)"
        64 "end_byte ub n" "out = 8"] pa
    by (cases "out = 8") (simp_all add: pad_def Let_def)
  have adj': "adjust 512 bl (bs_T0 sc, bs_T1 sc) = (t0, t1)"
    by (simp only: T adj)
  note s1 = blake32_adjust [OF bl(1) adj', unfolded T]
  have "blake32_close sc ub n out = (blake32 ?sc pad, blake32_digest out (bs_H (blake32 ?sc pad)))"
    by (simp only: blake32_close_def blake32_digest_def Let_def T bl(1) [symmetric] s1 u if_P [OF bl(2)])
  then show ?thesis using v that by blast
qed

lemma blake32_close_two:
  assumes view: "blake32_view sc = ((Hk, S, T0, T1), buf, p)" and len: "length buf = 64" and p: "p < 64"
    and bl: "bl = 8 * p + n" "\<not> bl \<le> 446" and adj: "adjust 512 bl (T0, T1) = (t0, t1)"
    and b1: "b1 = take p buf @ end_byte ub n # replicate (63 - p) 0"
    and b2: "b2 = replicate 55 0 @ [if out = 8 then 1 else 0] @ blake32_len bl T0 T1"
    and blk: "blake32_block (Hk, S, t0, t1) b1 = (H', S, t0', t1')"
  obtains sc' where "blake32_close sc ub n out = (sc', blake32_digest out (bs_H sc'))"
    "blake32_view sc' = (blake32_block (H', S, - 512, - 1) b2, b2, 0)"
proof -
  let ?sc = "sc\<lparr>bs_T0 := t0, bs_T1 := t1\<rparr>"
  define pad where "pad = end_byte ub n # replicate (63 - p) 0"
  let ?s1 = "(blake32 ?sc pad)\<lparr>bs_T0 := 0xfffffe00, bs_T1 := 0xffffffff\<rparr>"
  have T: "bs_T0 sc = T0" "bs_T1 sc = T1" "bs_ptr sc = p"
    using view by (simp_all add: blake32_view_def)
  have "blake32_view ?sc = ((Hk, S, t0, t1), buf, p)"
    using view by (simp add: blake32_view_def)
  then have "blake32_view (blake32 ?sc pad) = ((H', S, t0', t1'), b1, 0)"
    using blake32_fill [of ?sc _ buf p pad] len p blk by (simp add: b1 pad_def)
  then have v1: "blake32_view ?s1 = ((H', S, - 512, - 1), b1, 0)"
    by (simp add: blake32_view_def)
  have v2: "blake32_view (blake32 ?s1 b2) = (blake32_block (H', S, - 512, - 1) b2, b2, 0)"
    using blake32_fill [OF v1, of b2] p len by (simp add: b1 b2)
  let ?u = "memset ((replicate 64 0)[p := end_byte ub n]) (p + 1) 0 (63 - p)"
  have u1: "drop p ?u = pad"
    using end_array [OF p, of "63 - p" "end_byte ub n"] by (simp add: pad_def)
  have u2: "memcpy (memcpy (if out = 8 then (memset ?u 0 0 56)[55 := 1] else memset ?u 0 0 56)
      56 (sph_enc32be_aligned T1)) 60 (sph_enc32be_aligned (T0 + of_nat bl)) = b2"
    using zero_array [of 56 "sph_enc32be_aligned T1" "sph_enc32be_aligned (T0 + of_nat bl)" 64 ?u "out = 8"] p
    by (cases "out = 8") (simp_all add: b2)
  have adj': "adjust 512 bl (bs_T0 sc, bs_T1 sc) = (t0, t1)"
    by (simp only: T adj)
  note s1 = blake32_adjust [OF bl(1) adj', unfolded T]
  have "blake32_close sc ub n out = (blake32 ?s1 b2, blake32_digest out (bs_H (blake32 ?s1 b2)))"
    by (simp only: blake32_close_def blake32_digest_def Let_def T bl(1) [symmetric] s1 u1 u2 if_not_P [OF bl(2)])
  then show ?thesis using v2 that by blast
qed

lemma blake32_close_digest:
  assumes view: "blake32_view sc = (foldl blake32_block (iv, salt_zero_small, 0, 0) (full_blocks 64 m), buf, length m mod 64)"
    and len: "length buf = 64" and tl: "take (length m mod 64) buf = tail_bytes 64 m" and n: "n < 8"
  shows "\<exists>sc'. blake32_close sc ub n out = (sc', blake32_hash iv out m (ucast ub) n)
     \<and> length (bs_buf sc') = 64"
proof -
  define p bl k L where "p = length m mod 64" and "bl = 8 * p + n" and "k = length m div 64"
    and "L = 8 * length m + n"
  have p: "p < 64" and bl: "bl < 512"
    using n by (simp_all add: p_def bl_def)
  have L: "L = 512 * k + bl"
    using div_mult_mod_eq [of "length m" 64] unfolding L_def bl_def p_def k_def by linarith
  obtain Hk where st: "foldl blake32_block (iv, salt_zero_small, 0, 0) (full_blocks 64 m)
      = (Hk, salt_zero_small, of_nat (512 * k), ctr_hi (512 * k))"
    using b32.foldl_blk_0 [of iv salt_zero_small "full_blocks 64 m"] by (simp add: k_def)
  obtain t0 t1 where adj: "adjust 512 bl (of_nat (512 * k), ctr_hi (512 * k)) = (t0 :: u32, t1)"
    by (metis surj_pair)
  define lf where "lf = blake32_len bl (of_nat (512 * k)) (ctr_hi (512 * k))"
  have lf: "bytes_bits lf = nat_bits 64 L" "56 + length lf = 64"
    using blake32_length_field [OF bl L] by (simp_all add: lf_def)
  define P where "P = bits_bytes (msg_bits m (ucast ub) n @ pad_bits (8 * 64) ((out = 8) # bytes_bits lf) (8 * length m + n))"
  define H where "H = blake_chain COMPRESS32 salt_zero_small 512 L iv (full_blocks 64 P)"
  have spec: "blake32_hash iv out m (ucast ub) n = blake32_digest out H"
    by (simp add: blake32_hash_def blake32_digest_def H_def P_def lf L_def Let_def)
  note v = view [unfolded st p_def [symmetric]]
  have "\<exists>sc'. blake32_close sc ub n out = (sc', blake32_digest out (bs_H sc')) \<and> bs_H sc' = H
      \<and> length (bs_buf sc') = 64"
  proof (cases "bl \<le> 446")
    case True
    let ?b = "take p buf @ pad_body (end_byte ub n) (55 - p) (out = 8) @ lf"
    have "full_blocks 64 P = full_blocks 64 m @ [?b]"
      using flag_blocks_one [OF n lf(2), of m ub "out = 8"] True n by (simp add: P_def bl_def p_def tl)
    then have "H = fst (blake32_block (Hk, salt_zero_small, t0, t1) ?b)"
      using b32.chain_one [OF bl st adj, of ?b] by (simp add: H_def L k_def)
    moreover have "length ?b = 64" using lf(2) True len p by (simp add: bl_def)
    moreover obtain sc' where "blake32_close sc ub n out = (sc', blake32_digest out (bs_H sc'))"
      "blake32_view sc' = (blake32_block (Hk, salt_zero_small, t0, t1) ?b, ?b, 0)"
      by (rule blake32_close_one [OF v len bl_def True adj, where b = ?b]) (simp_all only: lf_def)
    ultimately show ?thesis
      by (intro exI [of _ sc']) (simp add: blake32_view_def prod_eq_iff)
  next
    case False
    let ?b1 = "take p buf @ end_byte ub n # replicate (63 - p) 0"
    let ?b2 = "replicate 55 0 @ [if out = 8 then 1 else 0] @ lf"
    have fb: "full_blocks 64 P = full_blocks 64 m @ [?b1, ?b2]"
      using flag_blocks_two [OF n lf(2), of m ub "out = 8"] False n by (simp add: P_def bl_def p_def tl)
    obtain H' t0' t1' where b1: "blake32_block (Hk, salt_zero_small, t0, t1) ?b1 = (H', salt_zero_small, t0', t1')"
      using b32.blk_adjust [OF bl adj refl] by blast
    have "H = fst (blake32_block (H', salt_zero_small, - 512, - 1) ?b2)"
      using b32.chain_two [OF bl st adj b1, of ?b2] by (simp add: H_def L k_def fb)
    moreover have "length ?b2 = 64" using lf(2) by simp
    moreover obtain sc' where "blake32_close sc ub n out = (sc', blake32_digest out (bs_H sc'))"
      "blake32_view sc' = (blake32_block (H', salt_zero_small, - 512, - 1) ?b2, ?b2, 0)"
      by (rule blake32_close_two [OF v len p bl_def False adj refl _ b1, where ?b2.0 = ?b2]) (simp_all only: lf_def)
    ultimately show ?thesis
      by (intro exI [of _ sc']) (simp add: blake32_view_def prod_eq_iff)
  qed
  then show ?thesis by (auto simp: spec)
qed

definition blake64_view ::
  "sph_blake_big_context \<Rightarrow> (u64 list \<times> u64 list \<times> u64 \<times> u64) \<times> bytes \<times> nat" where
  "blake64_view sc = ((bb_H sc, bb_S sc, bb_T0 sc, bb_T1 sc), bb_buf sc, bb_ptr sc)"

interpretation s64: sph_stream 128 blake64_block blake64_view blake64
proof unfold_locales
  fix c d :: sph_blake_big_context and data
  show "0 < (128::nat)" by simp
  show "blake64_view c = blake64_view d \<Longrightarrow> c = d"
    by (simp add: blake64_view_def)
  assume "buf_wf 128 (blake64_view c)"
  then show "blake64_view (blake64 c data) = absorb 128 blake64_block (blake64_view c) data"
    by (simp add: blake64_def blake64_view_def buf_update_absorb split: prod.split)
qed

lemma blake64_fill:
  assumes "blake64_view sc = (st, buf, p)" "length buf = 128" "p + length d = 128" "d \<noteq> []"
  shows "blake64_view (blake64 sc d) = (blake64_block st (take p buf @ d), take p buf @ d, 0)"
proof -
  have "p < 128" using assms(3,4) by (cases d) auto
  then show ?thesis
    using assms s64.view_update [of sc d] by (simp add: buf_wf_def absorb_fill memcpy_to_end)
qed

lemma blake64_set_T:
  "blake64_view (sc\<lparr>bb_T0 := t0, bb_T1 := t1\<rparr>) =
     ((bb_H sc, bb_S sc, t0, t1), bb_buf sc, bb_ptr sc)"
  by (simp add: blake64_view_def)

lemma blake64_adjust:
  fixes sc :: sph_blake_big_context
  assumes "bl = 8 * p + n" "adjust 1024 bl (bb_T0 sc, bb_T1 sc) = (t0, t1)"
  shows "(if p = 0 \<and> n = 0 then sc\<lparr>bb_T0 := 0xfffffffffffffc00, bb_T1 := 0xffffffffffffffff\<rparr>
      else if bb_T0 sc = 0 then
        sc\<lparr>bb_T0 := 0xfffffffffffffc00 + of_nat bl, bb_T1 := SPH_T64 (bb_T1 sc - 1)\<rparr>
      else sc\<lparr>bb_T0 := bb_T0 sc - (1024 - of_nat bl)\<rparr>) = sc\<lparr>bb_T0 := t0, bb_T1 := t1\<rparr>"
  using assms by (cases sc) (auto simp: adjust_def split: if_splits)

lemma blake64_length_field:
  assumes "bl < 1024" "L = 1024 * k + bl"
  shows "bytes_bits (sph_enc64be_aligned (ctr_hi (1024 * k)) @ sph_enc64be_aligned (of_nat (1024 * k) + of_nat bl))
    = nat_bits 128 L"
proof -
  have "sph_enc64be_aligned = sph_enc64be"
    by (simp add: fun_eq_iff sph_codec_defs)
  moreover have "nat_bits 128 L = nat_bits 64 (L div 2 ^ 64) @ nat_bits 64 L"
    using nat_bits_append [of 64 64 L] by simp
  ultimately show ?thesis
    using b64.length_words [OF assms(1), of k] assms(2)
    by (simp add: ctr_hi_def bits_enc_of_nat del: bits_enc64be of_nat_add of_nat_mult)
qed

definition blake64_digest :: "nat \<Rightarrow> u64 list \<Rightarrow> bytes" where
  "blake64_digest out H = concat (map (\<lambda>k. sph_enc64be (H ! k)) [0..<out])"

abbreviation blake64_len :: "nat \<Rightarrow> u64 \<Rightarrow> u64 \<Rightarrow> bytes" where
  "blake64_len bl T0 T1 \<equiv> sph_enc64be_aligned T1 @ sph_enc64be_aligned (T0 + of_nat bl)"

lemma blake64_close_one:
  assumes view: "blake64_view sc = ((Hk, S, T0, T1), buf, p)" and len: "length buf = 128"
    and bl: "bl = 8 * p + n" "bl \<le> 894" and adj: "adjust 1024 bl (T0, T1) = (t0, t1)"
    and b: "b = take p buf @ pad_body (end_byte ub n) (111 - p) (out = 8) @ blake64_len bl T0 T1"
  obtains sc' where "blake64_close sc ub n out = (sc', blake64_digest out (bb_H sc'))"
    "blake64_view sc' = (blake64_block (Hk, S, t0, t1) b, b, 0)"
proof -
  let ?sc = "sc\<lparr>bb_T0 := t0, bb_T1 := t1\<rparr>"
  define pad where "pad = pad_body (end_byte ub n) (111 - p) (out = 8) @ blake64_len bl T0 T1"
  have T: "bb_T0 sc = T0" "bb_T1 sc = T1" "bb_ptr sc = p"
    using view by (simp_all add: blake64_view_def)
  have pa: "p < 112" using bl by simp
  have lp: "p + length pad = 128" using pa by (simp add: pad_def)
  then have ne: "pad \<noteq> []" using pa by auto
  have "blake64_view ?sc = ((Hk, S, t0, t1), buf, p)"
    using view by (simp add: blake64_view_def)
  from blake64_fill [OF this len lp ne]
  have v: "blake64_view (blake64 ?sc pad) = (blake64_block (Hk, S, t0, t1) b, b, 0)"
    by (simp add: b pad_def)
  let ?u = "memset ((replicate 128 0)[p := end_byte ub n]) (p + 1) 0 (111 - p)"
  have u: "drop p (memcpy (memcpy (if out = 8 then ?u[111 := ?u ! 111 OR 1] else ?u)
      112 (sph_enc64be_aligned T1)) 120 (sph_enc64be_aligned (T0 + of_nat bl))) = pad"
    using final_array [of p 112 "sph_enc64be_aligned T1" "sph_enc64be_aligned (T0 + of_nat bl)"
        128 "end_byte ub n" "out = 8"] pa
    by (cases "out = 8") (simp_all add: pad_def Let_def)
  have adj': "adjust 1024 bl (bb_T0 sc, bb_T1 sc) = (t0, t1)"
    by (simp only: T adj)
  note s1 = blake64_adjust [OF bl(1) adj', unfolded T]
  have "blake64_close sc ub n out = (blake64 ?sc pad, blake64_digest out (bb_H (blake64 ?sc pad)))"
    by (simp only: blake64_close_def blake64_digest_def Let_def T bl(1) [symmetric] s1 u if_P [OF bl(2)])
  then show ?thesis using v that by blast
qed

lemma blake64_close_two:
  assumes view: "blake64_view sc = ((Hk, S, T0, T1), buf, p)" and len: "length buf = 128" and p: "p < 128"
    and bl: "bl = 8 * p + n" "\<not> bl \<le> 894" and adj: "adjust 1024 bl (T0, T1) = (t0, t1)"
    and b1: "b1 = take p buf @ end_byte ub n # replicate (127 - p) 0"
    and b2: "b2 = replicate 111 0 @ [if out = 8 then 1 else 0] @ blake64_len bl T0 T1"
    and blk: "blake64_block (Hk, S, t0, t1) b1 = (H', S, t0', t1')"
  obtains sc' where "blake64_close sc ub n out = (sc', blake64_digest out (bb_H sc'))"
    "blake64_view sc' = (blake64_block (H', S, - 1024, - 1) b2, b2, 0)"
proof -
  let ?sc = "sc\<lparr>bb_T0 := t0, bb_T1 := t1\<rparr>"
  define pad where "pad = end_byte ub n # replicate (127 - p) 0"
  let ?s1 = "(blake64 ?sc pad)\<lparr>bb_T0 := 0xfffffffffffffc00, bb_T1 := 0xffffffffffffffff\<rparr>"
  have T: "bb_T0 sc = T0" "bb_T1 sc = T1" "bb_ptr sc = p"
    using view by (simp_all add: blake64_view_def)
  have "blake64_view ?sc = ((Hk, S, t0, t1), buf, p)"
    using view by (simp add: blake64_view_def)
  then have "blake64_view (blake64 ?sc pad) = ((H', S, t0', t1'), b1, 0)"
    using blake64_fill [of ?sc _ buf p pad] len p blk by (simp add: b1 pad_def)
  then have v1: "blake64_view ?s1 = ((H', S, - 1024, - 1), b1, 0)"
    by (simp add: blake64_view_def)
  have v2: "blake64_view (blake64 ?s1 b2) = (blake64_block (H', S, - 1024, - 1) b2, b2, 0)"
    using blake64_fill [OF v1, of b2] p len by (simp add: b1 b2)
  let ?u = "memset ((replicate 128 0)[p := end_byte ub n]) (p + 1) 0 (127 - p)"
  have u1: "drop p ?u = pad"
    using end_array [OF p, of "127 - p" "end_byte ub n"] by (simp add: pad_def)
  have u2: "memcpy (memcpy (if out = 8 then (memset ?u 0 0 112)[111 := 1] else memset ?u 0 0 112)
      112 (sph_enc64be_aligned T1)) 120 (sph_enc64be_aligned (T0 + of_nat bl)) = b2"
    using zero_array [of 112 "sph_enc64be_aligned T1" "sph_enc64be_aligned (T0 + of_nat bl)" 128 ?u "out = 8"] p
    by (cases "out = 8") (simp_all add: b2)
  have adj': "adjust 1024 bl (bb_T0 sc, bb_T1 sc) = (t0, t1)"
    by (simp only: T adj)
  note s1 = blake64_adjust [OF bl(1) adj', unfolded T]
  have "blake64_close sc ub n out = (blake64 ?s1 b2, blake64_digest out (bb_H (blake64 ?s1 b2)))"
    by (simp only: blake64_close_def blake64_digest_def Let_def T bl(1) [symmetric] s1 u1 u2 if_not_P [OF bl(2)])
  then show ?thesis using v2 that by blast
qed

lemma blake64_close_digest:
  assumes view: "blake64_view sc = (foldl blake64_block (iv, salt_zero_big, 0, 0) (full_blocks 128 m), buf, length m mod 128)"
    and len: "length buf = 128" and tl: "take (length m mod 128) buf = tail_bytes 128 m" and n: "n < 8"
  shows "\<exists>sc'. blake64_close sc ub n out = (sc', blake64_hash iv out m (ucast ub) n)
     \<and> length (bb_buf sc') = 128"
proof -
  define p bl k L where "p = length m mod 128" and "bl = 8 * p + n" and "k = length m div 128"
    and "L = 8 * length m + n"
  have p: "p < 128" and bl: "bl < 1024"
    using n by (simp_all add: p_def bl_def)
  have L: "L = 1024 * k + bl"
    using div_mult_mod_eq [of "length m" 128] unfolding L_def bl_def p_def k_def by linarith
  obtain Hk where st: "foldl blake64_block (iv, salt_zero_big, 0, 0) (full_blocks 128 m)
      = (Hk, salt_zero_big, of_nat (1024 * k), ctr_hi (1024 * k))"
    using b64.foldl_blk_0 [of iv salt_zero_big "full_blocks 128 m"] by (simp add: k_def)
  obtain t0 t1 where adj: "adjust 1024 bl (of_nat (1024 * k), ctr_hi (1024 * k)) = (t0 :: u64, t1)"
    by (metis surj_pair)
  define lf where "lf = blake64_len bl (of_nat (1024 * k)) (ctr_hi (1024 * k))"
  have lf: "bytes_bits lf = nat_bits 128 L" "112 + length lf = 128"
    using blake64_length_field [OF bl L] by (simp_all add: lf_def)
  define P where "P = bits_bytes (msg_bits m (ucast ub) n @ pad_bits (8 * 128) ((out = 8) # bytes_bits lf) (8 * length m + n))"
  define H where "H = blake_chain COMPRESS64 salt_zero_big 1024 L iv (full_blocks 128 P)"
  have spec: "blake64_hash iv out m (ucast ub) n = blake64_digest out H"
    by (simp add: blake64_hash_def blake64_digest_def H_def P_def lf L_def Let_def)
  note v = view [unfolded st p_def [symmetric]]
  have "\<exists>sc'. blake64_close sc ub n out = (sc', blake64_digest out (bb_H sc')) \<and> bb_H sc' = H
      \<and> length (bb_buf sc') = 128"
  proof (cases "bl \<le> 894")
    case True
    let ?b = "take p buf @ pad_body (end_byte ub n) (111 - p) (out = 8) @ lf"
    have "full_blocks 128 P = full_blocks 128 m @ [?b]"
      using flag_blocks_one [OF n lf(2), of m ub "out = 8"] True n by (simp add: P_def bl_def p_def tl)
    then have "H = fst (blake64_block (Hk, salt_zero_big, t0, t1) ?b)"
      using b64.chain_one [OF bl st adj, of ?b] by (simp add: H_def L k_def)
    moreover have "length ?b = 128" using lf(2) True len p by (simp add: bl_def)
    moreover obtain sc' where "blake64_close sc ub n out = (sc', blake64_digest out (bb_H sc'))"
      "blake64_view sc' = (blake64_block (Hk, salt_zero_big, t0, t1) ?b, ?b, 0)"
      by (rule blake64_close_one [OF v len bl_def True adj, where b = ?b]) (simp_all only: lf_def)
    ultimately show ?thesis
      by (intro exI [of _ sc']) (simp add: blake64_view_def prod_eq_iff)
  next
    case False
    let ?b1 = "take p buf @ end_byte ub n # replicate (127 - p) 0"
    let ?b2 = "replicate 111 0 @ [if out = 8 then 1 else 0] @ lf"
    have fb: "full_blocks 128 P = full_blocks 128 m @ [?b1, ?b2]"
      using flag_blocks_two [OF n lf(2), of m ub "out = 8"] False n by (simp add: P_def bl_def p_def tl)
    obtain H' t0' t1' where b1: "blake64_block (Hk, salt_zero_big, t0, t1) ?b1 = (H', salt_zero_big, t0', t1')"
      using b64.blk_adjust [OF bl adj refl] by blast
    have "H = fst (blake64_block (H', salt_zero_big, - 1024, - 1) ?b2)"
      using b64.chain_two [OF bl st adj b1, of ?b2] by (simp add: H_def L k_def fb)
    moreover have "length ?b2 = 128" using lf(2) by simp
    moreover obtain sc' where "blake64_close sc ub n out = (sc', blake64_digest out (bb_H sc'))"
      "blake64_view sc' = (blake64_block (H', salt_zero_big, - 1024, - 1) ?b2, ?b2, 0)"
      by (rule blake64_close_two [OF v len p bl_def False adj refl _ b1, where ?b2.0 = ?b2]) (simp_all only: lf_def)
    ultimately show ?thesis
      by (intro exI [of _ sc']) (simp add: blake64_view_def prod_eq_iff)
  qed
  then show ?thesis by (auto simp: spec)
qed


lemma sph_blake224_finish:
  assumes "fresh_ctx 64 ((=) (IV224, salt_zero_small, 0, 0)) blake32_view c" "n < 8"
  shows "\<exists>c'. sph_blake224_addbits_and_close (sph_blake224 c m) ub n = (c', blake32_hash IV224 7 m (ucast ub) n)
     \<and> fresh_ctx 64 ((=) (IV224, salt_zero_small, 0, 0)) blake32_view c'"
proof -
  obtain buf where "blake32_view c = ((IV224, salt_zero_small, 0, 0), buf, 0)" "length buf = 64"
    using assms(1) by (auto simp: fresh_ctx_def)
  then obtain buf' where "length buf' = 64" "take (length m mod 64) buf' = tail_bytes 64 m"
    "blake32_view (blake32 c m) =
      (foldl blake32_block (IV224, salt_zero_small, 0, 0) (full_blocks 64 m), buf', length m mod 64)"
    by (rule s32.view_message)
  with blake32_close_digest assms(2) obtain sc' where
    "blake32_close (blake32 c m) ub n 7 = (sc', blake32_hash IV224 7 m (ucast ub) n)"
    "length (bs_buf sc') = 64"
    by blast
  then show ?thesis
    by (simp add: sph_blake224_addbits_and_close_def sph_blake224_def sph_blake224_init_def blake32_init_def
        fresh_ctx_def blake32_view_def)
qed

interpretation h224: sph_hash 64 blake32_block blake32_view sph_blake224 "(=) (IV224, salt_zero_small, 0, 0)"
  "\<lambda>c. length (bs_buf c) = 64" sph_blake224_init sph_blake224_addbits_and_close "blake32_hash IV224 7"
proof (intro sph_hash.intro sph_stream.intro sph_hash_axioms.intro)
  fix c d :: sph_blake_small_context and m data :: bytes and n :: nat and ub :: u32
  show "0 < (64::nat)" and "blake32_view c = blake32_view d \<Longrightarrow> c = d"
    using s32.view_inj by simp_all
  show "buf_wf 64 (blake32_view c) \<Longrightarrow>
      blake32_view (sph_blake224 c data) = absorb 64 blake32_block (blake32_view c) data"
    by (simp add: sph_blake224_def s32.view_update)
  show "length (bs_buf c) = 64 \<Longrightarrow> fresh_ctx 64 ((=) (IV224, salt_zero_small, 0, 0)) blake32_view (sph_blake224_init c)"
    by (simp add: fresh_ctx_def sph_blake224_init_def blake32_init_def blake32_view_def)
  assume "fresh_ctx 64 ((=) (IV224, salt_zero_small, 0, 0)) blake32_view c" "n < 8"
  from sph_blake224_finish [OF this, of m ub]
  show "snd (sph_blake224_addbits_and_close (sph_blake224 c m) ub n) = blake32_hash IV224 7 m (ucast ub) n"
    "fresh_ctx 64 ((=) (IV224, salt_zero_small, 0, 0)) blake32_view (fst (sph_blake224_addbits_and_close (sph_blake224 c m) ub n))"
    by auto
qed


lemma sph_blake256_finish:
  assumes "fresh_ctx 64 ((=) (IV256, salt_zero_small, 0, 0)) blake32_view c" "n < 8"
  shows "\<exists>c'. sph_blake256_addbits_and_close (sph_blake256 c m) ub n = (c', blake32_hash IV256 8 m (ucast ub) n)
     \<and> fresh_ctx 64 ((=) (IV256, salt_zero_small, 0, 0)) blake32_view c'"
proof -
  obtain buf where "blake32_view c = ((IV256, salt_zero_small, 0, 0), buf, 0)" "length buf = 64"
    using assms(1) by (auto simp: fresh_ctx_def)
  then obtain buf' where "length buf' = 64" "take (length m mod 64) buf' = tail_bytes 64 m"
    "blake32_view (blake32 c m) =
      (foldl blake32_block (IV256, salt_zero_small, 0, 0) (full_blocks 64 m), buf', length m mod 64)"
    by (rule s32.view_message)
  with blake32_close_digest assms(2) obtain sc' where
    "blake32_close (blake32 c m) ub n 8 = (sc', blake32_hash IV256 8 m (ucast ub) n)"
    "length (bs_buf sc') = 64"
    by blast
  then show ?thesis
    by (simp add: sph_blake256_addbits_and_close_def sph_blake256_def sph_blake256_init_def blake32_init_def
        fresh_ctx_def blake32_view_def)
qed

interpretation h256: sph_hash 64 blake32_block blake32_view sph_blake256 "(=) (IV256, salt_zero_small, 0, 0)"
  "\<lambda>c. length (bs_buf c) = 64" sph_blake256_init sph_blake256_addbits_and_close "blake32_hash IV256 8"
proof (intro sph_hash.intro sph_stream.intro sph_hash_axioms.intro)
  fix c d :: sph_blake_small_context and m data :: bytes and n :: nat and ub :: u32
  show "0 < (64::nat)" and "blake32_view c = blake32_view d \<Longrightarrow> c = d"
    using s32.view_inj by simp_all
  show "buf_wf 64 (blake32_view c) \<Longrightarrow>
      blake32_view (sph_blake256 c data) = absorb 64 blake32_block (blake32_view c) data"
    by (simp add: sph_blake256_def s32.view_update)
  show "length (bs_buf c) = 64 \<Longrightarrow> fresh_ctx 64 ((=) (IV256, salt_zero_small, 0, 0)) blake32_view (sph_blake256_init c)"
    by (simp add: fresh_ctx_def sph_blake256_init_def blake32_init_def blake32_view_def)
  assume "fresh_ctx 64 ((=) (IV256, salt_zero_small, 0, 0)) blake32_view c" "n < 8"
  from sph_blake256_finish [OF this, of m ub]
  show "snd (sph_blake256_addbits_and_close (sph_blake256 c m) ub n) = blake32_hash IV256 8 m (ucast ub) n"
    "fresh_ctx 64 ((=) (IV256, salt_zero_small, 0, 0)) blake32_view (fst (sph_blake256_addbits_and_close (sph_blake256 c m) ub n))"
    by auto
qed


lemma sph_blake384_finish:
  assumes "fresh_ctx 128 ((=) (IV384, salt_zero_big, 0, 0)) blake64_view c" "n < 8"
  shows "\<exists>c'. sph_blake384_addbits_and_close (sph_blake384 c m) ub n = (c', blake64_hash IV384 6 m (ucast ub) n)
     \<and> fresh_ctx 128 ((=) (IV384, salt_zero_big, 0, 0)) blake64_view c'"
proof -
  obtain buf where "blake64_view c = ((IV384, salt_zero_big, 0, 0), buf, 0)" "length buf = 128"
    using assms(1) by (auto simp: fresh_ctx_def)
  then obtain buf' where "length buf' = 128" "take (length m mod 128) buf' = tail_bytes 128 m"
    "blake64_view (blake64 c m) =
      (foldl blake64_block (IV384, salt_zero_big, 0, 0) (full_blocks 128 m), buf', length m mod 128)"
    by (rule s64.view_message)
  with blake64_close_digest assms(2) obtain sc' where
    "blake64_close (blake64 c m) ub n 6 = (sc', blake64_hash IV384 6 m (ucast ub) n)"
    "length (bb_buf sc') = 128"
    by blast
  then show ?thesis
    by (simp add: sph_blake384_addbits_and_close_def sph_blake384_def sph_blake384_init_def blake64_init_def
        fresh_ctx_def blake64_view_def)
qed

interpretation h384: sph_hash 128 blake64_block blake64_view sph_blake384 "(=) (IV384, salt_zero_big, 0, 0)"
  "\<lambda>c. length (bb_buf c) = 128" sph_blake384_init sph_blake384_addbits_and_close "blake64_hash IV384 6"
proof (intro sph_hash.intro sph_stream.intro sph_hash_axioms.intro)
  fix c d :: sph_blake_big_context and m data :: bytes and n :: nat and ub :: u32
  show "0 < (128::nat)" and "blake64_view c = blake64_view d \<Longrightarrow> c = d"
    using s64.view_inj by simp_all
  show "buf_wf 128 (blake64_view c) \<Longrightarrow>
      blake64_view (sph_blake384 c data) = absorb 128 blake64_block (blake64_view c) data"
    by (simp add: sph_blake384_def s64.view_update)
  show "length (bb_buf c) = 128 \<Longrightarrow> fresh_ctx 128 ((=) (IV384, salt_zero_big, 0, 0)) blake64_view (sph_blake384_init c)"
    by (simp add: fresh_ctx_def sph_blake384_init_def blake64_init_def blake64_view_def)
  assume "fresh_ctx 128 ((=) (IV384, salt_zero_big, 0, 0)) blake64_view c" "n < 8"
  from sph_blake384_finish [OF this, of m ub]
  show "snd (sph_blake384_addbits_and_close (sph_blake384 c m) ub n) = blake64_hash IV384 6 m (ucast ub) n"
    "fresh_ctx 128 ((=) (IV384, salt_zero_big, 0, 0)) blake64_view (fst (sph_blake384_addbits_and_close (sph_blake384 c m) ub n))"
    by auto
qed


lemma sph_blake512_finish:
  assumes "fresh_ctx 128 ((=) (IV512, salt_zero_big, 0, 0)) blake64_view c" "n < 8"
  shows "\<exists>c'. sph_blake512_addbits_and_close (sph_blake512 c m) ub n = (c', blake64_hash IV512 8 m (ucast ub) n)
     \<and> fresh_ctx 128 ((=) (IV512, salt_zero_big, 0, 0)) blake64_view c'"
proof -
  obtain buf where "blake64_view c = ((IV512, salt_zero_big, 0, 0), buf, 0)" "length buf = 128"
    using assms(1) by (auto simp: fresh_ctx_def)
  then obtain buf' where "length buf' = 128" "take (length m mod 128) buf' = tail_bytes 128 m"
    "blake64_view (blake64 c m) =
      (foldl blake64_block (IV512, salt_zero_big, 0, 0) (full_blocks 128 m), buf', length m mod 128)"
    by (rule s64.view_message)
  with blake64_close_digest assms(2) obtain sc' where
    "blake64_close (blake64 c m) ub n 8 = (sc', blake64_hash IV512 8 m (ucast ub) n)"
    "length (bb_buf sc') = 128"
    by blast
  then show ?thesis
    by (simp add: sph_blake512_addbits_and_close_def sph_blake512_def sph_blake512_init_def blake64_init_def
        fresh_ctx_def blake64_view_def)
qed

interpretation h512: sph_hash 128 blake64_block blake64_view sph_blake512 "(=) (IV512, salt_zero_big, 0, 0)"
  "\<lambda>c. length (bb_buf c) = 128" sph_blake512_init sph_blake512_addbits_and_close "blake64_hash IV512 8"
proof (intro sph_hash.intro sph_stream.intro sph_hash_axioms.intro)
  fix c d :: sph_blake_big_context and m data :: bytes and n :: nat and ub :: u32
  show "0 < (128::nat)" and "blake64_view c = blake64_view d \<Longrightarrow> c = d"
    using s64.view_inj by simp_all
  show "buf_wf 128 (blake64_view c) \<Longrightarrow>
      blake64_view (sph_blake512 c data) = absorb 128 blake64_block (blake64_view c) data"
    by (simp add: sph_blake512_def s64.view_update)
  show "length (bb_buf c) = 128 \<Longrightarrow> fresh_ctx 128 ((=) (IV512, salt_zero_big, 0, 0)) blake64_view (sph_blake512_init c)"
    by (simp add: fresh_ctx_def sph_blake512_init_def blake64_init_def blake64_view_def)
  assume "fresh_ctx 128 ((=) (IV512, salt_zero_big, 0, 0)) blake64_view c" "n < 8"
  from sph_blake512_finish [OF this, of m ub]
  show "snd (sph_blake512_addbits_and_close (sph_blake512 c m) ub n) = blake64_hash IV512 8 m (ucast ub) n"
    "fresh_ctx 128 ((=) (IV512, salt_zero_big, 0, 0)) blake64_view (fst (sph_blake512_addbits_and_close (sph_blake512 c m) ub n))"
    by auto
qed

section \<open>Properties\<close>

text \<open>
  C39: BLAKE-512 as the block hash uses it.  In one context, initialised once, any sequence of
  messages, each fed to \<open>sph_blake512\<close> in arbitrary pieces (empty ones included) and ended
  by \<open>sph_blake512_addbits_and_close\<close> with up to 7 extra bits, yields for every message the
  BLAKE-512 digest of its bits, as the theory \<open>BlakeSpec\<close> defines it without the code: 16 rounds
  of the function G on the matrix of words, the constants from pi, the initial values from
  square roots, the padding on bit strings, and the number of message bits as counter of every
  block, blocks without message bits included.
\<close>

theorem sph_blake512_correct:
  assumes "length (bb_buf c) = 128" "messages_ok msgs"
  shows "hash_session sph_blake512 sph_blake512_addbits_and_close (sph_blake512_init c) msgs
    = digests BLAKE_512 msgs"
  unfolding BLAKE_hash using assms by (rule h512.session_after_init)

theorem sph_blake512_correct_witness:
  "hash_session sph_blake512 sph_blake512_addbits_and_close
     (sph_blake512_init \<lparr>bb_buf = replicate 128 7, bb_ptr = 5, bb_H = [], bb_S = [], bb_T0 = 1, bb_T1 = 2\<rparr>)
     [([replicate 100 1, [], replicate 30 2], 0, 0), ([[3]], 0x80, 1)]
   = [BLAKE_512 (replicate 100 1 @ replicate 30 2) 0 0, BLAKE_512 [3] 0x80 1]"
  using sph_blake512_correct
    [of "\<lparr>bb_buf = replicate 128 7, bb_ptr = 5, bb_H = [], bb_S = [], bb_T0 = 1, bb_T1 = 2\<rparr>"
      "[([replicate 100 1, [], replicate 30 2], 0, 0), ([[3]], 0x80, 1)]"]
  by (simp add: messages_ok_def digests_def)

text \<open>
  The other digest lengths of the file: BLAKE-224, BLAKE-256 (32-bit words) and BLAKE-384
  give the digests of the specification for every session of messages.
\<close>

theorem sph_blake_small_sizes_correct:
  assumes "length (bs_buf c) = 64" "length (bb_buf d) = 128" "messages_ok msgs"
  shows "hash_session sph_blake224 sph_blake224_addbits_and_close (sph_blake224_init c) msgs
      = digests BLAKE_224 msgs
    \<and> hash_session sph_blake256 sph_blake256_addbits_and_close (sph_blake256_init c) msgs
      = digests BLAKE_256 msgs
    \<and> hash_session sph_blake384 sph_blake384_addbits_and_close (sph_blake384_init d) msgs
      = digests BLAKE_384 msgs"
  unfolding BLAKE_hash using assms by (simp add: h224.session_after_init h256.session_after_init h384.session_after_init)

theorem sph_blake_small_sizes_correct_witness:
  "hash_session sph_blake256 sph_blake256_addbits_and_close
     (sph_blake256_init \<lparr>bs_buf = replicate 64 7, bs_ptr = 5, bs_H = [], bs_S = [], bs_T0 = 1, bs_T1 = 2\<rparr>)
     [([[1, 2], [3]], 0, 0), ([], 0x80, 1)]
   = [BLAKE_256 [1, 2, 3] 0 0, BLAKE_256 [] 0x80 1]"
  using sph_blake_small_sizes_correct
    [of "\<lparr>bs_buf = replicate 64 7, bs_ptr = 5, bs_H = [], bs_S = [], bs_T0 = 1, bs_T1 = 2\<rparr>"
      "\<lparr>bb_buf = replicate 128 7, bb_ptr = 5, bb_H = [], bb_S = [], bb_T0 = 1, bb_T1 = 2\<rparr>"
      "[([[1, 2], [3]], 0, 0), ([], 0x80, 1)]"]
  by (simp add: messages_ok_def digests_def)

text \<open>
  the rounds lose no information: for every message block, the 14 rounds of \<open>COMPRESS32\<close>
  and the 16 rounds of \<open>COMPRESS64\<close> permute the 16-word states.
\<close>

theorem blake_rounds_permute:
  "bij_betw (\<lambda>V. foldl (\<lambda>V r. ROUND_S M r V) V rs) {V. length V = 16} {V. length V = 16}
   \<and> bij_betw (\<lambda>V. foldl (\<lambda>V r. ROUND_B N r V) V rs) {V. length V = 16} {V. length V = 16}"
  by (simp add: bij_betw_foldl ROUND_S_bij ROUND_B_bij)

text \<open>
  the two bodies the preprocessor can select agree: \<open>COMPRESS32\<close> and \<open>COMPRESS64\<close> with the
  table \<open>sigma\<close> (\<open>SPH_COMPACT_BLAKE_32\<close>, \<open>SPH_COMPACT_BLAKE_64\<close>) compute the same chaining value
  as the unrolled ones.
\<close>

theorem blake_compact_eq:
  "COMPRESS32_compact H S T0 T1 buf = COMPRESS32 H S T0 T1 buf
   \<and> COMPRESS64_compact G R t0 t1 buf = COMPRESS64 G R t0 t1 buf"
  by (simp add: COMPRESS32_compact_eq COMPRESS64_compact_eq)

end
