(* ===== verification/Keccak_F.thy ===== *)
theory Keccak_F
  imports Sph_Types
begin

unbundle bit_operations_syntax

text \<open>
  \<^verbatim>\<open>src/src/crypto/keccak.c\<close> in its 64-bit form (\<open>SPH_KECCAK_64\<close>).  The permutation is the
  optimised one of the file: it works in place, so that after \<open>r\<close> rounds lane \<open>b\<close> of the
  Keccak state lies where the table \<open>P r\<close> says; some lanes are kept complemented, so that
  most of the complements of chi disappear; and the rounds are unrolled by a factor the
  preprocessor chooses (8 in the default build), after which \<open>P8_TO_P0\<close> moves the lanes back.
  All factors are modelled.  The reference is Keccak-f[1600] as its authors define it, with
  the rotation offsets and round constants computed from their recurrences, and the sponge
  with multi-rate padding on bit strings.
\<close>

section \<open>Tables\<close>

definition RC :: "u64 list" where
  "RC =
     [0x0000000000000001, 0x0000000000008082, 0x800000000000808A, 0x8000000080008000,
      0x000000000000808B, 0x0000000080000001, 0x8000000080008081, 0x8000000000008009,
      0x000000000000008A, 0x0000000000000088, 0x0000000080008009, 0x000000008000000A,
      0x000000008000808B, 0x800000000000008B, 0x8000000000008089, 0x8000000000008003,
      0x8000000000008002, 0x8000000000000080, 0x000000000000800A, 0x800000008000000A,
      0x8000000080008081, 0x8000000000008080, 0x0000000080000001, 0x8000000080008008]"

text \<open>The lane \<open>axy\<close>, written here as the number \<open>xy\<close>, is \<open>wide[x + 5 * y]\<close>.\<close>

definition lane :: "nat \<Rightarrow> nat" where
  "lane xy = xy div 10 + 5 * (xy mod 10)"

text \<open>The macros \<open>P0\<close> to \<open>P23\<close>.\<close>

definition P :: "nat list list" where
  "P = map (map lane)
    [[0, 1, 2, 3, 4, 10, 11, 12, 13, 14, 20, 21, 22, 23, 24, 30, 31, 32, 33, 34, 40, 41,
       42, 43, 44],
     [0, 30, 10, 40, 20, 11, 41, 21, 1, 31, 22, 2, 32, 12, 42, 33, 13, 43, 23, 3, 44, 24,
       4, 34, 14],
     [0, 33, 11, 44, 22, 41, 24, 2, 30, 13, 32, 10, 43, 21, 4, 23, 1, 34, 12, 40, 14, 42,
       20, 3, 31],
     [0, 23, 41, 14, 32, 24, 42, 10, 33, 1, 43, 11, 34, 2, 20, 12, 30, 3, 21, 44, 31, 4,
       22, 40, 13],
     [0, 12, 24, 31, 43, 42, 4, 11, 23, 30, 34, 41, 3, 10, 22, 21, 33, 40, 2, 14, 13, 20,
       32, 44, 1],
     [0, 21, 42, 13, 34, 4, 20, 41, 12, 33, 3, 24, 40, 11, 32, 2, 23, 44, 10, 31, 1, 22,
       43, 14, 30],
     [0, 2, 4, 1, 3, 20, 22, 24, 21, 23, 40, 42, 44, 41, 43, 10, 12, 14, 11, 13, 30, 32,
       34, 31, 33],
     [0, 10, 20, 30, 40, 22, 32, 42, 2, 12, 44, 4, 14, 24, 34, 11, 21, 31, 41, 1, 33, 43,
       3, 13, 23],
     [0, 11, 22, 33, 44, 32, 43, 4, 10, 21, 14, 20, 31, 42, 3, 41, 2, 13, 24, 30, 23, 34,
       40, 1, 12],
     [0, 41, 32, 23, 14, 43, 34, 20, 11, 2, 31, 22, 13, 4, 40, 24, 10, 1, 42, 33, 12, 3,
       44, 30, 21],
     [0, 24, 43, 12, 31, 34, 3, 22, 41, 10, 13, 32, 1, 20, 44, 42, 11, 30, 4, 23, 21, 40,
       14, 33, 2],
     [0, 42, 34, 21, 13, 3, 40, 32, 24, 11, 1, 43, 30, 22, 14, 4, 41, 33, 20, 12, 2, 44,
       31, 23, 10],
     [0, 4, 3, 2, 1, 40, 44, 43, 42, 41, 30, 34, 33, 32, 31, 20, 24, 23, 22, 21, 10, 14,
       13, 12, 11],
     [0, 20, 40, 10, 30, 44, 14, 34, 4, 24, 33, 3, 23, 43, 13, 22, 42, 12, 32, 2, 11, 31,
       1, 21, 41],
     [0, 22, 44, 11, 33, 14, 31, 3, 20, 42, 23, 40, 12, 34, 1, 32, 4, 21, 43, 10, 41, 13,
       30, 2, 24],
     [0, 32, 14, 41, 23, 31, 13, 40, 22, 4, 12, 44, 21, 3, 30, 43, 20, 2, 34, 11, 24, 1,
       33, 10, 42],
     [0, 43, 31, 24, 12, 13, 1, 44, 32, 20, 21, 14, 2, 40, 33, 34, 22, 10, 3, 41, 42, 30,
       23, 11, 4],
     [0, 34, 13, 42, 21, 1, 30, 14, 43, 22, 2, 31, 10, 44, 23, 3, 32, 11, 40, 24, 4, 33,
       12, 41, 20],
     [0, 3, 1, 4, 2, 30, 33, 31, 34, 32, 10, 13, 11, 14, 12, 40, 43, 41, 44, 42, 20, 23,
       21, 24, 22],
     [0, 40, 30, 20, 10, 33, 23, 13, 3, 43, 11, 1, 41, 31, 21, 44, 34, 24, 14, 4, 22, 12,
       2, 42, 32],
     [0, 44, 33, 22, 11, 23, 12, 1, 40, 34, 41, 30, 24, 13, 2, 14, 3, 42, 31, 20, 32, 21,
       10, 4, 43],
     [0, 14, 23, 32, 41, 12, 21, 30, 44, 3, 24, 33, 42, 1, 10, 31, 40, 4, 13, 22, 43, 2,
       11, 20, 34],
     [0, 31, 12, 43, 24, 21, 2, 33, 14, 40, 42, 23, 4, 30, 11, 13, 44, 20, 1, 32, 34, 10,
       41, 22, 3],
     [0, 13, 21, 34, 42, 2, 10, 23, 31, 44, 4, 12, 20, 33, 41, 1, 14, 22, 30, 43, 3, 11,
       24, 32, 40]]"

text \<open>
  A macro that rewrites the 25 lanes it is given: \<open>f\<close> gets the values in the order of the
  macro's parameters \<open>b00\<close>, \<open>b01\<close>, \dots, \<open>b44\<close>, and its results are stored back.
\<close>

definition lanes :: "nat list \<Rightarrow> u64 list \<Rightarrow> u64 list" where
  "lanes ix a = map (\<lambda>i. a ! i) ix"

definition store_lanes :: "nat list \<Rightarrow> u64 list \<Rightarrow> u64 list \<Rightarrow> u64 list" where
  "store_lanes ix vs a = foldl (\<lambda>a (i, v). a[i := v]) a (zip ix vs)"

definition on_lanes :: "nat list \<Rightarrow> (u64 list \<Rightarrow> u64 list) \<Rightarrow> u64 list \<Rightarrow> u64 list" where
  "on_lanes ix f a = store_lanes ix (f (lanes ix a)) a"

section \<open>The round\<close>

definition TH_ELT ::
  "u64 \<Rightarrow> u64 \<Rightarrow> u64 \<Rightarrow> u64 \<Rightarrow> u64 \<Rightarrow> u64 \<Rightarrow> u64 \<Rightarrow> u64 \<Rightarrow> u64 \<Rightarrow> u64 \<Rightarrow> u64" where
  "TH_ELT c0 c1 c2 c3 c4 d0 d1 d2 d3 d4 =
     (let tt0 = d0 XOR d1; tt1 = d2 XOR d3; tt0 = tt0 XOR d4; tt0 = tt0 XOR tt1;
          tt0 = SPH_ROTL64 tt0 1; tt2 = c0 XOR c1; tt3 = c2 XOR c3; tt0 = tt0 XOR c4;
          tt2 = tt2 XOR tt3
      in tt0 XOR tt2)"

definition THETA :: "u64 list \<Rightarrow> u64 list" where
  "THETA b =
     (let
          t0 = TH_ELT (b ! 20) (b ! 21) (b ! 22) (b ! 23) (b ! 24) (b ! 5) (b ! 6) (b ! 7) (b ! 8) (b ! 9);
          t1 = TH_ELT (b ! 0) (b ! 1) (b ! 2) (b ! 3) (b ! 4) (b ! 10) (b ! 11) (b ! 12) (b ! 13) (b ! 14);
          t2 = TH_ELT (b ! 5) (b ! 6) (b ! 7) (b ! 8) (b ! 9) (b ! 15) (b ! 16) (b ! 17) (b ! 18) (b ! 19);
          t3 = TH_ELT (b ! 10) (b ! 11) (b ! 12) (b ! 13) (b ! 14) (b ! 20) (b ! 21) (b ! 22) (b ! 23) (b ! 24);
          t4 = TH_ELT (b ! 15) (b ! 16) (b ! 17) (b ! 18) (b ! 19) (b ! 0) (b ! 1) (b ! 2) (b ! 3) (b ! 4)
      in
        [b ! 0 XOR t0, b ! 1 XOR t0, b ! 2 XOR t0, b ! 3 XOR t0, b ! 4 XOR t0, b ! 5 XOR t1,
         b ! 6 XOR t1, b ! 7 XOR t1, b ! 8 XOR t1, b ! 9 XOR t1, b ! 10 XOR t2,
         b ! 11 XOR t2, b ! 12 XOR t2, b ! 13 XOR t2, b ! 14 XOR t2, b ! 15 XOR t3,
         b ! 16 XOR t3, b ! 17 XOR t3, b ! 18 XOR t3, b ! 19 XOR t3, b ! 20 XOR t4,
         b ! 21 XOR t4, b ! 22 XOR t4, b ! 23 XOR t4, b ! 24 XOR t4])"

definition RHO :: "u64 list \<Rightarrow> u64 list" where
  "RHO b =
     [b ! 0, SPH_ROTL64 (b ! 1) 36, SPH_ROTL64 (b ! 2) 3, SPH_ROTL64 (b ! 3) 41,
      SPH_ROTL64 (b ! 4) 18, SPH_ROTL64 (b ! 5) 1, SPH_ROTL64 (b ! 6) 44,
      SPH_ROTL64 (b ! 7) 10, SPH_ROTL64 (b ! 8) 45, SPH_ROTL64 (b ! 9) 2,
      SPH_ROTL64 (b ! 10) 62, SPH_ROTL64 (b ! 11) 6, SPH_ROTL64 (b ! 12) 43,
      SPH_ROTL64 (b ! 13) 15, SPH_ROTL64 (b ! 14) 61, SPH_ROTL64 (b ! 15) 28,
      SPH_ROTL64 (b ! 16) 55, SPH_ROTL64 (b ! 17) 25, SPH_ROTL64 (b ! 18) 21,
      SPH_ROTL64 (b ! 19) 56, SPH_ROTL64 (b ! 20) 27, SPH_ROTL64 (b ! 21) 20,
      SPH_ROTL64 (b ! 22) 39, SPH_ROTL64 (b ! 23) 8, SPH_ROTL64 (b ! 24) 14]"

definition KHI_XO :: "u64 \<Rightarrow> u64 \<Rightarrow> u64 \<Rightarrow> u64" where
  "KHI_XO a b c = a XOR (b OR c)"

definition KHI_XA :: "u64 \<Rightarrow> u64 \<Rightarrow> u64 \<Rightarrow> u64" where
  "KHI_XA a b c = a XOR (b AND c)"

definition KHI :: "u64 list \<Rightarrow> u64 list" where
  "KHI b =
     [KHI_XO (b ! 0) (b ! 5) (b ! 10), KHI_XO (b ! 1) (b ! 6) (b ! 11),
      KHI_XO (b ! 2) (b ! 7) (b ! 12), KHI_XA (b ! 3) (b ! 8) (b ! 13),
      KHI_XA (b ! 4) (NOT (b ! 9)) (b ! 14), KHI_XO (b ! 5) (NOT (b ! 10)) (b ! 15),
      KHI_XA (b ! 6) (b ! 11) (b ! 16), KHI_XA (b ! 7) (b ! 12) (b ! 17),
      KHI_XO (b ! 8) (b ! 13) (b ! 18), KHI_XO (NOT (b ! 9)) (b ! 14) (b ! 19),
      KHI_XA (b ! 10) (b ! 15) (b ! 20), KHI_XO (b ! 11) (b ! 16) (NOT (b ! 21)),
      KHI_XA (b ! 12) (NOT (b ! 17)) (b ! 22), KHI_XO (b ! 13) (NOT (b ! 18)) (b ! 23),
      KHI_XA (b ! 14) (b ! 19) (b ! 24), KHI_XO (b ! 15) (b ! 20) (b ! 0),
      KHI_XO (b ! 16) (b ! 21) (b ! 1), KHI_XO (NOT (b ! 17)) (b ! 22) (b ! 2),
      KHI_XA (NOT (b ! 18)) (b ! 23) (b ! 3), KHI_XO (b ! 19) (b ! 24) (b ! 4),
      KHI_XA (b ! 20) (b ! 0) (b ! 5), KHI_XA (b ! 21) (b ! 1) (b ! 6),
      KHI_XA (b ! 22) (b ! 2) (b ! 7), KHI_XO (b ! 23) (b ! 3) (b ! 8),
      KHI_XA (b ! 24) (b ! 4) (b ! 9)]"

definition IOTA :: "u64 \<Rightarrow> u64 list \<Rightarrow> u64 list" where
  "IOTA r a = a[0 := a ! 0 XOR r]"

definition KF_ELT :: "nat \<Rightarrow> nat \<Rightarrow> u64 \<Rightarrow> u64 list \<Rightarrow> u64 list" where
  "KF_ELT r s k a =
     (let a = on_lanes (P ! r) THETA a;
          a = on_lanes (P ! r) RHO a;
          a = on_lanes (P ! s) KHI a
      in IOTA k a)"

section \<open>Moving the lanes back\<close>

text \<open>
  A sequence of moves \<open>(destination, source)\<close> between lanes; the temporary \<open>t\<close> is written
  as 5 (\<open>a05\<close>), the lane behind the last one.
\<close>

definition move_lanes :: "(nat \<times> nat) list \<Rightarrow> 'a list \<Rightarrow> 'a list" where
  "move_lanes ms a = foldl (\<lambda>a (d, s). a[lane d := a ! lane s]) a ms"

definition with_temp :: "(nat \<times> nat) list \<Rightarrow> u64 list \<Rightarrow> u64 list" where
  "with_temp ms a = take 25 (move_lanes ms (a @ [0]))"

definition P1_TO_P0 :: "u64 list \<Rightarrow> u64 list" where
  "P1_TO_P0 = with_temp
     [(5, 1), (1, 30), (30, 33), (33, 23), (23, 12), (12, 21), (21, 2), (2, 10), (10, 11),
      (11, 41), (41, 24), (24, 42), (42, 4), (4, 20), (20, 22), (22, 32), (32, 43),
      (43, 34), (34, 3), (3, 40), (40, 44), (44, 14), (14, 31), (31, 13), (13, 5)]"

definition P2_TO_P0 :: "u64 list \<Rightarrow> u64 list" where
  "P2_TO_P0 = with_temp
     [(5, 1), (1, 33), (33, 12), (12, 2), (2, 11), (11, 24), (24, 4), (4, 22), (22, 43),
      (43, 3), (3, 44), (44, 31), (31, 5), (5, 10), (10, 41), (41, 42), (42, 20), (20, 32),
      (32, 34), (34, 40), (40, 14), (14, 13), (13, 30), (30, 23), (23, 21), (21, 5)]"

definition P4_TO_P0 :: "u64 list \<Rightarrow> u64 list" where
  "P4_TO_P0 = with_temp
     [(5, 1), (1, 12), (12, 11), (11, 4), (4, 43), (43, 44), (44, 5), (5, 2), (2, 24),
      (24, 22), (22, 3), (3, 31), (31, 33), (33, 5), (5, 10), (10, 42), (42, 32), (32, 40),
      (40, 13), (13, 23), (23, 5), (5, 14), (14, 30), (30, 21), (21, 41), (41, 20),
      (20, 34), (34, 5)]"

definition P6_TO_P0 :: "u64 list \<Rightarrow> u64 list" where
  "P6_TO_P0 = with_temp
     [(5, 1), (1, 2), (2, 4), (4, 3), (3, 5), (5, 10), (10, 20), (20, 40), (40, 30),
      (30, 5), (5, 11), (11, 22), (22, 44), (44, 33), (33, 5), (5, 12), (12, 24), (24, 43),
      (43, 31), (31, 5), (5, 13), (13, 21), (21, 42), (42, 34), (34, 5), (5, 14), (14, 23),
      (23, 41), (41, 32), (32, 5)]"

definition P8_TO_P0 :: "u64 list \<Rightarrow> u64 list" where
  "P8_TO_P0 = with_temp
     [(5, 1), (1, 11), (11, 43), (43, 5), (5, 2), (2, 22), (22, 31), (31, 5), (5, 3),
      (3, 33), (33, 24), (24, 5), (5, 4), (4, 44), (44, 12), (12, 5), (5, 10), (10, 32),
      (32, 13), (13, 5), (5, 14), (14, 21), (21, 20), (20, 5), (5, 23), (23, 42), (42, 40),
      (40, 5), (5, 30), (30, 41), (41, 34), (34, 5)]"

definition P12_TO_P0 :: "u64 list \<Rightarrow> u64 list" where
  "P12_TO_P0 = with_temp
     [(5, 1), (1, 4), (4, 5), (5, 2), (2, 3), (3, 5), (5, 10), (10, 40), (40, 5), (5, 11),
      (11, 44), (44, 5), (5, 12), (12, 43), (43, 5), (5, 13), (13, 42), (42, 5), (5, 14),
      (14, 41), (41, 5), (5, 20), (20, 30), (30, 5), (5, 21), (21, 34), (34, 5), (5, 22),
      (22, 33), (33, 5), (5, 23), (23, 32), (32, 5), (5, 24), (24, 31), (31, 5)]"

section \<open>The permutation, by unroll factor\<close>

definition KECCAK_F_1600_unroll1 :: "u64 list \<Rightarrow> u64 list" where
  "KECCAK_F_1600_unroll1 a =
     foldl (\<lambda>a j.
        let a = KF_ELT 0 1 (RC ! (j + 0)) a in
        P1_TO_P0 a) a [0..<24]"

definition KECCAK_F_1600_unroll2 :: "u64 list \<Rightarrow> u64 list" where
  "KECCAK_F_1600_unroll2 a =
     foldl (\<lambda>a j.
        let a = KF_ELT 0 1 (RC ! (j + 0)) a in
        let a = KF_ELT 1 2 (RC ! (j + 1)) a in
        P2_TO_P0 a) a [0, 2, 4, 6, 8, 10, 12, 14, 16, 18, 20, 22]"

definition KECCAK_F_1600_unroll4 :: "u64 list \<Rightarrow> u64 list" where
  "KECCAK_F_1600_unroll4 a =
     foldl (\<lambda>a j.
        let a = KF_ELT 0 1 (RC ! (j + 0)) a in
        let a = KF_ELT 1 2 (RC ! (j + 1)) a in
        let a = KF_ELT 2 3 (RC ! (j + 2)) a in
        let a = KF_ELT 3 4 (RC ! (j + 3)) a in
        P4_TO_P0 a) a [0, 4, 8, 12, 16, 20]"

definition KECCAK_F_1600_unroll6 :: "u64 list \<Rightarrow> u64 list" where
  "KECCAK_F_1600_unroll6 a =
     foldl (\<lambda>a j.
        let a = KF_ELT 0 1 (RC ! (j + 0)) a in
        let a = KF_ELT 1 2 (RC ! (j + 1)) a in
        let a = KF_ELT 2 3 (RC ! (j + 2)) a in
        let a = KF_ELT 3 4 (RC ! (j + 3)) a in
        let a = KF_ELT 4 5 (RC ! (j + 4)) a in
        let a = KF_ELT 5 6 (RC ! (j + 5)) a in
        P6_TO_P0 a) a [0, 6, 12, 18]"

definition KECCAK_F_1600 :: "u64 list \<Rightarrow> u64 list" where
  "KECCAK_F_1600 a =
     foldl (\<lambda>a j.
        let a = KF_ELT 0 1 (RC ! (j + 0)) a in
        let a = KF_ELT 1 2 (RC ! (j + 1)) a in
        let a = KF_ELT 2 3 (RC ! (j + 2)) a in
        let a = KF_ELT 3 4 (RC ! (j + 3)) a in
        let a = KF_ELT 4 5 (RC ! (j + 4)) a in
        let a = KF_ELT 5 6 (RC ! (j + 5)) a in
        let a = KF_ELT 6 7 (RC ! (j + 6)) a in
        let a = KF_ELT 7 8 (RC ! (j + 7)) a in
        P8_TO_P0 a) a [0, 8, 16]"

definition KECCAK_F_1600_unroll12 :: "u64 list \<Rightarrow> u64 list" where
  "KECCAK_F_1600_unroll12 a =
     foldl (\<lambda>a j.
        let a = KF_ELT 0 1 (RC ! (j + 0)) a in
        let a = KF_ELT 1 2 (RC ! (j + 1)) a in
        let a = KF_ELT 2 3 (RC ! (j + 2)) a in
        let a = KF_ELT 3 4 (RC ! (j + 3)) a in
        let a = KF_ELT 4 5 (RC ! (j + 4)) a in
        let a = KF_ELT 5 6 (RC ! (j + 5)) a in
        let a = KF_ELT 6 7 (RC ! (j + 6)) a in
        let a = KF_ELT 7 8 (RC ! (j + 7)) a in
        let a = KF_ELT 8 9 (RC ! (j + 8)) a in
        let a = KF_ELT 9 10 (RC ! (j + 9)) a in
        let a = KF_ELT 10 11 (RC ! (j + 10)) a in
        let a = KF_ELT 11 12 (RC ! (j + 11)) a in
        P12_TO_P0 a) a [0, 12]"

definition KECCAK_F_1600_unroll0 :: "u64 list \<Rightarrow> u64 list" where
  "KECCAK_F_1600_unroll0 a =
     (let a = KF_ELT 0 1 (RC ! 0) a in
      let a = KF_ELT 1 2 (RC ! 1) a in
      let a = KF_ELT 2 3 (RC ! 2) a in
      let a = KF_ELT 3 4 (RC ! 3) a in
      let a = KF_ELT 4 5 (RC ! 4) a in
      let a = KF_ELT 5 6 (RC ! 5) a in
      let a = KF_ELT 6 7 (RC ! 6) a in
      let a = KF_ELT 7 8 (RC ! 7) a in
      let a = KF_ELT 8 9 (RC ! 8) a in
      let a = KF_ELT 9 10 (RC ! 9) a in
      let a = KF_ELT 10 11 (RC ! 10) a in
      let a = KF_ELT 11 12 (RC ! 11) a in
      let a = KF_ELT 12 13 (RC ! 12) a in
      let a = KF_ELT 13 14 (RC ! 13) a in
      let a = KF_ELT 14 15 (RC ! 14) a in
      let a = KF_ELT 15 16 (RC ! 15) a in
      let a = KF_ELT 16 17 (RC ! 16) a in
      let a = KF_ELT 17 18 (RC ! 17) a in
      let a = KF_ELT 18 19 (RC ! 18) a in
      let a = KF_ELT 19 20 (RC ! 19) a in
      let a = KF_ELT 20 21 (RC ! 20) a in
      let a = KF_ELT 21 22 (RC ! 21) a in
      let a = KF_ELT 22 23 (RC ! 22) a in
      let a = KF_ELT 23 0 (RC ! 23) a in
      a)"

section \<open>Reference: Keccak-f[1600]\<close>

text \<open>Lane \<open>(x, y)\<close> of a state is element \<open>x + 5 * y\<close>.\<close>

definition theta :: "u64 list \<Rightarrow> u64 list" where
  "theta A =
     (let C = \<lambda>x. A ! x XOR A ! (x + 5) XOR A ! (x + 10) XOR A ! (x + 15) XOR A ! (x + 20);
          D = \<lambda>x. C ((x + 4) mod 5) XOR word_rotl 1 (C ((x + 1) mod 5))
      in map (\<lambda>i. A ! i XOR D (i mod 5)) [0..<25])"

text \<open>
  The offset of the lane visited in step \<open>t\<close> of the walk \<open>(x, y) \<mapsto> (y, 2x + 3y)\<close> that
  starts at \<open>(1, 0)\<close> is the triangular number \<open>(t + 1)(t + 2) / 2\<close>.
\<close>

definition rho_offsets :: "nat list" where
  "rho_offsets =
     snd (foldl (\<lambda>((x, y), r) t.
            ((y, (2 * x + 3 * y) mod 5), r[x + 5 * y := (t + 1) * (t + 2) div 2 mod 64]))
          ((1, 0), replicate 25 0) [0..<24])"

definition rho :: "u64 list \<Rightarrow> u64 list" where
  "rho A = map (\<lambda>i. word_rotl (rho_offsets ! i) (A ! i)) [0..<25]"

definition pi_source :: "nat \<Rightarrow> nat" where
  "pi_source i = (i mod 5 + 3 * (i div 5)) mod 5 + 5 * (i mod 5)"

definition pi_step :: "u64 list \<Rightarrow> u64 list" where
  "pi_step A = map (\<lambda>i. A ! pi_source i) [0..<25]"

definition chi :: "u64 list \<Rightarrow> u64 list" where
  "chi A = map (\<lambda>i. A ! i XOR
     (NOT (A ! ((i + 1) mod 5 + 5 * (i div 5))) AND A ! ((i + 2) mod 5 + 5 * (i div 5)))) [0..<25]"

definition keccak_round :: "u64 \<Rightarrow> u64 list \<Rightarrow> u64 list" where
  "keccak_round k A = (let B = chi (pi_step (rho (theta A))) in B[0 := B ! 0 XOR k])"

text \<open>
  The round constants: bit \<open>2 ^ j - 1\<close> of constant \<open>i\<close> is the output of step \<open>j + 7 * i\<close> of a
  linear feedback shift register with polynomial \<open>x^8 + x^6 + x^5 + x^4 + 1\<close>.
\<close>

definition lfsr :: "byte \<Rightarrow> byte" where
  "lfsr R = push_bit 1 R XOR (if bit R 7 then 0x71 else 0)"

fun round_constants :: "nat \<Rightarrow> byte \<Rightarrow> u64 list" where
  "round_constants 0 R = []"
| "round_constants (Suc k) R =
     (case foldl (\<lambda>(w, R) j. (if bit R 0 then w OR 2 ^ (2 ^ j - 1) else w, lfsr R)) (0, R) [0..<7] of
        (w, R') \<Rightarrow> w # round_constants k R')"

definition keccak_f :: "u64 list \<Rightarrow> u64 list" where
  "keccak_f A = foldl (\<lambda>A k. keccak_round k A) A (round_constants 24 1)"

section \<open>The tables\<close>

lemma round_constants_numeral:
  "round_constants (numeral k) R =
     (case foldl (\<lambda>(w, R) j. (if bit R 0 then w OR 2 ^ (2 ^ j - 1) else w, lfsr R)) (0, R) [0..<7] of
        (w, R') \<Rightarrow> w # round_constants (pred_numeral k) R')"
  by (simp add: numeral_eq_Suc)

lemma lfsr_numeral: "lfsr (numeral n) = push_bit 1 (numeral n) XOR (if bit (numeral n :: byte) 7 then 0x71 else 0)" "lfsr 1 = 2"
  by (simp_all add: lfsr_def)

lemma RC_constants: "RC = round_constants 24 1"
  by (simp add: round_constants_numeral lfsr_numeral upt_lits RC_def)

text \<open>The tables as indices into \<open>wide\<close>.\<close>

lemma P_wide: "P =
    [[0, 5, 10, 15, 20, 1, 6, 11, 16, 21, 2, 7, 12, 17, 22, 3, 8, 13, 18, 23, 4, 9, 14, 19,
      24],
     [0, 3, 1, 4, 2, 6, 9, 7, 5, 8, 12, 10, 13, 11, 14, 18, 16, 19, 17, 15, 24, 22, 20, 23,
      21],
     [0, 18, 6, 24, 12, 9, 22, 10, 3, 16, 13, 1, 19, 7, 20, 17, 5, 23, 11, 4, 21, 14, 2, 15,
      8],
     [0, 17, 9, 21, 13, 22, 14, 1, 18, 5, 19, 6, 23, 10, 2, 11, 3, 15, 7, 24, 8, 20, 12, 4,
      16],
     [0, 11, 22, 8, 19, 14, 20, 6, 17, 3, 23, 9, 15, 1, 12, 7, 18, 4, 10, 21, 16, 2, 13, 24,
      5],
     [0, 7, 14, 16, 23, 20, 2, 9, 11, 18, 15, 22, 4, 6, 13, 10, 17, 24, 1, 8, 5, 12, 19, 21,
      3],
     [0, 10, 20, 5, 15, 2, 12, 22, 7, 17, 4, 14, 24, 9, 19, 1, 11, 21, 6, 16, 3, 13, 23, 8,
      18],
     [0, 1, 2, 3, 4, 12, 13, 14, 10, 11, 24, 20, 21, 22, 23, 6, 7, 8, 9, 5, 18, 19, 15, 16,
      17],
     [0, 6, 12, 18, 24, 13, 19, 20, 1, 7, 21, 2, 8, 14, 15, 9, 10, 16, 22, 3, 17, 23, 4, 5,
      11],
     [0, 9, 13, 17, 21, 19, 23, 2, 6, 10, 8, 12, 16, 20, 4, 22, 1, 5, 14, 18, 11, 15, 24, 3,
      7],
     [0, 22, 19, 11, 8, 23, 15, 12, 9, 1, 16, 13, 5, 2, 24, 14, 6, 3, 20, 17, 7, 4, 21, 18,
      10],
     [0, 14, 23, 7, 16, 15, 4, 13, 22, 6, 5, 19, 3, 12, 21, 20, 9, 18, 2, 11, 10, 24, 8, 17,
      1],
     [0, 20, 15, 10, 5, 4, 24, 19, 14, 9, 3, 23, 18, 13, 8, 2, 22, 17, 12, 7, 1, 21, 16, 11,
      6],
     [0, 2, 4, 1, 3, 24, 21, 23, 20, 22, 18, 15, 17, 19, 16, 12, 14, 11, 13, 10, 6, 8, 5, 7,
      9],
     [0, 12, 24, 6, 18, 21, 8, 15, 2, 14, 17, 4, 11, 23, 5, 13, 20, 7, 19, 1, 9, 16, 3, 10,
      22],
     [0, 13, 21, 9, 17, 8, 16, 4, 12, 20, 11, 24, 7, 15, 3, 19, 2, 10, 23, 6, 22, 5, 18, 1,
      14],
     [0, 19, 8, 22, 11, 16, 5, 24, 13, 2, 7, 21, 10, 4, 18, 23, 12, 1, 15, 9, 14, 3, 17, 6,
      20],
     [0, 23, 16, 14, 7, 5, 3, 21, 19, 12, 10, 8, 1, 24, 17, 15, 13, 6, 4, 22, 20, 18, 11, 9,
      2],
     [0, 15, 5, 20, 10, 3, 18, 8, 23, 13, 1, 16, 6, 21, 11, 4, 19, 9, 24, 14, 2, 17, 7, 22,
      12],
     [0, 4, 3, 2, 1, 18, 17, 16, 15, 19, 6, 5, 9, 8, 7, 24, 23, 22, 21, 20, 12, 11, 10, 14,
      13],
     [0, 24, 18, 12, 6, 17, 11, 5, 4, 23, 9, 3, 22, 16, 10, 21, 15, 14, 8, 2, 13, 7, 1, 20,
      19],
     [0, 21, 17, 13, 9, 11, 7, 3, 24, 15, 22, 18, 14, 5, 1, 8, 4, 20, 16, 12, 19, 10, 6, 2,
      23],
     [0, 8, 11, 19, 22, 7, 10, 18, 21, 4, 14, 17, 20, 3, 6, 16, 24, 2, 5, 13, 23, 1, 9, 12,
      15],
     [0, 16, 7, 23, 14, 10, 1, 17, 8, 24, 20, 11, 2, 18, 9, 5, 21, 12, 3, 19, 15, 6, 22, 13,
      4]]"
  by (simp add: P_def lane_def)

lemma length_P [simp]: "length P = 24"
  by (simp add: P_wide)

lemma P_tables:
  "list_all (\<lambda>ix. length ix = 25 \<and> distinct ix \<and> list_all (\<lambda>i. i < 25) ix \<and> ix ! 0 = 0) P"
  by (simp add: P_wide)

text \<open>
  Position of lane \<open>i = x + 5 * y\<close> of the specification among the parameters \<open>b00\<close>, \<open>b01\<close>,
  \dots\ of a macro.
\<close>

definition spec_pos :: "nat \<Rightarrow> nat" where
  "spec_pos i = 5 * (i mod 5) + i div 5"

definition spec_order :: "u64 list \<Rightarrow> u64 list" where
  "spec_order b = map (\<lambda>i. b ! spec_pos i) [0..<25]"

lemma length_spec_order [simp]: "length (spec_order b) = 25"
  by (simp add: spec_order_def)

text \<open>Each table is the previous one with the lanes permuted by pi, and \<open>P0\<close> follows \<open>P23\<close>.\<close>

definition pi_params :: "nat list" where
  "pi_params =
     [0, 15, 5, 20, 10, 6, 21, 11, 1, 16, 12, 2, 17, 7, 22, 18, 8, 23, 13, 3, 24, 14, 4, 19,
      9]"

lemma P_next: "rotate1 P = map (\<lambda>ix. map (\<lambda>j. ix ! j) pi_params) P"
  by (simp add: P_wide pi_params_def)

lemma P_Suc: "r < 24 \<Longrightarrow> P ! (Suc r mod 24) = map (\<lambda>j. P ! r ! j) pi_params"
  using P_next by (metis length_P length_map nth_map nth_rotate1)

lemma spec_order_pi: "spec_order (map (\<lambda>j. b ! j) pi_params) = pi_step (spec_order b)"
  by (simp add: spec_order_def pi_step_def pi_params_def spec_pos_def pi_source_def upt_lits
      numeral_2_eq_2 [symmetric])

lemma P_0:
  assumes "length a = 25"
  shows "spec_order (lanes (P ! 0) a) = a"
proof -
  have "spec_order (lanes (P ! 0) a) = map (\<lambda>i. a ! i) [0..<25]"
    by (simp add: spec_order_def lanes_def P_wide spec_pos_def upt_lits)
  then show ?thesis using map_nth [of a] assms by simp
qed

section \<open>One round\<close>

lemma length_store_lanes [simp]: "length (store_lanes ix vs a) = length a"
proof (induction ix arbitrary: vs a)
  case (Cons i ix)
  then show ?case by (cases vs) (simp_all add: store_lanes_def)
qed (simp add: store_lanes_def)

lemma store_nth_other: "j \<notin> set ix \<Longrightarrow> store_lanes ix vs a ! j = a ! j"
proof (induction ix arbitrary: vs a)
  case (Cons i ix)
  then show ?case by (cases vs) (simp_all add: store_lanes_def)
qed (simp add: store_lanes_def)

lemma lanes_store:
  "distinct ix \<Longrightarrow> \<forall>i \<in> set ix. i < length a \<Longrightarrow> length vs = length ix \<Longrightarrow> lanes ix (store_lanes ix vs a) = vs"
proof (induction ix arbitrary: vs a)
  case Nil
  then show ?case by (simp add: lanes_def)
next
  case (Cons i ix)
  then obtain v vs' where vs: "vs = v # vs'" by (cases vs) auto
  have "store_lanes (i # ix) vs a = store_lanes ix vs' (a[i := v])"
    by (simp add: store_lanes_def vs)
  moreover have "store_lanes ix vs' (a[i := v]) ! i = v"
    using Cons.prems by (simp add: store_nth_other)
  ultimately show ?case
    using Cons.IH [of "a[i := v]" vs'] Cons.prems by (simp add: lanes_def vs)
qed

definition table_ok :: "nat list \<Rightarrow> bool" where
  "table_ok ix \<longleftrightarrow> length ix = 25 \<and> distinct ix \<and> list_all (\<lambda>i. i < 25) ix \<and> ix ! 0 = 0"

lemma table_ok_P: "r < 24 \<Longrightarrow> table_ok (P ! r)"
  using P_tables by (simp add: table_ok_def list_all_length)

lemma length_macros [simp]:
  "length (THETA b) = 25" "length (RHO b) = 25" "length (KHI b) = 25"
  by (simp_all add: THETA_def RHO_def KHI_def Let_def)

lemma length_on_lanes [simp]: "length (on_lanes ix f a) = length a"
  by (simp add: on_lanes_def)

lemma lanes_on_lanes:
  "table_ok ix \<Longrightarrow> length a = 25 \<Longrightarrow> length (f (lanes ix a)) = 25 \<Longrightarrow> lanes ix (on_lanes ix f a) = f (lanes ix a)"
  unfolding on_lanes_def by (rule lanes_store) (auto simp: table_ok_def list_all_iff)

lemma lanes_permuted: "lanes (map (\<lambda>j. ix ! j) q) a = map (\<lambda>j. lanes ix a ! j) q" if "\<forall>j \<in> set q. j < length ix"
  using that by (simp add: lanes_def)

lemma lanes_next:
  "r < 24 \<Longrightarrow> lanes (P ! (Suc r mod 24)) a = map (\<lambda>j. lanes (P ! r) a ! j) pi_params"
  using table_ok_P [of r] unfolding P_Suc
  by (intro lanes_permuted) (simp add: table_ok_def pi_params_def)

lemma spec_order_list: "spec_order b =
    [b ! 0, b ! 5, b ! 10, b ! 15, b ! 20, b ! 1, b ! 6, b ! 11, b ! 16,
     b ! 21, b ! 2, b ! 7, b ! 12, b ! 17, b ! 22, b ! 3, b ! 8, b ! 13,
     b ! 18, b ! 23, b ! 4, b ! 9, b ! 14, b ! 19, b ! 24]"
  by (simp add: spec_order_def spec_pos_def upt_lits numeral_2_eq_2 [symmetric])

lemma rotl_0: "word_rotl 0 w = w"
  by (rule bit_word_eqI) (simp add: bit_word_rotl_iff)

lemma spec_order_THETA: "spec_order (THETA b) = theta (spec_order b)"
  by (simp add: spec_order_list theta_def THETA_def TH_ELT_def Let_def upt_lits sph_rot ac_simps)

lemma rho_offsets_list: "rho_offsets =
    [0, 1, 62, 28, 27, 36, 44, 6, 55, 20, 3, 10, 43, 25, 39, 41, 45, 15, 21, 8, 18, 2, 61, 56, 14]"
  by (simp add: rho_offsets_def upt_lits replicate_numeral)

lemma spec_order_RHO: "spec_order (RHO b) = rho (spec_order b)"
  by (simp add: spec_order_list rho_def RHO_def rho_offsets_list upt_lits sph_rot rotl_0)

section \<open>Lane complementing\<close>

definition lane_mask :: "u64 list" where
  "lane_mask = [0, - 1, - 1, 0, 0, 0, 0, 0, - 1, 0, 0, 0, - 1, 0, 0, 0, 0, - 1, 0, 0, - 1, 0, 0, 0, 0]"

text \<open>Where the mask has got to when chi is applied.\<close>

definition chi_mask :: "u64 list" where
  "chi_mask = [- 1, 0, - 1, - 1, 0, - 1, 0, - 1, 0, 0, - 1, 0, - 1, 0, 0, 0, - 1, 0, - 1, - 1, - 1, 0, 0, - 1, 0]"

definition xor_lanes :: "u64 list \<Rightarrow> u64 list \<Rightarrow> u64 list" where
  "xor_lanes M A = map (\<lambda>i. M ! i XOR A ! i) [0..<25]"

lemma length_steps [simp]:
  "length (theta A) = 25" "length (rho A) = 25" "length (pi_step A) = 25" "length (chi A) = 25"
  "length (xor_lanes M A) = 25" "length lane_mask = 25"
  by (simp_all add: theta_def rho_def pi_step_def chi_def xor_lanes_def lane_mask_def Let_def)

lemma theta_xor: "theta (xor_lanes M A) = xor_lanes (theta M) (theta A)"
  by (simp add: theta_def xor_lanes_def Let_def word_rot_logs ac_simps)

lemma rho_xor: "rho (xor_lanes M A) = xor_lanes (rho M) (rho A)"
  by (simp add: rho_def xor_lanes_def word_rot_logs)

lemma pi_source_less: "i < 25 \<Longrightarrow> pi_source i < 25"
proof -
  have "(i mod 5 + 3 * (i div 5)) mod 5 < 5" "i mod 5 < 5" by simp_all
  then show ?thesis unfolding pi_source_def by linarith
qed

lemma pi_xor: "pi_step (xor_lanes M A) = xor_lanes (pi_step M) (pi_step A)"
  by (simp add: pi_step_def xor_lanes_def pi_source_less)

lemma rotl_minus_1: "word_rotl k (- 1) = (- 1 :: 'a::len word)"
  by (rule bit_word_eqI) (simp add: bit_word_rotl_iff)

lemma mask_step: "pi_step (rho (theta lane_mask)) = chi_mask"
  by (simp add: lane_mask_def chi_mask_def theta_def rho_def pi_step_def pi_source_def rho_offsets_list upt_lits Let_def
      rotl_minus_1)

lemma KHI_chi:
  assumes "spec_order c = xor_lanes chi_mask B"
  shows "spec_order (KHI c) = xor_lanes lane_mask (chi B)"
  using assms
  by (simp add: spec_order_list xor_lanes_def chi_mask_def lane_mask_def chi_def KHI_def KHI_XO_def KHI_XA_def upt_lits
      numeral_2_eq_2 [symmetric])
    (intro conjI; rule bit_word_eqI; auto simp: bit_simps)

text \<open>The state of the specification that a context in round \<open>r\<close> stands for, masked.\<close>

definition keccak_rel :: "nat \<Rightarrow> u64 list \<Rightarrow> u64 list \<Rightarrow> bool" where
  "keccak_rel r a A \<longleftrightarrow> length a = 25 \<and> spec_order (lanes (P ! r) a) = xor_lanes lane_mask A"

lemma keccak_rel_0: "keccak_rel 0 (xor_lanes lane_mask A) A"
  by (simp add: keccak_rel_def P_0)

lemma keccak_rel_0_eq: "keccak_rel 0 a A \<Longrightarrow> a = xor_lanes lane_mask A"
  using P_0 [of a] by (simp add: keccak_rel_def)

lemma IOTA_lanes:
  assumes "table_ok ix" "length a = 25"
  shows "lanes ix (IOTA k a) = (lanes ix a)[0 := lanes ix a ! 0 XOR k]"
proof -
  obtain i ix' where ix: "ix = i # ix'" using assms(1) by (cases ix) (auto simp: table_ok_def)
  have i: "i = 0" "0 \<notin> set ix'"
    using assms(1) by (auto simp: table_ok_def ix)
  then have "map (\<lambda>j. a[0 := x] ! j) ix' = map (\<lambda>j. a ! j) ix'" for x
    by (metis (mono_tags, lifting) map_cong nth_list_update_neq)
  then show ?thesis
    using i assms(2) by (simp add: lanes_def IOTA_def ix)
qed

lemma spec_order_update_0: "length b = 25 \<Longrightarrow> spec_order (b[0 := v]) = (spec_order b)[0 := v]"
  by (simp add: spec_order_list)

lemma spec_order_0: "spec_order b ! 0 = b ! 0"
  by (simp add: spec_order_list)

theorem KF_ELT_round:
  assumes "keccak_rel r a A" "r < 24" "s = Suc r mod 24"
  shows "keccak_rel s (KF_ELT r s k a) (keccak_round k A)"
proof -
  let ?ix = "P ! r" and ?jx = "P ! s"
  have ok: "table_ok ?ix" "table_ok ?jx" and len: "length a = 25"
    and rel: "spec_order (lanes ?ix a) = xor_lanes lane_mask A"
    using assms by (simp_all add: keccak_rel_def table_ok_P)
  define a1 where "a1 = on_lanes ?ix RHO (on_lanes ?ix THETA a)"
  have a1: "lanes ?ix a1 = RHO (THETA (lanes ?ix a))" "length a1 = 25"
    using ok len by (simp_all add: a1_def lanes_on_lanes)
  have "spec_order (lanes ?jx a1) = pi_step (spec_order (lanes ?ix a1))"
    using assms(2,3) by (simp add: lanes_next spec_order_pi)
  also have "\<dots> = xor_lanes chi_mask (pi_step (rho (theta A)))"
    by (simp only: a1 spec_order_RHO spec_order_THETA rel theta_xor rho_xor pi_xor mask_step)
  finally have chi: "spec_order (KHI (lanes ?jx a1)) = xor_lanes lane_mask (chi (pi_step (rho (theta A))))"
    by (rule KHI_chi)
  define a2 where "a2 = on_lanes ?jx KHI a1"
  have a2: "lanes ?jx a2 = KHI (lanes ?jx a1)" "length a2 = 25"
    using ok a1 by (simp_all add: a2_def lanes_on_lanes)
  let ?B = "chi (pi_step (rho (theta A)))"
  have "spec_order (lanes ?jx (IOTA k a2)) = (xor_lanes lane_mask ?B)[0 := xor_lanes lane_mask ?B ! 0 XOR k]"
    using IOTA_lanes [OF ok(2) a2(2)] chi spec_order_0 [of "KHI (lanes ?jx a1)"]
    by (simp add: a2 spec_order_update_0)
  also have "\<dots> = xor_lanes lane_mask (keccak_round k A)"
    by (simp add: xor_lanes_def keccak_round_def Let_def upt_lits lane_mask_def)
  finally show ?thesis
    using a2(2) by (simp add: keccak_rel_def KF_ELT_def Let_def a1_def [symmetric] a2_def [symmetric] IOTA_def)
qed

section \<open>Unrolled loops\<close>

lemma move_lanes_map:
  "list_all (\<lambda>(d, s). lane d < length xs \<and> lane s < length xs) ms \<Longrightarrow>
   move_lanes ms (map f xs) = map f (move_lanes ms xs)"
proof (induction ms arbitrary: xs)
  case (Cons m ms)
  then show ?case
    by (cases m) (simp add: move_lanes_def map_update [symmetric])
qed (simp add: move_lanes_def)

lemma with_temp_indices:
  assumes "length a = 25" "list_all (\<lambda>(d, s). lane d < 26 \<and> lane s < 26) ms"
  shows "with_temp ms a = map (\<lambda>i. (a @ [0]) ! i) (take 25 (move_lanes ms [0..<26]))"
proof -
  have "a @ [0] = map (\<lambda>i. (a @ [0]) ! i) [0..<26]"
    using map_nth [of "a @ [0]"] assms(1) by simp
  then have "move_lanes ms (a @ [0]) = map (\<lambda>i. (a @ [0]) ! i) (move_lanes ms [0..<26])"
    using move_lanes_map [of "[0..<26]" ms "\<lambda>i. (a @ [0]) ! i"] assms(2) by simp
  then show ?thesis by (simp add: with_temp_def take_map)
qed

lemmas move_simps = with_temp_indices move_lanes_def lane_def upt_lits spec_order_list lanes_def P_wide

lemma back_to_P0:
  assumes "length a = 25"
  shows "P1_TO_P0 a = spec_order (lanes (P ! 1) a)"
    "P2_TO_P0 a = spec_order (lanes (P ! 2) a)"
    "P4_TO_P0 a = spec_order (lanes (P ! 4) a)"
    "P6_TO_P0 a = spec_order (lanes (P ! 6) a)"
    "P8_TO_P0 a = spec_order (lanes (P ! 8) a)"
    "P12_TO_P0 a = spec_order (lanes (P ! 12) a)"
  using assms by (simp_all add: P1_TO_P0_def P2_TO_P0_def P4_TO_P0_def P6_TO_P0_def P8_TO_P0_def P12_TO_P0_def move_simps nth_append)

lemma rel_back: "keccak_rel k a A \<Longrightarrow> keccak_rel 0 (spec_order (lanes (P ! k) a)) A"
  by (simp add: keccak_rel_def P_0)

text \<open>\<open>n\<close> rounds in a row, from table 0.\<close>

fun rounds :: "nat \<Rightarrow> (nat \<Rightarrow> u64) \<Rightarrow> u64 list \<Rightarrow> u64 list" where
  "rounds 0 c a = a"
| "rounds (Suc n) c a = KF_ELT n (Suc n mod 24) (c n) (rounds n c a)"

lemma rounds_rel:
  "keccak_rel 0 a A \<Longrightarrow> n \<le> 24 \<Longrightarrow>
   keccak_rel (n mod 24) (rounds n c a) (foldl (\<lambda>A i. keccak_round (c i) A) A [0..<n])"
proof (induction n)
  case (Suc n)
  then show ?case using KF_ELT_round [of n "rounds n c a" _ "Suc n mod 24" "c n"] by simp
qed simp

lemma rounds_numeral:
  "rounds (numeral k) c a = KF_ELT (pred_numeral k) (numeral k mod 24) (c (pred_numeral k)) (rounds (pred_numeral k) c a)"
  by (simp only: numeral_eq_Suc [of k] rounds.simps)

text \<open>A loop that runs \<open>n\<close> rounds and moves the lanes back, for each \<open>j\<close> of a list.\<close>

lemma unrolled_rel:
  assumes "n < 24" "keccak_rel 0 a A" "\<And>a. length a = 25 \<Longrightarrow> back a = spec_order (lanes (P ! n) a)"
  shows "keccak_rel 0 (foldl (\<lambda>a j. back (rounds n (\<lambda>i. RC ! (j + i)) a)) a js)
    (foldl (\<lambda>A j. foldl (\<lambda>A i. keccak_round (RC ! (j + i)) A) A [0..<n]) A js)"
  using assms(2)
proof (induction js arbitrary: a A)
  case (Cons j js)
  have "keccak_rel n (rounds n (\<lambda>i. RC ! (j + i)) a) (foldl (\<lambda>A i. keccak_round (RC ! (j + i)) A) A [0..<n])"
    using rounds_rel [OF Cons.prems, of n] assms(1) by simp
  from Cons.IH [OF rel_back [OF this]] this show ?case by (simp add: assms(3) keccak_rel_def)
qed simp

lemma keccak_f_RC: "keccak_f A = foldl (\<lambda>A i. keccak_round (RC ! i) A) A [0..<24]"
proof -
  have "length RC = 24" by (simp add: RC_def)
  then have "round_constants 24 1 = map (\<lambda>i. RC ! i) [0..<24]"
    using map_nth [of RC] RC_constants by simp
  then show ?thesis
    by (simp only: keccak_f_def foldl_map)
qed

text \<open>Every unroll factor computes Keccak-f, up to the complemented lanes.\<close>

lemma unroll1_rel: "keccak_rel 0 a A \<Longrightarrow> keccak_rel 0 (KECCAK_F_1600_unroll1 a) (keccak_f A)"
  using unrolled_rel [OF _ _ back_to_P0(1), of a A "[0..<24]"]
  by (simp add: KECCAK_F_1600_unroll1_def keccak_f_RC rounds_numeral Let_def upt_lits numeral_2_eq_2 [symmetric])

lemma unroll2_rel: "keccak_rel 0 a A \<Longrightarrow> keccak_rel 0 (KECCAK_F_1600_unroll2 a) (keccak_f A)"
  using unrolled_rel [OF _ _ back_to_P0(2), of a A "[0, 2, 4, 6, 8, 10, 12, 14, 16, 18, 20, 22]"]
  by (simp add: KECCAK_F_1600_unroll2_def keccak_f_RC rounds_numeral Let_def upt_lits numeral_2_eq_2 [symmetric])

lemma unroll4_rel: "keccak_rel 0 a A \<Longrightarrow> keccak_rel 0 (KECCAK_F_1600_unroll4 a) (keccak_f A)"
  using unrolled_rel [OF _ _ back_to_P0(3), of a A "[0, 4, 8, 12, 16, 20]"]
  by (simp add: KECCAK_F_1600_unroll4_def keccak_f_RC rounds_numeral Let_def upt_lits numeral_2_eq_2 [symmetric])

lemma unroll6_rel: "keccak_rel 0 a A \<Longrightarrow> keccak_rel 0 (KECCAK_F_1600_unroll6 a) (keccak_f A)"
  using unrolled_rel [OF _ _ back_to_P0(4), of a A "[0, 6, 12, 18]"]
  by (simp add: KECCAK_F_1600_unroll6_def keccak_f_RC rounds_numeral Let_def upt_lits numeral_2_eq_2 [symmetric])

lemma unroll8_rel: "keccak_rel 0 a A \<Longrightarrow> keccak_rel 0 (KECCAK_F_1600 a) (keccak_f A)"
  using unrolled_rel [OF _ _ back_to_P0(5), of a A "[0, 8, 16]"]
  by (simp add: KECCAK_F_1600_def keccak_f_RC rounds_numeral Let_def upt_lits numeral_2_eq_2 [symmetric])

lemma unroll12_rel: "keccak_rel 0 a A \<Longrightarrow> keccak_rel 0 (KECCAK_F_1600_unroll12 a) (keccak_f A)"
  using unrolled_rel [OF _ _ back_to_P0(6), of a A "[0, 12]"]
  by (simp add: KECCAK_F_1600_unroll12_def keccak_f_RC rounds_numeral Let_def upt_lits numeral_2_eq_2 [symmetric])

lemma unroll0_rel: "keccak_rel 0 a A \<Longrightarrow> keccak_rel 0 (KECCAK_F_1600_unroll0 a) (keccak_f A)"
  using rounds_rel [of a A 24 "\<lambda>i. RC ! i"]
  by (simp add: KECCAK_F_1600_unroll0_def keccak_f_RC rounds_numeral Let_def numeral_2_eq_2 [symmetric])

lemma KECCAK_F_1600_mask: "KECCAK_F_1600 (xor_lanes lane_mask A) = xor_lanes lane_mask (keccak_f A)"
  by (rule keccak_rel_0_eq, rule unroll8_rel, rule keccak_rel_0)

end
