(* ===== verification/Keccak.thy ===== *)
theory Keccak
  imports Keccak_F Padding
begin

unbundle bit_operations_syntax

text \<open>
  The sponge of \<^verbatim>\<open>src/src/crypto/keccak.c\<close> around the permutation of \<open>Keccak_F\<close>: the context,
  absorption, padding and the public functions for the four digest lengths, and the proof
  that they compute the sponge of the Keccak specification on bit strings.  The buffer of a
  context has 144 bytes, of which a digest length uses the first \<open>lim\<close> as its block.
\<close>

section \<open>Context\<close>

record sph_keccak_context =
  kc_buf :: bytes
  kc_ptr :: nat
  kc_lim :: nat
  kc_wide :: "u64 list"

section \<open>Absorbing and closing\<close>

definition INPUT_BUF :: "nat \<Rightarrow> u64 list \<Rightarrow> bytes \<Rightarrow> u64 list" where
  "INPUT_BUF sz a buf =
     foldl (\<lambda>a i. a[i := a ! i XOR sph_dec64le_aligned (drop (8 * i) buf)]) a [0..<sz div 8]"

text \<open>The body of \<open>INPUT_BUF\<close> for a state in local variables, with its early exits.\<close>

definition INPUT_LANES :: "nat list \<Rightarrow> u64 list \<Rightarrow> bytes \<Rightarrow> u64 list" where
  "INPUT_LANES ix a buf =
     foldl (\<lambda>a i. a[i := a ! i XOR sph_dec64le_aligned (drop (8 * i) buf)]) a ix"

definition INPUT_BUF_copy :: "nat \<Rightarrow> u64 list \<Rightarrow> bytes \<Rightarrow> u64 list" where
  "INPUT_BUF_copy lim a buf =
     (let a = INPUT_LANES [0, 1, 2, 3, 4, 5, 6, 7, 8] a buf in
      if lim = 72 then a
      else let a = INPUT_LANES [9, 10, 11, 12] a buf in
      if lim = 104 then a
      else let a = INPUT_LANES [13, 14, 15, 16] a buf in
      if lim = 136 then a
      else INPUT_LANES [17] a buf)"

definition keccak_init :: "sph_keccak_context \<Rightarrow> nat \<Rightarrow> sph_keccak_context" where
  "keccak_init kc out_size =
     kc\<lparr>kc_wide := (replicate 25 0)[1 := 0xFFFFFFFFFFFFFFFF, 2 := 0xFFFFFFFFFFFFFFFF,
          8 := 0xFFFFFFFFFFFFFFFF, 12 := 0xFFFFFFFFFFFFFFFF, 17 := 0xFFFFFFFFFFFFFFFF,
          20 := 0xFFFFFFFFFFFFFFFF],
        kc_ptr := 0, kc_lim := 200 - out_size div 4\<rparr>"

definition keccak_core :: "sph_keccak_context \<Rightarrow> bytes \<Rightarrow> nat \<Rightarrow> sph_keccak_context" where
  "keccak_core kc data lim =
     (case buf_update lim (\<lambda>a buf. KECCAK_F_1600 (INPUT_BUF lim a buf)) (kc_wide kc, kc_buf kc, kc_ptr kc) data of
        (a, buf, ptr) \<Rightarrow> kc\<lparr>kc_wide := a, kc_buf := buf, kc_ptr := ptr\<rparr>)"

definition keccak_complement :: "u64 list \<Rightarrow> u64 list" where
  "keccak_complement a = a[1 := NOT (a ! 1), 2 := NOT (a ! 2), 8 := NOT (a ! 8),
     12 := NOT (a ! 12), 17 := NOT (a ! 17), 20 := NOT (a ! 20)]"

text \<open>
  \<open>DEFCLOSE(d, lim)\<close>; the bytes of \<open>u.tmp\<close> handed to \<open>keccak_core\<close> are the first \<open>j\<close> ones.
\<close>

definition keccak_close :: "nat \<Rightarrow> nat \<Rightarrow> sph_keccak_context \<Rightarrow> u32 \<Rightarrow> nat \<Rightarrow> sph_keccak_context \<times> bytes" where
  "keccak_close d lim kc ub n =
     (let eb = drop_bit (8 - n) (0x100 OR (ub AND 0xFF));
          tmp = (if kc_ptr kc = lim - 1 then
                   (if n = 7 then ucast eb # replicate (lim - 1) 0 @ [0x80]
                    else [ucast (eb OR 0x80)])
                 else ucast eb # replicate (lim - kc_ptr kc - 2) 0 @ [0x80]);
          kc = keccak_core kc tmp lim;
          kc = kc\<lparr>kc_wide := keccak_complement (kc_wide kc)\<rparr>;
          dst = take d (concat (map (\<lambda>i. sph_enc64le_aligned (kc_wide kc ! i)) [0..<(d + 7) div 8]))
      in (keccak_init kc (d * 8), dst))"

definition sph_keccak224_init :: "sph_keccak_context \<Rightarrow> sph_keccak_context" where
  "sph_keccak224_init cc = keccak_init cc 224"

definition sph_keccak224 :: "sph_keccak_context \<Rightarrow> bytes \<Rightarrow> sph_keccak_context" where
  "sph_keccak224 cc data = keccak_core cc data 144"

definition sph_keccak224_addbits_and_close ::
  "sph_keccak_context \<Rightarrow> u32 \<Rightarrow> nat \<Rightarrow> sph_keccak_context \<times> bytes" where
  "sph_keccak224_addbits_and_close cc ub n = keccak_close 28 144 cc ub n"

definition sph_keccak224_close :: "sph_keccak_context \<Rightarrow> sph_keccak_context \<times> bytes" where
  "sph_keccak224_close cc = sph_keccak224_addbits_and_close cc 0 0"

definition sph_keccak256_init :: "sph_keccak_context \<Rightarrow> sph_keccak_context" where
  "sph_keccak256_init cc = keccak_init cc 256"

definition sph_keccak256 :: "sph_keccak_context \<Rightarrow> bytes \<Rightarrow> sph_keccak_context" where
  "sph_keccak256 cc data = keccak_core cc data 136"

definition sph_keccak256_addbits_and_close ::
  "sph_keccak_context \<Rightarrow> u32 \<Rightarrow> nat \<Rightarrow> sph_keccak_context \<times> bytes" where
  "sph_keccak256_addbits_and_close cc ub n = keccak_close 32 136 cc ub n"

definition sph_keccak256_close :: "sph_keccak_context \<Rightarrow> sph_keccak_context \<times> bytes" where
  "sph_keccak256_close cc = sph_keccak256_addbits_and_close cc 0 0"

definition sph_keccak384_init :: "sph_keccak_context \<Rightarrow> sph_keccak_context" where
  "sph_keccak384_init cc = keccak_init cc 384"

definition sph_keccak384 :: "sph_keccak_context \<Rightarrow> bytes \<Rightarrow> sph_keccak_context" where
  "sph_keccak384 cc data = keccak_core cc data 104"

definition sph_keccak384_addbits_and_close ::
  "sph_keccak_context \<Rightarrow> u32 \<Rightarrow> nat \<Rightarrow> sph_keccak_context \<times> bytes" where
  "sph_keccak384_addbits_and_close cc ub n = keccak_close 48 104 cc ub n"

definition sph_keccak384_close :: "sph_keccak_context \<Rightarrow> sph_keccak_context \<times> bytes" where
  "sph_keccak384_close cc = sph_keccak384_addbits_and_close cc 0 0"

definition sph_keccak512_init :: "sph_keccak_context \<Rightarrow> sph_keccak_context" where
  "sph_keccak512_init cc = keccak_init cc 512"

definition sph_keccak512 :: "sph_keccak_context \<Rightarrow> bytes \<Rightarrow> sph_keccak_context" where
  "sph_keccak512 cc data = keccak_core cc data 72"

definition sph_keccak512_addbits_and_close ::
  "sph_keccak_context \<Rightarrow> u32 \<Rightarrow> nat \<Rightarrow> sph_keccak_context \<times> bytes" where
  "sph_keccak512_addbits_and_close cc ub n = keccak_close 64 72 cc ub n"

definition sph_keccak512_close :: "sph_keccak_context \<Rightarrow> sph_keccak_context \<times> bytes" where
  "sph_keccak512_close cc = sph_keccak512_addbits_and_close cc 0 0"
section \<open>Bit strings, least significant bit first\<close>

definition byte_bits_lsb :: "byte \<Rightarrow> bool list" where
  "byte_bits_lsb b = map (bit b) [0, 1, 2, 3, 4, 5, 6, 7]"

definition bytes_bits_lsb :: "bytes \<Rightarrow> bool list" where
  "bytes_bits_lsb bs = concat (map byte_bits_lsb bs)"

definition bits_byte_lsb :: "bool list \<Rightarrow> byte" where
  "bits_byte_lsb l = foldr (\<lambda>b w. 2 * w + of_bool b) l 0"

definition bits_bytes_lsb :: "bool list \<Rightarrow> bytes" where
  "bits_bytes_lsb l = map bits_byte_lsb (full_blocks 8 l)"

text \<open>
  The extra bits are the high \<open>n\<close> bits of \<open>ub\<close>; in the bit order of Keccak the lowest of
  them comes first.
\<close>

definition msg_bits_lsb :: "bytes \<Rightarrow> byte \<Rightarrow> nat \<Rightarrow> bool list" where
  "msg_bits_lsb m ub n = bytes_bits_lsb m @ map (\<lambda>i. bit ub (8 - n + i)) [0..<n]"

lemma length_byte_bits_lsb [simp]: "length (byte_bits_lsb b) = 8"
  by (simp add: byte_bits_lsb_def)

lemma bytes_bits_lsb_simps [simp]:
  "bytes_bits_lsb [] = []" "bytes_bits_lsb (b # bs) = byte_bits_lsb b @ bytes_bits_lsb bs"
  "bytes_bits_lsb (xs @ ys) = bytes_bits_lsb xs @ bytes_bits_lsb ys"
  by (simp_all add: bytes_bits_lsb_def)

lemma bits_byte_lsb_bits [simp]: "bits_byte_lsb (byte_bits_lsb b) = b"
proof -
  have "b = horner_sum of_bool 2 (map (bit b) [0..<8])"
    using horner_sum_bit_eq_take_bit [of b 8] by (simp add: take_bit_word_eq_self)
  also have "\<dots> = bits_byte_lsb (byte_bits_lsb b)"
    by (simp add: bits_byte_lsb_def byte_bits_lsb_def upt_lits algebra_simps)
  finally show ?thesis by simp
qed

lemma bits_bytes_lsb_bits [simp]: "bits_bytes_lsb (bytes_bits_lsb bs) = bs"
  by (induction bs) (simp_all add: bits_bytes_lsb_def full_blocks_Cons)

lemma bytes_bits_lsb_zeros: "bytes_bits_lsb (replicate k 0) = replicate (8 * k) False"
proof (induction k)
  case (Suc k)
  have "byte_bits_lsb 0 = replicate 8 False" by (simp add: byte_bits_lsb_def numeral_eq_Suc)
  with Suc show ?case by (simp add: replicate_add)
qed simp

section \<open>The sponge\<close>

definition xor_block :: "u64 list \<Rightarrow> bytes \<Rightarrow> u64 list" where
  "xor_block A b = map (\<lambda>i. A ! i XOR
     (if 8 * i < length b then sph_dec64le (take 8 (drop (8 * i) b)) else 0)) [0..<25]"

definition keccak_spec :: "nat \<Rightarrow> nat \<Rightarrow> bytes \<Rightarrow> byte \<Rightarrow> nat \<Rightarrow> bytes" where
  "keccak_spec d rate m ub n =
     (let P = bits_bytes_lsb (msg_bits_lsb m ub n @ pad_bits (8 * rate) [True] (8 * length m + n));
          A = foldl (\<lambda>A b. keccak_f (xor_block A b)) (replicate 25 0) (full_blocks rate P)
      in take d (concat (map sph_enc64le A)))"

text \<open>The end byte, without and with the final bit of the padding.\<close>

abbreviation keccak_eb :: "u32 \<Rightarrow> nat \<Rightarrow> u32" where
  "keccak_eb ub n \<equiv> drop_bit (8 - n) (0x100 OR (ub AND 0xFF))"

lemma keccak_eb_bits:
  assumes "n < 8"
  shows "byte_bits_lsb (ucast (keccak_eb ub n)) =
    map (\<lambda>i. bit (ucast ub :: byte) (8 - n + i)) [0..<n] @ True # replicate (7 - n) False"
    (is "?a = _")
    and "n < 7 \<Longrightarrow> byte_bits_lsb (ucast (keccak_eb ub n OR 0x80)) =
    map (\<lambda>i. bit (ucast ub :: byte) (8 - n + i)) [0..<n] @ True # replicate (6 - n) False @ [True]"
proof -
  from assms have n: "n \<in> {0, 1, 2, 3, 4, 5, 6, 7}" by auto
  then show "?a = map (\<lambda>i. bit (ucast ub :: byte) (8 - n + i)) [0..<n] @ True # replicate (7 - n) False"
    by (elim insertE emptyE)
      (simp_all add: byte_bits_lsb_def bit_simps replicate_numeral upt_lits numeral_2_eq_2 [symmetric])
  assume "n < 7"
  with n show "byte_bits_lsb (ucast (keccak_eb ub n OR 0x80)) =
      map (\<lambda>i. bit (ucast ub :: byte) (8 - n + i)) [0..<n] @ True # replicate (6 - n) False @ [True]"
    by (elim insertE emptyE)
      (simp_all add: byte_bits_lsb_def bit_simps replicate_numeral upt_lits numeral_2_eq_2 [symmetric])
qed

text \<open>The bytes that end the message, for a buffer filled up to \<open>p\<close>.\<close>

definition keccak_tail :: "nat \<Rightarrow> nat \<Rightarrow> u32 \<Rightarrow> nat \<Rightarrow> bytes" where
  "keccak_tail lim p ub n =
     (if p = lim - 1 then
        (if n = 7 then ucast (keccak_eb ub n) # replicate (lim - 1) 0 @ [0x80]
         else [ucast (keccak_eb ub n OR 0x80)])
      else ucast (keccak_eb ub n) # replicate (lim - p - 2) 0 @ [0x80])"

lemma bits_0x80: "byte_bits_lsb 0x80 = replicate 7 False @ [True]"
  by (simp add: byte_bits_lsb_def replicate_numeral)

lemma keccak_tail_bits:
  assumes "n < 8" "p < lim" "1 < lim"
  shows "\<exists>z. bytes_bits_lsb (keccak_tail lim p ub n) =
      map (\<lambda>i. bit (ucast ub :: byte) (8 - n + i)) [0..<n] @ True # replicate z False @ [True]
    \<and> z < 8 * lim \<and> n + 2 + z = 8 * length (keccak_tail lim p ub n)"
proof -
  define X where "X = map (\<lambda>i. bit (ucast ub :: byte) (8 - n + i)) [0..<n]"
  define e e' :: byte where "e = ucast (keccak_eb ub n)" and "e' = ucast (keccak_eb ub n OR 0x80)"
  have e: "byte_bits_lsb e = X @ True # replicate (7 - n) False"
    and e': "n < 7 \<Longrightarrow> byte_bits_lsb e' = X @ True # replicate (6 - n) False @ [True]"
    unfolding e_def e'_def X_def using keccak_eb_bits [OF assms(1), of ub] by simp_all
  define t where "t = (if p = lim - 1 then (if n = 7 then e # replicate (lim - 1) 0 @ [0x80] else [e'])
      else e # replicate (lim - p - 2) 0 @ [0x80])"
  have tail: "keccak_tail lim p ub n = t"
    by (simp only: keccak_tail_def e_def e'_def t_def)
  consider "p = lim - 1" "n = 7" | "p = lim - 1" "n < 7" | "p \<noteq> lim - 1"
    using assms(1) by linarith
  then have "\<exists>z. bytes_bits_lsb t = X @ True # replicate z False @ [True] \<and> z < 8 * lim \<and> n + 2 + z = 8 * length t"
  proof cases
    case 1
    then have "t = e # replicate (lim - 1) 0 @ [0x80]"
      by (simp add: t_def)
    then show ?thesis
      using assms 1 by (intro exI [of _ "8 * (lim - 1) + 7"])
        (auto simp: e bits_0x80 bytes_bits_lsb_zeros replicate_add)
  next
    case 2
    then show ?thesis
      using assms by (intro exI [of _ "6 - n"]) (simp add: t_def e')
  next
    case 3
    then have "t = e # replicate (lim - p - 2) 0 @ [0x80]" by (simp add: t_def)
    then show ?thesis
      using 3 assms by (intro exI [of _ "7 - n + (8 * (lim - p - 2) + 7)"])
        (auto simp: e bits_0x80 bytes_bits_lsb_zeros simp flip: replicate_add)
  qed
  then show ?thesis by (simp only: tail X_def)
qed

lemma keccak_padding:
  fixes m :: bytes and ub :: u32
  assumes "n < 8" "1 < lim"
  defines "t \<equiv> keccak_tail lim (length m mod lim) ub n"
  shows "bits_bytes_lsb (msg_bits_lsb m (ucast ub) n @ pad_bits (8 * lim) [True] (8 * length m + n)) = m @ t"
    and "lim dvd length (m @ t)"
proof -
  have p: "length m mod lim < lim" using assms(2) by simp
  obtain z where z: "bytes_bits_lsb t =
      map (\<lambda>i. bit (ucast ub :: byte) (8 - n + i)) [0..<n] @ True # replicate z False @ [True]"
    "z < 8 * lim" "n + 2 + z = 8 * length t"
    unfolding t_def using keccak_tail_bits [OF assms(1) p assms(2)] by blast
  have "q + length (keccak_tail lim q ub n) \<in> {lim, 2 * lim}" if "q < lim" for q
    using that assms(2) by (auto simp: keccak_tail_def)
  from this [OF p] have "length m mod lim + length t \<in> {lim, 2 * lim}"
    by (simp only: t_def)
  then have "lim dvd length m mod lim + length t" by auto
  then show dvd: "lim dvd length (m @ t)"
    by (simp add: mod_add_left_eq dvd_eq_mod_eq_0)
  then obtain c where "length m + length t = lim * c" by (auto elim: dvdE)
  then have "8 * length m + n + 1 + length [True] + z = c * (8 * lim)"
    using z(3) by (simp add: algebra_simps)
  then have "pad_zeros (8 * lim) (8 * length m + n + 1 + length [True]) = z"
    using z(2) by (rule pad_zeros_eq)
  then have "msg_bits_lsb m (ucast ub) n @ pad_bits (8 * lim) [True] (8 * length m + n) = bytes_bits_lsb (m @ t)"
    by (simp add: msg_bits_lsb_def pad_bits_def z)
  then show "bits_bytes_lsb (msg_bits_lsb m (ucast ub) n @ pad_bits (8 * lim) [True] (8 * length m + n)) = m @ t"
    by (simp only: bits_bytes_lsb_bits)
qed

section \<open>Absorbing into a complemented state\<close>

lemma foldl_update_xor:
  "k \<le> length a \<Longrightarrow> foldl (\<lambda>a i. a[i := a ! i XOR g i]) a [0..<k] =
   map (\<lambda>i. if i < k then a ! i XOR g i else a ! i) [0..<length a]"
proof (induction k)
  case (Suc k)
  then show ?case by (auto intro: nth_equalityI simp: nth_list_update less_Suc_eq)
qed (simp add: map_nth)

lemma INPUT_BUF_mask:
  assumes "length b = 8 * k" "k \<le> 25" "length A = 25"
  shows "INPUT_BUF (8 * k) (xor_lanes lane_mask A) b = xor_lanes lane_mask (xor_block A b)"
  using assms by (auto simp: INPUT_BUF_def foldl_update_xor xor_lanes_def xor_block_def sph_codec_defs
      load64_def ac_simps)

lemma INPUT_BUF_copy_eq:
  "lim \<in> {72, 104, 136, 144} \<Longrightarrow> INPUT_BUF_copy lim a buf = INPUT_BUF lim a buf"
  by (auto simp: INPUT_BUF_copy_def INPUT_LANES_def INPUT_BUF_def upt_lits Let_def)

lemma length_xor_block [simp]: "length (xor_block A b) = 25"
  by (simp add: xor_block_def)

lemma length_keccak_round [simp]: "length (keccak_round k A) = 25"
  by (simp add: keccak_round_def Let_def)

lemma length_keccak_f [simp]: "length (keccak_f A) = 25"
  by (simp add: keccak_f_RC upt_lits)

lemma complement_mask: "length A = 25 \<Longrightarrow> keccak_complement (xor_lanes lane_mask A) = A"
  by (rule nth_equalityI)
    (auto simp: keccak_complement_def xor_lanes_def lane_mask_def nth_list_update nth_Cons' numeral_2_eq_2 [symmetric])

section \<open>Streaming and closing\<close>

text \<open>The part of the buffer behind the block is kept with the state.\<close>

definition keccak_view :: "nat \<Rightarrow> sph_keccak_context \<Rightarrow> (u64 list \<times> nat \<times> bytes) \<times> bytes \<times> nat" where
  "keccak_view lim kc = ((kc_wide kc, kc_lim kc, drop lim (kc_buf kc)), take lim (kc_buf kc), kc_ptr kc)"

definition keccak_block :: "nat \<Rightarrow> u64 list \<times> nat \<times> bytes \<Rightarrow> bytes \<Rightarrow> u64 list \<times> nat \<times> bytes" where
  "keccak_block lim st b = (case st of (a, l, r) \<Rightarrow> (KECCAK_F_1600 (INPUT_BUF lim a b), l, r))"

definition keccak_h0 :: "nat \<Rightarrow> u64 list \<times> nat \<times> bytes \<Rightarrow> bool" where
  "keccak_h0 lim st \<longleftrightarrow> (case st of (a, l, r) \<Rightarrow> a = xor_lanes lane_mask (replicate 25 0) \<and> length r = 144 - lim)"

lemma absorb_keccak_block:
  "absorb lim (keccak_block lim) ((a, l, r), b, p) d =
     (case absorb lim (\<lambda>a b. KECCAK_F_1600 (INPUT_BUF lim a b)) (a, b, p) d of (a', b', p') \<Rightarrow> ((a', l, r), b', p'))"
  by (induction d arbitrary: a b p) (simp_all add: absorb_def absorb1_def keccak_block_def Let_def)

lemma INPUT_BUF_rest: "length b = lim \<Longrightarrow> INPUT_BUF lim a (b @ r) = INPUT_BUF lim a b"
  unfolding INPUT_BUF_def
  by (rule foldl_cong) (auto simp: sph_codec_defs load64_def nth_append)

lemma keccak_core_view:
  assumes "buf_wf lim (keccak_view lim c)"
  shows "keccak_view lim (keccak_core c data lim) = absorb lim (keccak_block lim) (keccak_view lim c) data"
proof -
  let ?f = "\<lambda>a b. KECCAK_F_1600 (INPUT_BUF lim a b)"
  let ?b = "take lim (kc_buf c)" and ?r = "drop lim (kc_buf c)"
  have wf: "length ?b = lim" "kc_ptr c < lim"
    using assms by (simp_all add: buf_wf_def keccak_view_def)
  have "buf_update lim ?f (kc_wide c, ?b @ ?r, kc_ptr c) data =
      (case buf_update lim ?f (kc_wide c, ?b, kc_ptr c) data of (h', b', p') \<Rightarrow> (h', b' @ ?r, p'))"
    using wf by (intro buf_update_rest) (simp_all add: INPUT_BUF_rest)
  also have "buf_update lim ?f (kc_wide c, ?b, kc_ptr c) data = absorb lim ?f (kc_wide c, ?b, kc_ptr c) data"
    using wf by (intro buf_update_absorb) (simp add: buf_wf_def)
  finally have "buf_update lim ?f (kc_wide c, kc_buf c, kc_ptr c) data =
      (case absorb lim ?f (kc_wide c, ?b, kc_ptr c) data of (h', b', p') \<Rightarrow> (h', b' @ ?r, p'))"
    by simp
  moreover have "buf_wf lim (absorb lim ?f (kc_wide c, ?b, kc_ptr c) data)"
    using wf by (intro absorb_wf) (simp add: buf_wf_def)
  ultimately show ?thesis
    by (auto simp: keccak_core_def keccak_view_def absorb_keccak_block buf_wf_def split: prod.splits)
qed

lemma keccak_view_inj: "keccak_view lim c = keccak_view lim d \<Longrightarrow> c = d"
proof -
  assume v: "keccak_view lim c = keccak_view lim d"
  then have "kc_buf c = kc_buf d"
    by (metis append_take_drop_id keccak_view_def prod.inject)
  with v show "c = d" by (cases c; cases d) (simp add: keccak_view_def)
qed

lemma foldl_blocks_mask:
  assumes "lim = 8 * k" "k \<le> 25" "length A = 25" "\<forall>b \<in> set bs. length b = lim"
  shows "foldl (keccak_block lim) (xor_lanes lane_mask A, l, r) bs =
    (xor_lanes lane_mask (foldl (\<lambda>A b. keccak_f (xor_block A b)) A bs), l, r)"
  using assms(3,4)
proof (induction bs arbitrary: A)
  case (Cons b bs)
  have "keccak_block lim (xor_lanes lane_mask A, l, r) b = (xor_lanes lane_mask (keccak_f (xor_block A b)), l, r)"
    using Cons.prems assms(1,2) by (simp add: keccak_block_def INPUT_BUF_mask KECCAK_F_1600_mask)
  then show ?case using Cons by simp
qed simp

lemma take_lanes_out:
  assumes "k \<le> length A" "d \<le> 8 * k"
  shows "take d (concat (map (\<lambda>i. sph_enc64le_aligned (A ! i)) [0..<k])) = take d (concat (map sph_enc64le A))"
proof -
  have len: "length (concat (map sph_enc64le xs)) = 8 * length xs" for xs
    by (induction xs) simp_all
  have "map (\<lambda>i. sph_enc64le_aligned (A ! i)) [0..<k] = map sph_enc64le (take k A)"
    using assms(1) by (auto intro: nth_equalityI simp: sph_codec_defs)
  moreover have "concat (map sph_enc64le A) = concat (map sph_enc64le (take k A)) @ concat (map sph_enc64le (drop k A))"
    by (metis append_take_drop_id concat_append map_append)
  ultimately show ?thesis using assms len [of "take k A"] by simp
qed

lemma keccak_stream: "0 < lim \<Longrightarrow> sph_stream lim (keccak_block lim) (keccak_view lim) (\<lambda>c d. keccak_core c d lim)"
  by (intro sph_stream.intro) (auto intro: keccak_view_inj simp: keccak_core_view)

lemma keccak_init_fresh:
  "length (kc_buf c) = 144 \<Longrightarrow> lim \<le> 144 \<Longrightarrow> fresh_ctx lim (keccak_h0 lim) (keccak_view lim) (keccak_init c out)"
  by (simp add: fresh_ctx_def keccak_view_def keccak_init_def keccak_h0_def xor_lanes_def lane_mask_def
      replicate_numeral upt_lits)

lemma keccak_close_tail:
  "keccak_close d lim kc ub n =
     (let kc = keccak_core kc (keccak_tail lim (kc_ptr kc) ub n) lim;
          a = keccak_complement (kc_wide kc)
      in (keccak_init (kc\<lparr>kc_wide := a\<rparr>) (d * 8),
          take d (concat (map (\<lambda>i. sph_enc64le_aligned (a ! i)) [0..<(d + 7) div 8]))))"
  by (simp add: keccak_close_def keccak_tail_def Let_def)

lemma keccak_finish:
  assumes lim: "lim = 8 * k" "1 < lim" "lim \<le> 144" and d: "d \<le> 64" and n: "n < 8"
    and fresh: "fresh_ctx lim (keccak_h0 lim) (keccak_view lim) c"
  shows "\<exists>c'. keccak_close d lim (keccak_core c m lim) ub n = (c', keccak_spec d lim m (ucast ub) n)
     \<and> fresh_ctx lim (keccak_h0 lim) (keccak_view lim) c'"
proof -
  let ?upd = "\<lambda>c d. keccak_core c d lim"
  have "0 < lim" using lim by simp
  note st = keccak_stream [OF this]
  obtain l r buf where v: "keccak_view lim c = ((xor_lanes lane_mask (replicate 25 0), l, r), buf, 0)"
    and r: "length r = 144 - lim" and buf: "length buf = lim"
    using fresh by (auto simp: fresh_ctx_def keccak_h0_def)
  have wf: "buf_wf lim (keccak_view lim c)" using v buf lim by (simp add: buf_wf_def)
  have ptr: "kc_ptr (?upd c m) = length m mod lim"
    by (rule sph_stream.view_message [OF st v buf, of m]) (simp add: keccak_view_def)
  define t where "t = keccak_tail lim (length m mod lim) ub n"
  note pad = keccak_padding [OF n lim(2), of m ub, folded t_def]
  define A where "A = foldl (\<lambda>A b. keccak_f (xor_block A b)) (replicate 25 0) (full_blocks lim (m @ t))"
  have lA: "length A = 25"
    by (cases "full_blocks lim (m @ t)" rule: rev_cases) (simp_all add: A_def)
  obtain buf' where b': "length buf' = lim"
    and v': "keccak_view lim (?upd c (m @ t)) = ((xor_lanes lane_mask A, l, r), buf', 0)"
  proof (rule sph_stream.view_message [OF st v buf, of "m @ t"])
    fix buf' assume "length buf' = lim"
      "keccak_view lim (?upd c (m @ t)) = (foldl (keccak_block lim) (xor_lanes lane_mask (replicate 25 0), l, r)
         (full_blocks lim (m @ t)), buf', length (m @ t) mod lim)"
    then show ?thesis
      using that [of buf'] pad(2) foldl_blocks_mask [OF lim(1), of "replicate 25 0" "full_blocks lim (m @ t)" l r] lim
      by (simp add: A_def full_blocks_length)
  qed
  have u: "?upd (?upd c m) t = ?upd c (m @ t)"
    by (rule sph_stream.update_append [OF st wf])
  have "kc_buf (?upd c (m @ t)) = buf' @ r"
    using v' by (metis append_take_drop_id keccak_view_def prod.inject)
  then have w: "kc_wide (?upd c (m @ t)) = xor_lanes lane_mask A" "length (kc_buf (?upd c (m @ t))) = 144"
    using v' b' r lim(3) by (simp_all add: keccak_view_def)
  have "take d (concat (map (\<lambda>i. sph_enc64le_aligned (A ! i)) [0..<(d + 7) div 8])) = keccak_spec d lim m (ucast ub) n"
    using take_lanes_out [of "(d + 7) div 8" A d] lA d
    by (simp add: keccak_spec_def Let_def pad(1) A_def)
  then have "keccak_close d lim (?upd c m) ub n =
      (keccak_init ((?upd c (m @ t))\<lparr>kc_wide := A\<rparr>) (d * 8), keccak_spec d lim m (ucast ub) n)"
    by (simp add: keccak_close_tail Let_def ptr t_def [symmetric] u w(1) complement_mask lA)
  then show ?thesis
    using w(2) lim by (simp add: keccak_init_fresh)
qed

lemma keccak_hash:
  assumes "lim = 8 * k" "1 < lim" "lim \<le> 144" "d \<le> 64"
  shows "sph_hash lim (keccak_block lim) (keccak_view lim) (\<lambda>c d. keccak_core c d lim) (keccak_h0 lim)
    (\<lambda>c. length (kc_buf c) = 144) (\<lambda>c. keccak_init c out) (keccak_close d lim) (keccak_spec d lim)"
proof (intro sph_hash.intro sph_hash_axioms.intro)
  show "sph_stream lim (keccak_block lim) (keccak_view lim) (\<lambda>c d. keccak_core c d lim)"
    using assms by (intro keccak_stream) simp
  fix c m ub and n :: nat
  show "length (kc_buf c) = 144 \<Longrightarrow> fresh_ctx lim (keccak_h0 lim) (keccak_view lim) (keccak_init c out)"
    using assms by (simp add: keccak_init_fresh)
  assume "fresh_ctx lim (keccak_h0 lim) (keccak_view lim) c" "n < 8"
  with keccak_finish [OF assms, of n c m ub]
  show "snd (keccak_close d lim (keccak_core c m lim) ub n) = keccak_spec d lim m (ucast ub) n"
    "fresh_ctx lim (keccak_h0 lim) (keccak_view lim) (fst (keccak_close d lim (keccak_core c m lim) ub n))"
    by auto
qed

lemma keccak_api:
  "sph_keccak224 = (\<lambda>c d. keccak_core c d 144)" "sph_keccak224_init = (\<lambda>c. keccak_init c 224)"
  "sph_keccak224_addbits_and_close = keccak_close 28 144"
  "sph_keccak256 = (\<lambda>c d. keccak_core c d 136)" "sph_keccak256_init = (\<lambda>c. keccak_init c 256)"
  "sph_keccak256_addbits_and_close = keccak_close 32 136"
  "sph_keccak384 = (\<lambda>c d. keccak_core c d 104)" "sph_keccak384_init = (\<lambda>c. keccak_init c 384)"
  "sph_keccak384_addbits_and_close = keccak_close 48 104"
  "sph_keccak512 = (\<lambda>c d. keccak_core c d 72)" "sph_keccak512_init = (\<lambda>c. keccak_init c 512)"
  "sph_keccak512_addbits_and_close = keccak_close 64 72"
  by (simp_all add: fun_eq_iff sph_keccak224_def sph_keccak224_init_def sph_keccak224_addbits_and_close_def
      sph_keccak256_def sph_keccak256_init_def sph_keccak256_addbits_and_close_def
      sph_keccak384_def sph_keccak384_init_def sph_keccak384_addbits_and_close_def
      sph_keccak512_def sph_keccak512_init_def sph_keccak512_addbits_and_close_def)

interpretation k224: sph_hash 144 "keccak_block 144" "keccak_view 144" sph_keccak224 "keccak_h0 144"
  "\<lambda>c. length (kc_buf c) = 144" sph_keccak224_init sph_keccak224_addbits_and_close "keccak_spec 28 144"
  unfolding keccak_api by (rule keccak_hash [where k = 18]) simp_all

interpretation k256: sph_hash 136 "keccak_block 136" "keccak_view 136" sph_keccak256 "keccak_h0 136"
  "\<lambda>c. length (kc_buf c) = 144" sph_keccak256_init sph_keccak256_addbits_and_close "keccak_spec 32 136"
  unfolding keccak_api by (rule keccak_hash [where k = 17]) simp_all

interpretation k384: sph_hash 104 "keccak_block 104" "keccak_view 104" sph_keccak384 "keccak_h0 104"
  "\<lambda>c. length (kc_buf c) = 144" sph_keccak384_init sph_keccak384_addbits_and_close "keccak_spec 48 104"
  unfolding keccak_api by (rule keccak_hash [where k = 13]) simp_all

interpretation k512: sph_hash 72 "keccak_block 72" "keccak_view 72" sph_keccak512 "keccak_h0 72"
  "\<lambda>c. length (kc_buf c) = 144" sph_keccak512_init sph_keccak512_addbits_and_close "keccak_spec 64 72"
  unfolding keccak_api by (rule keccak_hash [where k = 9]) simp_all

section \<open>Properties\<close>

text \<open>
  C40: Keccak-512 as the block hash uses it, and the three other digest lengths.  In one context,
  initialised once, any sequence of messages, each fed in arbitrary pieces and ended with up to
  7 extra bits, yields for every message the digest of the Keccak sponge: multi-rate padding of
  the message bits, blocks xored into an all-zero state, Keccak-f[1600] after each, output from
  the first lanes.
\<close>

theorem sph_keccak_correct:
  assumes "length (kc_buf c) = 144" "messages_ok msgs"
  shows "hash_session sph_keccak512 sph_keccak512_addbits_and_close (sph_keccak512_init c) msgs
      = digests (keccak_spec 64 72) msgs
    \<and> hash_session sph_keccak384 sph_keccak384_addbits_and_close (sph_keccak384_init c) msgs
      = digests (keccak_spec 48 104) msgs
    \<and> hash_session sph_keccak256 sph_keccak256_addbits_and_close (sph_keccak256_init c) msgs
      = digests (keccak_spec 32 136) msgs
    \<and> hash_session sph_keccak224 sph_keccak224_addbits_and_close (sph_keccak224_init c) msgs
      = digests (keccak_spec 28 144) msgs"
  using assms k512.session_after_init k384.session_after_init k256.session_after_init
    k224.session_after_init by blast

theorem sph_keccak_correct_witness:
  "hash_session sph_keccak512 sph_keccak512_addbits_and_close
     (sph_keccak512_init \<lparr>kc_buf = replicate 144 9, kc_ptr = 3, kc_lim = 0, kc_wide = []\<rparr>)
     [([replicate 71 1], 0xFE, 7), ([[2], [], [3]], 0, 0)]
   = [keccak_spec 64 72 (replicate 71 1) 0xFE 7, keccak_spec 64 72 [2, 3] 0 0]"
  using sph_keccak_correct [of "\<lparr>kc_buf = replicate 144 9, kc_ptr = 3, kc_lim = 0, kc_wide = []\<rparr>"
      "[([replicate 71 1], 0xFE, 7), ([[2], [], [3]], 0, 0)]"]
  by (simp add: messages_ok_def digests_def)

text \<open>
  the optimised permutation is Keccak-f[1600].  On a state whose lanes 1, 2, 8, 12, 17 and 20
  are complemented, the in-place, lane-complementing rounds with moved lanes compute Keccak-f of
  the state, complemented in the same lanes; all unroll factors the preprocessor offers (1, 2, 4,
  6, 8, 12 and full) agree, and the round constants of the table are those of the LFSR.
\<close>

theorem keccak_permutation_correct:
  "KECCAK_F_1600 (xor_lanes lane_mask A) = xor_lanes lane_mask (keccak_f A)
   \<and> KECCAK_F_1600_unroll1 (xor_lanes lane_mask A) = xor_lanes lane_mask (keccak_f A)
   \<and> KECCAK_F_1600_unroll2 (xor_lanes lane_mask A) = xor_lanes lane_mask (keccak_f A)
   \<and> KECCAK_F_1600_unroll4 (xor_lanes lane_mask A) = xor_lanes lane_mask (keccak_f A)
   \<and> KECCAK_F_1600_unroll6 (xor_lanes lane_mask A) = xor_lanes lane_mask (keccak_f A)
   \<and> KECCAK_F_1600_unroll12 (xor_lanes lane_mask A) = xor_lanes lane_mask (keccak_f A)
   \<and> KECCAK_F_1600_unroll0 (xor_lanes lane_mask A) = xor_lanes lane_mask (keccak_f A)
   \<and> RC = round_constants 24 1"
  by (intro conjI keccak_rel_0_eq unroll8_rel unroll1_rel unroll2_rel unroll4_rel unroll6_rel
      unroll12_rel unroll0_rel keccak_rel_0 RC_constants)

end
