(* ===== verification/Merkle.thy ===== *)
theory Merkle
  imports Prelude
begin

unbundle bit_operations_syntax

text \<open>
  Merkle trees: \<^verbatim>\<open>src/src/consensus/merkle.cpp\<close>, the constant-space computation of root and
  branch, with the reference that computes the tree level by level.  The hash of two nodes
  (\<open>CHash256\<close> over the concatenation, \<open>Hash(BEGIN(left), \<dots>)\<close>) is the argument \<open>H\<close> of every
  definition; nothing is assumed of it.

  The numbers of leaves are \<open>uint32_t\<close> in the code, which states the limit of \<open>2 ^ 32\<close> leaves;
  the last sweep adds up to the next power of two, so that the theorems ask for at most
  \<open>2 ^ 31\<close> leaves.  Loops stop at level 32 in the model, where the code would leave the array.
\<close>

type_synonym u256 = "256 word"
type_synonym 'h combine = "'h \<Rightarrow> 'h \<Rightarrow> 'h"

section \<open>The code\<close>

text \<open>The \<open>for\<close> loop that combines a new node with the finished subtrees to its left.\<close>

function mc_combine ::
  "'h combine \<Rightarrow> bool \<Rightarrow> nat \<Rightarrow> 'h list \<Rightarrow> int \<Rightarrow> nat \<Rightarrow> 'h \<Rightarrow> bool \<Rightarrow> 'h list \<Rightarrow> bool \<Rightarrow>
   nat \<times> 'h \<times> bool \<times> 'h list \<times> bool" where
  "mc_combine H pbranch count inner matchlevel level h matchh branch mutated =
     (if level < 32 \<and> \<not> bit count level then
        let (branch, matchh) =
              (if pbranch then
                 (if matchh then (branch @ [inner ! level], matchh)
                  else if matchlevel = int level then (branch @ [h], True)
                  else (branch, matchh))
               else (branch, matchh));
            mutated = (mutated \<or> inner ! level = h);
            h = H (inner ! level) h
        in mc_combine H pbranch count inner matchlevel (level + 1) h matchh branch mutated
      else (level, h, matchh, branch, mutated))"
  by pat_completeness auto
termination
  by (relation "measure (\<lambda>(_, _, _, _, _, level, _). 32 - level)") auto

declare mc_combine.simps [simp del]

text \<open>The state of the main loop.\<close>

record 'h merkle_state =
  ms_count :: nat
  ms_inner :: "'h list"
  ms_mutated :: bool
  ms_matchlevel :: int
  ms_branch :: "'h list"

definition mc_leaf :: "'h combine \<Rightarrow> bool \<Rightarrow> nat \<Rightarrow> 'h merkle_state \<Rightarrow> 'h \<Rightarrow> 'h merkle_state" where
  "mc_leaf H pbranch branchpos s leaf =
     (let matchh = (ms_count s = branchpos);
          count = ms_count s + 1
      in case mc_combine H pbranch count (ms_inner s) (ms_matchlevel s) 0 leaf matchh (ms_branch s) (ms_mutated s)
         of (level, h, matchh, branch, mutated) \<Rightarrow>
           \<lparr>ms_count = count, ms_inner = (ms_inner s)[level := h], ms_mutated = mutated,
            ms_matchlevel = (if matchh then int level else ms_matchlevel s), ms_branch = branch\<rparr>)"

function mc_lowest :: "nat \<Rightarrow> nat \<Rightarrow> nat" where
  "mc_lowest count level =
     (if level < 32 \<and> \<not> bit count level then mc_lowest count (level + 1) else level)"
  by pat_completeness auto
termination
  by (relation "measure (\<lambda>(_, level). 32 - level)") auto

declare mc_lowest.simps [simp del]

function mc_up ::
  "'h combine \<Rightarrow> bool \<Rightarrow> nat \<Rightarrow> 'h list \<Rightarrow> int \<Rightarrow> nat \<Rightarrow> 'h \<Rightarrow> bool \<Rightarrow> 'h list \<Rightarrow> nat \<times> 'h \<times> bool \<times> 'h list" where
  "mc_up H pbranch count inner matchlevel level h matchh branch =
     (if level < 32 \<and> \<not> bit count level then
        let (branch, matchh) =
              (if pbranch then
                 (if matchh then (branch @ [inner ! level], matchh)
                  else if matchlevel = int level then (branch @ [h], True)
                  else (branch, matchh))
               else (branch, matchh))
        in mc_up H pbranch count inner matchlevel (level + 1) (H (inner ! level) h) matchh branch
      else (level, h, matchh, branch))"
  by pat_completeness auto
termination
  by (relation "measure (\<lambda>(_, _, _, _, _, level, _). 32 - level)") auto

declare mc_up.simps [simp del]

lemma mc_up_level: "level \<le> fst (mc_up H pb count inner ml level h matchh branch)"
proof (induction H pb count inner ml level h matchh branch rule: mc_up.induct)
  case (1 H pb count inner ml level h matchh branch)
  then show ?case
    by (subst mc_up.simps) (fastforce simp: Let_def split: prod.split)
qed

lemma mc_up_less: "level < fst (mc_up H pb count inner ml (Suc level) h matchh branch)"
  using mc_up_level [of "Suc level" H pb count inner ml h matchh branch] by simp

function mc_sweep ::
  "'h combine \<Rightarrow> bool \<Rightarrow> 'h list \<Rightarrow> int \<Rightarrow> nat \<Rightarrow> nat \<Rightarrow> 'h \<Rightarrow> bool \<Rightarrow> 'h list \<Rightarrow> 'h \<times> 'h list" where
  "mc_sweep H pbranch inner matchlevel count level h matchh branch =
     (if level < 32 \<and> count \<noteq> 2 ^ level then
        let branch = (if pbranch \<and> matchh then branch @ [h] else branch);
            h = H h h;
            count = count + 2 ^ level
        in case mc_up H pbranch count inner matchlevel (level + 1) h matchh branch of
             (level, h, matchh, branch) \<Rightarrow> mc_sweep H pbranch inner matchlevel count level h matchh branch
      else (h, branch))"
  by pat_completeness auto
termination
  by (relation "measure (\<lambda>(_, _, _, _, _, level, _). 32 - level)") 
    (auto simp: case_prod_beta intro!: diff_less_mono2 mc_up_less)

declare mc_sweep.simps [simp del]

definition mc_start :: "'h \<Rightarrow> 'h merkle_state" where
  "mc_start zero = \<lparr>ms_count = 0, ms_inner = replicate 32 zero, ms_mutated = False,
     ms_matchlevel = - 1, ms_branch = []\<rparr>"

text \<open>
  \<open>branchpos\<close> is \<open>None\<close> for the value \<open>-1\<close> passed when no branch is asked for
  (\<open>pbranch = NULL\<close>).
\<close>

definition MerkleComputation :: "'h combine \<Rightarrow> 'h \<Rightarrow> 'h list \<Rightarrow> nat option \<Rightarrow> 'h \<times> bool \<times> 'h list" where
  "MerkleComputation H zero leaves branchpos =
     (if leaves = [] then (zero, False, [])
      else
        let pbranch = (branchpos \<noteq> None);
            pos = (case branchpos of Some p \<Rightarrow> p | None \<Rightarrow> 2 ^ 32 - 1);
            s = foldl (mc_leaf H pbranch pos) (mc_start zero) leaves;
            level = mc_lowest (ms_count s) 0;
            h = ms_inner s ! level;
            matchh = (ms_matchlevel s = int level)
        in case mc_sweep H pbranch (ms_inner s) (ms_matchlevel s) (ms_count s) level h matchh (ms_branch s) of
             (h, branch) \<Rightarrow> (h, ms_mutated s, branch))"

definition ComputeMerkleRoot :: "'h combine \<Rightarrow> 'h \<Rightarrow> 'h list \<Rightarrow> 'h \<times> bool" where
  "ComputeMerkleRoot H zero leaves =
     (case MerkleComputation H zero leaves None of (root, mutated, _) \<Rightarrow> (root, mutated))"

definition ComputeMerkleBranch :: "'h combine \<Rightarrow> 'h \<Rightarrow> 'h list \<Rightarrow> nat \<Rightarrow> 'h list" where
  "ComputeMerkleBranch H zero leaves position =
     (case MerkleComputation H zero leaves (Some position) of (_, _, branch) \<Rightarrow> branch)"

fun ComputeMerkleRootFromBranch :: "'h combine \<Rightarrow> 'h \<Rightarrow> 'h list \<Rightarrow> nat \<Rightarrow> 'h" where
  "ComputeMerkleRootFromBranch H h [] nIndex = h"
| "ComputeMerkleRootFromBranch H h (b # bs) nIndex =
     ComputeMerkleRootFromBranch H (if odd nIndex then H b h else H h b) bs (nIndex div 2)"

section \<open>Reference\<close>

fun merkle_level :: "'h combine \<Rightarrow> 'h list \<Rightarrow> 'h list" where
  "merkle_level H [] = []"
| "merkle_level H [a] = [H a a]"
| "merkle_level H (a # b # r) = H a b # merkle_level H r"

lemma length_merkle_level [simp]: "length (merkle_level H l) = (length l + 1) div 2"
  by (induction H l rule: merkle_level.induct) simp_all

function merkle_root :: "'h combine \<Rightarrow> 'h \<Rightarrow> 'h list \<Rightarrow> 'h" where
  "merkle_root H zero l =
     (if l = [] then zero else if length l = 1 then hd l else merkle_root H zero (merkle_level H l))"
  by pat_completeness auto
termination
proof (relation "measure (\<lambda>(_, _, l). length l)", goal_cases)
  case (2 H zero l)
  then have "l \<noteq> []" "length l \<noteq> 1" by auto
  then have "2 \<le> length l" by (cases l) (auto simp: Suc_le_eq)
  then show ?case by simp
qed simp

declare merkle_root.simps [simp del]

definition lev :: "'h combine \<Rightarrow> nat \<Rightarrow> 'h list \<Rightarrow> 'h list" where
  "lev H k l = (merkle_level H ^^ k) l"

section \<open>Levels\<close>

lemma lev_0 [simp]: "lev H 0 l = l"
  by (simp add: lev_def)

lemma lev_Suc: "lev H (Suc k) l = merkle_level H (lev H k l)"
  by (simp add: lev_def)

lemma merkle_level_nth:
  "2 * j + 1 < length l \<Longrightarrow> merkle_level H l ! j = H (l ! (2 * j)) (l ! (2 * j + 1))"
  "2 * j + 1 = length l \<Longrightarrow> merkle_level H l ! j = H (l ! (2 * j)) (l ! (2 * j))"
proof (induction H l arbitrary: j rule: merkle_level.induct)
  case (3 H a b r)
  { case 1
    then show ?case using 3(1) [of "j - 1"] by (cases j) simp_all
  next
    case 2
    then obtain i where j: "j = Suc i" and r: "2 * i + 1 = length r" by (cases j) auto
    have "merkle_level H (a # b # r) ! j = merkle_level H r ! i" by (simp add: j)
    also have "\<dots> = H (r ! (2 * i)) (r ! (2 * i))" by (rule 3(2) [OF r])
    also have "r ! (2 * i) = (a # b # r) ! (2 * j)" by (simp add: j)
    finally show ?case .
  }
qed simp_all

text \<open>The width of level \<open>k\<close>: \<open>n / 2^k\<close>, rounded up.\<close>

definition width :: "nat \<Rightarrow> nat \<Rightarrow> nat" where
  "width n k = (n + 2 ^ k - 1) div 2 ^ k"

lemma width_0 [simp]: "width n 0 = n"
  by (simp add: width_def)

lemma width_Suc: "width n (Suc k) = (width n k + 1) div 2"
proof -
  have "1 \<le> (2::nat) ^ k" by simp
  then have "n + 2 ^ Suc k - 1 = (n + 2 ^ k - 1) + 2 ^ k"
    unfolding power_Suc by linarith
  then have "(n + 2 ^ Suc k - 1) div 2 ^ k = width n k + 1"
    by (simp only: width_def) (simp add: div_add_self2)
  moreover have "(n + 2 ^ Suc k - 1) div 2 ^ Suc k = (n + 2 ^ Suc k - 1) div 2 ^ k div 2"
    by (simp only: power_Suc2 div_mult2_eq)
  ultimately show ?thesis
    by (simp only: width_def)
qed

lemma length_lev [simp]: "length (lev H k l) = width (length l) k"
  by (induction k) (simp_all add: lev_Suc width_Suc)

lemma width_pos: "0 < n \<Longrightarrow> 0 < width n k"
  by (induction k) (simp_all add: width_Suc div_greater_zero_iff)

lemma width_round: "n \<le> 2 ^ k * width n k" "2 ^ k * width n k < n + 2 ^ k"
proof -
  let ?x = "n + 2 ^ k - 1"
  have "?x = 2 ^ k * width n k + ?x mod 2 ^ k"
    unfolding width_def by (metis mult_div_mod_eq)
  moreover have "?x mod 2 ^ k < 2 ^ k" by simp
  moreover have "(0::nat) < 2 ^ k" by simp
  ultimately show "n \<le> 2 ^ k * width n k" "2 ^ k * width n k < n + 2 ^ k" by linarith+
qed

lemma width_shift: "width (Suc n div 2) k = width n (Suc k)"
  by (induction k) (simp_all add: width_Suc)

lemma lev_shift: "lev H (Suc k) l = lev H k (merkle_level H l)"
  by (simp add: lev_def funpow_swap1)

lemma merkle_root_lev:
  "0 < length l \<Longrightarrow> width (length l) k = 1 \<Longrightarrow> \<forall>j < k. width (length l) j \<noteq> 1 \<Longrightarrow>
   merkle_root H zero l = lev H k l ! 0"
proof (induction k arbitrary: l)
  case 0
  then show ?case by (cases l) (simp_all add: merkle_root.simps)
next
  case (Suc k)
  have ne: "length l \<noteq> 1" using Suc.prems(3) by (auto dest: spec [of _ 0])
  have "merkle_root H zero (merkle_level H l) = lev H k (merkle_level H l) ! 0"
  proof (rule Suc.IH)
    show "0 < length (merkle_level H l)" using Suc.prems(1) by (cases l) (simp_all add: div_greater_zero_iff)
    show "width (length (merkle_level H l)) k = 1"
      using Suc.prems(2) by (simp add: width_shift)
    show "\<forall>j < k. width (length (merkle_level H l)) j \<noteq> 1"
      using Suc.prems(3) by (simp add: width_shift)
  qed
  then show ?case
    using ne Suc.prems(1) by (subst merkle_root.simps) (auto simp: lev_shift)
qed

section \<open>The subtrees of a prefix\<close>

text \<open>
  After \<open>c\<close> leaves, a finished subtree is kept for every 1 bit of \<open>c\<close>: at level \<open>k\<close> it is the
  last complete one, node \<open>c div 2^k - 1\<close>.
\<close>

definition inner_ok :: "'h combine \<Rightarrow> 'h list \<Rightarrow> nat \<Rightarrow> 'h list \<Rightarrow> bool" where
  "inner_ok H l c inner \<longleftrightarrow>
     length inner = 32 \<and> (\<forall>k < 32. bit c k \<longrightarrow> inner ! k = lev H k l ! (c div 2 ^ k - 1))"

text \<open>The sibling of the node above leaf \<open>pos\<close> at level \<open>k\<close>; the last node of an odd level is its own.\<close>

definition sibling :: "'h combine \<Rightarrow> 'h list \<Rightarrow> nat \<Rightarrow> nat \<Rightarrow> 'h" where
  "sibling H l pos k =
     (let i = pos div 2 ^ k in
      lev H k l ! (if odd i then i - 1 else if i + 1 < width (length l) k then i + 1 else i))"

definition branch_to :: "'h combine \<Rightarrow> 'h list \<Rightarrow> nat \<Rightarrow> nat \<Rightarrow> 'h list" where
  "branch_to H l pos k = map (sibling H l pos) [0..<k]"

text \<open>The finished subtree at level \<open>k\<close> contains leaf \<open>pos\<close>.\<close>

definition holds_leaf :: "nat \<Rightarrow> nat \<Rightarrow> nat \<Rightarrow> bool" where
  "holds_leaf c pos k \<longleftrightarrow> bit c k \<and> pos div 2 ^ k = c div 2 ^ k - 1"

definition branch_ok :: "'h combine \<Rightarrow> 'h list \<Rightarrow> nat \<Rightarrow> nat \<Rightarrow> int \<Rightarrow> 'h list \<Rightarrow> bool" where
  "branch_ok H l pos c ml branch \<longleftrightarrow>
     (if pos < c then \<exists>k. ml = int k \<and> holds_leaf c pos k \<and> branch = branch_to H l pos k
      else ml = - 1 \<and> branch = [])"

text \<open>A node under construction: number \<open>W - 1\<close> of level \<open>k\<close>, above the subtrees of \<open>c\<close> leaves.\<close>

definition node_ok ::
  "'h combine \<Rightarrow> 'h list \<Rightarrow> nat \<Rightarrow> nat \<Rightarrow> nat \<Rightarrow> nat \<Rightarrow> int \<Rightarrow> bool \<Rightarrow> 'h list \<Rightarrow> bool" where
  "node_ok H l pos c k W ml matchh branch \<longleftrightarrow>
     (if matchh then pos div 2 ^ k = W - 1 \<and> branch = branch_to H l pos k
      else pos div 2 ^ k \<noteq> W - 1 \<and> branch_ok H l pos c ml branch)"

lemma lev_pair:
  assumes "2 * j + 1 < width (length l) k"
  shows "lev H (Suc k) l ! j = H (lev H k l ! (2 * j)) (lev H k l ! (2 * j + 1))"
  using assms by (simp add: lev_Suc merkle_level_nth(1))

lemma lev_odd:
  assumes "2 * j + 1 = width (length l) k"
  shows "lev H (Suc k) l ! j = H (lev H k l ! (2 * j)) (lev H k l ! (2 * j))"
  using assms by (simp add: lev_Suc merkle_level_nth(2))

lemma div_Suc_power: "x div 2 ^ Suc k = x div 2 ^ k div (2::nat)"
  by (simp only: power_Suc2 div_mult2_eq)

lemma bit_odd: "bit c k \<longleftrightarrow> odd (c div 2 ^ k)" for c :: nat
  by (simp add: bit_iff_odd)

lemma holds_leaf_above:
  assumes "holds_leaf c pos m" "m < k"
  shows "pos div 2 ^ k = c div 2 ^ k"
proof -
  have "pos div 2 ^ Suc m = c div 2 ^ Suc m"
    using assms(1) unfolding holds_leaf_def bit_odd div_Suc_power
    by (auto elim!: oddE)
  then have "pos div 2 ^ Suc m div 2 ^ (k - Suc m) = c div 2 ^ Suc m div 2 ^ (k - Suc m)"
    by simp
  then show ?thesis
    using assms(2) by (simp only: div_mult2_eq [symmetric] power_add [symmetric]) simp
qed

lemma holds_leaf_unique:
  assumes "holds_leaf c pos m" "holds_leaf c pos k"
  shows "m = k"
proof (rule ccontr)
  assume "m \<noteq> k"
  then consider "m < k" | "k < m" by linarith
  then show False
  proof cases
    case 1
    with assms holds_leaf_above [of c pos m k] show False by (auto simp: holds_leaf_def bit_odd elim!: oddE)
  next
    case 2
    with assms holds_leaf_above [of c pos k m] show False by (auto simp: holds_leaf_def bit_odd elim!: oddE)
  qed
qed

lemma node_step:
  assumes "c div 2 ^ k = 2 * j + 1" "2 * j + 1 < width (length l) k" "k < 32" "inner_ok H l c inner"
  shows "H (inner ! k) (lev H k l ! (2 * j + 1)) = lev H (Suc k) l ! j"
  using assms lev_pair [OF assms(2), of H] by (simp add: inner_ok_def bit_odd)

lemma node_step_branch:
  assumes c: "c div 2 ^ k = 2 * j + 1" and w: "2 * j + 1 < width (length l) k" and "k < 32" "inner_ok H l c inner"
    and ok: "node_ok H l pos c k (2 * j + 2) ml matchh branch"
    and upd: "(branch', matchh') =
      (if matchh then (branch @ [inner ! k], matchh)
       else if ml = int k then (branch @ [lev H k l ! (2 * j + 1)], True) else (branch, matchh))"
  shows "node_ok H l pos c (Suc k) (Suc j) ml matchh' branch'"
proof -
  have inner: "inner ! k = lev H k l ! (2 * j)"
    using assms(3,4) c by (simp add: inner_ok_def bit_odd)
  have half: "pos div 2 ^ Suc k = j \<longleftrightarrow> pos div 2 ^ k = 2 * j \<or> pos div 2 ^ k = 2 * j + 1"
    unfolding div_Suc_power by auto
  have snoc: "branch_to H l pos (Suc k) = branch_to H l pos k @ [sibling H l pos k]"
    by (simp add: branch_to_def)
  show ?thesis
  proof (cases matchh)
    case True
    then have "pos div 2 ^ k = 2 * j + 1" "branch = branch_to H l pos k"
      using ok by (simp_all add: node_ok_def)
    then show ?thesis
      using True upd inner half by (simp add: node_ok_def snoc sibling_def)
  next
    case nm: False
    then have ne: "pos div 2 ^ k \<noteq> 2 * j + 1" and br: "branch_ok H l pos c ml branch"
      using ok by (simp_all add: node_ok_def)
    show ?thesis
    proof (cases "ml = int k")
      case True
      then have "holds_leaf c pos k" "branch = branch_to H l pos k"
        using br by (auto simp: branch_ok_def split: if_splits)
      moreover from this(1) have "pos div 2 ^ k = 2 * j" using c by (simp add: holds_leaf_def)
      ultimately show ?thesis
        using True nm upd half w by (simp add: node_ok_def snoc sibling_def)
    next
      case False
      have "pos div 2 ^ k \<noteq> 2 * j"
      proof
        assume p: "pos div 2 ^ k = 2 * j"
        then have "holds_leaf c pos k" using c by (simp add: holds_leaf_def bit_odd)
        moreover have "pos < c"
          using p c by (metis add.commute div_le_mono less_add_one linorder_not_less plus_1_eq_Suc)
        ultimately show False
          using br False holds_leaf_unique by (auto simp: branch_ok_def)
      qed
      then show ?thesis
        using False nm upd half ne br by (simp add: node_ok_def)
    qed
  qed
qed

section \<open>The loops\<close>

lemma complete_width: "c \<le> n \<Longrightarrow> c div 2 ^ k \<le> width n k"
proof -
  assume "c \<le> n"
  moreover have "1 \<le> (2::nat) ^ k" by simp
  ultimately have "c \<le> n + 2 ^ k - 1" by linarith
  then show ?thesis unfolding width_def by (rule div_le_mono)
qed

lemma dvd_level:
  assumes "0 < count" "count < 2 ^ 32" "(2::nat) ^ k dvd count"
  shows "k < 32"
proof -
  have "(2::nat) ^ k \<le> count" using assms by (simp add: dvd_imp_le)
  then have "(2::nat) ^ k < 2 ^ 32" using assms(2) by (rule le_less_trans)
  then show ?thesis by (rule power_less_imp_less_exp [rotated]) simp
qed

lemma even_quotient:
  assumes "(2::nat) ^ k dvd count" "\<not> bit count k" "count = Suc c"
  obtains j where "count div 2 ^ k = 2 * j + 2" "c div 2 ^ k = 2 * j + 1" "2 ^ Suc k dvd count"
proof -
  obtain q where q: "count = 2 ^ k * q" using assms(1) by blast
  then have "count div 2 ^ k = q" by simp
  then have "even q" using assms(2) by (simp add: bit_odd)
  moreover have "0 < q" using q assms(3) by (cases q) auto
  ultimately obtain j where j: "q = 2 * j + 2" using that [of "q div 2 - 1"] by fastforce
  have "c = 2 ^ k * (2 * j + 1) + (2 ^ k - 1)"
    using q assms(3) unfolding j by (simp add: algebra_simps)
  then have "c div 2 ^ k = 2 * j + 1"
    using div_mult_self4 [of "2 ^ k" "2 * j + 1" "2 ^ k - 1"] by simp
  moreover have "2 ^ Suc k dvd count" unfolding q j by simp
  ultimately show ?thesis using that q j by simp
qed

text \<open>Nodes \<open>W - 2\<close> and \<open>W - 1\<close> of level \<open>k\<close> have the same hash.\<close>

definition twins :: "'h combine \<Rightarrow> 'h list \<Rightarrow> nat \<Rightarrow> nat \<Rightarrow> bool" where
  "twins H l k W \<longleftrightarrow> lev H k l ! (W - 2) = lev H k l ! (W - 1)"

lemma mc_combine_ok:
  assumes "mc_combine H pb count inner ml k h matchh branch mutated = (k', h', matchh', branch', mutated')"
    and "count = Suc c" "count \<le> length l" "count < 2 ^ 32" "2 ^ k dvd count" "inner_ok H l c inner"
    and "h = lev H k l ! (count div 2 ^ k - 1)"
    and "pb \<Longrightarrow> node_ok H l pos c k (count div 2 ^ k) ml matchh branch"
  shows "k' < 32 \<and> bit count k' \<and> 2 ^ k' dvd count \<and> h' = lev H k' l ! (count div 2 ^ k' - 1)
    \<and> (pb \<longrightarrow> node_ok H l pos c k' (count div 2 ^ k') ml matchh' branch')
    \<and> k \<le> k' \<and> (mutated' \<longleftrightarrow> mutated \<or> (\<exists>m. k \<le> m \<and> m < k' \<and> twins H l m (count div 2 ^ m)))"
  using assms
proof (induction H pb count inner ml k h matchh branch mutated rule: mc_combine.induct)
  case (1 H pb count inner ml k h matchh branch mutated)
  have k: "k < 32" using "1.prems" by (intro dvd_level [of count]) auto
  show ?case
  proof (cases "bit count k")
    case True
    with "1.prems" k show ?thesis by (subst (asm) mc_combine.simps) auto
  next
    case False
    obtain j where j: "count div 2 ^ k = 2 * j + 2" "c div 2 ^ k = 2 * j + 1" "2 ^ Suc k dvd count"
      using "1.prems"(5) False "1.prems"(2) by (rule even_quotient)
    have w: "2 * j + 1 < width (length l) k"
      using complete_width [OF "1.prems"(3), of k] j(1) by simp
    have q: "count div 2 ^ (k + 1) = Suc j"
      using j(1) div_Suc_power [of count k] by simp
    have h: "h = lev H k l ! (2 * j + 1)" using "1.prems"(7) j(1) by simp
    define bm where "bm = (if pb then (if matchh then (branch @ [inner ! k], matchh)
        else if ml = int k then (branch @ [h], True) else (branch, matchh)) else (branch, matchh))"
    obtain b2 m2 where bm: "bm = (b2, m2)" by (cases bm)
    then have upd: "pb \<Longrightarrow> (b2, m2) = (if matchh then (branch @ [inner ! k], matchh)
        else if ml = int k then (branch @ [lev H k l ! (2 * j + 1)], True) else (branch, matchh))"
      unfolding h [symmetric] by (simp add: bm_def)
    have node: "pb \<Longrightarrow> node_ok H l pos c (k + 1) (Suc j) ml m2 b2"
      using node_step_branch [OF j(2) w k "1.prems"(6) _ upd, of pos] "1.prems"(8) j(1) by simp
    have h': "H (inner ! k) h = lev H (k + 1) l ! (count div 2 ^ (k + 1) - 1)"
      using node_step [OF j(2) w k "1.prems"(6)] unfolding q by (simp add: h)
    have "mc_combine H pb count inner ml (k + 1) (H (inner ! k) h) m2 b2 (mutated \<or> inner ! k = h)
        = (k', h', matchh', branch', mutated')"
      using "1.prems"(1) k False by (subst (asm) mc_combine.simps) (simp add: bm_def [symmetric] bm)
    from "1.IH" [OF _ bm_def bm [symmetric] refl refl this "1.prems"(2-4) _ "1.prems"(6) h' node [folded q]]
    have r: "k' < 32 \<and> bit count k' \<and> 2 ^ k' dvd count \<and> h' = lev H k' l ! (count div 2 ^ k' - 1)
      \<and> (pb \<longrightarrow> node_ok H l pos c k' (count div 2 ^ k') ml matchh' branch') \<and> k + 1 \<le> k'
      \<and> (mutated' \<longleftrightarrow> (mutated \<or> inner ! k = h) \<or> (\<exists>m. k + 1 \<le> m \<and> m < k' \<and> twins H l m (count div 2 ^ m)))"
      using k False j(3) by simp
    have "inner ! k = h \<longleftrightarrow> twins H l k (count div 2 ^ k)"
      using "1.prems"(6) k j by (simp add: inner_ok_def bit_odd twins_def h)
    then have "mutated' \<longleftrightarrow> mutated \<or> (\<exists>m. k \<le> m \<and> m < k' \<and> twins H l m (count div 2 ^ m))"
      using r by (metis Suc_eq_plus1 Suc_leI Suc_leD le_neq_implies_less less_eq_Suc_le order_refl)
    with r show ?thesis by simp
  qed
qed

text \<open>The invariant of the main loop after \<open>c\<close> leaves.\<close>

definition has_twins :: "'h combine \<Rightarrow> 'h list \<Rightarrow> nat \<Rightarrow> bool" where
  "has_twins H l c \<longleftrightarrow> (\<exists>k j. 2 ^ k * (2 * j + 2) \<le> c \<and> twins H l k (2 * j + 2))"

definition state_ok :: "'h combine \<Rightarrow> 'h list \<Rightarrow> bool \<Rightarrow> nat \<Rightarrow> nat \<Rightarrow> 'h merkle_state \<Rightarrow> bool" where
  "state_ok H l pb pos c s \<longleftrightarrow>
     ms_count s = c \<and> inner_ok H l c (ms_inner s) \<and> (ms_mutated s \<longleftrightarrow> has_twins H l c)
     \<and> (pb \<longrightarrow> branch_ok H l pos c (ms_matchlevel s) (ms_branch s))"

lemma state_ok_start: "state_ok H l pb pos 0 (mc_start zero)"
  by (simp add: state_ok_def mc_start_def inner_ok_def branch_ok_def has_twins_def)

lemma bit_below:
  assumes "(2::nat) ^ k dvd x" "m < k"
  shows "\<not> bit x m"
proof -
  obtain q where "x = 2 ^ k * q" using assms(1) by blast
  then have "x = push_bit k q" by (simp add: push_bit_eq_mult mult.commute)
  then show ?thesis using assms(2) by (simp add: bit_push_bit_iff)
qed

lemma same_above:
  assumes "bit (Suc c) k" "k < m"
  shows "Suc c div 2 ^ m = c div 2 ^ m"
proof -
  have "\<not> 2 ^ m dvd Suc c"
    using bit_below [of m "Suc c" k] assms by blast
  then show ?thesis by (simp add: div_Suc dvd_eq_mod_eq_0)
qed

lemma inner_ok_update:
  assumes "inner_ok H l c inner" "2 ^ k dvd Suc c" "bit (Suc c) k" "k < 32"
    "h = lev H k l ! (Suc c div 2 ^ k - 1)"
  shows "inner_ok H l (Suc c) (inner[k := h])"
  unfolding inner_ok_def
proof (intro conjI allI impI)
  show "length (inner[k := h]) = 32" using assms(1) by (simp add: inner_ok_def)
  fix m assume m: "m < 32" "bit (Suc c) m"
  then have "k \<le> m" using bit_below [OF assms(2)] by (meson not_le)
  then consider "m = k" | "k < m" by linarith
  then show "inner[k := h] ! m = lev H m l ! (Suc c div 2 ^ m - 1)"
  proof cases
    case 1
    then show ?thesis using assms by (simp add: inner_ok_def)
  next
    case 2
    then have "Suc c div 2 ^ m = c div 2 ^ m" by (rule same_above [OF assms(3)])
    moreover from this have "bit c m" using m(2) by (simp add: bit_odd)
    ultimately show ?thesis using assms(1) m(1) 2 by (simp add: inner_ok_def)
  qed
qed

lemma branch_ok_update:
  assumes "node_ok H l pos c k (Suc c div 2 ^ k) ml matchh branch" "2 ^ k dvd Suc c" "bit (Suc c) k"
  shows "branch_ok H l pos (Suc c) (if matchh then int k else ml) branch"
proof (cases matchh)
  case True
  then have p: "pos div 2 ^ k = Suc c div 2 ^ k - 1" "branch = branch_to H l pos k"
    using assms(1) by (simp_all add: node_ok_def)
  have "0 < Suc c div 2 ^ k" using assms(3) by (auto simp: bit_odd intro!: Nat.gr0I)
  with p(1) have "pos div 2 ^ k < Suc c div 2 ^ k" by linarith
  then have "pos < Suc c" by (meson div_le_mono not_less)
  then show ?thesis using True p assms(3) by (auto simp: branch_ok_def holds_leaf_def)
next
  case False
  then have ne: "pos div 2 ^ k \<noteq> Suc c div 2 ^ k - 1" and br: "branch_ok H l pos c ml branch"
    using assms(1) by (simp_all add: node_ok_def)
  have c: "c div 2 ^ k = Suc c div 2 ^ k - 1"
    using assms(2) by (auto simp: div_Suc dvd_eq_mod_eq_0)
  show ?thesis
  proof (cases "pos < c")
    case True
    then obtain m where m: "ml = int m" "holds_leaf c pos m" "branch = branch_to H l pos m"
      using br by (auto simp: branch_ok_def)
    have "k < m"
    proof (rule ccontr)
      assume "\<not> k < m"
      then consider "m < k" | "m = k" by linarith
      then show False
      proof cases
        case 1
        then show False using holds_leaf_above [OF m(2)] ne c by simp
      next
        case 2
        then show False using m(2) c assms(3) by (auto simp: holds_leaf_def bit_odd)
      qed
    qed
    then have "Suc c div 2 ^ m = c div 2 ^ m" by (rule same_above [OF assms(3)])
    then have "holds_leaf (Suc c) pos m" using m(2) by (simp add: holds_leaf_def bit_odd)
    then show ?thesis using False True m by (auto simp: branch_ok_def)
  next
    case nl: False
    then have "pos \<noteq> c" using ne c by auto
    then show ?thesis using nl False br by (auto simp: branch_ok_def)
  qed
qed

lemma has_twins_Suc:
  assumes "2 ^ k dvd Suc c" "bit (Suc c) k"
  shows "has_twins H l (Suc c) \<longleftrightarrow> has_twins H l c \<or> (\<exists>m < k. twins H l m (Suc c div 2 ^ m))"
proof -
  have "(\<exists>m < k. twins H l m (Suc c div 2 ^ m)) \<longleftrightarrow> (\<exists>m j. 2 ^ m * (2 * j + 2) = Suc c \<and> twins H l m (2 * j + 2))"
  proof (intro iffI; elim exE conjE)
    fix m assume m: "m < k" "twins H l m (Suc c div 2 ^ m)"
    have "2 ^ Suc m dvd Suc c" using assms(1) m(1) by (meson Suc_leI dvd_trans le_imp_power_dvd)
    then obtain q where q: "Suc c = 2 ^ Suc m * q" by blast
    then obtain j where "q = Suc j" by (cases q) auto
    then have "2 ^ m * (2 * j + 2) = Suc c" using q by simp
    moreover from this have "Suc c div 2 ^ m = 2 * j + 2"
      by (metis nonzero_mult_div_cancel_left power_not_zero zero_neq_numeral)
    ultimately show "\<exists>m j. 2 ^ m * (2 * j + 2) = Suc c \<and> twins H l m (2 * j + 2)" using m(2) by metis
  next
    fix m j assume a: "2 ^ m * (2 * j + 2) = Suc c" "twins H l m (2 * j + 2)"
    then have "2 ^ Suc m * (j + 1) = Suc c" by simp
    then have "2 ^ Suc m dvd Suc c" by (metis dvd_triv_left)
    then have "m < k" using bit_below [of "Suc m" "Suc c" k] assms(2) by (meson less_Suc_eq_le not_le)
    moreover have "Suc c div 2 ^ m = 2 * j + 2"
      using a(1) by (metis nonzero_mult_div_cancel_left power_not_zero zero_neq_numeral)
    ultimately show "\<exists>m < k. twins H l m (Suc c div 2 ^ m)" using a(2) by metis
  qed
  then show ?thesis unfolding has_twins_def le_Suc_eq by blast
qed

lemma mc_leaf_ok:
  assumes "state_ok H l pb pos c s" "c < length l" "length l < 2 ^ 32"
  shows "state_ok H l pb pos (Suc c) (mc_leaf H pb pos s (l ! c))"
proof -
  obtain k h matchh branch mutated where run:
    "mc_combine H pb (Suc c) (ms_inner s) (ms_matchlevel s) 0 (l ! c) (c = pos) (ms_branch s) (ms_mutated s)
      = (k, h, matchh, branch, mutated)"
    by (metis prod_cases5)
  have "pb \<Longrightarrow> node_ok H l pos c 0 (Suc c div 2 ^ 0) (ms_matchlevel s) (c = pos) (ms_branch s)"
    using assms(1) by (auto simp: state_ok_def node_ok_def branch_ok_def branch_to_def)
  then have r: "k < 32" "bit (Suc c) k" "2 ^ k dvd Suc c" "h = lev H k l ! (Suc c div 2 ^ k - 1)"
    "pb \<Longrightarrow> node_ok H l pos c k (Suc c div 2 ^ k) (ms_matchlevel s) matchh branch"
    "mutated \<longleftrightarrow> has_twins H l c \<or> (\<exists>m < k. twins H l m (Suc c div 2 ^ m))"
    using mc_combine_ok [OF run, of c l pos] assms by (simp_all add: state_ok_def)
  have "inner_ok H l (Suc c) ((ms_inner s)[k := h])"
    using assms(1) r by (intro inner_ok_update) (simp_all add: state_ok_def)
  moreover have "pb \<Longrightarrow> branch_ok H l pos (Suc c) (if matchh then int k else ms_matchlevel s) branch"
    using r by (intro branch_ok_update) simp_all
  moreover have "ms_count s = c" using assms(1) by (simp add: state_ok_def)
  ultimately show ?thesis
    using run r(6) has_twins_Suc [OF r(3,2), of H l] by (simp add: state_ok_def mc_leaf_def Let_def)
qed

lemma leaves_ok:
  assumes "length l < 2 ^ 32"
  shows "state_ok H l pb pos (length l) (foldl (mc_leaf H pb pos) (mc_start zero) l)"
proof -
  have "c \<le> length l \<Longrightarrow> state_ok H l pb pos c (foldl (mc_leaf H pb pos) (mc_start zero) (take c l))" for c
  proof (induction c)
    case 0
    show ?case by (simp add: state_ok_start)
  next
    case (Suc c)
    then show ?case using mc_leaf_ok [of H l pb pos c] assms by (simp add: take_Suc_conv_app_nth)
  qed
  from this [of "length l"] show ?thesis by simp
qed

section \<open>The final sweep\<close>

lemma mc_lowest_ok:
  "0 < n \<Longrightarrow> n < 2 ^ 32 \<Longrightarrow> 2 ^ k dvd n \<Longrightarrow> k' = mc_lowest n k \<Longrightarrow> k' < 32 \<and> bit n k' \<and> 2 ^ k' dvd n"
proof (induction n k rule: mc_lowest.induct)
  case (1 n k)
  have k: "k < 32" using "1.prems" by (intro dvd_level [of n]) simp_all
  show ?case
  proof (cases "bit n k")
    case True
    with "1.prems" k show ?thesis by (subst (asm) mc_lowest.simps) simp
  next
    case False
    obtain c where "n = Suc c" using "1.prems"(1) by (cases n) auto
    then have "2 ^ (k + 1) dvd n"
      using even_quotient [OF "1.prems"(3) False] by auto
    moreover have "k' = mc_lowest n (k + 1)"
      using "1.prems"(4) k False by (subst (asm) mc_lowest.simps) simp
    ultimately show ?thesis using "1.IH" "1.prems"(1,2) k False by blast
  qed
qed

lemma width_two: "2 \<le> width n k \<Longrightarrow> 2 ^ k < n"
proof -
  assume "2 \<le> width n k"
  then have "2 ^ k * 2 \<le> 2 ^ k * width n k" by (rule mult_le_mono2)
  then show ?thesis using width_round(2) [of k n] by linarith
qed

lemma bit_width: "count = 2 ^ k * width n k \<Longrightarrow> bit count k \<longleftrightarrow> odd (width n k)"
  by (simp add: bit_odd)

text \<open>
  The sweep works as if the last level had been filled up: at level \<open>k\<close> the counter is
  \<open>2 ^ k * width n k\<close>, and \<open>h\<close> the last node.
\<close>

definition sweep_ok :: "'h combine \<Rightarrow> 'h list \<Rightarrow> bool \<Rightarrow> nat \<Rightarrow> nat \<Rightarrow> nat \<Rightarrow> int \<Rightarrow> 'h \<Rightarrow> bool \<Rightarrow> 'h list \<Rightarrow> bool" where
  "sweep_ok H l pb pos count k ml h matchh branch \<longleftrightarrow>
     count = 2 ^ k * width (length l) k \<and> h = lev H k l ! (width (length l) k - 1)
     \<and> (\<forall>j < k. width (length l) j \<noteq> 1)
     \<and> (pb \<longrightarrow> node_ok H l pos (length l) k (width (length l) k) ml matchh branch)"

lemma mc_up_ok:
  assumes "mc_up H pb count inner ml k h matchh branch = (k', h', matchh', branch')"
    and "sweep_ok H l pb pos count k ml h matchh branch" "inner_ok H l (length l) inner"
    and "0 < length l" "length l \<le> 2 ^ 31" "length l < count"
  shows "odd (width (length l) k') \<and> sweep_ok H l pb pos count k' ml h' matchh' branch'"
  using assms
proof (induction H pb count inner ml k h matchh branch rule: mc_up.induct)
  case (1 H pb count inner ml k h matchh branch)
  let ?n = "length l"
  have cnt: "count = 2 ^ k * width ?n k" using "1.prems"(2) by (simp add: sweep_ok_def)
  show ?case
  proof (cases "odd (width ?n k)")
    case True
    then have "bit count k" using bit_width [OF cnt] by simp
    with "1.prems"(1) have "k' = k" "h' = h" "matchh' = matchh" "branch' = branch"
      by (subst (asm) mc_up.simps; simp)+
    with "1.prems"(2) True show ?thesis by simp
  next
    case False
    then obtain j where j: "width ?n k = 2 * j + 2"
      using width_pos [OF "1.prems"(4), of k] by (metis evenE add.commute less_not_refl2 mult_0_right mult_Suc_right not0_implies_Suc)
    have "2 ^ k < ?n" using width_two [of ?n k] j by simp
    then have "(2::nat) ^ k < 2 ^ 31" using "1.prems"(5) by (rule less_le_trans)
    then have "k < 31" by (rule power_less_imp_less_exp [rotated]) simp
    then have k: "k < 32" by simp
    have c: "?n div 2 ^ k = 2 * j + 1"
      using "1.prems"(6) width_round(2) [of k ?n] unfolding cnt j
      by (intro div_nat_eqI) (simp_all add: algebra_simps)
    have w: "2 * j + 1 < width ?n k" and wS: "width ?n (k + 1) = Suc j" using j by (simp_all add: width_Suc)
    have h: "h = lev H k l ! (2 * j + 1)" using "1.prems"(2) j by (simp add: sweep_ok_def)
    define bm where "bm = (if pb then (if matchh then (branch @ [inner ! k], matchh)
        else if ml = int k then (branch @ [h], True) else (branch, matchh)) else (branch, matchh))"
    obtain b2 m2 where bm: "bm = (b2, m2)" by (cases bm)
    then have upd: "pb \<Longrightarrow> (b2, m2) = (if matchh then (branch @ [inner ! k], matchh)
        else if ml = int k then (branch @ [lev H k l ! (2 * j + 1)], True) else (branch, matchh))"
      unfolding h [symmetric] by (simp add: bm_def)
    have node: "pb \<Longrightarrow> node_ok H l pos ?n (k + 1) (Suc j) ml m2 b2"
      using node_step_branch [OF c w k "1.prems"(3) _ upd, of pos] "1.prems"(2) j by (simp add: sweep_ok_def)
    have run: "mc_up H pb count inner ml (k + 1) (H (inner ! k) h) m2 b2 = (k', h', matchh', branch')"
      using "1.prems"(1) k False bit_width [OF cnt]
      by (subst (asm) mc_up.simps) (simp add: bm_def [symmetric] bm)
    have "sweep_ok H l pb pos count (k + 1) ml (H (inner ! k) h) m2 b2"
      using node node_step [OF c w k "1.prems"(3)] cnt j wS "1.prems"(2) h
      by (auto simp: sweep_ok_def less_Suc_eq)
    from "1.IH" [OF _ bm_def bm [symmetric] run this "1.prems"(3-6)] show ?thesis
      using k False bit_width [OF cnt] by simp
  qed
qed

lemma sweep_double:
  assumes ok: "sweep_ok H l pb pos count k ml h matchh branch" and w: "width (length l) k = 2 * j + 1" "j \<noteq> 0"
    and pos: "pb \<Longrightarrow> pos < length l"
  shows "sweep_ok H l pb pos (count + 2 ^ k) (k + 1) ml (H h h) matchh (if pb \<and> matchh then branch @ [h] else branch)"
proof -
  let ?n = "length l"
  have h: "h = lev H k l ! (2 * j)" and cnt: "count = 2 ^ k * (2 * j + 1)"
    using ok w by (simp_all add: sweep_ok_def)
  have wS: "width ?n (k + 1) = Suc j" using w by (simp add: width_Suc)
  have "H h h = lev H (k + 1) l ! j"
    using lev_odd [of j l k H] w by (simp add: h)
  moreover have "node_ok H l pos ?n (k + 1) (Suc j) ml matchh (if pb \<and> matchh then branch @ [h] else branch)" if pb
  proof -
    have node: "node_ok H l pos ?n k (2 * j + 1) ml matchh branch" using ok w that by (simp add: sweep_ok_def)
    have "pos div 2 ^ k < 2 * j + 1"
    proof -
      have "pos < 2 ^ k * (2 * j + 1)" using pos [OF that] width_round(1) [of ?n k] w(1) by simp
      then show ?thesis by (simp add: div_less_iff_less_mult mult.commute)
    qed
    then have "pos div 2 ^ Suc k = j \<longleftrightarrow> pos div 2 ^ k = 2 * j"
      unfolding div_Suc_power by auto
    moreover have "sibling H l pos k = h" if "pos div 2 ^ k = 2 * j"
      using that w by (simp add: sibling_def h)
    ultimately show ?thesis
      using node that by (auto simp: node_ok_def branch_to_def)
  qed
  moreover have "width ?n i \<noteq> 1" if "i < k + 1" for i
    using that ok w by (auto simp: sweep_ok_def less_Suc_eq)
  ultimately show ?thesis
    unfolding sweep_ok_def wS by (auto simp: cnt algebra_simps)
qed

lemma mc_sweep_ok:
  assumes "mc_sweep H pb inner ml count k h matchh branch = (h', branch')"
    and "sweep_ok H l pb pos count k ml h matchh branch" "odd (width (length l) k)"
    and "inner_ok H l (length l) inner" "0 < length l" "length l \<le> 2 ^ 31" "pb \<Longrightarrow> pos < length l"
  shows "\<exists>K. width (length l) K = 1 \<and> (\<forall>j < K. width (length l) j \<noteq> 1) \<and> h' = lev H K l ! 0
    \<and> (pb \<longrightarrow> branch' = branch_to H l pos K)"
  using assms
proof (induction H pb inner ml count k h matchh branch rule: mc_sweep.induct)
  case (1 H pb inner ml count k h matchh branch)
  let ?n = "length l"
  have cnt: "count = 2 ^ k * width ?n k" using "1.prems"(2) by (simp add: sweep_ok_def)
  obtain j where j: "width ?n k = 2 * j + 1" using "1.prems"(3) by (rule oddE)
  show ?case
  proof (cases "j = 0")
    case True
    then have "h' = h" "branch' = branch"
      using "1.prems"(1) cnt j by (subst (asm) mc_sweep.simps; simp)+
    moreover have "pos div 2 ^ k = 0" if pb
      using "1.prems"(7) [OF that] width_round(1) [of ?n k] j True by simp
    ultimately show ?thesis
      using "1.prems"(2) j True by (intro exI [of _ k]) (auto simp: sweep_ok_def node_ok_def split: if_splits)
  next
    case False
    define br where "br = (if pb \<and> matchh then branch @ [h] else branch)"
    have "2 ^ k < ?n" using width_two [of ?n k] j False by simp
    then have "(2::nat) ^ k < 2 ^ 31" using "1.prems"(6) by (rule less_le_trans)
    then have "k < 31" by (rule power_less_imp_less_exp [rotated]) simp
    then have guard: "k < 32 \<and> count \<noteq> 2 ^ k" using cnt j False by simp
    obtain k2 h2 m2 b2 where up: "mc_up H pb (count + 2 ^ k) inner ml (k + 1) (H h h) matchh br = (k2, h2, m2, b2)"
      by (metis prod_cases4)
    have "?n < count + 2 ^ k" using width_round(1) [of ?n k] unfolding cnt by (rule le_less_trans) simp
    moreover have "sweep_ok H l pb pos (count + 2 ^ k) (k + 1) ml (H h h) matchh br"
      unfolding br_def by (rule sweep_double [OF "1.prems"(2) j False "1.prems"(7)])
    ultimately have ok: "odd (width ?n k2)" "sweep_ok H l pb pos (count + 2 ^ k) k2 ml h2 m2 b2"
      using mc_up_ok [OF up] "1.prems"(4-6) by auto
    have "mc_sweep H pb inner ml (count + 2 ^ k) k2 h2 m2 b2 = (h', branch')"
      using "1.prems"(1) guard up by (subst (asm) mc_sweep.simps) (simp add: br_def [symmetric])
    from "1.IH" [OF guard br_def refl refl up [symmetric] refl refl this ok(2,1) "1.prems"(4-7)]
    show ?thesis .
  qed
qed

lemma width_dvd: "2 ^ k dvd n \<Longrightarrow> width n k = n div 2 ^ k"
proof -
  assume "2 ^ k dvd n"
  then obtain q where q: "n = 2 ^ k * q" by blast
  have "(2 ^ k * q + (2 ^ k - 1)) div 2 ^ k = q + (2 ^ k - 1) div (2::nat) ^ k"
    by (rule div_mult_self4) simp
  then show ?thesis by (simp add: width_def q)
qed

lemma sweep_start:
  assumes s: "state_ok H l pb pos (length l) s" and k: "2 ^ k dvd length l" "bit (length l) k" "k < 32"
    and pos: "pb \<Longrightarrow> pos < length l"
  shows "sweep_ok H l pb pos (length l) k (ms_matchlevel s) (ms_inner s ! k) (ms_matchlevel s = int k) (ms_branch s)"
proof -
  let ?n = "length l"
  have w: "width ?n k = ?n div 2 ^ k" using k(1) by (rule width_dvd)
  have "width ?n j \<noteq> 1" if "j < k" for j
  proof -
    have "2 ^ j dvd ?n" using k(1) that by (meson dvd_trans le_imp_power_dvd less_imp_le)
    moreover have "even (?n div 2 ^ j)" using bit_below [OF k(1) that] by (simp add: bit_odd)
    ultimately show ?thesis by (auto simp: width_dvd)
  qed
  moreover have "node_ok H l pos ?n k (?n div 2 ^ k) (ms_matchlevel s) (ms_matchlevel s = int k) (ms_branch s)" if pb: pb
  proof -
    obtain m where "ms_matchlevel s = int m" "holds_leaf ?n pos m" "ms_branch s = branch_to H l pos m"
      using s pos [OF pb] pb by (auto simp: state_ok_def branch_ok_def)
    moreover have "pos div 2 ^ k = ?n div 2 ^ k - 1 \<Longrightarrow> holds_leaf ?n pos k"
      using k(2) by (simp add: holds_leaf_def)
    ultimately show ?thesis
      using s pos [OF pb] pb holds_leaf_unique [of ?n pos m k]
      by (auto simp: node_ok_def holds_leaf_def state_ok_def branch_ok_def)
  qed
  ultimately show ?thesis
    using s k w by (auto simp: sweep_ok_def state_ok_def inner_ok_def)
qed

lemma MerkleComputation_ok:
  assumes "0 < length l" "length l \<le> 2 ^ 31" "case bp of Some p \<Rightarrow> p < length l | None \<Rightarrow> True"
    and "MerkleComputation H zero l bp = (root, mutated, branch)"
  shows "\<exists>K. width (length l) K = 1 \<and> root = merkle_root H zero l \<and> root = lev H K l ! 0
    \<and> (mutated \<longleftrightarrow> has_twins H l (length l))
    \<and> (\<forall>p. bp = Some p \<longrightarrow> branch = branch_to H l p K)"
proof -
  define pb pos where "pb = (bp \<noteq> None)" and "pos = (case bp of Some p \<Rightarrow> p | None \<Rightarrow> 2 ^ 32 - 1)"
  define s where "s = foldl (mc_leaf H pb pos) (mc_start zero) l"
  have "length l < 2 ^ 32" using assms(2) by simp
  then have st: "state_ok H l pb pos (length l) s" unfolding s_def by (rule leaves_ok)
  define k where "k = mc_lowest (length l) 0"
  have k: "k < 32" "bit (length l) k" "2 ^ k dvd length l"
    using mc_lowest_ok [OF assms(1) \<open>length l < 2 ^ 32\<close> _ k_def] by simp_all
  have pos: "pb \<Longrightarrow> pos < length l" using assms(3) by (auto simp: pb_def pos_def)
  have n: "ms_count s = length l" using st by (simp add: state_ok_def)
  obtain h' b' where sw: "mc_sweep H pb (ms_inner s) (ms_matchlevel s) (length l) k (ms_inner s ! k)
      (ms_matchlevel s = int k) (ms_branch s) = (h', b')" by fastforce
  have "odd (width (length l) k)" using k by (simp add: width_dvd bit_odd)
  then obtain K where K: "width (length l) K = 1" "\<forall>j < K. width (length l) j \<noteq> 1" "h' = lev H K l ! 0"
    "pb \<longrightarrow> b' = branch_to H l pos K"
    using mc_sweep_ok [OF sw sweep_start [OF st k(3,2,1) pos] _ _ assms(1,2) pos] st
    by (auto simp: state_ok_def)
  have "MerkleComputation H zero l bp = (h', ms_mutated s, b')"
    using assms(1) unfolding MerkleComputation_def Let_def pb_def [symmetric] pos_def [symmetric]
      s_def [symmetric] n k_def [symmetric] sw by simp
  then have "root = h'" "branch = b'" "mutated \<longleftrightarrow> has_twins H l (length l)"
    using assms(4) st by (simp_all add: state_ok_def)
  then show ?thesis
    using K merkle_root_lev [OF assms(1) K(1,2), of H zero] by (auto simp: pb_def pos_def)
qed

lemma FromBranch_levels:
  assumes "pos < length l" "i \<le> k"
  shows "ComputeMerkleRootFromBranch H (lev H i l ! (pos div 2 ^ i)) (map (sibling H l pos) [i..<k]) (pos div 2 ^ i)
    = lev H k l ! (pos div 2 ^ k)"
  using assms(2)
proof (induction "k - i" arbitrary: i)
  case 0
  then show ?case by simp
next
  case (Suc d)
  then have ik: "i < k" by simp
  let ?j = "pos div 2 ^ i" and ?n = "length l"
  have "pos < 2 ^ i * width ?n i" using assms(1) width_round(1) [of ?n i] by (rule less_le_trans)
  then have w: "?j < width ?n i" by (simp add: div_less_iff_less_mult mult.commute)
  have "(if odd ?j then H (sibling H l pos i) (lev H i l ! ?j) else H (lev H i l ! ?j) (sibling H l pos i))
      = lev H (Suc i) l ! (?j div 2)"
  proof (cases "odd ?j")
    case True
    then obtain q where "?j = 2 * q + 1" by (rule oddE)
    then show ?thesis using lev_pair [of q l i H] w by (simp add: sibling_def)
  next
    case False
    then obtain q where q: "?j = 2 * q" by blast
    show ?thesis
    proof (cases "?j + 1 < width ?n i")
      case True
      then show ?thesis using lev_pair [of q l i H] q by (simp add: sibling_def)
    next
      case False
      then show ?thesis using lev_odd [of q l i H] q w by (simp add: sibling_def)
    qed
  qed
  then show ?case
    using Suc.hyps(1) [of "Suc i", unfolded div_Suc_power] Suc.hyps(2) ik by (simp add: upt_conv_Cons)
qed

section \<open>Duplicated subtrees\<close>

lemma merkle_level_append:
  "even (length xs) \<Longrightarrow> merkle_level H (xs @ ys) = merkle_level H xs @ merkle_level H ys"
  by (induction H xs rule: merkle_level.induct) simp_all

lemma lev_append:
  "2 ^ k dvd length xs \<Longrightarrow> lev H k (xs @ ys) = lev H k xs @ lev H k ys"
proof (induction k)
  case (Suc k)
  then obtain q where q: "length xs = 2 ^ Suc k * q" by blast
  then have "width (length xs) k = 2 * q" "2 ^ k dvd length xs"
    by (simp_all add: width_dvd)
  with Suc.IH show ?case by (simp add: lev_Suc merkle_level_append)
qed simp

lemma width_antimono: "i \<le> k \<Longrightarrow> width n k \<le> width n i"
proof (induction k)
  case (Suc k)
  have "width n (Suc k) \<le> width n k"
    by (cases "width n k") (simp_all add: width_Suc)
  with Suc show ?case by (cases "i = Suc k") auto
qed simp

lemma merkle_root_skip:
  "0 < length l \<Longrightarrow> \<forall>i < m. width (length l) i \<noteq> 1 \<Longrightarrow> merkle_root H zero l = merkle_root H zero (lev H m l)"
proof (induction m)
  case (Suc m)
  have "length (lev H m l) \<noteq> 1" "lev H m l \<noteq> []"
    using Suc.prems width_pos [of "length l" m] by (auto simp flip: length_greater_0_conv)
  then have "merkle_root H zero (lev H m l) = merkle_root H zero (lev H (Suc m) l)"
    by (subst merkle_root.simps) (auto simp: lev_Suc)
  with Suc show ?case by simp
qed simp

lemma merkle_root_via:
  assumes "2 \<le> width (length l) k"
  shows "merkle_root H zero l = merkle_root H zero (lev H (Suc k) l)"
proof (rule merkle_root_skip)
  show "0 < length l" using assms by (cases "length l") (auto simp: width_def)
  show "\<forall>i < Suc k. width (length l) i \<noteq> 1"
    using width_antimono [of _ k "length l"] assms by (auto simp: less_Suc_eq_le) (metis Suc_n_not_le_n numeral_2_eq_2 order_trans)
qed

lemma duplicate_levels:
  assumes "length l = 2 ^ k * (2 * j + 1)"
  obtains A x where "lev H k l = A @ [x]" "lev H k (l @ drop (2 ^ k * (2 * j)) l) = A @ [x, x]" "length A = 2 * j"
proof -
  define a b where "a = take (2 ^ k * (2 * j)) l" and "b = drop (2 ^ k * (2 * j)) l"
  have l: "l = a @ b" and la: "length a = 2 ^ k * (2 * j)" and lb: "length b = 2 ^ k"
    using assms by (simp_all add: a_def b_def)
  have "length (lev H k b) = 1" by (simp add: lb width_dvd)
  then obtain x where x: "lev H k b = [x]" by (metis One_nat_def length_0_conv length_Suc_conv)
  have "lev H k l = lev H k a @ [x]" using lev_append [of k a H b] la x by (simp add: l)
  moreover have "lev H k (l @ b) = lev H k l @ [x]" using lev_append [of k l H b] assms x by simp
  moreover have "length (lev H k a) = 2 * j" by (simp add: la width_dvd)
  ultimately show ?thesis using that by (simp add: b_def)
qed

lemma duplicate_root:
  assumes "length l = 2 ^ k * (2 * j + 1)" "0 < j"
  shows "merkle_root H zero (l @ drop (2 ^ k * (2 * j)) l) = merkle_root H zero l"
    and "has_twins H (l @ drop (2 ^ k * (2 * j)) l) (length (l @ drop (2 ^ k * (2 * j)) l))"
proof -
  let ?d = "l @ drop (2 ^ k * (2 * j)) l"
  obtain A x where L: "lev H k l = A @ [x]" "lev H k ?d = A @ [x, x]" "length A = 2 * j"
    using assms(1) by (rule duplicate_levels)
  have d: "length ?d = 2 ^ k * (2 * j + 2)" using assms(1) by (simp add: algebra_simps)
  have "lev H (Suc k) ?d = lev H (Suc k) l"
    using L by (simp add: lev_Suc merkle_level_append)
  moreover have "2 \<le> width (length l) k" "2 \<le> width (length ?d) k"
    unfolding d assms(1) using assms(2) by (simp_all only: width_dvd dvd_triv_left) simp_all
  ultimately show "merkle_root H zero ?d = merkle_root H zero l"
    by (simp only: merkle_root_via [of _ k])
  show "has_twins H ?d (length ?d)"
    unfolding has_twins_def d using L by (intro exI [of _ k] exI [of _ j]) (simp add: twins_def nth_append)
qed

section \<open>Properties\<close>

text \<open>
  C15: \<open>ComputeMerkleRoot\<close>, which keeps one hash per level, returns the root of the tree built
  level by level, where the last node of an odd level is paired with itself, for every list of
  up to \<open>2 ^ 31\<close> leaves.
\<close>

theorem ComputeMerkleRoot_correct:
  assumes "length leaves \<le> 2 ^ 31"
  shows "fst (ComputeMerkleRoot H zero leaves) = merkle_root H zero leaves"
proof (cases "leaves = []")
  case True
  then show ?thesis
    by (simp add: ComputeMerkleRoot_def MerkleComputation_def merkle_root.simps)
next
  case False
  obtain root mutated branch where r: "MerkleComputation H zero leaves None = (root, mutated, branch)"
    by (metis prod_cases3)
  with False assms MerkleComputation_ok [of leaves None H zero] show ?thesis
    by (auto simp: ComputeMerkleRoot_def)
qed

theorem ComputeMerkleRoot_correct_witness:
  "fst (ComputeMerkleRoot (\<lambda>a b. 2 * a + b + 1) (0::nat) [3, 1, 4, 1, 5]) =
   merkle_root (\<lambda>a b. 2 * a + b + 1) 0 [3, 1, 4, 1, 5]"
  using ComputeMerkleRoot_correct [of "[3, 1, 4, 1, 5]" "\<lambda>a b. 2 * a + b + 1" "0::nat"] by simp

text \<open>
  the branch that \<open>ComputeMerkleBranch\<close> returns for any leaf proves its place: folding it
  into the leaf with \<open>ComputeMerkleRootFromBranch\<close> gives the root of \<open>ComputeMerkleRoot\<close>.
\<close>

theorem ComputeMerkleBranch_correct:
  assumes "position < length leaves" "length leaves \<le> 2 ^ 31"
  shows "ComputeMerkleRootFromBranch H (leaves ! position) (ComputeMerkleBranch H zero leaves position) position
    = fst (ComputeMerkleRoot H zero leaves)"
proof -
  have pos: "0 < length leaves" using assms(1) by linarith
  obtain root mutated branch where b: "MerkleComputation H zero leaves (Some position) = (root, mutated, branch)"
    by (metis prod_cases3)
  obtain root' mutated' branch' where r: "MerkleComputation H zero leaves None = (root', mutated', branch')"
    by (metis prod_cases3)
  obtain K where K: "width (length leaves) K = 1" "root = merkle_root H zero leaves" "root = lev H K leaves ! 0"
    "branch = branch_to H leaves position K"
    using MerkleComputation_ok [OF pos assms(2) _ b] assms(1) by auto
  have "root' = root"
    using MerkleComputation_ok [OF pos assms(2) _ r] K(2) by auto
  moreover have "position div 2 ^ K = 0"
    using assms(1) width_round(1) [of "length leaves" K] K(1) by simp
  ultimately show ?thesis
    using FromBranch_levels [OF assms(1), of 0 K H] K b r
    by (simp add: ComputeMerkleBranch_def ComputeMerkleRoot_def branch_to_def)
qed

theorem ComputeMerkleBranch_correct_witness:
  "ComputeMerkleRootFromBranch (\<lambda>a b. 2 * a + b + 1) ([3, 1, 4, 1, 5] ! 4)
     (ComputeMerkleBranch (\<lambda>a b. 2 * a + b + 1) (0::nat) [3, 1, 4, 1, 5] 4) 4
   = fst (ComputeMerkleRoot (\<lambda>a b. 2 * a + b + 1) 0 [3, 1, 4, 1, 5])"
  using ComputeMerkleBranch_correct [of 4 "[3, 1, 4, 1, 5]" "\<lambda>a b. 2 * a + b + 1" "0::nat"] by simp

text \<open>
  the \<open>mutated\<close> flag is exact: it is set if and only if somewhere in the tree two complete
  sibling subtrees have the same hash.
\<close>

theorem ComputeMerkleRoot_mutated:
  assumes "length leaves \<le> 2 ^ 31"
  shows "snd (ComputeMerkleRoot H zero leaves) \<longleftrightarrow>
    (\<exists>k j. 2 ^ k * (2 * j + 2) \<le> length leaves \<and> lev H k leaves ! (2 * j) = lev H k leaves ! (2 * j + 1))"
proof (cases "leaves = []")
  case True
  then show ?thesis by (simp add: ComputeMerkleRoot_def MerkleComputation_def)
next
  case False
  obtain root mutated branch where "MerkleComputation H zero leaves None = (root, mutated, branch)"
    by (metis prod_cases3)
  with False assms MerkleComputation_ok [of leaves None H zero] show ?thesis
    by (auto simp: ComputeMerkleRoot_def has_twins_def twins_def)
qed

theorem ComputeMerkleRoot_mutated_witness:
  "snd (ComputeMerkleRoot (\<lambda>a b. 2 * a + b + 1) (0::nat) [3, 1, 4, 4])"
proof -
  let ?H = "\<lambda>a b. 2 * a + b + 1 :: nat" and ?l = "[3, 1, 4, 4]"
  have "2 ^ 0 * (2 * 1 + 2) \<le> length ?l \<and> lev ?H 0 ?l ! (2 * 1) = lev ?H 0 ?l ! (2 * 1 + 1)" by simp
  then have "\<exists>k j. 2 ^ k * (2 * j + 2) \<le> length ?l \<and> lev ?H k ?l ! (2 * j) = lev ?H k ?l ! (2 * j + 1)"
    by blast
  moreover have "length ?l \<le> 2 ^ 31" by simp
  ultimately show ?thesis using ComputeMerkleRoot_mutated [of ?l ?H 0] by blast
qed

text \<open>
  CVE-2012-2459 is caught.  Appending a copy of the last subtree of an odd level leaves the
  Merkle root unchanged, and the flag is set for the longer list.
\<close>

theorem duplicate_leaves_flagged:
  assumes "length leaves = 2 ^ k * (2 * j + 1)" "0 < j" "2 ^ k * (2 * j + 2) \<le> 2 ^ 31"
  shows "ComputeMerkleRoot H zero (leaves @ drop (2 ^ k * (2 * j)) leaves)
    = (fst (ComputeMerkleRoot H zero leaves), True)"
proof -
  let ?d = "leaves @ drop (2 ^ k * (2 * j)) leaves"
  have len: "length ?d \<le> 2 ^ 31" "length leaves \<le> 2 ^ 31" "0 < length ?d" "0 < length leaves"
    using assms by (simp_all add: algebra_simps)
  obtain root mutated branch where d: "MerkleComputation H zero ?d None = (root, mutated, branch)"
    by (metis prod_cases3)
  obtain root' mutated' branch' where l: "MerkleComputation H zero leaves None = (root', mutated', branch')"
    by (metis prod_cases3)
  have "root = merkle_root H zero ?d" "mutated \<longleftrightarrow> has_twins H ?d (length ?d)"
    using MerkleComputation_ok [OF len(3,1) _ d] by auto
  moreover have "root' = merkle_root H zero leaves"
    using MerkleComputation_ok [OF len(4,2) _ l] by auto
  ultimately show ?thesis
    using duplicate_root [OF assms(1,2), of H] by (simp add: ComputeMerkleRoot_def d l)
qed

theorem duplicate_leaves_flagged_witness:
  "ComputeMerkleRoot (\<lambda>a b. 2 * a + b + 1) (0::nat) [1, 2, 3, 4, 5, 6, 5, 6]
   = (fst (ComputeMerkleRoot (\<lambda>a b. 2 * a + b + 1) 0 [1, 2, 3, 4, 5, 6]), True)"
  using duplicate_leaves_flagged [of "[1, 2, 3, 4, 5, 6]" 1 1 "\<lambda>a b. 2 * a + b + 1" "0::nat"] by simp

end
