(* ===== verification/Serialize.thy ===== *)
theory Serialize
  imports Prelude "HOL-Library.List_Lexorder"
begin

unbundle bit_operations_syntax

text \<open>
  The wire format of \<^verbatim>\<open>src/src/serialize.h\<close>: integers, booleans, \<open>CompactSize\<close>, variable-length
  integers, strings, vectors, pairs, sets and maps, each with the function that writes it, the
  one that reads it and the one that computes its size.

  A stream being read is the list of its unread bytes.  A reader returns the value and the bytes
  left, or the exception it throws: \<open>CDataStream::read\<close> throws at the end of the data, the
  readers of \<open>CompactSize\<close> and of limited strings throw on their own account.  What a writer and
  its reader promise each other is the locale \<open>codec\<close>; \<open>canonical_codec\<close> adds that nothing else
  is read as the same value.
\<close>

datatype ser_error =
  End_of_data | Non_canonical | Size_too_large | String_limit | Negative_size | Assertion_failed

type_synonym 'a read_result = "ser_error + 'a \<times> bytes"
type_synonym 'a reader = "bytes \<Rightarrow> ser_error + 'a \<times> bytes"

definition MAX_SIZE :: u64 where
  "MAX_SIZE = 0x02000000"

section \<open>The memory image of an integer\<close>

text \<open>Little endian: \<open>nat_le\<close> is the image in \<open>k\<close> bytes, \<open>le_nat\<close> the number it stands for.\<close>

fun nat_le :: "nat \<Rightarrow> nat \<Rightarrow> bytes" where
  "nat_le 0 v = []"
| "nat_le (Suc k) v = word_of_nat v # nat_le k (v div 256)"

fun le_nat :: "bytes \<Rightarrow> nat" where
  "le_nat [] = 0"
| "le_nat (b # bs) = unat b + 256 * le_nat bs"

lemma length_nat_le [simp]: "length (nat_le k v) = k"
  by (induction k arbitrary: v) simp_all

lemma le_nat_nat_le: "le_nat (nat_le k v) = v mod 256 ^ k"
proof (induction k arbitrary: v)
  case (Suc k)
  have "v mod (256 * 256 ^ k) = 256 * (v div 256 mod 256 ^ k) + v mod 256"
    by (rule mod_mult2_eq)
  then show ?case by (simp add: Suc unat_word_ariths unsigned_of_nat take_bit_eq_mod)
qed simp

lemma unat_byte_less [simp]: "unat (b :: byte) < 256"
  using unsigned_less [of b] by simp

lemma le_nat_less: "le_nat bs < 256 ^ length bs"
proof (induction bs)
  case (Cons b bs)
  have "unat b < 256" by simp
  then show ?case using Cons by (simp only: length_Cons le_nat.simps power_Suc)
qed simp

lemma byte_of_nat: "(word_of_nat (unat b + 256 * x) :: byte) = b"
proof -
  have "unat (word_of_nat (unat b + 256 * x) :: byte) = (unat b + 256 * x) mod 256"
    by (simp only: unat_of_nat) simp
  also have "\<dots> = unat b" by simp
  finally show ?thesis by (rule unsigned_word_eqI)
qed

lemma nat_le_le_nat: "nat_le (length bs) (le_nat bs) = bs"
proof (induction bs)
  case (Cons b bs)
  have "(unat b + 256 * le_nat bs) div 256 = le_nat bs"
    by simp
  then show ?case using Cons by (simp only: length_Cons nat_le.simps le_nat.simps byte_of_nat)
qed simp

section \<open>The stream\<close>

text \<open>\<open>CDataStream::read\<close>; what is left after it.\<close>

definition stream_read :: "nat \<Rightarrow> bytes reader" where
  "stream_read n s = (if n > length s then Inl End_of_data else Inr (take n s, drop n s))"

definition WRITEDATA :: "nat \<Rightarrow> 'a::len word \<Rightarrow> bytes" where
  "WRITEDATA sz obj = nat_le sz (unat obj)"

definition READDATA :: "nat \<Rightarrow> 'a::len word reader" where
  "READDATA sz s =
     (case stream_read sz s of Inl e \<Rightarrow> Inl e | Inr (b, s) \<Rightarrow> Inr (word_of_nat (le_nat b), s))"

section \<open>Basic types\<close>

definition Serialize_bool :: "bool \<Rightarrow> bytes" where
  "Serialize_bool a = WRITEDATA 1 (of_bool a :: 8 word)"

definition Unserialize_bool :: "bool reader" where
  "Unserialize_bool s =
     (case READDATA 1 s of Inl e \<Rightarrow> Inl e | Inr (f, s) \<Rightarrow> Inr ((f :: 8 word) \<noteq> 0, s))"

section \<open>CompactSize\<close>

definition GetSizeOfCompactSize :: "u64 \<Rightarrow> u32" where
  "GetSizeOfCompactSize nSize =
     (if nSize < 253 then 1
      else if nSize \<le> 0xFFFF then 1 + 2
      else if nSize \<le> 0xFFFFFFFF then 1 + 4
      else 1 + 8)"

definition WriteCompactSize :: "u64 \<Rightarrow> bytes" where
  "WriteCompactSize nSize =
     (if nSize < 253 then WRITEDATA 1 (ucast nSize :: 8 word)
      else if nSize \<le> 0xFFFF then WRITEDATA 1 (253 :: 8 word) @ WRITEDATA 2 (ucast nSize :: 16 word)
      else if nSize \<le> 0xFFFFFFFF then WRITEDATA 1 (254 :: 8 word) @ WRITEDATA 4 (ucast nSize :: u32)
      else WRITEDATA 1 (255 :: 8 word) @ WRITEDATA 8 nSize)"

definition check_max :: "u64 \<Rightarrow> bytes \<Rightarrow> u64 read_result" where
  "check_max nSizeRet s = (if nSizeRet > MAX_SIZE then Inl Size_too_large else Inr (nSizeRet, s))"

definition ReadCompactSize :: "u64 reader" where
  "ReadCompactSize s =
     (case READDATA 1 s of Inl e \<Rightarrow> Inl e | Inr (chSize :: 8 word, s) \<Rightarrow>
        if chSize < 253 then check_max (ucast chSize) s
        else if chSize = 253 then
          (case READDATA 2 s of Inl e \<Rightarrow> Inl e | Inr (xSize :: 16 word, s) \<Rightarrow>
             let nSizeRet = ucast xSize
             in if nSizeRet < 253 then Inl Non_canonical else check_max nSizeRet s)
        else if chSize = 254 then
          (case READDATA 4 s of Inl e \<Rightarrow> Inl e | Inr (xSize :: u32, s) \<Rightarrow>
             let nSizeRet = ucast xSize
             in if nSizeRet < 0x10000 then Inl Non_canonical else check_max nSizeRet s)
        else
          (case READDATA 8 s of Inl e \<Rightarrow> Inl e | Inr (xSize :: u64, s) \<Rightarrow>
             if xSize < 0x100000000 then Inl Non_canonical else check_max xSize s))"

section \<open>Variable-length integers\<close>

text \<open>The loops shift by 7 and subtract 1, hence they end.\<close>

lemma varint_shift:
  fixes n :: "'a::len word"
  assumes "n > 0x7F" "7 < LENGTH('a)"
  shows "unat (drop_bit 7 n - 1) = unat n div 128 - 1" "128 \<le> unat n"
proof -
  have "(127::nat) < 2 ^ LENGTH('a)"
    using power_increasing [of 8 "LENGTH('a)" "2::nat"] assms(2) by simp
  then have "unat (0x7F :: 'a word) = 127" by (simp add: unsigned_numeral take_bit_eq_mod)
  then show n: "128 \<le> unat n" using assms(1) by (simp add: word_less_nat_alt)
  have "unat (drop_bit 7 n) = unat n div 128" 
    by (simp only: unat_drop_bit_eq) (simp add: drop_bit_eq_div)
  moreover from this n have "(1 :: 'a word) \<le> drop_bit 7 n" by (simp add: word_le_nat_alt)
  ultimately show "unat (drop_bit 7 n - 1) = unat n div 128 - 1" by (simp add: unat_sub)
qed

lemma varint_less:
  fixes n :: "'a::len word"
  assumes "n > 0x7F" "7 < LENGTH('a)"
  shows "unat (drop_bit 7 n - 1) < unat n"
  using varint_shift [OF assms] by linarith

text \<open>The template is used at integer types; those of up to 7 bits, which do not exist, end at once.\<close>

function GetSizeOfVarInt_loop :: "'a::len word \<Rightarrow> u32 \<Rightarrow> u32" where
  "GetSizeOfVarInt_loop n nRet =
     (let nRet = nRet + 1
      in if n \<le> 0x7F \<or> \<not> 7 < LENGTH('a) then nRet else GetSizeOfVarInt_loop (drop_bit 7 n - 1) nRet)"
  by pat_completeness auto
termination
  by (relation "measure (\<lambda>(n, _). unat n)") (auto simp: not_le intro: varint_less)

declare GetSizeOfVarInt_loop.simps [simp del]

definition GetSizeOfVarInt :: "'a::len word \<Rightarrow> u32" where
  "GetSizeOfVarInt n = GetSizeOfVarInt_loop n 0"

function WriteVarInt_loop :: "'a::len word \<Rightarrow> bytes \<Rightarrow> bytes" where
  "WriteVarInt_loop n tmp =
     (let tmp = tmp @ [ucast (n AND 0x7F) OR (if tmp \<noteq> [] then 0x80 else 0x00)]
      in if n \<le> 0x7F \<or> \<not> 7 < LENGTH('a) then tmp else WriteVarInt_loop (drop_bit 7 n - 1) tmp)"
  by pat_completeness auto
termination
  by (relation "measure (\<lambda>(n, _). unat n)") (auto simp: not_le intro: varint_less)

declare WriteVarInt_loop.simps [simp del]

definition WriteVarInt :: "'a::len word \<Rightarrow> bytes" where
  "WriteVarInt n = rev (WriteVarInt_loop n [])"

fun ReadVarInt_loop :: "'a::len word \<Rightarrow> 'a word reader" where
  "ReadVarInt_loop n [] = Inl End_of_data"
| "ReadVarInt_loop n (chData # s) =
     (let n = push_bit 7 n OR ucast (chData AND 0x7F)
      in if chData AND 0x80 \<noteq> 0 then ReadVarInt_loop (n + 1) s else Inr (n, s))"

definition ReadVarInt :: "'a::len word reader" where
  "ReadVarInt s = ReadVarInt_loop 0 s"

section \<open>Strings\<close>

definition GetSerializeSize_string :: "bytes \<Rightarrow> u32" where
  "GetSerializeSize_string str = GetSizeOfCompactSize (of_nat (length str)) + of_nat (length str)"

definition Serialize_string :: "bytes \<Rightarrow> bytes" where
  "Serialize_string str = WriteCompactSize (of_nat (length str)) @ (if str \<noteq> [] then str else [])"

definition Unserialize_string :: "bytes reader" where
  "Unserialize_string s =
     (case ReadCompactSize s of Inl e \<Rightarrow> Inl e | Inr (nSize, s) \<Rightarrow>
        if unat nSize \<noteq> 0 then stream_read (unat nSize) s else Inr ([], s))"

definition LimitedString_Unserialize :: "nat \<Rightarrow> bytes reader" where
  "LimitedString_Unserialize Limit s =
     (case ReadCompactSize s of Inl e \<Rightarrow> Inl e | Inr (nSize, s) \<Rightarrow>
        if unat nSize > Limit then Inl String_limit
        else if unat nSize \<noteq> 0 then stream_read (unat nSize) s else Inr ([], s))"

section \<open>Vectors\<close>

text \<open>Of bytes: one opaque blob, read at most 5000000 bytes at a time.\<close>

definition GetSerializeSize_bytes :: "bytes \<Rightarrow> u32" where
  "GetSerializeSize_bytes v = GetSizeOfCompactSize (of_nat (length v)) + of_nat (length v)"

definition Serialize_bytes :: "bytes \<Rightarrow> bytes" where
  "Serialize_bytes v = WriteCompactSize (of_nat (length v)) @ (if v \<noteq> [] then v else [])"

function Unserialize_bytes_loop :: "nat \<Rightarrow> nat \<Rightarrow> bytes \<Rightarrow> bytes reader" where
  "Unserialize_bytes_loop nSize i v s =
     (if i < nSize then
        let blk = min (nSize - i) (1 + 4999999 div 1)
        in case stream_read blk s of Inl e \<Rightarrow> Inl e | Inr (b, s) \<Rightarrow>
             Unserialize_bytes_loop nSize (i + blk) (v @ b) s
      else Inr (v, s))"
  by pat_completeness auto
termination
  by (relation "measure (\<lambda>(nSize, i, _). nSize - i)") auto

declare Unserialize_bytes_loop.simps [simp del]

definition Unserialize_bytes :: "bytes reader" where
  "Unserialize_bytes s =
     (case ReadCompactSize s of Inl e \<Rightarrow> Inl e | Inr (nSize, s) \<Rightarrow>
        Unserialize_bytes_loop (unat nSize) 0 [] s)"

text \<open>
  Of other types, one element after the other: \<open>ser\<close>, \<open>unser\<close> and \<open>gsize\<close> are the functions of
  the element type and \<open>szT\<close> its \<open>sizeof\<close>.  The vector grows in steps of \<open>5000000 / szT\<close>; were
  that 0, the loop would not end, which is \<open>None\<close>.
\<close>

definition GetSerializeSize_vector :: "('a \<Rightarrow> u32) \<Rightarrow> 'a list \<Rightarrow> u32" where
  "GetSerializeSize_vector gsize v =
     foldl (\<lambda>nSize x. nSize + gsize x) (GetSizeOfCompactSize (of_nat (length v))) v"

definition Serialize_vector :: "('a \<Rightarrow> bytes) \<Rightarrow> 'a list \<Rightarrow> bytes" where
  "Serialize_vector ser v = foldl (\<lambda>os x. os @ ser x) (WriteCompactSize (of_nat (length v))) v"

fun unser_n :: "'a reader \<Rightarrow> nat \<Rightarrow> 'a list \<Rightarrow> 'a list reader" where
  "unser_n unser 0 v s = Inr (v, s)"
| "unser_n unser (Suc k) v s =
     (case unser s of Inl e \<Rightarrow> Inl e | Inr (x, s) \<Rightarrow> unser_n unser k (v @ [x]) s)"

partial_function (option) Unserialize_vector_loop ::
  "'a reader \<Rightarrow> nat \<Rightarrow> nat \<Rightarrow> nat \<Rightarrow> nat \<Rightarrow> 'a list \<Rightarrow> bytes \<Rightarrow> 'a list read_result option" where
  "Unserialize_vector_loop unser szT nSize i nMid v s =
     (if nMid < nSize then
        let nMid = nMid + 5000000 div szT;
            nMid = (if nMid > nSize then nSize else nMid)
        in case unser_n unser (nMid - i) v s of Inl e \<Rightarrow> Some (Inl e) | Inr (v, s) \<Rightarrow>
             Unserialize_vector_loop unser szT nSize (max i nMid) nMid v s
      else Some (Inr (v, s)))"

definition Unserialize_vector :: "'a reader \<Rightarrow> nat \<Rightarrow> bytes \<Rightarrow> 'a list read_result option" where
  "Unserialize_vector unser szT s =
     (case ReadCompactSize s of Inl e \<Rightarrow> Some (Inl e) | Inr (nSize, s) \<Rightarrow>
        Unserialize_vector_loop unser szT (unat nSize) 0 0 [] s)"

section \<open>Pairs, sets and maps\<close>

definition GetSerializeSize_pair :: "('a \<Rightarrow> u32) \<Rightarrow> ('b \<Rightarrow> u32) \<Rightarrow> 'a \<times> 'b \<Rightarrow> u32" where
  "GetSerializeSize_pair gsize1 gsize2 item = gsize1 (fst item) + gsize2 (snd item)"

definition Serialize_pair :: "('a \<Rightarrow> bytes) \<Rightarrow> ('b \<Rightarrow> bytes) \<Rightarrow> 'a \<times> 'b \<Rightarrow> bytes" where
  "Serialize_pair ser1 ser2 item = ser1 (fst item) @ ser2 (snd item)"

definition Unserialize_pair :: "'a reader \<Rightarrow> 'b reader \<Rightarrow> ('a \<times> 'b) reader" where
  "Unserialize_pair unser1 unser2 s =
     (case unser1 s of Inl e \<Rightarrow> Inl e | Inr (a, s) \<Rightarrow>
        case unser2 s of Inl e \<Rightarrow> Inl e | Inr (b, s) \<Rightarrow> Inr ((a, b), s))"

text \<open>
  A \<open>std::map\<close> is the list of its pairs in the order of the keys, in which it is iterated;
  \<open>insert\<close> leaves a key that is there as it is.  A \<open>std::set\<close> is the list of its elements.
\<close>

fun map_insert :: "'k::linorder \<times> 'v \<Rightarrow> ('k \<times> 'v) list \<Rightarrow> ('k \<times> 'v) list" where
  "map_insert kv [] = [kv]"
| "map_insert kv (x # xs) =
     (if fst kv < fst x then kv # x # xs else if fst kv = fst x then x # xs else x # map_insert kv xs)"

fun set_insert :: "'k::linorder \<Rightarrow> 'k list \<Rightarrow> 'k list" where
  "set_insert k [] = [k]"
| "set_insert k (x # xs) = (if k < x then k # x # xs else if k = x then x # xs else x # set_insert k xs)"

fun unser_into :: "'a reader \<Rightarrow> ('a \<Rightarrow> 'm \<Rightarrow> 'm) \<Rightarrow> nat \<Rightarrow> 'm \<Rightarrow> 'm reader" where
  "unser_into unser ins 0 m s = Inr (m, s)"
| "unser_into unser ins (Suc k) m s =
     (case unser s of Inl e \<Rightarrow> Inl e | Inr (x, s) \<Rightarrow> unser_into unser ins k (ins x m) s)"

definition GetSerializeSize_map :: "('k \<times> 'v \<Rightarrow> u32) \<Rightarrow> ('k \<times> 'v) list \<Rightarrow> u32" where
  "GetSerializeSize_map gsize m =
     foldl (\<lambda>nSize x. nSize + gsize x) (GetSizeOfCompactSize (of_nat (length m))) m"

definition Serialize_map :: "('k \<times> 'v \<Rightarrow> bytes) \<Rightarrow> ('k \<times> 'v) list \<Rightarrow> bytes" where
  "Serialize_map ser m = foldl (\<lambda>os x. os @ ser x) (WriteCompactSize (of_nat (length m))) m"

definition Unserialize_map :: "('k::linorder \<times> 'v) reader \<Rightarrow> ('k \<times> 'v) list reader" where
  "Unserialize_map unser s =
     (case ReadCompactSize s of Inl e \<Rightarrow> Inl e | Inr (nSize, s) \<Rightarrow>
        unser_into unser map_insert (unat nSize) [] s)"

definition GetSerializeSize_set :: "('k \<Rightarrow> u32) \<Rightarrow> 'k list \<Rightarrow> u32" where
  "GetSerializeSize_set gsize m =
     foldl (\<lambda>nSize x. nSize + gsize x) (GetSizeOfCompactSize (of_nat (length m))) m"

definition Serialize_set :: "('k \<Rightarrow> bytes) \<Rightarrow> 'k list \<Rightarrow> bytes" where
  "Serialize_set ser m = foldl (\<lambda>os x. os @ ser x) (WriteCompactSize (of_nat (length m))) m"

definition Unserialize_set :: "'k::linorder reader \<Rightarrow> 'k list reader" where
  "Unserialize_set unser s =
     (case ReadCompactSize s of Inl e \<Rightarrow> Inl e | Inr (nSize, s) \<Rightarrow>
        unser_into unser set_insert (unat nSize) [] s)"

section \<open>What a writer and its reader promise\<close>

locale codec =
  fixes ser :: "'a \<Rightarrow> bytes"
    and unser :: "'a reader"
    and ok :: "'a \<Rightarrow> bool"
    and gsize :: "'a \<Rightarrow> u32"
  assumes unser_ser: "ok x \<Longrightarrow> unser (ser x @ r) = Inr (x, r)"
    and size_ser: "gsize x = word_of_nat (length (ser x))"
begin

lemma ser_inj: "ok x \<Longrightarrow> ok y \<Longrightarrow> ser x @ r = ser y @ t \<Longrightarrow> x = y \<and> r = t"
  by (metis Inr_inject Pair_inject unser_ser)

lemma unser_n_ser:
  "list_all ok xs \<Longrightarrow> unser_n unser (length xs) v (concat (map ser xs) @ r) = Inr (v @ xs, r)"
  by (induction xs arbitrary: v) (simp_all add: unser_ser)

lemma unser_into_ser:
  "list_all ok xs \<Longrightarrow>
   unser_into unser ins (length xs) m (concat (map ser xs) @ r) = Inr (fold ins xs m, r)"
  by (induction xs arbitrary: m) (simp_all add: unser_ser)

lemma size_fold: "foldl (\<lambda>n x. n + gsize x) n xs = n + word_of_nat (length (concat (map ser xs)))"
  by (induction xs arbitrary: n) (simp_all add: size_ser add.assoc)

end

locale canonical_codec = codec +
  assumes ser_unser: "unser s = Inr (x, r) \<Longrightarrow> s = ser x @ r \<and> ok x"
begin

lemma unser_n_canonical:
  "unser_n unser k v s = Inr (w, r) \<Longrightarrow>
   \<exists>xs. w = v @ xs \<and> s = concat (map ser xs) @ r \<and> length xs = k \<and> list_all ok xs"
proof (induction k arbitrary: v s)
  case (Suc k)
  then obtain x t where u: "unser s = Inr (x, t)" and n: "unser_n unser k (v @ [x]) t = Inr (w, r)"
    by (auto split: sum.splits)
  from Suc.IH [OF n] obtain xs where
    "w = v @ x # xs" "t = concat (map ser xs) @ r" "length xs = k" "list_all ok xs" by auto
  then show ?case using ser_unser [OF u] by (intro exI [of _ "x # xs"]) simp
qed simp

end

lemma foldl_append: "foldl (\<lambda>os x. os @ f x) a xs = a @ concat (map f xs)"
  by (induction xs arbitrary: a) simp_all

section \<open>Integers\<close>

lemma READDATA_append:
  "length b = k \<Longrightarrow> READDATA k (b @ r) = Inr (word_of_nat (le_nat b), r)"
  by (simp add: READDATA_def stream_read_def)

lemma length_WRITEDATA [simp]: "length (WRITEDATA k w) = k"
  by (simp add: WRITEDATA_def)

lemma le_nat_WRITEDATA:
  fixes w :: "'a::len word"
  assumes "LENGTH('a) = 8 * k"
  shows "word_of_nat (le_nat (WRITEDATA k w)) = w"
proof -
  have "unat w < 256 ^ k"
    using unsigned_less [of w] assms by (simp add: power_mult)
  then show ?thesis by (simp add: WRITEDATA_def le_nat_nat_le)
qed

lemma READDATA_WRITEDATA:
  fixes w :: "'a::len word"
  assumes "LENGTH('a) = 8 * k"
  shows "READDATA k (WRITEDATA k w @ r) = Inr (w, r)"
  by (simp add: READDATA_append le_nat_WRITEDATA assms)

lemma READDATA_inv:
  fixes w :: "'a::len word"
  assumes "READDATA k s = Inr (w, r)" "LENGTH('a) = 8 * k"
  shows "s = WRITEDATA k w @ r"
proof -
  from assms(1) have k: "k \<le> length s" and w: "w = word_of_nat (le_nat (take k s))" and r: "r = drop k s"
    by (auto simp: READDATA_def stream_read_def split: if_splits)
  have "le_nat (take k s) < 2 ^ LENGTH('a)"
    using le_nat_less [of "take k s"] k assms(2) by (simp add: power_mult)
  then have "unat w = le_nat (take k s)" by (simp add: w unat_of_nat)
  then show ?thesis
    using nat_le_le_nat [of "take k s"] k r by (simp add: WRITEDATA_def)
qed

lemmas READDATA_writes =
  READDATA_WRITEDATA [where 'a = 8 and k = 1, simplified]
  READDATA_WRITEDATA [where 'a = 16 and k = 2, simplified]
  READDATA_WRITEDATA [where 'a = 32 and k = 4, simplified]
  READDATA_WRITEDATA [where 'a = 64 and k = 8, simplified]

interpretation u8: canonical_codec "WRITEDATA 1 :: byte \<Rightarrow> bytes" "READDATA 1" "\<lambda>_. True" "\<lambda>_. 1"
  by unfold_locales (simp_all add: READDATA_WRITEDATA READDATA_inv)

interpretation u16: canonical_codec "WRITEDATA 2 :: 16 word \<Rightarrow> bytes" "READDATA 2" "\<lambda>_. True" "\<lambda>_. 2"
  by unfold_locales (simp_all add: READDATA_WRITEDATA READDATA_inv)

interpretation u32: canonical_codec "WRITEDATA 4 :: u32 \<Rightarrow> bytes" "READDATA 4" "\<lambda>_. True" "\<lambda>_. 4"
  by unfold_locales (simp_all add: READDATA_WRITEDATA READDATA_inv)

interpretation u64: canonical_codec "WRITEDATA 8 :: u64 \<Rightarrow> bytes" "READDATA 8" "\<lambda>_. True" "\<lambda>_. 8"
  by unfold_locales (simp_all add: READDATA_WRITEDATA READDATA_inv)

interpretation boolean: codec Serialize_bool Unserialize_bool "\<lambda>_. True" "\<lambda>_. 1"
  by unfold_locales (simp_all add: Serialize_bool_def Unserialize_bool_def u8.unser_ser [simplified])

section \<open>Sizes\<close>

lemma unat_ucast_small:
  fixes n :: "'a::len word"
  assumes "unat n < 2 ^ LENGTH('b)"
  shows "unat (ucast n :: 'b::len word) = unat n"
  using assms by (simp add: unsigned_ucast_eq take_bit_nat_eq_self_iff)

lemma ucast_back:
  fixes n :: "'a::len word"
  assumes "unat n < 2 ^ LENGTH('b)"
  shows "ucast (ucast n :: 'b::len word) = n"
proof -
  have "unat n < 2 ^ LENGTH('a)" by simp
  then show ?thesis
    using assms by (simp add: word_unat_eq_iff unat_ucast_small)
qed

lemma CompactSize_ranges:
  fixes n :: u64
  shows "n < 253 \<longleftrightarrow> unat n < 253" "n \<le> 0xFFFF \<longleftrightarrow> unat n < 2 ^ 16"
    "n \<le> 0xFFFFFFFF \<longleftrightarrow> unat n < 2 ^ 32" "n < 0x10000 \<longleftrightarrow> unat n < 2 ^ 16"
    "n < 0x100000000 \<longleftrightarrow> unat n < 2 ^ 32" "n \<le> MAX_SIZE \<longleftrightarrow> unat n \<le> 0x02000000"
  by (simp_all add: word_less_nat_alt word_le_nat_alt MAX_SIZE_def less_Suc_eq_le [symmetric])

lemma ReadCompactSize_first:
  "ReadCompactSize (WRITEDATA 1 (c :: byte) @ r) =
     (if c < 253 then check_max (ucast c) r
      else if c = 253 then
        (case READDATA 2 r of Inl e \<Rightarrow> Inl e | Inr (x :: 16 word, s) \<Rightarrow>
           if ucast x < (253 :: u64) then Inl Non_canonical else check_max (ucast x) s)
      else if c = 254 then
        (case READDATA 4 r of Inl e \<Rightarrow> Inl e | Inr (x :: u32, s) \<Rightarrow>
           if ucast x < (0x10000 :: u64) then Inl Non_canonical else check_max (ucast x) s)
      else
        (case READDATA 8 r of Inl e \<Rightarrow> Inl e | Inr (x :: u64, s) \<Rightarrow>
           if x < 0x100000000 then Inl Non_canonical else check_max x s))"
  unfolding ReadCompactSize_def Let_def by (simp add: u8.unser_ser [simplified])

lemma ReadCompactSize_WriteCompactSize:
  "ReadCompactSize (WriteCompactSize n @ r) = check_max n r"
proof -
  consider "unat n < 253" | "253 \<le> unat n" "unat n < 2 ^ 16"
    | "2 ^ 16 \<le> unat n" "unat n < 2 ^ 32" | "2 ^ 32 \<le> unat n"
    by linarith
  then show ?thesis
  proof cases
    case 1
    then have "unat (ucast n :: byte) = unat n" "(ucast (ucast n :: byte) :: u64) = n"
      by (simp_all add: unat_ucast_small ucast_back)
    with 1 show ?thesis
      by (simp add: WriteCompactSize_def ReadCompactSize_first [simplified] CompactSize_ranges word_less_nat_alt)
  next
    case 2
    then have b: "(ucast (ucast n :: 16 word) :: u64) = n" by (simp add: ucast_back)
    from 2 show ?thesis
      by (simp add: WriteCompactSize_def ReadCompactSize_first [simplified] CompactSize_ranges u16.unser_ser b)
  next
    case 3
    then have b: "(ucast (ucast n :: u32) :: u64) = n" by (simp add: ucast_back)
    from 3 show ?thesis
      by (simp add: WriteCompactSize_def ReadCompactSize_first [simplified] CompactSize_ranges u32.unser_ser b)
  next
    case 4
    then show ?thesis
      by (simp add: WriteCompactSize_def ReadCompactSize_first [simplified] CompactSize_ranges u64.unser_ser)
  qed
qed

lemma ReadCompactSize_cases:
  assumes "ReadCompactSize s = Inr (n, r)"
  shows "s = WriteCompactSize n @ r \<and> n \<le> MAX_SIZE"
proof -
  from assms obtain c :: byte and t where c: "READDATA 1 s = Inr (c, t)"
    by (auto simp: ReadCompactSize_def split: sum.splits)
  then have s: "s = WRITEDATA 1 c @ t" by (rule u8.ser_unser [THEN conjunct1])
  note R = assms [unfolded s ReadCompactSize_first]
  have max: "n \<le> MAX_SIZE"
    using R by (auto simp: check_max_def split: sum.splits if_splits)
  consider "c < 253" | "c = 253" | "c = 254" | "c = 255"
  proof -
    have "unat c < 253 \<or> unat c = 253 \<or> unat c = 254 \<or> unat c = 255"
      using unat_byte_less [of c] by linarith
    then show thesis using that by (auto simp: word_less_nat_alt word_unat_eq_iff)
  qed
  then have "s = WriteCompactSize n @ r"
  proof cases
    case 1
    then have "n = ucast c" "r = t" "unat c < 253"
      using R by (auto simp: check_max_def word_less_nat_alt split: if_splits)
    moreover from this have "unat n < 253" "(ucast n :: byte) = c"
      by (simp_all add: unat_ucast_small ucast_back)
    ultimately show ?thesis by (simp add: s WriteCompactSize_def CompactSize_ranges)
  next
    case 2
    then obtain x :: "16 word" where x: "READDATA 2 t = Inr (x, r)" "n = ucast x" "\<not> n < 253"
      using R by (auto simp: check_max_def split: sum.splits if_splits)
    moreover have "unat x < 2 ^ 16" using unsigned_less [of x] by simp
    ultimately have "unat n < 2 ^ 16" "(ucast n :: 16 word) = x" "t = WRITEDATA 2 x @ r"
      by (auto simp: unat_ucast_small ucast_back dest: u16.ser_unser)
    with x(3) 2 show ?thesis by (simp add: s WriteCompactSize_def CompactSize_ranges)
  next
    case 3
    then obtain x :: u32 where x: "READDATA 4 t = Inr (x, r)" "n = ucast x" "\<not> n < 0x10000"
      using R by (auto simp: check_max_def split: sum.splits if_splits)
    moreover have "unat x < 2 ^ 32" using unsigned_less [of x] by simp
    ultimately have "unat n < 2 ^ 32" "(ucast n :: u32) = x" "t = WRITEDATA 4 x @ r"
      by (auto simp: unat_ucast_small ucast_back dest: u32.ser_unser)
    with x(3) 3 show ?thesis by (simp add: s WriteCompactSize_def CompactSize_ranges)
  next
    case 4
    then have "t = WRITEDATA 8 n @ r" "\<not> n < 0x100000000"
      using R by (auto simp: check_max_def split: sum.splits if_splits dest: u64.ser_unser)
    with 4 show ?thesis by (simp add: s WriteCompactSize_def CompactSize_ranges)
  qed
  with max show ?thesis by simp
qed

interpretation compact: canonical_codec WriteCompactSize ReadCompactSize "\<lambda>n. n \<le> MAX_SIZE" GetSizeOfCompactSize
proof unfold_locales
  show "GetSizeOfCompactSize n = word_of_nat (length (WriteCompactSize n))" for n
    by (simp add: GetSizeOfCompactSize_def WriteCompactSize_def)
qed (simp_all add: ReadCompactSize_WriteCompactSize check_max_def ReadCompactSize_cases)

section \<open>Variable-length integers\<close>

lemma and_7F: "a AND 0x7F = take_bit 7 a" for a :: "'a::len word"
  using take_bit_eq_mask [of 7 a] by (simp add: mask_eq_exp_minus_1)

lemma varint_digit:
  fixes n :: "'a::len word"
  assumes "7 < LENGTH('a)"
  shows "ucast ((ucast (n AND 0x7F) OR (if b then 0x80 else 0x00) :: byte) AND 0x7F) = take_bit 7 n"
proof (cases b)
  case True
  have "(0x80 :: byte) = 2 ^ 7" by simp
  with True show ?thesis
    unfolding and_7F by (intro bit_eqI) (auto simp: bit_simps)
next
  case False
  then show ?thesis
    unfolding and_7F by (intro bit_eqI) (auto simp: bit_simps)
qed

lemma varint_more:
  "(ucast (n AND 0x7F) OR (if b then 0x80 else 0x00) :: byte) AND 0x80 \<noteq> 0 \<longleftrightarrow> b"
  for n :: "'a::len word"
proof -
  have e: "(0x80 :: byte) = 2 ^ 7" by simp
  show ?thesis unfolding e and_exp_eq_0_iff_not_bit and_7F by (simp add: bit_simps)
qed

lemma varint_last:
  fixes n :: "'a::len word"
  assumes "n \<le> 0x7F" "7 < LENGTH('a)"
  shows "take_bit 7 n = n" "unat n < 128"
proof -
  have "\<not> n > 0x7F" using assms(1) by simp
  have "(127::nat) < 2 ^ LENGTH('a)"
    using power_increasing [of 8 "LENGTH('a)" "2::nat"] assms(2) by simp
  then have "unat (0x7F :: 'a word) = 127" by (simp add: unsigned_numeral take_bit_eq_mod)
  then show u: "unat n < 128" using assms(1) by (simp add: word_le_nat_alt)
  then show "take_bit 7 n = n"
    by (simp add: word_unat_eq_iff unsigned_take_bit_eq take_bit_nat_eq_self_iff)
qed

lemma varint_join: "push_bit 7 (drop_bit 7 n) OR take_bit 7 n = n" for n :: "'a::len word"
  by (intro bit_eqI) (auto simp: bit_simps)

lemma ReadVarInt_WriteVarInt_loop:
  fixes n :: "'a::len word"
  assumes "7 < LENGTH('a)"
  shows "ReadVarInt_loop 0 (rev (WriteVarInt_loop n tmp) @ r) =
     (if tmp = [] then Inr (n, r) else ReadVarInt_loop (n + 1) (rev tmp @ r))"
proof (induction n tmp rule: WriteVarInt_loop.induct)
  case (1 n tmp)
  let ?c = "ucast (n AND 0x7F) OR (if tmp \<noteq> [] then 0x80 else 0x00) :: byte"
  show ?case
  proof (cases "n \<le> 0x7F")
    case True
    then show ?thesis
      using varint_digit [OF assms, of n "tmp \<noteq> []"] varint_more [of n "tmp \<noteq> []"] varint_last [OF True assms]
      by (subst WriteVarInt_loop.simps) (simp add: Let_def)
  next
    case False
    then have "ReadVarInt_loop 0 (rev (WriteVarInt_loop (drop_bit 7 n - 1) (tmp @ [?c])) @ r) =
        ReadVarInt_loop (drop_bit 7 n) (?c # rev tmp @ r)"
      using "1.IH" [of "tmp @ [?c]"] assms by simp
    moreover have "WriteVarInt_loop n tmp = WriteVarInt_loop (drop_bit 7 n - 1) (tmp @ [?c])"
      using False assms by (subst WriteVarInt_loop.simps) (simp add: Let_def)
    ultimately show ?thesis
      using varint_digit [OF assms, of n "tmp \<noteq> []"] varint_more [of n "tmp \<noteq> []"]
      by (simp add: varint_join Let_def)
  qed
qed

lemma length_WriteVarInt_loop:
  fixes n :: "'a::len word"
  assumes "7 < LENGTH('a)"
  shows "unat n < 128 ^ Suc k \<Longrightarrow> length (WriteVarInt_loop n tmp) \<le> length tmp + Suc k"
proof (induction n tmp arbitrary: k rule: WriteVarInt_loop.induct)
  case (1 n tmp)
  let ?c = "ucast (n AND 0x7F) OR (if tmp \<noteq> [] then 0x80 else 0x00) :: byte"
  show ?case
  proof (cases "n \<le> 0x7F")
    case True
    then show ?thesis by (subst WriteVarInt_loop.simps) (simp add: Let_def)
  next
    case False
    then have n: "unat (drop_bit 7 n - 1) = unat n div 128 - 1" "128 \<le> unat n"
      using varint_shift [of n] assms by (simp_all add: not_le)
    then obtain j where k: "k = Suc j" using "1.prems" by (cases k) auto
    have "unat n div 128 < 128 ^ Suc j"
      using "1.prems" by (simp add: k less_mult_imp_div_less mult.commute)
    then have "unat (drop_bit 7 n - 1) < 128 ^ Suc j" using n by linarith
    then have "length (WriteVarInt_loop (drop_bit 7 n - 1) (tmp @ [?c])) \<le> length tmp + Suc k"
      using "1.IH" [of "tmp @ [?c]" j] False assms by (simp add: k)
    then show ?thesis using False assms by (subst WriteVarInt_loop.simps) (simp add: Let_def)
  qed
qed

lemma GetSizeOfVarInt_loop_length:
  fixes n :: "'a::len word"
  shows "GetSizeOfVarInt_loop n (word_of_nat (length tmp)) = word_of_nat (length (WriteVarInt_loop n tmp))"
proof (induction n tmp rule: WriteVarInt_loop.induct)
  case (1 n tmp)
  let ?c = "ucast (n AND 0x7F) OR (if tmp \<noteq> [] then 0x80 else 0x00) :: byte"
  show ?case
    using "1.IH" [of "tmp @ [?c]"]
    by (subst WriteVarInt_loop.simps, subst GetSizeOfVarInt_loop.simps) (simp add: Let_def add.commute)
qed

interpretation varint32: codec "WriteVarInt :: u32 \<Rightarrow> bytes" ReadVarInt "\<lambda>_. True" GetSizeOfVarInt
  using GetSizeOfVarInt_loop_length [where tmp = "[]" and 'a = 32]
  by unfold_locales (simp_all add: ReadVarInt_def WriteVarInt_def ReadVarInt_WriteVarInt_loop GetSizeOfVarInt_def)

interpretation varint64: codec "WriteVarInt :: u64 \<Rightarrow> bytes" ReadVarInt "\<lambda>_. True" GetSizeOfVarInt
  using GetSizeOfVarInt_loop_length [where tmp = "[]" and 'a = 64]
  by unfold_locales (simp_all add: ReadVarInt_def WriteVarInt_def ReadVarInt_WriteVarInt_loop GetSizeOfVarInt_def)

section \<open>Strings and vectors\<close>

lemma size_word: "length v \<le> 0x02000000 \<Longrightarrow> unat (word_of_nat (length v) :: u64) = length v"
  by (simp add: unat_of_nat)

lemma size_ok: "length v \<le> 0x02000000 \<Longrightarrow> (word_of_nat (length v) :: u64) \<le> MAX_SIZE"
  by (simp add: CompactSize_ranges size_word)

lemma ReadCompactSize_size:
  "length v \<le> 0x02000000 \<Longrightarrow>
   ReadCompactSize (WriteCompactSize (word_of_nat (length v)) @ r) = Inr (word_of_nat (length v), r)"
  by (rule compact.unser_ser) (rule size_ok)

lemma size_inv:
  assumes "ReadCompactSize s = Inr (n, r)"
  shows "s = WriteCompactSize (word_of_nat (unat n)) @ r" "unat n \<le> 0x02000000"
  using compact.ser_unser [OF assms] by (simp_all add: CompactSize_ranges)

lemma stream_read_append: "stream_read (length v) (v @ r) = Inr (v, r)"
  by (simp add: stream_read_def)

lemma stream_read_inv: "stream_read k s = Inr (v, r) \<Longrightarrow> s = v @ r \<and> length v = k"
  by (auto simp: stream_read_def split: if_splits)

lemma size_of_sized:
  "GetSizeOfCompactSize n + word_of_nat (length v) = word_of_nat (length (WriteCompactSize n @ v))"
  by (simp add: compact.size_ser)

text \<open>The blocks together are one read.\<close>

lemma Unserialize_bytes_loop_step:
  "Unserialize_bytes_loop nSize i v s =
     (if i < nSize then
        case stream_read (min (nSize - i) 5000000) s of Inl e \<Rightarrow> Inl e | Inr (b, s) \<Rightarrow>
          Unserialize_bytes_loop nSize (i + min (nSize - i) 5000000) (v @ b) s
      else Inr (v, s))"
  by (subst Unserialize_bytes_loop.simps) (simp add: Let_def)

lemma stream_read_add:
  "stream_read (a + b) s =
     (case stream_read a s of Inl e \<Rightarrow> Inl e | Inr (x, s) \<Rightarrow>
        case stream_read b s of Inl e \<Rightarrow> Inl e | Inr (y, s) \<Rightarrow> Inr (x @ y, s))"
  by (auto simp: stream_read_def take_add add.commute)

lemma Unserialize_bytes_loop_read:
  "i \<le> nSize \<Longrightarrow> Unserialize_bytes_loop nSize i v s =
     (case stream_read (nSize - i) s of Inl e \<Rightarrow> Inl e | Inr (b, s) \<Rightarrow> Inr (v @ b, s))"
proof (induction "nSize - i" arbitrary: i v s rule: less_induct)
  case less
  define blk where "blk = min (nSize - i) 5000000"
  show ?case
  proof (cases "i < nSize")
    case True
    have m: "i + blk \<le> nSize" "nSize - (i + blk) < nSize - i" using True by (auto simp: blk_def)
    have "Unserialize_bytes_loop nSize i v s =
      (case stream_read blk s of Inl e \<Rightarrow> Inl e | Inr (b, s) \<Rightarrow>
         (case stream_read (nSize - (i + blk)) s of Inl e \<Rightarrow> Inl e | Inr (c, s) \<Rightarrow> Inr ((v @ b) @ c, s)))"
      using True by (subst Unserialize_bytes_loop_step)
        (simp add: less(1) [OF m(2,1)] blk_def [symmetric] split: sum.split)
    moreover have "nSize - i = blk + (nSize - (i + blk))" using m by simp
    ultimately show ?thesis
      by (simp only: stream_read_add) (auto split: sum.split)
  next
    case False
    with less(2) show ?thesis by (subst Unserialize_bytes_loop_step) (simp add: stream_read_def)
  qed
qed

lemma Unserialize_bytes_string: "Unserialize_bytes s = Unserialize_string s"
  by (auto simp: Unserialize_bytes_def Unserialize_string_def Unserialize_bytes_loop_read stream_read_def
      split: sum.split)

lemma Serialize_bytes_append [simp]: "Serialize_bytes v = WriteCompactSize (of_nat (length v)) @ v"
  "Serialize_string v = WriteCompactSize (of_nat (length v)) @ v"
  by (simp_all add: Serialize_bytes_def Serialize_string_def)

interpretation str: canonical_codec Serialize_string Unserialize_string
  "\<lambda>v. length v \<le> 0x02000000" GetSerializeSize_string
proof unfold_locales
  show "length v \<le> 0x02000000 \<Longrightarrow> Unserialize_string (Serialize_string v @ r) = Inr (v, r)" for v r
    by (simp add: Unserialize_string_def ReadCompactSize_size size_word stream_read_append)
  show "GetSerializeSize_string v = word_of_nat (length (Serialize_string v))" for v
    by (simp only: GetSerializeSize_string_def Serialize_bytes_append size_of_sized)
  show "s = Serialize_string v @ r \<and> length v \<le> 0x02000000"
    if "Unserialize_string s = Inr (v, r)" for s v r
  proof -
    from that obtain n t where n: "ReadCompactSize s = Inr (n, t)"
      and v: "stream_read (unat n) t = Inr (v, r)"
      by (auto simp: Unserialize_string_def stream_read_def split: sum.splits if_splits)
    then show ?thesis using size_inv [OF n] stream_read_inv [OF v] by simp
  qed
qed

interpretation blob: canonical_codec Serialize_bytes Unserialize_bytes
  "\<lambda>v. length v \<le> 0x02000000" GetSerializeSize_bytes
proof -
  have "Serialize_bytes = Serialize_string" "Unserialize_bytes = Unserialize_string"
    "GetSerializeSize_bytes = GetSerializeSize_string"
    by (simp_all add: fun_eq_iff Unserialize_bytes_string GetSerializeSize_bytes_def GetSerializeSize_string_def)
  then show "canonical_codec Serialize_bytes Unserialize_bytes (\<lambda>v. length v \<le> 0x02000000) GetSerializeSize_bytes"
    by (simp only: str.canonical_codec_axioms)
qed

text \<open>A vector of elements is read as one run of elements, provided the step is positive.\<close>

lemma unser_n_append:
  "unser_n unser (a + b) v s =
     (case unser_n unser a v s of Inl e \<Rightarrow> Inl e | Inr (v, s) \<Rightarrow> unser_n unser b v s)"
  by (induction a arbitrary: v s) (simp_all split: sum.split)

lemma Unserialize_vector_loop_step:
  "Unserialize_vector_loop unser szT nSize i i v s =
     (if i < nSize then
        case unser_n unser (min (i + 5000000 div szT) nSize - i) v s of Inl e \<Rightarrow> Some (Inl e) | Inr (v, s) \<Rightarrow>
          Unserialize_vector_loop unser szT nSize
            (min (i + 5000000 div szT) nSize) (min (i + 5000000 div szT) nSize) v s
      else Some (Inr (v, s)))"
  by (subst Unserialize_vector_loop.simps) (auto simp: Let_def min_def max_def split: sum.split)

lemma Unserialize_vector_loop_run:
  assumes "0 < 5000000 div szT"
  shows "i \<le> nSize \<Longrightarrow>
    Unserialize_vector_loop unser szT nSize i i v s = Some (unser_n unser (nSize - i) v s)"
proof (induction "nSize - i" arbitrary: i v s rule: less_induct)
  case less
  define m where "m = min (i + 5000000 div szT) nSize"
  show ?case
  proof (cases "i < nSize")
    case True
    have m: "i < m" "m \<le> nSize" "nSize - m < nSize - i" using True assms by (auto simp: m_def)
    have "Unserialize_vector_loop unser szT nSize i i v s =
      (case unser_n unser (m - i) v s of Inl e \<Rightarrow> Some (Inl e) | Inr (v, s) \<Rightarrow>
         Some (unser_n unser (nSize - m) v s))"
      using True by (subst Unserialize_vector_loop_step)
        (simp add: less(1) [OF m(3,2)] m_def [symmetric] split: sum.split)
    moreover have "nSize - i = (m - i) + (nSize - m)" using m by simp
    ultimately show ?thesis
      by (simp only: unser_n_append) (simp split: sum.split)
  next
    case False
    with less(2) show ?thesis by (subst Unserialize_vector_loop_step) simp
  qed
qed

lemma Unserialize_vector_run:
  assumes "0 < szT" "szT \<le> 5000000"
  shows "Unserialize_vector unser szT s = Some
     (case ReadCompactSize s of Inl e \<Rightarrow> Inl e | Inr (n, s) \<Rightarrow> unser_n unser (unat n) [] s)"
proof -
  have "0 < 5000000 div szT" using assms by (simp add: div_greater_zero_iff)
  then show ?thesis
    by (simp add: Unserialize_vector_def Unserialize_vector_loop_run split: sum.split)
qed

context codec
begin

lemma Unserialize_vector_ser:
  assumes "0 < szT" "szT \<le> 5000000" "length xs \<le> 0x02000000" "list_all ok xs"
  shows "Unserialize_vector unser szT (Serialize_vector ser xs @ r) = Some (Inr (xs, r))"
  using assms unser_n_ser [of xs "[]" r]
  by (simp add: Unserialize_vector_run Serialize_vector_def foldl_append ReadCompactSize_size size_word)

lemma size_vector: "GetSerializeSize_vector gsize xs = word_of_nat (length (Serialize_vector ser xs))"
  by (simp only: GetSerializeSize_vector_def Serialize_vector_def foldl_append size_fold size_of_sized)

end

context canonical_codec
begin

lemma Unserialize_vector_canonical:
  assumes "0 < szT" "szT \<le> 5000000" "Unserialize_vector unser szT s = Some (Inr (xs, r))"
  shows "s = Serialize_vector ser xs @ r \<and> length xs \<le> 0x02000000 \<and> list_all ok xs"
proof -
  from assms obtain n t where n: "ReadCompactSize s = Inr (n, t)"
    and x: "unser_n unser (unat n) [] t = Inr (xs, r)"
    by (auto simp: Unserialize_vector_run split: sum.splits)
  show ?thesis
    using size_inv [OF n] unser_n_canonical [OF x] by (auto simp: Serialize_vector_def foldl_append)
qed

end

interpretation u256: canonical_codec "WRITEDATA 32 :: 256 word \<Rightarrow> bytes" "READDATA 32" "\<lambda>_. True" "\<lambda>_. 32"
  by unfold_locales (simp_all add: READDATA_WRITEDATA READDATA_inv)

section \<open>Pairs, sets and maps\<close>

locale two_codecs =
  first: codec ser1 unser1 ok1 gsize1 + second: codec ser2 unser2 ok2 gsize2
  for ser1 :: "'a \<Rightarrow> bytes" and unser1 ok1 gsize1
    and ser2 :: "'b \<Rightarrow> bytes" and unser2 ok2 gsize2

sublocale two_codecs < pair: codec "Serialize_pair ser1 ser2" "Unserialize_pair unser1 unser2"
  "\<lambda>p. ok1 (fst p) \<and> ok2 (snd p)" "GetSerializeSize_pair gsize1 gsize2"
  by unfold_locales
    (simp_all add: Serialize_pair_def Unserialize_pair_def GetSerializeSize_pair_def
      first.unser_ser second.unser_ser first.size_ser second.size_ser)

lemma map_insert_last: "\<forall>x \<in> set m. fst x < fst kv \<Longrightarrow> map_insert kv m = m @ [kv]"
  by (induction m) auto

lemma fold_map_insert:
  "sorted_wrt (<) (map fst (m @ xs)) \<Longrightarrow> fold map_insert xs m = m @ xs"
proof (induction xs arbitrary: m)
  case (Cons x xs)
  then have "map_insert x m = m @ [x]"
    by (intro map_insert_last) (auto simp: sorted_wrt_append)
  then show ?case using Cons.IH [of "m @ [x]"] Cons.prems by simp
qed simp

lemma set_insert_last: "\<forall>x \<in> set m. x < k \<Longrightarrow> set_insert k m = m @ [k]"
  by (induction m) auto

lemma fold_set_insert: "sorted_wrt (<) (m @ xs) \<Longrightarrow> fold set_insert xs m = m @ xs"
proof (induction xs arbitrary: m)
  case (Cons x xs)
  then have "set_insert x m = m @ [x]"
    by (intro set_insert_last) (auto simp: sorted_wrt_append)
  then show ?case using Cons.IH [of "m @ [x]"] Cons.prems by simp
qed simp

lemma keys_map_insert: "fst ` set (map_insert kv m) = insert (fst kv) (fst ` set m)"
  by (induction m) auto

lemma map_insert_sorted:
  "sorted_wrt (<) (map fst m) \<Longrightarrow> sorted_wrt (<) (map fst (map_insert kv m))"
proof (induction m)
  case (Cons x m)
  have "\<forall>k \<in> fst ` set (map_insert kv m). fst x < k" if "fst x < fst kv"
    using that Cons.prems by (simp add: keys_map_insert)
  with Cons show ?case by auto
qed simp

locale ordered_codec = codec ser unser ok gsize
  for ser :: "'a::linorder \<Rightarrow> bytes" and unser ok gsize
begin

lemma Unserialize_set_ser:
  assumes "length xs \<le> 0x02000000" "list_all ok xs" "sorted_wrt (<) xs"
  shows "Unserialize_set unser (Serialize_set ser xs @ r) = Inr (xs, r)"
  using assms unser_into_ser [of xs set_insert "[]" r]
  by (simp add: Unserialize_set_def Serialize_set_def foldl_append ReadCompactSize_size size_word
      fold_set_insert [of "[]", simplified])

lemma size_set: "GetSerializeSize_set gsize xs = word_of_nat (length (Serialize_set ser xs))"
  by (simp only: GetSerializeSize_set_def Serialize_set_def foldl_append size_fold size_of_sized)

end

interpretation u256_set: ordered_codec "WRITEDATA 32 :: 256 word \<Rightarrow> bytes" "READDATA 32" "\<lambda>_. True" "\<lambda>_. 32" ..

interpretation string_pair: two_codecs
  Serialize_string Unserialize_string "\<lambda>v. length v \<le> 0x02000000" GetSerializeSize_string
  Serialize_string Unserialize_string "\<lambda>v. length v \<le> 0x02000000" GetSerializeSize_string ..

section \<open>Properties\<close>

text \<open>
  \<open>ReadCompactSize\<close> accepts exactly the bytes \<open>WriteCompactSize\<close> writes for a number of at
  most \<open>MAX_SIZE\<close>, followed by anything: sizes have one encoding.
\<close>

theorem CompactSize_canonical:
  "ReadCompactSize s = Inr (n, r) \<longleftrightarrow> s = WriteCompactSize n @ r \<and> n \<le> MAX_SIZE"
  using compact.ser_unser [of s n r] compact.unser_ser [of n r] by blast

text \<open>
  A size above \<open>MAX_SIZE\<close> is refused, whatever follows it, and so is every proper prefix of
  the encoding of a size, as the end of the data.
\<close>

theorem ReadCompactSize_refuses:
  shows "(n > MAX_SIZE \<longrightarrow> ReadCompactSize (WriteCompactSize n @ r) = Inl Size_too_large) \<and>
    (k < length (WriteCompactSize n) \<longrightarrow> ReadCompactSize (take k (WriteCompactSize n)) = Inl End_of_data)"
proof (intro conjI impI)
  assume "n > MAX_SIZE"
  then show "ReadCompactSize (WriteCompactSize n @ r) = Inl Size_too_large"
    by (simp add: ReadCompactSize_WriteCompactSize check_max_def)
next
  assume k: "k < length (WriteCompactSize n)"
  have short: "READDATA m t = Inl End_of_data" if "length t < m" for m t
    using that by (simp add: READDATA_def stream_read_def)
  show "ReadCompactSize (take k (WriteCompactSize n)) = Inl End_of_data"
  proof (cases k)
    case 0
    then show ?thesis by (simp add: ReadCompactSize_def short)
  next
    case (Suc j)
    with k have "take k (WriteCompactSize n) = WRITEDATA 1 (253 :: byte) @ take j (WRITEDATA 2 (ucast n :: 16 word)) \<and> j < 2
      \<or> take k (WriteCompactSize n) = WRITEDATA 1 (254 :: byte) @ take j (WRITEDATA 4 (ucast n :: u32)) \<and> j < 4
      \<or> take k (WriteCompactSize n) = WRITEDATA 1 (255 :: byte) @ take j (WRITEDATA 8 n) \<and> j < 8"
      by (auto simp: WriteCompactSize_def split: if_splits)
    then show ?thesis by (elim disjE conjE) (simp_all only: ReadCompactSize_first, simp_all add: short)
  qed
qed

theorem ReadCompactSize_refuses_witness:
  "ReadCompactSize (WriteCompactSize 0x02000001 @ [7]) = Inl Size_too_large \<and>
   ReadCompactSize (take 2 (WriteCompactSize 0x02000001)) = Inl End_of_data"
proof -
  have "(0x02000001 :: u64) > MAX_SIZE" "2 < length (WriteCompactSize 0x02000001)"
    by (simp_all add: MAX_SIZE_def WriteCompactSize_def)
  then show ?thesis using ReadCompactSize_refuses [of "0x02000001" "[7]" 2] by blast
qed

text \<open>
  Variable-length integers of 32 and 64 bits: reading gives back what was written, the
  number of bytes is what \<open>GetSizeOfVarInt\<close> computes, and the writer stays inside its buffer of
  5 and 10 bytes.
\<close>

theorem VarInt_roundtrip:
  fixes n :: u32 and m :: u64
  shows "ReadVarInt (WriteVarInt n @ r) = Inr (n, r) \<and> ReadVarInt (WriteVarInt m @ r) = Inr (m, r) \<and>
    GetSizeOfVarInt n = of_nat (length (WriteVarInt n)) \<and> length (WriteVarInt n) \<le> (4 * 8 + 6) div 7 \<and>
    GetSizeOfVarInt m = of_nat (length (WriteVarInt m)) \<and> length (WriteVarInt m) \<le> (8 * 8 + 6) div 7"
proof (intro conjI)
  have "unat n < 128 ^ Suc 4"
    using unsigned_less [of n, where ?'a = nat] by simp
  then show "length (WriteVarInt n) \<le> (4 * 8 + 6) div 7"
    using length_WriteVarInt_loop [of n 4 "[]"] by (simp add: WriteVarInt_def)
  have "unat m < 128 ^ Suc 9"
    using unsigned_less [of m, where ?'a = nat] by simp
  then show "length (WriteVarInt m) \<le> (8 * 8 + 6) div 7"
    using length_WriteVarInt_loop [of m 9 "[]"] by (simp add: WriteVarInt_def)
qed (simp_all add: varint32.unser_ser varint64.unser_ser varint32.size_ser varint64.size_ser)

text \<open>
  \<open>ReadVarInt\<close> does not notice that a number is too large for its type: the five bytes that
  encode \<open>2 ^ 32\<close> are read as the 32-bit number 0, which the single byte 0 encodes.
\<close>

theorem ReadVarInt_overflows:
  "ReadVarInt [0x8E, 0xFE, 0xFE, 0xFF, 0x00] = Inr (0 :: u32, []) \<and>
   ReadVarInt [0x00] = Inr (0 :: u32, []) \<and>
   WriteVarInt (0 :: u32) = [0x00] \<and> WriteVarInt (2 ^ 32 :: u64) = [0x8E, 0xFE, 0xFE, 0xFF, 0x00]"
  by (simp add: ReadVarInt_def WriteVarInt_def WriteVarInt_loop.simps Let_def)

text \<open>
  Strings and byte vectors: the reader that takes blocks of 5000000 bytes accepts exactly
  what the writer writes for a vector of at most \<open>MAX_SIZE\<close> bytes.
\<close>

theorem byte_vector_canonical:
  "Unserialize_bytes s = Inr (v, r) \<longleftrightarrow> s = Serialize_bytes v @ r \<and> length v \<le> unat MAX_SIZE"
  using blob.ser_unser [of s v r] blob.unser_ser [of v r] by (auto simp: MAX_SIZE_def)

text \<open>
  A vector of 256-bit numbers: the loop that grows the vector by 156250 elements at a time
  ends, and it reads a vector exactly from what the writer writes for it.
\<close>

theorem vector_canonical:
  "Unserialize_vector (READDATA 32) 32 s = Some (Inr (v :: 256 word list, r)) \<longleftrightarrow>
   s = Serialize_vector (WRITEDATA 32) v @ r \<and> length v \<le> unat MAX_SIZE"
  using u256.Unserialize_vector_canonical [of 32 s v r] u256.Unserialize_vector_ser [of 32 v r]
  by (auto simp: MAX_SIZE_def list_all_iff)

text \<open>
  A map of strings to strings (the \<open>mapValue\<close> of a wallet transaction) is read back as it
  was written, and takes the bytes \<open>GetSerializeSize\<close> counts.
\<close>

theorem string_map_roundtrip:
  assumes "sorted_wrt (<) (map fst m)" "length m \<le> unat MAX_SIZE"
    and "\<forall>(k, v) \<in> set m. length k \<le> unat MAX_SIZE \<and> length v \<le> unat MAX_SIZE"
  shows "Unserialize_map (Unserialize_pair Unserialize_string Unserialize_string)
       (Serialize_map (Serialize_pair Serialize_string Serialize_string) m @ r) = Inr (m, r) \<and>
     GetSerializeSize_map (GetSerializeSize_pair GetSerializeSize_string GetSerializeSize_string) m =
       of_nat (length (Serialize_map (Serialize_pair Serialize_string Serialize_string) m))"
proof
  have ok: "list_all (\<lambda>p. length (fst p) \<le> 0x02000000 \<and> length (snd p) \<le> 0x02000000) m" "length m \<le> 0x02000000"
    using assms(2,3) by (auto simp: list_all_iff MAX_SIZE_def)
  then show "Unserialize_map (Unserialize_pair Unserialize_string Unserialize_string)
      (Serialize_map (Serialize_pair Serialize_string Serialize_string) m @ r) = Inr (m, r)"
    using string_pair.pair.unser_into_ser [OF ok(1), of map_insert "[]" r] assms(1)
    by (simp add: Unserialize_map_def Serialize_map_def foldl_append ReadCompactSize_size size_word
      fold_map_insert [of "[]", simplified])
  show "GetSerializeSize_map (GetSerializeSize_pair GetSerializeSize_string GetSerializeSize_string) m =
      of_nat (length (Serialize_map (Serialize_pair Serialize_string Serialize_string) m))"
    by (simp only: GetSerializeSize_map_def Serialize_map_def foldl_append string_pair.pair.size_fold size_of_sized)
qed

theorem string_map_roundtrip_witness:
  "Unserialize_map (Unserialize_pair Unserialize_string Unserialize_string)
     (Serialize_map (Serialize_pair Serialize_string Serialize_string) [([1], [2, 3]), ([1, 0], [])] @ [9])
   = Inr ([([1], [2, 3]), ([1, 0], [])], [9])"
proof -
  have "sorted_wrt (<) (map fst [([1 :: byte], [2, 3 :: byte]), ([1, 0], [])])" by simp
  moreover have "length [([1 :: byte], [2, 3 :: byte]), ([1, 0], [])] \<le> unat MAX_SIZE" by (simp add: MAX_SIZE_def)
  moreover have "\<forall>(k, v) \<in> set [([1 :: byte], [2, 3 :: byte]), ([1, 0], [])].
      length k \<le> unat MAX_SIZE \<and> length v \<le> unat MAX_SIZE" by (simp add: MAX_SIZE_def)
  ultimately show ?thesis by (rule string_map_roundtrip [THEN conjunct1])
qed

end
