(* ===== verification/MerkleBlock.thy ===== *)
theory MerkleBlock
  imports Merkle Serialize "HOL-Library.Sublist"
begin

unbundle bit_operations_syntax

text \<open>
  Partial Merkle trees: \<^verbatim>\<open>src/src/merkleblock.cpp\<close> and \<^verbatim>\<open>src/src/merkleblock.h\<close>.  A partial tree
  proves to a light client that some transactions belong to a block: the constructor
  \<open>CPartialMerkleTree::CPartialMerkleTree\<close> (\<open>new_CPartialMerkleTree\<close>) walks the tree of a block and records flag bits and hashes,
  \<open>ExtractMatches\<close> walks the same tree on the recorded data, which come from the network.

  The hash of two nodes is the argument \<open>H\<close>.  Heights and positions are \<open>nat\<close>: a position is
  below the width of its level.  The counters of \<open>TraverseAndExtract\<close>, the matches it collects
  and the flag \<open>fBad\<close> are the record \<open>extract_state\<close>.
\<close>

definition MAX_BLOCK_SIZE_CURRENT :: nat where
  "MAX_BLOCK_SIZE_CURRENT = 2000000"

record 'h CPartialMerkleTree =
  nTransactions :: u32
  vBits :: "bool list"
  vHash :: "'h list"
  fBad :: bool

section \<open>The tree\<close>

definition CalcTreeWidth :: "u32 \<Rightarrow> nat \<Rightarrow> u32" where
  "CalcTreeWidth n height = drop_bit height (n + push_bit height 1 - 1)"

text \<open>The loops \<open>while (CalcTreeWidth(nHeight) > 1) nHeight++\<close>: no height reaches 32.\<close>

lemma CalcTreeWidth_height: "CalcTreeWidth n height > 1 \<Longrightarrow> height < 31"
proof (rule ccontr)
  assume "CalcTreeWidth n height > 1" "\<not> height < 31"
  define m where "m = n + push_bit height 1 - 1"
  have "unat (drop_bit height m) = unat m div 2 ^ height"
    by (simp only: unat_drop_bit_eq) (simp add: drop_bit_eq_div)
  also have "\<dots> \<le> unat m div 2 ^ 31"
    using \<open>\<not> height < 31\<close> by (intro div_le_mono2 power_increasing) simp_all
  also have "\<dots> < 2"
    using unsigned_less [of m, where ?'a = nat] by (intro less_mult_imp_div_less) simp
  finally show False
    using \<open>CalcTreeWidth n height > 1\<close> by (simp add: CalcTreeWidth_def m_def word_less_nat_alt)
qed

function tree_height :: "u32 \<Rightarrow> nat \<Rightarrow> nat" where
  "tree_height n nHeight = (if CalcTreeWidth n nHeight > 1 then tree_height n (nHeight + 1) else nHeight)"
  by pat_completeness auto
termination
  by (relation "measure (\<lambda>(_, nHeight). 31 - nHeight)") (auto dest: CalcTreeWidth_height)

declare tree_height.simps [simp del]

fun CalcHash :: "'h combine \<Rightarrow> u32 \<Rightarrow> nat \<Rightarrow> nat \<Rightarrow> 'h list \<Rightarrow> 'h" where
  "CalcHash H n 0 pos vTxid = vTxid ! pos"
| "CalcHash H n (Suc height) pos vTxid =
     (let left = CalcHash H n height (pos * 2) vTxid;
          right = (if pos * 2 + 1 < unat (CalcTreeWidth n height)
                   then CalcHash H n height (pos * 2 + 1) vTxid else left)
      in H left right)"

definition parent_of_match :: "u32 \<Rightarrow> bool list \<Rightarrow> nat \<Rightarrow> nat \<Rightarrow> bool" where
  "parent_of_match n vMatch height pos =
     foldl (\<lambda>fParentOfMatch p. fParentOfMatch \<or> vMatch ! p) False
       [pos * 2 ^ height ..< min ((pos + 1) * 2 ^ height) (unat n)]"

fun TraverseAndBuild ::
  "'h combine \<Rightarrow> nat \<Rightarrow> nat \<Rightarrow> 'h list \<Rightarrow> bool list \<Rightarrow> 'h CPartialMerkleTree \<Rightarrow> 'h CPartialMerkleTree" where
  "TraverseAndBuild H height pos vTxid vMatch t =
     (let fParentOfMatch = parent_of_match (nTransactions t) vMatch height pos;
          t = t\<lparr>vBits := vBits t @ [fParentOfMatch]\<rparr>
      in if height = 0 \<or> \<not> fParentOfMatch then
           t\<lparr>vHash := vHash t @ [CalcHash H (nTransactions t) height pos vTxid]\<rparr>
         else
           let t = TraverseAndBuild H (height - 1) (pos * 2) vTxid vMatch t
           in if pos * 2 + 1 < unat (CalcTreeWidth (nTransactions t) (height - 1))
              then TraverseAndBuild H (height - 1) (pos * 2 + 1) vTxid vMatch t
              else t)"

declare TraverseAndBuild.simps [simp del]

definition new_CPartialMerkleTree :: "'h combine \<Rightarrow> 'h list \<Rightarrow> bool list \<Rightarrow> 'h CPartialMerkleTree" where
  "new_CPartialMerkleTree H vTxid vMatch =
     (let t = \<lparr>nTransactions = of_nat (length vTxid), vBits = [], vHash = [], fBad = False\<rparr>
      in TraverseAndBuild H (tree_height (nTransactions t) 0) 0 vTxid vMatch t)"

section \<open>Extraction\<close>

record 'h extract_state =
  nBitsUsed :: nat
  nHashUsed :: nat
  xMatch :: "'h list"
  xBad :: bool

fun TraverseAndExtract ::
  "'h combine \<Rightarrow> 'h \<Rightarrow> 'h CPartialMerkleTree \<Rightarrow> nat \<Rightarrow> nat \<Rightarrow> 'h extract_state \<Rightarrow> 'h \<times> 'h extract_state" where
  "TraverseAndExtract H zero t height pos x =
     (if nBitsUsed x \<ge> length (vBits t) then (zero, x\<lparr>xBad := True\<rparr>)
      else
        let fParentOfMatch = vBits t ! nBitsUsed x;
            x = x\<lparr>nBitsUsed := nBitsUsed x + 1\<rparr>
        in if height = 0 \<or> \<not> fParentOfMatch then
             (if nHashUsed x \<ge> length (vHash t) then (zero, x\<lparr>xBad := True\<rparr>)
              else
                let hash = vHash t ! nHashUsed x;
                    x = x\<lparr>nHashUsed := nHashUsed x + 1\<rparr>;
                    x = (if height = 0 \<and> fParentOfMatch then x\<lparr>xMatch := xMatch x @ [hash]\<rparr> else x)
                in (hash, x))
           else
             case TraverseAndExtract H zero t (height - 1) (pos * 2) x of (left, x) \<Rightarrow>
               (case (if pos * 2 + 1 < unat (CalcTreeWidth (nTransactions t) (height - 1))
                      then TraverseAndExtract H zero t (height - 1) (pos * 2 + 1) x
                      else (left, x)) of (right, x) \<Rightarrow> (H left right, x)))"

declare TraverseAndExtract.simps [simp del]

text \<open>The result: the root or \<open>zero\<close>, the vector of matches, and the tree with its flag.\<close>

definition ExtractMatches ::
  "'h combine \<Rightarrow> 'h \<Rightarrow> 'h CPartialMerkleTree \<Rightarrow> 'h \<times> 'h list \<times> 'h CPartialMerkleTree" where
  "ExtractMatches H zero t =
     (if nTransactions t = 0 then (zero, [], t)
      else if unat (nTransactions t) > MAX_BLOCK_SIZE_CURRENT div 60 then (zero, [], t)
      else if length (vHash t) > unat (nTransactions t) then (zero, [], t)
      else if length (vBits t) < length (vHash t) then (zero, [], t)
      else
        case TraverseAndExtract H zero t (tree_height (nTransactions t) 0) 0
               \<lparr>nBitsUsed = 0, nHashUsed = 0, xMatch = [], xBad = fBad t\<rparr> of
          (hashMerkleRoot, x) \<Rightarrow>
            let t' = t\<lparr>fBad := xBad x\<rparr>
            in if xBad x then (zero, xMatch x, t')
               else if (nBitsUsed x + 7) div 8 \<noteq> (length (vBits t) + 7) div 8 then (zero, xMatch x, t')
               else if nHashUsed x \<noteq> length (vHash t) then (zero, xMatch x, t')
               else (hashMerkleRoot, xMatch x, t'))"

section \<open>Serialization\<close>

definition pack_bits :: "bool list \<Rightarrow> bytes" where
  "pack_bits bits =
     foldl (\<lambda>vBytes p. vBytes[p div 8 := vBytes ! (p div 8) OR push_bit (p mod 8) (of_bool (bits ! p))])
       (replicate ((length bits + 7) div 8) 0) [0..<length bits]"

definition unpack_bits :: "bytes \<Rightarrow> bool list" where
  "unpack_bits vBytes =
     map (\<lambda>p. vBytes ! (p div 8) AND push_bit (p mod 8) 1 \<noteq> 0) [0..<length vBytes * 8]"

definition pmt_Serialize :: "u256 CPartialMerkleTree \<Rightarrow> bytes" where
  "pmt_Serialize t = WRITEDATA 4 (nTransactions t) @ Serialize_vector (WRITEDATA 32) (vHash t)
     @ Serialize_bytes (pack_bits (vBits t))"

definition pmt_Unserialize :: "bytes \<Rightarrow> u256 CPartialMerkleTree read_result option" where
  "pmt_Unserialize s =
     (case READDATA 4 s of Inl e \<Rightarrow> Some (Inl e) | Inr (n, s) \<Rightarrow>
        case Unserialize_vector (READDATA 32) 32 s of None \<Rightarrow> None
        | Some (Inl e) \<Rightarrow> Some (Inl e)
        | Some (Inr (hashes, s)) \<Rightarrow>
            case Unserialize_bytes s of Inl e \<Rightarrow> Some (Inl e) | Inr (vBytes, s) \<Rightarrow>
              Some (Inr (\<lparr>nTransactions = n, vBits = unpack_bits vBytes, vHash = hashes, fBad = False\<rparr>, s)))"

section \<open>Widths and heights\<close>

lemma unat_CalcTreeWidth:
  assumes "unat n \<le> 2 ^ 31" "h < 31"
  shows "unat (CalcTreeWidth n h) = width (unat n) h"
proof -
  have p: "unat (push_bit h 1 :: u32) = 2 ^ h"
  proof -
    have "(2::nat) ^ h < 2 ^ 32" using assms(2) by (intro power_strict_increasing) simp_all
    moreover have "(push_bit h 1 :: u32) = word_of_nat (2 ^ h)" by (simp add: push_bit_eq_mult)
    ultimately show ?thesis by (simp only: unat_of_nat) simp
  qed
  have h: "(2::nat) ^ h \<le> 2 ^ 30" using assms(2) by (intro power_increasing) simp_all
  have s: "unat (n + push_bit h 1) = unat n + 2 ^ h"
    using assms(1) h by (simp only: unat_word_ariths p) simp
  moreover have "(1 :: u32) \<le> n + push_bit h 1" using zero_less_power [of "2::nat" h] by (simp only: word_le_nat_alt s unsigned_1) linarith
  ultimately have "unat (n + push_bit h 1 - 1) = unat n + 2 ^ h - 1" by (simp only: unat_sub unsigned_1)
  then show ?thesis
    by (simp add: CalcTreeWidth_def width_def unat_drop_bit_eq) (simp add: drop_bit_eq_div)
qed

lemma width_1: "n \<le> 2 ^ k \<Longrightarrow> width n k \<le> 1"
proof -
  assume n: "n \<le> 2 ^ k"
  have "n + 2 ^ k - 1 < 2 * 2 ^ k" using n zero_less_power [of "2::nat" k] by linarith
  then have "(n + 2 ^ k - 1) div 2 ^ k < 2" by (rule less_mult_imp_div_less)
  then show "width n k \<le> 1" by (simp add: width_def)
qed

lemma tree_height_first:
  assumes n: "0 < unat n" "unat n \<le> 2 ^ 30"
  shows "h \<le> 30 \<Longrightarrow> \<forall>j < h. width (unat n) j \<noteq> 1 \<Longrightarrow>
    tree_height n h \<le> 30 \<and> width (unat n) (tree_height n h) = 1 \<and>
    (\<forall>j < tree_height n h. width (unat n) j \<noteq> 1)"
proof (induction "30 - h" arbitrary: h)
  case (0 h)
  then have h: "h = 30" by simp
  have "width (unat n) h = 1"
    unfolding h using width_1 [OF n(2)] width_pos [OF n(1), of 30] by linarith
  moreover from this have "tree_height n h = h"
    using unat_CalcTreeWidth [of n h] 0 n by (subst tree_height.simps) (simp add: word_less_nat_alt)
  ultimately show ?case using 0 by simp
next
  case (Suc k h)
  have w: "unat (CalcTreeWidth n h) = width (unat n) h" "0 < width (unat n) h"
    using unat_CalcTreeWidth [of n h] Suc(2,3) n width_pos by auto
  show ?case
  proof (cases "width (unat n) h = 1")
    case True
    then have "tree_height n h = h" using w by (subst tree_height.simps) (simp add: word_less_nat_alt)
    with True Suc show ?thesis by simp
  next
    case False
    then have "tree_height n h = tree_height n (h + 1)"
      using w by (subst tree_height.simps) (auto simp: word_less_nat_alt)
    moreover have "k = 30 - (h + 1)" "h + 1 \<le> 30" using Suc(2) by simp_all
    ultimately show ?thesis
      using Suc(1) [of "h + 1"] Suc.prems False by (auto simp: less_Suc_eq)
  qed
qed

lemmas tree_height_0 = tree_height_first [where h = 0, simplified]

lemma root_of_height:
  assumes "0 < length l" "length l \<le> 2 ^ 30" "unat n = length l"
  shows "merkle_root H zero l = lev H (tree_height n 0) l ! 0" "width (length l) (tree_height n 0) = 1"
    "tree_height n 0 < 31"
  using tree_height_0 [of n] merkle_root_lev [of l "tree_height n 0" H zero] assms by auto

lemma node_inside: "pos * 2 ^ h < n \<longleftrightarrow> pos < width n h"
proof -
  have "(0::nat) < 2 ^ h" by simp
  have r: "n \<le> width n h * 2 ^ h" "width n h * 2 ^ h < n + 2 ^ h"
    using width_round(1) [of n h] width_round(2) [where n = n and k = h] by (simp_all add: mult.commute)
  show ?thesis
  proof (cases "pos < width n h")
    case True
    then have "Suc pos * 2 ^ h \<le> width n h * 2 ^ h" by (intro mult_le_mono1) simp
    then have "pos * 2 ^ h < n" using r unfolding mult_Suc by linarith
    with True show ?thesis by simp
  next
    case False
    then have "width n h * 2 ^ h \<le> pos * 2 ^ h" by (intro mult_le_mono1) simp
    then have "\<not> pos * 2 ^ h < n" using r by linarith
    with False show ?thesis by simp
  qed
qed

section \<open>The nodes of the partial tree\<close>

text \<open>The hash of a node is the node of the reference tree.\<close>

lemma CalcHash_lev:
  assumes "unat n = length l" "length l \<le> 2 ^ 30"
  shows "h < 31 \<Longrightarrow> pos < width (length l) h \<Longrightarrow> CalcHash H n h pos l = lev H h l ! pos"
proof (induction h arbitrary: pos)
  case (Suc h)
  have w: "unat (CalcTreeWidth n h) = width (length l) h"
    using unat_CalcTreeWidth [of n h] assms Suc.prems by simp
  have "pos < (width (length l) h + 1) div 2" using Suc.prems by (simp add: width_Suc)
  then consider "2 * pos + 1 < width (length l) h" | "2 * pos + 1 = width (length l) h" by linarith
  then show ?case
  proof cases
    case 1
    then show ?thesis using Suc lev_pair [OF 1, of H] by (simp add: w mult.commute Let_def)
  next
    case 2
    then show ?thesis using Suc lev_odd [OF 2, of H] by (simp add: w mult.commute Let_def)
  qed
qed simp

text \<open>The pairs of a transaction and its match below a node.\<close>

definition below :: "nat \<Rightarrow> nat \<Rightarrow> 'a list \<Rightarrow> 'a list" where
  "below h pos z = take (2 ^ h) (drop (pos * 2 ^ h) z)"

lemma below_0: "pos < length z \<Longrightarrow> below 0 pos z = [z ! pos]"
  by (simp add: below_def take_Suc_conv_app_nth hd_drop_conv_nth take_Suc)

lemma below_Suc: "below (Suc h) pos z = below h (pos * 2) z @ below h (pos * 2 + 1) z"
proof -
  have "take (2 ^ h + 2 ^ h) (drop (pos * 2 ^ Suc h) z) =
      take (2 ^ h) (drop (pos * 2 ^ Suc h) z) @ take (2 ^ h) (drop (2 ^ h) (drop (pos * 2 ^ Suc h) z))"
    by (rule take_add)
  then show ?thesis by (simp add: below_def algebra_simps mult_2)
qed

lemma below_outside: "width (length z) h \<le> pos \<Longrightarrow> below h pos z = []"
  using node_inside [of pos h "length z"] by (simp add: below_def)

lemma below_root: "width (length z) h = 1 \<Longrightarrow> below h 0 z = z"
  using width_round(1) [of "length z" h] by (simp add: below_def)

lemma parent_of_match_iff:
  assumes "unat n = length m"
  shows "parent_of_match n m h pos \<longleftrightarrow> True \<in> set (below h pos m)"
proof -
  have "foldl (\<lambda>f p. f \<or> m ! p) b ps \<longleftrightarrow> b \<or> (\<exists>p \<in> set ps. m ! p)" for b ps
    by (induction ps arbitrary: b) auto
  then have "parent_of_match n m h pos \<longleftrightarrow> (\<exists>p. pos * 2 ^ h \<le> p \<and> p < (pos + 1) * 2 ^ h \<and> p < length m \<and> m ! p)"
    by (auto simp: parent_of_match_def assms)
  also have "\<dots> \<longleftrightarrow> (\<exists>i < 2 ^ h. pos * 2 ^ h + i < length m \<and> m ! (pos * 2 ^ h + i))"
  proof
    assume "\<exists>p. pos * 2 ^ h \<le> p \<and> p < (pos + 1) * 2 ^ h \<and> p < length m \<and> m ! p"
    then obtain p where "pos * 2 ^ h \<le> p" "p < (pos + 1) * 2 ^ h" "p < length m" "m ! p" by blast
    then show "\<exists>i < 2 ^ h. pos * 2 ^ h + i < length m \<and> m ! (pos * 2 ^ h + i)"
      by (intro exI [of _ "p - pos * 2 ^ h"]) simp
  next
    assume "\<exists>i < 2 ^ h. pos * 2 ^ h + i < length m \<and> m ! (pos * 2 ^ h + i)"
    then obtain i where "i < 2 ^ h" "pos * 2 ^ h + i < length m" "m ! (pos * 2 ^ h + i)" by blast
    then show "\<exists>p. pos * 2 ^ h \<le> p \<and> p < (pos + 1) * 2 ^ h \<and> p < length m \<and> m ! p"
      by (intro exI [of _ "pos * 2 ^ h + i"]) simp
  qed
  also have "\<dots> \<longleftrightarrow> True \<in> set (below h pos m)"
    by (auto simp: below_def in_set_conv_nth less_diff_conv add.commute)
  finally show ?thesis .
qed

text \<open>The bits and hashes recorded for a node.\<close>

fun node_bits :: "bool list \<Rightarrow> nat \<Rightarrow> nat \<Rightarrow> bool list" where
  "node_bits m 0 pos = [True \<in> set (below 0 pos m)]"
| "node_bits m (Suc h) pos =
     (if True \<in> set (below (Suc h) pos m) then
        True # node_bits m h (pos * 2) @ (if pos * 2 + 1 < width (length m) h then node_bits m h (pos * 2 + 1) else [])
      else [False])"

fun node_hashes :: "'h combine \<Rightarrow> 'h list \<Rightarrow> bool list \<Rightarrow> nat \<Rightarrow> nat \<Rightarrow> 'h list" where
  "node_hashes H l m 0 pos = [l ! pos]"
| "node_hashes H l m (Suc h) pos =
     (if True \<in> set (below (Suc h) pos m) then
        node_hashes H l m h (pos * 2) @
          (if pos * 2 + 1 < width (length m) h then node_hashes H l m h (pos * 2 + 1) else [])
      else [lev H (Suc h) l ! pos])"

lemma TraverseAndBuild_nodes:
  assumes "length m = length l" "length l \<le> 2 ^ 30"
  shows "h < 31 \<Longrightarrow> pos < width (length l) h \<Longrightarrow> unat (nTransactions t) = length l \<Longrightarrow>
    TraverseAndBuild H h pos l m t =
      t\<lparr>vBits := vBits t @ node_bits m h pos, vHash := vHash t @ node_hashes H l m h pos\<rparr>"
proof (induction h arbitrary: pos t)
  case 0
  then show ?case using assms by (subst TraverseAndBuild.simps) (simp add: parent_of_match_iff)
next
  case (Suc h)
  have w: "unat (CalcTreeWidth (nTransactions t) h) = width (length l) h"
    using unat_CalcTreeWidth [of "nTransactions t" h] assms Suc.prems by simp
  have "pos < (width (length l) h + 1) div 2" using Suc.prems by (simp add: width_Suc)
  then have "pos * 2 < width (length l) h" by linarith
  then show ?case
    using assms Suc w CalcHash_lev [of "nTransactions t" l "Suc h" pos H]
    by (subst TraverseAndBuild.simps) (simp add: parent_of_match_iff Let_def)
qed

lemma length_node_hashes: "length (node_hashes H l m h pos) \<le> length (node_bits m h pos)"
  by (induction h arbitrary: pos) (simp_all, meson add_le_mono le_SucI)

lemma node_hashes_leaves:
  "pos < width (length m) h \<Longrightarrow> length (node_hashes H l m h pos) \<le> length (below h pos m)"
proof (induction h arbitrary: pos)
  case (Suc h)
  have p: "pos * 2 < width (length m) h"
    using Suc.prems by (simp add: width_Suc)
  have "below (Suc h) pos m \<noteq> []"
    using Suc.prems node_inside [of pos "Suc h" "length m"] by (auto simp: below_def)
  then have "1 \<le> length (below (Suc h) pos m)" by (cases "below (Suc h) pos m") simp_all
  then show ?case
    using Suc.IH [OF p] Suc.IH [of "pos * 2 + 1"] by (auto simp: below_Suc simp del: length_0_conv)
qed (simp add: below_0)

section \<open>What was built is extracted\<close>

definition matched :: "'h list \<Rightarrow> bool list \<Rightarrow> 'h list" where
  "matched l m = map fst (filter snd (zip l m))"

lemma below_zip: "below h pos (zip l m) = zip (below h pos l) (below h pos m)"
  by (simp add: below_def take_zip drop_zip)

lemma no_match: "True \<notin> set m \<Longrightarrow> matched l m = []"
  by (auto simp: matched_def filter_empty_conv dest: set_zip_rightD)

lemma matched_below_Suc:
  assumes "length m = length l"
  shows "matched (below (Suc h) pos l) (below (Suc h) pos m) =
    matched (below h (pos * 2) l) (below h (pos * 2) m) @ matched (below h (pos * 2 + 1) l) (below h (pos * 2 + 1) m)"
proof -
  have "length (below h p l) = length (below h p m)" for p by (simp add: below_def assms)
  then show ?thesis by (simp add: below_Suc matched_def)
qed

lemma TraverseAndExtract_nodes:
  assumes "length m = length l" "length l \<le> 2 ^ 30" "unat (nTransactions t) = length l"
  shows "h < 31 \<Longrightarrow> pos < width (length l) h \<Longrightarrow>
    vBits t = B @ node_bits m h pos @ B' \<Longrightarrow> vHash t = Hs @ node_hashes H l m h pos @ Hs' \<Longrightarrow>
    nBitsUsed x = length B \<Longrightarrow> nHashUsed x = length Hs \<Longrightarrow>
    TraverseAndExtract H zero t h pos x =
      (lev H h l ! pos, x\<lparr>nBitsUsed := length (B @ node_bits m h pos),
         nHashUsed := length (Hs @ node_hashes H l m h pos),
         xMatch := xMatch x @ matched (below h pos l) (below h pos m)\<rparr>)"
proof (induction h arbitrary: pos x B B' Hs Hs')
  case 0
  then show ?case
    using assms by (subst TraverseAndExtract.simps) (auto simp: Let_def nth_append below_0 matched_def)
next
  case (Suc h)
  have w: "unat (CalcTreeWidth (nTransactions t) h) = width (length l) h"
    using unat_CalcTreeWidth [of "nTransactions t" h] assms Suc.prems by simp
  have "pos < (width (length l) h + 1) div 2" using Suc.prems by (simp add: width_Suc)
  then have p: "pos * 2 < width (length l) h" and
    odd: "pos * 2 + 1 < width (length l) h \<or> pos * 2 + 1 = width (length l) h" by linarith+
  show ?case
  proof (cases "True \<in> set (below (Suc h) pos m)")
    case False
    then show ?thesis
      using Suc.prems by (subst TraverseAndExtract.simps) (simp add: Let_def nth_append no_match)
  next
    case True
    let ?x1 = "x\<lparr>nBitsUsed := length (B @ [True])\<rparr>"
    let ?x2 = "x\<lparr>nBitsUsed := length (B @ [True] @ node_bits m h (pos * 2)),
       nHashUsed := length (Hs @ node_hashes H l m h (pos * 2)),
       xMatch := xMatch x @ matched (below h (pos * 2) l) (below h (pos * 2) m)\<rparr>"
    have L: "TraverseAndExtract H zero t h (pos * 2) ?x1 = (lev H h l ! (pos * 2), ?x2)"
      using Suc.IH [of "pos * 2" "B @ [True]" _ Hs _ ?x1] p Suc.prems True by simp
    show ?thesis
    proof (cases "pos * 2 + 1 < width (length l) h")
      case True1: True
      have "TraverseAndExtract H zero t h (pos * 2 + 1) ?x2 = (lev H h l ! (pos * 2 + 1),
          ?x2\<lparr>nBitsUsed := length ((B @ [True] @ node_bits m h (pos * 2)) @ node_bits m h (pos * 2 + 1)),
            nHashUsed := length ((Hs @ node_hashes H l m h (pos * 2)) @ node_hashes H l m h (pos * 2 + 1)),
            xMatch := xMatch ?x2 @ matched (below h (pos * 2 + 1) l) (below h (pos * 2 + 1) m)\<rparr>)"
        using Suc.prems True True1 assms(1) by (intro Suc.IH [of _ _ B' _ Hs']) simp_all
      then show ?thesis
        using Suc.prems True True1 L w assms(1) lev_pair [of pos l h H] matched_below_Suc [OF assms(1), of h pos]
        by (subst TraverseAndExtract.simps) (simp add: Let_def nth_append mult.commute)
    next
      case False
      then have e: "2 * pos + 1 = width (length l) h" using odd by simp
      then have "below h (pos * 2 + 1) l = []" "below h (pos * 2 + 1) m = []"
        using assms(1) by (simp_all add: below_outside mult.commute)
      then show ?thesis
        using Suc.prems True False L w assms(1) lev_odd [OF e, of H] matched_below_Suc [OF assms(1), of h pos]
        by (subst TraverseAndExtract.simps) (simp add: Let_def nth_append mult.commute matched_def)
    qed
  qed
qed

section \<open>Flag bits in bytes\<close>

definition packs :: "bool list \<Rightarrow> nat \<Rightarrow> bytes \<Rightarrow> bool" where
  "packs bits k v \<longleftrightarrow> (\<forall>i < length v. \<forall>j < 8. bit (v ! i) j \<longleftrightarrow> 8 * i + j < k \<and> bits ! (8 * i + j))"

lemma packs_step:
  assumes "packs bits k v"
  shows "packs bits (Suc k) (v[k div 8 := v ! (k div 8) OR push_bit (k mod 8) (of_bool (bits ! k))])"
  unfolding packs_def
proof (intro allI impI)
  fix i j :: nat
  assume i: "i < length (v[k div 8 := v ! (k div 8) OR push_bit (k mod 8) (of_bool (bits ! k))])" and j: "j < 8"
  have old: "bit (v ! i) j \<longleftrightarrow> 8 * i + j < k \<and> bits ! (8 * i + j)"
    using assms i j by (simp add: packs_def)
  have eq: "i = k div 8 \<and> j = k mod 8 \<longleftrightarrow> 8 * i + j = k" using j by auto
  show "bit (v[k div 8 := v ! (k div 8) OR push_bit (k mod 8) (of_bool (bits ! k))] ! i) j \<longleftrightarrow>
      8 * i + j < Suc k \<and> bits ! (8 * i + j)"
  proof (cases "i = k div 8")
    case True
    then have "bit (push_bit (k mod 8) (of_bool (bits ! k)) :: byte) j \<longleftrightarrow> 8 * i + j = k \<and> bits ! k"
      using j eq by (auto simp: bit_simps)
    then show ?thesis using True i old by (auto simp: bit_or_iff less_Suc_eq)
  next
    case False
    then have "8 * i + j \<noteq> k" using eq by blast
    with False i old show ?thesis by (simp add: less_Suc_eq)
  qed
qed

lemma packs_pack_bits:
  "packs bits (length bits) (pack_bits bits) \<and> length (pack_bits bits) = (length bits + 7) div 8"
proof -
  let ?f = "\<lambda>v p. v[p div 8 := v ! (p div 8) OR push_bit (p mod 8) (of_bool (bits ! p))]"
  let ?z = "replicate ((length bits + 7) div 8) (0 :: byte)"
  have "packs bits k (foldl ?f ?z [0..<k]) \<and> length (foldl ?f ?z [0..<k]) = (length bits + 7) div 8" for k
  proof (induction k)
    case 0
    then show ?case by (simp add: packs_def)
  next
    case (Suc k)
    then show ?case by (simp add: packs_step)
  qed
  then show ?thesis by (simp add: pack_bits_def)
qed

lemma unpack_pack_bits:
  "unpack_bits (pack_bits bits) = bits @ replicate ((length bits + 7) div 8 * 8 - length bits) False"
proof (rule nth_equalityI)
  note P = packs_pack_bits [of bits]
  show "length (unpack_bits (pack_bits bits)) =
      length (bits @ replicate ((length bits + 7) div 8 * 8 - length bits) False)"
    using P by (simp add: unpack_bits_def)
  fix p assume "p < length (unpack_bits (pack_bits bits))"
  then have p: "p < (length bits + 7) div 8 * 8" using P by (simp add: unpack_bits_def)
  have "unpack_bits (pack_bits bits) ! p = bit (pack_bits bits ! (p div 8)) (p mod 8)"
    using p P by (simp add: unpack_bits_def and_exp_eq_0_iff_not_bit push_bit_eq_mult)
  also have "\<dots> \<longleftrightarrow> p < length bits \<and> bits ! p"
    using p P by (simp add: packs_def less_mult_imp_div_less)
  finally show "unpack_bits (pack_bits bits) ! p =
      (bits @ replicate ((length bits + 7) div 8 * 8 - length bits) False) ! p"
    using p by (auto simp: nth_append)
qed

section \<open>What is extracted belongs to the tree\<close>

text \<open>\<open>fBad\<close> stays set, and the counters stay inside the two vectors.\<close>

lemma TraverseAndExtract_bounds:
  "TraverseAndExtract H zero t h pos x = (hash, x') \<Longrightarrow>
   nBitsUsed x \<le> length (vBits t) \<Longrightarrow> nHashUsed x \<le> length (vHash t) \<Longrightarrow> length (xMatch x) \<le> nHashUsed x \<Longrightarrow>
   nBitsUsed x' \<le> length (vBits t) \<and> nHashUsed x' \<le> length (vHash t) \<and> length (xMatch x') \<le> nHashUsed x' \<and>
   (xBad x \<longrightarrow> xBad x')"
proof (induction h arbitrary: pos x hash x')
  case 0
  then show ?case by (subst (asm) TraverseAndExtract.simps) (auto simp: Let_def split: if_splits)
next
  case (Suc h)
  show ?case
  proof (cases "nBitsUsed x < length (vBits t) \<and> vBits t ! nBitsUsed x")
    case False
    with Suc.prems show ?thesis
      by (subst (asm) TraverseAndExtract.simps) (auto simp: Let_def split: if_splits)
  next
    case True
    obtain left x1 where L: "TraverseAndExtract H zero t h (pos * 2) (x\<lparr>nBitsUsed := nBitsUsed x + 1\<rparr>) = (left, x1)"
      by force
    obtain right x2 where R: "TraverseAndExtract H zero t h (pos * 2 + 1) x1 = (right, x2)"
      by force
    have "x' = x1 \<or> x' = x2"
      using Suc.prems(1) True L R by (subst (asm) TraverseAndExtract.simps) (auto simp: Let_def split: if_splits)
    then show ?thesis
      using Suc.IH [OF L] Suc.IH [OF R] Suc.prems(2-4) True by auto
  qed
qed

lemma TraverseAndExtract_bad:
  "TraverseAndExtract H zero t h pos x = (hash, x') \<Longrightarrow> xBad x \<Longrightarrow> xBad x'"
proof (induction h arbitrary: pos x hash x')
  case 0
  then show ?case by (subst (asm) TraverseAndExtract.simps) (auto simp: Let_def split: if_splits)
next
  case (Suc h)
  obtain left x1 where L: "TraverseAndExtract H zero t h (pos * 2) (x\<lparr>nBitsUsed := nBitsUsed x + 1\<rparr>) = (left, x1)"
    by force
  obtain right x2 where R: "TraverseAndExtract H zero t h (pos * 2 + 1) x1 = (right, x2)"
    by force
  show ?case
    using Suc.prems Suc.IH [OF L] Suc.IH [OF R] L R
    by (subst (asm) TraverseAndExtract.simps) (auto simp: Let_def split: if_splits)
qed

text \<open>
  The pairs of nodes that are hashed: by the extraction from a node on, and in the first
  levels of the tree of the transactions \<open>l\<close>.
\<close>

fun extraction_pairs ::
  "'h combine \<Rightarrow> 'h \<Rightarrow> 'h CPartialMerkleTree \<Rightarrow> nat \<Rightarrow> nat \<Rightarrow> 'h extract_state \<Rightarrow> ('h \<times> 'h) list" where
  "extraction_pairs H zero t 0 pos x = []"
| "extraction_pairs H zero t (Suc height) pos x =
     (if nBitsUsed x < length (vBits t) \<and> vBits t ! nBitsUsed x then
        let x = x\<lparr>nBitsUsed := nBitsUsed x + 1\<rparr>
        in case TraverseAndExtract H zero t height (pos * 2) x of (left, x1) \<Rightarrow>
             (if pos * 2 + 1 < unat (CalcTreeWidth (nTransactions t) height)
              then extraction_pairs H zero t height (pos * 2) x @ extraction_pairs H zero t height (pos * 2 + 1) x1
                @ [(left, fst (TraverseAndExtract H zero t height (pos * 2 + 1) x1))]
              else extraction_pairs H zero t height (pos * 2) x @ [(left, left)])
      else [])"

declare extraction_pairs.simps [simp del]

definition tree_pairs :: "'h combine \<Rightarrow> nat \<Rightarrow> 'h list \<Rightarrow> ('h \<times> 'h) list" where
  "tree_pairs H h l = concat (map (\<lambda>k. let v = lev H k l in
     map (\<lambda>j. (v ! (2 * j), if 2 * j + 1 < length v then v ! (2 * j + 1) else v ! (2 * j))) [0..<(length v + 1) div 2]) [0..<h])"

lemma tree_pairs_member:
  assumes "k < h" "j < width (length l) (Suc k)"
  shows "(lev H k l ! (2 * j), if 2 * j + 1 < width (length l) k then lev H k l ! (2 * j + 1) else lev H k l ! (2 * j))
    \<in> set (tree_pairs H h l)"
  using assms by (auto simp: tree_pairs_def Let_def width_Suc intro!: bexI [of _ k])

abbreviation no_collision :: "'h combine \<Rightarrow> ('h \<times> 'h) list \<Rightarrow> bool" where
  "no_collision H ps \<equiv> inj_on (\<lambda>(a, b). H a b) (set ps)"

lemma no_collisionD:
  "no_collision H (ps @ qs) \<Longrightarrow> (a, b) \<in> set ps \<Longrightarrow> (c, d) \<in> set qs \<Longrightarrow> H a b = H c d \<Longrightarrow> a = c \<and> b = d"
  by (auto dest!: inj_onD [of _ _ "(a, b)" "(c, d)"])

lemma TraverseAndExtract_sound:
  assumes n: "length l \<le> 2 ^ 30" "unat (nTransactions t) = length l"
  shows "TraverseAndExtract H zero t h pos x = (hash, x') \<Longrightarrow> h \<le> root_height \<Longrightarrow> h < 31 \<Longrightarrow> pos < width (length l) h \<Longrightarrow>
    \<not> xBad x' \<Longrightarrow> hash = lev H h l ! pos \<Longrightarrow> no_collision H (extraction_pairs H zero t h pos x @ tree_pairs H root_height l) \<Longrightarrow>
    \<exists>ms. xMatch x' = xMatch x @ ms \<and> subseq ms (below h pos l)"
proof (induction h arbitrary: pos x hash x')
  case 0
  then show ?case
    by (subst (asm) TraverseAndExtract.simps) (auto simp: Let_def below_0 split: if_splits)
next
  case (Suc h)
  let ?x = "x\<lparr>nBitsUsed := nBitsUsed x + 1\<rparr>"
  have w: "unat (CalcTreeWidth (nTransactions t) h) = width (length l) h"
    using unat_CalcTreeWidth [of "nTransactions t" h] n Suc.prems(3) by simp
  have "pos < (width (length l) h + 1) div 2" using Suc.prems(4) by (simp add: width_Suc)
  then have p: "pos * 2 < width (length l) h" and
    odd: "pos * 2 + 1 < width (length l) h \<or> pos * 2 + 1 = width (length l) h" by linarith+
  have le: "h \<le> root_height" "h < 31" using Suc.prems(2,3) by simp_all
  have tree: "(lev H h l ! (pos * 2), if pos * 2 + 1 < width (length l) h then lev H h l ! (pos * 2 + 1) else lev H h l ! (pos * 2))
      \<in> set (tree_pairs H root_height l)"
    using tree_pairs_member [of h root_height pos l H] Suc.prems(2,4) by (simp add: mult.commute split: if_splits)
  note IH = Suc.IH [OF _ le]
  show ?case
  proof (cases "nBitsUsed x < length (vBits t) \<and> vBits t ! nBitsUsed x")
    case False
    with Suc.prems(1,5) show ?thesis
      by (subst (asm) TraverseAndExtract.simps) (auto simp: Let_def split: if_splits)
  next
    case True
    obtain left x1 where L: "TraverseAndExtract H zero t h (pos * 2) ?x = (left, x1)" by force
    show ?thesis
    proof (cases "pos * 2 + 1 < width (length l) h")
      case True1: True
      obtain right x2 where R: "TraverseAndExtract H zero t h (pos * 2 + 1) x1 = (right, x2)" by force
      then have "TraverseAndExtract H zero t (Suc h) pos x = (H left right, x2)"
        using True True1 L w by (subst TraverseAndExtract.simps) (simp add: Let_def)
      then have e: "hash = H left right" "x' = x2" using Suc.prems(1) by simp_all
      have ps: "extraction_pairs H zero t (Suc h) pos x = extraction_pairs H zero t h (pos * 2) ?x
          @ extraction_pairs H zero t h (pos * 2 + 1) x1 @ [(left, right)]"
        using True True1 L R w by (simp add: Let_def extraction_pairs.simps)
      have "H left right = H (lev H h l ! (pos * 2)) (lev H h l ! (pos * 2 + 1))"
        using Suc.prems(6) lev_pair [of pos l h H] True1 e by (simp add: mult.commute)
      then have lr: "left = lev H h l ! (pos * 2)" "right = lev H h l ! (pos * 2 + 1)"
        using no_collisionD [OF Suc.prems(7), of left right] tree True1 by (simp_all add: ps)
      have nc: "no_collision H (extraction_pairs H zero t h (pos * 2) ?x @ tree_pairs H root_height l)"
        "no_collision H (extraction_pairs H zero t h (pos * 2 + 1) x1 @ tree_pairs H root_height l)"
        by (rule inj_on_subset [OF Suc.prems(7)]; auto simp: ps)+
      have "\<not> xBad x1" using TraverseAndExtract_bad [OF R] Suc.prems(5) e by blast
      then obtain ms1 where m1: "xMatch x1 = xMatch x @ ms1" "subseq ms1 (below h (pos * 2) l)"
        using IH [OF L p _ lr(1) nc(1)] by auto
      obtain ms2 where "xMatch x2 = xMatch x1 @ ms2" "subseq ms2 (below h (pos * 2 + 1) l)"
        using IH [OF R True1 _ lr(2) nc(2)] Suc.prems(5) e by auto
      with m1 show ?thesis
        by (intro exI [of _ "ms1 @ ms2"]) (simp add: e below_Suc list_emb_append_mono)
    next
      case False
      then have o: "2 * pos + 1 = width (length l) h" using odd by simp
      have "TraverseAndExtract H zero t (Suc h) pos x = (H left left, x1)"
        using True False L w by (subst TraverseAndExtract.simps) (simp add: Let_def)
      then have e: "hash = H left left" "x' = x1" using Suc.prems(1) by simp_all
      have ps: "extraction_pairs H zero t (Suc h) pos x = extraction_pairs H zero t h (pos * 2) ?x @ [(left, left)]"
        using True False L w by (simp add: Let_def extraction_pairs.simps)
      have "H left left = H (lev H h l ! (pos * 2)) (lev H h l ! (pos * 2))"
        using Suc.prems(6) lev_odd [OF o, of H] e by (simp add: mult.commute)
      then have left: "left = lev H h l ! (pos * 2)"
        using no_collisionD [OF Suc.prems(7), of left left] tree False by (simp add: ps)
      have "no_collision H (extraction_pairs H zero t h (pos * 2) ?x @ tree_pairs H root_height l)"
        by (rule inj_on_subset [OF Suc.prems(7)]) (auto simp: ps)
      then obtain ms1 where m1: "xMatch x1 = xMatch x @ ms1" "subseq ms1 (below h (pos * 2) l)"
        using IH [OF L p _ left] Suc.prems(5) e by auto
      then show ?thesis
        using list_emb_append_mono [OF m1(2), of "[]"] by (intro exI [of _ ms1]) (simp add: e below_Suc)
    qed
  qed
qed

section \<open>Properties\<close>

lemma new_CPartialMerkleTree_nodes:
  assumes "length vMatch = length vTxid" "0 < length vTxid" "length vTxid \<le> 2 ^ 30"
  defines "h \<equiv> tree_height (of_nat (length vTxid)) 0"
  shows "new_CPartialMerkleTree H vTxid vMatch =
    \<lparr>nTransactions = of_nat (length vTxid), vBits = node_bits vMatch h 0,
     vHash = node_hashes H vTxid vMatch h 0, fBad = False\<rparr>"
proof -
  have "unat (of_nat (length vTxid) :: u32) = length vTxid"
    using assms(3) by (simp add: unat_of_nat)
  moreover from this have "width (length vTxid) h = 1" "h < 31"
    using root_of_height [of vTxid] assms(2,3) by (simp_all add: h_def)
  ultimately show ?thesis
    using assms by (simp add: new_CPartialMerkleTree_def Let_def TraverseAndBuild_nodes)
qed

lemma ExtractMatches_padded:
  assumes "length vMatch = length vTxid" "0 < length vTxid" "length vTxid \<le> MAX_BLOCK_SIZE_CURRENT div 60"
    and t: "t = new_CPartialMerkleTree H vTxid vMatch" and pad: "(length (vBits t @ B) + 7) div 8 = (length (vBits t) + 7) div 8"
  shows "ExtractMatches H zero (t\<lparr>vBits := vBits t @ B\<rparr>) =
    (merkle_root H zero vTxid, matched vTxid vMatch, t\<lparr>vBits := vBits t @ B\<rparr>)"
proof -
  define n :: u32 where "n = of_nat (length vTxid)"
  define h where "h = tree_height n 0"
  have len: "length vTxid \<le> 2 ^ 30" using assms(3) by (simp add: MAX_BLOCK_SIZE_CURRENT_def)
  then have n: "unat n = length vTxid" by (simp add: n_def unat_of_nat)
  have h: "merkle_root H zero vTxid = lev H h vTxid ! 0" "width (length vTxid) h = 1" "h < 31"
    using root_of_height [OF assms(2) len n] by (simp_all add: h_def)
  have T: "t = \<lparr>nTransactions = n, vBits = node_bits vMatch h 0, vHash = node_hashes H vTxid vMatch h 0, fBad = False\<rparr>"
    using new_CPartialMerkleTree_nodes [OF assms(1,2) len, of H] by (simp add: t h_def n_def)
  have "length (node_hashes H vTxid vMatch h 0) \<le> length vTxid"
    using node_hashes_leaves [of 0 vMatch h H vTxid] h(2) assms(1) by (simp add: below_root)
  moreover have "length (node_hashes H vTxid vMatch h 0) \<le> length (node_bits vMatch h 0 @ B)"
    using length_node_hashes [of H vTxid vMatch h 0] by simp
  moreover have "TraverseAndExtract H zero (t\<lparr>vBits := vBits t @ B\<rparr>) h 0
      \<lparr>nBitsUsed = 0, nHashUsed = 0, xMatch = [], xBad = False\<rparr> =
      (lev H h vTxid ! 0, \<lparr>nBitsUsed = length (node_bits vMatch h 0),
        nHashUsed = length (node_hashes H vTxid vMatch h 0), xMatch = matched vTxid vMatch, xBad = False\<rparr>)"
    using TraverseAndExtract_nodes [OF assms(1) len, of "t\<lparr>vBits := vBits t @ B\<rparr>" h 0 "[]" B "[]" H "[]"
        "\<lparr>nBitsUsed = 0, nHashUsed = 0, xMatch = [], xBad = False\<rparr>" zero] n h assms(1)
    by (simp add: T below_root)
  moreover have "n \<noteq> 0" using n assms(2) by auto
  ultimately show ?thesis
    using assms(3) pad n h(1)
    by (simp add: ExtractMatches_def T h_def [symmetric] Let_def not_less [symmetric] del: length_append)
qed

lemma length_node_bits: "length (node_bits m h pos) < 2 ^ Suc h"
proof (induction h arbitrary: pos)
  case (Suc h)
  show ?case using Suc.IH [of "pos * 2"] Suc.IH [of "pos * 2 + 1"] by simp
qed simp

lemma new_CPartialMerkleTree_sizes:
  assumes "length vMatch = length vTxid" "0 < length vTxid" "length vTxid \<le> 2 ^ 16"
  shows "length (vHash (new_CPartialMerkleTree H vTxid vMatch)) \<le> length vTxid"
    and "length (vBits (new_CPartialMerkleTree H vTxid vMatch)) < 2 ^ 17"
    and "\<not> fBad (new_CPartialMerkleTree H vTxid vMatch)"
proof -
  define n :: u32 where "n = of_nat (length vTxid)"
  define h where "h = tree_height n 0"
  have len: "length vTxid \<le> 2 ^ 30" using assms(3) by simp
  then have n: "unat n = length vTxid" by (simp add: n_def unat_of_nat)
  have h: "width (length vTxid) h = 1" "\<forall>j < h. width (length vTxid) j \<noteq> 1"
    using tree_height_0 [of n] n len assms(2) by (simp_all add: h_def)
  have "width (length vTxid) 16 = 1"
    using width_1 [OF assms(3)] width_pos [OF assms(2), of 16] by linarith
  with h(2) have "h \<le> 16" by (meson linorder_not_le)
  then have "(2::nat) ^ Suc h \<le> 2 ^ 17" by (intro power_increasing) simp_all
  moreover have T: "new_CPartialMerkleTree H vTxid vMatch = \<lparr>nTransactions = n, vBits = node_bits vMatch h 0,
      vHash = node_hashes H vTxid vMatch h 0, fBad = False\<rparr>"
    using new_CPartialMerkleTree_nodes [OF assms(1,2) len, of H] by (simp add: h_def n_def)
  ultimately show "length (vBits (new_CPartialMerkleTree H vTxid vMatch)) < 2 ^ 17"
    using length_node_bits [of vMatch h 0] by simp
  show "length (vHash (new_CPartialMerkleTree H vTxid vMatch)) \<le> length vTxid" "\<not> fBad (new_CPartialMerkleTree H vTxid vMatch)"
    using node_hashes_leaves [of 0 vMatch h H vTxid] h assms(1) by (simp_all add: T below_root)
qed

lemma pmt_roundtrip:
  assumes "length (vHash t) \<le> 0x02000000" "(length (vBits t) + 7) div 8 \<le> 0x02000000" "\<not> fBad t"
  shows "pmt_Unserialize (pmt_Serialize t @ r) = Some (Inr
    (t\<lparr>vBits := vBits t @ replicate ((length (vBits t) + 7) div 8 * 8 - length (vBits t)) False\<rparr>, r))"
proof -
  have "Unserialize_vector (READDATA 32) 32 (Serialize_vector (WRITEDATA 32) (vHash t) @ s) = Some (Inr (vHash t, s))" for s
    using u256.Unserialize_vector_ser [of 32 "vHash t" s] assms(1) by (simp add: list_all_iff)
  moreover have "Unserialize_bytes (Serialize_bytes (pack_bits (vBits t)) @ r) = Inr (pack_bits (vBits t), r)"
    using packs_pack_bits [of "vBits t"] assms(2) by (intro blob.unser_ser) simp
  ultimately show ?thesis
    using assms(3) by (simp add: pmt_Unserialize_def pmt_Serialize_def u32.unser_ser unpack_pack_bits
      del: Serialize_bytes_append)
qed

text \<open>
  C23: A partial tree built from the transactions of a block, serialized, read back by the peer
  and extracted there gives the Merkle root of the block and exactly the matched transactions,
  in order.
\<close>

theorem partial_tree_roundtrip:
  assumes "length vMatch = length vTxid" "0 < length vTxid" "length vTxid \<le> MAX_BLOCK_SIZE_CURRENT div 60"
  shows "\<exists>t. pmt_Unserialize (pmt_Serialize (new_CPartialMerkleTree H vTxid vMatch) @ r) = Some (Inr (t, r)) \<and>
    ExtractMatches H 0 t = (merkle_root H 0 vTxid, map fst (filter snd (zip vTxid vMatch)), t)"
proof -
  define t where "t = new_CPartialMerkleTree H vTxid vMatch"
  define B where "B = replicate ((length (vBits t) + 7) div 8 * 8 - length (vBits t)) False"
  have "pmt_Unserialize (pmt_Serialize t @ r) = Some (Inr (t\<lparr>vBits := vBits t @ B\<rparr>, r))"
  proof -
    have "length vTxid \<le> 2 ^ 16" using assms(3) by (simp add: MAX_BLOCK_SIZE_CURRENT_def)
    note sz = new_CPartialMerkleTree_sizes [OF assms(1,2) this, of H, folded t_def]
    then have "length (vHash t) \<le> 0x02000000" "length (vBits t) + 7 \<le> 2 ^ 18"
      using \<open>length vTxid \<le> 2 ^ 16\<close> by simp_all
    moreover from this(2) have "(length (vBits t) + 7) div 8 \<le> 0x02000000" by simp
    ultimately show ?thesis unfolding B_def using sz(3) by (intro pmt_roundtrip)
  qed
  moreover have "ExtractMatches H 0 (t\<lparr>vBits := vBits t @ B\<rparr>) =
      (merkle_root H 0 vTxid, matched vTxid vMatch, t\<lparr>vBits := vBits t @ B\<rparr>)"
    by (rule ExtractMatches_padded [OF assms t_def]) (simp add: B_def)
  ultimately show ?thesis by (auto simp: t_def matched_def)
qed

theorem partial_tree_roundtrip_witness:
  "\<exists>t. pmt_Unserialize (pmt_Serialize (new_CPartialMerkleTree (\<lambda>a b. 2 * a + b) [3, 1, 4] [True, False, True]) @ [7])
      = Some (Inr (t, [7])) \<and>
    ExtractMatches (\<lambda>a b. 2 * a + b) 0 t = (merkle_root (\<lambda>a b. 2 * a + b) 0 [3, 1, 4], [3, 4], t)"
  using partial_tree_roundtrip [of "[True, False, True]" "[3, 1, 4]" "\<lambda>a b. 2 * a + b" "[7]"]
  by (simp add: MAX_BLOCK_SIZE_CURRENT_def)

text \<open>
  C22: A partial tree from an untrusted peer that claims the right number of transactions cannot
  prove a transaction into a block it is not part of.  If \<open>ExtractMatches\<close> returns the Merkle root
  of a block with exactly as many transactions as the tree claims, then the transactions it
  extracts are transactions of that block, in the order of the block, unless the pairs hashed
  by the extraction and in the tree of the block contain a collision of the hash.  The claimed
  number has to be the right one: the root itself, sent as the only transaction, is extracted too.
\<close>

theorem ExtractMatches_sound:
  assumes "unat (nTransactions t) = length vTxid"
    and "ExtractMatches H zero t = (merkle_root H zero vTxid, vMatch, t')"
    and "merkle_root H zero vTxid \<noteq> zero"
    and "inj_on (\<lambda>(a, b). H a b) (set
      (extraction_pairs H zero t (tree_height (nTransactions t) 0) 0 \<lparr>nBitsUsed = 0, nHashUsed = 0, xMatch = [], xBad = fBad t\<rparr>
       @ tree_pairs H (tree_height (nTransactions t) 0) vTxid))"
  shows "subseq vMatch vTxid"
proof -
  define h where "h = tree_height (nTransactions t) 0"
  obtain root x where T: "TraverseAndExtract H zero t h 0 \<lparr>nBitsUsed = 0, nHashUsed = 0, xMatch = [], xBad = fBad t\<rparr> = (root, x)"
    by force
  have r: "root = merkle_root H zero vTxid" "xMatch x = vMatch" "\<not> xBad x" "nTransactions t \<noteq> 0"
    "unat (nTransactions t) \<le> MAX_BLOCK_SIZE_CURRENT div 60"
    using assms(2,3) T by (auto simp: ExtractMatches_def h_def Let_def split: if_splits)
  have "0 < unat (nTransactions t)" using r(4) by (simp add: unat_gt_0)
  with r(5) have len: "0 < length vTxid" "length vTxid \<le> 2 ^ 30"
    unfolding assms(1) by (simp_all add: MAX_BLOCK_SIZE_CURRENT_def)
  note root = root_of_height [OF len assms(1), folded h_def]
  have "root = lev H h vTxid ! 0" using r(1) root(1) by simp
  then show ?thesis
    using TraverseAndExtract_sound [OF len(2) assms(1) T order_refl root(3) _ r(3) _ assms(4) [folded h_def]] root(2) r(2)
    by (auto simp: below_root)
qed

lemma tree_height_3: "tree_height 3 0 = 2"
proof -
  have w: "CalcTreeWidth 3 0 = 3" "CalcTreeWidth 3 1 = 2" "CalcTreeWidth 3 2 = 1"
    by (simp_all add: CalcTreeWidth_def)
  have "tree_height 3 2 = 2" by (subst tree_height.simps) (simp add: w)
  then have "tree_height 3 1 = 2" by (subst tree_height.simps) (simp add: w [simplified] numeral_2_eq_2)
  then show ?thesis by (subst tree_height.simps) (simp add: w)
qed

lemma three_leaves:
  "new_CPartialMerkleTree H [a, b, c] [False, False, True] =
     \<lparr>nTransactions = 3, vBits = [True, False, True, True], vHash = [H a b, c], fBad = False\<rparr>"
proof -
  have w: "width 3 0 = 3" "width 3 (Suc 0) = 2" by (simp_all add: width_def)
  have len: "length [False, False, True] = 3" "length [a, b, c] = 3" by simp_all
  have "node_bits [False, False, True] (Suc (Suc 0)) 0 = [True, False, True, True]"
    by (simp only: node_bits.simps len w) (simp add: below_def)
  moreover have "node_hashes H [a, b, c] [False, False, True] (Suc (Suc 0)) 0 = [H a b, c]"
    by (simp only: node_hashes.simps len w) (simp add: below_def lev_Suc)
  moreover have "tree_height (of_nat (length [a, b, c])) 0 = Suc (Suc 0)"
    using tree_height_3 by simp
  ultimately show ?thesis
    using new_CPartialMerkleTree_nodes [of "[False, False, True]" "[a, b, c]" H] by simp
qed

text \<open>A hash of 256 bits that has no collision among the pairs of this small tree.\<close>

theorem ExtractMatches_sound_witness:
  "ExtractMatches (\<lambda>a b. 256 * a + b) 0 \<lparr>nTransactions = 3, vBits = [True, False, True, True], vHash = [258, 3], fBad = False\<rparr>
     = (merkle_root (\<lambda>a b. 256 * a + b) 0 [1, 2, 3 :: u256], [3], \<lparr>nTransactions = 3, vBits = [True, False, True, True], vHash = [258, 3], fBad = False\<rparr>)
   \<and> subseq [3] [1, 2, 3 :: u256]"
proof -
  let ?H = "\<lambda>a b. 256 * a + b :: u256"
  let ?t = "\<lparr>nTransactions = 3, vBits = [True, False, True, True], vHash = [258, 3], fBad = False\<rparr> :: u256 CPartialMerkleTree"
  let ?x = "\<lparr>nBitsUsed = 0, nHashUsed = 0, xMatch = [], xBad = fBad ?t\<rparr>"
  have t: "?t = new_CPartialMerkleTree ?H [1, 2, 3] [False, False, True]" by (simp add: three_leaves)
  have e: "ExtractMatches ?H 0 ?t = (merkle_root ?H 0 [1, 2, 3], [3], ?t)"
    using ExtractMatches_padded [of "[False, False, True]" "[1, 2, 3]" ?t ?H "[]" 0] t
    by (simp add: MAX_BLOCK_SIZE_CURRENT_def matched_def)
  have w: "CalcTreeWidth 3 0 = 3" "CalcTreeWidth 3 (Suc 0) = 2" by (simp_all add: CalcTreeWidth_def)
  have "extraction_pairs ?H 0 ?t (Suc (Suc 0)) 0 ?x = [(3, 3), (258, 771)]"
    by (simp add: extraction_pairs.simps TraverseAndExtract.simps w Let_def)
  moreover have "tree_pairs ?H (Suc (Suc 0)) [1, 2, 3] = [(1, 2), (3, 3), (258, 771)]"
    by (simp add: tree_pairs_def lev_def upt_rec Let_def)
  ultimately have "no_collision ?H (extraction_pairs ?H 0 ?t (tree_height (nTransactions ?t) 0) 0 ?x
      @ tree_pairs ?H (tree_height (nTransactions ?t) 0) [1, 2, 3])"
    by (simp only: tree_height_3 CPartialMerkleTree.simps numeral_2_eq_2) (auto simp: inj_on_def)
  moreover have "merkle_root ?H 0 [1, 2, 3] \<noteq> 0" by (simp add: merkle_root.simps)
  ultimately show ?thesis using ExtractMatches_sound [OF _ e] e by simp
qed

text \<open>
  Whatever the peer sends, the traversal stays inside the two vectors it was given, and it
  extracts no more transactions than there are hashes.
\<close>

theorem ExtractMatches_bounds:
  "(case TraverseAndExtract H zero t height pos \<lparr>nBitsUsed = 0, nHashUsed = 0, xMatch = [], xBad = bad\<rparr> of
      (_, x) \<Rightarrow> nBitsUsed x \<le> length (vBits t) \<and> nHashUsed x \<le> length (vHash t)) \<and>
   (case ExtractMatches H zero t of (_, vMatch, _) \<Rightarrow> length vMatch \<le> length (vHash t))"
proof -
  have T: "nBitsUsed x \<le> length (vBits t) \<and> nHashUsed x \<le> length (vHash t) \<and> length (xMatch x) \<le> length (vHash t)"
    if "TraverseAndExtract H zero t k p \<lparr>nBitsUsed = 0, nHashUsed = 0, xMatch = [], xBad = b\<rparr> = (r, x)" for k p b r x
    using TraverseAndExtract_bounds [OF that] by auto
  then show ?thesis
    by (auto simp: ExtractMatches_def Let_def split: prod.split)
qed

text \<open>
  The documented size bound of \<open>2 * N - 1\<close> flag bits for \<open>N\<close> hashes does not hold: a node
  without a sibling costs a bit and no hash, so that matching the last of three transactions
  takes four bits and two hashes.
\<close>

theorem flag_bits_exceed_documented_bound:
  "length (vBits (new_CPartialMerkleTree H [a, b, c] [False, False, True])) = 4 \<and>
   length (vHash (new_CPartialMerkleTree H [a, b, c] [False, False, True])) = 2"
  by (simp add: three_leaves)

end
