(* ===== verification/UInt256.thy ===== *)
theory UInt256
  imports Prelude
begin

unbundle bit_operations_syntax

text \<open>
  The unsigned big integers of \<^verbatim>\<open>src/src/uint256.h\<close> and \<^verbatim>\<open>src/src/uint256.cpp\<close>: an array of \<open>WIDTH\<close>
  limbs of 32 bits, the least significant first.  The template \<open>base_uint<BITS>\<close> is modelled for
  every width: \<open>WIDTH\<close> is the length of the list.  Loops over the limbs that pass on a carry are
  recursions over the list; loops that write limbs by index are folds over the indices.

  \<open>val\<close> is the number an array stands for.  Every operator is shown to compute on \<open>val\<close> what its
  name says, modulo \<open>2 ^ (32 * WIDTH)\<close>.
\<close>

type_synonym limbs = "u32 list"

section \<open>The code\<close>

definition IsNull :: "limbs \<Rightarrow> bool" where
  "IsNull pn = list_all (\<lambda>x. x = 0) pn"

text \<open>Assignment from and construction of a \<open>uint64_t\<close>, in \<open>w\<close> limbs.\<close>

definition set_u64 :: "nat \<Rightarrow> u64 \<Rightarrow> limbs" where
  "set_u64 w b = [ucast b, ucast (drop_bit 32 b)] @ replicate (w - 2) 0"

definition op_not :: "limbs \<Rightarrow> limbs" where
  "op_not pn = map (\<lambda>x. NOT x) pn"

fun op_inc :: "limbs \<Rightarrow> limbs" where
  "op_inc [] = []"
| "op_inc (x # pn) = (if x + 1 = 0 \<and> pn \<noteq> [] then (x + 1) # op_inc pn else (x + 1) # pn)"

fun op_dec :: "limbs \<Rightarrow> limbs" where
  "op_dec [] = []"
| "op_dec (x # pn) = (if x - 1 = - 1 \<and> pn \<noteq> [] then (x - 1) # op_dec pn else (x - 1) # pn)"

definition op_neg :: "limbs \<Rightarrow> limbs" where
  "op_neg pn = op_inc (op_not pn)"

definition op_xor :: "limbs \<Rightarrow> limbs \<Rightarrow> limbs" where
  "op_xor pn b = map2 (\<lambda>x y. x XOR y) pn b"

definition op_and :: "limbs \<Rightarrow> limbs \<Rightarrow> limbs" where
  "op_and pn b = map2 (\<lambda>x y. x AND y) pn b"

definition op_or :: "limbs \<Rightarrow> limbs \<Rightarrow> limbs" where
  "op_or pn b = map2 (\<lambda>x y. x OR y) pn b"

fun add_loop :: "u64 \<Rightarrow> limbs \<Rightarrow> limbs \<Rightarrow> limbs" where
  "add_loop carry (p # pn) (q # b) =
     (let n = carry + ucast p + ucast q
      in ucast (n AND 0xffffffff) # add_loop (drop_bit 32 n) pn b)"
| "add_loop carry pn b = []"

definition op_add :: "limbs \<Rightarrow> limbs \<Rightarrow> limbs" where
  "op_add pn b = add_loop 0 pn b"

definition op_sub :: "limbs \<Rightarrow> limbs \<Rightarrow> limbs" where
  "op_sub pn b = op_add pn (op_neg b)"

definition op_shl :: "limbs \<Rightarrow> nat \<Rightarrow> limbs" where
  "op_shl a shift =
     (let W = length a;
          k = shift div 32;
          shift = shift mod 32
      in foldl (\<lambda>pn i.
           let pn = (if i + k + 1 < W \<and> shift \<noteq> 0
                     then pn[i + k + 1 := pn ! (i + k + 1) OR drop_bit (32 - shift) (a ! i)] else pn)
           in if i + k < W then pn[i + k := pn ! (i + k) OR push_bit shift (a ! i)] else pn)
         (replicate W 0) [0..<W])"

definition op_shr :: "limbs \<Rightarrow> nat \<Rightarrow> limbs" where
  "op_shr a shift =
     (let W = length a;
          k = shift div 32;
          shift = shift mod 32
      in foldl (\<lambda>pn i.
           let pn = (if k + 1 \<le> i \<and> shift \<noteq> 0
                     then pn[i - k - 1 := pn ! (i - k - 1) OR push_bit (32 - shift) (a ! i)] else pn)
           in if k \<le> i then pn[i - k := pn ! (i - k) OR drop_bit shift (a ! i)] else pn)
         (replicate W 0) [0..<W])"

fun mul32_loop :: "u64 \<Rightarrow> u32 \<Rightarrow> limbs \<Rightarrow> limbs" where
  "mul32_loop carry b32 [] = []"
| "mul32_loop carry b32 (p # pn) =
     (let n = carry + ucast b32 * ucast p
      in ucast (n AND 0xffffffff) # mul32_loop (drop_bit 32 n) b32 pn)"

definition op_mul32 :: "limbs \<Rightarrow> u32 \<Rightarrow> limbs" where
  "op_mul32 pn b32 = mul32_loop 0 b32 pn"

text \<open>
  The product takes its right operand by reference: another object, or \<open>*this\<close>, which the loops
  overwrite while they read it.
\<close>

datatype operand = Other limbs | This

definition operand_limb :: "operand \<Rightarrow> limbs \<Rightarrow> nat \<Rightarrow> u32" where
  "operand_limb b pn i = (case b of Other q \<Rightarrow> q ! i | This \<Rightarrow> pn ! i)"

definition mul_step :: "operand \<Rightarrow> u32 \<Rightarrow> nat \<Rightarrow> limbs \<times> u64 \<Rightarrow> nat \<Rightarrow> limbs \<times> u64" where
  "mul_step b aj j s i =
     (case s of (pn, carry) \<Rightarrow>
        let n = carry + ucast (pn ! (i + j)) + ucast aj * ucast (operand_limb b pn i)
        in (pn[i + j := ucast (n AND 0xffffffff)], drop_bit 32 n))"

definition op_mul_assign :: "limbs \<Rightarrow> operand \<Rightarrow> limbs" where
  "op_mul_assign a b =
     foldl (\<lambda>pn j. fst (foldl (mul_step b (a ! j) j) (pn, 0) [0..<length a - j])) (replicate (length a) 0) [0..<length a]"

abbreviation op_mul :: "limbs \<Rightarrow> limbs \<Rightarrow> limbs" where
  "op_mul a b \<equiv> op_mul_assign a (Other b)"

text \<open>The loop \<open>for (int i = WIDTH - 1; i >= 0; i--)\<close> of the comparison; the limbs are passed highest first.\<close>

fun compare_loop :: "limbs \<Rightarrow> limbs \<Rightarrow> int" where
  "compare_loop (p # pn) (q # b) = (if p < q then - 1 else if p > q then 1 else compare_loop pn b)"
| "compare_loop pn b = 0"

definition CompareTo :: "limbs \<Rightarrow> limbs \<Rightarrow> int" where
  "CompareTo pn b = compare_loop (rev pn) (rev b)"

definition EqualTo :: "limbs \<Rightarrow> u64 \<Rightarrow> bool" where
  "EqualTo pn b \<longleftrightarrow>
     \<not> (\<exists>i \<in> set (rev [2..<length pn]). pn ! i \<noteq> 0) \<and> ucast (pn ! 1) = drop_bit 32 b
     \<and> ucast (pn ! 0) = b AND 0xffffffff"

text \<open>\<open>bits\<close>: the two loops, over the limbs from the highest and over the bits of the first one set.\<close>

fun top_bit :: "u32 \<Rightarrow> nat \<Rightarrow> nat" where
  "top_bit x 0 = 0"
| "top_bit x (Suc b) = (if x AND push_bit (Suc b) 1 \<noteq> 0 then Suc b else top_bit x b)"

fun bits_loop :: "limbs \<Rightarrow> nat \<Rightarrow> nat" where
  "bits_loop pn 0 = 0"
| "bits_loop pn (Suc pos) = (if pn ! pos \<noteq> 0 then 32 * pos + top_bit (pn ! pos) 31 + 1 else bits_loop pn pos)"

definition bits :: "limbs \<Rightarrow> nat" where
  "bits pn = bits_loop pn (length pn)"

datatype uint_error = Division_by_zero

fun div_loop :: "nat \<Rightarrow> limbs \<Rightarrow> limbs \<Rightarrow> limbs \<Rightarrow> limbs" where
  "div_loop 0 num d pn =
     (if CompareTo num d \<ge> 0 then pn[0 := pn ! 0 OR push_bit 0 1] else pn)"
| "div_loop (Suc shift) num d pn =
     (if CompareTo num d \<ge> 0 then
        div_loop shift (op_sub num d) (op_shr d 1)
          (pn[Suc shift div 32 := pn ! (Suc shift div 32) OR push_bit (Suc shift mod 32) 1])
      else div_loop shift num (op_shr d 1) pn)"

definition op_div :: "limbs \<Rightarrow> limbs \<Rightarrow> uint_error + limbs" where
  "op_div num d =
     (let num_bits = bits num;
          div_bits = bits d;
          pn = replicate (length num) 0
      in if div_bits = 0 then Inl Division_by_zero
         else if div_bits > num_bits then Inr pn
         else
           let shift = num_bits - div_bits
           in Inr (div_loop shift num (op_shl d shift) pn))"

definition GetLow64 :: "limbs \<Rightarrow> u64" where
  "GetLow64 pn = ucast (pn ! 0) OR push_bit 32 (ucast (pn ! 1))"

section \<open>The compact form\<close>

text \<open>The number, \<open>*pfNegative\<close> and \<open>*pfOverflow\<close>; 8 limbs.\<close>

definition SetCompact :: "u32 \<Rightarrow> limbs \<times> bool \<times> bool" where
  "SetCompact nCompact =
     (let nSize = unat (drop_bit 24 nCompact);
          nWord = nCompact AND 0x007fffff;
          nWord = (if nSize \<le> 3 then drop_bit (8 * (3 - nSize)) nWord else nWord);
          this = (if nSize \<le> 3 then set_u64 8 (ucast nWord) else op_shl (set_u64 8 (ucast nWord)) (8 * (nSize - 3)));
          fNegative = (nWord \<noteq> 0 \<and> nCompact AND 0x00800000 \<noteq> 0);
          fOverflow = (nWord \<noteq> 0 \<and> (nSize > 34 \<or> (nWord > 0xff \<and> nSize > 33) \<or> (nWord > 0xffff \<and> nSize > 32)))
      in (this, fNegative, fOverflow))"

text \<open>\<open>None\<close> is a failed assertion.\<close>

definition GetCompact :: "limbs \<Rightarrow> bool \<Rightarrow> u32 option" where
  "GetCompact pn fNegative =
     (let nSize = (bits pn + 7) div 8;
          nCompact = (if nSize \<le> 3 then ucast (push_bit (8 * (3 - nSize)) (GetLow64 pn))
                      else ucast (GetLow64 (op_shr pn (8 * (nSize - 3)))));
          (nCompact, nSize) = (if nCompact AND 0x00800000 \<noteq> 0 then (drop_bit 8 nCompact, nSize + 1) else (nCompact, nSize))
      in if nCompact AND NOT 0x007fffff \<noteq> 0 then None
         else if \<not> nSize < 256 then None
         else
           let nCompact = nCompact OR push_bit 24 (word_of_nat nSize)
           in Some (nCompact OR (if fNegative \<and> nCompact AND 0x007fffff \<noteq> 0 then 0x00800000 else 0)))"

section \<open>Values\<close>

definition limb_base :: nat where
  "limb_base = 2 ^ 32"

fun val :: "limbs \<Rightarrow> nat" where
  "val [] = 0"
| "val (x # pn) = unat x + limb_base * val pn"

lemma limb_base_power: "limb_base ^ n = 2 ^ (32 * n)"
  by (simp only: limb_base_def power_mult)

lemma limb_base_pos [simp]: "0 < limb_base" "0 < limb_base ^ n"
  by (simp_all add: limb_base_def)

lemma unat_less_base [simp]: "unat (x :: u32) < limb_base"
  using unsigned_less [of x, where ?'a = nat] by (simp add: limb_base_def)

lemma val_less: "val pn < limb_base ^ length pn"
proof (induction pn)
  case (Cons x pn)
  have "unat x + limb_base * val pn < limb_base * (val pn + 1)" by simp
  also have "\<dots> \<le> limb_base * limb_base ^ length pn" using Cons by (intro mult_le_mono2) simp
  finally show ?case by simp
qed simp

lemma val_append: "val (a @ b) = val a + limb_base ^ length a * val b"
  by (induction a) (simp_all add: algebra_simps)

lemma val_zeros [simp]: "val (replicate n 0) = 0"
  by (induction n) simp_all

lemma power_split:
  "lo < limb_base ^ j \<Longrightarrow>
   (lo + limb_base ^ j * h) mod limb_base ^ (j + k) = lo + limb_base ^ j * (h mod limb_base ^ k)"
proof -
  assume "lo < limb_base ^ j"
  then have "(lo + limb_base ^ j * h) mod limb_base ^ j = lo" "(lo + limb_base ^ j * h) div limb_base ^ j = h" by simp_all
  then show ?thesis unfolding power_add mod_mult2_eq by simp
qed

lemma limb_split:
  "lo < limb_base \<Longrightarrow>
   (lo + limb_base * h) mod limb_base ^ Suc k = lo + limb_base * (h mod limb_base ^ k)"
proof -
  assume "lo < limb_base"
  then have "(lo + limb_base * h) mod limb_base = lo" "(lo + limb_base * h) div limb_base = h" by simp_all
  then show ?thesis unfolding power_Suc mod_mult2_eq by simp
qed

text \<open>A 64-bit sum, split into limb and carry.\<close>

lemma low_word: "unat (ucast (n AND 0xffffffff) :: u32) = unat n mod limb_base" for n :: u64
proof -
  have n: "n AND 0xffffffff = take_bit 32 n" using take_bit_eq_mask [of 32 n] by (simp add: mask_eq_exp_minus_1)
  have "unat (take_bit 32 n) = unat n mod limb_base"
    by (simp only: unsigned_take_bit_eq) (simp add: take_bit_eq_mod limb_base_def)
  then show ?thesis by (simp only: n unsigned_ucast_eq) (simp add: take_bit_eq_mod limb_base_def)
qed

lemma carry_word: "unat (drop_bit 32 n) = unat n div limb_base" for n :: u64
  by (simp only: unat_drop_bit_eq) (simp add: drop_bit_eq_div limb_base_def)

lemma unat_u32_u64 [simp]: "unat (ucast (x :: u32) :: u64) = unat x"
proof -
  have "unat x < 2 ^ 64" by (rule less_trans [OF unat_less_base]) (simp add: limb_base_def)
  then show ?thesis by (simp add: unsigned_ucast_eq take_bit_nat_eq_self_iff)
qed

lemma unat_u64_sum:
  fixes a b :: u64
  assumes "unat a + unat b < limb_base * limb_base"
  shows "unat (a + b) = unat a + unat b"
  using assms by (simp add: unat_word_ariths limb_base_def)

lemma unat_u64_prod: "unat (ucast (x :: u32) * ucast (y :: u32) :: u64) = unat x * unat y"
proof -
  have "unat x * unat y < limb_base * limb_base" by (intro mult_strict_mono) simp_all
  then show ?thesis by (simp add: unat_word_ariths limb_base_def)
qed

text \<open>
  One step of a carry loop: the limb is \<open>n\<close> modulo the base, the carry its quotient, and \<open>r\<close> the
  value above.
\<close>

lemma carry_step:
  fixes n :: u64
  assumes "val rest = (unat (drop_bit 32 n) + r) mod limb_base ^ k"
  shows "val (ucast (n AND 0xffffffff) # rest) = (unat n + limb_base * r) mod limb_base ^ Suc k"
proof -
  define N where "N = unat n"
  have "N + limb_base * r = N mod limb_base + limb_base * (N div limb_base + r)"
    by (simp add: distrib_left)
  then show ?thesis
    using limb_split [of "N mod limb_base" "N div limb_base + r" k] assms
    by (simp only: val.simps low_word carry_word N_def [symmetric]) simp
qed

lemma carry_small: "unat (drop_bit 32 n) < limb_base" for n :: u64
  unfolding carry_word using unsigned_less [of n, where ?'a = nat]
  by (intro less_mult_imp_div_less) (simp add: limb_base_def)

section \<open>Sums\<close>

lemma length_add_loop: "length (add_loop c a b) = min (length a) (length b)"
  by (induction c a b rule: add_loop.induct) (simp_all add: Let_def)

lemma sum_small:
  fixes c p q :: nat
  assumes "c < limb_base" "p < limb_base" "q < limb_base"
  shows "c + p < limb_base * limb_base" "c + p + q < limb_base * limb_base"
  using assms by (simp_all add: limb_base_def)

lemma val_add_loop:
  "length a = length b \<Longrightarrow> unat c < limb_base \<Longrightarrow>
   val (add_loop c a b) = (unat c + (val a + val b)) mod limb_base ^ length a"
proof (induction c a b rule: add_loop.induct)
  case (1 c p a q b)
  define n where "n = c + ucast p + ucast q"
  have n: "unat n = unat c + unat p + unat q"
    using sum_small [OF "1.prems"(2), of "unat p" "unat q"] by (simp add: n_def unat_u64_sum)
  have "val (add_loop (drop_bit 32 n) a b) = (unat (drop_bit 32 n) + (val a + val b)) mod limb_base ^ length a"
    using 1 carry_small [of n] by (simp add: n_def)
  from carry_step [OF this] have
    "val (add_loop c (p # a) (q # b)) = (unat n + limb_base * (val a + val b)) mod limb_base ^ Suc (length a)"
    by (simp only: add_loop.simps Let_def n_def)
  then show ?case by (simp add: n algebra_simps)
qed simp_all

lemma length_op [simp]:
  "length (op_not a) = length a" "length (op_inc a) = length a" "length (op_dec a) = length a"
  "length (op_neg a) = length a" "length a = length b \<Longrightarrow> length (op_add a b) = length a"
  "length a = length b \<Longrightarrow> length (op_sub a b) = length a"
proof -
  show i: "length (op_inc a) = length a" for a by (induction a rule: op_inc.induct) auto
  show "length (op_dec a) = length a" by (induction a rule: op_dec.induct) auto
  show n: "length (op_not a) = length a" for a by (simp add: op_not_def)
  show "length (op_neg a) = length a" by (simp add: op_neg_def i n)
  then show "length a = length b \<Longrightarrow> length (op_add a b) = length a"
    "length a = length b \<Longrightarrow> length (op_sub a b) = length a"
    by (simp_all add: op_add_def op_sub_def length_add_loop op_neg_def i n)
qed

lemma val_op_add:
  "length a = length b \<Longrightarrow> val (op_add a b) = (val a + val b) mod limb_base ^ length a"
  by (simp add: op_add_def val_add_loop)

lemma limb_inc:
  fixes x :: u32
  shows "x + 1 = 0 \<Longrightarrow> unat x + 1 = limb_base" "x + 1 \<noteq> 0 \<Longrightarrow> unat (x + 1) = unat x + 1"
proof -
  have "unat (x + 1) = (unat x + 1) mod limb_base" by (simp add: unat_word_ariths limb_base_def)
  moreover have "unat x + 1 \<le> limb_base" using unat_less_base [of x] by linarith
  ultimately show "x + 1 = 0 \<Longrightarrow> unat x + 1 = limb_base" "x + 1 \<noteq> 0 \<Longrightarrow> unat (x + 1) = unat x + 1"
    by (auto simp: word_unat_eq_iff le_less)
qed

lemma val_op_inc: "val (op_inc a) = (val a + 1) mod limb_base ^ length a"
proof (induction a)
  case (Cons x a)
  show ?case
  proof (cases "x + 1 = 0")
    case True
    have "val (x # a) + 1 = 0 + limb_base * (val a + 1)"
      using limb_inc(1) [OF True] by (simp add: distrib_left)
    then have "(val (x # a) + 1) mod limb_base ^ Suc (length a) = limb_base * ((val a + 1) mod limb_base ^ length a)"
      using limb_split [of 0 "val a + 1" "length a"] by (simp only:) simp
    then show ?thesis using True Cons by (cases "a = []") simp_all
  next
    case False
    have "val (x # a) + 1 = unat (x + 1) + limb_base * val a" using limb_inc(2) [OF False] by simp
    then have "(val (x # a) + 1) mod limb_base ^ Suc (length a) = unat (x + 1) + limb_base * (val a mod limb_base ^ length a)"
      using limb_split [of "unat (x + 1)" "val a" "length a"] by (simp only: unat_less_base)
    then show ?thesis using False val_less [of a] by simp
  qed
qed simp

lemma unat_max: "unat (- 1 :: u32) = limb_base - 1"
  by (simp add: unsigned_minus_1_eq_mask mask_eq_exp_minus_1 limb_base_def)

lemma val_op_not: "val (op_not a) + val a + 1 = limb_base ^ length a"
proof (induction a)
  case (Cons x a)
  have "unat (NOT x) + unat x + 1 = limb_base"
  proof -
    have "NOT x = - 1 - x" by (simp add: not_eq_complement)
    then have "unat (NOT x) = unat (- 1 :: u32) - unat x" by (simp only: unat_sub word_n1_ge)
    moreover have "unat (- 1 :: u32) + 1 = limb_base" by (simp add: unat_max) 
    ultimately show ?thesis using unat_less_base [of x] by linarith
  qed
  moreover have "val (op_not (x # a)) + val (x # a) + 1 = unat (NOT x) + unat x + 1 + limb_base * (val (op_not a) + val a)"
    by (simp add: op_not_def algebra_simps)
  ultimately have "val (op_not (x # a)) + val (x # a) + 1 = limb_base * (val (op_not a) + val a + 1)"
    by (simp only:) (simp add: algebra_simps)
  then show ?case using Cons by (simp only: length_Cons power_Suc)
qed (simp add: op_not_def)

lemma val_op_neg: "val (op_neg a) = (limb_base ^ length a - val a) mod limb_base ^ length a"
proof -
  have "val (op_not a) + 1 = limb_base ^ length a - val a" using val_op_not [of a] by linarith
  then show ?thesis by (simp only: op_neg_def val_op_inc length_op)
qed

lemma val_op_sub:
  assumes "length a = length b"
  shows "val (op_sub a b) = (val a + (limb_base ^ length a - val b)) mod limb_base ^ length a"
  using assms by (simp only: op_sub_def val_op_add val_op_neg length_op mod_add_right_eq)

lemma val_op_sub_le:
  assumes "length a = length b" "val b \<le> val a"
  shows "val (op_sub a b) = val a - val b"
proof -
  have "val a + (limb_base ^ length a - val b) = (val a - val b) + limb_base ^ length a"
    using assms val_less [of b] by simp
  moreover have "val a - val b < limb_base ^ length a" using val_less [of a] by linarith
  ultimately show ?thesis by (simp only: val_op_sub [OF assms(1)] mod_add_self2 mod_less)
qed

lemma val_op_dec: "val (op_dec a) = (val a + (limb_base ^ length a - 1)) mod limb_base ^ length a"
proof (induction a)
  case (Cons x a)
  define m where "m = limb_base ^ length a"
  have m: "1 \<le> m" "1 \<le> limb_base" by (simp_all add: m_def Suc_le_eq)
  show ?case
  proof (cases "x = 0")
    case True
    have "limb_base * m - 1 = (limb_base - 1) + limb_base * (m - 1)"
      using m by (simp add: diff_mult_distrib2)
    then have "val (x # a) + (limb_base * m - 1) = (limb_base - 1) + limb_base * (val a + (m - 1))"
      using True by (simp add: algebra_simps)
    then have "(val (x # a) + (limb_base * m - 1)) mod limb_base ^ Suc (length a) =
        (limb_base - 1) + limb_base * ((val a + (m - 1)) mod limb_base ^ length a)"
      using limb_split [of "limb_base - 1" "val a + (m - 1)" "length a"] m by simp
    moreover note unat_max
    ultimately show ?thesis using True Cons by (cases "a = []") (simp_all add: m_def)
  next
    case False
    then have x: "x - 1 \<noteq> - 1" "unat x = unat (x - 1) + 1"
      by (simp_all add: unat_minus_one unat_gt_0)
    have "val (x # a) + (limb_base * m - 1) = (unat (x - 1) + limb_base * val a) + limb_base * m"
      using x(2) m by (simp add: m_def)
    then have "(val (x # a) + (limb_base * m - 1)) mod limb_base ^ Suc (length a) =
        (unat (x - 1) + limb_base * val a) mod limb_base ^ Suc (length a)"
      by (simp only: power_Suc m_def mod_add_self2)
    also have "\<dots> = unat (x - 1) + limb_base * val a"
      using limb_split [of "unat (x - 1)" "val a" "length a"] val_less [of a] by simp
    finally show ?thesis using x(1) by (simp add: m_def)
  qed
qed simp

section \<open>Products\<close>

lemma prod_small:
  fixes c x y p :: nat
  assumes "c < limb_base" "p < limb_base" "x < limb_base" "y < limb_base"
  shows "c + x * y < limb_base * limb_base" "c + p < limb_base * limb_base" "c + p + x * y < limb_base * limb_base"
proof -
  define B where "B = limb_base - 1"
  have le: "c \<le> B" "p \<le> B" "x \<le> B" "y \<le> B" and B: "limb_base = B + 1"
    using assms by (simp_all add: B_def)
  have "x * y \<le> B * B" using le by (intro mult_le_mono)
  then show "c + p + x * y < limb_base * limb_base" using le unfolding B by simp
  then show "c + x * y < limb_base * limb_base" "c + p < limb_base * limb_base" by linarith+
qed

lemma val_mul32_loop:
  "unat c < limb_base \<Longrightarrow> val (mul32_loop c b pn) = (unat c + unat b * val pn) mod limb_base ^ length pn"
proof (induction c b pn rule: mul32_loop.induct)
  case (2 c b p pn)
  define n :: u64 where "n = c + ucast b * ucast p"
  have n: "unat n = unat c + unat b * unat p"
    using prod_small(1) [OF "2.prems", of 0 "unat b" "unat p"] by (simp add: n_def unat_u64_sum unat_u64_prod)
  have "val (mul32_loop (drop_bit 32 n) b pn) = (unat (drop_bit 32 n) + unat b * val pn) mod limb_base ^ length pn"
    using 2 carry_small [of n] by (simp add: n_def)
  from carry_step [OF this] have
    "val (mul32_loop c b (p # pn)) = (unat n + limb_base * (unat b * val pn)) mod limb_base ^ Suc (length pn)"
    by (simp only: mul32_loop.simps Let_def n_def)
  then show ?case by (simp add: n algebra_simps)
qed simp

lemma length_mul32 [simp]: "length (op_mul32 pn b) = length pn"
proof -
  have "length (mul32_loop c b pn) = length pn" for c
    by (induction c b pn rule: mul32_loop.induct) (simp_all add: Let_def)
  then show ?thesis by (simp add: op_mul32_def)
qed

lemma val_op_mul32: "val (op_mul32 pn b) = (unat b * val pn) mod limb_base ^ length pn"
  by (simp add: op_mul32_def val_mul32_loop)

text \<open>The inner loop of the product with another object, on the limbs of \<open>pn\<close> from \<open>j\<close> on.\<close>

fun mul_row :: "u64 \<Rightarrow> u32 \<Rightarrow> limbs \<Rightarrow> limbs \<Rightarrow> limbs" where
  "mul_row carry aj (p # pn) (q # b) =
     (let n = carry + ucast p + ucast aj * ucast q
      in ucast (n AND 0xffffffff) # mul_row (drop_bit 32 n) aj pn b)"
| "mul_row carry aj pn b = []"

lemma mul_step_row:
  assumes "length pn \<le> length b" "i + j \<le> length pn"
  shows "fst (foldl (mul_step (Other b) aj j) (pn, c) [i..<length pn - j]) = take (i + j) pn @ mul_row c aj (drop (i + j) pn) (drop i b)"
  using assms
proof (induction "length pn - (i + j)" arbitrary: i pn c)
  case (Suc k)
  define n where "n = c + ucast (pn ! (i + j)) + ucast aj * ucast (b ! i)"
  let ?pn = "pn[i + j := ucast (n AND 0xffffffff)]"
  have ij: "i + j < length pn" "i < length b" using Suc by linarith+
  have "[i..<length pn - j] = i # [Suc i..<length ?pn - j]" using ij by (simp add: upt_conv_Cons)
  moreover have "mul_step (Other b) aj j (pn, c) i = (?pn, drop_bit 32 n)"
    by (simp add: mul_step_def operand_limb_def n_def Let_def)
  ultimately have "fst (foldl (mul_step (Other b) aj j) (pn, c) [i..<length pn - j]) =
      take (Suc i + j) ?pn @ mul_row (drop_bit 32 n) aj (drop (Suc i + j) ?pn) (drop (Suc i) b)"
    using Suc.hyps(1) [of ?pn "Suc i" "drop_bit 32 n"] Suc.hyps(2) Suc.prems by simp
  moreover have "drop (i + j) pn = pn ! (i + j) # drop (Suc (i + j)) pn" "drop i b = b ! i # drop (Suc i) b"
    using ij by (simp_all add: Cons_nth_drop_Suc)
  ultimately show ?case using ij by (simp add: take_Suc_conv_app_nth n_def Let_def)
qed simp

lemma op_mul_rows:
  assumes "length a = length b"
  shows "op_mul a b = foldl (\<lambda>pn j. take j pn @ mul_row 0 (a ! j) (drop j pn) b) (replicate (length a) 0) [0..<length a]"
proof -
  let ?f = "\<lambda>pn j. fst (foldl (mul_step (Other b) (a ! j) j) (pn, 0) [0..<length a - j])"
    and ?g = "\<lambda>pn j. take j pn @ mul_row 0 (a ! j) (drop j pn) b"
  have len: "length (mul_row c x pn q) = min (length pn) (length q)" for c x pn q
    by (induction c x pn q rule: mul_row.induct) (simp_all add: Let_def)
  have "m \<le> length a \<Longrightarrow> foldl ?f (replicate (length a) 0) [0..<m] = foldl ?g (replicate (length a) 0) [0..<m]
      \<and> length (foldl ?g (replicate (length a) 0) [0..<m]) = length a" for m
  proof (induction m)
    case (Suc m)
    let ?p = "foldl ?g (replicate (length a) 0) [0..<m]"
    have p: "length ?p = length a" "foldl ?f (replicate (length a) 0) [0..<m] = ?p" using Suc by simp_all
    have "?f ?p m = ?g ?p m" using mul_step_row [of ?p b 0 m] p(1) assms Suc.prems by simp
    then show ?case using p Suc.prems assms by (simp add: len)
  qed simp
  then show ?thesis by (simp add: op_mul_assign_def)
qed

text \<open>The product of an object with itself reads the zeros that were just written.\<close>

lemma op_mul_This: "op_mul_assign a This = replicate (length a) 0"
proof -
  let ?z = "replicate (length a) (0 :: u32)"
  have "m \<le> length a - j \<Longrightarrow> foldl (mul_step This aj j) (?z, 0) [0..<m] = (?z, 0)" for aj j m
  proof (induction m)
    case (Suc m)
    then have "m + j < length a" by linarith
    then show ?case using Suc by (simp add: mul_step_def operand_limb_def list_update_same_conv)
  qed simp
  then have "foldl (\<lambda>pn j. fst (foldl (mul_step This (a ! j) j) (pn, 0) [0..<length a - j])) ?z js = ?z" for js
    by (induction js) simp_all
  then show ?thesis by (simp add: op_mul_assign_def)
qed

lemma length_mul_row: "length (mul_row c a pn b) = min (length pn) (length b)"
  by (induction c a pn b rule: mul_row.induct) (simp_all add: Let_def)

lemma val_mul_row:
  "unat c < limb_base \<Longrightarrow> length pn \<le> length b \<Longrightarrow>
   val (mul_row c a pn b) = (unat c + (val pn + unat a * val b)) mod limb_base ^ length pn"
proof (induction c a pn b rule: mul_row.induct)
  case (1 c a p pn q b)
  define n :: u64 where "n = c + ucast p + ucast a * ucast q"
  note s = prod_small [OF "1.prems"(1), of "unat p" "unat a" "unat q", simplified]
  have "unat (c + ucast p) = unat c + unat p" using s(2) by (simp add: unat_u64_sum)
  then have n: "unat n = unat c + unat p + unat a * unat q"
    using s(3) by (simp add: n_def unat_u64_sum unat_u64_prod)
  have "val (mul_row (drop_bit 32 n) a pn b) =
      (unat (drop_bit 32 n) + (val pn + unat a * val b)) mod limb_base ^ length pn"
    using 1 carry_small [of n] by (simp add: n_def)
  from carry_step [OF this] have
    "val (mul_row c a (p # pn) (q # b)) = (unat n + limb_base * (val pn + unat a * val b)) mod limb_base ^ Suc (length pn)"
    by (simp only: mul_row.simps Let_def n_def)
  then show ?case by (simp add: n algebra_simps)
qed simp_all

lemma val_op_mul:
  assumes "length a = length b"
  shows "length (op_mul a b) = length a" "val (op_mul a b) = (val a * val b) mod limb_base ^ length a"
proof -
  let ?row = "\<lambda>pn j. take j pn @ mul_row 0 (a ! j) (drop j pn) b"
  let ?z = "replicate (length a) (0 :: u32)"
  have "j \<le> length a \<Longrightarrow> length (foldl ?row ?z [0..<j]) = length a \<and>
      val (foldl ?row ?z [0..<j]) = (val (take j a) * val b) mod limb_base ^ length a" for j
  proof (induction j)
    case (Suc j)
    define p where "p = foldl ?row ?z [0..<j]"
    define k where "k = length a - j"
    have p: "length p = length a" "val p = (val (take j a) * val b) mod limb_base ^ length a"
      using Suc by (simp_all add: p_def)
    have a: "length a = j + k" using Suc.prems by (simp add: k_def)
    have "val (drop j p) + unat (a ! j) * val b = (val (drop j p) + unat (a ! j) * val b)" ..
    then have "val (?row p j) = val (take j p) +
        limb_base ^ j * ((val (drop j p) + unat (a ! j) * val b) mod limb_base ^ k)"
      using Suc.prems assms p(1) by (simp add: val_append val_mul_row min_def k_def)
    also have "\<dots> = (val (take j p) + limb_base ^ j * (val (drop j p) + unat (a ! j) * val b)) mod limb_base ^ length a"
      using power_split [of "val (take j p)" j "val (drop j p) + unat (a ! j) * val b" k] val_less [of "take j p"]
        p(1) Suc.prems by (simp add: a [symmetric] min_def)
    also have "val (take j p) + limb_base ^ j * (val (drop j p) + unat (a ! j) * val b) =
        val p + limb_base ^ j * (unat (a ! j) * val b)"
      using val_append [of "take j p" "drop j p"] p(1) Suc.prems by (simp add: min_def distrib_left)
    also have "(val p + limb_base ^ j * (unat (a ! j) * val b)) mod limb_base ^ length a =
        (val (take j a) * val b + limb_base ^ j * (unat (a ! j) * val b)) mod limb_base ^ length a"
      unfolding p(2) by (rule mod_add_left_eq)
    also have "val (take j a) * val b + limb_base ^ j * (unat (a ! j) * val b) = val (take (Suc j) a) * val b"
      using Suc.prems by (simp add: take_Suc_conv_app_nth val_append min_def algebra_simps)
    finally have "val (?row p j) = (val (take (Suc j) a) * val b) mod limb_base ^ length a" .
    moreover have "length (?row p j) = length a" using p(1) Suc.prems assms by (simp add: length_mul_row)
    moreover have "foldl ?row ?z [0..<Suc j] = ?row p j" by (simp add: p_def)
    ultimately show ?case by (simp only:)
  qed simp
  from this [of "length a"] show "length (op_mul a b) = length a"
    "val (op_mul a b) = (val a * val b) mod limb_base ^ length a"
    by (simp_all add: op_mul_rows [OF assms])
qed

section \<open>Shifts\<close>

text \<open>The bits of a number are the bits of its limbs.\<close>

lemma bit_val: "bit (val pn) i \<longleftrightarrow> i < 32 * length pn \<and> bit (pn ! (i div 32)) (i mod 32)"
proof (induction pn arbitrary: i)
  case (Cons x pn)
  have v: "val (x # pn) = push_bit 32 (val pn) OR unat x"
  proof -
    have "push_bit 32 (val pn) OR take_bit 32 (unat x) = push_bit 32 (val pn) + take_bit 32 (unat x)"
      by (rule disjunctive_add [symmetric]) (auto simp: bit_simps)
    moreover have "take_bit 32 (unat x) = unat x"
      using unat_less_base [of x] by (simp add: take_bit_nat_eq_self_iff limb_base_def)
    ultimately show ?thesis by (simp add: push_bit_eq_mult limb_base_def)
  qed
  show ?case
  proof (cases "i < 32")
    case True
    then show ?thesis unfolding v by (auto simp: bit_simps)
  next
    case False
    then have "\<not> bit (unat x) i" by (auto simp: bit_simps dest: bit_imp_le_length)
    moreover have "(i - 32) div 32 = i div 32 - 1" "(i - 32) mod 32 = i mod 32" "0 < i div 32"
      using False by (simp_all add: le_div_geq le_mod_geq)
    moreover have "bit (push_bit 32 (val pn)) i \<longleftrightarrow> bit (val pn) (i - 32)"
      using False by (simp add: bit_simps)
    ultimately show ?thesis
      unfolding v using Cons [of "i - 32"] False by (auto simp: bit_or_iff nth_Cons')
  qed
qed simp

lemma val_eqI:
  assumes "\<And>i. i < 32 * length a \<Longrightarrow> bit (a ! (i div 32)) (i mod 32) \<longleftrightarrow> bit n i"
  shows "val a = n mod limb_base ^ length a"
proof -
  have "val a = take_bit (32 * length a) n"
    by (rule bit_eqI) (auto simp: bit_val bit_take_bit_iff assms)
  then show ?thesis by (simp add: take_bit_eq_mod limb_base_power)
qed

text \<open>The limb \<open>j\<close> of a shifted number, after the limbs below \<open>m\<close> have been shifted.\<close>

definition shl_part :: "limbs \<Rightarrow> nat \<Rightarrow> nat \<Rightarrow> nat \<Rightarrow> nat \<Rightarrow> u32" where
  "shl_part a k s m j =
     (if s \<noteq> 0 \<and> k + 1 \<le> j \<and> j - k - 1 < m then drop_bit (32 - s) (a ! (j - k - 1)) else 0)
     OR (if k \<le> j \<and> j - k < m then push_bit s (a ! (j - k)) else 0)"

lemma op_shl_limbs:
  assumes "j < length a"
  shows "length (op_shl a n) = length a"
    "op_shl a n ! j = shl_part a (n div 32) (n mod 32) (length a) j"
proof -
  define W k s where "W = length a" and "k = n div 32" and "s = n mod 32"
  define f where "f = (\<lambda>pn i.
       let pn = (if i + k + 1 < W \<and> s \<noteq> 0
                 then pn[i + k + 1 := pn ! (i + k + 1) OR drop_bit (32 - s) (a ! i)] else pn)
       in if i + k < W then pn[i + k := pn ! (i + k) OR push_bit s (a ! i)] else pn)"
  have "length (foldl f (replicate W 0) [0..<m]) = W \<and>
      (\<forall>j < W. foldl f (replicate W 0) [0..<m] ! j = shl_part a k s m j)" for m
  proof (induction m)
    case 0
    then show ?case by (simp add: shl_part_def)
  next
    case (Suc m)
    then show ?case
      by (auto simp: f_def Let_def shl_part_def nth_list_update or.assoc less_Suc_eq) 
  qed
  moreover have "op_shl a n = foldl f (replicate W 0) [0..<W]"
    by (simp only: op_shl_def f_def W_def k_def s_def Let_def)
  ultimately show "length (op_shl a n) = length a" "op_shl a n ! j = shl_part a (n div 32) (n mod 32) (length a) j"
    using assms by (simp_all add: W_def k_def s_def)
qed

lemma length_op_shl [simp]: "length (op_shl a n) = length a"
proof (cases "a = []")
  case True
  then show ?thesis by (simp add: op_shl_def Let_def)
next
  case False
  then show ?thesis by (intro op_shl_limbs(1) [of 0]) simp
qed

lemma bit_drop_limb: "bit (drop_bit m x) b \<longleftrightarrow> m + b < 32 \<and> bit x (m + b)" for x :: u32
  by (auto simp: bit_drop_bit_eq dest: bit_imp_le_length)

lemma bit_push_limb: "bit (push_bit m x) b \<longleftrightarrow> b < 32 \<and> m \<le> b \<and> bit x (b - m)" for x :: u32
  by (auto simp: bit_push_bit_iff dest: bit_imp_le_length)

lemma split_32:
  fixes b c :: nat
  assumes "b < 32" "c < 32"
  shows "(32 * j + b) div 32 = j" "(32 * j + b) mod 32 = b" "32 * j + b \<ge> 32 * k + c \<longleftrightarrow> k < j \<or> k = j \<and> c \<le> b"
    "c \<le> b \<Longrightarrow> k \<le> j \<Longrightarrow> 32 * j + b - (32 * k + c) = 32 * (j - k) + (b - c)"
    "b < c \<Longrightarrow> k < j \<Longrightarrow> 32 * j + b - (32 * k + c) = 32 * (j - k - 1) + (32 - c + b)"
  using assms by auto

lemma val_op_shl: "val (op_shl a n) = (val a * 2 ^ n) mod limb_base ^ length a"
proof -
  have "val (op_shl a n) = push_bit n (val a) mod limb_base ^ length (op_shl a n)"
  proof (rule val_eqI)
    fix i assume i: "i < 32 * length (op_shl a n)"
    define j b k s where "j = i div 32" and "b = i mod 32" and "k = n div 32" and "s = n mod 32"
    have ib: "i = 32 * j + b" "n = 32 * k + s" and lt: "b < 32" "s < 32" and j: "j < length a"
      using i by (simp_all add: j_def b_def k_def s_def less_mult_imp_div_less mult.commute)
    have "bit (push_bit n (val a)) i \<longleftrightarrow> n \<le> i \<and> bit (val a) (i - n)" by (simp add: bit_push_bit_iff)
    also have "\<dots> \<longleftrightarrow> bit (shl_part a k s (length a) j) b"
    proof (cases "s \<le> b")
      case True
      have part: "bit (shl_part a k s (length a) j) b \<longleftrightarrow> k \<le> j \<and> bit (a ! (j - k)) (b - s)"
        using True lt j by (auto simp: shl_part_def bit_or_iff bit_drop_limb bit_push_limb)
      have le: "n \<le> i \<longleftrightarrow> k \<le> j" using split_32(3) [OF lt, of k j] True by (auto simp: ib)
      show ?thesis
      proof (cases "k \<le> j")
        case True1: True
        have e: "i - n = 32 * (j - k) + (b - s)"
          using split_32(4) [OF lt, of k j] True True1 by (simp add: ib)
        have "(i - n) div 32 = j - k" "(i - n) mod 32 = b - s"
          unfolding e using split_32(1,2) [of "b - s" 0 "j - k"] lt by auto
        moreover have "i - n < 32 * length a" using i by simp
        ultimately show ?thesis by (simp only: part le bit_val True1 simp_thms)
      next
        case False
        then show ?thesis by (simp only: part le simp_thms)
      qed
    next
      case False
      have part: "bit (shl_part a k s (length a) j) b \<longleftrightarrow> k < j \<and> bit (a ! (j - k - 1)) (32 - s + b)"
        using False lt j by (auto simp: shl_part_def bit_or_iff bit_drop_limb bit_push_limb)
      have le: "n \<le> i \<longleftrightarrow> k < j" using split_32(3) [OF lt, of k j] False by (simp add: ib)
      show ?thesis
      proof (cases "k < j")
        case True
        have e: "i - n = 32 * (j - k - 1) + (32 - s + b)"
          using split_32(5) [OF lt, of k j] False True by (simp add: ib)
        have "(i - n) div 32 = j - k - 1" "(i - n) mod 32 = 32 - s + b"
          unfolding e using split_32(1,2) [of "32 - s + b" 0 "j - k - 1"] False lt by auto
        moreover have "i - n < 32 * length a" using i by simp
        ultimately show ?thesis by (simp only: part le bit_val True simp_thms)
      next
        case False
        then show ?thesis by (simp only: part le simp_thms)
      qed
    qed
    finally show "bit (op_shl a n ! (i div 32)) (i mod 32) \<longleftrightarrow> bit (push_bit n (val a)) i"
      using j by (simp add: op_shl_limbs(2) j_def b_def k_def s_def)
  qed
  then show ?thesis by (simp add: push_bit_eq_mult)
qed

definition shr_part :: "limbs \<Rightarrow> nat \<Rightarrow> nat \<Rightarrow> nat \<Rightarrow> nat \<Rightarrow> u32" where
  "shr_part a k s m j =
     (if s \<noteq> 0 \<and> j + k + 1 < m then push_bit (32 - s) (a ! (j + k + 1)) else 0)
     OR (if j + k < m then drop_bit s (a ! (j + k)) else 0)"

lemma op_shr_limbs:
  assumes "j < length a"
  shows "length (op_shr a n) = length a"
    "op_shr a n ! j = shr_part a (n div 32) (n mod 32) (length a) j"
proof -
  define W k s where "W = length a" and "k = n div 32" and "s = n mod 32"
  define f where "f = (\<lambda>pn i.
       let pn = (if k + 1 \<le> i \<and> s \<noteq> 0
                 then pn[i - k - 1 := pn ! (i - k - 1) OR push_bit (32 - s) (a ! i)] else pn)
       in if k \<le> i then pn[i - k := pn ! (i - k) OR drop_bit s (a ! i)] else pn)"
  have "m \<le> W \<Longrightarrow> length (foldl f (replicate W 0) [0..<m]) = W \<and>
      (\<forall>j < W. foldl f (replicate W 0) [0..<m] ! j = shr_part a k s m j)" for m
  proof (induction m)
    case 0
    then show ?case by (simp add: shr_part_def)
  next
    case (Suc m)
    have "j = m - k \<and> k \<le> m \<longleftrightarrow> j + k = m" "j = m - k - 1 \<and> k + 1 \<le> m \<longleftrightarrow> j + k + 1 = m" for j by auto
    with Suc show ?case
      by (auto simp: f_def Let_def shr_part_def nth_list_update or.assoc or.commute less_Suc_eq)
  qed
  moreover have "op_shr a n = foldl f (replicate W 0) [0..<W]"
    by (simp only: op_shr_def f_def W_def k_def s_def Let_def)
  ultimately show "length (op_shr a n) = length a" "op_shr a n ! j = shr_part a (n div 32) (n mod 32) (length a) j"
    using assms by (simp_all add: W_def k_def s_def)
qed

lemma length_op_shr [simp]: "length (op_shr a n) = length a"
proof (cases "a = []")
  case True
  then show ?thesis by (simp add: op_shr_def Let_def)
next
  case False
  then show ?thesis by (intro op_shr_limbs(1) [of 0]) simp
qed

lemma val_op_shr: "val (op_shr a n) = val a div 2 ^ n"
proof -
  have "val (op_shr a n) = drop_bit n (val a) mod limb_base ^ length (op_shr a n)"
  proof (rule val_eqI)
    fix i assume i: "i < 32 * length (op_shr a n)"
    define j b k s where "j = i div 32" and "b = i mod 32" and "k = n div 32" and "s = n mod 32"
    have ib: "i = 32 * j + b" "n = 32 * k + s" and lt: "b < 32" "s < 32" and j: "j < length a"
      using i by (simp_all add: j_def b_def k_def s_def less_mult_imp_div_less mult.commute)
    have "bit (drop_bit n (val a)) i \<longleftrightarrow> bit (val a) (n + i)" by (simp add: bit_drop_bit_eq)
    also have "\<dots> \<longleftrightarrow> bit (shr_part a k s (length a) j) b"
    proof (cases "s + b < 32")
      case True
      have e: "n + i = 32 * (j + k) + (s + b)" by (simp add: ib)
      have "(n + i) div 32 = j + k" "(n + i) mod 32 = s + b"
        unfolding e using split_32(1,2) [of "s + b" 0 "j + k"] True by auto
      then show ?thesis
        using True lt by (auto simp: bit_val shr_part_def bit_or_iff bit_drop_limb bit_push_limb e)
    next
      case False
      have e: "n + i = 32 * (j + k + 1) + (s + b - 32)" using False by (simp add: ib)
      have "(n + i) div 32 = j + k + 1" "(n + i) mod 32 = s + b - 32"
        unfolding e using split_32(1,2) [of "s + b - 32" 0 "j + k + 1"] lt by auto
      moreover have "b - (32 - s) = s + b - 32" "32 - s \<le> b" "s \<noteq> 0" using False lt by auto
      ultimately show ?thesis
        using False lt by (auto simp: bit_val shr_part_def bit_or_iff bit_drop_limb bit_push_limb e)
    qed
    finally show "bit (op_shr a n ! (i div 32)) (i mod 32) \<longleftrightarrow> bit (drop_bit n (val a)) i"
      using j by (simp add: op_shr_limbs(2) j_def b_def k_def s_def)
  qed
  moreover have "val a div 2 ^ n < limb_base ^ length a"
    using val_less [of a] div_le_dividend [of "val a" "2 ^ n"] by linarith
  ultimately show ?thesis by (simp add: drop_bit_eq_div)
qed

section \<open>Comparison\<close>

lemma val_snoc: "val (a @ [x]) = val a + limb_base ^ length a * unat x"
  by (simp add: val_append)

lemma snoc_less:
  fixes a b :: limbs
  assumes "length a = length b" "x < y"
  shows "val (a @ [x]) < val (b @ [y])"
proof -
  have "unat x + 1 \<le> unat y" using assms(2) by (simp add: word_less_nat_alt)
  then have "limb_base ^ length a * (unat x + 1) \<le> limb_base ^ length a * unat y" by (rule mult_le_mono2)
  moreover have "val a < limb_base ^ length a" by (rule val_less)
  ultimately show ?thesis using assms(1) by (simp add: val_snoc distrib_left)
qed

lemma CompareTo_val:
  assumes "length a = length b"
  shows "CompareTo a b = (if val a < val b then - 1 else if val a > val b then 1 else 0)"
  using assms
proof (induction a arbitrary: b rule: rev_induct)
  case Nil
  then show ?case by (simp add: CompareTo_def)
next
  case (snoc x a)
  then obtain b' y where b: "b = b' @ [y]" "length a = length b'"
    by (cases b rule: rev_cases) auto
  consider "x < y" | "y < x" | "x = y" by (rule linorder_cases)
  then show ?case
  proof cases
    case 1
    then show ?thesis using snoc_less [OF b(2)] by (simp add: b CompareTo_def)
  next
    case 2
    then show ?thesis using snoc_less [OF b(2) [symmetric]] by (simp add: b CompareTo_def not_less_iff_gr_or_eq)
  next
    case 3
    then have "CompareTo (a @ [x]) b = CompareTo a b'" by (simp add: b CompareTo_def)
    then show ?thesis using snoc.IH [OF b(2)] 3 by (simp only: b val_snoc) (simp add: b(2))
  qed
qed

lemma val_inj: "length a = length b \<Longrightarrow> val a = val b \<Longrightarrow> a = b"
proof (induction a arbitrary: b)
  case (Cons x a)
  then obtain y b' where b: "b = y # b'" by (cases b) auto
  have "unat x = val (x # a) mod limb_base" "val a = val (x # a) div limb_base" for x a by simp_all
  then have "unat x = unat y" "val a = val b'" using Cons.prems b by metis+
  with Cons b show ?case by (simp add: word_unat_eq_iff)
qed simp

lemma IsNull_val: "IsNull a \<longleftrightarrow> val a = 0"
  by (induction a) (auto simp: IsNull_def unat_eq_0 limb_base_def)

lemma val_set_u64: "2 \<le> w \<Longrightarrow> val (set_u64 w b) = unat b" "2 \<le> w \<Longrightarrow> length (set_u64 w b) = w"
proof -
  assume "2 \<le> w"
  have "b AND 0xffffffff = take_bit 32 b" using take_bit_eq_mask [of 32 b] by (simp add: mask_eq_exp_minus_1)
  then have u: "(ucast b :: u32) = ucast (b AND 0xffffffff)" by (simp only:) (rule bit_eqI, auto simp: bit_simps)
  have "unat (ucast (drop_bit 32 b) :: u32) = unat b div limb_base"
    using carry_small [of b] by (simp only: unsigned_ucast_eq)
      (simp add: take_bit_nat_eq_self_iff limb_base_def carry_word)
  then show "val (set_u64 w b) = unat b" by (simp add: set_u64_def u low_word)
  show "length (set_u64 w b) = w" using \<open>2 \<le> w\<close> by (simp add: set_u64_def)
qed

section \<open>The number of bits\<close>

lemma top_bit_spec:
  "x \<noteq> 0 \<Longrightarrow> \<forall>i > b. \<not> bit x i \<Longrightarrow> bit x (top_bit x b) \<and> (\<forall>i > top_bit x b. \<not> bit x i)" for x :: u32
proof (induction b)
  case 0
  then have "bit x 0"
    by (metis bit_eq_iff bit_0_eq bot_fun_def bot_bool_def gr0I)
  with 0 show ?case by simp
next
  case (Suc b)
  have "x AND push_bit (Suc b) 1 \<noteq> 0 \<longleftrightarrow> bit x (Suc b)"
    using and_exp_eq_0_iff_not_bit [of x "Suc b"] by (simp only: push_bit_eq_mult mult_1) blast
  with Suc show ?case by (auto simp: Suc_lessI) (metis Suc_lessI)+
qed

lemma bits_loop_spec:
  "pos \<le> length pn \<Longrightarrow> \<forall>i \<ge> 32 * pos. \<not> bit (val pn) i \<Longrightarrow>
   (if val pn = 0 then bits_loop pn pos = 0
    else 0 < bits_loop pn pos \<and> bit (val pn) (bits_loop pn pos - 1) \<and> (\<forall>i \<ge> bits_loop pn pos. \<not> bit (val pn) i))"
proof (induction pos)
  case 0
  then have "val pn = 0" by (intro bit_eqI) simp
  then show ?case by simp
next
  case (Suc pos)
  show ?case
  proof (cases "pn ! pos = 0")
    case True
    have "\<forall>i \<ge> 32 * pos. \<not> bit (val pn) i"
    proof (intro allI impI)
      fix i assume "32 * pos \<le> i"
      show "\<not> bit (val pn) i"
      proof (cases "i < 32 * Suc pos")
        case True1: True
        then have "i div 32 = pos" using \<open>32 * pos \<le> i\<close> by auto
        then show ?thesis using True by (simp add: bit_val)
      next
        case False
        then show ?thesis using Suc.prems(2) by simp
      qed
    qed
    moreover have "bits_loop pn (Suc pos) = bits_loop pn pos" using True by simp
    ultimately show ?thesis using Suc.IH [OF Suc_leD [OF Suc.prems(1)]] by (simp only:)
  next
    case False
    define t where "t = top_bit (pn ! pos) 31"
    have "\<forall>i > 31. \<not> bit (pn ! pos) i" by (auto dest: bit_imp_le_length)
    then have t: "bit (pn ! pos) t" "\<forall>i > t. \<not> bit (pn ! pos) i"
      using top_bit_spec [OF False, of 31] by (simp_all add: t_def)
    then have "t < 32" by (auto dest: bit_imp_le_length)
    then have set: "bit (val pn) (32 * pos + t)"
      using t(1) Suc.prems(1) split_32(1,2) [of t 0 pos] by (simp add: bit_val)
    moreover have "\<forall>i \<ge> 32 * pos + t + 1. \<not> bit (val pn) i"
    proof (intro allI impI)
      fix i assume i: "32 * pos + t + 1 \<le> i"
      show "\<not> bit (val pn) i"
      proof (cases "i < 32 * Suc pos")
        case True
        then have "i div 32 = pos" using i by auto
        moreover from this have "i mod 32 = i - 32 * pos" by (simp flip: minus_mult_div_eq_mod)
        ultimately have "i div 32 = pos" "i mod 32 > t" using i by simp_all
        then show ?thesis using t(2) by (simp add: bit_val)
      next
        case False
        then show ?thesis using Suc.prems(2) by simp
      qed
    qed
    moreover have "val pn \<noteq> 0" using set by (metis bit_0_eq bot_apply bot_bool_def)
    ultimately show ?thesis using False by (simp add: t_def)
  qed
qed

lemma bits_val:
  "bits pn = 0 \<longleftrightarrow> val pn = 0" "val pn < 2 ^ bits pn" "val pn \<noteq> 0 \<Longrightarrow> 2 ^ (bits pn - 1) \<le> val pn"
proof -
  have "\<forall>i \<ge> 32 * length pn. \<not> bit (val pn) i" by (simp add: bit_val)
  note B = bits_loop_spec [OF order_refl this, folded bits_def]
  show "bits pn = 0 \<longleftrightarrow> val pn = 0" using B by (auto split: if_splits)
  have z: "\<not> bit (val pn) i" if "bits pn \<le> i" for i using B that by (cases "val pn = 0") simp_all
  have "take_bit (bits pn) (val pn) = val pn"
  proof (rule bit_eqI)
    show "bit (take_bit (bits pn) (val pn)) i \<longleftrightarrow> bit (val pn) i" for i
      using z [of i] by (cases "i < bits pn") (simp_all add: bit_take_bit_iff)
  qed
  then show "val pn < 2 ^ bits pn" by (simp add: take_bit_nat_eq_self_iff)
  assume "val pn \<noteq> 0"
  then have "bit (val pn) (bits pn - 1)" using B by simp
  then have "val pn div 2 ^ (bits pn - 1) \<noteq> 0" by (metis bit_iff_odd even_zero)
  then show "2 ^ (bits pn - 1) \<le> val pn" by (simp add: div_eq_0_iff not_less)
qed

section \<open>Division\<close>

lemma set_quotient_bit:
  assumes "shift < 32 * length pn" "\<not> bit (val pn) shift"
  shows "val (pn[shift div 32 := pn ! (shift div 32) OR push_bit (shift mod 32) 1]) = val pn + 2 ^ shift"
proof -
  let ?q = "pn[shift div 32 := pn ! (shift div 32) OR push_bit (shift mod 32) 1]"
  have len: "shift div 32 < length pn" using assms(1) by (simp add: less_mult_imp_div_less mult.commute)
  have "val ?q = (val pn OR 2 ^ shift) mod limb_base ^ length ?q"
  proof (rule val_eqI)
    fix i assume i: "i < 32 * length ?q"
    have eq: "i = shift \<longleftrightarrow> i div 32 = shift div 32 \<and> i mod 32 = shift mod 32"
      by (metis mult_div_mod_eq)
    show "bit (?q ! (i div 32)) (i mod 32) \<longleftrightarrow> bit (val pn OR 2 ^ shift) i"
      using i len eq by (cases "i div 32 = shift div 32")
        (auto simp: bit_val bit_or_iff bit_exp_iff bit_push_limb less_mult_imp_div_less mult.commute)
  qed
  moreover have "val pn OR 2 ^ shift = val pn + 2 ^ shift"
    using assms(2) by (intro disjunctive_add [symmetric]) (auto simp: bit_exp_iff)
  moreover have "val pn OR 2 ^ shift < 2 ^ (32 * length pn)"
  proof -
    have "take_bit (32 * length pn) (val pn OR 2 ^ shift) = val pn OR 2 ^ shift"
      using assms(1) by (intro bit_eqI) (auto simp: bit_take_bit_iff bit_or_iff bit_val bit_exp_iff)
    then show ?thesis by (metis take_bit_nat_less_exp)
  qed
  ultimately show ?thesis by (simp add: limb_base_power)
qed

text \<open>
  The loop: \<open>d\<close> is the divisor shifted left by \<open>shift\<close>, the remainder is below twice that, and the
  quotient found so far is a multiple of \<open>2 ^ (shift + 1)\<close>.
\<close>

lemma high_bit_clear: "2 ^ Suc shift dvd v \<Longrightarrow> \<not> bit v shift" for v :: nat
proof -
  assume "2 ^ Suc shift dvd v"
  then obtain m where v: "v = 2 ^ Suc shift * m" by blast
  then have "v div 2 ^ shift = 2 * m" by simp
  then show ?thesis by (simp add: bit_iff_odd)
qed

lemma div_loop_val:
  "length d = length num \<Longrightarrow> length pn = length num \<Longrightarrow> val d = D * 2 ^ shift \<Longrightarrow> val num < 2 * val d \<Longrightarrow> 0 < D \<Longrightarrow>
   2 ^ Suc shift dvd val pn \<Longrightarrow> shift < 32 * length num \<Longrightarrow>
   length (div_loop shift num d pn) = length num \<and> val (div_loop shift num d pn) = val pn + val num div D"
proof (induction shift num d pn rule: div_loop.induct)
  case (1 num d pn)
  have set: "val (pn[0 := pn ! 0 OR push_bit 0 1]) = val pn + 1"
    using set_quotient_bit [of 0 pn] high_bit_clear [of 0 "val pn"] "1.prems" by simp
  have cmp: "CompareTo num d \<ge> 0 \<longleftrightarrow> D \<le> val num"
    using "1.prems"(1,3) by (simp add: CompareTo_val)
  show ?case
  proof (cases "D \<le> val num")
    case True
    then have "val num div D = 1" using "1.prems" by (simp add: div_nat_eqI)
    with True cmp set "1.prems"(2) show ?thesis by simp
  next
    case False
    with cmp "1.prems"(2) show ?thesis by simp
  qed
next
  case (2 shift num d pn)
  let ?S = "D * 2 ^ shift"
  have d: "val (op_shr d 1) = ?S" "val d = 2 * ?S" using "2.prems"(3) by (simp_all add: val_op_shr)
  have cmp: "CompareTo num d \<ge> 0 \<longleftrightarrow> val d \<le> val num"
    using "2.prems"(1) by (simp add: CompareTo_val)
  have dvd: "2 ^ Suc shift dvd val pn"
    using "2.prems"(6) by (rule dvd_trans [rotated]) (simp add: le_imp_power_dvd)
  show ?case
  proof (cases "val d \<le> val num")
    case True
    let ?q = "pn[Suc shift div 32 := pn ! (Suc shift div 32) OR push_bit (Suc shift mod 32) 1]"
    have q: "val ?q = val pn + 2 ^ Suc shift" "length ?q = length num"
      using set_quotient_bit [of "Suc shift" pn] high_bit_clear "2.prems" by simp_all
    have sub: "val (op_sub num d) = val num - val d" "length (op_sub num d) = length num"
      using val_op_sub_le [of num d] True "2.prems"(1) by simp_all
    have "2 ^ Suc shift dvd val ?q" using dvd by (simp only: q dvd_add_right_iff dvd_refl dvd_add)
    moreover have "val (op_sub num d) < 2 * val (op_shr d 1)"
      unfolding d(1) sub(1) using "2.prems"(4) d(2) True by linarith
    moreover have "length (op_shr d 1) = length (op_sub num d)" "length ?q = length (op_sub num d)"
      "shift < 32 * length (op_sub num d)"
      using "2.prems" sub(2) q(2) by simp_all
    ultimately have "length (div_loop shift (op_sub num d) (op_shr d 1) ?q) = length num \<and>
        val (div_loop shift (op_sub num d) (op_shr d 1) ?q) = val ?q + (val num - val d) div D"
      using 2(1) [OF cmp [THEN iffD2, OF True] _ _ d(1) _ "2.prems"(5)] by (simp only: sub)
    moreover have "val num div D = 2 ^ Suc shift + (val num - val d) div D"
    proof -
      have "val num = (val num - val d) + 2 ^ Suc shift * D" using True "2.prems"(3) by simp
      then have "val num div D = ((val num - val d) + 2 ^ Suc shift * D) div D" by simp
      then show ?thesis using "2.prems"(5) by (simp add: div_mult_self1)
    qed
    ultimately show ?thesis using cmp True q(1) by simp
  next
    case False
    then have "length (div_loop shift num (op_shr d 1) pn) = length num \<and>
        val (div_loop shift num (op_shr d 1) pn) = val pn + val num div D"
      using 2(2) [OF _ _ "2.prems"(2) d(1) _ "2.prems"(5) dvd] cmp d "2.prems" by simp
    then show ?thesis using cmp False by simp
  qed
qed

lemma op_div_val:
  assumes "length d = length num"
  shows "if val d = 0 then op_div num d = Inl Division_by_zero
    else \<exists>q. op_div num d = Inr q \<and> length q = length num \<and> val q = val num div val d"
proof -
  consider "val d = 0" | "val d \<noteq> 0" "bits d > bits num" | "val d \<noteq> 0" "bits d \<le> bits num" by linarith
  then show ?thesis
  proof cases
    case 1
    then show ?thesis by (simp add: op_div_def bits_val Let_def)
  next
    case 2
    then have "(2::nat) ^ bits num \<le> 2 ^ (bits d - 1)" by (intro power_increasing) simp_all
    then have "val num < val d" using bits_val(2) [of num] bits_val(3) [OF 2(1)] by linarith
    then show ?thesis using 2 by (simp add: op_div_def bits_val(1) Let_def)
  next
    case 3
    define s where "s = bits num - bits d"
    have pos: "0 < bits d" using 3 bits_val(1) [of d] by simp
    have nz: "val num \<noteq> 0" using bits_val(1) [of num] 3 pos by auto
    have wide: "bits num \<le> 32 * length num"
    proof (rule ccontr)
      assume "\<not> ?thesis"
      then have "(2::nat) ^ (32 * length num) \<le> 2 ^ (bits num - 1)" by (intro power_increasing) simp_all
      then show False using bits_val(3) [OF nz] val_less [of num] unfolding limb_base_power by linarith
    qed
    have "val d * 2 ^ s < 2 ^ bits d * 2 ^ s" using bits_val(2) [of d] by simp
    also have "\<dots> = 2 ^ bits num" using 3 by (simp add: s_def flip: power_add)
    also have "\<dots> \<le> 2 ^ (32 * length num)" using wide by (intro power_increasing) simp_all
    finally have shl: "val (op_shl d s) = val d * 2 ^ s"
      using assms by (simp add: val_op_shl limb_base_power)
    have "(2::nat) ^ bits num = 2 * (2 ^ (bits d - 1) * 2 ^ s)"
      using 3 pos by (simp add: s_def flip: power_add power_Suc)
    also have "\<dots> \<le> 2 * (val d * 2 ^ s)" using bits_val(3) [OF 3(1)] by (intro mult_le_mono) simp_all
    finally have "val num < 2 * val (op_shl d s)" using bits_val(2) [of num] shl by linarith
    moreover have "s < 32 * length num" using wide pos 3 by (simp add: s_def)
    ultimately have "length (div_loop s num (op_shl d s) (replicate (length num) 0)) = length num \<and>
        val (div_loop s num (op_shl d s) (replicate (length num) 0)) = 0 + val num div val d"
      using div_loop_val [of "op_shl d s" num "replicate (length num) 0" "val d" s] shl assms 3(1) by simp
    then show ?thesis using 3 pos by (simp add: op_div_def Let_def s_def)
  qed
qed

section \<open>The compact form\<close>

lemma unat_div_word: "unat (drop_bit k c) = unat c div 2 ^ k" for c :: u32
  by (simp only: unat_drop_bit_eq) (simp add: drop_bit_eq_div)

lemma unat_mantissa: "unat (c AND 0x007fffff) = unat c mod 2 ^ 23" for c :: u32
proof -
  have "c AND 0x007fffff = take_bit 23 c" using take_bit_eq_mask [of 23 c] by (simp add: mask_eq_exp_minus_1)
  then show ?thesis by (simp only: unsigned_take_bit_eq) (simp add: take_bit_eq_mod)
qed

lemma sign_bit: "c AND 0x00800000 \<noteq> 0 \<longleftrightarrow> bit c 23" for c :: u32
  using and_exp_eq_0_iff_not_bit [of c 23] by simp

lemma byte_power: "(2::nat) ^ (8 * k) = 256 ^ k"
  by (simp add: power_mult)

lemma u32_as_u64: "unat (ucast (w :: u32) :: u64) = unat w"
  by simp

definition compact_size :: "u32 \<Rightarrow> nat" where
  "compact_size c = unat c div 2 ^ 24"

definition compact_word :: "u32 \<Rightarrow> nat" where
  "compact_word c = (unat c mod 2 ^ 23) div 256 ^ (3 - compact_size c)"

text \<open>The overflow flag is exact: it tells whether the number has more than 256 bits.\<close>

lemma overflow_exact:
  fixes m n :: nat
  assumes "m < 2 ^ 23"
  shows "m \<noteq> 0 \<and> (n > 34 \<or> m > 0xff \<and> n > 33 \<or> m > 0xffff \<and> n > 32) \<longleftrightarrow> m * 256 ^ (n - 3) \<ge> 2 ^ 256"
proof -
  have e: "(2::nat) ^ 256 = 256 ^ 32" by simp
  consider "n \<le> 32" | "n = 33" | "n = 34" | "n > 34" by linarith
  then show ?thesis
  proof cases
    case 1
    then have "(256::nat) ^ (n - 3) \<le> 256 ^ 29" by (intro power_increasing) simp_all
    then have "m * 256 ^ (n - 3) \<le> m * 256 ^ 29" by (rule mult_le_mono2)
    also have "\<dots> < 2 ^ 23 * 256 ^ 29" using assms by (intro mult_strict_right_mono) simp_all
    finally have "m * 256 ^ (n - 3) < 2 ^ 256" by simp
    with 1 show ?thesis by simp
  next
    case 4
    then have "(256::nat) ^ 32 \<le> 256 ^ (n - 3)" by (intro power_increasing) simp_all
    then have "1 * 256 ^ 32 \<le> m * 256 ^ (n - 3)" if "m \<noteq> 0" using that by (intro mult_le_mono) simp_all
    then show ?thesis using 4 e by (cases "m = 0") simp_all
  qed (use assms in auto)
qed

lemma SetCompact_val:
  obtains t where
    "SetCompact c = (t, compact_word c \<noteq> 0 \<and> bit c 23, compact_word c * 256 ^ (compact_size c - 3) \<ge> 2 ^ 256)"
    "length t = 8" "val t = (compact_word c * 256 ^ (compact_size c - 3)) mod 2 ^ 256"
proof -
  define n w0 w where "n = compact_size c" and "w0 = c AND 0x007fffff"
    and "w = (if n \<le> 3 then drop_bit (8 * (3 - n)) w0 else w0)"
  have w: "unat w = compact_word c"
    by (simp only: w_def if_distrib [of unat] w0_def n_def unat_mantissa unat_div_word byte_power)
      (simp add: compact_word_def)
  have n: "unat (drop_bit 24 c) = n" by (simp only: unat_div_word n_def compact_size_def)
  have "compact_word c \<le> unat c mod 2 ^ 23" unfolding compact_word_def by (rule div_le_dividend)
  moreover have "unat c mod 2 ^ 23 < 2 ^ 23" by simp
  ultimately have small: "compact_word c < 2 ^ 23" by (rule le_less_trans)
  define t where "t = (if n \<le> 3 then set_u64 8 (ucast w) else op_shl (set_u64 8 (ucast w)) (8 * (n - 3)))"
  have base: "limb_base ^ 8 = 2 ^ 256" by (simp only: limb_base_power) simp
  have "val t = (compact_word c * 256 ^ (n - 3)) mod 2 ^ 256"
  proof (cases "n \<le> 3")
    case True
    have "compact_word c < 2 ^ 256" using small by simp
    with True show ?thesis by (simp add: t_def val_set_u64 w)
  next
    case False
    then show ?thesis
      by (simp only: t_def if_False val_op_shl val_set_u64 order_refl byte_power) (simp add: val_set_u64 w base)
  qed
  moreover have "length t = 8" by (simp add: t_def val_set_u64)
  moreover have "SetCompact c = (t, w \<noteq> 0 \<and> bit c 23,
      w \<noteq> 0 \<and> (n > 34 \<or> (w > 0xff \<and> n > 33) \<or> (w > 0xffff \<and> n > 32)))"
    by (simp only: SetCompact_def Let_def n w0_def [symmetric] w_def [symmetric] t_def sign_bit)
  moreover have "w \<noteq> 0 \<longleftrightarrow> compact_word c \<noteq> 0" "w > 0xff \<longleftrightarrow> compact_word c > 0xff" "w > 0xffff \<longleftrightarrow> compact_word c > 0xffff"
    by (simp_all add: w [symmetric] word_less_nat_alt unat_eq_0)
  ultimately show thesis
    using that [of t] overflow_exact [OF small, of n] by (simp only: n_def [symmetric])
qed

lemma unat_GetLow64:
  assumes "2 \<le> length pn"
  shows "unat (GetLow64 pn) = val pn mod 2 ^ 64"
proof -
  obtain x y r where pn: "pn = x # y # r" using assms by (metis Suc_le_length_iff numeral_2_eq_2)
  have "GetLow64 pn = ucast x + push_bit 32 (ucast y)"
    unfolding GetLow64_def pn
    by (simp only: nth_Cons_0 nth_Cons_Suc One_nat_def, rule disjunctive_add [symmetric])
      (auto simp: bit_simps dest: bit_imp_le_length)
  moreover have "unat (push_bit 32 (ucast y) :: u64) = limb_base * unat y"
  proof -
    have "unat (push_bit 32 (ucast y) :: u64) = (unat y * limb_base) mod (limb_base * limb_base)"
      by (simp add: push_bit_eq_mult unat_word_ariths limb_base_def)
    moreover have "unat y * limb_base < limb_base * limb_base" by (intro mult_strict_right_mono) simp_all
    ultimately show ?thesis by (simp add: mult.commute)
  qed
  moreover have "unat x + limb_base * unat y < limb_base * limb_base"
    using val_less [of "[x, y]"] by simp
  ultimately have "unat (GetLow64 pn) = unat x + limb_base * unat y" by (simp add: unat_u64_sum)
  moreover have "val pn mod (limb_base * limb_base) = unat x + limb_base * unat y"
    using limb_split [of "unat x" "unat y + limb_base * val r" 1] by (simp add: pn)
  ultimately show ?thesis by (simp add: limb_base_def)
qed

lemma unat_low32: "unat n < 2 ^ 32 \<Longrightarrow> unat (ucast n :: u32) = unat n" for n :: u64
  by (simp add: unsigned_ucast_eq take_bit_nat_eq_self_iff)

text \<open>The three leading bytes, before the sign bit is made free.\<close>

definition leading :: "nat \<Rightarrow> nat \<Rightarrow> nat" where
  "leading v n = (if n \<le> 3 then v * 256 ^ (3 - n) else v div 256 ^ (n - 3))"

lemma leading_less: "v < 256 ^ n \<Longrightarrow> leading v n < 2 ^ 24"
proof (cases "n \<le> 3")
  case True
  assume "v < 256 ^ n"
  then have "v * 256 ^ (3 - n) < 256 ^ n * 256 ^ (3 - n)" by (intro mult_strict_right_mono) simp_all
  also have "\<dots> = 256 ^ 3" using True by (simp flip: power_add)
  finally show ?thesis using True by (simp add: leading_def)
next
  case False
  assume "v < 256 ^ n"
  moreover have "(256::nat) ^ n = 2 ^ 24 * 256 ^ (n - 3)"
  proof -
    have "(256::nat) ^ n = 256 ^ (3 + (n - 3))" using False by simp
    then show ?thesis by (simp only: power_add) simp
  qed
  ultimately show ?thesis using False by (simp add: leading_def less_mult_imp_div_less)
qed

lemma GetCompact_val:
  assumes "length pn = 8"
  defines "n \<equiv> (bits pn + 7) div 8"
  defines "M \<equiv> leading (val pn) n"
  defines "M' \<equiv> if M \<ge> 2 ^ 23 then M div 256 else M" and "N \<equiv> if M \<ge> 2 ^ 23 then n + 1 else n"
  shows "\<exists>c. GetCompact pn False = Some c \<and> unat c = M' + 2 ^ 24 * N" "GetCompact pn True \<noteq> None"
    "M < 2 ^ 24" "M' < 2 ^ 23" "n \<le> 32" "val pn < 256 ^ n"
proof -
  have b: "bits pn \<le> 8 * n" unfolding n_def by linarith
  then have "(2::nat) ^ bits pn \<le> 256 ^ n" unfolding byte_power [symmetric] by (intro power_increasing) simp_all
  then show v: "val pn < 256 ^ n" using bits_val(2) [of pn] by linarith
  then show M: "M < 2 ^ 24" unfolding M_def by (rule leading_less)
  then have "M div 256 < 2 ^ 23" by (intro less_mult_imp_div_less) simp
  then show M': "M' < 2 ^ 23" by (simp add: M'_def)
  have "bits pn \<le> 256"
  proof (rule ccontr)
    assume "\<not> ?thesis"
    then have "256 \<le> bits pn - 1" "bits pn \<noteq> 0" by simp_all
    then have "(2::nat) ^ 256 \<le> val pn"
      using power_increasing [of 256 "bits pn - 1" "2::nat"] bits_val(3) [of pn] bits_val(1) [of pn] by linarith
    then show False using val_less [of pn] unfolding limb_base_power assms(1) by simp
  qed
  then show n: "n \<le> 32" by (simp add: n_def)
  define w where "w = (if n \<le> 3 then ucast (push_bit (8 * (3 - n)) (GetLow64 pn))
      else ucast (GetLow64 (op_shr pn (8 * (n - 3)))) :: u32)"
  have w: "unat w = M"
  proof (cases "n \<le> 3")
    case True
    have "val pn < 2 ^ 24"
      using v True power_increasing [of n 3 "256::nat"] by simp
    then have "unat (GetLow64 pn) = val pn" using assms(1) by (simp add: unat_GetLow64)
    moreover have "val pn * 256 ^ (3 - n) < 2 ^ 24" using leading_less [OF v] True by (simp add: leading_def)
    moreover have "push_bit k x = word_of_nat (unat x * 2 ^ k)" for k and x :: u64
      by (simp add: push_bit_eq_mult)
    ultimately have "unat (push_bit (8 * (3 - n)) (GetLow64 pn)) = val pn * 256 ^ (3 - n)"
      by (simp only: byte_power unat_of_nat) simp
    then show ?thesis using True M by (simp add: w_def M_def leading_def unat_low32)
  next
    case False
    then have "val (op_shr pn (8 * (n - 3))) = M" by (simp add: val_op_shr byte_power M_def leading_def)
    then have "unat (GetLow64 (op_shr pn (8 * (n - 3)))) = M" using M assms(1) by (simp add: unat_GetLow64)
    then show ?thesis using False M by (simp add: w_def unat_low32)
  qed
  have bit: "w AND 0x00800000 \<noteq> 0 \<longleftrightarrow> M \<ge> 2 ^ 23"
  proof -
    have "bit w 23 \<longleftrightarrow> odd (M div 2 ^ 23)"
      using w bit_unsigned_iff [of w 23, where ?'a = nat] by (simp add: bit_iff_odd)
    moreover have "M div 2 ^ 23 < 2" using M by (intro less_mult_imp_div_less) simp
    then have "odd (M div 2 ^ 23) \<longleftrightarrow> M div 2 ^ 23 \<noteq> 0" by (cases "M div 2 ^ 23") auto
    ultimately show ?thesis by (simp add: sign_bit div_eq_0_iff not_less)
  qed
  define w' where "w' = (if w AND 0x00800000 \<noteq> 0 then drop_bit 8 w else w)"
  have w': "unat w' = M'" unfolding w'_def M'_def bit using w unat_div_word [of 8 w] by simp
  have "w' AND 0x007fffff = w'" using M' by (simp add: word_unat_eq_iff unat_mantissa w')
  then have mask: "w' AND NOT 0x007fffff = 0" by (metis and.assoc bit.conj_cancel_right and_zero_eq)
  have N: "N < 256" using n by (simp add: N_def)
  have sum: "unat (w' OR push_bit 24 (word_of_nat N)) = M' + 2 ^ 24 * N"
  proof -
    have "\<not> bit w' i" if "23 \<le> i" for i
    proof -
      have "w' = take_bit 23 w'" using \<open>w' AND 0x007fffff = w'\<close> take_bit_eq_mask [of 23 w'] by (simp add: mask_eq_exp_minus_1)
      then show ?thesis using that by (metis bit_take_bit_iff not_le)
    qed
    then have "w' OR push_bit 24 (word_of_nat N) = w' + push_bit 24 (word_of_nat N)"
      by (intro disjunctive_add [symmetric]) (auto simp: bit_push_bit_iff)
    moreover have "unat (push_bit 24 (word_of_nat N) :: u32) = 2 ^ 24 * N"
      using N by (simp add: push_bit_eq_mult unat_word_ariths unat_of_nat)
    ultimately show ?thesis using M' N w' by (simp add: unat_word_ariths)
  qed
  have G: "GetCompact pn neg = Some ((w' OR push_bit 24 (word_of_nat N)) OR
      (if neg \<and> (w' OR push_bit 24 (word_of_nat N)) AND 0x007fffff \<noteq> 0 then 0x00800000 else 0))" for neg
  proof -
    have "(if w AND 0x00800000 \<noteq> 0 then (drop_bit 8 w, n + 1) else (w, n)) = (w', N)"
      by (simp add: w'_def N_def bit)
    then show ?thesis
      using mask N by (simp only: GetCompact_def n_def [symmetric] w_def [symmetric] Let_def prod.case) simp
  qed
  show "\<exists>c. GetCompact pn False = Some c \<and> unat c = M' + 2 ^ 24 * N" "GetCompact pn True \<noteq> None"
    using sum by (simp_all add: G)
qed

lemma compact_fields:
  assumes "unat c = M + 2 ^ 24 * N" "M < 2 ^ 23"
  shows "compact_size c = N" "compact_word c = M div 256 ^ (3 - N)" "\<not> bit c 23"
proof -
  have c: "unat c = M + 2 ^ 23 * (2 * N)" using assms(1) by simp
  have "(M + K * (2 * N)) mod K = M" "(M + K * (2 * N)) div K = 2 * N" if "M < K" for K using that by simp_all
  from this [OF assms(2), folded c] have "unat c mod 2 ^ 23 = M" "unat c div 2 ^ 23 = 2 * N" .
  then show "\<not> bit c 23" using bit_unsigned_iff [of c 23, where ?'a = nat] by (simp add: bit_iff_odd)
  show N: "compact_size c = N" using assms by (simp add: compact_size_def)
  show "compact_word c = M div 256 ^ (3 - N)"
    using \<open>unat c mod 2 ^ 23 = M\<close> by (simp add: compact_word_def N)
qed

lemma leading_word:
  fixes v n :: nat
  defines "M \<equiv> leading v n"
  defines "M' \<equiv> if M \<ge> 2 ^ 23 then M div 256 else M" and "N \<equiv> if M \<ge> 2 ^ 23 then n + 1 else n"
  shows "M' div 256 ^ (3 - N) = v div 256 ^ (N - 3)"
proof -
  consider "M < 2 ^ 23" "n \<le> 3" | "M < 2 ^ 23" "3 < n" | "M \<ge> 2 ^ 23" "n \<le> 2" | "M \<ge> 2 ^ 23" "3 \<le> n" by linarith
  then show ?thesis
  proof cases
    case 3
    then have "M = v * 256 ^ (2 - n) * 256"
      by (simp add: M_def leading_def Suc_diff_le numeral_3_eq_3 numeral_2_eq_2)
    then have "M' = v * 256 ^ (2 - n)" using 3 by (simp add: M'_def)
    with 3 show ?thesis by (simp add: N_def numeral_3_eq_3 numeral_2_eq_2)
  next
    case 4
    then have "M = v div 256 ^ (n - 3)" by (cases "n = 3") (simp_all add: M_def leading_def)
    then have "M' = v div (256 ^ (n - 3) * 256)" using 4 by (simp add: M'_def div_mult2_eq)
    also have "N - 3 = Suc (n - 3)" using 4 by (simp add: N_def)
    then have "(256::nat) ^ (n - 3) * 256 = 256 ^ (N - 3)" by simp
    finally show ?thesis using 4 by (simp add: N_def)
  qed (simp_all add: M_def M'_def N_def leading_def)
qed

lemma leading_large:
  fixes v n :: nat
  defines "M \<equiv> leading v n"
  defines "N \<equiv> if M \<ge> 2 ^ 23 then n + 1 else n"
  assumes "256 ^ (n - 1) \<le> v" "3 < N"
  shows "2 ^ 15 * 256 ^ (N - 3) \<le> v"
proof (cases "M \<ge> 2 ^ 23")
  case True
  then have n: "3 \<le> n" using assms(4) by (simp add: N_def)
  then have "2 ^ 23 \<le> v div 256 ^ (n - 3)" using True by (cases "n = 3") (simp_all add: M_def leading_def)
  then have "2 ^ 23 * 256 ^ (n - 3) \<le> v" by (simp add: less_eq_div_iff_mult_less_eq)
  moreover have "N - 3 = Suc (n - 3)" using True n by (simp add: N_def)
  then have "(256::nat) ^ (N - 3) = 256 * 256 ^ (n - 3)" by simp
  ultimately show ?thesis by simp
next
  case False
  then have "3 < n" using assms(4) by (simp add: N_def)
  then have "n - 1 = 2 + (n - 3)" by simp
  then have "(256::nat) ^ (n - 1) = 256 ^ 2 * 256 ^ (n - 3)" by (simp only: power_add)
  then show ?thesis using assms(3) False by (simp add: N_def)
qed

lemma SetCompact_GetCompact:
  assumes "length pn = 8"
  shows "\<exists>c t. GetCompact pn False = Some c \<and> SetCompact c = (t, False, False) \<and>
    val t = val pn div 256 ^ (compact_size c - 3) * 256 ^ (compact_size c - 3) \<and>
    (compact_size c \<le> 3 \<or> 2 ^ 15 * 256 ^ (compact_size c - 3) \<le> val pn)"
proof -
  define n where "n = (bits pn + 7) div 8"
  define M where "M = leading (val pn) n"
  define N where "N = (if M \<ge> 2 ^ 23 then n + 1 else n)"
  define M' where "M' = (if M \<ge> 2 ^ 23 then M div 256 else M)"
  note G = GetCompact_val [OF assms(1), folded n_def, folded M_def, folded N_def, folded M'_def]
  obtain c where c: "GetCompact pn False = Some c" "unat c = M' + 2 ^ 24 * N" using G(1) by blast
  note F = compact_fields [OF c(2) G(4)]
  have w: "compact_word c = val pn div 256 ^ (N - 3)"
    using leading_word [of "val pn" n, folded M_def, folded N_def, folded M'_def] F(2) by simp
  let ?T = "val pn div 256 ^ (N - 3) * 256 ^ (N - 3)"
  have le: "?T \<le> val pn" by simp
  have "val pn < 2 ^ 256" using val_less [of pn] unfolding limb_base_power assms by simp
  with le have small: "?T < 2 ^ 256" by (rule le_less_trans)
  obtain t where "SetCompact c = (t, compact_word c \<noteq> 0 \<and> bit c 23, compact_word c * 256 ^ (compact_size c - 3) \<ge> 2 ^ 256)"
    "val t = (compact_word c * 256 ^ (compact_size c - 3)) mod 2 ^ 256" by (rule SetCompact_val)
  then have t: "SetCompact c = (t, False, False)" "val t = ?T" using small by (simp_all add: w F)
  have "2 ^ 15 * 256 ^ (N - 3) \<le> val pn" if "3 < N"
  proof -
    have "bits pn \<noteq> 0"
    proof
      assume "bits pn = 0"
      then have "n = 0" "M = 0" using bits_val(1) [of pn] by (simp_all add: n_def M_def leading_def)
      then show False using that by (simp add: N_def)
    qed
    then have "val pn \<noteq> 0" "8 * (n - 1) \<le> bits pn - 1" using bits_val(1) [of pn] by (simp_all add: n_def)
    then have "(2::nat) ^ (8 * (n - 1)) \<le> val pn"
      using bits_val(3) [of pn] power_increasing [of "8 * (n - 1)" "bits pn - 1" "2::nat"] by linarith
    then show ?thesis
      using leading_large [of n "val pn", folded M_def, folded N_def] that by (simp only: byte_power)
  qed
  then show ?thesis using c(1) t F(1) by (metis linorder_not_le)
qed

section \<open>Properties\<close>

text \<open>
  C37: The operators of \<open>base_uint\<close> on arrays of 32-bit limbs compute the arithmetic of numbers
  modulo \<open>2 ^ (32 * WIDTH)\<close>, for every width: sum, difference, negation, complement, increment,
  decrement, both products and both shifts.  The product with a number takes its operand by
  reference, and what it computes for two objects does not hold for \<open>x *= x\<close>: the object is set to
  zero before it is read, and the result is zero.
\<close>

theorem base_uint_arithmetic:
  assumes "length b = length a"
  shows "val (op_add a b) = (val a + val b) mod 2 ^ (32 * length a) \<and>
    val (op_sub a b) = (val a + (2 ^ (32 * length a) - val b)) mod 2 ^ (32 * length a) \<and>
    val (op_neg a) = (2 ^ (32 * length a) - val a) mod 2 ^ (32 * length a) \<and>
    val (op_not a) = 2 ^ (32 * length a) - 1 - val a \<and>
    val (op_inc a) = (val a + 1) mod 2 ^ (32 * length a) \<and>
    val (op_dec a) = (val a + (2 ^ (32 * length a) - 1)) mod 2 ^ (32 * length a) \<and>
    val (op_mul32 a w) = (unat w * val a) mod 2 ^ (32 * length a) \<and>
    val (op_mul_assign a (Other b)) = (val a * val b) mod 2 ^ (32 * length a) \<and>
    val (op_mul_assign a This) = 0 \<and>
    val (op_shl a n) = (val a * 2 ^ n) mod 2 ^ (32 * length a) \<and>
    val (op_shr a n) = val a div 2 ^ n"
proof -
  have "val (op_not a) = limb_base ^ length a - 1 - val a" using val_op_not [of a] by linarith
  then show ?thesis
    using assms by (simp only: limb_base_power [symmetric] val_op_add val_op_sub val_op_neg val_op_inc val_op_dec
      val_op_mul32 val_op_mul(2) val_op_shl val_op_shr op_mul_This val_zeros simp_thms)
qed

theorem base_uint_arithmetic_witness:
  "val (op_mul [0xFFFFFFFF, 2] [3, 1]) = ((0xFFFFFFFF + 2 * 2 ^ 32) * (3 + 2 ^ 32)) mod 2 ^ 64"
proof -
  have "length [3, 1 :: u32] = length [0xFFFFFFFF, 2 :: u32]" by simp
  from base_uint_arithmetic [OF this]
  have "val (op_mul [0xFFFFFFFF, 2] [3, 1]) =
      (val [0xFFFFFFFF, 2] * val [3, 1]) mod 2 ^ (32 * length [0xFFFFFFFF :: u32, 2])" by blast
  moreover have "val [0xFFFFFFFF, 2] = 0xFFFFFFFF + 2 * 2 ^ 32" "val [3, 1] = 3 + 2 ^ 32"
    by (simp_all add: limb_base_def)
  ultimately show ?thesis by (simp only:) (simp add: limb_base_def)
qed

text \<open>
  C38: Division by shifting and subtracting ends with the quotient, and throws exactly when the
  divisor is zero; comparison orders numbers by their values.
\<close>

theorem base_uint_division:
  assumes "length d = length num"
  shows "(op_div num d = Inl Division_by_zero \<longleftrightarrow> val d = 0) \<and>
    (val d \<noteq> 0 \<longrightarrow> (\<exists>q. op_div num d = Inr q \<and> length q = length num \<and> val q = val num div val d)) \<and>
    (CompareTo num d < 0 \<longleftrightarrow> val num < val d) \<and> (CompareTo num d = 0 \<longleftrightarrow> num = d)"
  using op_div_val [OF assms] CompareTo_val [of num d] val_inj [of num d] assms
  by (cases "val d = 0") auto

theorem base_uint_division_witness:
  "\<exists>q. op_div [7, 1, 0] [10, 0, 0] = Inr q \<and> length q = 3 \<and> val q = (7 + 2 ^ 32) div 10"
proof -
  have "length [10, 0, 0 :: u32] = length [7, 1, 0 :: u32]" "val [10, 0, 0] \<noteq> 0" by simp_all
  then have "\<exists>q. op_div [7, 1, 0] [10, 0, 0] = Inr q \<and> length q = length [7, 1, 0 :: u32] \<and>
      val q = val [7, 1, 0] div val [10, 0, 0]" using base_uint_division by blast
  moreover have "length [7, 1, 0 :: u32] = 3" "val [7, 1, 0] = 7 + 2 ^ 32" "val [10, 0, 0] = 10"
    by (simp_all add: limb_base_def)
  ultimately show ?thesis by (simp only:)
qed

text \<open>
  C36: The compact form of a difficulty target.  \<open>GetCompact\<close> never fails its assertions;
  \<open>SetCompact\<close> reads its result without sign or overflow as the number with the bytes below the
  leading ones cleared, and at least 15 significant bits are kept.
\<close>

theorem compact_roundtrip:
  assumes "length pn = 8"
  shows "\<exists>c t. GetCompact pn False = Some c \<and> SetCompact c = (t, False, False) \<and>
    val t = val pn div 256 ^ (compact_size c - 3) * 256 ^ (compact_size c - 3) \<and>
    (compact_size c \<le> 3 \<or> 2 ^ 15 * 256 ^ (compact_size c - 3) \<le> val pn)"
  using assms by (rule SetCompact_GetCompact)

theorem compact_roundtrip_witness:
  "\<exists>c t. GetCompact [0x12345678, 0x9ABCDEF0, 0, 0, 0, 0, 0, 0] False = Some c \<and> SetCompact c = (t, False, False) \<and>
    val t = val [0x12345678, 0x9ABCDEF0, 0, 0, 0, 0, 0, 0] div 256 ^ (compact_size c - 3) * 256 ^ (compact_size c - 3)"
  using compact_roundtrip [of "[0x12345678, 0x9ABCDEF0, 0, 0, 0, 0, 0, 0]"] by fastforce

text \<open>
  What a compact number stands for: the mantissa shifted by whole bytes.  The negative flag
  is the sign bit of a non-zero number, and the overflow flag is set exactly when the number
  does not fit 256 bits.
\<close>

theorem SetCompact_meaning:
  "\<exists>t. SetCompact c = (t, compact_word c \<noteq> 0 \<and> bit c 23, compact_word c * 256 ^ (compact_size c - 3) \<ge> 2 ^ 256) \<and>
     val t = (compact_word c * 256 ^ (compact_size c - 3)) mod 2 ^ 256"
  by (rule SetCompact_val) blast

end
