(* ===== verification/Pow.thy ===== *)
theory Pow
  imports UInt256
begin

unbundle bit_operations_syntax

text \<open>
  Difficulty: \<^verbatim>\<open>src/src/pow.cpp\<close>.  A block index is the list of the blocks from \<open>pindexLast\<close> back
  to the genesis block; \<open>pprev\<close> is the tail.  The fields of \<open>Params()\<close> and of
  \<open>Params().GetConsensus()\<close> the functions read are the record \<open>Consensus_Params\<close>.

  \<open>int64_t\<close> is \<open>int\<close>: spans are sums of at most 24 differences of 32-bit times.  Targets are the
  256-bit numbers of \<^verbatim>\<open>src/src/uint256.cpp\<close>; where the code multiplies one by an \<open>int64_t\<close> the
  overload for \<open>uint32_t\<close> is taken, so that the factor is cut to 32 bits.
\<close>

record CBlockIndex =
  nHeight :: int
  nTime :: u32
  nBits :: u32

record Consensus_Params =
  IsRegTestNet :: bool
  powLimit :: limbs
  nTargetSpacing :: int
  height_last_PoW :: int
  height_start_TimeProtoV2 :: int

datatype pow_error = Null_pointer | Uint_error uint_error | Assertion_failed

definition GetBlockTime :: "CBlockIndex \<Rightarrow> int" where
  "GetBlockTime b = uint (nTime b)"

definition IsTimeProtocolV2 :: "Consensus_Params \<Rightarrow> int \<Rightarrow> bool" where
  "IsTimeProtocolV2 p h \<longleftrightarrow> h \<ge> height_start_TimeProtoV2 p"

definition divided :: "limbs \<Rightarrow> int \<Rightarrow> pow_error + limbs" where
  "divided a n = (case op_div a (set_u64 8 (word_of_int n)) of Inl e \<Rightarrow> Inl (Uint_error e) | Inr q \<Rightarrow> Inr q)"

definition compacted :: "limbs \<Rightarrow> pow_error + u32" where
  "compacted a = (case GetCompact a False of None \<Rightarrow> Inl Assertion_failed | Some c \<Rightarrow> Inr c)"

section \<open>Retargeting for proof of stake\<close>

definition bnTargetLimit :: limbs where
  "bnTargetLimit = op_shr (op_not (set_u64 8 0)) 24"

definition pos_spacing :: "Consensus_Params \<Rightarrow> CBlockIndex \<Rightarrow> CBlockIndex \<Rightarrow> int" where
  "pos_spacing p tip prev =
     (let fTimeV2 = IsTimeProtocolV2 p (nHeight tip + 1);
          nActualSpacing = (if nHeight tip \<noteq> 0 then GetBlockTime tip - GetBlockTime prev else 0);
          nActualSpacing = (if nActualSpacing < 0 then 1 else nActualSpacing)
      in if fTimeV2 \<and> nActualSpacing > nTargetSpacing p * 10 then nTargetSpacing p * 10 else nActualSpacing)"

definition pos_retarget :: "Consensus_Params \<Rightarrow> CBlockIndex list \<Rightarrow> pow_error + u32" where
  "pos_retarget p chain =
     (case chain of tip # prev # _ \<Rightarrow>
        let fTimeV2 = IsTimeProtocolV2 p (nHeight tip + 1);
            nTargetTimespan = 60 * 40;
            nActualSpacing = pos_spacing p tip prev;
            bnNew = fst (SetCompact (nBits tip));
            bnNew = (if fTimeV2 \<and> \<not> IsTimeProtocolV2 p (nHeight tip) then op_shl bnNew 4 else bnNew);
            nInterval = nTargetTimespan div nTargetSpacing p;
            bnNew = op_mul32 bnNew
              (word_of_int ((nInterval - 1) * nTargetSpacing p + nActualSpacing + nActualSpacing))
        in (case divided bnNew ((nInterval + 1) * nTargetSpacing p) of Inl e \<Rightarrow> Inl e | Inr bnNew \<Rightarrow>
              compacted (if CompareTo bnNew (set_u64 8 0) \<le> 0 \<or> CompareTo bnNew bnTargetLimit > 0
                         then bnTargetLimit else bnNew))
      | _ \<Rightarrow> Inl Null_pointer)"

section \<open>Dark Gravity Wave\<close>

record dgw_state =
  CountBlocks :: int
  PastDifficultyAverage :: limbs
  PastDifficultyAveragePrev :: limbs
  nActualTimespan :: int
  LastBlockTime :: int

definition PastBlocksMin :: int where
  "PastBlocksMin = 24"

definition PastBlocksMax :: int where
  "PastBlocksMax = 24"

definition dgw_block :: "CBlockIndex \<Rightarrow> dgw_state \<Rightarrow> pow_error + dgw_state" where
  "dgw_block b s =
     (let s = s\<lparr>CountBlocks := CountBlocks s + 1\<rparr>;
          averaged =
            (if CountBlocks s \<le> PastBlocksMin then
               (case (if CountBlocks s = 1 then Inr (fst (SetCompact (nBits b)))
                      else divided (op_add (op_mul32 (PastDifficultyAveragePrev s) (word_of_int (CountBlocks s)))
                                     (fst (SetCompact (nBits b)))) (CountBlocks s + 1)) of
                  Inl e \<Rightarrow> Inl e
                | Inr a \<Rightarrow> Inr (s\<lparr>PastDifficultyAverage := a, PastDifficultyAveragePrev := a\<rparr>))
             else Inr s)
      in case averaged of Inl e \<Rightarrow> Inl e | Inr s \<Rightarrow>
           let s = (if LastBlockTime s > 0
                    then s\<lparr>nActualTimespan := nActualTimespan s + (LastBlockTime s - GetBlockTime b)\<rparr> else s)
           in Inr (s\<lparr>LastBlockTime := GetBlockTime b\<rparr>))"

fun dgw_loop :: "int \<Rightarrow> CBlockIndex list \<Rightarrow> dgw_state \<Rightarrow> pow_error + dgw_state" where
  "dgw_loop i [] s = Inr s"
| "dgw_loop i (b # chain) s =
     (if \<not> nHeight b > 0 then Inr s
      else if PastBlocksMax > 0 \<and> i > PastBlocksMax then Inr s
      else case dgw_block b s of Inl e \<Rightarrow> Inl e | Inr s \<Rightarrow>
        if chain = [] then Inr s else dgw_loop (i + 1) chain s)"

definition dgw_span :: "Consensus_Params \<Rightarrow> dgw_state \<Rightarrow> int" where
  "dgw_span p s =
     (let T = CountBlocks s * nTargetSpacing p;
          a = (if nActualTimespan s < T div 3 then T div 3 else nActualTimespan s)
      in if a > T * 3 then T * 3 else a)"

definition dgw_retarget :: "Consensus_Params \<Rightarrow> CBlockIndex list \<Rightarrow> pow_error + u32" where
  "dgw_retarget p chain =
     (case dgw_loop 1 chain \<lparr>CountBlocks = 0, PastDifficultyAverage = set_u64 8 0,
             PastDifficultyAveragePrev = set_u64 8 0, nActualTimespan = 0, LastBlockTime = 0\<rparr> of
        Inl e \<Rightarrow> Inl e
      | Inr s \<Rightarrow>
          (case divided (op_mul32 (PastDifficultyAverage s) (word_of_int (dgw_span p s)))
                  (CountBlocks s * nTargetSpacing p) of
             Inl e \<Rightarrow> Inl e
           | Inr bnNew \<Rightarrow> compacted (if CompareTo bnNew (powLimit p) > 0 then powLimit p else bnNew)))"

section \<open>The functions of the file\<close>

definition GetNextWorkRequired :: "Consensus_Params \<Rightarrow> CBlockIndex list \<Rightarrow> pow_error + u32" where
  "GetNextWorkRequired p chain =
     (if IsRegTestNet p then (case chain of [] \<Rightarrow> Inl Null_pointer | tip # _ \<Rightarrow> Inr (nBits tip))
      else case chain of [] \<Rightarrow> compacted (powLimit p)
      | tip # _ \<Rightarrow>
          if nHeight tip = 0 \<or> nHeight tip < PastBlocksMin then compacted (powLimit p)
          else if nHeight tip \<ge> height_last_PoW p then pos_retarget p chain
          else dgw_retarget p chain)"

definition CheckProofOfWork :: "Consensus_Params \<Rightarrow> limbs \<Rightarrow> u32 \<Rightarrow> bool" where
  "CheckProofOfWork p hash nb =
     (if IsRegTestNet p then True
      else case SetCompact nb of (bnTarget, fNegative, fOverflow) \<Rightarrow>
        if fNegative \<or> IsNull bnTarget \<or> fOverflow \<or> CompareTo bnTarget (powLimit p) > 0 then False
        else if CompareTo hash bnTarget > 0 then False
        else True)"

definition GetBlockProof :: "CBlockIndex \<Rightarrow> pow_error + limbs" where
  "GetBlockProof block =
     (case SetCompact (nBits block) of (bnTarget, fNegative, fOverflow) \<Rightarrow>
        if fNegative \<or> fOverflow \<or> IsNull bnTarget then Inr (set_u64 8 0)
        else case op_div (op_not bnTarget) (op_add bnTarget (set_u64 8 1)) of
               Inl e \<Rightarrow> Inl (Uint_error e)
             | Inr q \<Rightarrow> Inr (op_add q (set_u64 8 1)))"

section \<open>Targets\<close>

definition target :: "u32 \<Rightarrow> nat" where
  "target c = val (fst (SetCompact c))"

text \<open>A compact number that \<open>SetCompact\<close> reports as neither negative nor too large for 256 bits.\<close>

definition target_fits :: "u32 \<Rightarrow> bool" where
  "target_fits c \<longleftrightarrow> \<not> fst (snd (SetCompact c)) \<and> \<not> snd (snd (SetCompact c))"

definition target_ok :: "u32 \<Rightarrow> bool" where
  "target_ok c \<longleftrightarrow> target_fits c \<and> target c \<noteq> 0"

lemma SetCompact_length [simp]: "length (fst (SetCompact c)) = 8"
  by (rule SetCompact_val [of c]) simp

lemma target_less: "target c < 2 ^ 256"
  using val_less [of "fst (SetCompact c)"] unfolding target_def limb_base_power by simp

text \<open>No compact number is \<open>2 ^ 256 - 1\<close>: either it is even, or it has 23 bits.\<close>

lemma target_not_max: "target c + 1 < 2 ^ 256"
proof -
  obtain t where t: "fst (SetCompact c) = t" "val t = (compact_word c * 256 ^ (compact_size c - 3)) mod 2 ^ 256"
    by (rule SetCompact_val [of c]) simp
  show ?thesis
  proof (cases "compact_size c - 3")
    case 0
    have "compact_word c \<le> unat c mod 2 ^ 23" unfolding compact_word_def by (rule div_le_dividend)
    moreover have "unat c mod 2 ^ 23 < 2 ^ 23" by simp
    ultimately have "compact_word c < 2 ^ 23" by (rule le_less_trans)
    then show ?thesis using 0 t by (simp add: target_def)
  next
    case (Suc k)
    have "even (compact_word c * 256 ^ Suc k)" by simp
    then have "even (target c)" using t Suc by (simp add: target_def dvd_mod_iff)
    moreover have "odd ((2::nat) ^ 256 - 1)" by simp
    ultimately have "target c \<noteq> 2 ^ 256 - 1" by metis
    then show ?thesis using target_less [of c] by linarith
  qed
qed

lemma limbs_8 [simp]: "length (set_u64 8 b) = 8" "val (set_u64 8 b) = unat b"
  by (simp_all add: val_set_u64)

lemma val_8: "length a = 8 \<Longrightarrow> val a < 2 ^ 256"
  using val_less [of a] unfolding limb_base_power by simp

lemma divided_val:
  assumes "length a = 8" "0 < n" "n < 2 ^ 64"
  obtains q where "divided a n = Inr q" "length q = 8" "val q = val a div nat n"
proof -
  have n: "unat (word_of_int n :: u64) = nat n"
    using assms(2,3) by (simp add: unsigned_of_int take_bit_eq_mod nat_mod_distrib)
  then have "val (set_u64 8 (word_of_int n)) \<noteq> 0" using assms(2) by simp
  then show thesis
    using op_div_val [of "set_u64 8 (word_of_int n)" a] assms(1) n that by (auto simp: divided_def)
qed

lemma compacted_val:
  assumes "length a = 8"
  obtains c where "compacted a = Inr c" "GetCompact a False = Some c" "target c \<le> val a"
    "val a \<noteq> 0 \<Longrightarrow> target_ok c" "target_fits c"
proof -
  obtain c t where c: "GetCompact a False = Some c" "SetCompact c = (t, False, False)"
    "val t = val a div 256 ^ (compact_size c - 3) * 256 ^ (compact_size c - 3)"
    "compact_size c \<le> 3 \<or> 2 ^ 15 * 256 ^ (compact_size c - 3) \<le> val a"
    using SetCompact_GetCompact [OF assms] by blast
  have t: "target c = val t" by (simp add: target_def c(2))
  then have "target c \<le> val a" by (simp add: c(3))
  moreover have "target_ok c" if "val a \<noteq> 0"
  proof -
    have "val t \<noteq> 0"
    proof (cases "compact_size c \<le> 3")
      case True
      then show ?thesis using that by (simp add: c(3))
    next
      case False
      then have "256 ^ (compact_size c - 3) \<le> val a" using c(4) by simp
      then show ?thesis by (simp add: c(3) div_eq_0_iff not_less)
    qed
    then show ?thesis by (simp add: target_ok_def target_fits_def c(2) t)
  qed
  moreover have "target_fits c" by (simp add: target_fits_def c(2))
  ultimately show thesis using that c(1) by (simp add: compacted_def)
qed

lemma bnTargetLimit_val: "val bnTargetLimit = 2 ^ 232 - 1" "length bnTargetLimit = 8"
proof -
  have "val (op_not (set_u64 8 0)) + val (set_u64 8 0) + 1 = limb_base ^ length (set_u64 8 0)" by (rule val_op_not)
  then have "val (op_not (set_u64 8 0)) = 2 ^ 256 - 1" by (simp add: limb_base_power)
  then show "val bnTargetLimit = 2 ^ 232 - 1" by (simp add: bnTargetLimit_def val_op_shr)
  show "length bnTargetLimit = 8" by (simp add: bnTargetLimit_def)
qed

lemma CompareTo_8:
  "length a = 8 \<Longrightarrow> length b = 8 \<Longrightarrow> CompareTo a b > 0 \<longleftrightarrow> val b < val a"
  "length a = 8 \<Longrightarrow> length b = 8 \<Longrightarrow> CompareTo a b \<le> 0 \<longleftrightarrow> val a \<le> val b"
  by (simp_all add: CompareTo_val)

section \<open>Proof of stake\<close>

text \<open>The block times of a chain: heights count down to the genesis block.\<close>

definition chain_ok :: "CBlockIndex list \<Rightarrow> bool" where
  "chain_ok chain \<longleftrightarrow> (\<forall>i < length chain. nHeight (chain ! i) = int (length chain - 1 - i))"

definition params_ok :: "Consensus_Params \<Rightarrow> bool" where
  "params_ok p \<longleftrightarrow> length (powLimit p) = 8 \<and> 0 < nTargetSpacing p \<and> nTargetSpacing p \<le> 2400"

lemma chain_ok_two: "chain_ok chain \<Longrightarrow> 0 < nHeight (hd chain) \<Longrightarrow> chain \<noteq> [] \<Longrightarrow> \<exists>tip prev r. chain = tip # prev # r"
  by (cases chain; cases "tl chain") (auto simp: chain_ok_def)

lemma pos_divisor:
  assumes "params_ok p"
  shows "0 < (2400 div nTargetSpacing p + 1) * nTargetSpacing p" "(2400 div nTargetSpacing p + 1) * nTargetSpacing p \<le> 4800"
proof -
  have "0 < nTargetSpacing p" "nTargetSpacing p \<le> 2400" using assms by (simp_all add: params_ok_def)
  moreover have "2400 div nTargetSpacing p * nTargetSpacing p \<le> 2400"
    using \<open>0 < nTargetSpacing p\<close> by (metis div_mult_mod_eq le_add_same_cancel1 pos_mod_sign)
  moreover have "0 \<le> 2400 div nTargetSpacing p" using \<open>0 < nTargetSpacing p\<close> by (simp add: pos_imp_zdiv_nonneg_iff)
  ultimately show "0 < (2400 div nTargetSpacing p + 1) * nTargetSpacing p"
    "(2400 div nTargetSpacing p + 1) * nTargetSpacing p \<le> 4800"
    by (simp_all add: algebra_simps add_pos_nonneg)
qed

lemma pos_retarget_ok:
  assumes "params_ok p" "chain = tip # prev # r"
  obtains c where "pos_retarget p chain = Inr c" "target_ok c" "target c \<le> 2 ^ 232 - 1"
proof -
  define bn where "bn = op_mul32
    (if IsTimeProtocolV2 p (nHeight tip + 1) \<and> \<not> IsTimeProtocolV2 p (nHeight tip)
     then op_shl (fst (SetCompact (nBits tip))) 4 else fst (SetCompact (nBits tip)))
    (word_of_int ((2400 div nTargetSpacing p - 1) * nTargetSpacing p + pos_spacing p tip prev + pos_spacing p tip prev))"
  define D where "D = (2400 div nTargetSpacing p + 1) * nTargetSpacing p"
  have D: "0 < D" "D < 2 ^ 64" using pos_divisor [OF assms(1)] by (simp_all add: D_def)
  have "length bn = 8" by (simp add: bn_def)
  then obtain q where q: "divided bn D = Inr q" "length q = 8" using D by (rule divided_val)
  define a where "a = (if CompareTo q (set_u64 8 0) \<le> 0 \<or> CompareTo q bnTargetLimit > 0 then bnTargetLimit else q)"
  have a: "length a = 8" "val a \<noteq> 0" "val a \<le> 2 ^ 232 - 1"
    using q(2) bnTargetLimit_val by (auto simp: a_def CompareTo_8)
  have "pos_retarget p chain = (case divided bn D of Inl e \<Rightarrow> Inl e | Inr b \<Rightarrow>
      compacted (if CompareTo b (set_u64 8 0) \<le> 0 \<or> CompareTo b bnTargetLimit > 0 then bnTargetLimit else b))"
  proof -
    have e: "(60 * 40 :: int) = 2400" by simp
    show ?thesis by (simp only: pos_retarget_def assms(2) list.case Let_def bn_def D_def e)
  qed
  then have "pos_retarget p chain = compacted a" by (simp add: q(1) a_def)
  moreover obtain c where "compacted a = Inr c" "target c \<le> val a" "target_ok c"
    using compacted_val [OF a(1)] a(2) by blast
  ultimately show thesis using that a(3) by (metis le_trans)
qed

section \<open>Dark Gravity Wave\<close>

definition dgw_ok :: "dgw_state \<Rightarrow> bool" where
  "dgw_ok s \<longleftrightarrow> length (PastDifficultyAverage s) = 8 \<and> length (PastDifficultyAveragePrev s) = 8
     \<and> 0 \<le> CountBlocks s \<and> CountBlocks s \<le> PastBlocksMax"

lemma dgw_block_ok:
  assumes "dgw_ok s" "CountBlocks s < PastBlocksMax"
  obtains s' where "dgw_block b s = Inr s'" "dgw_ok s'" "CountBlocks s' = CountBlocks s + 1"
proof -
  define n where "n = CountBlocks s + 1"
  define prev where "prev = op_add (op_mul32 (PastDifficultyAveragePrev s) (word_of_int n)) (fst (SetCompact (nBits b)))"
  have n: "0 < n" "n \<le> 24" using assms by (simp_all add: n_def dgw_ok_def PastBlocksMax_def)
  have "length prev = 8" using assms(1) by (simp add: prev_def dgw_ok_def)
  then obtain q where q: "divided prev (n + 1) = Inr q" "length q = 8"
    using divided_val [of prev "n + 1"] n by auto
  define a where "a = (if n = 1 then fst (SetCompact (nBits b)) else q)"
  have "length a = 8" by (simp add: a_def q)
  moreover have "(if n = 1 then Inr (fst (SetCompact (nBits b))) else divided prev (n + 1)) = Inr a"
    by (simp add: a_def q(1))
  moreover define s1 where "s1 = s\<lparr>CountBlocks := n, PastDifficultyAverage := a, PastDifficultyAveragePrev := a\<rparr>"
  define s' where "s' = (if LastBlockTime s > 0
     then s1\<lparr>nActualTimespan := nActualTimespan s + (LastBlockTime s - GetBlockTime b)\<rparr> else s1)
    \<lparr>LastBlockTime := GetBlockTime b\<rparr>"
  ultimately have "dgw_block b s = Inr s'"
    using n by (cases "n = 1")
      (simp_all add: dgw_block_def n_def [symmetric] prev_def [symmetric] PastBlocksMin_def s'_def s1_def Let_def)
  moreover have "dgw_ok s'" "CountBlocks s' = CountBlocks s + 1"
    using \<open>length a = 8\<close> n by (simp_all add: s'_def s1_def dgw_ok_def n_def PastBlocksMax_def)
  ultimately show thesis using that by blast
qed

lemma dgw_loop_ok:
  "dgw_ok s \<Longrightarrow> CountBlocks s = i - 1 \<Longrightarrow> \<exists>s'. dgw_loop i chain s = Inr s' \<and> dgw_ok s' \<and>
    CountBlocks s \<le> CountBlocks s' \<and> (chain \<noteq> [] \<and> nHeight (hd chain) > 0 \<and> i \<le> PastBlocksMax \<longrightarrow> CountBlocks s < CountBlocks s')"
proof (induction i chain s rule: dgw_loop.induct)
  case (2 i b chain s)
  show ?case
  proof (cases "nHeight b > 0 \<and> i \<le> PastBlocksMax")
    case True
    then obtain s' where s': "dgw_block b s = Inr s'" "dgw_ok s'" "CountBlocks s' = CountBlocks s + 1"
      using dgw_block_ok [OF "2.prems"(1), of b] "2.prems"(2) by auto
    show ?thesis
    proof (cases "chain = []")
      case True1: True
      then show ?thesis using True s' by (simp add: PastBlocksMax_def)
    next
      case False
      then obtain s'' where "dgw_loop (i + 1) chain s' = Inr s''" "dgw_ok s''" "CountBlocks s' \<le> CountBlocks s''"
        using "2.IH" [of s'] True s' "2.prems"(2) by auto
      then show ?thesis using True False s' by (auto simp: PastBlocksMax_def)
    qed
  next
    case False
    then show ?thesis using "2.prems" by (auto simp: PastBlocksMax_def)
  qed
qed simp

lemma dgw_retarget_ok:
  assumes "params_ok p" "chain \<noteq> []" "0 < nHeight (hd chain)"
  obtains c where "dgw_retarget p chain = Inr c" "target_fits c" "target c \<le> val (powLimit p)"
proof -
  let ?s0 = "\<lparr>CountBlocks = 0, PastDifficultyAverage = set_u64 8 0,
     PastDifficultyAveragePrev = set_u64 8 0, nActualTimespan = 0, LastBlockTime = 0\<rparr>"
  have "dgw_ok ?s0" by (simp add: dgw_ok_def PastBlocksMax_def)
  then obtain s where s: "dgw_loop 1 chain ?s0 = Inr s" "dgw_ok s" "0 < CountBlocks s"
    using dgw_loop_ok [of ?s0 1 chain] assms(2,3) by (auto simp: PastBlocksMax_def)
  have p: "length (powLimit p) = 8" "0 < nTargetSpacing p" "nTargetSpacing p \<le> 2400"
    using assms(1) by (simp_all add: params_ok_def)
  have "CountBlocks s \<le> 24" using s(2) by (simp add: dgw_ok_def PastBlocksMax_def)
  then have "CountBlocks s * nTargetSpacing p \<le> 24 * 2400" using p s(3) by (intro mult_mono) simp_all
  then have "0 < CountBlocks s * nTargetSpacing p" "CountBlocks s * nTargetSpacing p < 2 ^ 64"
    using s(3) p(2) by simp_all
  moreover define bn where "bn = op_mul32 (PastDifficultyAverage s) (word_of_int (dgw_span p s))"
  have "length bn = 8" using s(2) by (simp add: bn_def dgw_ok_def)
  ultimately obtain q where q: "divided bn (CountBlocks s * nTargetSpacing p) = Inr q" "length q = 8"
    by (metis divided_val)
  define a where "a = (if CompareTo q (powLimit p) > 0 then powLimit p else q)"
  have a: "length a = 8" "val a \<le> val (powLimit p)"
    using q(2) p(1) by (auto simp: a_def CompareTo_8)
  obtain c where "compacted a = Inr c" "target_fits c" "target c \<le> val a"
    using compacted_val [OF a(1)] by blast
  moreover have "dgw_retarget p chain = compacted a"
    using s(1) q(1) by (simp add: dgw_retarget_def bn_def [symmetric] a_def)
  ultimately show thesis using that a(2) by (metis le_trans)
qed

section \<open>Properties\<close>

text \<open>
  C32: \<open>GetNextWorkRequired\<close> always returns a target on a chain whose heights count down to the
  genesis block: no null pointer, no division by zero, no failed assertion.  \<open>SetCompact\<close> reports
  the result as neither negative nor overflowing; it is not above the limit of its phase, and
  for proof of stake it is not zero.  On the regression test network, where the chain must
  not be empty, the result is the target of the last block.
\<close>

theorem GetNextWorkRequired_total:
  assumes "params_ok p" "chain_ok chain" "IsRegTestNet p \<longrightarrow> chain \<noteq> []"
  shows "\<exists>c. GetNextWorkRequired p chain = Inr c \<and>
    (if IsRegTestNet p then c = nBits (hd chain)
     else target_fits c \<and>
       (if chain \<noteq> [] \<and> nHeight (hd chain) \<ge> 24 \<and> nHeight (hd chain) \<ge> height_last_PoW p
        then target c \<noteq> 0 \<and> target c \<le> 2 ^ 232 - 1
        else target c \<le> val (powLimit p)))"
proof (cases "IsRegTestNet p")
  case True
  then show ?thesis using assms(3) by (cases chain) (simp_all add: GetNextWorkRequired_def)
next
  case net: False
  have lim: "\<exists>c. compacted (powLimit p) = Inr c \<and> target_fits c \<and> target c \<le> val (powLimit p)"
    using compacted_val [of "powLimit p"] assms(1) by (metis params_ok_def)
  consider "chain = []" | "chain \<noteq> []" "nHeight (hd chain) < 24"
    | "chain \<noteq> []" "nHeight (hd chain) \<ge> 24" "nHeight (hd chain) \<ge> height_last_PoW p"
    | "chain \<noteq> []" "nHeight (hd chain) \<ge> 24" "nHeight (hd chain) < height_last_PoW p" by linarith
  then show ?thesis
  proof cases
    case 3
    then obtain tip prev r where c: "chain = tip # prev # r" using chain_ok_two [OF assms(2)] by auto
    obtain w where "pos_retarget p chain = Inr w" "target_ok w" "target w \<le> 2 ^ 232 - 1"
      by (rule pos_retarget_ok [OF assms(1) c])
    moreover have "GetNextWorkRequired p chain = pos_retarget p chain"
      using 3 net c by (simp add: GetNextWorkRequired_def PastBlocksMin_def)
    ultimately show ?thesis using 3 net by (simp add: target_ok_def)
  next
    case 4
    then obtain c where "dgw_retarget p chain = Inr c" "target_fits c" "target c \<le> val (powLimit p)"
      using dgw_retarget_ok [OF assms(1), of chain] by auto
    then show ?thesis using 4 net by (cases chain) (simp_all add: GetNextWorkRequired_def PastBlocksMin_def)
  qed (use lim net in \<open>cases chain; simp add: GetNextWorkRequired_def PastBlocksMin_def\<close>)+
qed

text \<open>
  C35: \<open>CheckProofOfWork\<close> accepts exactly the hashes up to the target, of compact targets that are
  positive, fit 256 bits and do not exceed the limit.  (On the regression test network it
  accepts every hash.)
\<close>

theorem CheckProofOfWork_correct:
  assumes "\<not> IsRegTestNet p" "length (powLimit p) = 8" "length hash = 8"
  shows "CheckProofOfWork p hash c \<longleftrightarrow>
    compact_word c \<noteq> 0 \<and> \<not> bit c 23 \<and> compact_word c * 256 ^ (compact_size c - 3) < 2 ^ 256 \<and>
    compact_word c * 256 ^ (compact_size c - 3) \<le> val (powLimit p) \<and>
    val hash \<le> compact_word c * 256 ^ (compact_size c - 3)"
proof -
  let ?v = "compact_word c * 256 ^ (compact_size c - 3)"
  obtain t where t: "SetCompact c = (t, compact_word c \<noteq> 0 \<and> bit c 23, ?v \<ge> 2 ^ 256)"
    "length t = 8" "val t = ?v mod 2 ^ 256" by (rule SetCompact_val)
  show ?thesis
  proof (cases "?v < 2 ^ 256")
    case True
    then have "val t = ?v" using t(3) by simp
    moreover have "IsNull t \<longleftrightarrow> ?v = 0" using IsNull_val [of t] calculation by simp
    ultimately show ?thesis
      using True assms t(1,2) by (auto simp: CheckProofOfWork_def CompareTo_8 not_less)
  next
    case False
    then show ?thesis using assms t(1) by (simp add: CheckProofOfWork_def not_less)
  qed
qed

text \<open>
  \<open>GetBlockProof\<close> is the expected number of hashes for a block, \<open>2 ^ 256 / (target + 1)\<close>,
  computed without a 257-bit number; invalid targets count for nothing.
\<close>

theorem GetBlockProof_correct:
  "\<exists>w. GetBlockProof block = Inr w \<and>
     val w = (if target_ok (nBits block) then 2 ^ 256 div (target (nBits block) + 1) else 0)"
proof -
  obtain t neg ovf where t: "SetCompact (nBits block) = (t, neg, ovf)" by (metis prod_cases3)
  have len: "length t = 8" using SetCompact_length [of "nBits block"] t by simp
  have tv: "target (nBits block) = val t" by (simp add: target_def t)
  show ?thesis
  proof (cases "target_ok (nBits block)")
    case False
    then have "neg \<or> ovf \<or> IsNull t" by (auto simp: target_ok_def target_fits_def t tv IsNull_val)
    then show ?thesis using False by (simp add: GetBlockProof_def t)
  next
    case True
    then have ok: "\<not> neg" "\<not> ovf" "\<not> IsNull t" by (auto simp: target_ok_def target_fits_def t tv IsNull_val)
    have b: "val t + 1 \<le> 2 ^ 256" using val_8 [OF len] by simp
    have no: "val (op_not t) = 2 ^ 256 - (val t + 1)"
      using val_op_not [of t] len unfolding limb_base_power by simp
    have "val t + 1 < 2 ^ 256" using target_not_max [of "nBits block"] tv by simp
    then have d: "val (op_add t (set_u64 8 1)) = val t + 1"
      using b len by (simp add: val_op_add limb_base_power)
    obtain q where q: "op_div (op_not t) (op_add t (set_u64 8 1)) = Inr q" "length q = 8"
      "val q = val (op_not t) div (val t + 1)"
      using op_div_val [of "op_add t (set_u64 8 1)" "op_not t"] d len by auto
    have "2 ^ 256 = (2 ^ 256 - (val t + 1)) + (val t + 1)" using b by simp
    then have e: "2 ^ 256 div (val t + 1) = val q + 1"
      using q(3) no by (metis Suc_eq_plus1 add_gr_0 div_add_self2 less_numeral_extra(1) less_not_refl2)
    moreover have "2 ^ 256 div (val t + 1) < 2 ^ 256" using ok(3) by (intro div_less_dividend) (simp_all add: IsNull_val)
    ultimately have "val (op_add q (set_u64 8 1)) = 2 ^ 256 div (val t + 1)"
      using q(2) by (simp add: val_op_add limb_base_power)
    then show ?thesis using True ok q(1) by (simp add: GetBlockProof_def t tv)
  qed
qed

definition sample_params :: Consensus_Params where
  "sample_params = \<lparr>IsRegTestNet = False, powLimit = op_shr (op_not (set_u64 8 0)) 20, nTargetSpacing = 60,
     height_last_PoW = 100, height_start_TimeProtoV2 = 0\<rparr>"

lemma sample_params_ok: "params_ok sample_params" "\<not> IsRegTestNet sample_params" "length (powLimit sample_params) = 8"
  by (simp_all add: params_ok_def sample_params_def)

lemma powLimit_sample: "val (powLimit sample_params) = 2 ^ 236 - 1"
proof -
  have "val (op_not (set_u64 8 0)) + val (set_u64 8 0) + 1 = limb_base ^ length (set_u64 8 0)" by (rule val_op_not)
  then show ?thesis by (simp add: sample_params_def val_op_shr limb_base_power)
qed

definition sample_chain :: "nat \<Rightarrow> CBlockIndex list" where
  "sample_chain n = map (\<lambda>i. \<lparr>nHeight = int (n - 1 - i), nTime = word_of_nat (60 * (n - i)), nBits = 0x1e0fffff\<rparr>) [0..<n]"

lemma sample_chain_ok: "chain_ok (sample_chain n)" "n \<noteq> 0 \<Longrightarrow> nHeight (hd (sample_chain n)) = int (n - 1)"
  "n \<noteq> 0 \<Longrightarrow> sample_chain n \<noteq> []"
  by (simp_all add: chain_ok_def sample_chain_def hd_conv_nth)

text \<open>Two chains that reach the two rules: 31 blocks of proof of work, and 121 blocks behind its end.\<close>

theorem GetNextWorkRequired_total_witness:
  "(\<exists>c. GetNextWorkRequired sample_params (sample_chain 31) = Inr c \<and> target_fits c \<and> target c \<le> 2 ^ 236 - 1)
   \<and> (\<exists>c. GetNextWorkRequired sample_params (sample_chain 121) = Inr c \<and> target_fits c \<and> target c \<noteq> 0)"
  using GetNextWorkRequired_total [OF sample_params_ok(1) sample_chain_ok(1) [of 31]]
    GetNextWorkRequired_total [OF sample_params_ok(1) sample_chain_ok(1) [of 121]]
    sample_params_ok(2) sample_chain_ok(2,3) [of 31] sample_chain_ok(2,3) [of 121] powLimit_sample
  by (auto simp: sample_params_def)

theorem CheckProofOfWork_correct_witness:
  "CheckProofOfWork sample_params (set_u64 8 5) 0x1d00ffff \<and> \<not> CheckProofOfWork sample_params (set_u64 8 5) 0x03000004"
proof -
  have f: "compact_word 0x1d00ffff = 0xffff" "compact_size 0x1d00ffff = 29" "compact_word 0x03000004 = 4" "compact_size 0x03000004 = 3"
    by (simp_all add: compact_word_def compact_size_def)
  have b: "\<not> bit (0x1d00ffff :: u32) 23" by simp
  note C = CheckProofOfWork_correct [OF sample_params_ok(2,3), of "set_u64 8 5"]
  have "CheckProofOfWork sample_params (set_u64 8 5) 0x1d00ffff"
    using C [of "0x1d00ffff"] b by (simp add: f powLimit_sample)
  moreover have "\<not> CheckProofOfWork sample_params (set_u64 8 5) 0x03000004"
    using C [of "0x03000004"] by (simp add: f)
  ultimately show ?thesis ..
qed

lemma val_mul_factor:
  assumes "length a = 8" "0 \<le> f" "f < 2 ^ 20" "val a < 2 ^ 236"
  shows "val (op_mul32 a (word_of_int f)) = val a * nat f"
proof -
  have f: "unat (word_of_int f :: u32) = nat f"
    using assms(2,3) by (simp add: unsigned_of_int take_bit_eq_mod nat_mod_distrib)
  have "nat f * val a < 2 ^ 20 * 2 ^ 236"
    using assms(2-4) by (intro mult_strict_mono') (simp_all add: nat_less_iff)
  then show ?thesis using assms(1) by (simp add: val_op_mul32 f limb_base_power mult.commute)
qed

text \<open>
  The retarget for proof of stake, once the second time protocol is in force and the last
  target is within the limit: with spacing \<open>S\<close>, \<open>I = 2400 / S\<close> and the last block's spacing \<open>A\<close>,
  clamped to \<open>10 * S\<close>, the new target is \<open>target * ((I - 1) * S + 2 * A) / ((I + 1) * S)\<close>, computed
  without loss in 256 bits; the limit takes the place of zero and of anything above it.
\<close>

theorem pos_retarget_formula:
  assumes "params_ok p" "\<not> IsRegTestNet p" "24 \<le> nHeight tip" "height_last_PoW p \<le> nHeight tip"
    and "IsTimeProtocolV2 p (nHeight tip)" "target (nBits tip) \<le> 2 ^ 232 - 1"
  shows "let S = nTargetSpacing p; I = 2400 div S;
      D = GetBlockTime tip - GetBlockTime prev;
      A = min (if D < 0 then 1 else D) (10 * S);
      v = target (nBits tip) * nat ((I - 1) * S + 2 * A) div nat ((I + 1) * S)
    in \<exists>bn. length bn = 8 \<and> val bn = (if v = 0 \<or> v > 2 ^ 232 - 1 then 2 ^ 232 - 1 else v) \<and>
      GetNextWorkRequired p (tip # prev # r) = compacted bn"
proof -
  define S I D where "S = nTargetSpacing p" and "I = 2400 div S" and "D = GetBlockTime tip - GetBlockTime prev"
  define A where "A = min (if D < 0 then 1 else D) (10 * S)"
  define F E where "F = (I - 1) * S + 2 * A" and "E = (I + 1) * S"
  define v where "v = target (nBits tip) * nat F div nat E"
  have S: "0 < S" "S \<le> 2400" using assms(1) by (simp_all add: S_def params_ok_def)
  have V2: "IsTimeProtocolV2 p (nHeight tip + 1)" using assms(5) by (simp add: IsTimeProtocolV2_def)
  have A: "pos_spacing p tip prev = A"
    using assms(3) V2 by (simp add: pos_spacing_def A_def D_def S_def Let_def min_def)
  have "1 \<le> I" using S by (simp add: I_def pos_imp_zdiv_pos_iff int_one_le_iff_zero_less)
  moreover have "I * S \<le> 2400" unfolding I_def using S(1)
    by (metis div_mult_mod_eq le_add_same_cancel1 pos_mod_sign)
  moreover have "0 \<le> A" "A \<le> 24000" using S by (auto simp: A_def)
  moreover have "0 \<le> (I - 1) * S" using \<open>1 \<le> I\<close> S by simp
  ultimately have F: "0 \<le> F" "F < 2 ^ 20" using S by (simp_all add: F_def left_diff_distrib)
  have E: "0 < E" "E < 2 ^ 64" using pos_divisor [OF assms(1)] by (simp_all add: E_def I_def S_def)
  define bn where "bn = op_mul32 (fst (SetCompact (nBits tip))) (word_of_int F)"
  have bn: "length bn = 8" "val bn = target (nBits tip) * nat F"
    using val_mul_factor [of "fst (SetCompact (nBits tip))" F] F assms(6) by (simp_all add: bn_def target_def)
  obtain q where q: "divided bn E = Inr q" "length q = 8" "val q = v"
    using divided_val [OF bn(1) E] bn(2) by (metis v_def)
  define a where "a = (if CompareTo q (set_u64 8 0) \<le> 0 \<or> CompareTo q bnTargetLimit > 0 then bnTargetLimit else q)"
  have "length a = 8 \<and> val a = (if v = 0 \<or> v > 2 ^ 232 - 1 then 2 ^ 232 - 1 else v)"
    using q bnTargetLimit_val by (auto simp: a_def CompareTo_8)
  moreover have "GetNextWorkRequired p (tip # prev # r) = compacted a"
  proof -
    have "GetNextWorkRequired p (tip # prev # r) = pos_retarget p (tip # prev # r)"
      using assms(2-4) by (simp add: GetNextWorkRequired_def PastBlocksMin_def)
    also have "\<dots> = (case divided bn E of Inl e \<Rightarrow> Inl e | Inr b \<Rightarrow>
      compacted (if CompareTo b (set_u64 8 0) \<le> 0 \<or> CompareTo b bnTargetLimit > 0 then bnTargetLimit else b))"
    proof -
      have e: "(60 * 40 :: int) = 2400" and f: "(I - 1) * S + A + A = F" by (simp_all add: F_def)
      show ?thesis
        by (simp only: pos_retarget_def list.case Let_def e A I_def [symmetric] S_def [symmetric] f E_def [symmetric]
          assms(5) simp_thms if_False bn_def)
    qed
    finally show ?thesis by (simp add: q(1) a_def)
  qed
  ultimately show ?thesis
    unfolding Let_def S_def [symmetric] I_def [symmetric] D_def [symmetric] A_def [symmetric]
      F_def [symmetric] E_def [symmetric] v_def [symmetric] by blast
qed

theorem pos_retarget_formula_witness:
  "\<exists>bn. length bn = 8 \<and> val bn = (0xffff * 256 ^ 26) * 2520 div 2460 \<and>
     GetNextWorkRequired sample_params [\<lparr>nHeight = 200, nTime = 1090, nBits = 0x1d00ffff\<rparr>, \<lparr>nHeight = 199, nTime = 1000, nBits = 0\<rparr>]
       = compacted bn"
proof -
  let ?tip = "\<lparr>nHeight = 200, nTime = 1090, nBits = 0x1d00ffff\<rparr>" and ?prev = "\<lparr>nHeight = 199, nTime = 1000, nBits = 0\<rparr>"
  have w: "compact_word 0x1d00ffff = 0xffff" "compact_size 0x1d00ffff = 29"
    by (simp_all add: compact_word_def compact_size_def)
  obtain t where "fst (SetCompact 0x1d00ffff) = t" "val t = (0xffff * 256 ^ 26) mod 2 ^ 256"
    by (rule SetCompact_val [of "0x1d00ffff"]) (simp add: w)
  then have t: "target 0x1d00ffff = 0xffff * 256 ^ 26" by (simp add: target_def)
  have T: "target (nBits ?tip) \<le> 2 ^ 232 - 1" "IsTimeProtocolV2 sample_params (nHeight ?tip)"
    "height_last_PoW sample_params \<le> nHeight ?tip" "24 \<le> nHeight ?tip"
    by (simp_all add: t IsTimeProtocolV2_def sample_params_def)
  have "nTargetSpacing sample_params = 60" "GetBlockTime ?tip = 1090" "GetBlockTime ?prev = 1000" "nBits ?tip = 0x1d00ffff"
    by (simp_all add: sample_params_def GetBlockTime_def)
  with pos_retarget_formula [OF sample_params_ok(1,2) T(4,3,2,1), of ?prev "[]"] show ?thesis
    by (simp add: Let_def t)
qed

end
