(* ===== verification/Chain.thy ===== *)
theory Chain
  imports Serialize "HOL-Library.Multiset"
begin

unbundle bit_operations_syntax

text \<open>
  The block index and the active chain: \<open>CBlockIndex\<close> and \<open>CChain\<close> of \<^verbatim>\<open>src/src/chain.h\<close> and
  \<^verbatim>\<open>src/src/chain.cpp\<close>, with the skip list and \<open>LastCommonAncestor\<close> of \<^verbatim>\<open>src/src/main.cpp\<close>.

  \<^item> The entries of the index are objects that point to each other: a pointer is a natural
    number, null is \<open>None\<close>, and a heap maps pointers to objects.
  \<^item> \<open>None\<close> as a result is the use of a null or dangling pointer, an access outside of a
    vector, a failed assertion, or a loop that does not end.
  \<^item> Heights are \<open>int\<close>: all that is computed from them lies between \<open>-1\<close> and twice the height.

  \<open>wf_index\<close> says that heights count the steps to the first block and that skip pointers point
  to the ancestor they are meant to; it holds in every index that \<open>AddToBlockIndex\<close> builds from
  the empty one.  An index that is loaded from the database at a start (\<open>LoadBlockIndexDB\<close>) is
  outside of the model: its heights come from the disk.  On a well-formed index the walk along skip pointers finds what following \<open>pprev\<close> step by step finds, and
  the active chain is the list of the ancestors of its tip.
\<close>

section \<open>Block index entries\<close>

type_synonym ptr = nat

record index_entry =
  bi_hash :: "256 word"
  bi_pprev :: "ptr option"
  bi_pskip :: "ptr option"
  bi_nHeight :: int
  bi_nFile :: int
  bi_nDataPos :: u32
  bi_nUndoPos :: u32
  bi_nStatus :: u32
  bi_vStakeModifier :: bytes
  bi_nFlags :: u32
  bi_nTime :: u32

type_synonym heap = "ptr \<Rightarrow> index_entry option"

definition bi_GetBlockTime :: "index_entry \<Rightarrow> int" where
  "bi_GetBlockTime b = uint (bi_nTime b)"

definition BLOCK_PROOF_OF_STAKE :: u32 where
  "BLOCK_PROOF_OF_STAKE = push_bit 0 1"

definition BLOCK_STAKE_ENTROPY :: u32 where
  "BLOCK_STAKE_ENTROPY = push_bit 1 1"

definition BLOCK_STAKE_MODIFIER :: u32 where
  "BLOCK_STAKE_MODIFIER = push_bit 2 1"

definition IsProofOfStake :: "index_entry \<Rightarrow> bool" where
  "IsProofOfStake b \<longleftrightarrow> bi_nFlags b AND BLOCK_PROOF_OF_STAKE \<noteq> 0"

section \<open>The skip list\<close>

definition InvertLowestOne :: "int \<Rightarrow> int" where
  "InvertLowestOne n = n AND (n - 1)"

definition GetSkipHeight :: "int \<Rightarrow> int" where
  "GetSkipHeight height =
     (if height < 2 then 0
      else if height AND 1 \<noteq> 0 then InvertLowestOne (InvertLowestOne (height - 1)) + 1
      else InvertLowestOne height)"

partial_function (option) GetAncestor_loop :: "heap \<Rightarrow> int \<Rightarrow> ptr option \<Rightarrow> int \<Rightarrow> ptr option option" where
  "GetAncestor_loop heap height pindexWalk heightWalk =
     (if heightWalk > height then
        (case pindexWalk of
           None \<Rightarrow> None
         | Some p \<Rightarrow>
             (case heap p of
                None \<Rightarrow> None
              | Some b \<Rightarrow>
                  (let heightSkip = GetSkipHeight heightWalk;
                       heightSkipPrev = GetSkipHeight (heightWalk - 1)
                   in if heightSkip = height
                         \<or> heightSkip > height \<and> \<not> (heightSkipPrev < heightSkip - 2 \<and> heightSkipPrev \<ge> height)
                      then GetAncestor_loop heap height (bi_pskip b) heightSkip
                      else GetAncestor_loop heap height (bi_pprev b) (heightWalk - 1))))
      else Some pindexWalk)"

definition GetAncestor :: "heap \<Rightarrow> ptr \<Rightarrow> int \<Rightarrow> ptr option option" where
  "GetAncestor heap this height =
     (case heap this of
        None \<Rightarrow> None
      | Some b \<Rightarrow>
          if height > bi_nHeight b \<or> height < 0 then Some None
          else GetAncestor_loop heap height (Some this) (bi_nHeight b))"

definition BuildSkip :: "heap \<Rightarrow> index_entry \<Rightarrow> index_entry option" where
  "BuildSkip heap b =
     (case bi_pprev b of
        None \<Rightarrow> Some b
      | Some pprev \<Rightarrow>
          (case GetAncestor heap pprev (GetSkipHeight (bi_nHeight b)) of
             None \<Rightarrow> None
           | Some pskip \<Rightarrow> Some (b\<lparr>bi_pskip := pskip\<rparr>)))"

text \<open>
  The part of \<open>AddToBlockIndex\<close> that links a new entry \<open>p\<close> to its predecessor, if it is known.
\<close>

definition link_entry :: "heap \<Rightarrow> ptr \<Rightarrow> index_entry \<Rightarrow> ptr option \<Rightarrow> heap option" where
  "link_entry heap p b miPrev =
     (case miPrev of
        None \<Rightarrow> Some (heap(p := Some b))
      | Some q \<Rightarrow>
          (case heap q of
             None \<Rightarrow> None
           | Some prev \<Rightarrow>
               (case BuildSkip heap (b\<lparr>bi_pprev := Some q, bi_nHeight := bi_nHeight prev + 1\<rparr>) of
                  None \<Rightarrow> None
                | Some b \<Rightarrow> Some (heap(p := Some b)))))"

partial_function (option) common_loop :: "heap \<Rightarrow> ptr option \<Rightarrow> ptr option \<Rightarrow> (ptr option \<times> ptr option) option" where
  "common_loop heap pa pb =
     (if pa \<noteq> pb then
        (case (pa, pb) of
           (Some a, Some b) \<Rightarrow>
             (case (heap a, heap b) of
                (Some ba, Some bb) \<Rightarrow> common_loop heap (bi_pprev ba) (bi_pprev bb)
              | _ \<Rightarrow> None)
         | _ \<Rightarrow> Some (pa, pb))
      else Some (pa, pb))"

definition LastCommonAncestor :: "heap \<Rightarrow> ptr \<Rightarrow> ptr \<Rightarrow> ptr option option" where
  "LastCommonAncestor heap pa pb =
     (case (heap pa, heap pb) of
        (Some a, Some b) \<Rightarrow>
          (case (if bi_nHeight a > bi_nHeight b then GetAncestor heap pa (bi_nHeight b) else Some (Some pa),
                 if bi_nHeight a > bi_nHeight b then Some (Some pb)
                 else if bi_nHeight b > bi_nHeight a then GetAncestor heap pb (bi_nHeight a) else Some (Some pb)) of
             (Some pa, Some pb) \<Rightarrow>
               (case common_loop heap pa pb of
                  None \<Rightarrow> None
                | Some (pa, pb) \<Rightarrow> if pa = pb then Some pa else None)
           | _ \<Rightarrow> None)
      | _ \<Rightarrow> None)"

section \<open>The active chain\<close>

type_synonym CChain = "ptr option list"

definition Genesis :: "CChain \<Rightarrow> ptr option" where
  "Genesis vChain = (if length vChain > 0 then vChain ! 0 else None)"

definition Tip :: "CChain \<Rightarrow> ptr option" where
  "Tip vChain = (if length vChain < 1 then None else vChain ! (length vChain - 1))"

partial_function (option) Tip_loop :: "heap \<Rightarrow> ptr option \<Rightarrow> ptr option option" where
  "Tip_loop heap pindex =
     (case pindex of
        None \<Rightarrow> Some None
      | Some p \<Rightarrow>
          (case heap p of
             None \<Rightarrow> None
           | Some b \<Rightarrow>
               if bi_pprev b \<noteq> None \<and> \<not> IsProofOfStake b then Tip_loop heap (bi_pprev b) else Some pindex))"

text \<open>\<open>Tip(fProofOfStake)\<close>: with the argument, the last block that is a proof of stake.\<close>

definition Tip_of :: "heap \<Rightarrow> CChain \<Rightarrow> bool \<Rightarrow> ptr option option" where
  "Tip_of heap vChain fProofOfStake =
     (if fProofOfStake then Tip_loop heap (Tip vChain) else Some (Tip vChain))"

definition chain_at :: "CChain \<Rightarrow> int \<Rightarrow> ptr option" where
  "chain_at vChain nHeight =
     (if nHeight < 0 \<or> nHeight \<ge> int (length vChain) then None else vChain ! nat nHeight)"

text \<open>\<open>Contains\<close> and \<open>Next\<close> on a pointer \<open>p\<close> to the entry \<open>b\<close>.\<close>

definition Contains :: "CChain \<Rightarrow> ptr \<Rightarrow> index_entry \<Rightarrow> bool" where
  "Contains vChain p b \<longleftrightarrow> chain_at vChain (bi_nHeight b) = Some p"

definition Next :: "CChain \<Rightarrow> ptr \<Rightarrow> index_entry \<Rightarrow> ptr option" where
  "Next vChain p b = (if Contains vChain p b then chain_at vChain (bi_nHeight b + 1) else None)"

definition Height :: "CChain \<Rightarrow> int" where
  "Height vChain = int (length vChain) - 1"

partial_function (option) SetTip_loop :: "heap \<Rightarrow> CChain \<Rightarrow> ptr option \<Rightarrow> CChain option" where
  "SetTip_loop heap vChain pindex =
     (case pindex of
        None \<Rightarrow> Some vChain
      | Some p \<Rightarrow>
          (case heap p of
             None \<Rightarrow> None
           | Some b \<Rightarrow>
               if bi_nHeight b < 0 \<or> bi_nHeight b \<ge> int (length vChain) then None
               else if vChain ! nat (bi_nHeight b) \<noteq> pindex
               then SetTip_loop heap (vChain[nat (bi_nHeight b) := pindex]) (bi_pprev b)
               else Some vChain))"

definition SetTip :: "heap \<Rightarrow> CChain \<Rightarrow> ptr option \<Rightarrow> CChain option" where
  "SetTip heap vChain pindex =
     (case pindex of
        None \<Rightarrow> Some []
      | Some p \<Rightarrow>
          (case heap p of
             None \<Rightarrow> None
           | Some b \<Rightarrow>
               let n = nat (bi_nHeight b + 1)
               in SetTip_loop heap (take n vChain @ replicate (n - length vChain) None) pindex))"

partial_function (option) FindFork_loop :: "heap \<Rightarrow> CChain \<Rightarrow> ptr option \<Rightarrow> ptr option option" where
  "FindFork_loop heap vChain pindex =
     (case pindex of
        None \<Rightarrow> Some None
      | Some p \<Rightarrow>
          (case heap p of
             None \<Rightarrow> None
           | Some b \<Rightarrow>
               if \<not> Contains vChain p b then FindFork_loop heap vChain (bi_pprev b)
               else Some pindex))"

definition FindFork :: "heap \<Rightarrow> CChain \<Rightarrow> ptr option \<Rightarrow> ptr option option" where
  "FindFork heap vChain pindex =
     (case pindex of
        None \<Rightarrow> Some None
      | Some p \<Rightarrow>
          (case heap p of
             None \<Rightarrow> None
           | Some b \<Rightarrow>
               (case (if bi_nHeight b > Height vChain then GetAncestor heap p (Height vChain) else Some pindex) of
                  None \<Rightarrow> None
                | Some pindex \<Rightarrow> FindFork_loop heap vChain pindex)))"

partial_function (option) GetLocator_loop ::
  "heap \<Rightarrow> CChain \<Rightarrow> ptr option \<Rightarrow> int \<Rightarrow> 256 word list \<Rightarrow> 256 word list option" where
  "GetLocator_loop heap vChain pindex nStep vHave =
     (case pindex of
        None \<Rightarrow> Some vHave
      | Some p \<Rightarrow>
          (case heap p of
             None \<Rightarrow> None
           | Some b \<Rightarrow>
               (let vHave = vHave @ [bi_hash b]
                in if bi_nHeight b = 0 then Some vHave
                   else
                     (let nHeight = max (bi_nHeight b - nStep) 0
                      in case (if Contains vChain p b then Some (chain_at vChain nHeight)
                               else GetAncestor heap p nHeight) of
                           None \<Rightarrow> None
                         | Some pindex \<Rightarrow>
                             GetLocator_loop heap vChain pindex (if length vHave > 10 then nStep * 2 else nStep) vHave))))"

definition GetLocator :: "heap \<Rightarrow> CChain \<Rightarrow> ptr option \<Rightarrow> 256 word list option" where
  "GetLocator heap vChain pindex =
     GetLocator_loop heap vChain (if pindex = None then Tip vChain else pindex) 1 []"

section \<open>Times\<close>

definition nMedianTimeSpan :: nat where
  "nMedianTimeSpan = 11"

fun median_times :: "heap \<Rightarrow> nat \<Rightarrow> ptr option \<Rightarrow> int list option" where
  "median_times heap 0 pindex = Some []"
| "median_times heap (Suc i) None = Some []"
| "median_times heap (Suc i) (Some p) =
     (case heap p of
        None \<Rightarrow> None
      | Some b \<Rightarrow> map_option (\<lambda>pmedian. pmedian @ [bi_GetBlockTime b]) (median_times heap i (bi_pprev b)))"

definition GetMedianTimePast :: "heap \<Rightarrow> ptr \<Rightarrow> int option" where
  "GetMedianTimePast heap this =
     (case median_times heap nMedianTimeSpan (Some this) of
        None \<Rightarrow> None
      | Some pmedian \<Rightarrow> Some (sort pmedian ! (length pmedian div 2)))"

text \<open>The parameters of the consensus that depend on heights and times.\<close>

record time_params =
  height_last_PoW :: int
  height_start_TimeProtoV2 :: int
  height_start_StakeModifierV2 :: int
  nTimeSlotLength :: int
  nFutureTimeDriftPoS :: int
  nFutureTimeDriftPoW :: int
  nStakeMinAge :: int
  nStakeMinDepth :: int

definition c_IsTimeProtocolV2 :: "time_params \<Rightarrow> int \<Rightarrow> bool" where
  "c_IsTimeProtocolV2 c nHeight \<longleftrightarrow> nHeight \<ge> height_start_TimeProtoV2 c"

definition IsStakeModifierV2 :: "time_params \<Rightarrow> int \<Rightarrow> bool" where
  "IsStakeModifierV2 c nHeight \<longleftrightarrow> nHeight \<ge> height_start_StakeModifierV2 c"

definition FutureBlockTimeDrift :: "time_params \<Rightarrow> int \<Rightarrow> int" where
  "FutureBlockTimeDrift c nHeight =
     (if c_IsTimeProtocolV2 c nHeight then nTimeSlotLength c - 1
      else if nHeight > height_last_PoW c then nFutureTimeDriftPoS c else nFutureTimeDriftPoW c)"

definition IsValidBlockTimeStamp :: "time_params \<Rightarrow> int \<Rightarrow> int \<Rightarrow> bool" where
  "IsValidBlockTimeStamp c nTime nHeight =
     (if \<not> c_IsTimeProtocolV2 c nHeight then True else nTime mod nTimeSlotLength c = 0)"

definition HasStakeMinAgeOrDepth :: "time_params \<Rightarrow> int \<Rightarrow> u32 \<Rightarrow> int \<Rightarrow> u32 \<Rightarrow> bool" where
  "HasStakeMinAgeOrDepth c contextHeight contextTime utxoFromBlockHeight utxoFromBlockTime =
     (if \<not> IsStakeModifierV2 c contextHeight
      then utxoFromBlockTime + word_of_int (nStakeMinAge c) \<le> contextTime
      else contextHeight - utxoFromBlockHeight \<ge> nStakeMinDepth c)"

definition MaxFutureBlockTime :: "time_params \<Rightarrow> int \<Rightarrow> index_entry \<Rightarrow> int" where
  "MaxFutureBlockTime c adjustedTime b = adjustedTime + FutureBlockTimeDrift c (bi_nHeight b + 1)"

definition MinPastBlockTime :: "time_params \<Rightarrow> heap \<Rightarrow> ptr \<Rightarrow> int option" where
  "MinPastBlockTime c heap this =
     (case heap this of
        None \<Rightarrow> None
      | Some b \<Rightarrow>
          if \<not> c_IsTimeProtocolV2 c (bi_nHeight b + 1) then GetMedianTimePast heap this
          else if bi_nHeight b + 1 = height_start_TimeProtoV2 c
          then Some (bi_GetBlockTime b - FutureBlockTimeDrift c (bi_nHeight b) + FutureBlockTimeDrift c (bi_nHeight b + 1))
          else Some (bi_GetBlockTime b))"

section \<open>Status and flags\<close>

definition BLOCK_VALID_MASK :: u32 where
  "BLOCK_VALID_MASK = 1 OR 2 OR 3 OR 4 OR 5"

definition BLOCK_HAVE_DATA :: u32 where
  "BLOCK_HAVE_DATA = 8"

definition BLOCK_HAVE_UNDO :: u32 where
  "BLOCK_HAVE_UNDO = 16"

definition BLOCK_FAILED_MASK :: u32 where
  "BLOCK_FAILED_MASK = 32 OR 64"

definition IsValid :: "index_entry \<Rightarrow> u32 \<Rightarrow> bool option" where
  "IsValid b nUpTo =
     (if nUpTo AND NOT BLOCK_VALID_MASK \<noteq> 0 then None
      else if bi_nStatus b AND BLOCK_FAILED_MASK \<noteq> 0 then Some False
      else Some (bi_nStatus b AND BLOCK_VALID_MASK \<ge> nUpTo))"

definition RaiseValidity :: "index_entry \<Rightarrow> u32 \<Rightarrow> (bool \<times> index_entry) option" where
  "RaiseValidity b nUpTo =
     (if nUpTo AND NOT BLOCK_VALID_MASK \<noteq> 0 then None
      else if bi_nStatus b AND BLOCK_FAILED_MASK \<noteq> 0 then Some (False, b)
      else if bi_nStatus b AND BLOCK_VALID_MASK < nUpTo
      then Some (True, b\<lparr>bi_nStatus := (bi_nStatus b AND NOT BLOCK_VALID_MASK) OR nUpTo\<rparr>)
      else Some (False, b))"

text \<open>A position in a file; the file is \<open>-1\<close> when there is none.\<close>

definition GetBlockPos :: "index_entry \<Rightarrow> int \<times> u32" where
  "GetBlockPos b = (if bi_nStatus b AND BLOCK_HAVE_DATA \<noteq> 0 then (bi_nFile b, bi_nDataPos b) else (- 1, 0))"

definition GetUndoPos :: "index_entry \<Rightarrow> int \<times> u32" where
  "GetUndoPos b = (if bi_nStatus b AND BLOCK_HAVE_UNDO \<noteq> 0 then (bi_nFile b, bi_nUndoPos b) else (- 1, 0))"

definition SetProofOfStake :: "index_entry \<Rightarrow> index_entry" where
  "SetProofOfStake b = b\<lparr>bi_nFlags := bi_nFlags b OR BLOCK_PROOF_OF_STAKE\<rparr>"

definition SetStakeEntropyBit :: "index_entry \<Rightarrow> u32 \<Rightarrow> bool \<times> index_entry" where
  "SetStakeEntropyBit b nEntropyBit =
     (if nEntropyBit > 1 then (False, b)
      else (True, b\<lparr>bi_nFlags := bi_nFlags b OR (if nEntropyBit \<noteq> 0 then BLOCK_STAKE_ENTROPY else 0)\<rparr>))"

section \<open>Stake modifiers\<close>

definition GeneratedStakeModifier :: "index_entry \<Rightarrow> bool" where
  "GeneratedStakeModifier b \<longleftrightarrow> bi_nFlags b AND BLOCK_STAKE_MODIFIER \<noteq> 0"

definition SetStakeModifier_V1 :: "index_entry \<Rightarrow> u64 \<Rightarrow> bool \<Rightarrow> index_entry" where
  "SetStakeModifier_V1 b nStakeModifier fGeneratedStakeModifier =
     (let b = b\<lparr>bi_vStakeModifier := WRITEDATA 8 nStakeModifier\<rparr>
      in if fGeneratedStakeModifier then b\<lparr>bi_nFlags := bi_nFlags b OR BLOCK_STAKE_MODIFIER\<rparr> else b)"

definition SetStakeModifier_V2 :: "index_entry \<Rightarrow> 256 word \<Rightarrow> index_entry" where
  "SetStakeModifier_V2 b nStakeModifier = b\<lparr>bi_vStakeModifier := WRITEDATA 32 nStakeModifier\<rparr>"

text \<open>
  The bytes are copied into a variable of 8 or 32 bytes that is not initialised: \<open>None\<close> is a
  vector that is not of this size.
\<close>

definition GetStakeModifierV1 :: "time_params \<Rightarrow> index_entry \<Rightarrow> u64 option" where
  "GetStakeModifierV1 c b =
     (if bi_vStakeModifier b = [] \<or> IsStakeModifierV2 c (bi_nHeight b) then Some 0
      else if length (bi_vStakeModifier b) \<noteq> 8 then None
      else Some (word_of_nat (le_nat (bi_vStakeModifier b))))"

definition GetStakeModifierV2 :: "time_params \<Rightarrow> index_entry \<Rightarrow> (256 word) option" where
  "GetStakeModifierV2 c b =
     (if bi_vStakeModifier b = [] \<or> \<not> IsStakeModifierV2 c (bi_nHeight b) then Some 0
      else if length (bi_vStakeModifier b) \<noteq> 32 then None
      else Some (word_of_nat (le_nat (bi_vStakeModifier b))))"

text \<open>The hash of \<open>CHashWriter\<close> is the argument \<open>H\<close>.\<close>

definition SetNewStakeModifier ::
  "time_params \<Rightarrow> (bytes \<Rightarrow> 256 word) \<Rightarrow> heap \<Rightarrow> index_entry \<Rightarrow> 256 word \<Rightarrow> index_entry option" where
  "SetNewStakeModifier c H heap b prevoutId =
     (if bi_nHeight b < height_start_StakeModifierV2 c then Some b
      else
        (case bi_pprev b of
           None \<Rightarrow> None
         | Some q \<Rightarrow>
             (case heap q of
                None \<Rightarrow> None
              | Some prev \<Rightarrow>
                  (case GetStakeModifierV2 c prev of
                     None \<Rightarrow> None
                   | Some modifier \<Rightarrow>
                       Some (SetStakeModifier_V2 b (H (WRITEDATA 32 prevoutId @ WRITEDATA 32 modifier)))))))"

section \<open>Walking back\<close>

fun walk :: "heap \<Rightarrow> nat \<Rightarrow> ptr \<Rightarrow> ptr option" where
  "walk heap 0 p = Some p"
| "walk heap (Suc n) p =
     (case heap p of
        None \<Rightarrow> None
      | Some b \<Rightarrow> (case bi_pprev b of None \<Rightarrow> None | Some q \<Rightarrow> walk heap n q))"

definition link_ok :: "heap \<Rightarrow> index_entry \<Rightarrow> bool" where
  "link_ok heap b \<longleftrightarrow>
     (case bi_pprev b of
        None \<Rightarrow> bi_nHeight b = 0
      | Some q \<Rightarrow> \<exists>c. heap q = Some c \<and> 0 \<le> bi_nHeight c \<and> bi_nHeight b = bi_nHeight c + 1)"

definition skip_ok :: "heap \<Rightarrow> ptr \<Rightarrow> index_entry \<Rightarrow> bool" where
  "skip_ok heap p b \<longleftrightarrow>
     (0 < bi_nHeight b \<longrightarrow> bi_pskip b = walk heap (nat (bi_nHeight b - GetSkipHeight (bi_nHeight b))) p)"

definition wf_index :: "heap \<Rightarrow> bool" where
  "wf_index heap \<longleftrightarrow> (\<forall>p b. heap p = Some b \<longrightarrow> link_ok heap b \<and> skip_ok heap p b)"

lemma InvertLowestOne_bounds: "0 \<le> n \<Longrightarrow> 0 \<le> InvertLowestOne n \<and> InvertLowestOne n \<le> max 0 (n - 1)"
proof (cases "n = 0")
  case False
  assume "0 \<le> n"
  then show ?thesis using False AND_upper2 [of "n - 1" n] by (simp add: InvertLowestOne_def)
qed (simp add: InvertLowestOne_def)

lemma GetSkipHeight_bounds: "0 < height \<Longrightarrow> 0 \<le> GetSkipHeight height \<and> GetSkipHeight height < height"
  using InvertLowestOne_bounds [of height] InvertLowestOne_bounds [of "height - 1"]
    InvertLowestOne_bounds [of "InvertLowestOne (height - 1)"]
  by (auto simp: GetSkipHeight_def)

lemma walk_add: "walk heap (m + n) p = (case walk heap m p of None \<Rightarrow> None | Some q \<Rightarrow> walk heap n q)"
  by (induction heap m p rule: walk.induct) (auto split: option.split)

lemma wf_indexD: "wf_index heap \<Longrightarrow> heap p = Some b \<Longrightarrow> link_ok heap b \<and> skip_ok heap p b"
  by (simp add: wf_index_def)

lemma wf_height: "wf_index heap \<Longrightarrow> heap p = Some b \<Longrightarrow> 0 \<le> bi_nHeight b"
  using wf_indexD [of heap p b] by (auto simp: link_ok_def split: option.splits)

lemma wf_pprev:
  assumes "wf_index heap" "heap p = Some b" "0 < bi_nHeight b"
  obtains q c where "bi_pprev b = Some q" "heap q = Some c" "bi_nHeight c = bi_nHeight b - 1"
  using assms(3) wf_indexD [OF assms(1,2)] by (auto simp: link_ok_def split: option.splits)

lemma walk_height:
  assumes "wf_index heap" "heap p = Some b" "int n \<le> bi_nHeight b"
  shows "\<exists>q c. walk heap n p = Some q \<and> heap q = Some c \<and> bi_nHeight c = bi_nHeight b - int n"
  using assms(2,3)
proof (induction n arbitrary: p b)
  case (Suc n)
  obtain q c where q: "bi_pprev b = Some q" "heap q = Some c" "bi_nHeight c = bi_nHeight b - 1"
    using wf_pprev [OF assms(1) Suc.prems(1)] Suc.prems(2) by auto
  from Suc.IH [OF q(2)] q(3) Suc.prems(2) show ?case by (simp add: Suc.prems(1) q(1) algebra_simps)
qed auto

lemma walk_beyond:
  assumes "wf_index heap" "heap p = Some b" "bi_nHeight b < int n"
  shows "walk heap n p = None"
  using assms(2,3)
proof (induction n arbitrary: p b)
  case 0
  then show ?case using wf_height [OF assms(1)] by fastforce
next
  case (Suc n)
  have l: "link_ok heap b" using wf_indexD [OF assms(1) Suc.prems(1)] by simp
  show ?case
  proof (cases "bi_pprev b")
    case None
    then show ?thesis using Suc.prems by simp
  next
    case (Some q)
    then obtain c where "heap q = Some c" "bi_nHeight b = bi_nHeight c + 1" using l by (auto simp: link_ok_def)
    then show ?thesis using Suc.IH [of q c] Suc.prems Some by simp
  qed
qed

text \<open>The ancestor at a height, found step by step.\<close>

definition ancestor :: "heap \<Rightarrow> ptr \<Rightarrow> int \<Rightarrow> ptr option" where
  "ancestor heap p height =
     (case heap p of
        None \<Rightarrow> None
      | Some b \<Rightarrow> if height > bi_nHeight b \<or> height < 0 then None else walk heap (nat (bi_nHeight b - height)) p)"

lemma ancestor_Some:
  assumes "wf_index heap" "heap p = Some b" "0 \<le> height" "height \<le> bi_nHeight b"
  obtains q c where "ancestor heap p height = Some q" "heap q = Some c" "bi_nHeight c = height"
proof -
  obtain q c where "walk heap (nat (bi_nHeight b - height)) p = Some q" "heap q = Some c"
    "bi_nHeight c = bi_nHeight b - int (nat (bi_nHeight b - height))"
    using walk_height [OF assms(1,2), of "nat (bi_nHeight b - height)"] assms(3,4) by auto
  then show thesis using that assms by (simp add: ancestor_def)
qed

lemma ancestor_self: "heap p = Some b \<Longrightarrow> 0 \<le> bi_nHeight b \<Longrightarrow> ancestor heap p (bi_nHeight b) = Some p"
  by (simp add: ancestor_def)

text \<open>An ancestor of an ancestor is the ancestor.\<close>

lemma ancestor_trans:
  assumes "wf_index heap" "heap p = Some b" "0 \<le> height" "height \<le> h" "h \<le> bi_nHeight b" "ancestor heap p h = Some q"
  shows "ancestor heap q height = ancestor heap p height"
proof -
  obtain q' c where q: "ancestor heap p h = Some q'" "heap q' = Some c" "bi_nHeight c = h"
    using ancestor_Some [OF assms(1,2), of h] assms(3-5) by (metis order_trans)
  have "walk heap (nat (bi_nHeight b - h)) p = Some q" using assms(2-6) by (simp add: ancestor_def)
  moreover have "nat (bi_nHeight b - height) = nat (bi_nHeight b - h) + nat (h - height)" using assms(3-5) by simp
  ultimately have "walk heap (nat (bi_nHeight b - height)) p = walk heap (nat (h - height)) q"
    by (simp add: walk_add)
  then show ?thesis using q assms by (simp add: ancestor_def)
qed

lemma ancestor_pprev:
  assumes "wf_index heap" "heap p = Some b" "bi_pprev b = Some q" "height < bi_nHeight b"
  shows "ancestor heap q height = ancestor heap p height"
proof (cases "height < 0")
  case True
  then show ?thesis by (simp add: ancestor_def split: option.split)
next
  case False
  obtain c where c: "heap q = Some c" "bi_nHeight c = bi_nHeight b - 1"
    using assms(3) wf_indexD [OF assms(1,2)] by (auto simp: link_ok_def)
  have "nat (bi_nHeight b - height) = Suc (nat (bi_nHeight c - height))" using c assms(4) by simp
  then show ?thesis using c assms False by (simp add: ancestor_def)
qed

text \<open>The walk along the skip pointers.\<close>

lemma GetAncestor_loop_walks:
  assumes "wf_index heap" "0 \<le> height"
  shows "heap p = Some b \<Longrightarrow> height \<le> bi_nHeight b \<Longrightarrow>
    GetAncestor_loop heap height (Some p) (bi_nHeight b) = Some (ancestor heap p height)"
proof (induction "nat (bi_nHeight b)" arbitrary: p b rule: less_induct)
  case less
  note b = less.prems
  show ?case
  proof (cases "height < bi_nHeight b")
    case False
    then have "height = bi_nHeight b" using b(2) by simp
    then show ?thesis using b assms(2) by (subst GetAncestor_loop.simps) (simp add: ancestor_self)
  next
    case True
    let ?skip = "GetSkipHeight (bi_nHeight b)" and ?prev = "GetSkipHeight (bi_nHeight b - 1)"
    have skip: "0 \<le> ?skip" "?skip < bi_nHeight b" using GetSkipHeight_bounds [of "bi_nHeight b"] True assms(2) by auto
    show ?thesis
    proof (cases "?skip = height \<or> ?skip > height \<and> \<not> (?prev < ?skip - 2 \<and> ?prev \<ge> height)")
      case skips: True
      obtain q c where q: "ancestor heap p ?skip = Some q" "heap q = Some c" "bi_nHeight c = ?skip"
        using ancestor_Some [OF assms(1) b(1) skip(1)] skip(2) by auto
      have "bi_pskip b = walk heap (nat (bi_nHeight b - ?skip)) p"
        using wf_indexD [OF assms(1) b(1)] skip True assms(2) by (simp add: skip_ok_def)
      then have "bi_pskip b = Some q" using q(1) b(1) skip by (simp add: ancestor_def)
      moreover have "GetAncestor_loop heap height (Some q) ?skip = Some (ancestor heap q height)"
        using less.hyps [OF _ q(2)] q(3) skip skips by auto
      moreover have "ancestor heap q height = ancestor heap p height"
        using ancestor_trans [OF assms(1) b(1) assms(2) _ _ q(1)] skip skips by auto
      ultimately show ?thesis using True b skips by (subst GetAncestor_loop.simps) (auto simp: Let_def)
    next
      case no: False
      obtain q c where q: "bi_pprev b = Some q" "heap q = Some c" "bi_nHeight c = bi_nHeight b - 1"
        using wf_pprev [OF assms(1) b(1)] True assms(2) by auto
      have "GetAncestor_loop heap height (Some q) (bi_nHeight b - 1) = Some (ancestor heap q height)"
        using less.hyps [OF _ q(2)] q(3) True assms(2) by auto
      moreover have "ancestor heap q height = ancestor heap p height"
        by (rule ancestor_pprev [OF assms(1) b(1) q(1) True])
      ultimately show ?thesis using True b no q(1) by (subst GetAncestor_loop.simps) (auto simp: Let_def)
    qed
  qed
qed

lemma GetAncestor_walks:
  assumes "wf_index heap" "heap p \<noteq> None"
  shows "GetAncestor heap p height = Some (ancestor heap p height)"
  using assms GetAncestor_loop_walks [OF assms(1), of height p]
  by (auto simp: GetAncestor_def ancestor_def split: option.split)

text \<open>Entries that are linked as \<open>AddToBlockIndex\<close> links them keep the index well formed.\<close>

lemma walk_cong:
  assumes "walk heap n q = Some r" "\<And>q. heap q \<noteq> None \<Longrightarrow> heap' q = heap q"
  shows "walk heap' n q = Some r"
  using assms(1)
proof (induction n arbitrary: q)
  case (Suc n)
  then obtain b q' where b: "heap q = Some b" "bi_pprev b = Some q'" "walk heap n q' = Some r"
    by (auto split: option.splits)
  moreover have "heap' q = Some b" using b(1) assms(2) by simp
  ultimately show ?case using Suc.IH [OF b(3)] by simp
qed auto

lemma walk_extend: "walk heap n q = Some r \<Longrightarrow> heap p = None \<Longrightarrow> walk (heap(p := x)) n q = Some r"
  by (rule walk_cong [where heap = heap]) auto

lemma wf_index_old:
  assumes "wf_index heap" "heap p = None" "heap q = Some b"
  shows "link_ok (heap(p := x)) b \<and> skip_ok (heap(p := x)) q b"
proof -
  note ok = wf_indexD [OF assms(1,3)]
  have "link_ok (heap(p := x)) b" using ok assms(2) by (auto simp: link_ok_def split: option.splits)
  moreover have "skip_ok (heap(p := x)) q b"
  proof (cases "0 < bi_nHeight b")
    case True
    let ?n = "nat (bi_nHeight b - GetSkipHeight (bi_nHeight b))"
    have "int ?n \<le> bi_nHeight b" using GetSkipHeight_bounds [OF True] by simp
    from walk_height [OF assms(1,3) this] obtain r where r: "walk heap ?n q = Some r" by blast
    then have "walk (heap(p := x)) ?n q = Some r"
      using assms(2) by (rule walk_extend)
    then show ?thesis using ok r True by (simp add: skip_ok_def)
  qed (simp add: skip_ok_def)
  ultimately show ?thesis by blast
qed

lemma BuildSkip_finds:
  assumes "wf_index heap" "heap q = Some c" "bi_pprev b = Some q" "bi_nHeight b = bi_nHeight c + 1"
  shows "BuildSkip heap b = Some (b\<lparr>bi_pskip := ancestor heap q (GetSkipHeight (bi_nHeight b))\<rparr>)"
  using assms GetAncestor_walks [OF assms(1), of q] by (simp add: BuildSkip_def)

lemma link_entry_wf:
  assumes "wf_index heap" "heap p = None" "bi_pprev b = None" "bi_nHeight b = 0" "miPrev = None \<or> heap (the miPrev) \<noteq> None"
  obtains heap' where "link_entry heap p b miPrev = Some heap'" "wf_index heap'"
proof (cases miPrev)
  case None
  have "wf_index (heap(p := Some b))"
    unfolding wf_index_def
    using wf_index_old [OF assms(1,2)] assms(3,4) by (auto simp: link_ok_def [of _ b] skip_ok_def [of _ _ b])
  then show thesis using that None by (simp add: link_entry_def)
next
  case (Some q)
  then obtain c where c: "heap q = Some c" using assms(5) by auto
  define h where "h = bi_nHeight c + 1"
  define skip where "skip = ancestor heap q (GetSkipHeight h)"
  define b' where "b' = b\<lparr>bi_pprev := Some q, bi_nHeight := h, bi_pskip := skip\<rparr>"
  have c0: "0 \<le> bi_nHeight c" using wf_height [OF assms(1) c] .
  have qp: "q \<noteq> p" using c assms(2) by auto
  have "BuildSkip heap (b\<lparr>bi_pprev := Some q, bi_nHeight := h\<rparr>) = Some b'"
    using BuildSkip_finds [OF assms(1) c, of "b\<lparr>bi_pprev := Some q, bi_nHeight := h\<rparr>"] by (simp add: b'_def skip_def h_def)
  then have l: "link_entry heap p b miPrev = Some (heap(p := Some b'))" using Some c by (simp add: link_entry_def h_def)
  have s: "0 \<le> GetSkipHeight h" "GetSkipHeight h \<le> bi_nHeight c" using GetSkipHeight_bounds [of h] c0 by (auto simp: h_def)
  obtain r where r: "skip = Some r" using ancestor_Some [OF assms(1) c s] by (metis skip_def)
  then have "walk heap (nat (bi_nHeight c - GetSkipHeight h)) q = Some r" using c s by (simp add: skip_def ancestor_def)
  then have "walk (heap(p := Some b')) (nat (bi_nHeight c - GetSkipHeight h)) q = Some r"
    using assms(2) by (rule walk_extend)
  moreover have "nat (h - GetSkipHeight h) = Suc (nat (bi_nHeight c - GetSkipHeight h))" using s by (simp add: h_def)
  ultimately have "skip_ok (heap(p := Some b')) p b'" using r by (simp add: skip_ok_def b'_def)
  moreover have "link_ok (heap(p := Some b')) b'" using c c0 qp by (simp add: link_ok_def b'_def h_def)
  ultimately have "wf_index (heap(p := Some b'))"
    unfolding wf_index_def using wf_index_old [OF assms(1,2)] by auto
  then show thesis using that l by blast
qed

section \<open>The active chain is a branch of the index\<close>

text \<open>The blocks from the first one to \<open>p\<close>.\<close>

definition branch :: "heap \<Rightarrow> ptr \<Rightarrow> CChain" where
  "branch heap p =
     (case heap p of None \<Rightarrow> [] | Some b \<Rightarrow> map (\<lambda>h. ancestor heap p (int h)) [0..<nat (bi_nHeight b + 1)])"

definition chain_ok :: "heap \<Rightarrow> CChain \<Rightarrow> bool" where
  "chain_ok heap vChain \<longleftrightarrow> vChain = [] \<or> (\<exists>p. heap p \<noteq> None \<and> vChain = branch heap p)"

lemma length_branch: "heap p = Some b \<Longrightarrow> length (branch heap p) = nat (bi_nHeight b + 1)"
  by (simp add: branch_def)

lemma nth_branch: "heap p = Some b \<Longrightarrow> i < nat (bi_nHeight b + 1) \<Longrightarrow> branch heap p ! i = ancestor heap p (int i)"
  by (simp add: branch_def)

lemma chain_at_branch:
  "wf_index heap \<Longrightarrow> heap p = Some b \<Longrightarrow> chain_at (branch heap p) h = ancestor heap p h"
  using wf_height [of heap p b] by (auto simp: chain_at_def length_branch nth_branch ancestor_def)

text \<open>Two entries with a common ancestor have the same ancestors below it.\<close>

lemma ancestor_common:
  assumes "wf_index heap" "heap p = Some b" "heap q = Some c" "ancestor heap p h = Some r" "ancestor heap q h = Some r"
    "0 \<le> h'" "h' \<le> h"
  shows "ancestor heap p h' = ancestor heap q h'"
proof -
  have "h \<le> bi_nHeight b" "h \<le> bi_nHeight c" using assms(2-5) by (auto simp: ancestor_def split: if_splits)
  then show ?thesis
    using ancestor_trans [OF assms(1,2) assms(6,7) _ assms(4)] ancestor_trans [OF assms(1,3) assms(6,7) _ assms(5)] by simp
qed

text \<open>
  The loop of \<open>SetTip\<close> fills in the branch from above: what lies above the current height is
  done, what lies below is still the old chain \<open>w\<close>.
\<close>

lemma old_chain_branch:
  assumes "wf_index heap" "chain_ok heap w" "chain_at w h = Some p"
  obtains q c where "heap q = Some c" "ancestor heap q h = Some p" "\<And>i. chain_at w i = ancestor heap q i"
proof -
  have "w \<noteq> []" using assms(3) by (auto simp: chain_at_def split: if_splits)
  then obtain q c where "heap q = Some c" "w = branch heap q" using assms(2) by (auto simp: chain_ok_def)
  then show thesis using that assms(3) chain_at_branch [OF assms(1)] by simp
qed

lemma SetTip_loop_fills:
  assumes "wf_index heap" "heap t = Some bt" "chain_ok heap w"
  shows "length v = nat (bi_nHeight bt + 1) \<Longrightarrow> ancestor heap t h = Some p \<Longrightarrow> heap p = Some b \<Longrightarrow> bi_nHeight b = h \<Longrightarrow>
    (\<And>i. i < length v \<Longrightarrow> v ! i = (if h < int i then ancestor heap t (int i) else chain_at w (int i))) \<Longrightarrow>
    SetTip_loop heap v (Some p) = Some (branch heap t)"
proof (induction "nat h" arbitrary: h p b v rule: less_induct)
  case less
  note len = less.prems(1) and p = less.prems(2,3,4) and v = less.prems(5)
  have h: "0 \<le> h" "h \<le> bi_nHeight bt" using p(1) assms(2) by (auto simp: ancestor_def split: if_splits)
  have range: "nat h < length v" "\<not> (bi_nHeight b < 0 \<or> bi_nHeight b \<ge> int (length v))" using h len p(3) by simp_all
  have filled: "v' = branch heap t" if "length v' = length v" "\<And>i. i < length v \<Longrightarrow> v' ! i = ancestor heap t (int i)" for v'
    using that len assms(2) by (intro nth_equalityI) (simp_all add: length_branch nth_branch)
  show ?case
  proof (cases "v ! nat h = Some p")
    case True
    then have "chain_at w h = Some p" using v [OF range(1)] h by simp
    then obtain q c where q: "heap q = Some c" "ancestor heap q h = Some p" "\<And>i. chain_at w i = ancestor heap q i"
      using old_chain_branch [OF assms(1,3)] by blast
    have "v ! i = ancestor heap t (int i)" if "i < length v" for i
      using v [OF that] q(3) ancestor_common [OF assms(1) q(1) assms(2) q(2) p(1)] by auto
    then have "v = branch heap t" by (intro filled) simp_all
    then show ?thesis using p True range by (subst SetTip_loop.simps) simp
  next
    case False
    let ?v = "v[nat h := Some p]"
    have step: "SetTip_loop heap v (Some p) = SetTip_loop heap ?v (bi_pprev b)"
      using p False range by (subst SetTip_loop.simps) simp
    have v': "?v ! i = (if h - 1 < int i then ancestor heap t (int i) else chain_at w (int i))" if "i < length ?v" for i
      using v [of i] that p(1) h by (cases "i = nat h") auto
    show ?thesis
    proof (cases "h = 0")
      case True
      then have "bi_pprev b = None" using wf_indexD [OF assms(1) p(2)] p(3) by (auto simp: link_ok_def split: option.splits)
      moreover have "?v = branch heap t" using v' True by (intro filled) simp_all
      ultimately show ?thesis unfolding step by (subst SetTip_loop.simps) simp
    next
      case False
      obtain q c where q: "bi_pprev b = Some q" "heap q = Some c" "bi_nHeight c = h - 1"
        using wf_pprev [OF assms(1) p(2)] p(3) h False by auto
      have "ancestor heap t (h - 1) = ancestor heap p (h - 1)"
        using ancestor_trans [OF assms(1,2) _ _ h(2) p(1), of "h - 1"] h False by simp
      also have "\<dots> = ancestor heap q (h - 1)"
        using ancestor_pprev [OF assms(1) p(2) q(1), of "h - 1"] p(3) by simp
      also have "\<dots> = Some q" using ancestor_self [of heap q c] q h False by simp
      finally have "SetTip_loop heap ?v (Some q) = Some (branch heap t)"
        using less.hyps [of "h - 1" ?v q c] q v' len h False by simp
      then show ?thesis unfolding step q(1) .
    qed
  qed
qed

lemma SetTip_branch:
  assumes "wf_index heap" "heap t = Some b" "chain_ok heap w"
  shows "SetTip heap w (Some t) = Some (branch heap t)"
proof -
  let ?n = "nat (bi_nHeight b + 1)"
  let ?v = "take ?n w @ replicate (?n - length w) None"
  have h: "0 \<le> bi_nHeight b" by (rule wf_height [OF assms(1,2)])
  have "?v ! i = chain_at w (int i)" if "i < ?n" for i
    using that by (auto simp: nth_append chain_at_def)
  then have "SetTip_loop heap ?v (Some t) = Some (branch heap t)"
    using h assms(2) ancestor_self [of heap t b] by (intro SetTip_loop_fills [OF assms, of _ "bi_nHeight b" t b]) auto
  then show ?thesis using assms(2) by (simp add: SetTip_def Let_def)
qed

section \<open>Forks and locators\<close>

text \<open>\<open>q\<close> is \<open>p\<close> or one of its ancestors.\<close>

definition is_ancestor :: "heap \<Rightarrow> ptr \<Rightarrow> ptr \<Rightarrow> bool" where
  "is_ancestor heap q p \<longleftrightarrow> (\<exists>c. heap q = Some c \<and> ancestor heap p (bi_nHeight c) = Some q)"

text \<open>The highest block of a chain among \<open>p\<close> and its ancestors.\<close>

definition fork_point :: "heap \<Rightarrow> (ptr \<Rightarrow> bool) \<Rightarrow> ptr \<Rightarrow> ptr option \<Rightarrow> bool" where
  "fork_point heap member p r \<longleftrightarrow>
     (case r of
        None \<Rightarrow> \<forall>q. is_ancestor heap q p \<longrightarrow> \<not> member q
      | Some q \<Rightarrow> is_ancestor heap q p \<and> member q
          \<and> (\<forall>q' c c'. is_ancestor heap q' p \<longrightarrow> member q' \<longrightarrow> heap q = Some c \<longrightarrow> heap q' = Some c' \<longrightarrow>
               bi_nHeight c' \<le> bi_nHeight c))"

lemma is_ancestor_refl: "wf_index heap \<Longrightarrow> heap p = Some b \<Longrightarrow> is_ancestor heap p p"
  using ancestor_self wf_height by (simp add: is_ancestor_def)

lemma is_ancestor_height:
  "is_ancestor heap q p \<Longrightarrow> heap q = Some c \<Longrightarrow> heap p = Some b \<Longrightarrow> 0 \<le> bi_nHeight c \<and> bi_nHeight c \<le> bi_nHeight b"
  by (auto simp: is_ancestor_def ancestor_def split: if_splits)

lemma is_ancestor_pprev:
  assumes "wf_index heap" "heap p = Some b" "bi_pprev b = Some q"
  shows "is_ancestor heap r p \<longleftrightarrow> r = p \<or> is_ancestor heap r q"
proof -
  obtain c where c: "heap q = Some c" "bi_nHeight c = bi_nHeight b - 1" "0 \<le> bi_nHeight c"
    using wf_indexD [OF assms(1,2)] assms(3) by (auto simp: link_ok_def)
  show ?thesis
  proof
    assume r: "is_ancestor heap r p"
    then obtain d where d: "heap r = Some d" "ancestor heap p (bi_nHeight d) = Some r" by (auto simp: is_ancestor_def)
    show "r = p \<or> is_ancestor heap r q"
    proof (cases "bi_nHeight d < bi_nHeight b")
      case True
      then show ?thesis using ancestor_pprev [OF assms True] d by (simp add: is_ancestor_def)
    next
      case False
      then have "bi_nHeight d = bi_nHeight b" using is_ancestor_height [OF r d(1) assms(2)] by simp
      then show ?thesis using ancestor_self [of heap p b] assms(2) d c by simp
    qed
  next
    assume "r = p \<or> is_ancestor heap r q"
    then show "is_ancestor heap r p"
    proof
      assume r: "is_ancestor heap r q"
      then obtain d where d: "heap r = Some d" "ancestor heap q (bi_nHeight d) = Some r" by (auto simp: is_ancestor_def)
      then have "bi_nHeight d < bi_nHeight b" using is_ancestor_height [OF r d(1) c(1)] c(2) by simp
      then show ?thesis using ancestor_pprev [OF assms] d by (simp add: is_ancestor_def)
    qed (use is_ancestor_refl [OF assms(1,2)] in simp)
  qed
qed

lemma fork_point_here:
  assumes "wf_index heap" "heap p = Some b" "member p"
  shows "fork_point heap member p (Some p)"
  using assms is_ancestor_refl [OF assms(1,2)] is_ancestor_height [of heap _ p] by (auto simp: fork_point_def)

lemma fork_point_pprev:
  assumes "wf_index heap" "heap p = Some b" "\<not> member p"
  shows "bi_pprev b = Some q \<Longrightarrow> fork_point heap member q r \<Longrightarrow> fork_point heap member p r"
    "bi_pprev b = None \<Longrightarrow> fork_point heap member p None"
proof -
  show "fork_point heap member p r" if q: "bi_pprev b = Some q" and r: "fork_point heap member q r"
  proof -
    have "is_ancestor heap x p \<and> member x \<longleftrightarrow> is_ancestor heap x q \<and> member x" for x
      using is_ancestor_pprev [OF assms(1,2) q, of x] assms(3) by auto
    then show ?thesis using r by (auto simp: fork_point_def split: option.splits)
  qed
  show "fork_point heap member p None" if "bi_pprev b = None"
  proof -
    have "bi_nHeight b = 0" using wf_indexD [OF assms(1,2)] that by (simp add: link_ok_def)
    then have "x = p" if anc: "is_ancestor heap x p" for x
    proof -
      obtain d where d: "heap x = Some d" "ancestor heap p (bi_nHeight d) = Some x" using anc by (auto simp: is_ancestor_def)
      then have "bi_nHeight d = 0" using is_ancestor_height [OF anc d(1) assms(2)] \<open>bi_nHeight b = 0\<close> by simp
      then show ?thesis using d(2) assms(2) \<open>bi_nHeight b = 0\<close> by (simp add: ancestor_def)
    qed
    then show ?thesis using assms(3) by (auto simp: fork_point_def)
  qed
qed

definition in_chain :: "heap \<Rightarrow> CChain \<Rightarrow> ptr \<Rightarrow> bool" where
  "in_chain heap vChain p \<longleftrightarrow> (\<exists>b. heap p = Some b \<and> Contains vChain p b)"

lemma FindFork_loop_finds:
  assumes "wf_index heap"
  shows "heap p = Some b \<Longrightarrow> \<exists>r. FindFork_loop heap vChain (Some p) = Some r \<and> fork_point heap (in_chain heap vChain) p r"
proof (induction "nat (bi_nHeight b)" arbitrary: p b rule: less_induct)
  case less
  note p = less.prems
  show ?case
  proof (cases "Contains vChain p b")
    case True
    then show ?thesis using p fork_point_here [OF assms p] by (subst FindFork_loop.simps) (simp add: in_chain_def)
  next
    case False
    then have no: "\<not> in_chain heap vChain p" using p by (simp add: in_chain_def)
    have step: "FindFork_loop heap vChain (Some p) = FindFork_loop heap vChain (bi_pprev b)"
      using p False by (subst FindFork_loop.simps) simp
    show ?thesis
    proof (cases "bi_pprev b")
      case None
      then show ?thesis using step fork_point_pprev(2) [where member = "in_chain heap vChain", OF assms p no] by (subst step) (subst FindFork_loop.simps, simp)
    next
      case (Some q)
      then obtain c where c: "heap q = Some c" "bi_nHeight b = bi_nHeight c + 1" "0 \<le> bi_nHeight c"
        using wf_indexD [OF assms p] by (auto simp: link_ok_def)
      then obtain r where "FindFork_loop heap vChain (Some q) = Some r" "fork_point heap (in_chain heap vChain) q r"
        using less.hyps [OF _ c(1)] by auto
      then show ?thesis using step Some fork_point_pprev(1) [where member = "in_chain heap vChain", OF assms p no Some] by auto
    qed
  qed
qed

text \<open>Blocks above the chain are not in it, so that starting at the height of the chain loses nothing.\<close>

lemma fork_point_ancestor:
  assumes "wf_index heap" "heap p = Some b" "0 \<le> h" "h \<le> bi_nHeight b" "ancestor heap p h = Some a"
    "\<And>q c. heap q = Some c \<Longrightarrow> member q \<Longrightarrow> bi_nHeight c \<le> h"
  shows "fork_point heap member a r \<longleftrightarrow> fork_point heap member p r"
proof -
  have "is_ancestor heap x p \<and> member x \<longleftrightarrow> is_ancestor heap x a \<and> member x" for x
  proof (cases "\<exists>c. heap x = Some c \<and> member x")
    case True
    then obtain c where c: "heap x = Some c" "bi_nHeight c \<le> h" using assms(6) by blast
    obtain d where d: "heap a = Some d" "bi_nHeight d = h"
      using ancestor_Some [OF assms(1-4)] assms(5) by (metis option.inject)
    have "ancestor heap a (bi_nHeight c) = ancestor heap p (bi_nHeight c)"
      using ancestor_trans [OF assms(1,2) _ c(2) assms(4,5)] wf_height [OF assms(1) c(1)] by simp
    then show ?thesis using c by (simp add: is_ancestor_def)
  qed (auto simp: is_ancestor_def)
  then show ?thesis by (auto simp: fork_point_def split: option.splits)
qed

lemma FindFork_finds:
  assumes "wf_index heap" "heap p = Some b" "chain_ok heap vChain"
  shows "\<exists>r. FindFork heap vChain (Some p) = Some r \<and> fork_point heap (in_chain heap vChain) p r"
proof (cases "bi_nHeight b > Height vChain")
  case False
  then show ?thesis using FindFork_loop_finds [OF assms(1,2)] assms(2) by (simp add: FindFork_def)
next
  case True
  have low: "bi_nHeight c \<le> Height vChain" if "heap q = Some c" "in_chain heap vChain q" for q c
    using that by (auto simp: in_chain_def Contains_def chain_at_def Height_def split: if_splits)
  have g: "GetAncestor heap p (Height vChain) = Some (ancestor heap p (Height vChain))"
    using assms by (intro GetAncestor_walks) simp_all
  show ?thesis
  proof (cases "vChain = []")
    case True
    then have "ancestor heap p (Height vChain) = None" "\<not> in_chain heap vChain q" for q
      using assms(2) by (auto simp: Height_def ancestor_def in_chain_def Contains_def chain_at_def)
    then show ?thesis
      using g \<open>bi_nHeight b > Height vChain\<close> assms(2) by (auto simp: FindFork_def FindFork_loop.simps fork_point_def)
  next
    case False
    then have h: "0 \<le> Height vChain" "Height vChain \<le> bi_nHeight b" using True by (simp_all add: Height_def Suc_le_eq)
    obtain a d where a: "ancestor heap p (Height vChain) = Some a" "heap a = Some d"
      using ancestor_Some [OF assms(1,2) h] by blast
    obtain r where "FindFork_loop heap vChain (Some a) = Some r" "fork_point heap (in_chain heap vChain) a r"
      using FindFork_loop_finds [OF assms(1) a(2)] by blast
    then show ?thesis
      using fork_point_ancestor [OF assms(1,2) h a(1) low] g a True assms(2) by (auto simp: FindFork_def)
  qed
qed

text \<open>Two branches: both walk back until they meet.\<close>

lemma common_loop_meets:
  assumes "wf_index heap"
  shows "heap a = Some ba \<Longrightarrow> heap b = Some bb \<Longrightarrow> bi_nHeight ba = bi_nHeight bb \<Longrightarrow>
    \<exists>r. common_loop heap (Some a) (Some b) = Some (r, r) \<and> fork_point heap (\<lambda>q. is_ancestor heap q b) a r"
proof (induction "nat (bi_nHeight ba)" arbitrary: a b ba bb rule: less_induct)
  case less
  note p = less.prems
  show ?case
  proof (cases "a = b")
    case True
    then show ?thesis
      using fork_point_here [OF assms p(1), of "\<lambda>q. is_ancestor heap q b"] is_ancestor_refl [OF assms p(2)]
      by (subst common_loop.simps) simp
  next
    case False
    have step: "common_loop heap (Some a) (Some b) = common_loop heap (bi_pprev ba) (bi_pprev bb)"
      using p False by (subst common_loop.simps) simp
    have no: "\<not> is_ancestor heap a b"
      using ancestor_self [of heap b bb] p wf_height [OF assms p(2)] False by (auto simp: is_ancestor_def)
    note links = wf_indexD [OF assms p(1)] wf_indexD [OF assms p(2)]
    show ?thesis
    proof (cases "bi_nHeight ba = 0")
      case True
      then have "bi_pprev ba = None" "bi_pprev bb = None" using links p(3) by (auto simp: link_ok_def split: option.splits)
      then show ?thesis
        using step fork_point_pprev(2) [where member = "\<lambda>q. is_ancestor heap q b", OF assms p(1) no]
        by (subst step) (subst common_loop.simps, simp)
    next
      case pos: False
      obtain a' ca where a': "bi_pprev ba = Some a'" "heap a' = Some ca" "bi_nHeight ca = bi_nHeight ba - 1"
        using wf_pprev [OF assms p(1)] wf_height [OF assms p(1)] pos by (metis order_le_less)
      obtain b' cb where b': "bi_pprev bb = Some b'" "heap b' = Some cb" "bi_nHeight cb = bi_nHeight bb - 1"
        using wf_pprev [OF assms p(2)] wf_height [OF assms p(2)] pos p(3) by (metis order_le_less)
      obtain r where r: "common_loop heap (Some a') (Some b') = Some (r, r)" "fork_point heap (\<lambda>q. is_ancestor heap q b') a' r"
        using less.hyps [OF _ a'(2) b'(2)] a'(3) b'(3) p(3) wf_height [OF assms a'(2)] by auto
      have "is_ancestor heap q b' \<longleftrightarrow> is_ancestor heap q b" if q: "is_ancestor heap q a'" for q
      proof -
        obtain d where d: "heap q = Some d" using q by (auto simp: is_ancestor_def)
        have "bi_nHeight d \<le> bi_nHeight ca" using is_ancestor_height [OF q d a'(2)] by simp
        then have "q \<noteq> b" using d p(2,3) a'(3) by auto
        then show ?thesis using is_ancestor_pprev [OF assms p(2) b'(1)] by auto
      qed
      then have "fork_point heap (\<lambda>q. is_ancestor heap q b) a' r"
        using r(2) by (auto simp: fork_point_def split: option.splits)
      then show ?thesis
        using step a'(1) b'(1) r(1) fork_point_pprev(1) [where member = "\<lambda>q. is_ancestor heap q b", OF assms p(1) no a'(1)] by auto
    qed
  qed
qed

lemma LastCommonAncestor_finds:
  assumes "wf_index heap" "heap a = Some ba" "heap b = Some bb"
  shows "\<exists>r. LastCommonAncestor heap a b = Some r \<and> fork_point heap (\<lambda>q. is_ancestor heap q b) a r"
proof -
  define h where "h = min (bi_nHeight ba) (bi_nHeight bb)"
  have h: "0 \<le> h" "h \<le> bi_nHeight ba" "h \<le> bi_nHeight bb"
    using wf_height [OF assms(1,2)] wf_height [OF assms(1,3)] by (simp_all add: h_def)
  obtain a' ca where a': "ancestor heap a h = Some a'" "heap a' = Some ca" "bi_nHeight ca = h"
    using ancestor_Some [OF assms(1,2) h(1,2)] by blast
  obtain b' cb where b': "ancestor heap b h = Some b'" "heap b' = Some cb" "bi_nHeight cb = h"
    using ancestor_Some [OF assms(1,3) h(1,3)] by blast
  obtain r where r: "common_loop heap (Some a') (Some b') = Some (r, r)" "fork_point heap (\<lambda>q. is_ancestor heap q b') a' r"
    using common_loop_meets [OF assms(1) a'(2) b'(2)] a'(3) b'(3) by auto
  have anc: "GetAncestor heap a (bi_nHeight bb) = Some (ancestor heap a (bi_nHeight bb))"
    "GetAncestor heap b (bi_nHeight ba) = Some (ancestor heap b (bi_nHeight ba))"
    using GetAncestor_walks [OF assms(1)] assms(2,3) by simp_all
  have self: "ancestor heap a (bi_nHeight ba) = Some a" "ancestor heap b (bi_nHeight bb) = Some b"
    using ancestor_self [of heap a ba] ancestor_self [of heap b bb] assms wf_height [OF assms(1)] by simp_all
  have "LastCommonAncestor heap a b = Some r"
    using r(1) anc self a'(1) b'(1) assms(2,3) by (auto simp: LastCommonAncestor_def h_def min_def split: if_splits)
  moreover have low: "is_ancestor heap q b' \<longleftrightarrow> is_ancestor heap q b" if "heap q = Some c" "bi_nHeight c \<le> h" for q c
    using ancestor_trans [OF assms(1,3) _ that(2) h(3) b'(1)] that(1) wf_height [OF assms(1) that(1)] by (simp add: is_ancestor_def)
  have "fork_point heap (\<lambda>q. is_ancestor heap q b' \<and> is_ancestor heap q a') a' r"
    using r(2) by (auto simp: fork_point_def split: option.splits)
  then have "fork_point heap (\<lambda>q. is_ancestor heap q b') a' r \<and> fork_point heap (\<lambda>q. is_ancestor heap q b') a r"
    using r(2) fork_point_ancestor [OF assms(1,2) h(1,2) a'(1), of "\<lambda>q. is_ancestor heap q b'" r]
      is_ancestor_height [of heap _ b' _ cb] b'(2,3) by auto
  then have "fork_point heap (\<lambda>q. is_ancestor heap q b') a r" by simp
  moreover have "is_ancestor heap q a \<and> is_ancestor heap q b' \<longleftrightarrow> is_ancestor heap q a \<and> is_ancestor heap q b" for q
  proof (cases "heap q")
    case (Some c)
    show ?thesis
    proof (cases "bi_nHeight c \<le> h")
      case True
      then show ?thesis using low [OF Some] by simp
    next
      case False
      then show ?thesis
        using is_ancestor_height [of heap q a c ba] is_ancestor_height [of heap q b c bb]
          is_ancestor_height [of heap q b' c cb] Some assms(2,3) b'(2,3) by (auto simp: h_def)
    qed
  qed (simp add: is_ancestor_def)
  ultimately show ?thesis by (auto simp: fork_point_def split: option.splits)
qed

text \<open>The heights of a locator: ten single steps, then steps that double, down to the first block.\<close>

function locator_heights :: "int \<Rightarrow> int \<Rightarrow> nat \<Rightarrow> int list" where
  "locator_heights h nStep n =
     (if h \<le> 0 \<or> nStep \<le> 0 then [h]
      else h # locator_heights (max (h - nStep) 0) (if n + 1 > 10 then nStep * 2 else nStep) (n + 1))"
  by pat_completeness auto
termination
  by (relation "measure (\<lambda>(h, _, _). nat h)") auto

declare locator_heights.simps [simp del]

lemma locator_heights_range: "0 \<le> h \<Longrightarrow> 0 < nStep \<Longrightarrow> set (locator_heights h nStep n) \<subseteq> {0..h}"
proof (induction h nStep n rule: locator_heights.induct)
  case (1 h nStep n)
  let ?rest = "locator_heights (max (h - nStep) 0) (if n + 1 > 10 then nStep * 2 else nStep) (n + 1)"
  show ?case
  proof (cases "h = 0")
    case False
    then have "set ?rest \<subseteq> {0..max (h - nStep) 0}" using 1 by simp
    moreover have "{0..max (h - nStep) 0} \<subseteq> {0..h}" using "1.prems" by auto
    ultimately have "set ?rest \<subseteq> {0..h}" by (rule subset_trans)
    then show ?thesis using False "1.prems" by (subst locator_heights.simps) simp
  qed (subst locator_heights.simps, simp)
qed

lemma GetLocator_loop_heights:
  assumes "wf_index heap" "chain_ok heap vChain"
  shows "heap p = Some b \<Longrightarrow> 0 < nStep \<Longrightarrow>
    GetLocator_loop heap vChain (Some p) nStep vHave =
      Some (vHave @ map (\<lambda>h. bi_hash (the (heap (the (ancestor heap p h))))) (locator_heights (bi_nHeight b) nStep (length vHave)))"
proof (induction "nat (bi_nHeight b)" arbitrary: p b nStep vHave rule: less_induct)
  case less
  note p = less.prems
  have b0: "0 \<le> bi_nHeight b" by (rule wf_height [OF assms(1) p(1)])
  have self: "ancestor heap p (bi_nHeight b) = Some p" using ancestor_self [of heap p b] p(1) b0 by simp
  show ?case
  proof (cases "bi_nHeight b = 0")
    case True
    then show ?thesis using p self by (subst GetLocator_loop.simps, subst locator_heights.simps) simp
  next
    case False
    define h where "h = max (bi_nHeight b - nStep) 0"
    define nStep' where "nStep' = (if length vHave + 1 > 10 then nStep * 2 else nStep)"
    have h: "0 \<le> h" "h \<le> bi_nHeight b" "h < bi_nHeight b" "0 < nStep'" using b0 False p(2) by (auto simp: h_def nStep'_def)
    obtain q c where q: "ancestor heap p h = Some q" "heap q = Some c" "bi_nHeight c = h"
      using ancestor_Some [OF assms(1) p(1) h(1,2)] by blast
    have "chain_at vChain h = Some q" if c: "Contains vChain p b"
    proof -
      obtain t ct where t: "heap t = Some ct" "ancestor heap t (bi_nHeight b) = Some p" "\<And>i. chain_at vChain i = ancestor heap t i"
        using old_chain_branch [OF assms] c unfolding Contains_def by blast
      show ?thesis using ancestor_common [OF assms(1) t(1) p(1) t(2) self h(1,2)] t(3) q(1) by simp
    qed
    moreover have "GetAncestor heap p h = Some (Some q)" using GetAncestor_walks [OF assms(1), of p h] p(1) q(1) by simp
    ultimately have "GetLocator_loop heap vChain (Some p) nStep vHave =
        GetLocator_loop heap vChain (Some q) nStep' (vHave @ [bi_hash b])"
      using p False by (subst GetLocator_loop.simps) (simp add: Let_def h_def nStep'_def)
    also have "\<dots> = Some ((vHave @ [bi_hash b]) @
        map (\<lambda>h. bi_hash (the (heap (the (ancestor heap q h))))) (locator_heights (bi_nHeight c) nStep' (length (vHave @ [bi_hash b]))))"
      using less.hyps [OF _ q(2) h(4)] q(3) h by simp
    finally have loop: "GetLocator_loop heap vChain (Some p) nStep vHave = \<dots>" .
    have "\<And>k. k \<in> set (locator_heights h nStep' (length vHave + 1)) \<Longrightarrow> ancestor heap q k = ancestor heap p k"
      using ancestor_trans [OF assms(1) p(1) _ _ h(2) q(1)] locator_heights_range [OF h(1,4)] by (meson atLeastAtMost_iff subsetD)
    then show ?thesis
      unfolding loop using b0 False p self q(3)
      by (subst (2) locator_heights.simps) (simp add: h_def nStep'_def cong: map_cong)
  qed
qed

text \<open>The number of entries is logarithmic.\<close>

lemma locator_doubling:
  "0 \<le> h \<Longrightarrow> 0 < nStep \<Longrightarrow> 10 \<le> n \<Longrightarrow> h \<le> nStep * (2 ^ j - 1) \<Longrightarrow> length (locator_heights h nStep n) \<le> j + 1"
proof (induction j arbitrary: h nStep n)
  case 0
  then show ?case by (subst locator_heights.simps) simp
next
  case (Suc j)
  have "max (h - nStep) 0 \<le> nStep * 2 * (2 ^ j - 1)" using Suc.prems by (simp add: algebra_simps max_def)
  then show ?case
    using Suc.prems Suc.IH [of "max (h - nStep) 0" "nStep * 2" "n + 1"] by (subst locator_heights.simps) simp
qed

lemma locator_single:
  "0 \<le> h \<Longrightarrow> n \<le> 10 \<Longrightarrow> h < 2 ^ j \<Longrightarrow> length (locator_heights h 1 n) \<le> j + 12 - n"
proof (induction "10 - n" arbitrary: h n)
  case 0
  then have "length (locator_heights h 1 n) \<le> j + 1" by (intro locator_doubling) simp_all
  then show ?case using 0 by simp
next
  case (Suc k)
  have "length (locator_heights (max (h - 1) 0) 1 (n + 1)) \<le> j + 12 - (n + 1)"
    using Suc.hyps(2) Suc.prems by (intro Suc.hyps(1)) auto
  then show ?case using Suc by (subst locator_heights.simps) auto
qed

section \<open>The median time\<close>

text \<open>The times of \<open>p\<close> and its ancestors, at most \<open>n\<close> of them, oldest first.\<close>

definition recent_times :: "heap \<Rightarrow> nat \<Rightarrow> ptr \<Rightarrow> int list" where
  "recent_times heap n p =
     (let h = bi_nHeight (the (heap p))
      in map (\<lambda>k. bi_GetBlockTime (the (heap (the (ancestor heap p k))))) [max 0 (h - int n + 1)..h])"

lemma median_times_recent:
  assumes "wf_index heap"
  shows "heap p = Some b \<Longrightarrow> median_times heap n (Some p) = Some (recent_times heap n p)"
proof (induction n arbitrary: p b)
  case 0
  then show ?case using wf_height [OF assms 0] by (simp add: recent_times_def)
next
  case (Suc n)
  note p = Suc.prems
  have b0: "0 \<le> bi_nHeight b" by (rule wf_height [OF assms p])
  have self: "ancestor heap p (bi_nHeight b) = Some p" using ancestor_self [of heap p b] p b0 by simp
  show ?case
  proof (cases "bi_pprev b")
    case None
    then have "bi_nHeight b = 0" using wf_indexD [OF assms p] by (simp add: link_ok_def)
    moreover have "median_times heap n None = Some []" by (cases n) simp_all
    ultimately show ?thesis using p None self by (simp add: recent_times_def)
  next
    case (Some q)
    then obtain c where c: "heap q = Some c" "bi_nHeight b = bi_nHeight c + 1" "0 \<le> bi_nHeight c"
      using wf_indexD [OF assms p] by (auto simp: link_ok_def)
    have "max 0 (bi_nHeight b - int (Suc n) + 1) = max 0 (bi_nHeight c - int n + 1)" using c by simp
    moreover have "[max 0 (bi_nHeight c - int n + 1)..bi_nHeight b] = [max 0 (bi_nHeight c - int n + 1)..bi_nHeight c] @ [bi_nHeight b]"
      using c upto_rec2 [of "max 0 (bi_nHeight c - int n + 1)" "bi_nHeight b"] by simp
    moreover have "ancestor heap q k = ancestor heap p k" if "k \<in> set [max 0 (bi_nHeight c - int n + 1)..bi_nHeight c]" for k
      using that c by (intro ancestor_pprev [OF assms p Some]) simp
    ultimately have "recent_times heap (Suc n) p = recent_times heap n q @ [bi_GetBlockTime b]"
      using p c(1) self by (simp add: recent_times_def Let_def cong: map_cong)
    then show ?thesis using Suc.IH [OF c(1)] p Some by simp
  qed
qed

lemma sorted_median:
  fixes ts :: "int list"
  assumes "ts \<noteq> []"
  defines "m \<equiv> sort ts ! (length ts div 2)"
  shows "m \<in> set ts" "length (filter (\<lambda>t. t < m) ts) \<le> length ts div 2" "length (filter (\<lambda>t. m < t) ts) \<le> (length ts - 1) div 2"
proof -
  let ?s = "sort ts" and ?k = "length ts div 2"
  have k: "?k < length ?s" using assms(1) by simp
  show "m \<in> set ts" using k unfolding m_def by (metis nth_mem set_sort)
  have count: "length (filter P ts) = length (filter P ?s)" for P :: "int \<Rightarrow> bool"
    using mset_filter [of P ts] mset_filter [of P ?s] by (metis mset_sort size_mset)
  have split: "?s = take ?k ?s @ drop ?k ?s" by simp
  have "m \<le> t" if "t \<in> set (drop ?k ?s)" for t
    using that k sorted_nth_mono [OF sorted_sort [of ts], of ?k] unfolding m_def by (auto simp: in_set_conv_nth)
  then have "filter (\<lambda>t. t < m) (drop ?k ?s) = []" by (auto simp: filter_empty_conv not_less)
  then have "length (filter (\<lambda>t. t < m) ?s) = length (filter (\<lambda>t. t < m) (take ?k ?s))"
    by (metis append_Nil2 append_take_drop_id filter_append)
  also have "\<dots> \<le> ?k" using length_filter_le [of _ "take ?k ?s"] k by simp
  finally show "length (filter (\<lambda>t. t < m) ts) \<le> ?k" using count by simp
  have "t \<le> m" if "t \<in> set (take (Suc ?k) ?s)" for t
    using that k sorted_nth_mono [OF sorted_sort [of ts], of _ ?k] unfolding m_def by (auto simp: in_set_conv_nth)
  then have "filter (\<lambda>t. m < t) (take (Suc ?k) ?s) = []" by (auto simp: filter_empty_conv not_less)
  then have "length (filter (\<lambda>t. m < t) ?s) = length (filter (\<lambda>t. m < t) (drop (Suc ?k) ?s))"
    by (metis append_Nil append_take_drop_id filter_append)
  also have "\<dots> \<le> length ?s - Suc ?k" using length_filter_le [of _ "drop (Suc ?k) ?s"] by simp
  finally show "length (filter (\<lambda>t. m < t) ts) \<le> (length ts - 1) div 2" using count by simp
qed

section \<open>Properties\<close>

text \<open>
  The indexes that \<open>AddToBlockIndex\<close> builds from the empty one: a new entry is linked to its
  predecessor if that is there.
\<close>

inductive built :: "heap \<Rightarrow> bool" where
  empty: "built (\<lambda>_. None)"
| entry: "built heap \<Longrightarrow> heap p = None \<Longrightarrow> bi_pprev b = None \<Longrightarrow> bi_nHeight b = 0 \<Longrightarrow>
    miPrev = None \<or> heap (the miPrev) \<noteq> None \<Longrightarrow> link_entry heap p b miPrev = Some heap' \<Longrightarrow> built heap'"

lemma built_wf: "built heap \<Longrightarrow> wf_index heap"
proof (induction rule: built.induct)
  case empty
  then show ?case by (simp add: wf_index_def)
next
  case (entry heap p b miPrev heap')
  then show ?case using link_entry_wf [of heap p b miPrev] by (metis option.inject)
qed

definition witness_entry :: "256 word \<Rightarrow> u32 \<Rightarrow> index_entry" where
  "witness_entry hash time = \<lparr>bi_hash = hash, bi_pprev = None, bi_pskip = None, bi_nHeight = 0, bi_nFile = 0, bi_nDataPos = 0,
     bi_nUndoPos = 0, bi_nStatus = 0, bi_vStakeModifier = [], bi_nFlags = 0, bi_nTime = time\<rparr>"

definition witness_heap1 :: heap where
  "witness_heap1 = (\<lambda>_. None)(0 := Some (witness_entry 100 7))"

definition witness_heap2 :: heap where
  "witness_heap2 = witness_heap1(1 := Some ((witness_entry 101 5)\<lparr>bi_pprev := Some 0, bi_nHeight := 1, bi_pskip := Some 0\<rparr>))"

definition witness_heap :: heap where
  "witness_heap = witness_heap2(2 := Some ((witness_entry 102 9)\<lparr>bi_pprev := Some 1, bi_nHeight := 2, bi_pskip := Some 0\<rparr>))"

lemma witness_skips: "GetSkipHeight 1 = 0" "GetSkipHeight 2 = 0"
  by (simp_all add: GetSkipHeight_def InvertLowestOne_def)

lemma witness_built: "built witness_heap"
proof -
  have b1: "built witness_heap1"
    by (rule built.entry [OF built.empty, where p = 0 and b = "witness_entry 100 7" and miPrev = None])
       (simp_all add: witness_entry_def link_entry_def witness_heap1_def)
  have "link_entry witness_heap1 1 (witness_entry 101 5) (Some 0) = Some witness_heap2"
    by (simp add: link_entry_def witness_heap1_def witness_heap2_def BuildSkip_def GetAncestor_def GetAncestor_loop.simps
      witness_skips) (simp add: witness_entry_def witness_skips GetAncestor_loop.simps)
  then have b2: "built witness_heap2"
    by (rule built.entry [OF b1, rotated -1]) (simp_all add: witness_entry_def witness_heap1_def)
  have "GetAncestor witness_heap2 1 0 = Some (Some 0)"
    using GetAncestor_walks [OF built_wf [OF b2], of 1 0]
    by (simp add: witness_heap2_def ancestor_def numeral_eq_Suc)
  then have "BuildSkip witness_heap2 ((witness_entry 102 9)\<lparr>bi_pprev := Some 1, bi_nHeight := 2\<rparr>) =
      Some ((witness_entry 102 9)\<lparr>bi_pprev := Some 1, bi_nHeight := 2, bi_pskip := Some 0\<rparr>)"
    by (simp add: BuildSkip_def witness_skips)
  moreover have "witness_heap2 1 = Some ((witness_entry 101 5)\<lparr>bi_pprev := Some 0, bi_nHeight := 1, bi_pskip := Some 0\<rparr>)"
    by (simp add: witness_heap2_def)
  ultimately have "link_entry witness_heap2 2 (witness_entry 102 9) (Some 1) = Some witness_heap"
    by (simp add: link_entry_def witness_heap_def)
  then show ?thesis
    by (rule built.entry [OF b2, rotated -1]) (simp_all add: witness_entry_def witness_heap1_def witness_heap2_def)
qed

text \<open>Stake modifiers are read back as they were set.\<close>

lemma stake_modifier_roundtrip:
  "\<not> IsStakeModifierV2 c (bi_nHeight b) \<Longrightarrow> GetStakeModifierV1 c (SetStakeModifier_V1 b m g) = Some m"
  "IsStakeModifierV2 c (bi_nHeight b) \<Longrightarrow> GetStakeModifierV2 c (SetStakeModifier_V2 b m') = Some m'"
proof -
  have v1: "le_nat (WRITEDATA 8 m) = unat m" and v2: "le_nat (WRITEDATA 32 m') = unat m'"
    using unsigned_less [of m, where ?'a = nat] unsigned_less [of m', where ?'a = nat]
    by (simp_all add: WRITEDATA_def le_nat_nat_le)
  have l: "length (WRITEDATA 8 m) = 8" "length (WRITEDATA 32 m') = 32" by (simp_all add: WRITEDATA_def)
  then have ne: "WRITEDATA 8 m \<noteq> []" "WRITEDATA 32 m' \<noteq> []" by (metis list.size(3) zero_neq_numeral)+
  show "\<not> IsStakeModifierV2 c (bi_nHeight b) \<Longrightarrow> GetStakeModifierV1 c (SetStakeModifier_V1 b m g) = Some m"
    using v1 l ne by (simp add: GetStakeModifierV1_def SetStakeModifier_V1_def Let_def)
  show "IsStakeModifierV2 c (bi_nHeight b) \<Longrightarrow> GetStakeModifierV2 c (SetStakeModifier_V2 b m') = Some m'"
    using v2 l ne by (simp add: GetStakeModifierV2_def SetStakeModifier_V2_def)
qed

lemma witness_blocks:
  "witness_heap 0 = Some (witness_entry 100 7)"
  "witness_heap 1 = Some ((witness_entry 101 5)\<lparr>bi_pprev := Some 0, bi_nHeight := 1, bi_pskip := Some 0\<rparr>)"
  "witness_heap 2 = Some ((witness_entry 102 9)\<lparr>bi_pprev := Some 1, bi_nHeight := 2, bi_pskip := Some 0\<rparr>)"
  by (simp_all add: witness_heap_def witness_heap2_def witness_heap1_def)

text \<open>
  C20: The block index.  In every index that calls of \<open>AddToBlockIndex\<close> build from the empty
  one (and not one that was loaded from disk), the predecessor of an entry is in the index and one lower, the entries without a predecessor have height 0, and the skip
  pointer of every entry above height 0 points to its ancestor at the height \<open>GetSkipHeight\<close>
  gives.  An entry for a block with a known predecessor can always be linked, and a null or
  dangling pointer is never followed.
\<close>

theorem index_invariant:
  assumes "built heap"
  shows "wf_index heap
    \<and> (\<forall>p b q. heap p = None \<longrightarrow> bi_pprev b = None \<longrightarrow> bi_nHeight b = 0 \<longrightarrow> heap q \<noteq> None \<longrightarrow>
        link_entry heap p b (Some q) \<noteq> None)"
proof -
  have "link_entry heap p b (Some q) \<noteq> None" if "heap p = None" "bi_pprev b = None" "bi_nHeight b = 0" "heap q \<noteq> None" for p b q
    using link_entry_wf [OF built_wf [OF assms] that(1-3), of "Some q"] that(4) by (metis option.distinct(1) option.sel)
  then show ?thesis using built_wf [OF assms] by blast
qed

theorem index_invariant_witness: "wf_index witness_heap \<and> link_entry witness_heap 3 (witness_entry 103 8) (Some 1) \<noteq> None"
proof -
  have "witness_heap 3 = None" by (simp add: witness_heap_def witness_heap2_def witness_heap1_def)
  then show ?thesis using index_invariant [OF witness_built] witness_blocks(2) by (simp add: witness_entry_def)
qed

text \<open>
  C16: The skip list.  \<open>GetAncestor\<close> ends, follows no null pointer, and returns the entry that
  following \<open>pprev\<close> step by step leads to, or null when the height is negative or above that of
  the entry.
\<close>

theorem GetAncestor_follows_pprev:
  assumes "built heap" "heap p = Some b"
  shows "GetAncestor heap p height =
    Some (if 0 \<le> height \<and> height \<le> bi_nHeight b then walk heap (nat (bi_nHeight b - height)) p else None)"
  using GetAncestor_walks [OF built_wf [OF assms(1)], of p height] assms(2) by (auto simp: ancestor_def)

theorem GetAncestor_follows_pprev_witness: "GetAncestor witness_heap 2 1 = Some (Some 1)"
  using GetAncestor_follows_pprev [OF witness_built witness_blocks(3), of 1]
  by (simp add: witness_entry_def witness_blocks(3))

text \<open>
  C17: The active chain.  From any earlier state, \<open>SetTip\<close> with an entry of the index makes the
  chain the branch from the first block to that entry: at every height it holds the ancestor
  of the entry, its tip is the entry and its height that of the entry.  The blocks of the old
  chain that it keeps are those that it would have written.
\<close>

theorem SetTip_makes_branch:
  assumes "built heap" "chain_ok heap vChain" "heap p = Some b"
  shows "\<exists>vChain'. SetTip heap vChain (Some p) = Some vChain' \<and> chain_ok heap vChain' \<and> Tip vChain' = Some p
    \<and> Height vChain' = bi_nHeight b \<and> (\<forall>h. chain_at vChain' h = ancestor heap p h)"
proof -
  note wf = built_wf [OF assms(1)]
  have h: "0 \<le> bi_nHeight b" by (rule wf_height [OF wf assms(3)])
  have "Tip (branch heap p) = Some p"
    using h assms(3) ancestor_self [of heap p b] nth_branch [of heap p b "nat (bi_nHeight b)"]
    by (simp add: Tip_def length_branch nat_add_distrib)
  moreover have "Height (branch heap p) = bi_nHeight b" using h by (simp add: Height_def length_branch [of heap p b] assms(3))
  moreover have "chain_ok heap (branch heap p)" using assms(3) by (auto simp: chain_ok_def)
  ultimately show ?thesis
    using SetTip_branch [OF wf assms(3,2)] chain_at_branch [OF wf assms(3)] by simp
qed

theorem SetTip_makes_branch_witness:
  "\<exists>vChain'. SetTip witness_heap [] (Some 2) = Some vChain' \<and> Height vChain' = 2 \<and> Tip vChain' = Some 2"
proof -
  have "chain_ok witness_heap []" by (simp add: chain_ok_def)
  from SetTip_makes_branch [OF witness_built this witness_blocks(3)] show ?thesis by auto
qed

text \<open>
  C18: Forks.  For a chain that is a branch of the index, \<open>FindFork\<close> ends and returns the highest
  block of the chain among an entry and its ancestors, or null when there is none.  For two
  entries, the assertion of \<open>LastCommonAncestor\<close> holds and it returns the highest entry that is
  an ancestor of both, or null when there is none.
\<close>

theorem forks_are_found:
  assumes "built heap" "chain_ok heap vChain" "heap p = Some b" "heap q = Some c"
  shows "(\<exists>r. FindFork heap vChain (Some p) = Some r \<and> fork_point heap (in_chain heap vChain) p r)
    \<and> (\<exists>r. LastCommonAncestor heap p q = Some r \<and> fork_point heap (\<lambda>x. is_ancestor heap x q) p r)"
  using FindFork_finds [OF built_wf [OF assms(1)] assms(3,2)] LastCommonAncestor_finds [OF built_wf [OF assms(1)] assms(3,4)] by blast

theorem forks_are_found_witness:
  "(\<exists>r. FindFork witness_heap [] (Some 2) = Some r) \<and> (\<exists>r. LastCommonAncestor witness_heap 2 1 = Some r)"
proof -
  have "chain_ok witness_heap []" by (simp add: chain_ok_def)
  from forks_are_found [OF witness_built this witness_blocks(3,2)] show ?thesis by blast
qed

text \<open>
  C33: Block locators.  \<open>GetLocator\<close> of an entry ends and lists the hashes of the entry and of the
  ancestors of it at the heights \<open>locator_heights\<close>, whether it reads them from the chain or
  from the skip list; below a height of \<open>2^31\<close> these are at most 43.
\<close>

theorem GetLocator_lists_ancestors:
  assumes "built heap" "chain_ok heap vChain" "heap p = Some b" "bi_nHeight b < 2 ^ 31"
  shows "GetLocator heap vChain (Some p) =
      Some (map (\<lambda>h. bi_hash (the (heap (the (ancestor heap p h))))) (locator_heights (bi_nHeight b) 1 0))
    \<and> length (locator_heights (bi_nHeight b) 1 0) \<le> 43"
  using GetLocator_loop_heights [OF built_wf [OF assms(1)] assms(2,3), of 1 "[]"]
    locator_single [OF wf_height [OF built_wf [OF assms(1)] assms(3)], of 0 31] assms(4)
  by (simp add: GetLocator_def)

theorem GetLocator_lists_ancestors_witness: "GetLocator witness_heap [] (Some 2) = Some [102, 101, 100]"
proof -
  have "chain_ok witness_heap []" by (simp add: chain_ok_def)
  moreover have "locator_heights 2 1 0 = [2, 1, 0]"
    by (simp add: locator_heights.simps [of 2] locator_heights.simps [of 1] locator_heights.simps [of 0])
  moreover have "ancestor witness_heap 2 2 = Some 2" "ancestor witness_heap 2 1 = Some 1" "ancestor witness_heap 2 0 = Some 0"
    using witness_blocks by (simp_all add: ancestor_def numeral_2_eq_2)
  ultimately show ?thesis
    using GetLocator_lists_ancestors [OF witness_built _ witness_blocks(3), of "[]"] witness_blocks by (simp add: witness_entry_def)
qed

text \<open>
  C34: The median time.  \<open>GetMedianTimePast\<close> follows no null pointer and returns a time of one of
  the last eleven blocks up to the entry (all of them, when there are fewer), such that at
  most half of these times, rounded down, are before it and less than half are after it.
\<close>

theorem GetMedianTimePast_is_median:
  assumes "built heap" "heap p = Some b"
  shows "\<exists>m ts. GetMedianTimePast heap p = Some m \<and> ts = recent_times heap 11 p \<and> m \<in> set ts
    \<and> length (filter (\<lambda>t. t < m) ts) \<le> length ts div 2 \<and> length (filter (\<lambda>t. m < t) ts) \<le> (length ts - 1) div 2"
proof -
  note wf = built_wf [OF assms(1)]
  have "recent_times heap 11 p \<noteq> []" using wf_height [OF wf assms(2)] assms(2) by (simp add: recent_times_def Let_def)
  from sorted_median [OF this] show ?thesis
    using median_times_recent [OF wf assms(2), of 11] by (simp add: GetMedianTimePast_def nMedianTimeSpan_def)
qed

theorem GetMedianTimePast_is_median_witness: "\<exists>m. GetMedianTimePast witness_heap 2 = Some m \<and> m \<in> set (recent_times witness_heap 11 2)"
  using GetMedianTimePast_is_median [OF witness_built witness_blocks(3)] by blast

end
