(* ===== verification/CheckQueue.thy ===== *)
theory CheckQueue
  imports Prelude
begin

text \<open>
  The queue of verifications that \<open>ConnectBlock\<close> shares with worker threads: \<open>CCheckQueue\<close> and
  \<open>CCheckQueueControl\<close> of \<^verbatim>\<open>src/src/checkqueue.h\<close>.

  \<^item> A check is a value of any type, \<open>check\<close> runs it.
  \<^item> The members of the queue are a record.  A thread in \<open>Loop\<close> is in front of the mutex, works on
    its batch outside of it, waits for its condition variable, was woken and waits for the
    mutex, or has returned.  What happens between taking and releasing the mutex is one step.
  \<^item> A condition variable may wake a thread without a reason, so that a waiting thread may
    become a woken one at any time.  \<open>notify_one\<close> wakes some waiting thread.
  \<^item> \<open>fQuit\<close>, which nothing ever sets, is false.  \<open>nTodo\<close> is \<open>nat\<close>: it counts the inputs of a block.

  \<open>queue_step\<close> interleaves the steps of the master, which constructs a control object, adds
  checks and waits, and of any number of workers, which may start at any time.  The lemmas
  show that \<open>Wait\<close> returns whether all checks of the round succeed, that the assertion of the
  constructor holds, and that \<open>Wait\<close> returns after a bounded number of steps of the threads that
  are not asleep (\<open>queue_run\<close>), so that it depends on no spurious wake-up.
\<close>

section \<open>The queue\<close>

record 'a check_queue =
  cq_queue :: "'a list"
  cq_nIdle :: int
  cq_nTotal :: int
  cq_fAllOk :: bool
  cq_nTodo :: nat

datatype 'a thread =
    At_lock nat bool
  | Working "'a list" bool
  | Waiting
  | Woken
  | Returned bool

definition new_check_queue :: "'a check_queue" where
  "new_check_queue = \<lparr>cq_queue = [], cq_nIdle = 0, cq_nTotal = 0, cq_fAllOk = True, cq_nTodo = 0\<rparr>"

definition batch_size :: "nat \<Rightarrow> 'a check_queue \<Rightarrow> nat" where
  "batch_size nBatchSize q =
     max 1 (min nBatchSize (nat (int (length (cq_queue q)) div (cq_nTotal q + cq_nIdle q + 1))))"

text \<open>The loop \<open>while (queue.empty())\<close> up to its next wait, and the choice of a batch behind it.\<close>

definition next_batch :: "nat \<Rightarrow> bool \<Rightarrow> 'a check_queue \<Rightarrow> 'a check_queue \<times> 'a thread" where
  "next_batch nBatchSize fMaster q =
     (if cq_queue q = [] then
        (if fMaster \<and> cq_nTodo q = 0
         then (q\<lparr>cq_nTotal := cq_nTotal q - 1, cq_fAllOk := True\<rparr>, Returned (cq_fAllOk q))
         else (q\<lparr>cq_nIdle := cq_nIdle q + 1\<rparr>, Waiting))
      else
        (let nNow = batch_size nBatchSize q;
             rest = length (cq_queue q) - nNow
         in (q\<lparr>cq_queue := take rest (cq_queue q)\<rparr>,
             Working (rev (drop rest (cq_queue q))) (cq_fAllOk q))))"

text \<open>The clean-up of the previous run.  The second component says that the master is notified.\<close>

definition clean_up :: "bool \<Rightarrow> nat \<Rightarrow> bool \<Rightarrow> 'a check_queue \<Rightarrow> 'a check_queue \<times> bool" where
  "clean_up fMaster nNow fOk q =
     (if nNow \<noteq> 0
      then (q\<lparr>cq_fAllOk := (cq_fAllOk q \<and> fOk), cq_nTodo := cq_nTodo q - nNow\<rparr>, cq_nTodo q - nNow = 0 \<and> \<not> fMaster)
      else (q\<lparr>cq_nTotal := cq_nTotal q + 1\<rparr>, False))"

fun run_checks :: "('a \<Rightarrow> bool) \<Rightarrow> 'a list \<Rightarrow> bool \<Rightarrow> bool" where
  "run_checks check [] fOk = fOk"
| "run_checks check (c # vChecks) fOk = run_checks check vChecks (if fOk then check c else fOk)"

text \<open>The next step of a thread in \<open>Loop\<close>.\<close>

fun thread_next ::
  "nat \<Rightarrow> ('a \<Rightarrow> bool) \<Rightarrow> bool \<Rightarrow> 'a check_queue \<Rightarrow> 'a thread \<Rightarrow> 'a check_queue \<times> 'a thread \<times> bool" where
  "thread_next nBatchSize check fMaster q (At_lock nNow fOk) =
     (case clean_up fMaster nNow fOk q of (q, notify) \<Rightarrow>
        case next_batch nBatchSize fMaster q of (q, t) \<Rightarrow> (q, t, notify))"
| "thread_next nBatchSize check fMaster q (Working vChecks fOk) =
     (q, At_lock (length vChecks) (run_checks check vChecks fOk), False)"
| "thread_next nBatchSize check fMaster q Waiting = (q, Woken, False)"
| "thread_next nBatchSize check fMaster q Woken =
     (case next_batch nBatchSize fMaster (q\<lparr>cq_nIdle := cq_nIdle q - 1\<rparr>) of (q, t) \<Rightarrow> (q, t, False))"
| "thread_next nBatchSize check fMaster q (Returned b) = (q, Returned b, False)"

definition queue_Add :: "'a check_queue \<Rightarrow> 'a list \<Rightarrow> 'a check_queue" where
  "queue_Add q vChecks = q\<lparr>cq_queue := cq_queue q @ vChecks, cq_nTodo := cq_nTodo q + length vChecks\<rparr>"

definition IsIdle :: "'a check_queue \<Rightarrow> bool" where
  "IsIdle q \<longleftrightarrow> cq_nTotal q = cq_nIdle q \<and> cq_nTodo q = 0 \<and> cq_fAllOk q"

section \<open>Master and workers\<close>

text \<open>
  The thread that owns the control object: without one, after a failed assertion, between the
  constructor and \<open>Wait\<close> (which the destructor calls when nothing else did), or in \<open>Loop\<close>.
\<close>

datatype 'a master = No_control | Assertion_failure | Adding | In_loop "'a thread"

text \<open>\<open>added\<close> are the checks that were added since the constructor; the code does not keep them.\<close>

record 'a queue_state =
  qs_queue :: "'a check_queue"
  qs_master :: "'a master"
  qs_workers :: "'a thread list"
  qs_added :: "'a list"

fun active :: "'a thread \<Rightarrow> bool" where
  "active (Returned b) = False"
| "active _ = True"

definition wake :: "'a thread \<Rightarrow> 'a thread" where
  "wake t = (if t = Waiting then Woken else t)"

definition notify_master :: "bool \<Rightarrow> 'a master \<Rightarrow> 'a master" where
  "notify_master notify m = (if notify \<and> m = In_loop Waiting then In_loop Woken else m)"

text \<open>The workers after the notifications of \<open>Add\<close> for \<open>n\<close> checks.\<close>

definition notified :: "nat \<Rightarrow> 'a thread list \<Rightarrow> 'a thread list \<Rightarrow> bool" where
  "notified n ws ws' \<longleftrightarrow>
     (if n = 0 then ws' = ws
      else if n = 1 then (if Waiting \<in> set ws then \<exists>i < length ws. ws ! i = Waiting \<and> ws' = ws[i := Woken] else ws' = ws)
      else ws' = map wake ws)"

inductive queue_step :: "nat \<Rightarrow> ('a \<Rightarrow> bool) \<Rightarrow> 'a queue_state \<Rightarrow> 'a queue_state \<Rightarrow> bool"
  for nBatchSize :: nat and check :: "'a \<Rightarrow> bool" where
  start_worker: "queue_step nBatchSize check s (s\<lparr>qs_workers := qs_workers s @ [At_lock 0 True]\<rparr>)"
| construct: "qs_master s = No_control \<or> qs_master s = In_loop (Returned b) \<Longrightarrow>
    queue_step nBatchSize check s
      (s\<lparr>qs_master := (if IsIdle (qs_queue s) then Adding else Assertion_failure), qs_added := []\<rparr>)"
| add: "qs_master s = Adding \<Longrightarrow> notified (length vChecks) (qs_workers s) ws \<Longrightarrow>
    queue_step nBatchSize check s
      (s\<lparr>qs_queue := queue_Add (qs_queue s) vChecks, qs_workers := ws, qs_added := qs_added s @ vChecks\<rparr>)"
| begin_wait: "qs_master s = Adding \<Longrightarrow> queue_step nBatchSize check s (s\<lparr>qs_master := In_loop (At_lock 0 True)\<rparr>)"
| master: "qs_master s = In_loop t \<Longrightarrow> (\<forall>b. t \<noteq> Returned b) \<Longrightarrow>
    thread_next nBatchSize check True (qs_queue s) t = (q, t', notify) \<Longrightarrow>
    queue_step nBatchSize check s (s\<lparr>qs_queue := q, qs_master := In_loop t'\<rparr>)"
| worker: "i < length (qs_workers s) \<Longrightarrow>
    thread_next nBatchSize check False (qs_queue s) (qs_workers s ! i) = (q, t', notify) \<Longrightarrow>
    queue_step nBatchSize check s
      (s\<lparr>qs_queue := q, qs_workers := (qs_workers s)[i := t'], qs_master := notify_master notify (qs_master s)\<rparr>)"

text \<open>
  The steps of the threads that are in \<open>Loop\<close> and are not asleep: no thread starts or wakes up
  without a reason, and nothing is added.
\<close>

inductive queue_run :: "nat \<Rightarrow> ('a \<Rightarrow> bool) \<Rightarrow> 'a queue_state \<Rightarrow> 'a queue_state \<Rightarrow> bool"
  for nBatchSize :: nat and check :: "'a \<Rightarrow> bool" where
  run_master: "qs_master s = In_loop t \<Longrightarrow> active t \<Longrightarrow> t \<noteq> Waiting \<Longrightarrow>
    thread_next nBatchSize check True (qs_queue s) t = (q, t', notify) \<Longrightarrow>
    queue_run nBatchSize check s (s\<lparr>qs_queue := q, qs_master := In_loop t'\<rparr>)"
| run_worker: "i < length (qs_workers s) \<Longrightarrow> active (qs_workers s ! i) \<Longrightarrow> qs_workers s ! i \<noteq> Waiting \<Longrightarrow>
    thread_next nBatchSize check False (qs_queue s) (qs_workers s ! i) = (q, t', notify) \<Longrightarrow>
    queue_run nBatchSize check s
      (s\<lparr>qs_queue := q, qs_workers := (qs_workers s)[i := t'], qs_master := notify_master notify (qs_master s)\<rparr>)"

definition queue_init :: "'a queue_state" where
  "queue_init = \<lparr>qs_queue = new_check_queue, qs_master = No_control, qs_workers = [], qs_added = []\<rparr>"

abbreviation queue_reaches :: "nat \<Rightarrow> ('a \<Rightarrow> bool) \<Rightarrow> 'a queue_state \<Rightarrow> 'a queue_state \<Rightarrow> bool" where
  "queue_reaches nBatchSize check \<equiv> (queue_step nBatchSize check)\<^sup>*\<^sup>*"

section \<open>What one step of a thread keeps\<close>

text \<open>
  The number of checks a thread still has to account for, whether it knows of no failure
  yet to be reported, and how it counts for \<open>nIdle\<close> and \<open>nTotal\<close>.
\<close>

fun busy :: "'a thread \<Rightarrow> nat" where
  "busy (At_lock nNow fOk) = nNow"
| "busy (Working vChecks fOk) = length vChecks"
| "busy _ = 0"

fun fine :: "('a \<Rightarrow> bool) \<Rightarrow> 'a thread \<Rightarrow> bool" where
  "fine check (At_lock nNow fOk) \<longleftrightarrow> nNow = 0 \<or> fOk"
| "fine check (Working vChecks fOk) \<longleftrightarrow> fOk \<and> list_all check vChecks"
| "fine check _ \<longleftrightarrow> True"

fun idle :: "'a thread \<Rightarrow> int" where
  "idle Waiting = 1"
| "idle Woken = 1"
| "idle _ = 0"

fun entered :: "'a thread \<Rightarrow> int" where
  "entered (At_lock nNow fOk) = (if nNow = 0 then 0 else 1)"
| "entered (Returned b) = 0"
| "entered _ = 1"

fun thread_ok :: "'a thread \<Rightarrow> bool" where
  "thread_ok (At_lock nNow fOk) \<longleftrightarrow> nNow = 0 \<longrightarrow> fOk"
| "thread_ok (Working vChecks fOk) \<longleftrightarrow> vChecks \<noteq> []"
| "thread_ok _ \<longleftrightarrow> True"

lemma active_iff: "active t \<longleftrightarrow> (\<forall>b. t \<noteq> Returned b)"
  by (cases t) auto

lemma run_checks_all: "run_checks check vChecks fOk \<longleftrightarrow> fOk \<and> list_all check vChecks"
  by (induction check vChecks fOk rule: run_checks.induct) auto

lemma batch_size_bounds:
  assumes "cq_queue q \<noteq> []" "0 \<le> cq_nTotal q + cq_nIdle q"
  shows "1 \<le> batch_size nBatchSize q" "batch_size nBatchSize q \<le> length (cq_queue q)"
proof -
  let ?n = "length (cq_queue q)"
  have "int ?n div (cq_nTotal q + cq_nIdle q + 1) \<le> int ?n"
    using assms(2) zdiv_mono2 [of "int ?n" 1 "cq_nTotal q + cq_nIdle q + 1"] by simp
  then have "nat (int ?n div (cq_nTotal q + cq_nIdle q + 1)) \<le> ?n" by linarith
  moreover have "1 \<le> ?n" using assms(1) by (cases "cq_queue q") auto
  ultimately show "1 \<le> batch_size nBatchSize q" "batch_size nBatchSize q \<le> ?n"
    by (auto simp: batch_size_def)
qed

text \<open>The facts about \<open>q\<close>, \<open>t\<close> that the steps keep, for one thread.\<close>

definition step_ok :: "('a \<Rightarrow> bool) \<Rightarrow> bool \<Rightarrow> 'a check_queue \<Rightarrow> 'a thread \<Rightarrow> 'a check_queue \<Rightarrow> 'a thread \<Rightarrow> bool" where
  "step_ok check fMaster q t q' t' \<longleftrightarrow> thread_ok t'
     \<and> int (cq_nTodo q') - int (length (cq_queue q')) - int (busy t') = int (cq_nTodo q) - int (length (cq_queue q)) - int (busy t)
     \<and> cq_nIdle q' - idle t' = cq_nIdle q - idle t \<and> cq_nTotal q' - entered t' = cq_nTotal q - entered t
     \<and> (if active t'
        then (cq_fAllOk q' \<and> list_all check (cq_queue q') \<and> fine check t' \<longleftrightarrow>
              cq_fAllOk q \<and> list_all check (cq_queue q) \<and> fine check t)
        else fMaster \<and> cq_queue q = [] \<and> cq_nTodo q' = 0 \<and> cq_fAllOk q'
          \<and> t' = Returned (cq_fAllOk q \<and> list_all check (cq_queue q) \<and> fine check t))
     \<and> (cq_queue q = [] \<longrightarrow> cq_queue q' = []) \<and> (fMaster \<and> t' = Waiting \<longrightarrow> cq_queue q' = [] \<and> cq_nTodo q' \<noteq> 0)
     \<and> cq_nTodo q' \<le> cq_nTodo q"

lemma next_batch_ok:
  assumes "next_batch nBatchSize fMaster q = (q', t')" "0 \<le> cq_nTotal q + cq_nIdle q"
  shows "thread_ok t'
    \<and> int (cq_nTodo q') - int (length (cq_queue q')) - int (busy t') = int (cq_nTodo q) - int (length (cq_queue q))
    \<and> cq_nIdle q' - idle t' = cq_nIdle q \<and> cq_nTotal q' - entered t' = cq_nTotal q - 1
    \<and> (if active t' then (cq_fAllOk q' \<and> list_all check (cq_queue q') \<and> fine check t' \<longleftrightarrow> cq_fAllOk q \<and> list_all check (cq_queue q))
       else fMaster \<and> cq_queue q = [] \<and> cq_nTodo q' = 0 \<and> cq_fAllOk q' \<and> t' = Returned (cq_fAllOk q))
    \<and> (cq_queue q = [] \<longrightarrow> cq_queue q' = []) \<and> (fMaster \<and> t' = Waiting \<longrightarrow> cq_queue q' = [] \<and> cq_nTodo q' \<noteq> 0)
    \<and> cq_nTodo q' = cq_nTodo q"
proof (cases "cq_queue q = []")
  case True
  then show ?thesis using assms(1) by (auto simp: next_batch_def split: if_splits)
next
  case False
  define rest where "rest = length (cq_queue q) - batch_size nBatchSize q"
  have rest: "rest < length (cq_queue q)"
    using batch_size_bounds [OF False assms(2), of nBatchSize] False by (simp add: rest_def)
  have eq: "q' = q\<lparr>cq_queue := take rest (cq_queue q)\<rparr>" "t' = Working (rev (drop rest (cq_queue q))) (cq_fAllOk q)"
    using assms(1) False by (simp_all add: next_batch_def Let_def rest_def)
  have "list_all check (cq_queue q) \<longleftrightarrow> list_all check (take rest (cq_queue q)) \<and> list_all check (drop rest (cq_queue q))"
    by (metis append_take_drop_id list_all_append)
  then show ?thesis using rest False by (auto simp: eq)
qed

lemma thread_next_ok:
  assumes "thread_next nBatchSize check fMaster q t = (q', t', notify)" "active t" "thread_ok t"
    "busy t \<le> cq_nTodo q" "idle t \<le> cq_nIdle q" "entered t \<le> cq_nTotal q"
  shows "step_ok check fMaster q t q' t'" "cq_nTodo q' = 0 \<and> cq_nTodo q \<noteq> 0 \<and> \<not> fMaster \<Longrightarrow> notify" "notify \<Longrightarrow> cq_nTodo q' = 0"
proof -
  have "step_ok check fMaster q t q' t' \<and> (cq_nTodo q' = 0 \<and> cq_nTodo q \<noteq> 0 \<and> \<not> fMaster \<longrightarrow> notify) \<and> (notify \<longrightarrow> cq_nTodo q' = 0)"
  proof (cases t)
    case (At_lock nNow fOk)
    obtain q1 n1 where c: "clean_up fMaster nNow fOk q = (q1, n1)" by fastforce
    obtain q2 t2 where b: "next_batch nBatchSize fMaster q1 = (q2, t2)" by fastforce
    have eq: "q' = q2" "t' = t2" "notify = n1" using assms(1) c b At_lock by simp_all
    have "0 \<le> cq_nTotal q1 + cq_nIdle q1"
      using c assms(5,6) At_lock by (auto simp: clean_up_def split: if_splits)
    note n = next_batch_ok [OF b this, where check = check]
    show ?thesis
    proof (cases "nNow = 0")
      case True
      then have "q1 = q\<lparr>cq_nTotal := cq_nTotal q + 1\<rparr>" "\<not> n1" "fOk" using c At_lock assms(3) by (auto simp: clean_up_def)
      then show ?thesis using n True unfolding step_ok_def eq At_lock
        by simp (auto split: if_splits)
    next
      case False
      then have "q1 = q\<lparr>cq_fAllOk := (cq_fAllOk q \<and> fOk), cq_nTodo := cq_nTodo q - nNow\<rparr>"
        "n1 = (cq_nTodo q - nNow = 0 \<and> \<not> fMaster)"
        using c by (auto simp: clean_up_def)
      then show ?thesis using n False assms(4) unfolding step_ok_def eq At_lock
        by (simp add: of_nat_diff) (auto split: if_splits)
    qed
  next
    case (Working vChecks fOk)
    then show ?thesis using assms(1,3) by (auto simp: step_ok_def run_checks_all)
  next
    case Waiting
    then show ?thesis using assms(1) by (auto simp: step_ok_def)
  next
    case Woken
    obtain q2 t2 where b: "next_batch nBatchSize fMaster (q\<lparr>cq_nIdle := cq_nIdle q - 1\<rparr>) = (q2, t2)" by fastforce
    have "0 \<le> cq_nTotal (q\<lparr>cq_nIdle := cq_nIdle q - 1\<rparr>) + cq_nIdle (q\<lparr>cq_nIdle := cq_nIdle q - 1\<rparr>)"
      using assms(5,6) Woken by simp
    note n = next_batch_ok [OF b this, where check = check]
    show ?thesis using assms(1) b n Woken by (auto simp: step_ok_def)
  next
    case (Returned b)
    then show ?thesis using assms(2) by simp
  qed
  then show "step_ok check fMaster q t q' t'" "cq_nTodo q' = 0 \<and> cq_nTodo q \<noteq> 0 \<and> \<not> fMaster \<Longrightarrow> notify" "notify \<Longrightarrow> cq_nTodo q' = 0"
    by blast+
qed

section \<open>The invariant\<close>

definition loop_threads :: "'a queue_state \<Rightarrow> 'a thread list" where
  "loop_threads s = (case qs_master s of In_loop t \<Rightarrow> t # qs_workers s | _ \<Rightarrow> qs_workers s)"

definition verdict :: "('a \<Rightarrow> bool) \<Rightarrow> 'a queue_state \<Rightarrow> bool" where
  "verdict check s \<longleftrightarrow> cq_fAllOk (qs_queue s) \<and> list_all check (cq_queue (qs_queue s)) \<and> list_all (fine check) (loop_threads s)"

fun round_ok :: "('a \<Rightarrow> bool) \<Rightarrow> 'a queue_state \<Rightarrow> 'a master \<Rightarrow> bool" where
  "round_ok check s No_control \<longleftrightarrow> cq_nTodo (qs_queue s) = 0 \<and> cq_fAllOk (qs_queue s)"
| "round_ok check s Assertion_failure \<longleftrightarrow> False"
| "round_ok check s (In_loop (Returned b)) \<longleftrightarrow>
     cq_nTodo (qs_queue s) = 0 \<and> cq_fAllOk (qs_queue s) \<and> b = list_all check (qs_added s)"
| "round_ok check s (In_loop Waiting) \<longleftrightarrow>
     cq_queue (qs_queue s) = [] \<and> cq_nTodo (qs_queue s) \<noteq> 0 \<and> verdict check s = list_all check (qs_added s)"
| "round_ok check s _ \<longleftrightarrow> verdict check s = list_all check (qs_added s)"

definition queue_inv :: "('a \<Rightarrow> bool) \<Rightarrow> 'a queue_state \<Rightarrow> bool" where
  "queue_inv check s \<longleftrightarrow> list_all thread_ok (loop_threads s) \<and> list_all active (qs_workers s)
     \<and> int (cq_nTodo (qs_queue s)) = int (length (cq_queue (qs_queue s))) + (\<Sum>t\<leftarrow>loop_threads s. int (busy t))
     \<and> cq_nIdle (qs_queue s) = (\<Sum>t\<leftarrow>loop_threads s. idle t) \<and> cq_nTotal (qs_queue s) = (\<Sum>t\<leftarrow>loop_threads s. entered t)
     \<and> round_ok check s (qs_master s)"

lemma idle_nonneg [simp]: "0 \<le> idle t"
  by (cases t) auto

lemma entered_nonneg [simp]: "0 \<le> entered t"
  by (cases t) auto

text \<open>A sum over the threads of a list, when one of them takes a step.\<close>

lemma sum_update:
  fixes f :: "'a \<Rightarrow> int"
  shows "i < length xs \<Longrightarrow> (\<Sum>x\<leftarrow>xs[i := y]. f x) = (\<Sum>x\<leftarrow>xs. f x) - f (xs ! i) + f y"
  by (induction xs arbitrary: i) (auto split: nat.split)

lemma sum_member:
  fixes f :: "'a \<Rightarrow> int"
  assumes "\<And>x. 0 \<le> f x" "x \<in> set xs"
  shows "f x \<le> (\<Sum>x\<leftarrow>xs. f x)"
proof -
  have "0 \<le> (\<Sum>x\<leftarrow>ys. f x)" for ys by (induction ys) (auto simp: assms(1))
  then show ?thesis using assms split_list [OF assms(2)] by fastforce
qed

lemma list_all_update: "i < length xs \<Longrightarrow> list_all P (xs[i := y]) \<and> P (xs ! i) \<longleftrightarrow> list_all P xs \<and> P y \<and> list_all P (xs[i := y])"
  by (induction xs arbitrary: i) (auto split: nat.split)

lemma list_all_split: "i < length xs \<Longrightarrow> list_all P xs \<longleftrightarrow> P (xs ! i) \<and> list_all P (take i xs @ drop (Suc i) xs)"
  by (subst id_take_nth_drop [of i xs]) auto

lemma take_drop_update: "take i (xs[i := y]) @ drop (Suc i) (xs[i := y]) = take i xs @ drop (Suc i) xs"
  by simp

text \<open>A step of the thread at position \<open>i\<close> of \<open>loop_threads\<close>, as it changes the counters and the verdict.\<close>

lemma thread_in_inv:
  assumes "queue_inv check s" "t \<in> set (loop_threads s)"
  shows "thread_ok t" "busy t \<le> cq_nTodo (qs_queue s)" "idle t \<le> cq_nIdle (qs_queue s)" "entered t \<le> cq_nTotal (qs_queue s)"
  using assms sum_member [of "\<lambda>t. int (busy t)" t "loop_threads s"] sum_member [of idle t "loop_threads s"]
    sum_member [of entered t "loop_threads s"]
  by (auto simp: queue_inv_def list_all_iff)

definition counters_ok :: "'a check_queue \<Rightarrow> 'a thread list \<Rightarrow> bool" where
  "counters_ok q ts \<longleftrightarrow> list_all thread_ok ts
     \<and> int (cq_nTodo q) = int (length (cq_queue q)) + (\<Sum>t\<leftarrow>ts. int (busy t))
     \<and> cq_nIdle q = (\<Sum>t\<leftarrow>ts. idle t) \<and> cq_nTotal q = (\<Sum>t\<leftarrow>ts. entered t)"

lemma queue_inv_alt:
  "queue_inv check s \<longleftrightarrow> counters_ok (qs_queue s) (loop_threads s) \<and> list_all active (qs_workers s) \<and> round_ok check s (qs_master s)"
  by (auto simp: queue_inv_def counters_ok_def)

abbreviation verdict_of :: "('a \<Rightarrow> bool) \<Rightarrow> 'a check_queue \<Rightarrow> 'a thread list \<Rightarrow> bool" where
  "verdict_of check q ts \<equiv> cq_fAllOk q \<and> list_all check (cq_queue q) \<and> list_all (fine check) ts"

lemma step_counters:
  assumes "counters_ok q ts" "i < length ts" "step_ok check fMaster q (ts ! i) q' t'"
  shows "counters_ok q' (ts[i := t'])"
    "active t' \<Longrightarrow> verdict_of check q' (ts[i := t']) = verdict_of check q ts"
proof -
  have ok: "list_all thread_ok (ts[i := t'])"
    using assms unfolding counters_ok_def step_ok_def
    by (metis list_all_length length_list_update nth_list_update)
  show "counters_ok q' (ts[i := t'])"
    using assms ok by (auto simp: counters_ok_def step_ok_def sum_update)
  show "verdict_of check q' (ts[i := t']) = verdict_of check q ts" if "active t'"
    using assms(2,3) that list_all_split [of i ts "fine check"] list_all_split [of i "ts[i := t']" "fine check"]
    unfolding step_ok_def take_drop_update by auto
qed

text \<open>When nothing is left to do, no thread has anything to report.\<close>

lemma nothing_left:
  assumes "counters_ok q ts" "cq_nTodo q = 0"
  shows "cq_queue q = []" "t \<in> set ts \<Longrightarrow> busy t = 0" "list_all (fine check) ts" "list_all active ts \<Longrightarrow> cq_nTotal q = cq_nIdle q"
proof -
  have nonneg: "0 \<le> (\<Sum>t\<leftarrow>ts. int (busy t))" by (intro sum_list_nonneg) auto
  then have sum: "(\<Sum>t\<leftarrow>ts. int (busy t)) = 0" "length (cq_queue q) = 0"
    using assms unfolding counters_ok_def by linarith+
  then show "cq_queue q = []" by simp
  show b: "busy t = 0" if "t \<in> set ts" for t
    using sum_member [of "\<lambda>t. int (busy t)", OF _ that] sum(1) by simp
  show "list_all (fine check) ts"
    unfolding list_all_iff
  proof
    fix t assume t: "t \<in> set ts"
    then have "thread_ok t" "busy t = 0" using assms(1) b by (auto simp: counters_ok_def list_all_iff)
    then show "fine check t" by (cases t) auto
  qed
  have "entered t = idle t" if "t \<in> set ts" "list_all active ts" for t
    using b [OF that(1)] that assms(1) by (cases t) (auto simp: list_all_iff counters_ok_def)
  then show "cq_nTotal q = cq_nIdle q" if "list_all active ts"
    using assms(1) that by (simp add: counters_ok_def cong: map_cong)
qed

section \<open>The invariant holds in every reachable state\<close>

lemma round_ok_active:
  assumes "active t" "t \<noteq> Waiting"
  shows "round_ok check s (In_loop t) \<longleftrightarrow> verdict check s = list_all check (qs_added s)"
  using assms by (cases t) auto

text \<open>Waking threads changes neither the counters nor the verdict.\<close>

lemma wake_same [simp]:
  "busy (wake t) = busy t" "idle (wake t) = idle t" "entered (wake t) = entered t" "fine check (wake t) = fine check t"
  "thread_ok (wake t) = thread_ok t" "active (wake t) = active t"
  by (simp_all add: wake_def)

lemma notified_wake:
  assumes "notified n ws ws'"
  shows "\<exists>bs. length bs = length ws \<and> ws' = map (\<lambda>(b, t). if b then wake t else t) (zip bs ws)"
proof -
  have keep: "map (\<lambda>(b, t). if b then wake t else t) (zip (replicate (length ws) False) ws) = ws"
    by (rule nth_equalityI) auto
  consider "ws' = ws" | i where "i < length ws" "ws ! i = Waiting" "ws' = ws[i := Woken]" | "ws' = map wake ws"
    using assms by (auto simp: notified_def split: if_splits)
  then show ?thesis
  proof cases
    case 1
    then show ?thesis using keep by (intro exI [of _ "replicate (length ws) False"]) simp
  next
    case (2 i)
    then show ?thesis
      by (intro exI [of _ "(replicate (length ws) False)[i := True]"] conjI nth_equalityI)
         (auto simp: nth_list_update wake_def)
  next
    case 3
    then show ?thesis
      by (intro exI [of _ "replicate (length ws) True"] conjI nth_equalityI) auto
  qed
qed

lemma notified_map:
  assumes "notified n ws ws'" "\<And>t. f (wake t) = f t"
  shows "map f ws' = map f ws"
proof -
  obtain bs where "length bs = length ws" "ws' = map (\<lambda>(b, t). if b then wake t else t) (zip bs ws)"
    using notified_wake [OF assms(1)] by blast
  then show ?thesis by (intro nth_equalityI) (auto simp: assms(2))
qed

lemma notified_all:
  assumes "notified n ws ws'" "\<And>t. P (wake t) = P t"
  shows "list_all P ws' = list_all P ws"
proof -
  have "list_all P xs = list_all id (map P xs)" for xs by (simp add: list.pred_map)
  then show ?thesis using notified_map [of n ws ws' P] assms by metis
qed

lemma notified_same:
  assumes "notified n ws ws'"
  shows "counters_ok q ws' = counters_ok q ws" "list_all (fine check) ws' = list_all (fine check) ws"
    "list_all active ws' = list_all active ws"
  using assms by (simp_all add: counters_ok_def notified_all notified_map)

lemma inv_master_step:
  assumes "queue_inv check s" "qs_master s = In_loop t" "active t"
    "thread_next nBatchSize check True (qs_queue s) t = (q, t', notify)"
  shows "queue_inv check (s\<lparr>qs_queue := q, qs_master := In_loop t'\<rparr>)"
proof -
  let ?ts = "t # qs_workers s" and ?s = "s\<lparr>qs_queue := q, qs_master := In_loop t'\<rparr>"
  have ts: "loop_threads s = ?ts" "loop_threads ?s = ?ts[0 := t']" using assms(2) by (simp_all add: loop_threads_def)
  have inv: "counters_ok (qs_queue s) ?ts" "list_all active (qs_workers s)" "round_ok check s (In_loop t)"
    using assms(1,2) ts by (simp_all add: queue_inv_alt)
  have ok: "step_ok check True (qs_queue s) t q t'"
    using thread_next_ok(1) [OF assms(4,3)] thread_in_inv [OF assms(1), of t] ts by simp
  note next_ok = step_counters [OF inv(1), of 0, simplified, OF ok]
  have verdict: "verdict_of check (qs_queue s) ?ts = list_all check (qs_added s)"
    using inv(3) assms(3) by (cases t) (auto simp: verdict_def ts)
  have "round_ok check ?s (In_loop t')"
  proof (cases "active t'")
    case True
    then have "verdict check ?s = list_all check (qs_added s)"
      using next_ok(2) verdict ts by (simp add: verdict_def)
    then show ?thesis
      using True ok by (cases "t' = Waiting") (auto simp: round_ok_active step_ok_def)
  next
    case False
    then have r: "cq_nTodo q = 0" "cq_fAllOk q" "cq_queue q = []"
      "t' = Returned (cq_fAllOk (qs_queue s) \<and> list_all check (cq_queue (qs_queue s)) \<and> fine check t)"
      using ok by (auto simp: step_ok_def)
    have "list_all (fine check) (t' # qs_workers s)"
      using nothing_left(3) [OF next_ok(1) r(1)] by simp
    then show ?thesis using r verdict by auto
  qed
  then show ?thesis using next_ok(1) inv(2) ts by (simp add: queue_inv_alt)
qed

lemma inv_worker_step:
  assumes "queue_inv check s" "i < length (qs_workers s)"
    "thread_next nBatchSize check False (qs_queue s) (qs_workers s ! i) = (q, t', notify)"
  shows "queue_inv check (s\<lparr>qs_queue := q, qs_workers := (qs_workers s)[i := t'], qs_master := notify_master notify (qs_master s)\<rparr>)"
    (is "queue_inv check ?s")
proof -
  let ?t = "qs_workers s ! i" and ?m = "qs_master s"
  let ?k = "case ?m of In_loop _ \<Rightarrow> Suc i | _ \<Rightarrow> i"
  let ?mid = "s\<lparr>qs_queue := q, qs_workers := (qs_workers s)[i := t']\<rparr>"
  have ts: "?k < length (loop_threads s)" "loop_threads s ! ?k = ?t" "loop_threads ?mid = (loop_threads s)[?k := t']"
    using assms(2) by (auto simp: loop_threads_def split: master.split)
  have inv: "counters_ok (qs_queue s) (loop_threads s)" "list_all active (qs_workers s)" "round_ok check s ?m"
    using assms(1) by (simp_all add: queue_inv_alt)
  have t: "active ?t" "?t \<in> set (loop_threads s)"
    using inv(2) assms(2) nth_mem [OF ts(1)] unfolding ts(2) by (simp_all add: list_all_length)
  note next_t = thread_next_ok [OF assms(3) t(1) thread_in_inv [OF assms(1) t(2)]]
  have ok: "step_ok check False (qs_queue s) ?t q t'" by (rule next_t(1))
  then have act: "active t'" by (auto simp: step_ok_def split: if_splits)
  note next_ok = step_counters [OF inv(1) ts(1), unfolded ts(2), OF ok]
  have "list_all thread_ok (loop_threads ?mid)" using next_ok(1) ts(3) by (simp add: counters_ok_def)
  have workers: "list_all active (qs_workers ?mid)"
    using inv(2) act assms(2) by (auto simp: list_all_length nth_list_update)
  have verdict: "verdict check ?mid = verdict check s"
    using next_ok(2) [OF act] ts(3) by (simp add: verdict_def)
  have zero: "cq_nTodo q = 0" if "cq_nTodo (qs_queue s) = 0"
    using that thread_in_inv(2) [OF assms(1) t(2)] ok nothing_left(1) [OF inv(1) that] by (auto simp: step_ok_def)
  have fAll: "cq_fAllOk q" if "cq_nTodo (qs_queue s) = 0" "cq_fAllOk (qs_queue s)"
    using next_ok(2) [OF act] that nothing_left(1,3) [OF inv(1) that(1)] by auto
  have "round_ok check ?s (notify_master notify ?m)"
  proof (cases "?m = In_loop Waiting")
    case True
    then have r: "cq_queue (qs_queue s) = []" "cq_nTodo (qs_queue s) \<noteq> 0" "verdict check s = list_all check (qs_added s)"
      using inv(3) by simp_all
    have ts': "loop_threads ?s = (if notify then Woken else Waiting) # (qs_workers s)[i := t']"
      "loop_threads ?mid = Waiting # (qs_workers s)[i := t']"
      using True by (simp_all add: loop_threads_def notify_master_def)
    have "verdict check ?s = list_all check (qs_added s)"
      using r(3) verdict by (simp add: verdict_def ts')
    moreover have "cq_queue q = []" using ok r(1) by (simp add: step_ok_def)
    moreover have "cq_nTodo q \<noteq> 0" if "\<not> notify" using next_t(2) r(2) that by auto
    ultimately show ?thesis using True by (cases notify) (simp_all add: notify_master_def)
  next
    case False
    then have m: "notify_master notify ?m = ?m" "loop_threads ?s = loop_threads ?mid"
      by (simp_all add: notify_master_def loop_threads_def)
    then have v: "verdict check ?s = verdict check s" using verdict by (simp add: verdict_def)
    have "round_ok check ?s ?m"
      using inv(3) v zero fAll False
      by (cases "(check, s, ?m)" rule: round_ok.cases) simp_all
    then show ?thesis using m(1) by simp
  qed
  moreover have "counters_ok q (loop_threads ?s)"
  proof (cases "notify \<and> ?m = In_loop Waiting")
    case True
    then show ?thesis using next_ok(1) ts(3) by (simp add: loop_threads_def notify_master_def counters_ok_def)
  next
    case False
    then have "loop_threads ?s = loop_threads ?mid" by (auto simp: loop_threads_def notify_master_def split: master.split)
    then show ?thesis using next_ok(1) ts(3) by simp
  qed
  ultimately show ?thesis using workers by (simp add: queue_inv_alt)
qed

lemma queue_step_inv:
  assumes "queue_step nBatchSize check s s'" "queue_inv check s"
  shows "queue_inv check s'"
  using assms
proof (induction rule: queue_step.induct)
  case (start_worker s)
  then have "round_ok check (s\<lparr>qs_workers := qs_workers s @ [At_lock 0 True]\<rparr>) (qs_master s)"
    by (cases "(check, s, qs_master s)" rule: round_ok.cases)
       (auto simp: queue_inv_alt verdict_def loop_threads_def)
  then show ?case using start_worker
    by (auto simp: queue_inv_alt counters_ok_def loop_threads_def split: master.splits)
next
  case (construct s b)
  let ?s = "s\<lparr>qs_master := Adding, qs_added := []\<rparr>"
  have todo: "cq_nTodo (qs_queue s) = 0" "cq_fAllOk (qs_queue s)" and ts: "loop_threads ?s = qs_workers s"
    using construct by (auto simp: queue_inv_alt loop_threads_def)
  have count: "counters_ok (qs_queue s) (qs_workers s)" "list_all active (qs_workers s)"
    using construct by (auto simp: queue_inv_alt loop_threads_def counters_ok_def)
  note left = nothing_left [OF count(1) todo(1)]
  have "IsIdle (qs_queue s)" using todo left(4) [OF count(2)] by (simp add: IsIdle_def)
  moreover have "queue_inv check ?s"
    using count todo left(1,3) ts by (simp add: queue_inv_alt verdict_def)
  ultimately show ?case by simp
next
  case (add s vChecks ws)
  have "counters_ok (queue_Add (qs_queue s) vChecks) ts = counters_ok (qs_queue s) ts" for ts
    by (auto simp: counters_ok_def queue_Add_def)
  then show ?case
    using add notified_same [OF add(2)]
    by (auto simp: queue_inv_alt loop_threads_def verdict_def) (auto simp: queue_Add_def)
next
  case (begin_wait s)
  then show ?case by (auto simp: queue_inv_alt counters_ok_def loop_threads_def verdict_def)
next
  case (master s t q t' notify)
  then show ?case by (intro inv_master_step) (simp_all add: active_iff)
next
  case (worker i s q t' notify)
  then show ?case by (intro inv_worker_step) simp_all
qed

lemma queue_inv_reachable:
  assumes "queue_reaches nBatchSize check queue_init s"
  shows "queue_inv check s"
  using assms
proof (induction rule: rtranclp_induct)
  case base
  show ?case by (simp add: queue_inv_alt queue_init_def new_check_queue_def counters_ok_def loop_threads_def)
next
  case (step s s')
  then show ?case by (blast intro: queue_step_inv)
qed

section \<open>\<open>Wait\<close> returns\<close>

fun weight :: "'a thread \<Rightarrow> nat" where
  "weight (At_lock nNow fOk) = 3"
| "weight (Working vChecks fOk) = 4"
| "weight Woken = 1"
| "weight _ = 0"

definition work_left :: "'a queue_state \<Rightarrow> nat" where
  "work_left s = 5 * length (cq_queue (qs_queue s)) + (\<Sum>t\<leftarrow>loop_threads s. weight t)"

lemma next_batch_weight:
  assumes "next_batch nBatchSize fMaster q = (q', t')" "0 \<le> cq_nTotal q + cq_nIdle q"
  shows "5 * length (cq_queue q') + weight t' < 5 * length (cq_queue q) + 1"
proof (cases "cq_queue q = []")
  case True
  then show ?thesis using assms(1) by (auto simp: next_batch_def split: if_splits)
next
  case False
  then show ?thesis
    using assms(1) batch_size_bounds [OF False assms(2), of nBatchSize] by (auto simp: next_batch_def Let_def)
qed

lemma thread_next_weight:
  assumes "thread_next nBatchSize check fMaster q t = (q', t', notify)" "active t" "t \<noteq> Waiting"
    "idle t \<le> cq_nIdle q" "entered t \<le> cq_nTotal q"
  shows "5 * length (cq_queue q') + weight t' + of_bool notify < 5 * length (cq_queue q) + weight t"
proof (cases t)
  case (At_lock nNow fOk)
  obtain q1 n1 where c: "clean_up fMaster nNow fOk q = (q1, n1)" by fastforce
  have "0 \<le> cq_nTotal q1 + cq_nIdle q1" "cq_queue q1 = cq_queue q"
    using c assms(4,5) At_lock by (auto simp: clean_up_def split: if_splits)
  then show ?thesis
    using assms(1) c next_batch_weight [of nBatchSize fMaster q1 q' t'] At_lock by (auto split: prod.splits)
next
  case Woken
  then show ?thesis
    using assms(1,4,5) next_batch_weight [of nBatchSize fMaster "q\<lparr>cq_nIdle := cq_nIdle q - 1\<rparr>" q' t']
    by (auto split: prod.splits)
qed (use assms in auto)

lemma sum_update_nat:
  fixes f :: "'a \<Rightarrow> nat"
  shows "i < length xs \<Longrightarrow> (\<Sum>x\<leftarrow>xs[i := y]. f x) + f (xs ! i) = (\<Sum>x\<leftarrow>xs. f x) + f y"
  by (induction xs arbitrary: i) (auto split: nat.split)

lemma sum_zero:
  fixes f :: "'a \<Rightarrow> int"
  shows "list_all (\<lambda>x. f x = 0) xs \<Longrightarrow> (\<Sum>x\<leftarrow>xs. f x) = 0"
  by (induction xs) auto

lemma queue_run_step: "queue_run nBatchSize check s s' \<Longrightarrow> queue_step nBatchSize check s s'"
  by (induction rule: queue_run.induct) (auto intro: queue_step.master queue_step.worker simp: active_iff)

lemma queue_run_added: "queue_run nBatchSize check s s' \<Longrightarrow> qs_added s' = qs_added s"
  by (induction rule: queue_run.induct) auto

lemma queue_run_in_loop:
  "queue_run nBatchSize check s s' \<Longrightarrow> qs_master s = In_loop t \<Longrightarrow> \<exists>t'. qs_master s' = In_loop t'"
  by (induction rule: queue_run.induct) (auto simp: notify_master_def)

lemma notify_master_weight:
  "(\<Sum>t\<leftarrow>loop_threads (s\<lparr>qs_queue := q, qs_workers := ws, qs_master := notify_master notify (qs_master s)\<rparr>). weight t) \<le>
   (\<Sum>t\<leftarrow>loop_threads (s\<lparr>qs_workers := ws\<rparr>). weight t) + of_bool notify"
  by (auto simp: loop_threads_def notify_master_def split: master.splits)

lemma loop_threads_workers:
  "(\<Sum>t\<leftarrow>loop_threads (s\<lparr>qs_workers := ws\<rparr>). weight t) + (\<Sum>t\<leftarrow>qs_workers s. weight t) =
   (\<Sum>t\<leftarrow>loop_threads s. weight t) + (\<Sum>t\<leftarrow>ws. weight t)"
  by (auto simp: loop_threads_def split: master.splits)

lemma queue_run_work_left:
  assumes "queue_run nBatchSize check s s'" "queue_inv check s"
  shows "work_left s' < work_left s"
  using assms
proof (induction rule: queue_run.induct)
  case (run_master s t q t' notify)
  then show ?case
    using thread_next_weight [OF run_master(4,2,3)] thread_in_inv [OF run_master(5), of t]
    by (simp add: work_left_def loop_threads_def)
next
  case (run_worker i s q t' notify)
  let ?t = "qs_workers s ! i" and ?ws = "(qs_workers s)[i := t']"
  have "?t \<in> set (loop_threads s)" using run_worker(1) by (auto simp: loop_threads_def split: master.splits)
  then have "5 * length (cq_queue q) + weight t' + of_bool notify < 5 * length (cq_queue (qs_queue s)) + weight ?t"
    using thread_next_weight [OF run_worker(4,2,3)] thread_in_inv [OF run_worker(5)] by simp
  then show ?case
    using notify_master_weight [where s = s and q = q and ws = ?ws and notify = notify]
      loop_threads_workers [where s = s and ws = ?ws]
      sum_update_nat [OF run_worker(1), where f = weight and y = t']
    by (simp add: work_left_def)
qed

lemma queue_run_steps:
  assumes "(queue_run nBatchSize check ^^ n) s s'" "queue_inv check s" "qs_master s = In_loop t"
  shows "work_left s' + n \<le> work_left s" "queue_inv check s'" "qs_added s' = qs_added s" "\<exists>t'. qs_master s' = In_loop t'"
proof -
  have "work_left s' + n \<le> work_left s \<and> queue_inv check s' \<and> qs_added s' = qs_added s \<and> (\<exists>t'. qs_master s' = In_loop t')"
    using assms(1)
  proof (induction n arbitrary: s')
    case 0
    then show ?case using assms by simp
  next
    case (Suc n)
    then obtain u where u: "(queue_run nBatchSize check ^^ n) s u" "queue_run nBatchSize check u s'" by auto
    note IH = Suc.IH [OF u(1)]
    have "work_left s' < work_left u" using queue_run_work_left [OF u(2)] IH by blast
    moreover have "queue_inv check s'" using queue_step_inv [OF queue_run_step [OF u(2)]] IH by blast
    moreover have "\<exists>t'. qs_master s' = In_loop t'" using queue_run_in_loop [OF u(2)] IH by blast
    ultimately show ?case using IH queue_run_added [OF u(2)] by simp
  qed
  then show "work_left s' + n \<le> work_left s" "queue_inv check s'" "qs_added s' = qs_added s" "\<exists>t'. qs_master s' = In_loop t'"
    by blast+
qed

text \<open>A master that has not returned can take a step itself, or some worker has a batch for it.\<close>

lemma master_not_stuck:
  assumes "queue_inv check s" "qs_master s = In_loop t" "active t"
  shows "\<exists>s'. queue_run nBatchSize check s s'"
proof (cases "t = Waiting")
  case False
  then show ?thesis using assms(2,3) queue_run.run_master [of s t nBatchSize check] by (metis prod_cases3)
next
  case True
  then have "cq_queue (qs_queue s) = []" "cq_nTodo (qs_queue s) \<noteq> 0" using assms(1,2) by (simp_all add: queue_inv_def)
  then have "(\<Sum>t\<leftarrow>qs_workers s. int (busy t)) \<noteq> 0" using assms(1,2) True by (simp add: queue_inv_def loop_threads_def)
  then have "\<not> list_all (\<lambda>t. busy t = 0) (qs_workers s)"
    using sum_zero [of "\<lambda>t. int (busy t)" "qs_workers s"] by auto
  then obtain i where i: "i < length (qs_workers s)" "busy (qs_workers s ! i) \<noteq> 0"
    by (auto simp: list_all_length)
  have "active (qs_workers s ! i)" "qs_workers s ! i \<noteq> Waiting" using i(2) by (auto simp: active_iff)
  then show ?thesis using i(1) queue_run.run_worker [of i s nBatchSize check] by (metis prod_cases3)
qed

lemma master_finishes:
  assumes "queue_inv check s" "qs_master s = In_loop t" "\<nexists>s'. queue_run nBatchSize check s s'"
  shows "qs_master s = In_loop (Returned (list_all check (qs_added s)))"
proof -
  have "\<not> active t" using master_not_stuck [OF assms(1,2)] assms(3) by blast
  then obtain b where "t = Returned b" by (auto simp: active_iff)
  then show ?thesis using assms(1,2) by (auto simp: queue_inv_def)
qed

section \<open>Properties\<close>

text \<open>
  C5: The queue of script checks gives the right answer under every interleaving.  Whatever
  number of workers there is, however the threads interleave and are woken up, and however
  many rounds came before: when \<open>Wait\<close> returns, it returns whether all checks that were added
  since the control object was constructed succeed, and at that time none of them is left
  in the queue or in the batch of a worker.  The assertion of the constructor, that the queue
  is idle, never fails.
\<close>

theorem CheckQueue_Wait_correct:
  assumes "queue_reaches nBatchSize check queue_init s"
  shows "qs_master s \<noteq> Assertion_failure
    \<and> (\<forall>b. qs_master s = In_loop (Returned b) \<longrightarrow>
        b = list_all check (qs_added s) \<and> cq_queue (qs_queue s) = [] \<and> cq_nTodo (qs_queue s) = 0
        \<and> list_all (\<lambda>t. busy t = 0) (qs_workers s) \<and> IsIdle (qs_queue s))"
proof (intro conjI allI impI)
  have inv: "queue_inv check s" by (rule queue_inv_reachable [OF assms])
  then show "qs_master s \<noteq> Assertion_failure" by (auto simp: queue_inv_def)
  fix b assume m: "qs_master s = In_loop (Returned b)"
  then have todo: "cq_nTodo (qs_queue s) = 0" "cq_fAllOk (qs_queue s)" "b = list_all check (qs_added s)"
    and count: "counters_ok (qs_queue s) (qs_workers s)" "list_all active (qs_workers s)"
    using inv by (auto simp: queue_inv_alt loop_threads_def counters_ok_def)
  note left = nothing_left [OF count(1) todo(1)]
  show "b = list_all check (qs_added s)" "cq_nTodo (qs_queue s) = 0" by (rule todo)+
  show "cq_queue (qs_queue s) = []" by (rule left)
  show "list_all (\<lambda>t. busy t = 0) (qs_workers s)" using left(2) by (simp add: list_all_iff)
  show "IsIdle (qs_queue s)" using todo left(4) [OF count(2)] by (simp add: IsIdle_def)
qed

text \<open>
  A round with one worker and two checks: the worker sleeps, is woken by \<open>Add\<close> and takes a
  batch, the master takes the other check and waits for the worker.
\<close>

definition witness_queue :: "bool list \<Rightarrow> int \<Rightarrow> int \<Rightarrow> bool \<Rightarrow> nat \<Rightarrow> bool master \<Rightarrow> bool thread \<Rightarrow> bool list \<Rightarrow> bool queue_state" where
  "witness_queue q nIdle nTotal fAllOk nTodo m w a =
     \<lparr>qs_queue = \<lparr>cq_queue = q, cq_nIdle = nIdle, cq_nTotal = nTotal, cq_fAllOk = fAllOk, cq_nTodo = nTodo\<rparr>,
      qs_master = m, qs_workers = [w], qs_added = a\<rparr>"

lemma witness_master:
  assumes "thread_next 128 (\<lambda>b. b) True \<lparr>cq_queue = q, cq_nIdle = i, cq_nTotal = n, cq_fAllOk = f, cq_nTodo = k\<rparr> t =
      (\<lparr>cq_queue = q', cq_nIdle = i', cq_nTotal = n', cq_fAllOk = f', cq_nTodo = k'\<rparr>, t', notify)" "active t"
  shows "queue_step 128 (\<lambda>b. b) (witness_queue q i n f k (In_loop t) w a) (witness_queue q' i' n' f' k' (In_loop t') w a)"
  using queue_step.master [of "witness_queue q i n f k (In_loop t) w a" t 128 "\<lambda>b. b"] assms
  by (auto simp: witness_queue_def active_iff)

lemma witness_worker:
  assumes "thread_next 128 (\<lambda>b. b) False \<lparr>cq_queue = q, cq_nIdle = i, cq_nTotal = n, cq_fAllOk = f, cq_nTodo = k\<rparr> w =
      (\<lparr>cq_queue = q', cq_nIdle = i', cq_nTotal = n', cq_fAllOk = f', cq_nTodo = k'\<rparr>, w', notify)"
  shows "queue_step 128 (\<lambda>b. b) (witness_queue q i n f k m w a) (witness_queue q' i' n' f' k' (notify_master notify m) w' a)"
  using queue_step.worker [of 0 "witness_queue q i n f k m w a" 128 "\<lambda>b. b"] assms
  by (auto simp: witness_queue_def)

lemmas witness_next = clean_up_def next_batch_def batch_size_def notify_master_def

lemma witness_adding: "queue_reaches 128 (\<lambda>b. b) queue_init (witness_queue [True, False] 1 1 True 2 Adding Woken [True, False])"
proof -
  have 1: "queue_step 128 (\<lambda>b. b) queue_init (witness_queue [] 0 0 True 0 No_control (At_lock 0 True) [])"
    using queue_step.start_worker [of 128 "\<lambda>b. b" queue_init] by (simp add: queue_init_def new_check_queue_def witness_queue_def)
  have 2: "queue_step 128 (\<lambda>b. b) (witness_queue [] 0 0 True 0 No_control (At_lock 0 True) []) (witness_queue [] 1 1 True 0 No_control Waiting [])"
    using witness_worker [of "[]" 0 0 True 0 "At_lock 0 True" "[]" 1 1 True 0 Waiting False] by (simp add: witness_next)
  have 3: "queue_step 128 (\<lambda>b. b) (witness_queue [] 1 1 True 0 No_control Waiting []) (witness_queue [] 1 1 True 0 Adding Waiting [])"
    using queue_step.construct [of "witness_queue [] 1 1 True 0 No_control Waiting []" _ 128 "\<lambda>b. b"]
    by (simp add: witness_queue_def IsIdle_def)
  have 4: "queue_step 128 (\<lambda>b. b) (witness_queue [] 1 1 True 0 Adding Waiting []) (witness_queue [True, False] 1 1 True 2 Adding Woken [True, False])"
    using queue_step.add [of "witness_queue [] 1 1 True 0 Adding Waiting []" "[True, False]" "[Woken]" 128 "\<lambda>b. b"]
    by (simp add: witness_queue_def notified_def wake_def queue_Add_def numeral_2_eq_2)
  from 1 2 3 4 show ?thesis by (meson rtranclp.intros)
qed

lemma witness_waiting:
  "queue_reaches 128 (\<lambda>b. b) queue_init (witness_queue [] 1 2 True 1 (In_loop Waiting) (At_lock 1 False) [True, False])"
proof -
  let ?w = "\<lambda>q i n f k m w. witness_queue q i n f k m w [True, False]"
  let ?step = "queue_step 128 (\<lambda>b. b)"
  have 1: "?step (?w [True, False] 1 1 True 2 Adding Woken) (?w [True, False] 1 1 True 2 (In_loop (At_lock 0 True)) Woken)"
    using queue_step.begin_wait [of "?w [True, False] 1 1 True 2 Adding Woken" 128 "\<lambda>b. b"] by (simp add: witness_queue_def)
  have 2: "?step (?w [True, False] 1 1 True 2 (In_loop (At_lock 0 True)) Woken)
      (?w [True] 0 1 True 2 (In_loop (At_lock 0 True)) (Working [False] True))"
    using witness_worker [of "[True, False]" 1 1 True 2 Woken "[True]" 0 1 True 2 "Working [False] True" False]
    by (simp add: witness_next)
  have 3: "?step (?w [True] 0 1 True 2 (In_loop (At_lock 0 True)) (Working [False] True))
      (?w [] 0 2 True 2 (In_loop (Working [True] True)) (Working [False] True))"
    by (rule witness_master [where notify = False]) (simp_all add: witness_next)
  have 4: "?step (?w [] 0 2 True 2 (In_loop (Working [True] True)) (Working [False] True))
      (?w [] 0 2 True 2 (In_loop (At_lock 1 True)) (Working [False] True))"
    by (rule witness_master [where notify = False]) simp_all
  have 5: "?step (?w [] 0 2 True 2 (In_loop (At_lock 1 True)) (Working [False] True))
      (?w [] 1 2 True 1 (In_loop Waiting) (Working [False] True))"
    by (rule witness_master [where notify = False]) (simp_all add: witness_next)
  have 6: "?step (?w [] 1 2 True 1 (In_loop Waiting) (Working [False] True)) (?w [] 1 2 True 1 (In_loop Waiting) (At_lock 1 False))"
    using witness_worker [of "[]" 1 2 True 1 "Working [False] True" "[]" 1 2 True 1 "At_lock 1 False" False]
    by (simp add: notify_master_def)
  show ?thesis using witness_adding 1 2 3 4 5 6 by (meson rtranclp.intros)
qed

lemma witness_woken:
  "queue_run 128 (\<lambda>b. b) (witness_queue [] 1 2 True 1 (In_loop Waiting) (At_lock 1 False) a)
     (witness_queue [] 2 2 False 0 (In_loop Woken) Waiting a)"
  using queue_run.run_worker [of 0 "witness_queue [] 1 2 True 1 (In_loop Waiting) (At_lock 1 False) a" 128 "\<lambda>b. b"]
  by (simp add: witness_queue_def witness_next)

lemma witness_returned:
  "queue_run 128 (\<lambda>b. b) (witness_queue [] 2 2 False 0 (In_loop Woken) Waiting a)
     (witness_queue [] 1 1 True 0 (In_loop (Returned False)) Waiting a)"
  using queue_run.run_master [of "witness_queue [] 2 2 False 0 (In_loop Woken) Waiting a" Woken 128 "\<lambda>b. b"
      _ _ False]
  by (simp add: witness_queue_def witness_next)

theorem CheckQueue_Wait_correct_witness:
  "\<exists>s. queue_reaches 128 (\<lambda>b. b) queue_init s \<and> qs_master s = In_loop (Returned False) \<and> qs_added s = [True, False]
    \<and> cq_queue (qs_queue s) = []"
proof -
  let ?s = "witness_queue [] 1 1 True 0 (In_loop (Returned False)) Waiting [True, False]"
  have "queue_reaches 128 (\<lambda>b. b) queue_init ?s"
    using witness_waiting queue_run_step [OF witness_woken] queue_run_step [OF witness_returned]
    by (meson rtranclp.intros)
  from CheckQueue_Wait_correct [OF this] this show ?thesis
    by (intro exI [of _ ?s]) (simp add: witness_queue_def)
qed

text \<open>
  C7: \<open>Wait\<close> returns, without help from spurious wake-ups, new workers or further additions.
  From every reachable state in which the master is in \<open>Wait\<close>, the threads that are not asleep
  can take only finitely many steps, at most \<open>work_left\<close> in whatever order, and when none of
  them can take a step any more, the master has returned whether all added checks succeed.
  In particular the master never stays asleep once the work is done: the notification of
  the last worker reaches it.
\<close>

theorem CheckQueue_Wait_returns:
  assumes "queue_reaches nBatchSize check queue_init s" "qs_master s = In_loop t"
    "(queue_run nBatchSize check ^^ n) s s'"
  shows "n \<le> work_left s
    \<and> ((\<exists>s''. queue_run nBatchSize check s' s'') \<or> qs_master s' = In_loop (Returned (list_all check (qs_added s))))"
proof
  note steps = queue_run_steps [OF assms(3) queue_inv_reachable [OF assms(1)] assms(2)]
  show "n \<le> work_left s" using steps(1) by simp
  show "(\<exists>s''. queue_run nBatchSize check s' s'') \<or> qs_master s' = In_loop (Returned (list_all check (qs_added s)))"
    using master_finishes [OF steps(2)] steps(3,4) by metis
qed

text \<open>
  The master sleeps and the worker comes back with the last batch: one step wakes the master
  up, one more ends \<open>Wait\<close>.  Nothing else can happen.
\<close>

theorem CheckQueue_Wait_returns_witness:
  "\<exists>s s'. queue_reaches 128 (\<lambda>b. b) queue_init s \<and> qs_master s = In_loop Waiting \<and> qs_added s = [True, False]
    \<and> (queue_run 128 (\<lambda>b. b) ^^ 2) s s' \<and> 2 \<le> work_left s \<and> qs_master s' = In_loop (Returned False)"
proof -
  let ?s = "witness_queue [] 1 2 True 1 (In_loop Waiting) (At_lock 1 False) [True, False]"
  let ?s' = "witness_queue [] 1 1 True 0 (In_loop (Returned False)) Waiting [True, False]"
  have run: "(queue_run 128 (\<lambda>b. b) ^^ 2) ?s ?s'"
    using witness_woken [of "[True, False]"] witness_returned [of "[True, False]"] by (auto simp: numeral_2_eq_2)
  have master: "qs_master ?s = In_loop Waiting" by (simp add: witness_queue_def)
  have "\<not> queue_run 128 (\<lambda>b. b) ?s' u" for u
    by (auto simp: witness_queue_def elim!: queue_run.cases)
  then have "2 \<le> work_left ?s \<and> qs_master ?s' = In_loop (Returned False)"
    using CheckQueue_Wait_returns [OF witness_waiting master run] by (simp add: witness_queue_def)
  then show ?thesis using run master witness_waiting by (intro exI [of _ ?s] exI [of _ ?s']) (simp add: witness_queue_def)
qed

end
