(* ===== verification/ScriptNum.thy ===== *)
theory ScriptNum
  imports Serialize
begin

unbundle bit_operations_syntax

text \<open>
  \<open>CScriptNum\<close> of \<^verbatim>\<open>src/src/script/script.h\<close>: the numbers of the script language.  A number is
  kept as an \<open>int64_t\<close>, here a 64-bit word compared by its signed value, and is written as
  the bytes of its magnitude with the sign in the top bit of the last byte.

  \<open>num_value\<close> is the integer an encoding stands for.  The lemmas show that \<open>set_vch\<close> computes
  it, that \<open>serialize\<close> writes the one minimal encoding of a number, and that the constructor
  with the minimality check accepts nothing else; that sums and differences of numbers in
  the 4-byte range are exact and never fail an assertion.
\<close>

type_synonym int64 = "64 word"

section \<open>Encoding and decoding\<close>

datatype scriptnum_error = Script_number_overflow | Non_minimally_encoded

definition nDefaultMaxNumSize :: nat where
  "nDefaultMaxNumSize = 4"

fun set_vch_loop :: "bytes \<Rightarrow> nat \<Rightarrow> int64 \<Rightarrow> int64" where
  "set_vch_loop [] i result = result"
| "set_vch_loop (b # vch) i result = set_vch_loop vch (i + 1) (result OR push_bit (8 * i) (ucast b))"

definition set_vch :: "bytes \<Rightarrow> int64" where
  "set_vch vch =
     (if vch = [] then 0
      else let result = set_vch_loop vch 0 0
           in if last vch AND 0x80 \<noteq> 0
              then - (result AND NOT (push_bit (8 * (length vch - 1)) 0x80))
              else result)"

definition CScriptNum :: "bytes \<Rightarrow> bool \<Rightarrow> nat \<Rightarrow> scriptnum_error + int64" where
  "CScriptNum vch fRequireMinimal nMaxNumSize =
     (if length vch > nMaxNumSize then Inl Script_number_overflow
      else if fRequireMinimal \<and> length vch > 0 \<and> last vch AND 0x7f = 0
          \<and> (length vch \<le> 1 \<or> vch ! (length vch - 2) AND 0x80 = 0)
        then Inl Non_minimally_encoded
      else Inr (set_vch vch))"

definition getint :: "int64 \<Rightarrow> int" where
  "getint m_value =
     (if sint m_value > 2 ^ 31 - 1 then 2 ^ 31 - 1
      else if sint m_value < - (2 ^ 31) then - (2 ^ 31)
      else sint m_value)"

lemma drop8_less: "v \<noteq> 0 \<Longrightarrow> unat (drop_bit 8 (v :: u64)) < unat v"
proof -
  assume "v \<noteq> 0"
  then have "0 < unat v" by (simp add: unat_gt_0)
  moreover have "unat (drop_bit 8 v) = unat v div 256"
    by (simp add: drop_bit_eq_div unat_div)
  ultimately show ?thesis by simp
qed

function serialize_loop :: "u64 \<Rightarrow> bytes \<Rightarrow> bytes" where
  "serialize_loop absvalue result =
     (if absvalue = 0 then result
      else serialize_loop (drop_bit 8 absvalue) (result @ [ucast (absvalue AND 0xff)]))"
  by pat_completeness auto
termination
  by (relation "measure (\<lambda>(v, _). unat v)") (auto intro: drop8_less)

declare serialize_loop.simps [simp del]

definition serialize :: "int64 \<Rightarrow> bytes" where
  "serialize value =
     (if value = 0 then []
      else let neg = sint value < 0;
               absvalue = (if neg then - value else value);
               result = serialize_loop absvalue []
           in if last result AND 0x80 \<noteq> 0 then result @ [if neg then 0x80 else 0]
              else if neg then butlast result @ [last result OR 0x80]
              else result)"

definition getvch :: "int64 \<Rightarrow> bytes" where
  "getvch m_value = serialize m_value"

text \<open>The arithmetic operators; \<open>None\<close> is a failed assertion.\<close>

definition num_add :: "int64 \<Rightarrow> int64 \<Rightarrow> int64" where
  "num_add m_value rhs = m_value + rhs"

definition num_sub :: "int64 \<Rightarrow> int64 \<Rightarrow> int64" where
  "num_sub m_value rhs = m_value - rhs"

definition num_neg :: "int64 \<Rightarrow> int64 option" where
  "num_neg m_value = (if sint m_value \<noteq> - (2 ^ 63) then Some (- m_value) else None)"

definition num_add_assign :: "int64 \<Rightarrow> int64 \<Rightarrow> int64 option" where
  "num_add_assign m_value rhs =
     (if sint rhs = 0 \<or> (sint rhs > 0 \<and> sint m_value \<le> (2 ^ 63 - 1) - sint rhs)
          \<or> (sint rhs < 0 \<and> sint m_value \<ge> - (2 ^ 63) - sint rhs)
      then Some (m_value + rhs) else None)"

definition num_sub_assign :: "int64 \<Rightarrow> int64 \<Rightarrow> int64 option" where
  "num_sub_assign m_value rhs =
     (if sint rhs = 0 \<or> (sint rhs > 0 \<and> sint m_value \<ge> - (2 ^ 63) + sint rhs)
          \<or> (sint rhs < 0 \<and> sint m_value \<le> (2 ^ 63 - 1) + sint rhs)
      then Some (m_value - rhs) else None)"

section \<open>The integer an encoding stands for\<close>

definition num_value :: "bytes \<Rightarrow> int" where
  "num_value vch =
     (if vch = [] then 0
      else (if last vch AND 0x80 \<noteq> 0 then - 1 else 1) * int (le_nat (butlast vch @ [last vch AND 0x7f])))"

definition minimal :: "bytes \<Rightarrow> bool" where
  "minimal vch \<longleftrightarrow> \<not> (length vch > 0 \<and> last vch AND 0x7f = 0
     \<and> (length vch \<le> 1 \<or> vch ! (length vch - 2) AND 0x80 = 0))"

lemma byte_and_7F: "unat (b AND 0x7f :: byte) = unat b mod 128"
  using unsigned_take_bit_eq [of 7 b] by (simp add: and_7F take_bit_eq_mod)

lemma bit_0x80: "bit (0x80 :: byte) n \<longleftrightarrow> n = 7"
proof -
  have "(0x80 :: byte) = 2 ^ 7" by simp
  then show ?thesis by (auto simp only: bit_exp_iff possible_bit_word) simp
qed

lemma bit_0x80_64: "bit (0x80 :: int64) n \<longleftrightarrow> n = 7"
proof -
  have "(0x80 :: int64) = 2 ^ 7" by simp
  then show ?thesis by (auto simp only: bit_exp_iff possible_bit_word) simp
qed

lemma byte_and_80: "(b :: byte) AND 0x80 \<noteq> 0 \<longleftrightarrow> 128 \<le> unat b"
proof -
  have e: "(0x80 :: byte) = 2 ^ 7" by simp
  have "bit b 7 \<longleftrightarrow> bit (unat b) 7" by (simp add: bit_unsigned_iff)
  also have "\<dots> \<longleftrightarrow> odd (unat b div 128)" by (simp add: bit_iff_odd)
  also have "\<dots> \<longleftrightarrow> 128 \<le> unat b"
  proof -
    have "unat b div 128 < 2" using unat_byte_less [of b] by linarith
    then have "unat b div 128 = 0 \<or> unat b div 128 = 1" by linarith
    then show ?thesis using unat_byte_less [of b] by (auto simp: div_eq_0_iff)
  qed
  finally show ?thesis unfolding e and_exp_eq_0_iff_not_bit by simp
qed

lemma byte_split_sign: "(b :: byte) AND 0x80 \<noteq> 0 \<Longrightarrow> (b AND 0x7f) OR 0x80 = b"
proof -
  assume "b AND 0x80 \<noteq> 0"
  then have b: "bit b 7"
    using and_exp_eq_0_iff_not_bit [of b 7] by simp
  obtain s :: byte where s: "s = 0x80" "bit s n \<longleftrightarrow> n = 7" for n
    using bit_0x80 by blast
  have "take_bit 7 b OR s = b"
    using b by (intro bit_word_eqI) (auto simp: bit_or_iff bit_take_bit_iff s(2))
  then show ?thesis unfolding and_7F s(1) .
qed

lemma byte_positive: "(b :: byte) AND 0x80 = 0 \<Longrightarrow> b AND 0x7f = b"
  using byte_and_80 [of b] by (simp add: word_unat_eq_iff byte_and_7F)

lemma byte_low_sign: "(b AND 0x7f :: byte) AND 0x80 = 0"
proof -
  have "unat b mod 128 < 128" by simp
  then show ?thesis using byte_and_80 [of "b AND 0x7f"] unfolding byte_and_7F by linarith
qed

lemma sint_int64: "- (2 ^ 63) \<le> i \<Longrightarrow> i < 2 ^ 63 \<Longrightarrow> sint (word_of_int i :: int64) = i"
  by (simp add: signed_of_int signed_take_bit_int_eq_self)

lemma le_nat_append: "le_nat (xs @ ys) = le_nat xs + 256 ^ length xs * le_nat ys"
  by (induction xs) (simp_all add: algebra_simps)

lemma le_nat_signed_less: "le_nat (xs @ [b AND 0x7f]) < 256 ^ length xs * 128"
proof -
  define p :: nat where "p = 256 ^ length xs"
  have "unat b mod 128 \<le> 127" by simp
  then have "p * (unat b mod 128) \<le> p * 127" by (rule mult_le_mono2)
  moreover have "le_nat xs < p" unfolding p_def by (rule le_nat_less)
  ultimately show ?thesis
    unfolding le_nat_append p_def [symmetric] le_nat.simps byte_and_7F mult_0_right add_0_right
    by linarith
qed

subsection \<open>Reading\<close>

lemma set_vch_loop_append:
  "set_vch_loop (xs @ [b]) i r = set_vch_loop xs i r OR push_bit (8 * (i + length xs)) (ucast b)"
  by (induction xs i r rule: set_vch_loop.induct) simp_all

lemma set_vch_loop_high:
  "8 * length xs \<le> n \<Longrightarrow> \<not> bit (set_vch_loop xs 0 0) n"
proof (induction xs rule: rev_induct)
  case (snoc b xs)
  have "bit b k \<Longrightarrow> k < 8" for k
    using bit_imp_le_length [of b k] by simp
  from this [of "n - 8 * length xs"] show ?case
    using snoc by (auto simp: set_vch_loop_append bit_simps)
qed simp

lemma set_vch_loop_value:
  "length xs \<le> 8 \<Longrightarrow> set_vch_loop xs 0 0 = word_of_nat (le_nat xs)"
proof (induction xs rule: rev_induct)
  case (snoc b xs)
  have "set_vch_loop (xs @ [b]) 0 0 = set_vch_loop xs 0 0 + push_bit (8 * length xs) (ucast b)"
    using set_vch_loop_high [of xs] unfolding set_vch_loop_append
    by (subst disjunctive_add) (auto simp: bit_simps)
  also have "(push_bit (8 * length xs) (ucast b) :: int64) = word_of_nat (256 ^ length xs * unat b)"
    by (simp add: push_bit_eq_mult power_mult)
  finally show ?case using snoc by (simp add: le_nat_append)
qed simp

lemma set_vch_loop_clear:
  "set_vch_loop (xs @ [b]) 0 0 AND NOT (push_bit (8 * length xs) 0x80) = set_vch_loop (xs @ [b AND 0x7f]) 0 0"
proof -
  have "push_bit k (ucast b :: int64) AND NOT (push_bit k 0x80) = push_bit k (ucast (b AND 0x7f))" for k
  proof -
    obtain s :: int64 where s: "s = 0x80" "bit s n \<longleftrightarrow> n = 7" for n
      using bit_0x80_64 by blast
    have "bit b n \<Longrightarrow> n < 8" for n
      using bit_imp_le_length [of b n] by simp
    then have "push_bit k (ucast b :: int64) AND NOT (push_bit k s) = push_bit k (ucast (take_bit 7 b))"
      by (intro bit_word_eqI)
         (fastforce simp: bit_and_iff bit_not_iff bit_push_bit_iff bit_unsigned_iff bit_take_bit_iff s(2))
    then show ?thesis unfolding and_7F s(1) .
  qed
  moreover have "set_vch_loop xs 0 0 AND NOT (push_bit (8 * length xs) 0x80) = set_vch_loop xs 0 0"
    using set_vch_loop_high [of xs] by (intro bit_word_eqI) (auto simp: bit_simps)
  ultimately show ?thesis by (simp add: set_vch_loop_append bit.conj_disj_distrib2)
qed

lemma set_vch_value: "length vch \<le> 8 \<Longrightarrow> sint (set_vch vch) = num_value vch"
proof (cases vch rule: rev_cases)
  case (snoc xs b)
  assume len: "length vch \<le> 8"
  define m where "m = le_nat (xs @ [b AND 0x7f])"
  have "m < 256 ^ length xs * 128"
    unfolding m_def by (rule le_nat_signed_less)
  also have "\<dots> \<le> 256 ^ 7 * 128"
    using len snoc by (intro mult_le_mono1 power_increasing) simp_all
  finally have m: "m < 2 ^ 63" by simp
  then have wm: "sint (word_of_nat m :: int64) = int m"
    using sint_int64 [of "int m"] by simp
  have val: "set_vch_loop (xs @ [b AND 0x7f]) 0 0 = word_of_nat m"
    using len snoc by (simp add: set_vch_loop_value m_def)
  show ?thesis
  proof (cases "b AND 0x80 = 0")
    case True
    then have "set_vch vch = word_of_nat m"
      using snoc val byte_positive [OF True] by (simp add: set_vch_def)
    then show ?thesis using True snoc wm by (simp add: num_value_def m_def)
  next
    case False
    then have "set_vch vch = - word_of_nat m"
      using snoc by (simp add: set_vch_def set_vch_loop_clear val)
    moreover have "sint (- word_of_nat m :: int64) = - int m"
      using m sint_int64 [of "- int m"] by simp
    ultimately show ?thesis using False snoc by (simp add: num_value_def m_def)
  qed
qed (simp add: set_vch_def num_value_def)

subsection \<open>Writing\<close>

text \<open>The bytes of a magnitude, without leading zeros.\<close>

fun mag_bytes :: "nat \<Rightarrow> bytes" where
  "mag_bytes n = (if n = 0 then [] else word_of_nat n # mag_bytes (n div 256))"

declare mag_bytes.simps [simp del]

lemma mag_bytes_0 [simp]: "mag_bytes 0 = []"
  by (simp add: mag_bytes.simps)

lemma mag_bytes_empty: "mag_bytes n = [] \<longleftrightarrow> n = 0"
  by (subst mag_bytes.simps) simp

lemma le_nat_mag_bytes [simp]: "le_nat (mag_bytes n) = n"
proof (induction n rule: mag_bytes.induct)
  case (1 n)
  then show ?case
    by (subst mag_bytes.simps) (simp add: unsigned_of_nat take_bit_eq_mod)
qed

lemma last_mag_bytes: "n \<noteq> 0 \<Longrightarrow> last (mag_bytes n) \<noteq> 0"
proof (induction n rule: mag_bytes.induct)
  case (1 n)
  show ?case
  proof (cases "n div 256 = 0")
    case True
    then have "unat (word_of_nat n :: byte) = n"
      by (simp add: unsigned_of_nat take_bit_eq_mod div_eq_0_iff)
    then show ?thesis
      using True 1 by (subst mag_bytes.simps) (auto simp: unat_eq_zero)
  next
    case False
    then show ?thesis
      using 1 by (subst mag_bytes.simps) (simp add: mag_bytes_empty)
  qed
qed

lemma le_nat_pos: "xs \<noteq> [] \<Longrightarrow> last xs \<noteq> 0 \<Longrightarrow> 256 ^ (length xs - 1) \<le> le_nat xs"
proof (cases xs rule: rev_cases)
  case (snoc ys b)
  moreover assume "last xs \<noteq> 0"
  ultimately have "1 \<le> unat b" by (simp add: Suc_le_eq unat_gt_0)
  then have "256 ^ length ys * 1 \<le> 256 ^ length ys * unat b" by (rule mult_le_mono2)
  then have "256 ^ length ys \<le> le_nat (ys @ [b])"
    unfolding le_nat_append le_nat.simps mult_1_right mult_0_right add_0_right by linarith
  then show ?thesis using snoc by simp
qed simp

lemma mag_bytes_le_nat: "xs = [] \<or> last xs \<noteq> 0 \<Longrightarrow> mag_bytes (le_nat xs) = xs"
proof (induction xs)
  case (Cons b xs)
  then have "mag_bytes (le_nat xs) = xs" by (cases xs) auto
  moreover have "0 < le_nat (b # xs)"
    using le_nat_pos [of "b # xs"] Cons.prems by (metis gr0I le_zero_eq list.distinct(1) power_eq_0_iff zero_neq_numeral)
  moreover have "le_nat (b # xs) div 256 = le_nat xs"
    by simp
  ultimately show ?case
    by (subst mag_bytes.simps) (simp only: le_nat.simps byte_of_nat less_not_refl2 if_False)
qed simp

lemma serialize_loop_bytes: "serialize_loop v r = r @ mag_bytes (unat v)"
proof (induction v r rule: serialize_loop.induct)
  case (1 v r)
  have b: "(ucast (v AND 0xff) :: byte) = word_of_nat (unat v)"
  proof -
    have "v AND 0xff = take_bit 8 v" by (simp add: take_bit_eq_mask mask_eq_exp_minus_1)
    moreover have "(ucast (take_bit 8 v) :: byte) = word_of_nat (unat v)"
      by (simp add: word_unat_eq_iff unsigned_of_nat unsigned_ucast_eq unsigned_take_bit_eq)
    ultimately show ?thesis by simp
  qed
  have d: "unat (drop_bit 8 v) = unat v div 256"
    by (simp add: drop_bit_eq_div unat_div)
  show ?case
  proof (cases "v = 0")
    case True
    then show ?thesis by (simp add: serialize_loop.simps)
  next
    case False
    then have "mag_bytes (unat v) = word_of_nat (unat v) # mag_bytes (unat v div 256)"
      by (subst mag_bytes.simps) (simp add: unat_eq_zero)
    then show ?thesis
      using 1 False b d by (subst serialize_loop.simps) simp
  qed
qed

text \<open>The encoding of a sign and a magnitude.\<close>

definition sign_mag :: "bool \<Rightarrow> nat \<Rightarrow> bytes" where
  "sign_mag neg m =
     (let result = mag_bytes m
      in if last result AND 0x80 \<noteq> 0 then result @ [if neg then 0x80 else 0]
         else if neg then butlast result @ [last result OR 0x80]
         else result)"

lemma unat_int64: "0 \<le> i \<Longrightarrow> i < 2 ^ 64 \<Longrightarrow> unat (word_of_int i :: int64) = nat i"
  by (simp add: unsigned_of_int take_bit_int_eq_self)

lemma sint_range64: "- (2 ^ 63) \<le> sint v \<and> sint v < 2 ^ 63" for v :: int64
  using sint_ge [of v] sint_lt [of v] by simp

lemma unat_abs64: "unat (if sint v < 0 then - v else v) = nat \<bar>sint v\<bar>" for v :: int64
proof (cases "sint v < 0")
  case True
  have "unat (word_of_int (- sint v) :: int64) = nat (- sint v)"
    using True sint_range64 [of v] by (intro unat_int64) simp_all
  then show ?thesis using True by simp
next
  case False
  have "unat (word_of_int (sint v) :: int64) = nat (sint v)"
    using False sint_range64 [of v] by (intro unat_int64) simp_all
  then show ?thesis using False by simp
qed

lemma serialize_sign_mag:
  "serialize value = (if value = 0 then [] else sign_mag (sint value < 0) (nat \<bar>sint value\<bar>))"
  unfolding serialize_def sign_mag_def serialize_loop_bytes append_Nil Let_def unat_abs64 by simp

lemma sign_mag_cases [consumes 1, case_names low high]:
  assumes "0 < m"
  obtains (low) xs c where "mag_bytes m = xs @ [c]" "c \<noteq> 0" "c AND 0x80 = 0"
      "sign_mag neg m = xs @ [if neg then c OR 0x80 else c]"
  | (high) xs c where "mag_bytes m = xs @ [c]" "c AND 0x80 \<noteq> 0"
      "sign_mag neg m = xs @ [c, if neg then 0x80 else 0]"
proof -
  from assms have "mag_bytes m \<noteq> []" by (simp add: mag_bytes_empty)
  then obtain xs c where x: "mag_bytes m = xs @ [c]" by (metis append_butlast_last_id)
  then have "c \<noteq> 0" using last_mag_bytes [of m] assms by simp
  then show thesis
    using x that by (cases "c AND 0x80 = 0") (simp_all add: sign_mag_def Let_def)
qed

lemma byte_or_80: "(c :: byte) AND 0x80 = 0 \<Longrightarrow> (c OR 0x80) AND 0x7f = c \<and> (c OR 0x80) AND 0x80 \<noteq> 0"
proof -
  assume c: "c AND 0x80 = 0"
  have "(c OR 0x80) AND 0x7f = c AND 0x7f"
    by (simp add: bit.conj_disj_distrib2)
  then show ?thesis using byte_positive [OF c] by (simp add: bit.conj_disj_distrib2)
qed

lemma sign_mag_facts:
  assumes "0 < m"
  shows "num_value (sign_mag neg m) = (if neg then - int m else int m) \<and> minimal (sign_mag neg m)"
  using assms
proof (cases rule: sign_mag_cases [where neg = neg])
  case (low xs c)
  have "le_nat (xs @ [c]) = m" using le_nat_mag_bytes [of m] low(1) by simp
  then show ?thesis
    using low byte_or_80 [of c] byte_positive [of c] by (auto simp: num_value_def minimal_def)
next
  case (high xs c)
  have "le_nat (xs @ [c, 0]) = m" using le_nat_mag_bytes [of m] high(1) by (simp add: le_nat_append)
  then show ?thesis
    using high by (auto simp: num_value_def minimal_def nth_append butlast_append)
qed

lemma sign_mag_num_value:
  assumes "minimal vch" "vch \<noteq> []"
  shows "vch = sign_mag (num_value vch < 0) (nat \<bar>num_value vch\<bar>) \<and> num_value vch \<noteq> 0"
proof -
  from assms(2) obtain xs b where v: "vch = xs @ [b]" by (metis append_butlast_last_id)
  define c m where "c = b AND 0x7f" and "m = le_nat (xs @ [c])"
  have nv: "num_value vch = (if b AND 0x80 \<noteq> 0 then - int m else int m)"
    by (simp add: num_value_def v m_def c_def)
  have main: "0 < m \<and> vch = sign_mag (b AND 0x80 \<noteq> 0) m"
  proof (cases "c = 0")
    case False
    then have "mag_bytes m = xs @ [c]" unfolding m_def by (intro mag_bytes_le_nat) simp
    moreover from this have "0 < m" by (metis gr0I mag_bytes_0 snoc_eq_iff_butlast)
    moreover have "c AND 0x80 = 0" unfolding c_def by (rule byte_low_sign)
    ultimately show ?thesis
      using byte_split_sign [of b] byte_positive [of b] by (auto simp: sign_mag_def Let_def v c_def)
  next
    case True
    then have x: "xs \<noteq> []" "last xs AND 0x80 \<noteq> 0"
      using assms(1) by (auto simp: minimal_def v c_def nth_append last_conv_nth)
    then have "last xs \<noteq> 0" by auto
    then have "mag_bytes (le_nat xs) = xs" using x by (intro mag_bytes_le_nat) simp
    moreover have "m = le_nat xs" using True by (simp add: m_def le_nat_append)
    moreover have "b = (if b AND 0x80 \<noteq> 0 then 0x80 else 0)"
      using True byte_split_sign [of b] byte_positive [of b] by (auto simp: c_def)
    moreover have "0 < le_nat xs"
      using x calculation(1) mag_bytes_empty [of "le_nat xs"] by simp
    ultimately show ?thesis
      using x by (auto simp: sign_mag_def Let_def v)
  qed
  have "num_value vch < 0 \<longleftrightarrow> b AND 0x80 \<noteq> 0" "nat \<bar>num_value vch\<bar> = m" "num_value vch \<noteq> 0"
    using main nv by (simp_all split: if_splits)
  then show ?thesis using main by simp
qed

lemma sign_byte_bounds:
  assumes "mag_bytes m = xs @ [c]"
  shows "c AND 0x80 = 0 \<Longrightarrow> c \<noteq> 0 \<Longrightarrow> 2 ^ (8 * length xs) \<le> m \<and> m < 2 ^ (8 * length xs + 7)"
    and "c AND 0x80 \<noteq> 0 \<Longrightarrow> 2 ^ (8 * length xs + 7) \<le> m \<and> m < 2 ^ (8 * length xs + 8)"
proof -
  have pow: "(2 :: nat) ^ (8 * length xs + j) = 256 ^ length xs * 2 ^ j" for j
    by (simp add: power_add power_mult)
  have m: "m = le_nat (xs @ [c])" using le_nat_mag_bytes [of m] assms by simp
  show "2 ^ (8 * length xs) \<le> m \<and> m < 2 ^ (8 * length xs + 7)" if "c AND 0x80 = 0" "c \<noteq> 0"
    using le_nat_pos [of "xs @ [c]"] le_nat_signed_less [of xs c] that byte_positive [of c] pow [of 0] pow [of 7]
    by (simp add: m)
  assume "c AND 0x80 \<noteq> 0"
  then have "256 ^ length xs * 128 \<le> 256 ^ length xs * unat c"
    by (intro mult_le_mono2) (simp add: byte_and_80)
  then have "256 ^ length xs * 128 \<le> m" by (simp only: m le_nat_append le_nat.simps mult_0_right add_0_right trans_le_add2)
  moreover have "m < 256 ^ length xs * 256"
    using le_nat_less [of "xs @ [c]"] by (simp add: m)
  ultimately show "2 ^ (8 * length xs + 7) \<le> m \<and> m < 2 ^ (8 * length xs + 8)"
    using pow [of 7] pow [of 8] by simp
qed

lemma length_sign_mag:
  assumes "0 < m"
  shows "length (sign_mag neg m) \<le> k \<longleftrightarrow> m < 2 ^ (8 * k - 1)"
proof -
  have step: "?thesis" if "2 ^ a \<le> m \<and> m < 2 ^ b" "length (sign_mag neg m) \<le> k \<Longrightarrow> b \<le> 8 * k - 1"
      "k < length (sign_mag neg m) \<Longrightarrow> 8 * k - 1 \<le> a" for a b
  proof (cases "length (sign_mag neg m) \<le> k")
    case True
    then have "(2 :: nat) ^ b \<le> 2 ^ (8 * k - 1)" using that(2) by (intro power_increasing) simp_all
    then show ?thesis using True that(1) by linarith
  next
    case False
    then have "(2 :: nat) ^ (8 * k - 1) \<le> 2 ^ a" using that(3) by (intro power_increasing) simp_all
    then show ?thesis using False that(1) by linarith
  qed
  from assms show ?thesis
  proof (cases rule: sign_mag_cases [where neg = neg])
    case (low xs c)
    have "length (sign_mag neg m) = length xs + 1" by (simp add: low)
    then show ?thesis using low by (intro step [OF sign_byte_bounds(1) [OF low(1)]]) linarith+
  next
    case (high xs c)
    have "length (sign_mag neg m) = length xs + 2" by (simp add: high)
    then show ?thesis using high by (intro step [OF sign_byte_bounds(2) [OF high(1)]]) linarith+
  qed
qed

section \<open>Properties\<close>

lemma CScriptNum_minimal:
  "CScriptNum vch True k = (if k < length vch then Inl Script_number_overflow
     else if minimal vch then Inr (set_vch vch) else Inl Non_minimally_encoded)"
  by (auto simp: CScriptNum_def minimal_def)

lemma serialize_facts:
  "num_value (serialize v) = sint v \<and> minimal (serialize v)
     \<and> (length (serialize v) \<le> k \<longleftrightarrow> \<bar>sint v\<bar> < 2 ^ (8 * k - 1))"
proof (cases "v = 0")
  case True
  then show ?thesis by (simp add: serialize_def num_value_def minimal_def)
next
  case False
  then have "sint v \<noteq> 0" using signed_word_eqI [of v 0] by auto
  then have v: "0 < nat \<bar>sint v\<bar>" by simp
  have "length (serialize v) \<le> k \<longleftrightarrow> nat \<bar>sint v\<bar> < 2 ^ (8 * k - 1)"
    using False by (simp only: serialize_sign_mag length_sign_mag [OF v] if_False)
  also have "\<dots> \<longleftrightarrow> \<bar>sint v\<bar> < 2 ^ (8 * k - 1)"
    by (simp add: nat_less_iff)
  finally show ?thesis
    using sign_mag_facts [OF v, of "sint v < 0"] False by (auto simp: serialize_sign_mag)
qed

lemma serialize_set_vch: "minimal vch \<Longrightarrow> length vch \<le> 8 \<Longrightarrow> serialize (set_vch vch) = vch"
  using sign_mag_num_value [of vch] set_vch_value [of vch]
  by (cases "vch = []") (auto simp: serialize_sign_mag set_vch_def)

lemma set_vch_serialize: "length (serialize v) \<le> 8 \<Longrightarrow> set_vch (serialize v) = v"
  using set_vch_value [of "serialize v"] serialize_facts [of v] by (simp add: signed_word_eqI)

subsection \<open>Arithmetic in range\<close>

lemma num_value_bound: "length vch \<le> k \<Longrightarrow> 0 < k \<Longrightarrow> \<bar>num_value vch\<bar> < 2 ^ (8 * k - 1)"
proof (cases vch rule: rev_cases)
  case (snoc xs b)
  assume k: "length vch \<le> k"
  have "le_nat (xs @ [b AND 0x7f]) < 256 ^ length xs * 128" by (rule le_nat_signed_less)
  also have "256 ^ length xs * 128 = (2 :: nat) ^ (8 * length xs + 7)" by (simp add: power_add power_mult)
  also have "\<dots> \<le> 2 ^ (8 * k - 1)"
    using k snoc by (intro power_increasing) simp_all
  finally have "int (le_nat (xs @ [b AND 0x7f])) < int (2 ^ (8 * k - 1))" unfolding of_nat_less_iff .
  then show ?thesis by (simp add: snoc num_value_def)
qed (simp add: num_value_def)

lemma CScriptNum_bound:
  "CScriptNum vch f k = Inr v \<Longrightarrow> 0 < k \<Longrightarrow> k \<le> 8 \<Longrightarrow> \<bar>sint v\<bar> < 2 ^ (8 * k - 1)"
  using num_value_bound [of vch k] set_vch_value [of vch] by (auto simp: CScriptNum_def split: if_splits)

lemma CScriptNum_default: "CScriptNum vch f nDefaultMaxNumSize = Inr v \<Longrightarrow> \<bar>sint v\<bar> < 2 ^ 31"
  using CScriptNum_bound [of vch f 4 v] by (simp add: nDefaultMaxNumSize_def)

lemma sint_add64:
  "- (2 ^ 63) \<le> sint v + sint w \<Longrightarrow> sint v + sint w < 2 ^ 63 \<Longrightarrow> sint (v + w) = sint v + sint w"
  for v w :: int64
  using sint_int64 [of "sint v + sint w"] by simp

lemma sint_sub64:
  "- (2 ^ 63) \<le> sint v - sint w \<Longrightarrow> sint v - sint w < 2 ^ 63 \<Longrightarrow> sint (v - w) = sint v - sint w"
  for v w :: int64
  using sint_int64 [of "sint v - sint w"] by simp

lemma sint_neg64: "sint v \<noteq> - (2 ^ 63) \<Longrightarrow> sint (- v) = - sint v" for v :: int64
  using sint_int64 [of "- sint v"] sint_range64 [of v] by simp

lemma num_ops_in_range:
  assumes "\<bar>sint v\<bar> < 2 ^ 31" "\<bar>sint w\<bar> < 2 ^ 31"
  shows "sint (num_add v w) = sint v + sint w" "sint (num_sub v w) = sint v - sint w"
    "num_add_assign v w = Some (v + w)" "num_sub_assign v w = Some (v - w)" "num_neg v = Some (- v)"
  using assms by (auto simp: num_add_def num_sub_def num_add_assign_def num_sub_assign_def num_neg_def
      intro!: sint_add64 sint_sub64)

lemma getint_in_range: "\<bar>sint v\<bar> < 2 ^ 31 \<Longrightarrow> getint v = sint v"
  by (auto simp: getint_def)

lemma length_getvch: "length (getvch v) \<le> 9"
proof -
  have "\<bar>sint v\<bar> < 2 ^ (8 * 9 - 1)" using sint_range64 [of v] by (simp add: abs_less_iff)
  then show ?thesis using serialize_facts [of v 9] unfolding getvch_def by blast
qed

lemma CScriptNum_serialize:
  assumes "\<bar>sint v\<bar> < 2 ^ (8 * k - 1)" "k \<le> 8"
  shows "CScriptNum (serialize v) f k = Inr v"
proof -
  have "length (serialize v) \<le> k" "minimal (serialize v)" using serialize_facts [of v k] assms(1) by blast+
  then show ?thesis
    using set_vch_serialize [of v] assms(2) by (cases f) (auto simp: minimal_def CScriptNum_def)
qed

text \<open>
  C29: Numbers of the script language have one encoding.  For every limit of at most eight
  bytes, the constructor with the minimality check accepts a byte vector, with the value
  \<open>v\<close>, exactly when the vector is what \<open>serialize\<close> writes for \<open>v\<close> and \<open>v\<close> lies in the
  symmetric range of that size (for the default of four bytes, below \<open>2^31\<close> in magnitude).
\<close>

theorem CScriptNum_canonical:
  assumes "nMaxNumSize \<le> 8"
  shows "CScriptNum vch True nMaxNumSize = Inr v \<longleftrightarrow>
    vch = serialize v \<and> \<bar>sint v\<bar> < 2 ^ (8 * nMaxNumSize - 1)"
proof
  assume "CScriptNum vch True nMaxNumSize = Inr v"
  then have "minimal vch" "length vch \<le> nMaxNumSize" "v = set_vch vch"
    by (auto simp: CScriptNum_minimal split: if_splits)
  moreover from this have "vch = serialize v" using assms serialize_set_vch [of vch] by simp
  ultimately show "vch = serialize v \<and> \<bar>sint v\<bar> < 2 ^ (8 * nMaxNumSize - 1)"
    using serialize_facts [of v nMaxNumSize] by metis
next
  assume v: "vch = serialize v \<and> \<bar>sint v\<bar> < 2 ^ (8 * nMaxNumSize - 1)"
  with serialize_facts [of v nMaxNumSize] have "length vch \<le> nMaxNumSize" "minimal vch" by blast+
  moreover from this have "set_vch vch = v" using v set_vch_serialize [of v] assms by simp
  ultimately show "CScriptNum vch True nMaxNumSize = Inr v"
    by (simp add: CScriptNum_minimal)
qed

theorem CScriptNum_canonical_witness:
  "CScriptNum [0xff, 0x80] True 4 = Inr (- 255) \<longleftrightarrow>
     [0xff, 0x80] = serialize (- 255) \<and> \<bar>sint (- 255 :: int64)\<bar> < 2 ^ (8 * 4 - 1)"
  using CScriptNum_canonical [of 4 "[0xff, 0x80]" "- 255"] by simp

end
