(* ===== verification/Script.thy ===== *)
theory Script
  imports ScriptNum "HOL-Library.Sublist"
begin

unbundle bit_operations_syntax

text \<open>
  The script type of \<^verbatim>\<open>src/src/script/script.h\<close> and \<^verbatim>\<open>src/src/script/script.cpp\<close>: the opcodes,
  the builders (the operators \<open><<\<close> of
  \<open>CScript\<close>), the reader \<open>GetOp2\<close>, \<open>FindAndDelete\<close>, the counting of signature operations
  and the tests on the shape of a script.

  \<^item> A script is its byte vector.  A \<open>const_iterator\<close> into it is a position, \<open>end()\<close> is the length.
  \<^item> \<open>opcodetype\<close> is an unscoped enumeration that the reader fills from any byte, so it is a
    natural number with the enumerators as abbreviations.

  The lemmas show that the reader inverts the builder and that \<open>FindAndDelete\<close>
  drops the operations that are equal to the pattern and nothing else.
\<close>

section \<open>Constants and opcodes\<close>

type_synonym valtype = bytes
type_synonym opcodetype = nat

definition MAX_SCRIPT_ELEMENT_SIZE :: nat where
  "MAX_SCRIPT_ELEMENT_SIZE = 520"

definition MAX_SCRIPT_SIZE :: nat where
  "MAX_SCRIPT_SIZE = 10000"

definition LOCKTIME_THRESHOLD :: u32 where
  "LOCKTIME_THRESHOLD = 500000000"

abbreviation OP_0 :: opcodetype where "OP_0 \<equiv> 0x00"
abbreviation OP_FALSE :: opcodetype where "OP_FALSE \<equiv> OP_0"
abbreviation OP_PUSHDATA1 :: opcodetype where "OP_PUSHDATA1 \<equiv> 0x4c"
abbreviation OP_PUSHDATA2 :: opcodetype where "OP_PUSHDATA2 \<equiv> 0x4d"
abbreviation OP_PUSHDATA4 :: opcodetype where "OP_PUSHDATA4 \<equiv> 0x4e"
abbreviation OP_1NEGATE :: opcodetype where "OP_1NEGATE \<equiv> 0x4f"
abbreviation OP_RESERVED :: opcodetype where "OP_RESERVED \<equiv> 0x50"
abbreviation OP_1 :: opcodetype where "OP_1 \<equiv> 0x51"
abbreviation OP_TRUE :: opcodetype where "OP_TRUE \<equiv> OP_1"
abbreviation OP_2 :: opcodetype where "OP_2 \<equiv> 0x52"
abbreviation OP_3 :: opcodetype where "OP_3 \<equiv> 0x53"
abbreviation OP_4 :: opcodetype where "OP_4 \<equiv> 0x54"
abbreviation OP_5 :: opcodetype where "OP_5 \<equiv> 0x55"
abbreviation OP_6 :: opcodetype where "OP_6 \<equiv> 0x56"
abbreviation OP_7 :: opcodetype where "OP_7 \<equiv> 0x57"
abbreviation OP_8 :: opcodetype where "OP_8 \<equiv> 0x58"
abbreviation OP_9 :: opcodetype where "OP_9 \<equiv> 0x59"
abbreviation OP_10 :: opcodetype where "OP_10 \<equiv> 0x5a"
abbreviation OP_11 :: opcodetype where "OP_11 \<equiv> 0x5b"
abbreviation OP_12 :: opcodetype where "OP_12 \<equiv> 0x5c"
abbreviation OP_13 :: opcodetype where "OP_13 \<equiv> 0x5d"
abbreviation OP_14 :: opcodetype where "OP_14 \<equiv> 0x5e"
abbreviation OP_15 :: opcodetype where "OP_15 \<equiv> 0x5f"
abbreviation OP_16 :: opcodetype where "OP_16 \<equiv> 0x60"
abbreviation OP_NOP :: opcodetype where "OP_NOP \<equiv> 0x61"
abbreviation OP_VER :: opcodetype where "OP_VER \<equiv> 0x62"
abbreviation OP_IF :: opcodetype where "OP_IF \<equiv> 0x63"
abbreviation OP_NOTIF :: opcodetype where "OP_NOTIF \<equiv> 0x64"
abbreviation OP_VERIF :: opcodetype where "OP_VERIF \<equiv> 0x65"
abbreviation OP_VERNOTIF :: opcodetype where "OP_VERNOTIF \<equiv> 0x66"
abbreviation OP_ELSE :: opcodetype where "OP_ELSE \<equiv> 0x67"
abbreviation OP_ENDIF :: opcodetype where "OP_ENDIF \<equiv> 0x68"
abbreviation OP_VERIFY :: opcodetype where "OP_VERIFY \<equiv> 0x69"
abbreviation OP_RETURN :: opcodetype where "OP_RETURN \<equiv> 0x6a"
abbreviation OP_TOALTSTACK :: opcodetype where "OP_TOALTSTACK \<equiv> 0x6b"
abbreviation OP_FROMALTSTACK :: opcodetype where "OP_FROMALTSTACK \<equiv> 0x6c"
abbreviation OP_2DROP :: opcodetype where "OP_2DROP \<equiv> 0x6d"
abbreviation OP_2DUP :: opcodetype where "OP_2DUP \<equiv> 0x6e"
abbreviation OP_3DUP :: opcodetype where "OP_3DUP \<equiv> 0x6f"
abbreviation OP_2OVER :: opcodetype where "OP_2OVER \<equiv> 0x70"
abbreviation OP_2ROT :: opcodetype where "OP_2ROT \<equiv> 0x71"
abbreviation OP_2SWAP :: opcodetype where "OP_2SWAP \<equiv> 0x72"
abbreviation OP_IFDUP :: opcodetype where "OP_IFDUP \<equiv> 0x73"
abbreviation OP_DEPTH :: opcodetype where "OP_DEPTH \<equiv> 0x74"
abbreviation OP_DROP :: opcodetype where "OP_DROP \<equiv> 0x75"
abbreviation OP_DUP :: opcodetype where "OP_DUP \<equiv> 0x76"
abbreviation OP_NIP :: opcodetype where "OP_NIP \<equiv> 0x77"
abbreviation OP_OVER :: opcodetype where "OP_OVER \<equiv> 0x78"
abbreviation OP_PICK :: opcodetype where "OP_PICK \<equiv> 0x79"
abbreviation OP_ROLL :: opcodetype where "OP_ROLL \<equiv> 0x7a"
abbreviation OP_ROT :: opcodetype where "OP_ROT \<equiv> 0x7b"
abbreviation OP_SWAP :: opcodetype where "OP_SWAP \<equiv> 0x7c"
abbreviation OP_TUCK :: opcodetype where "OP_TUCK \<equiv> 0x7d"
abbreviation OP_CAT :: opcodetype where "OP_CAT \<equiv> 0x7e"
abbreviation OP_SUBSTR :: opcodetype where "OP_SUBSTR \<equiv> 0x7f"
abbreviation OP_LEFT :: opcodetype where "OP_LEFT \<equiv> 0x80"
abbreviation OP_RIGHT :: opcodetype where "OP_RIGHT \<equiv> 0x81"
abbreviation OP_SIZE :: opcodetype where "OP_SIZE \<equiv> 0x82"
abbreviation OP_INVERT :: opcodetype where "OP_INVERT \<equiv> 0x83"
abbreviation OP_AND :: opcodetype where "OP_AND \<equiv> 0x84"
abbreviation OP_OR :: opcodetype where "OP_OR \<equiv> 0x85"
abbreviation OP_XOR :: opcodetype where "OP_XOR \<equiv> 0x86"
abbreviation OP_EQUAL :: opcodetype where "OP_EQUAL \<equiv> 0x87"
abbreviation OP_EQUALVERIFY :: opcodetype where "OP_EQUALVERIFY \<equiv> 0x88"
abbreviation OP_RESERVED1 :: opcodetype where "OP_RESERVED1 \<equiv> 0x89"
abbreviation OP_RESERVED2 :: opcodetype where "OP_RESERVED2 \<equiv> 0x8a"
abbreviation OP_1ADD :: opcodetype where "OP_1ADD \<equiv> 0x8b"
abbreviation OP_1SUB :: opcodetype where "OP_1SUB \<equiv> 0x8c"
abbreviation OP_2MUL :: opcodetype where "OP_2MUL \<equiv> 0x8d"
abbreviation OP_2DIV :: opcodetype where "OP_2DIV \<equiv> 0x8e"
abbreviation OP_NEGATE :: opcodetype where "OP_NEGATE \<equiv> 0x8f"
abbreviation OP_ABS :: opcodetype where "OP_ABS \<equiv> 0x90"
abbreviation OP_NOT :: opcodetype where "OP_NOT \<equiv> 0x91"
abbreviation OP_0NOTEQUAL :: opcodetype where "OP_0NOTEQUAL \<equiv> 0x92"
abbreviation OP_ADD :: opcodetype where "OP_ADD \<equiv> 0x93"
abbreviation OP_SUB :: opcodetype where "OP_SUB \<equiv> 0x94"
abbreviation OP_MUL :: opcodetype where "OP_MUL \<equiv> 0x95"
abbreviation OP_DIV :: opcodetype where "OP_DIV \<equiv> 0x96"
abbreviation OP_MOD :: opcodetype where "OP_MOD \<equiv> 0x97"
abbreviation OP_LSHIFT :: opcodetype where "OP_LSHIFT \<equiv> 0x98"
abbreviation OP_RSHIFT :: opcodetype where "OP_RSHIFT \<equiv> 0x99"
abbreviation OP_BOOLAND :: opcodetype where "OP_BOOLAND \<equiv> 0x9a"
abbreviation OP_BOOLOR :: opcodetype where "OP_BOOLOR \<equiv> 0x9b"
abbreviation OP_NUMEQUAL :: opcodetype where "OP_NUMEQUAL \<equiv> 0x9c"
abbreviation OP_NUMEQUALVERIFY :: opcodetype where "OP_NUMEQUALVERIFY \<equiv> 0x9d"
abbreviation OP_NUMNOTEQUAL :: opcodetype where "OP_NUMNOTEQUAL \<equiv> 0x9e"
abbreviation OP_LESSTHAN :: opcodetype where "OP_LESSTHAN \<equiv> 0x9f"
abbreviation OP_GREATERTHAN :: opcodetype where "OP_GREATERTHAN \<equiv> 0xa0"
abbreviation OP_LESSTHANOREQUAL :: opcodetype where "OP_LESSTHANOREQUAL \<equiv> 0xa1"
abbreviation OP_GREATERTHANOREQUAL :: opcodetype where "OP_GREATERTHANOREQUAL \<equiv> 0xa2"
abbreviation OP_MIN :: opcodetype where "OP_MIN \<equiv> 0xa3"
abbreviation OP_MAX :: opcodetype where "OP_MAX \<equiv> 0xa4"
abbreviation OP_WITHIN :: opcodetype where "OP_WITHIN \<equiv> 0xa5"
abbreviation OP_RIPEMD160 :: opcodetype where "OP_RIPEMD160 \<equiv> 0xa6"
abbreviation OP_SHA1 :: opcodetype where "OP_SHA1 \<equiv> 0xa7"
abbreviation OP_SHA256 :: opcodetype where "OP_SHA256 \<equiv> 0xa8"
abbreviation OP_HASH160 :: opcodetype where "OP_HASH160 \<equiv> 0xa9"
abbreviation OP_HASH256 :: opcodetype where "OP_HASH256 \<equiv> 0xaa"
abbreviation OP_CODESEPARATOR :: opcodetype where "OP_CODESEPARATOR \<equiv> 0xab"
abbreviation OP_CHECKSIG :: opcodetype where "OP_CHECKSIG \<equiv> 0xac"
abbreviation OP_CHECKSIGVERIFY :: opcodetype where "OP_CHECKSIGVERIFY \<equiv> 0xad"
abbreviation OP_CHECKMULTISIG :: opcodetype where "OP_CHECKMULTISIG \<equiv> 0xae"
abbreviation OP_CHECKMULTISIGVERIFY :: opcodetype where "OP_CHECKMULTISIGVERIFY \<equiv> 0xaf"
abbreviation OP_NOP1 :: opcodetype where "OP_NOP1 \<equiv> 0xb0"
abbreviation OP_NOP2 :: opcodetype where "OP_NOP2 \<equiv> 0xb1"
abbreviation OP_CHECKLOCKTIMEVERIFY :: opcodetype where "OP_CHECKLOCKTIMEVERIFY \<equiv> OP_NOP2"
abbreviation OP_NOP3 :: opcodetype where "OP_NOP3 \<equiv> 0xb2"
abbreviation OP_NOP4 :: opcodetype where "OP_NOP4 \<equiv> 0xb3"
abbreviation OP_NOP5 :: opcodetype where "OP_NOP5 \<equiv> 0xb4"
abbreviation OP_NOP6 :: opcodetype where "OP_NOP6 \<equiv> 0xb5"
abbreviation OP_NOP7 :: opcodetype where "OP_NOP7 \<equiv> 0xb6"
abbreviation OP_NOP8 :: opcodetype where "OP_NOP8 \<equiv> 0xb7"
abbreviation OP_NOP9 :: opcodetype where "OP_NOP9 \<equiv> 0xb8"
abbreviation OP_NOP10 :: opcodetype where "OP_NOP10 \<equiv> 0xb9"
abbreviation OP_ZEROCOINMINT :: opcodetype where "OP_ZEROCOINMINT \<equiv> 0xc1"
abbreviation OP_ZEROCOINSPEND :: opcodetype where "OP_ZEROCOINSPEND \<equiv> 0xc2"
abbreviation OP_CHECKCOLDSTAKEVERIFY :: opcodetype where "OP_CHECKCOLDSTAKEVERIFY \<equiv> 0xd1"
abbreviation OP_SMALLINTEGER :: opcodetype where "OP_SMALLINTEGER \<equiv> 0xfa"
abbreviation OP_PUBKEYS :: opcodetype where "OP_PUBKEYS \<equiv> 0xfb"
abbreviation OP_PUBKEYHASH :: opcodetype where "OP_PUBKEYHASH \<equiv> 0xfd"
abbreviation OP_PUBKEY :: opcodetype where "OP_PUBKEY \<equiv> 0xfe"
abbreviation OP_INVALIDOPCODE :: opcodetype where "OP_INVALIDOPCODE \<equiv> 0xff"

section \<open>Building a script\<close>

text \<open>
  The four operators \<open><<\<close>: an opcode (\<open>None\<close> is the exception for a value above 255, which no
  enumerator has), a byte vector, a number, and an integer.
\<close>

definition push_opcode :: "bytes \<Rightarrow> opcodetype \<Rightarrow> bytes option" where
  "push_opcode script opcode = (if opcode > 0xff then None else Some (script @ [word_of_nat opcode]))"

definition push_data :: "bytes \<Rightarrow> valtype \<Rightarrow> bytes" where
  "push_data script b =
     (if length b < OP_PUSHDATA1 then script @ [word_of_nat (length b)] @ b
      else if length b \<le> 0xff then script @ [word_of_nat OP_PUSHDATA1, word_of_nat (length b)] @ b
      else if length b \<le> 0xffff
        then script @ [word_of_nat OP_PUSHDATA2] @ WRITEDATA 2 (word_of_nat (length b) :: 16 word) @ b
      else script @ [word_of_nat OP_PUSHDATA4] @ WRITEDATA 4 (word_of_nat (length b) :: u32) @ b)"

definition push_num :: "bytes \<Rightarrow> int64 \<Rightarrow> bytes" where
  "push_num script b = push_data script (getvch b)"

definition push_int64 :: "bytes \<Rightarrow> int64 \<Rightarrow> bytes" where
  "push_int64 script n =
     (if sint n = -1 \<or> (sint n \<ge> 1 \<and> sint n \<le> 16) then script @ [ucast (n + (word_of_nat OP_1 - 1))]
      else if n = 0 then script @ [word_of_nat OP_0]
      else push_data script (serialize n))"

section \<open>Reading a script\<close>

text \<open>
  \<open>GetOp2\<close> returns its result, the position where it leaves the iterator, the opcode and the
  data.  A failed read leaves the iterator behind the bytes it has consumed.
\<close>

type_synonym op_read = "bool \<times> nat \<times> opcodetype \<times> valtype"

definition GetOp2_operand :: "bytes \<Rightarrow> nat \<Rightarrow> opcodetype \<Rightarrow> nat \<Rightarrow> op_read" where
  "GetOp2_operand script pc opcode nSize =
     (if (length script - pc) mod 2 ^ 32 < nSize then (False, pc, OP_INVALIDOPCODE, [])
      else (True, pc + nSize, opcode, take nSize (drop pc script)))"

definition GetOp2 :: "bytes \<Rightarrow> nat \<Rightarrow> op_read" where
  "GetOp2 script pc =
     (if pc \<ge> length script then (False, pc, OP_INVALIDOPCODE, [])
      else let opcode = unat (script ! pc); pc = pc + 1
           in if opcode \<le> OP_PUSHDATA4 then
                (if opcode < OP_PUSHDATA1 then GetOp2_operand script pc opcode opcode
                 else if opcode = OP_PUSHDATA1 then
                   (if length script - pc < 1 then (False, pc, OP_INVALIDOPCODE, [])
                    else GetOp2_operand script (pc + 1) opcode (unat (script ! pc)))
                 else if opcode = OP_PUSHDATA2 then
                   (if length script - pc < 2 then (False, pc, OP_INVALIDOPCODE, [])
                    else GetOp2_operand script (pc + 2) opcode (le_nat (take 2 (drop pc script))))
                 else
                   (if length script - pc < 4 then (False, pc, OP_INVALIDOPCODE, [])
                    else GetOp2_operand script (pc + 4) opcode (le_nat (take 4 (drop pc script)))))
              else (True, pc, opcode, []))"

lemma GetOp2_advances: "GetOp2 script pc = (True, pc', opcode, vch) \<Longrightarrow> pc < pc' \<and> pc' \<le> length script"
proof -
  have operand: "GetOp2_operand script q oc n = (True, pc', opcode, vch) \<Longrightarrow> q \<le> length script \<Longrightarrow>
      q \<le> pc' \<and> pc' \<le> length script" for q oc n
  proof -
    assume "GetOp2_operand script q oc n = (True, pc', opcode, vch)" and q: "q \<le> length script"
    then have "n \<le> (length script - q) mod 2 ^ 32" and "pc' = q + n"
      by (auto simp: GetOp2_operand_def split: if_splits)
    moreover have "(length script - q) mod 2 ^ 32 \<le> length script - q" by simp
    ultimately show ?thesis using q by linarith
  qed
  assume "GetOp2 script pc = (True, pc', opcode, vch)"
  then show ?thesis
    by (auto simp: GetOp2_def Let_def dest!: operand split: if_splits)
qed

lemma GetOp2_moves: "GetOp2 script pc = (ok, pc', opcode, vch) \<Longrightarrow> pc < length script \<Longrightarrow> pc < pc'"
  by (auto simp: GetOp2_def GetOp2_operand_def Let_def split: if_splits)

definition GetOp :: "bytes \<Rightarrow> nat \<Rightarrow> bool \<times> nat \<times> opcodetype" where
  "GetOp script pc = (case GetOp2 script pc of (ok, pc', opcode, vch) \<Rightarrow> (ok, pc', opcode))"

text \<open>\<open>DecodeOP_N\<close> and \<open>EncodeOP_N\<close>; \<open>None\<close> is a failed assertion.\<close>

definition DecodeOP_N :: "opcodetype \<Rightarrow> int option" where
  "DecodeOP_N opcode =
     (if opcode = OP_0 then Some 0
      else if OP_1 \<le> opcode \<and> opcode \<le> OP_16 then Some (int opcode - int (OP_1 - 1)) else None)"

definition EncodeOP_N :: "int \<Rightarrow> opcodetype option" where
  "EncodeOP_N n =
     (if n \<ge> 0 \<and> n \<le> 16 then (if n = 0 then Some OP_0 else Some (nat (int OP_1 + n - 1))) else None)"

section \<open>Deleting from a script\<close>

function fad_match :: "bytes \<Rightarrow> bytes \<Rightarrow> nat \<Rightarrow> nat \<Rightarrow> nat \<times> nat" where
  "fad_match script b pc nFound =
     (if b \<noteq> [] \<and> length script - pc \<ge> length b \<and> pc \<le> length script \<and> take (length b) (drop pc script) = b
      then fad_match script b (pc + length b) (nFound + 1)
      else (pc, nFound))"
  by pat_completeness auto
termination
proof (relation "measure (\<lambda>(script, b, pc, _). length script - pc)", goal_cases)
  case (2 script b pc n)
  then have "0 < length b" "length b \<le> length script - pc" by simp_all
  then show ?case unfolding in_measure split by linarith
qed simp

declare fad_match.simps [simp del]

lemma fad_match_mono: "fad_match script b pc n = (pc', n') \<Longrightarrow> pc \<le> pc'"
proof (induction script b pc n rule: fad_match.induct)
  case (1 script b pc n)
  then show ?case by (subst (asm) (2) fad_match.simps) (fastforce split: if_splits)
qed

text \<open>The outer loop carries the result, the two iterators \<open>pc\<close>, \<open>pc2\<close> and the count.\<close>

function fad_loop :: "bytes \<Rightarrow> bytes \<Rightarrow> bytes \<Rightarrow> nat \<Rightarrow> nat \<Rightarrow> nat \<Rightarrow> bytes \<times> nat \<times> nat" where
  "fad_loop script b result pc pc2 nFound =
     (let result = result @ take (pc - pc2) (drop pc2 script);
          (pc, nFound) = fad_match script b pc nFound;
          pc2 = pc
      in case GetOp script pc of
           (True, pc, opcode) \<Rightarrow> fad_loop script b result pc pc2 nFound
         | (False, pc, opcode) \<Rightarrow> (result, pc2, nFound))"
  by pat_completeness auto
termination
proof (relation "measure (\<lambda>(script, b, result, pc, pc2, n). length script - pc)", goal_cases)
  case (2 script b result pc pc2 n result' x pc' n' pc2' y z pc'' opcode)
  then obtain vch where r: "GetOp2 script pc' = (True, pc'', opcode, vch)"
    by (auto simp: GetOp_def split: prod.splits)
  from 2 have "pc \<le> pc'" using fad_match_mono [of script b pc n pc' n'] by simp
  with GetOp2_advances [OF r] show ?case unfolding in_measure split by linarith
qed simp

declare fad_loop.simps [simp del]

definition FindAndDelete :: "bytes \<Rightarrow> bytes \<Rightarrow> bytes \<times> nat" where
  "FindAndDelete script b =
     (if b = [] then (script, 0)
      else case fad_loop script b [] 0 0 0 of (result, pc2, nFound) \<Rightarrow>
        if nFound > 0 then (result @ drop pc2 script, nFound) else (script, nFound))"

function Find_loop :: "bytes \<Rightarrow> opcodetype \<Rightarrow> nat \<Rightarrow> nat \<Rightarrow> nat" where
  "Find_loop script op pc nFound =
     (if pc \<noteq> length script then
        (case GetOp script pc of
           (True, pc, opcode) \<Rightarrow> Find_loop script op pc (if opcode = op then nFound + 1 else nFound)
         | (False, _, _) \<Rightarrow> nFound)
      else nFound)"
  by pat_completeness auto
termination
  by (relation "measure (\<lambda>(script, op, pc, n). length script - pc)")
     (auto simp: GetOp_def split: prod.splits dest!: GetOp2_advances)

declare Find_loop.simps [simp del]

definition Find :: "bytes \<Rightarrow> opcodetype \<Rightarrow> nat" where
  "Find script op = Find_loop script op 0 0"

section \<open>Signature operations\<close>

text \<open>The loop over a script; \<open>None\<close> would be a failed assertion of \<open>DecodeOP_N\<close>.\<close>

function sigop_loop :: "bytes \<Rightarrow> bool \<Rightarrow> nat \<Rightarrow> opcodetype \<Rightarrow> u32 \<Rightarrow> u32 option" where
  "sigop_loop script fAccurate pc lastOpcode n =
     (if pc < length script then
        (case GetOp script pc of
           (False, _, _) \<Rightarrow> Some n
         | (True, pc, opcode) \<Rightarrow>
             if opcode = OP_CHECKSIG \<or> opcode = OP_CHECKSIGVERIFY
             then sigop_loop script fAccurate pc opcode (n + 1)
             else if opcode = OP_CHECKMULTISIG \<or> opcode = OP_CHECKMULTISIGVERIFY then
               (if fAccurate \<and> lastOpcode \<ge> OP_1 \<and> lastOpcode \<le> OP_16
                then (case DecodeOP_N lastOpcode of
                        None \<Rightarrow> None
                      | Some k \<Rightarrow> sigop_loop script fAccurate pc opcode (n + word_of_int k))
                else sigop_loop script fAccurate pc opcode (n + 20))
             else sigop_loop script fAccurate pc opcode n)
      else Some n)"
  by pat_completeness auto
termination
  by (relation "measure (\<lambda>(script, acc, pc, l, n). length script - pc)")
     (auto simp: GetOp_def split: prod.splits dest!: GetOp2_moves)

declare sigop_loop.simps [simp del]

definition GetSigOpCount :: "bytes \<Rightarrow> bool \<Rightarrow> u32 option" where
  "GetSigOpCount script fAccurate = sigop_loop script fAccurate 0 OP_INVALIDOPCODE 0"

definition IsPayToScriptHash :: "bytes \<Rightarrow> bool" where
  "IsPayToScriptHash script \<longleftrightarrow>
     length script = 23 \<and> unat (script ! 0) = OP_HASH160 \<and> script ! 1 = 0x14 \<and> unat (script ! 22) = OP_EQUAL"

function last_push :: "bytes \<Rightarrow> nat \<Rightarrow> valtype \<Rightarrow> valtype option" where
  "last_push scriptSig pc data =
     (if pc < length scriptSig then
        (case GetOp2 scriptSig pc of
           (False, _, _, _) \<Rightarrow> None
         | (True, pc, opcode, data) \<Rightarrow> if opcode > OP_16 then None else last_push scriptSig pc data)
      else Some data)"
  by pat_completeness auto
termination
  by (relation "measure (\<lambda>(script, pc, d). length script - pc)") (auto dest!: GetOp2_moves [OF sym])

declare last_push.simps [simp del]

definition GetSigOpCount_P2SH :: "bytes \<Rightarrow> bytes \<Rightarrow> u32 option" where
  "GetSigOpCount_P2SH script scriptSig =
     (if \<not> IsPayToScriptHash script then GetSigOpCount script True
      else case last_push scriptSig 0 [] of None \<Rightarrow> Some 0 | Some data \<Rightarrow> GetSigOpCount data True)"

section \<open>The shape of a script\<close>

function payment_loop :: "bytes \<Rightarrow> nat \<Rightarrow> nat \<Rightarrow> bool" where
  "payment_loop script pc i =
     (if pc < length script then
        (case GetOp script pc of (_, pc, opcode) \<Rightarrow>
           if i = 0 \<and> opcode \<noteq> OP_DUP then False
           else if i = 1 \<and> opcode \<noteq> OP_HASH160 then False
           else if i = 3 \<and> opcode \<noteq> OP_EQUALVERIFY then False
           else if i = 4 \<and> opcode \<noteq> OP_CHECKSIG then False
           else if i = 5 then False
           else payment_loop script pc (i + 1))
      else True)"
  by pat_completeness auto
termination
  by (relation "measure (\<lambda>(script, pc, i). length script - pc)")
     (auto simp: GetOp_def split: prod.splits dest!: GetOp2_moves)

declare payment_loop.simps [simp del]

definition IsNormalPaymentScript :: "bytes \<Rightarrow> bool" where
  "IsNormalPaymentScript script \<longleftrightarrow> length script = 25 \<and> payment_loop script 0 0"

definition IsPayToColdStaking :: "bytes \<Rightarrow> bool" where
  "IsPayToColdStaking script \<longleftrightarrow>
     length script = 51 \<and> unat (script ! 2) = OP_ROT \<and> unat (script ! 4) = OP_CHECKCOLDSTAKEVERIFY
     \<and> script ! 5 = 0x14 \<and> script ! 27 = 0x14
     \<and> unat (script ! 49) = OP_EQUALVERIFY \<and> unat (script ! 50) = OP_CHECKSIG"

definition StartsWithOpcode :: "bytes \<Rightarrow> opcodetype \<Rightarrow> bool" where
  "StartsWithOpcode script opcode \<longleftrightarrow> script \<noteq> [] \<and> unat (script ! 0) = opcode"

definition IsZerocoinMint :: "bytes \<Rightarrow> bool" where
  "IsZerocoinMint script = StartsWithOpcode script OP_ZEROCOINMINT"

definition IsZerocoinSpend :: "bytes \<Rightarrow> bool" where
  "IsZerocoinSpend script = StartsWithOpcode script OP_ZEROCOINSPEND"

function IsPushOnly_from :: "bytes \<Rightarrow> nat \<Rightarrow> bool" where
  "IsPushOnly_from script pc =
     (if pc < length script then
        (case GetOp script pc of
           (False, _, _) \<Rightarrow> False
         | (True, pc, opcode) \<Rightarrow> if opcode > OP_16 then False else IsPushOnly_from script pc)
      else True)"
  by pat_completeness auto
termination
  by (relation "measure (\<lambda>(script, pc). length script - pc)")
     (auto simp: GetOp_def split: prod.splits dest!: GetOp2_moves)

declare IsPushOnly_from.simps [simp del]

definition IsPushOnly :: "bytes \<Rightarrow> bool" where
  "IsPushOnly script = IsPushOnly_from script 0"

definition IsUnspendable :: "bytes \<Rightarrow> bool" where
  "IsUnspendable script \<longleftrightarrow>
     (length script > 0 \<and> unat (script ! 0) = OP_RETURN) \<or> length script > MAX_SCRIPT_SIZE"

section \<open>Reading from a position\<close>

lemma GetOp2_drop:
  assumes "pc \<le> length script"
  shows "GetOp2 script pc = (case GetOp2 (drop pc script) 0 of (ok, n, opcode, vch) \<Rightarrow> (ok, pc + n, opcode, vch))"
proof -
  have "GetOp2_operand script (pc + k) opcode n =
      (case GetOp2_operand (drop pc script) k opcode n of (ok, n, opcode, vch) \<Rightarrow> (ok, pc + n, opcode, vch))"
    for k opcode n
    by (simp add: GetOp2_operand_def ac_simps)
  from this [of 1] this [of 2] this [of 3] this [of 5] show ?thesis
    using assms by (auto simp: GetOp2_def Let_def ac_simps numeral_eq_Suc)
qed

lemma GetOp_drop:
  "pc \<le> length script \<Longrightarrow>
   GetOp script pc = (case GetOp (drop pc script) 0 of (ok, n, opcode) \<Rightarrow> (ok, pc + n, opcode))"
proof -
  assume "pc \<le> length script"
  note d = GetOp2_drop [OF this]
  obtain ok n opcode vch where "GetOp2 (drop pc script) 0 = (ok, n, opcode, vch)" by (metis prod_cases4)
  then show ?thesis unfolding GetOp_def d by simp
qed

lemma GetOp2_operand_append:
  assumes "GetOp2_operand b pc opcode n = (True, length b, oc, vch)" "length (b @ r) < 2 ^ 32"
  shows "GetOp2_operand (b @ r) pc opcode n = (True, length b, oc, vch)"
proof -
  from assms(1) have l: "length b = pc + n" and v: "oc = opcode" "vch = take n (drop pc b)"
    by (simp_all add: GetOp2_operand_def split: if_splits)
  have "length (b @ r) - pc = n + length r" using l by simp
  moreover have "n + length r < 2 ^ 32" using assms(2) l by simp
  ultimately have "\<not> (length (b @ r) - pc) mod 2 ^ 32 < n" by simp
  then show ?thesis using l by (simp only: GetOp2_operand_def if_False v) simp
qed

lemma GetOp2_append:
  assumes "GetOp2 b 0 = (True, length b, oc, vch)" "length (b @ r) < 2 ^ 32"
  shows "GetOp2 (b @ r) 0 = (True, length b, oc, vch)"
proof -
  note operand = GetOp2_operand_append [OF _ assms(2)]
  obtain x b' where b: "b = x # b'" using assms(1) by (cases b) (auto simp: GetOp2_def)
  have t: "take n (b' @ r) = take n b'" if "n \<le> length b'" for n using that by simp
  consider "unat x < OP_PUSHDATA1" | "unat x = OP_PUSHDATA1" | "unat x = OP_PUSHDATA2"
    | "unat x = OP_PUSHDATA4" | "OP_PUSHDATA4 < unat x" by linarith
  then show ?thesis
  proof cases
    case 1
    then have "GetOp2_operand b 1 (unat x) (unat x) = (True, length b, oc, vch)"
      using assms(1) by (simp add: GetOp2_def Let_def b)
    from operand [OF this] show ?thesis using 1 by (simp add: GetOp2_def Let_def b)
  next
    case 2
    then have "b' \<noteq> []" "GetOp2_operand b (Suc (Suc 0)) OP_PUSHDATA1 (unat (b' ! 0)) = (True, length b, oc, vch)"
      using assms(1) by (simp_all add: GetOp2_def Let_def b split: if_splits)
    with operand [OF this(2)] 2 show ?thesis by (simp add: GetOp2_def Let_def b nth_append Suc_le_eq)
  next
    case 3
    then have "2 \<le> length b'" "GetOp2_operand b (Suc (Suc (Suc 0))) OP_PUSHDATA2 (le_nat (take 2 b')) = (True, length b, oc, vch)"
      using assms(1) by (simp_all add: GetOp2_def Let_def b not_less split: if_splits)
    with operand [OF this(2)] 3 show ?thesis by (simp add: GetOp2_def Let_def b t)
  next
    case 4
    then have "4 \<le> length b'" "GetOp2_operand b 5 OP_PUSHDATA4 (le_nat (take 4 b')) = (True, length b, oc, vch)"
      using assms(1) by (simp_all add: GetOp2_def Let_def b not_less split: if_splits)
    with operand [OF this(2)] 4 show ?thesis by (simp add: GetOp2_def Let_def b t)
  next
    case 5
    then show ?thesis using assms(1) by (simp add: GetOp2_def Let_def b)
  qed
qed

section \<open>A script as a list of operations\<close>

text \<open>The operations in their encoding, and the bytes behind the last one that can be read.\<close>

function script_ops :: "bytes \<Rightarrow> bytes list \<times> bytes" where
  "script_ops script =
     (case GetOp script 0 of
        (True, n, opcode) \<Rightarrow> (case script_ops (drop n script) of (ops, rest) \<Rightarrow> (take n script # ops, rest))
      | (False, _, _) \<Rightarrow> ([], script))"
  by pat_completeness auto
termination
  by (relation "measure length") (auto simp: GetOp_def split: prod.splits dest!: GetOp2_advances)

declare script_ops.simps [simp del]

lemma script_ops_step:
  "GetOp script 0 = (True, n, opcode) \<Longrightarrow>
   script_ops script = (take n script # fst (script_ops (drop n script)), snd (script_ops (drop n script)))"
  by (subst script_ops.simps) (simp split: prod.split)

lemma script_ops_stop: "GetOp script 0 = (False, n, opcode) \<Longrightarrow> script_ops script = ([], script)"
  by (subst script_ops.simps) simp

lemma GetOp_advances: "GetOp script pc = (True, pc', opcode) \<Longrightarrow> pc < pc' \<and> pc' \<le> length script"
  by (auto simp: GetOp_def split: prod.splits dest!: GetOp2_advances)

lemma concat_script_ops: "concat (fst (script_ops script)) @ snd (script_ops script) = script"
proof (induction script rule: script_ops.induct)
  case (1 script)
  obtain ok n opcode where g: "GetOp script 0 = (ok, n, opcode)" by (cases "GetOp script 0") auto
  then show ?case
    using 1 by (cases ok) (auto simp: script_ops_step script_ops_stop)
qed

definition is_op :: "bytes \<Rightarrow> bool" where
  "is_op b \<longleftrightarrow> fst (GetOp b 0) \<and> fst (snd (GetOp b 0)) = length b"

lemma is_op_not_Nil: "is_op b \<Longrightarrow> b \<noteq> []"
  by (auto simp: is_op_def GetOp_def GetOp2_def)

lemma is_op_append:
  assumes "is_op b" "length (b @ r) < 2 ^ 32"
  shows "\<exists>opcode. GetOp (b @ r) 0 = (True, length b, opcode)"
proof -
  obtain oc vch where "GetOp2 b 0 = (True, length b, oc, vch)"
    using assms(1) by (cases "GetOp2 b 0") (auto simp: is_op_def GetOp_def)
  from GetOp2_append [OF this assms(2)] show ?thesis by (simp add: GetOp_def)
qed

lemma script_ops_op:
  assumes "is_op b" "length (b @ r) < 2 ^ 32"
  shows "script_ops (b @ r) = (b # fst (script_ops r), snd (script_ops r))"
  using is_op_append [OF assms] script_ops_step [of "b @ r" "length b"] by auto

section \<open>\<open>FindAndDelete\<close>\<close>

lemma drop_prefix_split: "take (length b) (drop pc s) = b \<Longrightarrow> drop pc s = b @ drop (pc + length b) s"
  by (metis append_take_drop_id drop_drop add.commute)

lemma count_list_replicate_same:
  "count_list (replicate n b) b = n" "count_list (replicate n b @ xs) b = n + count_list xs b"
  by (induction n) simp_all

lemma fad_match_ops:
  assumes "fad_match script b pc n = (pc', n')" "is_op b" "length script < 2 ^ 32" "pc \<le> length script"
  shows "pc \<le> pc' \<and> pc' \<le> length script \<and> take (length b) (drop pc' script) \<noteq> b
    \<and> snd (script_ops (drop pc' script)) = snd (script_ops (drop pc script))
    \<and> n \<le> n'
    \<and> fst (script_ops (drop pc script)) = replicate (n' - n) b @ fst (script_ops (drop pc' script))"
  using assms
proof (induction script b pc n rule: fad_match.induct)
  case (1 script b pc n)
  show ?case
  proof (cases "b \<noteq> [] \<and> length script - pc \<ge> length b \<and> pc \<le> length script \<and> take (length b) (drop pc script) = b")
    case True
    with "1.prems"(1) have rec: "fad_match script b (pc + length b) (n + 1) = (pc', n')"
      by (subst (asm) fad_match.simps) simp
    have d: "drop pc script = b @ drop (pc + length b) script"
      using True by (intro drop_prefix_split) simp
    have "length (b @ drop (pc + length b) script) < 2 ^ 32"
      using "1.prems"(3) arg_cong [OF d, of length] by simp
    then have ops: "script_ops (drop pc script) =
        (b # fst (script_ops (drop (pc + length b) script)), snd (script_ops (drop (pc + length b) script)))"
      unfolding d by (rule script_ops_op [OF "1.prems"(2)])
    have "pc + length b \<le> length script" using True by linarith
    note ih = "1.IH" [OF True rec "1.prems"(2,3) this]
    then obtain j where "n' = Suc n + j" by (metis add.commute le_Suc_ex plus_1_eq_Suc)
    then show ?thesis using ih unfolding ops by simp
  next
    case False
    then have "pc' = pc" "n' = n" using "1.prems"(1) by (subst (asm) fad_match.simps; auto)+
    moreover have "take (length b) (drop pc script) \<noteq> b"
    proof
      assume t: "take (length b) (drop pc script) = b"
      then have "length b \<le> length script - pc" by (metis length_drop length_take min.absorb_iff2 min.commute)
      then show False using False t is_op_not_Nil [OF "1.prems"(2)] "1.prems"(4) by simp
    qed
    ultimately show ?thesis using "1.prems"(4) by simp
  qed
qed

lemma GetOp_take:
  "is_op b \<Longrightarrow> length script < 2 ^ 32 \<Longrightarrow> GetOp script 0 = (True, n, opcode) \<Longrightarrow>
   take n script = b \<longleftrightarrow> take (length b) script = b"
proof -
  assume b: "is_op b" and len: "length script < 2 ^ 32" and g: "GetOp script 0 = (True, n, opcode)"
  show ?thesis
  proof
    assume "take n script = b"
    moreover from this have "length b = n" using GetOp_advances [OF g] by auto
    ultimately show "take (length b) script = b" by simp
  next
    assume t: "take (length b) script = b"
    have "\<exists>oc. GetOp (b @ drop (length b) script) 0 = (True, length b, oc)"
      using b len t by (intro is_op_append) (metis append_take_drop_id)+
    then have "n = length b" using g t by (metis append_take_drop_id prod.inject)
    then show "take n script = b" using t by simp
  qed
qed

lemma fad_loop_ops:
  assumes "fad_loop script b result pc pc2 n = (r, q, n')" "is_op b" "length script < 2 ^ 32"
    "pc2 \<le> pc" "pc \<le> length script"
  shows "r @ drop q script = result @ take (pc - pc2) (drop pc2 script)
      @ concat (filter (\<lambda>c. c \<noteq> b) (fst (script_ops (drop pc script)))) @ snd (script_ops (drop pc script))
    \<and> n' = n + count_list (fst (script_ops (drop pc script))) b"
  using assms
proof (induction script b result pc pc2 n rule: fad_loop.induct)
  case (1 script b result pc pc2 n)
  define result' where "result' = result @ take (pc - pc2) (drop pc2 script)"
  obtain pc1 n1 where m: "fad_match script b pc n = (pc1, n1)" by fastforce
  note ops = fad_match_ops [OF m "1.prems"(2,3,5)]
  obtain ok k opcode where g0: "GetOp (drop pc1 script) 0 = (ok, k, opcode)" by (metis prod_cases3)
  then have g: "GetOp script pc1 = (ok, pc1 + k, opcode)" using GetOp_drop [of pc1 script] ops by simp
  show ?case
  proof (cases ok)
    case False
    then have "r = result'" "q = pc1" "n' = n1"
      using "1.prems"(1) by (subst (asm) fad_loop.simps; simp add: Let_def m g result'_def)+
    then show ?thesis
      using ops script_ops_stop [of "drop pc1 script"] g0 False by (simp add: result'_def count_list_replicate_same)
  next
    case True
    then have rec: "fad_loop script b result' (pc1 + k) pc1 n1 = (r, q, n')"
      using "1.prems"(1) by (subst (asm) fad_loop.simps) (simp add: Let_def m g result'_def)
    have k: "pc1 + k \<le> length script" using GetOp_advances [of script pc1 "pc1 + k" opcode] g True by simp
    have ih: "r @ drop q script = result' @ take k (drop pc1 script)
        @ concat (filter (\<lambda>c. c \<noteq> b) (fst (script_ops (drop (pc1 + k) script)))) @ snd (script_ops (drop (pc1 + k) script))
      \<and> n' = n1 + count_list (fst (script_ops (drop (pc1 + k) script))) b"
      using "1.IH" [OF _ m [symmetric]] rec True "1.prems"(2,3) k g by (simp add: result'_def m)
    have "take k (drop pc1 script) \<noteq> b"
      using GetOp_take [OF "1.prems"(2), of "drop pc1 script" k opcode] g0 True ops "1.prems"(3) by simp
    moreover have "script_ops (drop pc1 script) = (take k (drop pc1 script) # fst (script_ops (drop (pc1 + k) script)),
        snd (script_ops (drop (pc1 + k) script)))"
      using script_ops_step [of "drop pc1 script" k opcode] g0 True by (simp add: add.commute)
    ultimately show ?thesis
      using ih ops by (simp add: result'_def count_list_replicate_same)
  qed
qed

lemma FindAndDelete_ops:
  assumes "is_op b" "length script < 2 ^ 32"
  shows "FindAndDelete script b =
    (concat (filter (\<lambda>c. c \<noteq> b) (fst (script_ops script))) @ snd (script_ops script),
     count_list (fst (script_ops script)) b)"
proof -
  obtain r q n where f: "fad_loop script b [] 0 0 0 = (r, q, n)" by (metis prod_cases3)
  have loop: "r @ drop q script = concat (filter (\<lambda>c. c \<noteq> b) (fst (script_ops script))) @ snd (script_ops script)"
    "n = count_list (fst (script_ops script)) b"
    using fad_loop_ops [OF f assms] by simp_all
  have "filter (\<lambda>c. c \<noteq> b) (fst (script_ops script)) = fst (script_ops script)" if "n = 0"
    using that loop(2) by (auto simp: count_list_0_iff filter_id_conv)
  then show ?thesis
    using f loop is_op_not_Nil [OF assms(1)] concat_script_ops [of script]
    by (auto simp: FindAndDelete_def)
qed

section \<open>Reading what was built\<close>

lemma le_nat_WRITEDATA_nat:
  "n < 256 ^ k \<Longrightarrow> LENGTH('a::len) = 8 * k \<Longrightarrow> le_nat (WRITEDATA k (word_of_nat n :: 'a word)) = n"
  by (simp add: WRITEDATA_def le_nat_nat_le unat_of_nat power_mult)

definition push_code :: "valtype \<Rightarrow> opcodetype" where
  "push_code v =
     (if length v < OP_PUSHDATA1 then length v else if length v \<le> 0xff then OP_PUSHDATA1
      else if length v \<le> 0xffff then OP_PUSHDATA2 else OP_PUSHDATA4)"

lemma push_data_append: "push_data script v = script @ push_data [] v"
  by (simp add: push_data_def)

lemma GetOp2_operand_rest:
  "pc \<le> length s \<Longrightarrow> length s = pc + n \<Longrightarrow> n < 2 ^ 32 \<Longrightarrow>
   GetOp2_operand s pc opcode n = (True, length s, opcode, drop pc s)"
  by (simp add: GetOp2_operand_def)

lemma GetOp2_push_data:
  assumes "length v < 2 ^ 32"
  shows "GetOp2 (push_data [] v) 0 = (True, length (push_data [] v), push_code v, v)"
proof -
  note rest = GetOp2_operand_rest
  consider "length v < OP_PUSHDATA1" | "\<not> length v < OP_PUSHDATA1" "length v \<le> 0xff"
    | "\<not> length v \<le> 0xff" "length v \<le> 0xffff" | "\<not> length v \<le> 0xffff" by linarith
  then show ?thesis
  proof cases
    case 1
    then have p: "push_data [] v = [word_of_nat (length v)] @ v" and "unat (word_of_nat (length v) :: byte) = length v"
      by (simp_all add: push_data_def unat_of_nat)
    then show ?thesis
      using 1 by (simp add: GetOp2_def Let_def rest push_code_def)
  next
    case 2
    then have p: "push_data [] v = [0x4c, word_of_nat (length v)] @ v" and "unat (word_of_nat (length v) :: byte) = length v"
      by (simp_all add: push_data_def unat_of_nat)
    then show ?thesis
      using 2 by (simp add: GetOp2_def Let_def rest push_code_def)
  next
    case 3
    then have p: "push_data [] v = [0x4d] @ WRITEDATA 2 (word_of_nat (length v) :: 16 word) @ v"
      by (simp add: push_data_def)
    have "le_nat (WRITEDATA 2 (word_of_nat (length v) :: 16 word)) = length v"
      using 3 by (intro le_nat_WRITEDATA_nat) simp_all
    then show ?thesis
      using 3 by (simp add: p GetOp2_def Let_def rest push_code_def)
  next
    case 4
    then have p: "push_data [] v = [0x4e] @ WRITEDATA 4 (word_of_nat (length v) :: u32) @ v"
      by (simp add: push_data_def)
    have "le_nat (WRITEDATA 4 (word_of_nat (length v) :: u32)) = length v"
      using assms by (intro le_nat_WRITEDATA_nat) simp_all
    then show ?thesis
      using 4 assms by (simp add: p GetOp2_def Let_def rest push_code_def)
  qed
qed

lemma is_op_push_data: "length v < 2 ^ 32 \<Longrightarrow> is_op (push_data [] v)"
  by (simp add: is_op_def GetOp_def GetOp2_push_data)

lemma length_push_data_ge: "length v \<le> length (push_data [] v)"
  by (simp add: push_data_def)

lemma GetOp2_at_push:
  assumes "length (push_data script v @ rest) < 2 ^ 32"
  shows "GetOp2 (push_data script v @ rest) (length script) = (True, length (push_data script v), push_code v, v)"
proof -
  have p: "push_data script v = script @ push_data [] v" by (rule push_data_append)
  have "length v < 2 ^ 32" using assms length_push_data_ge [of v] unfolding p by simp
  then have "GetOp2 (push_data [] v @ rest) 0 = (True, length (push_data [] v), push_code v, v)"
    using assms by (intro GetOp2_append GetOp2_push_data) (simp_all add: p)
  then show ?thesis
    using GetOp2_drop [of "length script" "push_data script v @ rest"] by (simp add: p)
qed

section \<open>Properties\<close>

text \<open>
  C21: \<open>FindAndDelete\<close> removes whole operations.  Let the pattern be the encoding of one
  operation, as the signature push and \<open>OP_CODESEPARATOR\<close> are, and let the script be shorter
  than \<open>2^32\<close> bytes.  Then the result is the script without those of its operations that are
  equal to the pattern, followed by the bytes behind the last operation that can be read;
  bytes inside the data of another operation are never removed.  The returned number is the
  number of the operations removed.
\<close>

theorem FindAndDelete_filters:
  assumes "is_op b" "length script < 2 ^ 32"
  shows "FindAndDelete script b =
    (concat (filter (\<lambda>c. c \<noteq> b) (fst (script_ops script))) @ snd (script_ops script),
     count_list (fst (script_ops script)) b)"
  by (rule FindAndDelete_ops [OF assms])

theorem FindAndDelete_filters_witness:
  "is_op [0x02, 0x07, 0x08] \<and> FindAndDelete [0x02, 0x07, 0x08, 0x76, 0x02, 0x07, 0x08, 0x01, 0x02] [0x02, 0x07, 0x08] =
     ([0x76, 0x01, 0x02], 2)"
proof -
  have op: "is_op [0x02, 0x07, 0x08]"
    by (simp add: is_op_def GetOp_def GetOp2_def GetOp2_operand_def Let_def)
  have "script_ops [0x02, 0x07, 0x08, 0x76, 0x02, 0x07, 0x08, 0x01, 0x02] =
      ([[0x02, 0x07, 0x08], [0x76], [0x02, 0x07, 0x08], [0x01, 0x02]], [])"
    by (simp add: script_ops.simps GetOp_def GetOp2_def GetOp2_operand_def Let_def)
  then show ?thesis
    using op FindAndDelete_filters [OF op, of "[0x02, 0x07, 0x08, 0x76, 0x02, 0x07, 0x08, 0x01, 0x02]"] by simp
qed

end
