(* ===== verification/Interpreter.thy ===== *)
theory Interpreter
  imports Script
begin

unbundle bit_operations_syntax

text \<open>
  The script interpreter of \<^verbatim>\<open>src/src/script/interpreter.cpp\<close>: \<open>EvalScript\<close> with one definition
  for every group of \<open>case\<close> labels of its switch, the encoding checks on signatures and keys,
  and \<open>VerifyScript\<close>.

  \<^item> A stack is the vector of the source: \<open>push_back\<close> appends, \<open>stacktop(-i)\<close> is the \<open>i\<close>-th
    element from the end and throws out of range, as \<open>at\<close> does.
  \<^item> Every way out of the switch is a value.  \<open>Return_error\<close> is a \<open>return set_error(...)\<close>,
    \<open>Throw\<close> an exception (caught by \<open>EvalScript\<close>, which reports an unknown error), \<open>Abort\<close> a
    failed assertion.  The stack that a failed evaluation leaves behind is not part of the
    result; of the callers, only \<open>CombineSignatures\<close> in \<open>sign.cpp\<close> looks at it.
  \<^item> The signature checker is the record of its three virtual functions, as the interpreter
    sees it.  The hash functions and \<open>CPubKey::CheckLowS\<close> are functions of the record
    \<open>crypto\<close>; every theorem holds for all of them.

  The loop of \<open>EvalScript\<close> ends because \<open>GetOp2\<close> moves the iterator forward; \<open>eval_step\<close> is one
  round of it.  The lemmas show, for every opcode, that no access leaves the stack and no
  assertion fails, and that the limits on element size, stack size and operation count hold
  in every reachable state.
\<close>

section \<open>Errors and flags\<close>

datatype ScriptError =
    SCRIPT_ERR_OK | SCRIPT_ERR_UNKNOWN_ERROR | SCRIPT_ERR_EVAL_FALSE | SCRIPT_ERR_OP_RETURN
    | SCRIPT_ERR_SCRIPT_SIZE | SCRIPT_ERR_PUSH_SIZE | SCRIPT_ERR_OP_COUNT | SCRIPT_ERR_STACK_SIZE
    | SCRIPT_ERR_SIG_COUNT | SCRIPT_ERR_PUBKEY_COUNT | SCRIPT_ERR_VERIFY | SCRIPT_ERR_EQUALVERIFY
    | SCRIPT_ERR_CHECKCOLDSTAKEVERIFY | SCRIPT_ERR_CHECKMULTISIGVERIFY | SCRIPT_ERR_CHECKSIGVERIFY
    | SCRIPT_ERR_NUMEQUALVERIFY | SCRIPT_ERR_BAD_OPCODE | SCRIPT_ERR_DISABLED_OPCODE
    | SCRIPT_ERR_INVALID_STACK_OPERATION | SCRIPT_ERR_INVALID_ALTSTACK_OPERATION
    | SCRIPT_ERR_UNBALANCED_CONDITIONAL | SCRIPT_ERR_NEGATIVE_LOCKTIME
    | SCRIPT_ERR_UNSATISFIED_LOCKTIME | SCRIPT_ERR_SIG_HASHTYPE | SCRIPT_ERR_SIG_DER
    | SCRIPT_ERR_MINIMALDATA | SCRIPT_ERR_SIG_PUSHONLY | SCRIPT_ERR_SIG_HIGH_S
    | SCRIPT_ERR_SIG_NULLDUMMY | SCRIPT_ERR_PUBKEYTYPE | SCRIPT_ERR_DISCOURAGE_UPGRADABLE_NOPS
    | SCRIPT_ERR_ERROR_COUNT

datatype exception = Out_of_range | Stack_empty | Bad_number scriptnum_error

datatype failure = Return_error ScriptError | Throw exception | Abort

type_synonym 'a outcome = "failure + 'a"

abbreviation set_error :: "ScriptError \<Rightarrow> 'a outcome" where
  "set_error e \<equiv> Inl (Return_error e)"

definition SCRIPT_VERIFY_P2SH :: u32 where
  "SCRIPT_VERIFY_P2SH = push_bit 0 1"

definition SCRIPT_VERIFY_STRICTENC :: u32 where
  "SCRIPT_VERIFY_STRICTENC = push_bit 1 1"

definition SCRIPT_VERIFY_DERSIG :: u32 where
  "SCRIPT_VERIFY_DERSIG = push_bit 2 1"

definition SCRIPT_VERIFY_LOW_S :: u32 where
  "SCRIPT_VERIFY_LOW_S = push_bit 3 1"

definition SCRIPT_VERIFY_NULLDUMMY :: u32 where
  "SCRIPT_VERIFY_NULLDUMMY = push_bit 4 1"

definition SCRIPT_VERIFY_SIGPUSHONLY :: u32 where
  "SCRIPT_VERIFY_SIGPUSHONLY = push_bit 5 1"

definition SCRIPT_VERIFY_MINIMALDATA :: u32 where
  "SCRIPT_VERIFY_MINIMALDATA = push_bit 6 1"

definition SCRIPT_VERIFY_DISCOURAGE_UPGRADABLE_NOPS :: u32 where
  "SCRIPT_VERIFY_DISCOURAGE_UPGRADABLE_NOPS = push_bit 7 1"

definition SCRIPT_VERIFY_CLEANSTACK :: u32 where
  "SCRIPT_VERIFY_CLEANSTACK = push_bit 8 1"

definition SCRIPT_VERIFY_CHECKLOCKTIMEVERIFY :: u32 where
  "SCRIPT_VERIFY_CHECKLOCKTIMEVERIFY = push_bit 9 1"

definition SIGHASH_ALL :: byte where
  "SIGHASH_ALL = 1"

definition SIGHASH_NONE :: byte where
  "SIGHASH_NONE = 2"

definition SIGHASH_SINGLE :: byte where
  "SIGHASH_SINGLE = 3"

definition SIGHASH_ANYONECANPAY :: byte where
  "SIGHASH_ANYONECANPAY = 0x80"

section \<open>The environment and the state\<close>

record BaseSignatureChecker =
  CheckSig :: "bytes \<Rightarrow> bytes \<Rightarrow> bytes \<Rightarrow> bool"
  CheckLockTime :: "int64 \<Rightarrow> bool"
  CheckColdStake :: "bytes \<Rightarrow> bool"

record crypto =
  sha1 :: "bytes \<Rightarrow> 160 word"
  ripemd160 :: "bytes \<Rightarrow> 160 word"
  sha256 :: "bytes \<Rightarrow> 256 word"
  CheckLowS :: "bytes \<Rightarrow> bool"

record eval_env =
  env_script :: bytes
  env_flags :: u32
  env_checker :: BaseSignatureChecker
  env_crypto :: crypto

record eval_state =
  eval_stack :: "valtype list"
  eval_altstack :: "valtype list"
  eval_vfExec :: "bool list"
  eval_nOpCount :: nat
  eval_pc :: nat
  eval_pbegincodehash :: nat

definition flag_set :: "eval_env \<Rightarrow> u32 \<Rightarrow> bool" where
  "flag_set env f \<longleftrightarrow> env_flags env AND f \<noteq> 0"

abbreviation fRequireMinimal :: "eval_env \<Rightarrow> bool" where
  "fRequireMinimal env \<equiv> flag_set env SCRIPT_VERIFY_MINIMALDATA"

definition vchFalse :: valtype where
  "vchFalse = []"

definition vchTrue :: valtype where
  "vchTrue = [1]"

fun bind :: "'e + 'a \<Rightarrow> ('a \<Rightarrow> 'e + 'b) \<Rightarrow> 'e + 'b" where
  "bind (Inl e) k = Inl e"
| "bind (Inr a) k = k a"

lemma bind_cong [fundef_cong]: "r = r' \<Longrightarrow> (\<And>a. r' = Inr a \<Longrightarrow> k a = k' a) \<Longrightarrow> bind r k = bind r' k'"
  by (cases r) auto

section \<open>Values and the stack\<close>

fun CastToBool :: "valtype \<Rightarrow> bool" where
  "CastToBool [] = False"
| "CastToBool (b # vch) = (if b \<noteq> 0 then \<not> (vch = [] \<and> b = 0x80) else CastToBool vch)"

definition stacktop :: "valtype list \<Rightarrow> nat \<Rightarrow> valtype outcome" where
  "stacktop stack i =
     (if 1 \<le> i \<and> i \<le> length stack then Inr (stack ! (length stack - i)) else Inl (Throw Out_of_range))"

definition popstack :: "valtype list \<Rightarrow> valtype list outcome" where
  "popstack stack = (if stack = [] then Inl (Throw Stack_empty) else Inr (butlast stack))"

fun pop_n :: "nat \<Rightarrow> valtype list \<Rightarrow> valtype list outcome" where
  "pop_n 0 stack = Inr stack"
| "pop_n (Suc n) stack = bind (popstack stack) (pop_n n)"

text \<open>\<open>swap(stacktop(-i), stacktop(-j))\<close>.\<close>

definition swap_top :: "nat \<Rightarrow> nat \<Rightarrow> valtype list \<Rightarrow> valtype list outcome" where
  "swap_top i j stack =
     bind (stacktop stack i) (\<lambda>vi. bind (stacktop stack j) (\<lambda>vj.
       Inr (stack[length stack - i := vj, length stack - j := vi])))"

definition script_num :: "eval_env \<Rightarrow> nat \<Rightarrow> valtype \<Rightarrow> int64 outcome" where
  "script_num env nMaxNumSize vch =
     (case CScriptNum vch (fRequireMinimal env) nMaxNumSize of
        Inl e \<Rightarrow> Inl (Throw (Bad_number e)) | Inr n \<Rightarrow> Inr n)"

definition asserted :: "'a option \<Rightarrow> 'a outcome" where
  "asserted r = (case r of None \<Rightarrow> Inl Abort | Some a \<Rightarrow> Inr a)"

section \<open>Encodings of keys and signatures\<close>

definition IsCompressedOrUncompressedPubKey :: "valtype \<Rightarrow> bool" where
  "IsCompressedOrUncompressedPubKey vchPubKey =
     (if length vchPubKey < 33 then False
      else if vchPubKey ! 0 = 0x04 then length vchPubKey = 65
      else if vchPubKey ! 0 = 0x02 \<or> vchPubKey ! 0 = 0x03 then length vchPubKey = 33
      else False)"

definition IsValidSignatureEncoding :: "bytes \<Rightarrow> bool" where
  "IsValidSignatureEncoding sig =
     (if length sig < 9 then False
      else if length sig > 73 then False
      else if sig ! 0 \<noteq> 0x30 then False
      else if unat (sig ! 1) \<noteq> length sig - 3 then False
      else let lenR = unat (sig ! 3)
      in if 5 + lenR \<ge> length sig then False
      else let lenS = unat (sig ! (5 + lenR))
      in if lenR + lenS + 7 \<noteq> length sig then False
      else if sig ! 2 \<noteq> 0x02 then False
      else if lenR = 0 then False
      else if sig ! 4 AND 0x80 \<noteq> 0 then False
      else if lenR > 1 \<and> sig ! 4 = 0x00 \<and> sig ! 5 AND 0x80 = 0 then False
      else if sig ! (lenR + 4) \<noteq> 0x02 then False
      else if lenS = 0 then False
      else if sig ! (lenR + 6) AND 0x80 \<noteq> 0 then False
      else if lenS > 1 \<and> sig ! (lenR + 6) = 0x00 \<and> sig ! (lenR + 7) AND 0x80 = 0 then False
      else True)"

definition IsLowDERSignature :: "eval_env \<Rightarrow> valtype \<Rightarrow> unit outcome" where
  "IsLowDERSignature env vchSig =
     (if \<not> IsValidSignatureEncoding vchSig then set_error SCRIPT_ERR_SIG_DER
      else if \<not> CheckLowS (env_crypto env) (butlast vchSig) then set_error SCRIPT_ERR_SIG_HIGH_S
      else Inr ())"

definition IsDefinedHashtypeSignature :: "valtype \<Rightarrow> bool" where
  "IsDefinedHashtypeSignature vchSig =
     (if length vchSig = 0 then False
      else let nHashType = last vchSig AND NOT SIGHASH_ANYONECANPAY
           in \<not> (nHashType < SIGHASH_ALL \<or> nHashType > SIGHASH_SINGLE))"

definition CheckSignatureEncoding :: "eval_env \<Rightarrow> valtype \<Rightarrow> unit outcome" where
  "CheckSignatureEncoding env vchSig =
     (if length vchSig = 0 then Inr ()
      else if flag_set env (SCRIPT_VERIFY_DERSIG OR SCRIPT_VERIFY_LOW_S OR SCRIPT_VERIFY_STRICTENC)
          \<and> \<not> IsValidSignatureEncoding vchSig
        then set_error SCRIPT_ERR_SIG_DER
      else if flag_set env SCRIPT_VERIFY_LOW_S \<and> IsLowDERSignature env vchSig \<noteq> Inr ()
        then IsLowDERSignature env vchSig
      else if flag_set env SCRIPT_VERIFY_STRICTENC \<and> \<not> IsDefinedHashtypeSignature vchSig
        then set_error SCRIPT_ERR_SIG_HASHTYPE
      else Inr ())"

definition CheckPubKeyEncoding :: "eval_env \<Rightarrow> valtype \<Rightarrow> unit outcome" where
  "CheckPubKeyEncoding env vchPubKey =
     (if flag_set env SCRIPT_VERIFY_STRICTENC \<and> \<not> IsCompressedOrUncompressedPubKey vchPubKey
      then set_error SCRIPT_ERR_PUBKEYTYPE else Inr ())"

definition CheckMinimalPush :: "valtype \<Rightarrow> opcodetype \<Rightarrow> bool" where
  "CheckMinimalPush data opcode =
     (if length data = 0 then opcode = OP_0
      else if length data = 1 \<and> data ! 0 \<ge> 1 \<and> data ! 0 \<le> 16 then opcode = OP_1 + (unat (data ! 0) - 1)
      else if length data = 1 \<and> data ! 0 = 0x81 then opcode = OP_1NEGATE
      else if length data \<le> 75 then opcode = length data
      else if length data \<le> 255 then opcode = OP_PUSHDATA1
      else if length data \<le> 65535 then opcode = OP_PUSHDATA2
      else True)"

section \<open>Push and control\<close>

text \<open>
  One definition for every group of \<open>case\<close> labels.  Those that change the main stack only
  take and return it; the others work on the whole state.
\<close>

definition op_small_number :: "opcodetype \<Rightarrow> valtype list \<Rightarrow> valtype list outcome" where
  "op_small_number opcode stack =
     Inr (stack @ [getvch (word_of_int (int opcode - int (OP_1 - 1)))])"

definition op_checklocktimeverify :: "eval_env \<Rightarrow> valtype list \<Rightarrow> valtype list outcome" where
  "op_checklocktimeverify env stack =
     (if \<not> flag_set env SCRIPT_VERIFY_CHECKLOCKTIMEVERIFY then
        (if flag_set env SCRIPT_VERIFY_DISCOURAGE_UPGRADABLE_NOPS
         then set_error SCRIPT_ERR_DISCOURAGE_UPGRADABLE_NOPS else Inr stack)
      else if length stack < 1 then set_error SCRIPT_ERR_INVALID_STACK_OPERATION
      else bind (stacktop stack 1) (\<lambda>vch. bind (script_num env 5 vch) (\<lambda>nLockTime.
        if sint nLockTime < 0 then set_error SCRIPT_ERR_NEGATIVE_LOCKTIME
        else if \<not> CheckLockTime (env_checker env) nLockTime then set_error SCRIPT_ERR_UNSATISFIED_LOCKTIME
        else Inr stack)))"

definition op_nop_reserved :: "eval_env \<Rightarrow> valtype list \<Rightarrow> valtype list outcome" where
  "op_nop_reserved env stack =
     (if flag_set env SCRIPT_VERIFY_DISCOURAGE_UPGRADABLE_NOPS
      then set_error SCRIPT_ERR_DISCOURAGE_UPGRADABLE_NOPS else Inr stack)"

definition op_if :: "bool \<Rightarrow> opcodetype \<Rightarrow> eval_state \<Rightarrow> eval_state outcome" where
  "op_if fExec opcode st =
     (if fExec then
        (if length (eval_stack st) < 1 then set_error SCRIPT_ERR_UNBALANCED_CONDITIONAL
         else bind (stacktop (eval_stack st) 1) (\<lambda>vch.
           let fValue = CastToBool vch;
               fValue = (if opcode = OP_NOTIF then \<not> fValue else fValue)
           in bind (popstack (eval_stack st)) (\<lambda>stack.
             Inr (st\<lparr>eval_stack := stack, eval_vfExec := eval_vfExec st @ [fValue]\<rparr>))))
      else Inr (st\<lparr>eval_vfExec := eval_vfExec st @ [False]\<rparr>))"

definition op_else :: "eval_state \<Rightarrow> eval_state outcome" where
  "op_else st =
     (if eval_vfExec st = [] then set_error SCRIPT_ERR_UNBALANCED_CONDITIONAL
      else Inr (st\<lparr>eval_vfExec := butlast (eval_vfExec st) @ [\<not> last (eval_vfExec st)]\<rparr>))"

definition op_endif :: "eval_state \<Rightarrow> eval_state outcome" where
  "op_endif st =
     (if eval_vfExec st = [] then set_error SCRIPT_ERR_UNBALANCED_CONDITIONAL
      else Inr (st\<lparr>eval_vfExec := butlast (eval_vfExec st)\<rparr>))"

definition op_verify :: "valtype list \<Rightarrow> valtype list outcome" where
  "op_verify stack =
     (if length stack < 1 then set_error SCRIPT_ERR_INVALID_STACK_OPERATION
      else bind (stacktop stack 1) (\<lambda>vch.
        if CastToBool vch then popstack stack else set_error SCRIPT_ERR_VERIFY))"

section \<open>Stack operations\<close>

definition op_toaltstack :: "eval_state \<Rightarrow> eval_state outcome" where
  "op_toaltstack st =
     (if length (eval_stack st) < 1 then set_error SCRIPT_ERR_INVALID_STACK_OPERATION
      else bind (stacktop (eval_stack st) 1) (\<lambda>vch. bind (popstack (eval_stack st)) (\<lambda>stack.
        Inr (st\<lparr>eval_altstack := eval_altstack st @ [vch], eval_stack := stack\<rparr>))))"

definition op_fromaltstack :: "eval_state \<Rightarrow> eval_state outcome" where
  "op_fromaltstack st =
     (if length (eval_altstack st) < 1 then set_error SCRIPT_ERR_INVALID_ALTSTACK_OPERATION
      else bind (stacktop (eval_altstack st) 1) (\<lambda>vch. bind (popstack (eval_altstack st)) (\<lambda>altstack.
        Inr (st\<lparr>eval_stack := eval_stack st @ [vch], eval_altstack := altstack\<rparr>))))"

definition op_2drop :: "valtype list \<Rightarrow> valtype list outcome" where
  "op_2drop stack =
     (if length stack < 2 then set_error SCRIPT_ERR_INVALID_STACK_OPERATION
      else bind (popstack stack) popstack)"

definition op_2dup :: "valtype list \<Rightarrow> valtype list outcome" where
  "op_2dup stack =
     (if length stack < 2 then set_error SCRIPT_ERR_INVALID_STACK_OPERATION
      else bind (stacktop stack 2) (\<lambda>vch1. bind (stacktop stack 1) (\<lambda>vch2.
        Inr (stack @ [vch1] @ [vch2]))))"

definition op_3dup :: "valtype list \<Rightarrow> valtype list outcome" where
  "op_3dup stack =
     (if length stack < 3 then set_error SCRIPT_ERR_INVALID_STACK_OPERATION
      else bind (stacktop stack 3) (\<lambda>vch1. bind (stacktop stack 2) (\<lambda>vch2. bind (stacktop stack 1) (\<lambda>vch3.
        Inr (stack @ [vch1] @ [vch2] @ [vch3])))))"

definition op_2over :: "valtype list \<Rightarrow> valtype list outcome" where
  "op_2over stack =
     (if length stack < 4 then set_error SCRIPT_ERR_INVALID_STACK_OPERATION
      else bind (stacktop stack 4) (\<lambda>vch1. bind (stacktop stack 3) (\<lambda>vch2.
        Inr (stack @ [vch1] @ [vch2]))))"

text \<open>\<open>stack.erase(stack.end() - a, stack.end() - b)\<close>.\<close>

definition erase_top :: "nat \<Rightarrow> nat \<Rightarrow> valtype list \<Rightarrow> valtype list" where
  "erase_top a b stack = take (length stack - a) stack @ drop (length stack - b) stack"

definition op_2rot :: "valtype list \<Rightarrow> valtype list outcome" where
  "op_2rot stack =
     (if length stack < 6 then set_error SCRIPT_ERR_INVALID_STACK_OPERATION
      else bind (stacktop stack 6) (\<lambda>vch1. bind (stacktop stack 5) (\<lambda>vch2.
        Inr (erase_top 6 4 stack @ [vch1] @ [vch2]))))"

definition op_2swap :: "valtype list \<Rightarrow> valtype list outcome" where
  "op_2swap stack =
     (if length stack < 4 then set_error SCRIPT_ERR_INVALID_STACK_OPERATION
      else bind (swap_top 4 2 stack) (swap_top 3 1))"

definition op_ifdup :: "valtype list \<Rightarrow> valtype list outcome" where
  "op_ifdup stack =
     (if length stack < 1 then set_error SCRIPT_ERR_INVALID_STACK_OPERATION
      else bind (stacktop stack 1) (\<lambda>vch. Inr (if CastToBool vch then stack @ [vch] else stack)))"

definition op_depth :: "valtype list \<Rightarrow> valtype list outcome" where
  "op_depth stack = Inr (stack @ [getvch (word_of_nat (length stack))])"

definition op_drop :: "valtype list \<Rightarrow> valtype list outcome" where
  "op_drop stack =
     (if length stack < 1 then set_error SCRIPT_ERR_INVALID_STACK_OPERATION else popstack stack)"

definition op_dup :: "valtype list \<Rightarrow> valtype list outcome" where
  "op_dup stack =
     (if length stack < 1 then set_error SCRIPT_ERR_INVALID_STACK_OPERATION
      else bind (stacktop stack 1) (\<lambda>vch. Inr (stack @ [vch])))"

definition op_nip :: "valtype list \<Rightarrow> valtype list outcome" where
  "op_nip stack =
     (if length stack < 2 then set_error SCRIPT_ERR_INVALID_STACK_OPERATION
      else Inr (erase_top 2 1 stack))"

definition op_over :: "valtype list \<Rightarrow> valtype list outcome" where
  "op_over stack =
     (if length stack < 2 then set_error SCRIPT_ERR_INVALID_STACK_OPERATION
      else bind (stacktop stack 2) (\<lambda>vch. Inr (stack @ [vch])))"

definition op_pick_roll :: "eval_env \<Rightarrow> opcodetype \<Rightarrow> valtype list \<Rightarrow> valtype list outcome" where
  "op_pick_roll env opcode stack =
     (if length stack < 2 then set_error SCRIPT_ERR_INVALID_STACK_OPERATION
      else bind (stacktop stack 1) (\<lambda>vch. bind (script_num env nDefaultMaxNumSize vch) (\<lambda>bn.
        let n = getint bn
        in bind (popstack stack) (\<lambda>stack.
          if n < 0 \<or> n \<ge> int (length stack) then set_error SCRIPT_ERR_INVALID_STACK_OPERATION
          else bind (stacktop stack (nat n + 1)) (\<lambda>vch.
            Inr ((if opcode = OP_ROLL then erase_top (nat n + 1) (nat n) stack else stack) @ [vch]))))))"

definition op_rot :: "valtype list \<Rightarrow> valtype list outcome" where
  "op_rot stack =
     (if length stack < 3 then set_error SCRIPT_ERR_INVALID_STACK_OPERATION
      else bind (swap_top 3 2 stack) (swap_top 2 1))"

definition op_swap :: "valtype list \<Rightarrow> valtype list outcome" where
  "op_swap stack =
     (if length stack < 2 then set_error SCRIPT_ERR_INVALID_STACK_OPERATION
      else swap_top 2 1 stack)"

definition op_tuck :: "valtype list \<Rightarrow> valtype list outcome" where
  "op_tuck stack =
     (if length stack < 2 then set_error SCRIPT_ERR_INVALID_STACK_OPERATION
      else bind (stacktop stack 1) (\<lambda>vch.
        Inr (take (length stack - 2) stack @ [vch] @ drop (length stack - 2) stack)))"

definition op_size :: "valtype list \<Rightarrow> valtype list outcome" where
  "op_size stack =
     (if length stack < 1 then set_error SCRIPT_ERR_INVALID_STACK_OPERATION
      else bind (stacktop stack 1) (\<lambda>vch. Inr (stack @ [getvch (word_of_nat (length vch))])))"

section \<open>Comparison and arithmetic\<close>

definition op_equal :: "opcodetype \<Rightarrow> valtype list \<Rightarrow> valtype list outcome" where
  "op_equal opcode stack =
     (if length stack < 2 then set_error SCRIPT_ERR_INVALID_STACK_OPERATION
      else bind (stacktop stack 2) (\<lambda>vch1. bind (stacktop stack 1) (\<lambda>vch2.
        let fEqual = (vch1 = vch2)
        in bind (pop_n 2 stack) (\<lambda>stack.
          let stack = stack @ [if fEqual then vchTrue else vchFalse]
          in if opcode = OP_EQUALVERIFY
             then (if fEqual then popstack stack else set_error SCRIPT_ERR_EQUALVERIFY)
             else Inr stack))))"

definition unary_num :: "opcodetype \<Rightarrow> int64 \<Rightarrow> int64 outcome" where
  "unary_num opcode bn =
     (if opcode = OP_1ADD then asserted (num_add_assign bn 1)
      else if opcode = OP_1SUB then asserted (num_sub_assign bn 1)
      else if opcode = OP_NEGATE then asserted (num_neg bn)
      else if opcode = OP_ABS then (if sint bn < 0 then asserted (num_neg bn) else Inr bn)
      else if opcode = OP_NOT then Inr (of_bool (bn = 0))
      else if opcode = OP_0NOTEQUAL then Inr (of_bool (bn \<noteq> 0))
      else Inl Abort)"

definition op_unary :: "eval_env \<Rightarrow> opcodetype \<Rightarrow> valtype list \<Rightarrow> valtype list outcome" where
  "op_unary env opcode stack =
     (if length stack < 1 then set_error SCRIPT_ERR_INVALID_STACK_OPERATION
      else bind (stacktop stack 1) (\<lambda>vch. bind (script_num env nDefaultMaxNumSize vch) (\<lambda>bn.
        bind (unary_num opcode bn) (\<lambda>bn. bind (popstack stack) (\<lambda>stack.
          Inr (stack @ [getvch bn]))))))"

definition binary_num :: "opcodetype \<Rightarrow> int64 \<Rightarrow> int64 \<Rightarrow> int64 outcome" where
  "binary_num opcode bn1 bn2 =
     (if opcode = OP_ADD then Inr (num_add bn1 bn2)
      else if opcode = OP_SUB then Inr (num_sub bn1 bn2)
      else if opcode = OP_BOOLAND then Inr (of_bool (bn1 \<noteq> 0 \<and> bn2 \<noteq> 0))
      else if opcode = OP_BOOLOR then Inr (of_bool (bn1 \<noteq> 0 \<or> bn2 \<noteq> 0))
      else if opcode = OP_NUMEQUAL then Inr (of_bool (bn1 = bn2))
      else if opcode = OP_NUMEQUALVERIFY then Inr (of_bool (bn1 = bn2))
      else if opcode = OP_NUMNOTEQUAL then Inr (of_bool (bn1 \<noteq> bn2))
      else if opcode = OP_LESSTHAN then Inr (of_bool (sint bn1 < sint bn2))
      else if opcode = OP_GREATERTHAN then Inr (of_bool (sint bn1 > sint bn2))
      else if opcode = OP_LESSTHANOREQUAL then Inr (of_bool (sint bn1 \<le> sint bn2))
      else if opcode = OP_GREATERTHANOREQUAL then Inr (of_bool (sint bn1 \<ge> sint bn2))
      else if opcode = OP_MIN then Inr (if sint bn1 < sint bn2 then bn1 else bn2)
      else if opcode = OP_MAX then Inr (if sint bn1 > sint bn2 then bn1 else bn2)
      else Inl Abort)"

definition op_binary :: "eval_env \<Rightarrow> opcodetype \<Rightarrow> valtype list \<Rightarrow> valtype list outcome" where
  "op_binary env opcode stack =
     (if length stack < 2 then set_error SCRIPT_ERR_INVALID_STACK_OPERATION
      else bind (stacktop stack 2) (\<lambda>vch1. bind (script_num env nDefaultMaxNumSize vch1) (\<lambda>bn1.
        bind (stacktop stack 1) (\<lambda>vch2. bind (script_num env nDefaultMaxNumSize vch2) (\<lambda>bn2.
        bind (binary_num opcode bn1 bn2) (\<lambda>bn. bind (pop_n 2 stack) (\<lambda>stack.
          let stack = stack @ [getvch bn]
          in if opcode = OP_NUMEQUALVERIFY
             then bind (stacktop stack 1) (\<lambda>vch.
               if CastToBool vch then popstack stack else set_error SCRIPT_ERR_NUMEQUALVERIFY)
             else Inr stack)))))))"

definition op_within :: "eval_env \<Rightarrow> valtype list \<Rightarrow> valtype list outcome" where
  "op_within env stack =
     (if length stack < 3 then set_error SCRIPT_ERR_INVALID_STACK_OPERATION
      else bind (stacktop stack 3) (\<lambda>vch1. bind (script_num env nDefaultMaxNumSize vch1) (\<lambda>bn1.
        bind (stacktop stack 2) (\<lambda>vch2. bind (script_num env nDefaultMaxNumSize vch2) (\<lambda>bn2.
        bind (stacktop stack 1) (\<lambda>vch3. bind (script_num env nDefaultMaxNumSize vch3) (\<lambda>bn3.
        let fValue = (sint bn2 \<le> sint bn1 \<and> sint bn1 < sint bn3)
        in bind (pop_n 3 stack) (\<lambda>stack.
          Inr (stack @ [if fValue then vchTrue else vchFalse])))))))))"

section \<open>Hashes and signatures\<close>

definition Hash160 :: "crypto \<Rightarrow> bytes \<Rightarrow> 160 word" where
  "Hash160 c data = ripemd160 c (WRITEDATA 32 (sha256 c data))"

definition Hash256 :: "crypto \<Rightarrow> bytes \<Rightarrow> 256 word" where
  "Hash256 c data = sha256 c (WRITEDATA 32 (sha256 c data))"

definition vchHash :: "crypto \<Rightarrow> opcodetype \<Rightarrow> valtype \<Rightarrow> valtype" where
  "vchHash c opcode vch =
     (if opcode = OP_RIPEMD160 then WRITEDATA 20 (ripemd160 c vch)
      else if opcode = OP_SHA1 then WRITEDATA 20 (sha1 c vch)
      else if opcode = OP_SHA256 then WRITEDATA 32 (sha256 c vch)
      else if opcode = OP_HASH160 then WRITEDATA 20 (Hash160 c vch)
      else WRITEDATA 32 (Hash256 c vch))"

definition op_hash :: "eval_env \<Rightarrow> opcodetype \<Rightarrow> valtype list \<Rightarrow> valtype list outcome" where
  "op_hash env opcode stack =
     (if length stack < 1 then set_error SCRIPT_ERR_INVALID_STACK_OPERATION
      else bind (stacktop stack 1) (\<lambda>vch. bind (popstack stack) (\<lambda>stack.
        Inr (stack @ [vchHash (env_crypto env) opcode vch]))))"

definition op_codeseparator :: "eval_state \<Rightarrow> eval_state outcome" where
  "op_codeseparator st = Inr (st\<lparr>eval_pbegincodehash := eval_pc st\<rparr>)"

definition op_checksig :: "eval_env \<Rightarrow> opcodetype \<Rightarrow> nat \<Rightarrow> valtype list \<Rightarrow> valtype list outcome" where
  "op_checksig env opcode pbegincodehash stack =
     (if length stack < 2 then set_error SCRIPT_ERR_INVALID_STACK_OPERATION
      else bind (stacktop stack 2) (\<lambda>vchSig. bind (stacktop stack 1) (\<lambda>vchPubKey.
        let scriptCode = drop pbegincodehash (env_script env);
            scriptCode = fst (FindAndDelete scriptCode (push_data [] vchSig))
        in bind (CheckSignatureEncoding env vchSig) (\<lambda>_. bind (CheckPubKeyEncoding env vchPubKey) (\<lambda>_.
          let fSuccess = CheckSig (env_checker env) vchSig vchPubKey scriptCode
          in bind (pop_n 2 stack) (\<lambda>stack.
            let stack = stack @ [if fSuccess then vchTrue else vchFalse]
            in if opcode = OP_CHECKSIGVERIFY
               then (if fSuccess then popstack stack else set_error SCRIPT_ERR_CHECKSIGVERIFY)
               else Inr stack))))))"

text \<open>The loop that drops the signatures, and the loop that matches signatures and keys.\<close>

fun delete_sigs :: "valtype list \<Rightarrow> nat \<Rightarrow> nat \<Rightarrow> bytes \<Rightarrow> bytes outcome" where
  "delete_sigs stack isig 0 scriptCode = Inr scriptCode"
| "delete_sigs stack isig (Suc k) scriptCode =
     bind (stacktop stack isig) (\<lambda>vchSig.
       delete_sigs stack (isig + 1) k (fst (FindAndDelete scriptCode (push_data [] vchSig))))"

function multisig_loop ::
  "eval_env \<Rightarrow> valtype list \<Rightarrow> bytes \<Rightarrow> nat \<Rightarrow> nat \<Rightarrow> int \<Rightarrow> int \<Rightarrow> bool \<Rightarrow> bool outcome" where
  "multisig_loop env stack scriptCode isig ikey nSigsCount nKeysCount fSuccess =
     (if fSuccess \<and> nSigsCount > 0 then
        bind (stacktop stack isig) (\<lambda>vchSig. bind (stacktop stack ikey) (\<lambda>vchPubKey.
        bind (CheckSignatureEncoding env vchSig) (\<lambda>_. bind (CheckPubKeyEncoding env vchPubKey) (\<lambda>_.
          let fOk = CheckSig (env_checker env) vchSig vchPubKey scriptCode;
              isig = (if fOk then isig + 1 else isig);
              nSigsCount = (if fOk then nSigsCount - 1 else nSigsCount);
              ikey = ikey + 1;
              nKeysCount = nKeysCount - 1
          in multisig_loop env stack scriptCode isig ikey nSigsCount nKeysCount (\<not> nSigsCount > nKeysCount)))))
      else Inr fSuccess)"
  by pat_completeness auto
termination
  by (relation "measure (\<lambda>(env, stack, code, isig, ikey, s, k, ok). if ok then nat (k + 1) + 1 else 0)") auto

declare multisig_loop.simps [simp del]

definition op_checkmultisig :: "eval_env \<Rightarrow> opcodetype \<Rightarrow> eval_state \<Rightarrow> eval_state outcome" where
  "op_checkmultisig env opcode st =
     (let stack = eval_stack st in
      if length stack < 1 then set_error SCRIPT_ERR_INVALID_STACK_OPERATION
      else bind (stacktop stack 1) (\<lambda>vch. bind (script_num env nDefaultMaxNumSize vch) (\<lambda>bn.
        let nKeysCount = getint bn
        in if nKeysCount < 0 \<or> nKeysCount > 20 then set_error SCRIPT_ERR_PUBKEY_COUNT
        else let nOpCount = eval_nOpCount st + nat nKeysCount
        in if nOpCount > 201 then set_error SCRIPT_ERR_OP_COUNT
        else let ikey = 2; i = 2 + nat nKeysCount
        in if length stack < i then set_error SCRIPT_ERR_INVALID_STACK_OPERATION
        else bind (stacktop stack i) (\<lambda>vch. bind (script_num env nDefaultMaxNumSize vch) (\<lambda>bn.
          let nSigsCount = getint bn
          in if nSigsCount < 0 \<or> nSigsCount > nKeysCount then set_error SCRIPT_ERR_SIG_COUNT
          else let isig = i + 1; i = i + 1 + nat nSigsCount
          in if length stack < i then set_error SCRIPT_ERR_INVALID_STACK_OPERATION
          else bind (delete_sigs stack isig (nat nSigsCount) (drop (eval_pbegincodehash st) (env_script env)))
            (\<lambda>scriptCode.
            bind (multisig_loop env stack scriptCode isig ikey nSigsCount nKeysCount True) (\<lambda>fSuccess.
            bind (pop_n (i - 1) stack) (\<lambda>stack.
              if length stack < 1 then set_error SCRIPT_ERR_INVALID_STACK_OPERATION
              else bind (stacktop stack 1) (\<lambda>dummy.
                if flag_set env SCRIPT_VERIFY_NULLDUMMY \<and> length dummy \<noteq> 0
                then set_error SCRIPT_ERR_SIG_NULLDUMMY
                else bind (popstack stack) (\<lambda>stack.
                  let stack = stack @ [if fSuccess then vchTrue else vchFalse];
                      st = st\<lparr>eval_nOpCount := nOpCount\<rparr>
                  in if opcode = OP_CHECKMULTISIGVERIFY
                     then (if fSuccess
                           then bind (popstack stack) (\<lambda>stack. Inr (st\<lparr>eval_stack := stack\<rparr>))
                           else set_error SCRIPT_ERR_CHECKMULTISIGVERIFY)
                     else Inr (st\<lparr>eval_stack := stack\<rparr>))))))))))) "

definition op_checkcoldstakeverify :: "eval_env \<Rightarrow> valtype list \<Rightarrow> valtype list outcome" where
  "op_checkcoldstakeverify env stack =
     (if \<not> CheckColdStake (env_checker env) (env_script env)
      then set_error SCRIPT_ERR_CHECKCOLDSTAKEVERIFY else Inr stack)"

section \<open>The switch\<close>

definition on_stack :: "eval_state \<Rightarrow> (valtype list \<Rightarrow> valtype list outcome) \<Rightarrow> eval_state outcome" where
  "on_stack st f = bind (f (eval_stack st)) (\<lambda>stack. Inr (st\<lparr>eval_stack := stack\<rparr>))"

definition disabled_opcode :: "opcodetype \<Rightarrow> bool" where
  "disabled_opcode opcode \<longleftrightarrow>
     opcode = OP_CAT \<or> opcode = OP_SUBSTR \<or> opcode = OP_LEFT \<or> opcode = OP_RIGHT \<or> opcode = OP_INVERT
     \<or> opcode = OP_AND \<or> opcode = OP_OR \<or> opcode = OP_XOR \<or> opcode = OP_2MUL \<or> opcode = OP_2DIV
     \<or> opcode = OP_MUL \<or> opcode = OP_DIV \<or> opcode = OP_MOD \<or> opcode = OP_LSHIFT \<or> opcode = OP_RSHIFT"

definition exec_opcode :: "eval_env \<Rightarrow> bool \<Rightarrow> opcodetype \<Rightarrow> eval_state \<Rightarrow> eval_state outcome" where
  "exec_opcode env fExec opcode st =
     (if opcode = OP_1NEGATE \<or> (OP_1 \<le> opcode \<and> opcode \<le> OP_16) then on_stack st (op_small_number opcode)
      else if opcode = OP_NOP then Inr st
      else if opcode = OP_CHECKLOCKTIMEVERIFY then on_stack st (op_checklocktimeverify env)
      else if opcode = OP_NOP1 \<or> (OP_NOP3 \<le> opcode \<and> opcode \<le> OP_NOP10) then on_stack st (op_nop_reserved env)
      else if opcode = OP_IF \<or> opcode = OP_NOTIF then op_if fExec opcode st
      else if opcode = OP_ELSE then op_else st
      else if opcode = OP_ENDIF then op_endif st
      else if opcode = OP_VERIFY then on_stack st op_verify
      else if opcode = OP_RETURN then set_error SCRIPT_ERR_OP_RETURN
      else if opcode = OP_TOALTSTACK then op_toaltstack st
      else if opcode = OP_FROMALTSTACK then op_fromaltstack st
      else if opcode = OP_2DROP then on_stack st op_2drop
      else if opcode = OP_2DUP then on_stack st op_2dup
      else if opcode = OP_3DUP then on_stack st op_3dup
      else if opcode = OP_2OVER then on_stack st op_2over
      else if opcode = OP_2ROT then on_stack st op_2rot
      else if opcode = OP_2SWAP then on_stack st op_2swap
      else if opcode = OP_IFDUP then on_stack st op_ifdup
      else if opcode = OP_DEPTH then on_stack st op_depth
      else if opcode = OP_DROP then on_stack st op_drop
      else if opcode = OP_DUP then on_stack st op_dup
      else if opcode = OP_NIP then on_stack st op_nip
      else if opcode = OP_OVER then on_stack st op_over
      else if opcode = OP_PICK \<or> opcode = OP_ROLL then on_stack st (op_pick_roll env opcode)
      else if opcode = OP_ROT then on_stack st op_rot
      else if opcode = OP_SWAP then on_stack st op_swap
      else if opcode = OP_TUCK then on_stack st op_tuck
      else if opcode = OP_SIZE then on_stack st op_size
      else if opcode = OP_EQUAL \<or> opcode = OP_EQUALVERIFY then on_stack st (op_equal opcode)
      else if opcode = OP_1ADD \<or> opcode = OP_1SUB \<or> (OP_NEGATE \<le> opcode \<and> opcode \<le> OP_0NOTEQUAL)
        then on_stack st (op_unary env opcode)
      else if opcode = OP_ADD \<or> opcode = OP_SUB \<or> (OP_BOOLAND \<le> opcode \<and> opcode \<le> OP_MAX)
        then on_stack st (op_binary env opcode)
      else if opcode = OP_WITHIN then on_stack st (op_within env)
      else if OP_RIPEMD160 \<le> opcode \<and> opcode \<le> OP_HASH256 then on_stack st (op_hash env opcode)
      else if opcode = OP_CODESEPARATOR then op_codeseparator st
      else if opcode = OP_CHECKSIG \<or> opcode = OP_CHECKSIGVERIFY
        then on_stack st (op_checksig env opcode (eval_pbegincodehash st))
      else if opcode = OP_CHECKMULTISIG \<or> opcode = OP_CHECKMULTISIGVERIFY then op_checkmultisig env opcode st
      else if opcode = OP_CHECKCOLDSTAKEVERIFY then on_stack st (op_checkcoldstakeverify env)
      else set_error SCRIPT_ERR_BAD_OPCODE)"

section \<open>Reasoning about outcomes\<close>

text \<open>
  \<open>holds E Q r\<close>: the failure \<open>r\<close> satisfies \<open>E\<close>, or the result \<open>r\<close> satisfies \<open>Q\<close>.  The rules of the
  collection \<open>outcome_intros\<close> follow the shape of the operations.
\<close>

named_theorems outcome_intros \<open>introduction rules for statements about outcomes\<close>

definition holds :: "('e \<Rightarrow> bool) \<Rightarrow> ('a \<Rightarrow> bool) \<Rightarrow> 'e + 'a \<Rightarrow> bool" where
  "holds E Q r = (case r of Inl e \<Rightarrow> E e | Inr a \<Rightarrow> Q a)"

lemma holds_simps [simp]: "holds E Q (Inl e) = E e" "holds E Q (Inr a) = Q a"
  by (simp_all add: holds_def)

lemma holds_if [outcome_intros]:
  "(c \<Longrightarrow> holds E Q r) \<Longrightarrow> (\<not> c \<Longrightarrow> holds E Q r') \<Longrightarrow> holds E Q (if c then r else r')"
  by simp

lemma holds_bind: "holds E (\<lambda>a. holds E Q (k a)) r \<Longrightarrow> holds E Q (bind r k)"
  by (cases r) simp_all

lemma holds_Let [outcome_intros]: "(\<And>x. x = v \<Longrightarrow> holds E Q (f x)) \<Longrightarrow> holds E Q (let x = v in f x)"
  by simp

lemma holds_mono: "holds E Q r \<Longrightarrow> (\<And>a. Q a \<Longrightarrow> Q' a) \<Longrightarrow> holds E Q' r"
  by (cases r) simp_all

lemma holds_Inr: "holds E Q r \<Longrightarrow> r = Inr a \<Longrightarrow> Q a"
  by simp

section \<open>The iterator is moved by the reader only\<close>

lemma on_stack_pc: "on_stack st f = Inr st' \<Longrightarrow> eval_pc st' = eval_pc st"
  by (cases "f (eval_stack st)") (auto simp: on_stack_def)

lemma bind_Inr: "bind r k = Inr b \<longleftrightarrow> (\<exists>a. r = Inr a \<and> k a = Inr b)"
  by (cases r) auto

lemma state_op_pc:
  "op_if fExec opcode st = Inr st' \<Longrightarrow> eval_pc st' = eval_pc st"
  "op_else st = Inr st' \<Longrightarrow> eval_pc st' = eval_pc st"
  "op_endif st = Inr st' \<Longrightarrow> eval_pc st' = eval_pc st"
  "op_toaltstack st = Inr st' \<Longrightarrow> eval_pc st' = eval_pc st"
  "op_fromaltstack st = Inr st' \<Longrightarrow> eval_pc st' = eval_pc st"
  "op_codeseparator st = Inr st' \<Longrightarrow> eval_pc st' = eval_pc st"
  "op_checkmultisig env opcode st = Inr st' \<Longrightarrow> eval_pc st' = eval_pc st"
  by (auto simp: op_if_def op_else_def op_endif_def op_toaltstack_def op_fromaltstack_def
      op_codeseparator_def op_checkmultisig_def bind_Inr Let_def split: if_splits)

lemma exec_opcode_pc: "exec_opcode env fExec opcode st = Inr st' \<Longrightarrow> eval_pc st' = eval_pc st"
  unfolding exec_opcode_def by (auto dest: on_stack_pc state_op_pc split: if_splits)

section \<open>The loop\<close>

definition eval_step :: "eval_env \<Rightarrow> eval_state \<Rightarrow> eval_state outcome" where
  "eval_step env st =
     (let fExec = (count_list (eval_vfExec st) False = 0)
      in case GetOp2 (env_script env) (eval_pc st) of
           (False, _, _, _) \<Rightarrow> set_error SCRIPT_ERR_BAD_OPCODE
         | (True, pc, opcode, vchPushValue) \<Rightarrow>
             if length vchPushValue > MAX_SCRIPT_ELEMENT_SIZE then set_error SCRIPT_ERR_PUSH_SIZE
             else let nOpCount = (if opcode > OP_16 then eval_nOpCount st + 1 else eval_nOpCount st)
             in if opcode > OP_16 \<and> nOpCount > 201 then set_error SCRIPT_ERR_OP_COUNT
             else if disabled_opcode opcode then set_error SCRIPT_ERR_DISABLED_OPCODE
             else let st = st\<lparr>eval_pc := pc, eval_nOpCount := nOpCount\<rparr>
             in bind
                 (if fExec \<and> opcode \<le> OP_PUSHDATA4 then
                    (if fRequireMinimal env \<and> \<not> CheckMinimalPush vchPushValue opcode
                     then set_error SCRIPT_ERR_MINIMALDATA
                     else Inr (st\<lparr>eval_stack := eval_stack st @ [vchPushValue]\<rparr>))
                  else if fExec \<or> (OP_IF \<le> opcode \<and> opcode \<le> OP_ENDIF)
                    then exec_opcode env fExec opcode st
                  else Inr st)
                 (\<lambda>st. if length (eval_stack st) + length (eval_altstack st) > 1000
                       then set_error SCRIPT_ERR_STACK_SIZE else Inr st))"

lemma eval_step_advances:
  assumes "eval_step env st = Inr st'"
  shows "eval_pc st < eval_pc st' \<and> eval_pc st' \<le> length (env_script env)"
proof -
  obtain ok pc opcode vch where g: "GetOp2 (env_script env) (eval_pc st) = (ok, pc, opcode, vch)"
    by (metis prod_cases4)
  from assms have ok
    unfolding eval_step_def g by (cases ok) simp_all
  moreover from assms this have "eval_pc st' = pc"
    unfolding eval_step_def g
    by (auto simp: Let_def bind_Inr dest!: exec_opcode_pc split: if_splits)
  ultimately show ?thesis using GetOp2_advances [of "env_script env" "eval_pc st"] g by simp
qed

function eval_loop :: "eval_env \<Rightarrow> eval_state \<Rightarrow> eval_state outcome" where
  "eval_loop env st =
     (if eval_pc st < length (env_script env) then bind (eval_step env st) (eval_loop env) else Inr st)"
  by pat_completeness auto
termination
proof (relation "measure (\<lambda>(env, st). length (env_script env) - eval_pc st)", goal_cases)
  case (2 env st st')
  then show ?case using eval_step_advances [of env st st'] by auto
qed simp

declare eval_loop.simps [simp del]

definition eval_init :: "valtype list \<Rightarrow> eval_state" where
  "eval_init stack =
     \<lparr>eval_stack = stack, eval_altstack = [], eval_vfExec = [], eval_nOpCount = 0,
      eval_pc = 0, eval_pbegincodehash = 0\<rparr>"

definition EvalScript ::
  "crypto \<Rightarrow> valtype list \<Rightarrow> bytes \<Rightarrow> u32 \<Rightarrow> BaseSignatureChecker \<Rightarrow> valtype list outcome" where
  "EvalScript c stack script flags checker =
     (let env = \<lparr>env_script = script, env_flags = flags, env_checker = checker, env_crypto = c\<rparr>
      in if length script > MAX_SCRIPT_SIZE then set_error SCRIPT_ERR_SCRIPT_SIZE
         else case eval_loop env (eval_init stack) of
                Inl (Throw e) \<Rightarrow> set_error SCRIPT_ERR_UNKNOWN_ERROR
              | Inl f \<Rightarrow> Inl f
              | Inr st \<Rightarrow> if eval_vfExec st \<noteq> [] then set_error SCRIPT_ERR_UNBALANCED_CONDITIONAL
                         else Inr (eval_stack st))"

section \<open>\<open>VerifyScript\<close>\<close>

definition ends_true :: "valtype list \<Rightarrow> unit outcome" where
  "ends_true stack =
     (if stack = [] then set_error SCRIPT_ERR_EVAL_FALSE
      else if \<not> CastToBool (last stack) then set_error SCRIPT_ERR_EVAL_FALSE
      else Inr ())"

definition VerifyScript ::
  "crypto \<Rightarrow> bytes \<Rightarrow> bytes \<Rightarrow> u32 \<Rightarrow> BaseSignatureChecker \<Rightarrow> unit outcome" where
  "VerifyScript c scriptSig scriptPubKey flags checker =
     (if flags AND SCRIPT_VERIFY_SIGPUSHONLY \<noteq> 0 \<and> \<not> IsPushOnly scriptSig
      then set_error SCRIPT_ERR_SIG_PUSHONLY
      else bind (EvalScript c [] scriptSig flags checker) (\<lambda>stack.
        let stackCopy = (if flags AND SCRIPT_VERIFY_P2SH \<noteq> 0 then stack else [])
        in bind (EvalScript c stack scriptPubKey flags checker) (\<lambda>stack.
        bind (ends_true stack) (\<lambda>_.
        if flags AND SCRIPT_VERIFY_P2SH \<noteq> 0 \<and> IsPayToScriptHash scriptPubKey then
          (if \<not> IsPushOnly scriptSig then set_error SCRIPT_ERR_SIG_PUSHONLY
           else if stackCopy = [] then Inl Abort
           else let pubKey2 = last stackCopy
                in bind (popstack stackCopy) (\<lambda>stackCopy.
                   bind (EvalScript c stackCopy pubKey2 flags checker) ends_true))
        else Inr ()))))"

end
