(* ===== verification/InterpreterSafety.thy ===== *)
theory InterpreterSafety
  imports Interpreter
begin

unbundle bit_operations_syntax

text \<open>
  What every script execution keeps, for the interpreter of \<^verbatim>\<open>src/src/script/interpreter.cpp\<close>.
  One lemma per opcode group (the collection \<open>opcode_ok\<close>) shows that on a state within the
  limits no access leaves a stack, no \<open>popstack\<close> meets an empty one and no assertion fails,
  and that the result is within the limits again.  \<open>eval_steps\<close> is the step relation of the
  loop; the limits hold in all reachable states, and every run ends after at most as many
  rounds as the script has bytes.  The loops of \<open>OP_CHECKMULTISIG\<close> are reduced to a
  recursion over the list of signatures and the list of keys.
\<close>

section \<open>No access leaves the stack\<close>

definition bounded :: "valtype list \<Rightarrow> bool" where
  "bounded stack \<longleftrightarrow> (\<forall>v \<in> set stack. length v \<le> MAX_SCRIPT_ELEMENT_SIZE)"

text \<open>The failures that a script can cause: a reported error (never \<open>SCRIPT_ERR_OK\<close>), or an operand that is not a number.\<close>

fun benign :: "failure \<Rightarrow> bool" where
  "benign (Return_error e) \<longleftrightarrow> e \<noteq> SCRIPT_ERR_OK"
| "benign (Throw (Bad_number e)) = True"
| "benign (Throw Out_of_range) = False"
| "benign (Throw Stack_empty) = False"
| "benign Abort = False"

lemma holds_stacktop [outcome_intros]:
  "1 \<le> i \<Longrightarrow> i \<le> length s \<Longrightarrow> (\<And>v. v \<in> set s \<Longrightarrow> holds E Q (k v)) \<Longrightarrow> holds E Q (bind (stacktop s i) k)"
  by (simp add: stacktop_def)

lemma holds_popstack [outcome_intros]:
  "s \<noteq> [] \<Longrightarrow> holds E Q (k (butlast s)) \<Longrightarrow> holds E Q (bind (popstack s) k)"
  by (simp add: popstack_def)

lemma holds_popstack_last [outcome_intros]: "s \<noteq> [] \<Longrightarrow> Q (butlast s) \<Longrightarrow> holds E Q (popstack s)"
  by (simp add: popstack_def)

lemma pop_n_take: "n \<le> length s \<Longrightarrow> pop_n n s = Inr (take (length s - n) s)"
proof (induction n arbitrary: s)
  case (Suc n)
  then have "s \<noteq> []" by auto
  then have "pop_n (Suc n) s = pop_n n (butlast s)" by (simp add: popstack_def)
  also have "\<dots> = Inr (take (length s - Suc n) s)"
    using Suc by (simp add: take_butlast)
  finally show ?case .
qed simp

lemma holds_pop_n [outcome_intros]:
  "n \<le> length s \<Longrightarrow> holds E Q (k (take (length s - n) s)) \<Longrightarrow> holds E Q (bind (pop_n n s) k)"
  by (simp add: pop_n_take)

lemma holds_script_num [outcome_intros]:
  "(\<And>n. \<bar>sint n\<bar> < 2 ^ 31 \<Longrightarrow> holds benign Q (k n)) \<Longrightarrow>
   holds benign Q (bind (script_num env nDefaultMaxNumSize vch) k)"
  "(\<And>n. holds benign Q (k n)) \<Longrightarrow> holds benign Q (bind (script_num env 5 vch) k)"
  by (auto simp: script_num_def dest: CScriptNum_default split: sum.split)

lemma holds_swap_top:
  "1 \<le> i \<Longrightarrow> i \<le> length s \<Longrightarrow> 1 \<le> j \<Longrightarrow> j \<le> length s \<Longrightarrow> bounded s \<Longrightarrow>
   holds E (\<lambda>s'. bounded s' \<and> length s' = length s) (swap_top i j s)"
  by (auto simp: swap_top_def stacktop_def bounded_def dest!: set_update_subset_insert [THEN subsetD])

lemma bounded_simps [simp]:
  "bounded []" "bounded (v # s) \<longleftrightarrow> length v \<le> MAX_SCRIPT_ELEMENT_SIZE \<and> bounded s"
  "bounded (s @ s') \<longleftrightarrow> bounded s \<and> bounded s'"
  by (auto simp: bounded_def)

lemma boundedD: "bounded s \<Longrightarrow> v \<in> set s \<Longrightarrow> length v \<le> MAX_SCRIPT_ELEMENT_SIZE"
  by (simp add: bounded_def)

lemma bounded_butlastD: "v \<in> set (butlast s) \<Longrightarrow> bounded s \<Longrightarrow> length v \<le> MAX_SCRIPT_ELEMENT_SIZE"
  by (blast intro: boundedD dest: in_set_butlastD)

lemma bounded_sub [simp, intro]:
  "bounded s \<Longrightarrow> bounded (butlast s)" "bounded s \<Longrightarrow> bounded (take n s)" "bounded s \<Longrightarrow> bounded (drop n s)"
  "bounded s \<Longrightarrow> bounded (erase_top a b s)"
  by (auto simp: bounded_def erase_top_def dest: in_set_butlastD in_set_takeD in_set_dropD)

lemma butlast_not_Nil [simp]: "2 \<le> length s \<Longrightarrow> butlast s \<noteq> []"
  by (cases s rule: rev_cases) auto

lemma short_values [simp]:
  "length vchTrue \<le> MAX_SCRIPT_ELEMENT_SIZE" "length vchFalse \<le> MAX_SCRIPT_ELEMENT_SIZE"
  "length (getvch n) \<le> MAX_SCRIPT_ELEMENT_SIZE" "length (vchHash c opcode v) \<le> MAX_SCRIPT_ELEMENT_SIZE"
  using length_getvch [of n]
  by (simp_all add: vchTrue_def vchFalse_def vchHash_def MAX_SCRIPT_ELEMENT_SIZE_def)

lemma unary_num_ok:
  "\<bar>sint n\<bar> < 2 ^ 31 \<Longrightarrow> opcode = OP_1ADD \<or> opcode = OP_1SUB \<or> (OP_NEGATE \<le> opcode \<and> opcode \<le> OP_0NOTEQUAL) \<Longrightarrow>
   \<exists>m. unary_num opcode n = Inr m"
  using num_ops_in_range [of n 1] by (auto simp: unary_num_def asserted_def)

lemma binary_num_ok:
  "opcode = OP_ADD \<or> opcode = OP_SUB \<or> (OP_BOOLAND \<le> opcode \<and> opcode \<le> OP_MAX) \<Longrightarrow>
   \<exists>m. binary_num opcode n1 n2 = Inr m"
  by (auto simp: binary_num_def) presburger

lemma encoding_benign [outcome_intros]:
  "(CheckSignatureEncoding env v = Inr () \<Longrightarrow> holds benign Q (k ())) \<Longrightarrow>
   holds benign Q (bind (CheckSignatureEncoding env v) k)"
  "(CheckPubKeyEncoding env v = Inr () \<Longrightarrow> holds benign Q (k ())) \<Longrightarrow>
   holds benign Q (bind (CheckPubKeyEncoding env v) k)"
  by (auto simp: CheckSignatureEncoding_def CheckPubKeyEncoding_def IsLowDERSignature_def)

lemma simple_ops_ok:
  assumes "bounded s"
  shows "holds benign bounded (op_small_number opcode s)"
    "holds benign bounded (op_nop_reserved env s)"
    "holds benign bounded (op_2dup s)" "holds benign bounded (op_3dup s)" "holds benign bounded (op_2over s)"
    "holds benign bounded (op_2rot s)" "holds benign bounded (op_depth s)"
    "holds benign bounded (op_nip s)" "holds benign bounded (op_over s)" "holds benign bounded (op_dup s)"
    "holds benign bounded (op_tuck s)" "holds benign bounded (op_size s)"
    "holds benign bounded (op_checkcoldstakeverify env s)"
  using assms
  by (auto simp: op_small_number_def op_nop_reserved_def op_2dup_def op_3dup_def op_2over_def op_2rot_def
      op_depth_def op_nip_def op_over_def op_dup_def op_tuck_def op_size_def
      op_checkcoldstakeverify_def not_less Suc_le_eq intro!: outcome_intros dest: boundedD)

lemma numeric_ops_ok:
  assumes "bounded s"
  shows "holds benign bounded (op_checklocktimeverify env s)"
    "holds benign bounded (op_within env s)"
    "holds benign bounded (op_pick_roll env opcode s)"
    "holds benign bounded (op_hash env opcode s)"
    "holds benign bounded (op_checksig env opcode pos s)"
    "holds benign bounded (op_equal opcode s)"
    "holds benign bounded (op_verify s)" "holds benign bounded (op_drop s)" "holds benign bounded (op_ifdup s)"
    "holds benign bounded (op_2drop s)"
  using assms
  by (auto simp: op_checklocktimeverify_def op_within_def op_pick_roll_def op_hash_def op_checksig_def
      op_equal_def op_verify_def op_drop_def op_ifdup_def op_2drop_def not_less Suc_le_eq
      intro!: outcome_intros dest: boundedD bounded_butlastD)

lemma swap_ops_ok:
  assumes "bounded s"
  shows "holds benign bounded (op_2swap s)" "holds benign bounded (op_rot s)" "holds benign bounded (op_swap s)"
  using assms holds_swap_top [where E = benign and s = s]
  by (auto simp: op_2swap_def op_rot_def op_swap_def not_less
      intro!: outcome_intros holds_bind holds_mono [OF holds_swap_top])

lemma arithmetic_ok:
  assumes "bounded s"
  shows "opcode = OP_1ADD \<or> opcode = OP_1SUB \<or> (OP_NEGATE \<le> opcode \<and> opcode \<le> OP_0NOTEQUAL) \<Longrightarrow>
      holds benign bounded (op_unary env opcode s)"
    "opcode = OP_ADD \<or> opcode = OP_SUB \<or> (OP_BOOLAND \<le> opcode \<and> opcode \<le> OP_MAX) \<Longrightarrow>
      holds benign bounded (op_binary env opcode s)"
proof -
  assume "opcode = OP_1ADD \<or> opcode = OP_1SUB \<or> (OP_NEGATE \<le> opcode \<and> opcode \<le> OP_0NOTEQUAL)"
  then have step: "holds benign Q (bind (unary_num opcode n) k)"
    if "\<bar>sint n\<bar> < 2 ^ 31" "\<And>m. holds benign Q (k m)" for Q :: "valtype list \<Rightarrow> bool" and k n
    using unary_num_ok [of n opcode] that by fastforce
  show "holds benign bounded (op_unary env opcode s)"
    using assms by (auto simp: op_unary_def not_less Suc_le_eq intro!: outcome_intros step)
next
  assume "opcode = OP_ADD \<or> opcode = OP_SUB \<or> (OP_BOOLAND \<le> opcode \<and> opcode \<le> OP_MAX)"
  then have step: "holds benign Q (bind (binary_num opcode n1 n2) k)"
    if "\<And>m. holds benign Q (k m)" for Q :: "valtype list \<Rightarrow> bool" and k n1 n2
    using binary_num_ok [of opcode n1 n2] that by fastforce
  show "holds benign bounded (op_binary env opcode s)"
    using assms by (auto simp: op_binary_def not_less Suc_le_eq Let_def intro!: outcome_intros step)
qed

subsection \<open>Multiple signatures\<close>

text \<open>
  The two loops of \<open>OP_CHECKMULTISIG\<close> on the lists of signatures and keys that they walk
  through: the stack from its top.
\<close>

fun check_lists :: "eval_env \<Rightarrow> bytes \<Rightarrow> valtype list \<Rightarrow> valtype list \<Rightarrow> bool outcome" where
  "check_lists env code [] keys = Inr True"
| "check_lists env code (sig # sigs) [] = Inr False"
| "check_lists env code (sig # sigs) (key # keys) =
     (if length sigs > length keys then Inr False
      else bind (CheckSignatureEncoding env sig) (\<lambda>_. bind (CheckPubKeyEncoding env key) (\<lambda>_.
        if CheckSig (env_checker env) sig key code then check_lists env code sigs keys
        else check_lists env code (sig # sigs) keys)))"

definition without_sigs :: "bytes \<Rightarrow> valtype list \<Rightarrow> bytes" where
  "without_sigs code sigs = foldl (\<lambda>code sig. fst (FindAndDelete code (push_data [] sig))) code sigs"

definition from_top :: "valtype list \<Rightarrow> nat \<Rightarrow> nat \<Rightarrow> valtype list" where
  "from_top s i n = take n (drop (i - 1) (rev s))"

lemma stacktop_rev: "1 \<le> i \<Longrightarrow> i \<le> length s \<Longrightarrow> stacktop s i = Inr (rev s ! (i - 1))"
  by (simp add: stacktop_def rev_nth)

lemma from_top_Suc:
  "1 \<le> i \<Longrightarrow> i \<le> length s \<Longrightarrow> from_top s i (Suc n) = (rev s ! (i - 1)) # from_top s (i + 1) n"
  by (cases i) (simp_all add: from_top_def Cons_nth_drop_Suc [symmetric])

lemma length_from_top [simp]: "1 \<le> i \<Longrightarrow> i + n \<le> length s + 1 \<Longrightarrow> length (from_top s i n) = n"
  unfolding from_top_def length_take length_drop length_rev by arith

lemma from_top_0 [simp]: "from_top s i 0 = []"
  by (simp add: from_top_def)

lemma delete_sigs_from_top:
  "1 \<le> isig \<Longrightarrow> isig + k \<le> length s + 1 \<Longrightarrow>
   delete_sigs s isig k code = Inr (without_sigs code (from_top s isig k))"
proof (induction k arbitrary: isig code)
  case 0
  then show ?case by (simp add: without_sigs_def from_top_def)
next
  case (Suc k)
  then show ?case
    using Suc.IH [of "isig + 1"] by (simp add: stacktop_rev from_top_Suc without_sigs_def)
qed

lemma multisig_loop_from_top:
  "1 \<le> isig \<Longrightarrow> isig + n \<le> length s + 1 \<Longrightarrow> 1 \<le> ikey \<Longrightarrow> ikey + m \<le> length s + 1 \<Longrightarrow>
   multisig_loop env s code isig ikey (int n) (int m) (n \<le> m) =
   check_lists env code (from_top s isig n) (from_top s ikey m)"
proof (induction m arbitrary: n isig ikey)
  case 0
  then show ?case
    by (cases n) (simp_all add: multisig_loop.simps from_top_Suc)
next
  case (Suc m)
  show ?case
  proof (cases n)
    case 0
    then show ?thesis by (simp add: multisig_loop.simps)
  next
    case (Suc n')
    note sig = from_top_Suc [of isig s n'] and key = from_top_Suc [of ikey s m]
    have found: "multisig_loop env s code (isig + 1) (ikey + 1) (int n') (int m) (n' \<le> m) =
        check_lists env code (from_top s (isig + 1) n') (from_top s (ikey + 1) m)"
      using Suc.IH [of "isig + 1" n' "ikey + 1"] Suc.prems Suc by simp
    have other: "multisig_loop env s code isig (ikey + 1) (int n) (int m) (n \<le> m) =
        check_lists env code (from_top s isig n) (from_top s (ikey + 1) m)"
      using Suc.IH [of isig n "ikey + 1"] Suc.prems by simp
    show ?thesis
    proof (cases "n \<le> Suc m")
      case False
      then show ?thesis
        using Suc.prems \<open>n = Suc n'\<close> by (simp add: multisig_loop.simps sig key)
    next
      case True
      then show ?thesis
        using Suc.prems \<open>n = Suc n'\<close> found other of_nat_le_iff [of "Suc n'" m, where 'a = int]
        by (subst multisig_loop.simps)
           (simp add: sig key stacktop_rev Let_def not_less cong: bind_cong)
    qed
  qed
qed

lemma check_lists_ok: "holds benign (\<lambda>_. True) (check_lists env code sigs keys)"
  by (induction env code sigs keys rule: check_lists.induct) (auto intro!: outcome_intros)

lemma check_lists_match:
  assumes "\<And>sig. sig \<in> set sigs \<Longrightarrow> CheckSignatureEncoding env sig = Inr ()"
    "\<And>key. key \<in> set keys \<Longrightarrow> CheckPubKeyEncoding env key = Inr ()"
  shows "check_lists env code sigs keys =
    Inr (list_emb (\<lambda>sig key. CheckSig (env_checker env) sig key code) sigs keys)"
  using assms
proof (induction env code sigs keys rule: check_lists.induct)
  case (3 env code sig sigs key keys)
  then show ?case
    by (auto simp: list_emb_code dest: list_emb_length)
qed simp_all

section \<open>The limits hold in every reachable state\<close>

definition within_limits :: "eval_state \<Rightarrow> bool" where
  "within_limits st \<longleftrightarrow> bounded (eval_stack st) \<and> bounded (eval_altstack st) \<and> eval_nOpCount st \<le> 201
     \<and> eval_pbegincodehash st \<le> eval_pc st"

lemma on_stack_ok:
  "within_limits st \<Longrightarrow> (bounded (eval_stack st) \<Longrightarrow> holds benign bounded (f (eval_stack st))) \<Longrightarrow>
   holds benign within_limits (on_stack st f)"
  by (cases "f (eval_stack st)") (auto simp: on_stack_def within_limits_def)

lemma state_ops_ok:
  assumes "within_limits st"
  shows "holds benign within_limits (op_if fExec opcode st)"
    "holds benign within_limits (op_else st)" "holds benign within_limits (op_endif st)"
    "holds benign within_limits (op_toaltstack st)" "holds benign within_limits (op_fromaltstack st)"
    "holds benign within_limits (op_codeseparator st)"
  using assms
  by (auto simp: op_if_def op_else_def op_endif_def op_toaltstack_def op_fromaltstack_def op_codeseparator_def
      within_limits_def Suc_le_eq not_less Let_def intro!: outcome_intros dest: boundedD)

lemma holds_multisig:
  assumes "0 \<le> sigs" "sigs \<le> keys" "2 + nat keys + 1 + nat sigs \<le> length s" "\<And>b. holds benign Q (f b)"
  shows "holds benign Q (bind (delete_sigs s (2 + nat keys + 1) (nat sigs) code) (\<lambda>code.
      bind (multisig_loop env s code (2 + nat keys + 1) 2 sigs keys True) f))"
proof -
  have "multisig_loop env s c (2 + nat keys + 1) 2 sigs keys True =
      check_lists env c (from_top s (2 + nat keys + 1) (nat sigs)) (from_top s 2 (nat keys))" for c
    using multisig_loop_from_top [of "2 + nat keys + 1" "nat sigs" s 2 "nat keys" env c] assms(1-3) nat_mono [OF assms(2)] by simp
  moreover have "holds benign Q (bind (check_lists env c sigs keys) f)" for c sigs keys
    using check_lists_ok [of env c sigs keys] assms(4) by (intro holds_bind) (auto elim: holds_mono)
  ultimately show ?thesis using assms(3) by (simp add: delete_sigs_from_top del: add_2_eq_Suc add_2_eq_Suc')
qed

lemma op_checkmultisig_ok:
  assumes "within_limits st"
  shows "holds benign within_limits (op_checkmultisig env opcode st)"
  unfolding op_checkmultisig_def Let_def
  using assms
  by (intro outcome_intros holds_multisig) (simp_all add: within_limits_def Suc_le_eq)

lemmas opcode_ok =
  simple_ops_ok numeric_ops_ok swap_ops_ok arithmetic_ok state_ops_ok op_checkmultisig_ok

lemma exec_opcode_ok: "within_limits st \<Longrightarrow> holds benign within_limits (exec_opcode env fExec opcode st)"
  unfolding exec_opcode_def by (intro holds_if on_stack_ok opcode_ok) simp_all

text \<open>The limits that \<open>EvalScript\<close> keeps at the head of its loop.\<close>

definition eval_limits :: "eval_env \<Rightarrow> eval_state \<Rightarrow> bool" where
  "eval_limits env st \<longleftrightarrow>
     length (eval_stack st) + length (eval_altstack st) \<le> 1000
     \<and> (\<forall>v \<in> set (eval_stack st) \<union> set (eval_altstack st). length v \<le> MAX_SCRIPT_ELEMENT_SIZE)
     \<and> eval_nOpCount st \<le> 201
     \<and> eval_pbegincodehash st \<le> eval_pc st \<and> eval_pc st \<le> length (env_script env)"

lemma eval_limits_alt:
  "eval_limits env st \<longleftrightarrow> within_limits st \<and> length (eval_stack st) + length (eval_altstack st) \<le> 1000
     \<and> eval_pc st \<le> length (env_script env)"
  by (auto simp: eval_limits_def within_limits_def bounded_def)

lemma eval_step_ok:
  assumes "within_limits st"
  shows "holds benign (\<lambda>st'. within_limits st' \<and> length (eval_stack st') + length (eval_altstack st') \<le> 1000)
    (eval_step env st)"
proof -
  obtain ok pc opcode vch where g: "GetOp2 (env_script env) (eval_pc st) = (ok, pc, opcode, vch)"
    by (metis prod_cases4)
  show ?thesis
  proof (cases ok)
    case True
    then have pc: "eval_pc st < pc" using GetOp2_advances [of "env_script env" "eval_pc st"] g by simp
    have "within_limits (st\<lparr>eval_pc := pc, eval_nOpCount := n\<rparr>)" if "n \<le> 201" for n
      using assms pc that by (simp add: within_limits_def)
    then show ?thesis
      using assms True pc unfolding eval_step_def g Let_def
      by (auto simp: not_less within_limits_def intro!: holds_if holds_bind holds_mono [OF exec_opcode_ok])
  qed (simp add: eval_step_def g)
qed

lemma eval_step_limits: "eval_limits env st \<Longrightarrow> eval_step env st = Inr st' \<Longrightarrow> eval_limits env st'"
  using holds_Inr [OF eval_step_ok [of st env]] eval_step_advances [of env st st'] by (auto simp: eval_limits_alt)

subsection \<open>Runs of the loop\<close>

inductive eval_steps :: "eval_env \<Rightarrow> nat \<Rightarrow> eval_state \<Rightarrow> eval_state \<Rightarrow> bool" for env where
  start: "eval_steps env 0 st st"
| step: "eval_steps env n st st' \<Longrightarrow> eval_pc st' < length (env_script env) \<Longrightarrow> eval_step env st' = Inr st'' \<Longrightarrow>
    eval_steps env (Suc n) st st''"

inductive_cases eval_steps_SucE: "eval_steps env (Suc n) st st'"

lemma eval_steps_first:
  "eval_pc st < length (env_script env) \<Longrightarrow> eval_step env st = Inr st' \<Longrightarrow> eval_steps env n st' st'' \<Longrightarrow>
   eval_steps env (Suc n) st st''"
proof (rotate_tac 2, induction n st' st'' rule: eval_steps.induct)
  case (start st')
  then show ?case by (metis eval_steps.start eval_steps.step)
next
  case (step n st' s s')
  then show ?case by (metis eval_steps.step)
qed

lemma eval_limits_steps: "eval_steps env n st st' \<Longrightarrow> eval_limits env st \<Longrightarrow> eval_limits env st'"
  by (induction n st st' rule: eval_steps.induct) (auto dest: eval_step_limits)

lemma eval_loop_steps:
  "\<exists>n st'. n + eval_pc st \<le> max (eval_pc st) (length (env_script env)) \<and> eval_steps env n st st'
     \<and> (eval_pc st' \<ge> length (env_script env) \<and> eval_loop env st = Inr st'
       \<or> eval_pc st' < length (env_script env) \<and> (\<exists>f. eval_step env st' = Inl f \<and> eval_loop env st = Inl f))"
proof (induction env st rule: eval_loop.induct)
  case (1 env st)
  show ?case
  proof (cases "eval_pc st < length (env_script env)")
    case False
    then show ?thesis
      using eval_steps.start [of env st]
      by (intro exI [of _ 0] exI [of _ st]) (simp add: eval_loop.simps)
  next
    case True
    show ?thesis
    proof (cases "eval_step env st")
      case (Inl f)
      then have "eval_loop env st = Inl f" using True by (simp add: eval_loop.simps)
      then show ?thesis
        using Inl True eval_steps.start [of env st] by (intro exI [of _ 0] exI [of _ st]) simp
    next
      case (Inr st1)
      note adv = eval_step_advances [OF Inr]
      from "1.IH" [OF True Inr] obtain n st' where
        ih: "n + eval_pc st1 \<le> max (eval_pc st1) (length (env_script env))" "eval_steps env n st1 st'"
          "eval_pc st' \<ge> length (env_script env) \<and> eval_loop env st1 = Inr st'
            \<or> eval_pc st' < length (env_script env) \<and> (\<exists>f. eval_step env st' = Inl f \<and> eval_loop env st1 = Inl f)"
        by blast
      have "eval_loop env st = eval_loop env st1"
        using True Inr by (subst eval_loop.simps) simp
      moreover have "Suc n + eval_pc st \<le> max (eval_pc st) (length (env_script env))"
        using ih(1) adv True by auto
      ultimately show ?thesis
        using eval_steps_first [OF True Inr ih(2)] ih(3) by (intro exI [of _ "Suc n"] exI [of _ st']) simp
    qed
  qed
qed

subsection \<open>Whole evaluations\<close>

lemma eval_loop_ok: "within_limits st \<Longrightarrow> holds benign within_limits (eval_loop env st)"
proof (induction env st rule: eval_loop.induct)
  case (1 env st)
  show ?case
  proof (cases "eval_pc st < length (env_script env)")
    case True
    have "holds benign (\<lambda>st'. holds benign within_limits (eval_loop env st')) (eval_step env st)"
      using eval_step_ok [OF "1.prems", of env] "1.IH" [OF True]
      by (cases "eval_step env st") simp_all
    then show ?thesis
      using True by (subst eval_loop.simps) (simp add: holds_bind)
  next
    case False
    then show ?thesis using "1.prems" by (subst eval_loop.simps) simp
  qed
qed

definition reported :: "failure \<Rightarrow> bool" where
  "reported f \<longleftrightarrow> (\<exists>e. f = Return_error e \<and> e \<noteq> SCRIPT_ERR_OK)"

lemma reported_simps [simp]:
  "reported (Return_error e) \<longleftrightarrow> e \<noteq> SCRIPT_ERR_OK" "\<not> reported Abort" "\<not> reported (Throw x)"
  by (simp_all add: reported_def)

lemma EvalScript_ok: "bounded stack \<Longrightarrow> holds reported bounded (EvalScript c stack script flags checker)"
proof -
  let ?env = "\<lparr>env_script = script, env_flags = flags, env_checker = checker, env_crypto = c\<rparr>"
  assume "bounded stack"
  then have "within_limits (eval_init stack)" by (simp add: within_limits_def eval_init_def)
  from eval_loop_ok [OF this, of ?env] have "holds benign within_limits (eval_loop ?env (eval_init stack))" .
  then show ?thesis
    by (cases "eval_loop ?env (eval_init stack)")
       (auto simp: EvalScript_def Let_def within_limits_def split: failure.split)
qed

lemma P2SH_empty_stack:
  assumes "IsPayToScriptHash script"
  shows "EvalScript c [] script flags checker = set_error SCRIPT_ERR_INVALID_STACK_OPERATION"
proof -
  let ?env = "\<lparr>env_script = script, env_flags = flags, env_checker = checker, env_crypto = c\<rparr>"
  have len: "length script = 23" and op: "unat (script ! 0) = OP_HASH160"
    using assms by (simp_all add: IsPayToScriptHash_def)
  have "GetOp2 script 0 = (True, 1, OP_HASH160, [])"
    using len op by (simp add: GetOp2_def)
  then have "eval_step ?env (eval_init []) = set_error SCRIPT_ERR_INVALID_STACK_OPERATION"
    by (simp add: eval_step_def eval_init_def exec_opcode_def on_stack_def op_hash_def disabled_opcode_def)
  then have "eval_loop ?env (eval_init []) = set_error SCRIPT_ERR_INVALID_STACK_OPERATION"
    using len by (simp add: eval_loop.simps eval_init_def)
  then show ?thesis
    using len by (simp add: EvalScript_def Let_def MAX_SCRIPT_SIZE_def)
qed

lemma ends_true_ok: "holds reported (\<lambda>_. True) (ends_true stack)"
  by (simp add: ends_true_def)

lemma VerifyScript_ok: "holds reported (\<lambda>_. True) (VerifyScript c scriptSig scriptPubKey flags checker)"
proof -
  have p2sh: "holds reported (\<lambda>_. True)
      (bind (popstack s) (\<lambda>t. bind (EvalScript c t (last s) flags checker) ends_true))"
    if "bounded s" "s \<noteq> []" for s
    using that EvalScript_ok [of "butlast s" c "last s" flags checker] ends_true_ok
    by (auto simp: popstack_def intro!: holds_bind elim!: holds_mono)
  show ?thesis
  proof (cases "EvalScript c [] scriptSig flags checker")
    case (Inl f)
    then have "reported f" using EvalScript_ok [of "[]" c scriptSig flags checker] by simp
    then show ?thesis by (simp add: VerifyScript_def Inl)
  next
    case (Inr s)
    then have s: "bounded s" using EvalScript_ok [of "[]" c scriptSig flags checker] by simp
    show ?thesis
    proof (cases "EvalScript c s scriptPubKey flags checker")
      case (Inl f)
      then have "reported f" using EvalScript_ok [OF s, of c scriptPubKey flags checker] by simp
      then show ?thesis by (simp add: VerifyScript_def Inr Inl Let_def)
    next
      case (Inr s2)
      then have "s \<noteq> []" if "IsPayToScriptHash scriptPubKey"
        using P2SH_empty_stack [OF that, of c flags checker] by auto
      then show ?thesis
        using p2sh [OF s] Inr \<open>EvalScript c [] scriptSig flags checker = Inr s\<close>
        by (auto simp: VerifyScript_def ends_true_def Let_def)
    qed
  qed
qed

section \<open>Properties\<close>

text \<open>A concrete environment: the script \<open>1 ADD\<close>, no flags, a checker that accepts signatures.\<close>

definition witness_crypto :: crypto where
  "witness_crypto = \<lparr>sha1 = \<lambda>_. 1, ripemd160 = \<lambda>_. 2, sha256 = \<lambda>_. 3, CheckLowS = \<lambda>_. True\<rparr>"

definition witness_checker :: BaseSignatureChecker where
  "witness_checker = \<lparr>CheckSig = \<lambda>sig key code. sig \<noteq> [], CheckLockTime = \<lambda>_. True, CheckColdStake = \<lambda>_. False\<rparr>"

definition witness_env :: eval_env where
  "witness_env = \<lparr>env_script = [0x51, 0x93], env_flags = 0, env_checker = witness_checker, env_crypto = witness_crypto\<rparr>"

text \<open>
  C9: Verification always answers.  For every pair of scripts, all flags, every checker and
  all hash functions, \<open>VerifyScript\<close> either accepts or reports one of its errors: it never
  reads outside a stack, never pops an empty one, and none of its assertions fails, neither
  those of \<open>CScriptNum\<close> nor \<open>assert(!stackCopy.empty())\<close> of the script-hash branch.
\<close>

theorem VerifyScript_answers:
  "VerifyScript c scriptSig scriptPubKey flags checker = Inr ()
   \<or> (\<exists>e. e \<noteq> SCRIPT_ERR_OK \<and> VerifyScript c scriptSig scriptPubKey flags checker = Inl (Return_error e))"
  using VerifyScript_ok [of c scriptSig scriptPubKey flags checker]
  by (cases "VerifyScript c scriptSig scriptPubKey flags checker") (auto simp: reported_def)

text \<open>
  C30: Every opcode is type-safe on its stack.  On a state within the limits, whatever the
  opcode and whether or not the branch is executed, the switch ends in a state within the
  limits (all elements of at most 520 bytes, at most 201 counted operations, the code hash
  position not past the iterator), or with a reported error or a number that cannot be
  read; never with an access outside the stack, a pop of an empty stack or a failed assertion.
\<close>

theorem exec_opcode_type_safe:
  assumes "within_limits st"
  shows "case exec_opcode env fExec opcode st of
      Inr st' \<Rightarrow> within_limits st' \<and> eval_pc st' = eval_pc st
    | Inl (Return_error e) \<Rightarrow> e \<noteq> SCRIPT_ERR_OK
    | Inl (Throw (Bad_number e)) \<Rightarrow> True
    | Inl _ \<Rightarrow> False"
  using exec_opcode_ok [OF assms, of env fExec opcode] exec_opcode_pc [of env fExec opcode st]
  by (cases "exec_opcode env fExec opcode st") (auto split: failure.split exception.split)

theorem exec_opcode_type_safe_witness:
  "within_limits (eval_init [[2], [3]]) \<and>
   (case exec_opcode witness_env True OP_SWAP (eval_init [[2], [3]]) of
      Inr st' \<Rightarrow> within_limits st' \<and> eval_pc st' = eval_pc (eval_init [[2], [3]])
    | Inl (Return_error e) \<Rightarrow> e \<noteq> SCRIPT_ERR_OK
    | Inl (Throw (Bad_number e)) \<Rightarrow> True
    | Inl _ \<Rightarrow> False)"
proof -
  have init: "within_limits (eval_init [[2], [3]])"
    by (simp add: within_limits_def eval_init_def MAX_SCRIPT_ELEMENT_SIZE_def)
  then show ?thesis
    using exec_opcode_type_safe [OF init, of witness_env True OP_SWAP] by blast
qed


text \<open>
  C19: The limits of the interpreter are invariants.  Start from a stack of at most 1000
  elements of at most 520 bytes each.  Then in every state that the loop of \<open>EvalScript\<close>
  reaches, the two stacks together have at most 1000 elements, each of at most 520 bytes,
  at most 201 operations have been counted (the keys of \<open>OP_CHECKMULTISIG\<close> included), and
  the positions stay inside the script.
\<close>

theorem eval_limits_invariant:
  assumes "length stack \<le> 1000" "\<forall>v \<in> set stack. length v \<le> MAX_SCRIPT_ELEMENT_SIZE"
    "eval_steps env n (eval_init stack) st"
  shows "eval_limits env st"
proof (rule eval_limits_steps [OF assms(3)])
  show "eval_limits env (eval_init stack)"
    using assms(1,2) by (auto simp: eval_limits_def eval_init_def)
qed

theorem eval_limits_invariant_witness:
  "eval_limits witness_env ((eval_init [[2], [1]])\<lparr>eval_pc := 1\<rparr>)"
proof (rule eval_limits_invariant [of "[[2]]" _ 1])
  have num: "getvch 1 = [1]"
    by (simp add: getvch_def serialize_def serialize_loop.simps)
  have "eval_step witness_env (eval_init [[2]]) = Inr ((eval_init [[2], [1]])\<lparr>eval_pc := 1\<rparr>)"
    by (simp add: eval_step_def eval_init_def witness_env_def GetOp2_def exec_opcode_def disabled_opcode_def
        op_small_number_def on_stack_def num)
  then show "eval_steps witness_env 1 (eval_init [[2]]) ((eval_init [[2], [1]])\<lparr>eval_pc := 1\<rparr>)"
    using eval_steps.step [OF eval_steps.start, of "eval_init [[2]]" witness_env]
    by (simp add: eval_init_def witness_env_def)
qed (simp_all add: MAX_SCRIPT_ELEMENT_SIZE_def)

text \<open>
  C31: Every evaluation ends.  No run of the loop has more rounds than the script has bytes,
  and from the initial state the loop does get, in that many rounds, either to the end of
  the script or to a round that fails; the result of the loop is that state or that failure.
\<close>

theorem eval_loop_ends:
  "{n. \<exists>st. eval_steps env n (eval_init stack) st} \<subseteq> {..length (env_script env)}
   \<and> (\<exists>n st. eval_steps env n (eval_init stack) st
       \<and> (eval_pc st = length (env_script env) \<and> eval_loop env (eval_init stack) = Inr st
         \<or> (\<exists>f. eval_step env st = Inl f \<and> eval_loop env (eval_init stack) = Inl f)))"
proof
  have "n \<le> eval_pc st' \<and> (eval_pc st \<le> length (env_script env) \<longrightarrow> eval_pc st' \<le> length (env_script env))"
    if "eval_steps env n st st'" for n st st'
    using that by (induction n st st' rule: eval_steps.induct) (auto dest!: eval_step_advances)
  note run = this
  then show "{n. \<exists>st. eval_steps env n (eval_init stack) st} \<subseteq> {..length (env_script env)}"
    by (fastforce simp: eval_init_def)
  show "\<exists>n st. eval_steps env n (eval_init stack) st
       \<and> (eval_pc st = length (env_script env) \<and> eval_loop env (eval_init stack) = Inr st
         \<or> (\<exists>f. eval_step env st = Inl f \<and> eval_loop env (eval_init stack) = Inl f))"
    using eval_loop_steps [of "eval_init stack" env] run
    by (metis eval_init_def eval_state.select_convs(5) le_antisym le0)
qed

end
