(* ===== verification/Standard.thy ===== *)
theory Standard
  imports InterpreterSafety
begin

unbundle bit_operations_syntax

text \<open>
  The standard scripts of \<^verbatim>\<open>src/src/script/standard.cpp\<close>: the template matcher \<open>Solver\<close>, the
  extraction of destinations, the builders \<open>GetScriptFor...\<close>, and the part of \<open>CPubKey\<close>
  (\<^verbatim>\<open>src/src/pubkey.h\<close>) that they use.

  \<^item> A \<open>CPubKey\<close> is the bytes between its \<open>begin()\<close> and \<open>end()\<close>: empty when it is invalid.
  \<^item> A \<open>CKeyID\<close> or \<open>CScriptID\<close> is its 160-bit number.
  \<^item> \<open>Solver\<close> returns \<open>None\<close> where the source builds a vector from a range that ends before it
    begins: a script that consists of \<open>OP_ZEROCOINMINT\<close> alone.

  The lemmas show that \<open>Solver\<close> recovers what the builders wrote, and execute the standard
  scripts symbolically: which inputs spend an output of each type.
\<close>

section \<open>Public keys\<close>

definition PUBLIC_KEY_SIZE :: nat where
  "PUBLIC_KEY_SIZE = 65"

definition COMPRESSED_PUBLIC_KEY_SIZE :: nat where
  "COMPRESSED_PUBLIC_KEY_SIZE = 33"

definition GetLen :: "byte \<Rightarrow> nat" where
  "GetLen chHeader =
     (if chHeader = 2 \<or> chHeader = 3 then COMPRESSED_PUBLIC_KEY_SIZE
      else if chHeader = 4 \<or> chHeader = 6 \<or> chHeader = 7 then PUBLIC_KEY_SIZE
      else 0)"

definition CPubKey_Set :: "bytes \<Rightarrow> bytes" where
  "CPubKey_Set vch =
     (let len = (if vch = [] then 0 else GetLen (vch ! 0))
      in if len \<noteq> 0 \<and> len = length vch then vch else [])"

definition CPubKey_IsValid :: "bytes \<Rightarrow> bool" where
  "CPubKey_IsValid key \<longleftrightarrow> length key > 0"

definition CPubKey_GetID :: "crypto \<Rightarrow> bytes \<Rightarrow> 160 word" where
  "CPubKey_GetID c key = Hash160 c key"

section \<open>Types and templates\<close>

datatype txnouttype =
  TX_NONSTANDARD | TX_PUBKEY | TX_PUBKEYHASH | TX_SCRIPTHASH | TX_MULTISIG | TX_NULL_DATA
| TX_ZEROCOINMINT | TX_COLDSTAKE

datatype CTxDestination = CNoDestination | CKeyID "160 word" | CScriptID "160 word"

definition GetTxnOutputType :: "txnouttype \<Rightarrow> string" where
  "GetTxnOutputType t =
     (case t of
        TX_NONSTANDARD \<Rightarrow> ''nonstandard''
      | TX_PUBKEY \<Rightarrow> ''pubkey''
      | TX_PUBKEYHASH \<Rightarrow> ''pubkeyhash''
      | TX_SCRIPTHASH \<Rightarrow> ''scripthash''
      | TX_MULTISIG \<Rightarrow> ''multisig''
      | TX_COLDSTAKE \<Rightarrow> ''coldstake''
      | TX_NULL_DATA \<Rightarrow> ''nulldata''
      | TX_ZEROCOINMINT \<Rightarrow> ''zerocoinmint'')"

text \<open>\<open>CScript() << a << b ...\<close> for enumerators, all below 256.\<close>

definition script_of :: "opcodetype list \<Rightarrow> bytes" where
  "script_of opcodes = map word_of_nat opcodes"

text \<open>The multimap, in the order of its keys.\<close>

definition mTemplates :: "(txnouttype \<times> bytes) list" where
  "mTemplates =
     [(TX_PUBKEY, script_of [OP_PUBKEY, OP_CHECKSIG]),
      (TX_PUBKEYHASH, script_of [OP_DUP, OP_HASH160, OP_PUBKEYHASH, OP_EQUALVERIFY, OP_CHECKSIG]),
      (TX_MULTISIG, script_of [OP_SMALLINTEGER, OP_PUBKEYS, OP_SMALLINTEGER, OP_CHECKMULTISIG]),
      (TX_COLDSTAKE, script_of [OP_DUP, OP_HASH160, OP_ROT, OP_IF, OP_CHECKCOLDSTAKEVERIFY, OP_PUBKEYHASH,
         OP_ELSE, OP_PUBKEYHASH, OP_ENDIF, OP_EQUALVERIFY, OP_CHECKSIG])]"

section \<open>\<open>Solver\<close>\<close>

text \<open>The inner loop for \<open>OP_PUBKEYS\<close>.\<close>

function pubkeys_loop ::
  "bytes \<Rightarrow> nat \<Rightarrow> opcodetype \<Rightarrow> valtype \<Rightarrow> valtype list \<Rightarrow> nat \<times> opcodetype \<times> valtype \<times> valtype list" where
  "pubkeys_loop script1 pc1 opcode1 vch1 vSolutions =
     (if length vch1 \<ge> 33 \<and> length vch1 \<le> 65 then
        (case GetOp2 script1 pc1 of
           (True, pc1, opcode1, vch1') \<Rightarrow> pubkeys_loop script1 pc1 opcode1 vch1' (vSolutions @ [vch1])
         | (False, pc1, opcode1, vch1') \<Rightarrow> (pc1, opcode1, vch1', vSolutions @ [vch1]))
      else (pc1, opcode1, vch1, vSolutions))"
  by pat_completeness auto
termination
  by (relation "measure (\<lambda>(s, pc, o', v, sols). length s - pc)") (auto dest!: GetOp2_advances [OF sym])

declare pubkeys_loop.simps [simp del]

text \<open>What follows the two reads: the solution to add, or \<open>None\<close> for a \<open>break\<close>.\<close>

definition match_op :: "opcodetype \<Rightarrow> valtype \<Rightarrow> opcodetype \<Rightarrow> valtype \<Rightarrow> valtype list \<Rightarrow> valtype list option" where
  "match_op opcode1 vch1 opcode2 vch2 vSolutions =
     (if opcode2 = OP_PUBKEY then
        (if length vch1 < 33 \<or> length vch1 > 65 then None else Some (vSolutions @ [vch1]))
      else if opcode2 = OP_PUBKEYHASH then
        (if length vch1 \<noteq> 20 then None else Some (vSolutions @ [vch1]))
      else if opcode2 = OP_SMALLINTEGER then
        (if opcode1 = OP_0 \<or> (opcode1 \<ge> OP_1 \<and> opcode1 \<le> OP_16)
         then (case DecodeOP_N opcode1 of
                 Some n \<Rightarrow> Some (vSolutions @ [[word_of_int n]]) | None \<Rightarrow> None)
         else None)
      else if opcode1 \<noteq> opcode2 \<or> vch1 \<noteq> vch2 then None
      else Some vSolutions)"

function match_loop :: "bytes \<Rightarrow> bytes \<Rightarrow> nat \<Rightarrow> nat \<Rightarrow> valtype list \<Rightarrow> valtype list option" where
  "match_loop script1 script2 pc1 pc2 vSolutions =
     (if pc1 = length script1 \<and> pc2 = length script2 then Some vSolutions
      else case GetOp2 script1 pc1 of
        (False, _, _, _) \<Rightarrow> None
      | (True, pc1, opcode1, vch1) \<Rightarrow>
          (case GetOp2 script2 pc2 of
             (False, _, _, _) \<Rightarrow> None
           | (True, pc2, opcode2, vch2) \<Rightarrow>
               if opcode2 = OP_PUBKEYS then
                 (case pubkeys_loop script1 pc1 opcode1 vch1 vSolutions of
                    (pc1, opcode1, vch1, vSolutions) \<Rightarrow>
                      (case GetOp2 script2 pc2 of
                         (False, _, _, _) \<Rightarrow> None
                       | (True, pc2, opcode2, vch2) \<Rightarrow>
                           (case match_op opcode1 vch1 opcode2 vch2 vSolutions of
                              None \<Rightarrow> None
                            | Some vSolutions \<Rightarrow> match_loop script1 script2 pc1 pc2 vSolutions)))
               else
                 (case match_op opcode1 vch1 opcode2 vch2 vSolutions of
                    None \<Rightarrow> None
                  | Some vSolutions \<Rightarrow> match_loop script1 script2 pc1 pc2 vSolutions)))"
  by pat_completeness auto
termination
  by (relation "measure (\<lambda>(s1, s2, pc1, pc2, sols). length s2 - pc2)")
     (auto dest!: GetOp2_advances [OF sym])

declare match_loop.simps [simp del]

type_synonym solver_result = "bool \<times> txnouttype \<times> valtype list"

definition multisig_checks :: "valtype list \<Rightarrow> bool" where
  "multisig_checks vSolutions \<longleftrightarrow>
     (let m = hd vSolutions ! 0; n = last vSolutions ! 0
      in \<not> (m < 1 \<or> n < 1 \<or> m > n \<or> length vSolutions - 2 \<noteq> unat n))"

fun scan_templates :: "bytes \<Rightarrow> (txnouttype \<times> bytes) list \<Rightarrow> solver_result" where
  "scan_templates scriptPubKey [] = (False, TX_NONSTANDARD, [])"
| "scan_templates scriptPubKey ((t, tplate) # templates) =
     (case match_loop scriptPubKey tplate 0 0 [] of
        Some vSolutions \<Rightarrow>
          if t = TX_MULTISIG \<and> \<not> multisig_checks vSolutions then (False, t, vSolutions)
          else (True, t, vSolutions)
      | None \<Rightarrow> scan_templates scriptPubKey templates)"

definition Solver :: "bytes \<Rightarrow> solver_result option" where
  "Solver scriptPubKey =
     (if IsPayToScriptHash scriptPubKey
      then Some (True, TX_SCRIPTHASH, [take 20 (drop 2 scriptPubKey)])
      else if IsZerocoinMint scriptPubKey then
        (if length scriptPubKey > 150 then Some (False, TX_ZEROCOINMINT, [])
         else if length scriptPubKey < 2 then None
         else Some (True, TX_ZEROCOINMINT, [drop 2 scriptPubKey]))
      else if length scriptPubKey \<ge> 1 \<and> unat (scriptPubKey ! 0) = OP_RETURN \<and> IsPushOnly_from scriptPubKey 1
      then Some (True, TX_NULL_DATA, [])
      else Some (scan_templates scriptPubKey mTemplates))"

definition ScriptSigArgsExpected :: "txnouttype \<Rightarrow> valtype list \<Rightarrow> int" where
  "ScriptSigArgsExpected t vSolutions =
     (case t of
        TX_NONSTANDARD \<Rightarrow> -1
      | TX_NULL_DATA \<Rightarrow> -1
      | TX_ZEROCOINMINT \<Rightarrow> -1
      | TX_PUBKEY \<Rightarrow> 1
      | TX_PUBKEYHASH \<Rightarrow> 2
      | TX_COLDSTAKE \<Rightarrow> 3
      | TX_MULTISIG \<Rightarrow>
          if length vSolutions < 1 \<or> length (vSolutions ! 0) < 1 then -1
          else uint (vSolutions ! 0 ! 0) + 1
      | TX_SCRIPTHASH \<Rightarrow> 1)"

text \<open>\<open>fDatacarrier\<close> is \<open>GetBoolArg("-datacarrier", true)\<close>.\<close>

definition IsStandard :: "bool \<Rightarrow> nat \<Rightarrow> bytes \<Rightarrow> (bool \<times> txnouttype) option" where
  "IsStandard fDatacarrier nMaxDatacarrierBytes scriptPubKey =
     (case Solver scriptPubKey of
        None \<Rightarrow> None
      | Some (False, whichType, _) \<Rightarrow> Some (False, whichType)
      | Some (True, whichType, vSolutions) \<Rightarrow>
          if whichType = TX_MULTISIG then
            (let m = hd vSolutions ! 0; n = last vSolutions ! 0
             in if n < 1 \<or> n > 3 then Some (False, whichType)
                else if m < 1 \<or> m > n then Some (False, whichType)
                else Some (whichType \<noteq> TX_NONSTANDARD, whichType))
          else if whichType = TX_NULL_DATA \<and> (\<not> fDatacarrier \<or> length scriptPubKey > nMaxDatacarrierBytes)
          then Some (False, whichType)
          else Some (whichType \<noteq> TX_NONSTANDARD, whichType))"

section \<open>Destinations\<close>

definition uint160 :: "bytes \<Rightarrow> 160 word" where
  "uint160 vch = word_of_nat (le_nat vch)"

text \<open>\<open>None\<close>: \<open>Solver\<close> does not return.  \<open>Some None\<close>: the function returns false.\<close>

definition ExtractDestination :: "crypto \<Rightarrow> bytes \<Rightarrow> bool \<Rightarrow> CTxDestination option option" where
  "ExtractDestination c scriptPubKey fColdStake =
     (case Solver scriptPubKey of
        None \<Rightarrow> None
      | Some (False, _, _) \<Rightarrow> Some None
      | Some (True, whichType, vSolutions) \<Rightarrow>
          Some (if whichType = TX_PUBKEY then
                  (let pubKey = CPubKey_Set (vSolutions ! 0)
                   in if \<not> CPubKey_IsValid pubKey then None else Some (CKeyID (CPubKey_GetID c pubKey)))
                else if whichType = TX_PUBKEYHASH then Some (CKeyID (uint160 (vSolutions ! 0)))
                else if whichType = TX_SCRIPTHASH then Some (CScriptID (uint160 (vSolutions ! 0)))
                else if whichType = TX_COLDSTAKE
                then Some (CKeyID (uint160 (vSolutions ! (if fColdStake then 0 else 1))))
                else None))"

fun multisig_addresses :: "crypto \<Rightarrow> valtype list \<Rightarrow> CTxDestination list" where
  "multisig_addresses c [] = []"
| "multisig_addresses c (v # vs) =
     (let pubKey = CPubKey_Set v
      in if \<not> CPubKey_IsValid pubKey then multisig_addresses c vs
         else CKeyID (CPubKey_GetID c pubKey) # multisig_addresses c vs)"

text \<open>The result, the type, the addresses and the required number (0 where the source leaves it unset).\<close>

definition ExtractDestinations :: "crypto \<Rightarrow> bytes \<Rightarrow> (bool \<times> txnouttype \<times> CTxDestination list \<times> nat) option" where
  "ExtractDestinations c scriptPubKey =
     (case Solver scriptPubKey of
        None \<Rightarrow> None
      | Some (False, typeRet, _) \<Rightarrow> Some (False, typeRet, [], 0)
      | Some (True, typeRet, vSolutions) \<Rightarrow>
          if typeRet = TX_NULL_DATA then Some (False, typeRet, [], 0)
          else if typeRet = TX_MULTISIG then
            (let nRequiredRet = unat (hd vSolutions ! 0);
                 addressRet = multisig_addresses c (butlast (tl vSolutions))
             in Some (addressRet \<noteq> [], typeRet, addressRet, nRequiredRet))
          else if typeRet = TX_COLDSTAKE then
            (if length vSolutions < 2 then Some (False, typeRet, [], 0)
             else Some (True, typeRet,
               [CKeyID (uint160 (vSolutions ! 0)), CKeyID (uint160 (vSolutions ! 1))], 2))
          else case ExtractDestination c scriptPubKey False of
              None \<Rightarrow> None
            | Some None \<Rightarrow> Some (False, typeRet, [], 1)
            | Some (Some address) \<Rightarrow> Some (True, typeRet, [address], 1))"

section \<open>Builders\<close>

definition ToByteVector :: "160 word \<Rightarrow> bytes" where
  "ToByteVector h = WRITEDATA 20 h"

definition GetScriptForDestination :: "CTxDestination \<Rightarrow> bytes" where
  "GetScriptForDestination dest =
     (case dest of
        CNoDestination \<Rightarrow> []
      | CKeyID keyID \<Rightarrow>
          push_data (script_of [OP_DUP, OP_HASH160]) (ToByteVector keyID) @ script_of [OP_EQUALVERIFY, OP_CHECKSIG]
      | CScriptID scriptID \<Rightarrow> push_data (script_of [OP_HASH160]) (ToByteVector scriptID) @ script_of [OP_EQUAL])"

definition GetScriptForStakeDelegation :: "160 word \<Rightarrow> 160 word \<Rightarrow> bytes" where
  "GetScriptForStakeDelegation stakingKey spendingKey =
     push_data
       (push_data (script_of [OP_DUP, OP_HASH160, OP_ROT, OP_IF, OP_CHECKCOLDSTAKEVERIFY]) (ToByteVector stakingKey)
          @ script_of [OP_ELSE])
       (ToByteVector spendingKey)
     @ script_of [OP_ENDIF, OP_EQUALVERIFY, OP_CHECKSIG]"

text \<open>\<open>nLockTime\<close> is an \<open>int\<close>, widened to \<open>int64_t\<close>.\<close>

definition GetLockedScriptForDestination :: "CTxDestination \<Rightarrow> 32 word \<Rightarrow> bytes" where
  "GetLockedScriptForDestination dest nLockTime =
     (case dest of
        CNoDestination \<Rightarrow> []
      | CKeyID keyID \<Rightarrow>
          push_data (push_int64 [] (scast nLockTime) @ script_of [OP_CHECKLOCKTIMEVERIFY, OP_DROP, OP_DUP, OP_HASH160])
            (ToByteVector keyID) @ script_of [OP_EQUALVERIFY, OP_CHECKSIG]
      | CScriptID scriptID \<Rightarrow>
          push_data (push_int64 [] (scast nLockTime) @ script_of [OP_CHECKLOCKTIMEVERIFY, OP_DROP, OP_HASH160])
            (ToByteVector scriptID) @ script_of [OP_EQUAL])"

definition GetScriptForRawPubKey :: "bytes \<Rightarrow> bytes" where
  "GetScriptForRawPubKey pubKey = push_data [] pubKey @ script_of [OP_CHECKSIG]"

text \<open>\<open>None\<close> is the failed assertion of \<open>EncodeOP_N\<close> for a number above 16.\<close>

definition GetScriptForMultisig :: "int \<Rightarrow> bytes list \<Rightarrow> bytes option" where
  "GetScriptForMultisig nRequired keys =
     (case EncodeOP_N nRequired of
        None \<Rightarrow> None
      | Some m \<Rightarrow>
          (case EncodeOP_N (int (length keys)) of
             None \<Rightarrow> None
           | Some n \<Rightarrow> Some (foldl push_data (script_of [m]) keys @ script_of [n, OP_CHECKMULTISIG])))"

section \<open>Symbolic execution\<close>

text \<open>The state of an evaluation outside all conditionals, with an empty alternative stack.\<close>

definition at :: "nat \<Rightarrow> nat \<Rightarrow> valtype list \<Rightarrow> eval_state" where
  "at pc ops stack =
     \<lparr>eval_stack = stack, eval_altstack = [], eval_vfExec = [], eval_nOpCount = ops,
      eval_pc = pc, eval_pbegincodehash = 0\<rparr>"

lemma at_simps [simp]:
  "eval_stack (at pc ops stack) = stack" "eval_altstack (at pc ops stack) = []"
  "eval_vfExec (at pc ops stack) = []" "eval_nOpCount (at pc ops stack) = ops"
  "eval_pc (at pc ops stack) = pc" "eval_pbegincodehash (at pc ops stack) = 0"
  "(at pc ops stack)\<lparr>eval_stack := s\<rparr> = at pc ops s"
  "(at pc ops stack)\<lparr>eval_pc := pc', eval_nOpCount := n\<rparr> = at pc' n stack"
  by (simp_all add: at_def)

lemma eval_init_at: "eval_init stack = at 0 0 stack"
  by (simp add: eval_init_def at_def)

lemma GetOp2_pc_less: "GetOp2 script pc = (True, pc', opcode, v) \<Longrightarrow> pc < length script"
  using GetOp2_advances [of script pc pc' opcode v] by simp

lemma eval_loop_push:
  assumes "GetOp2 (env_script env) pc = (True, pc', opcode, v)" "opcode \<le> OP_PUSHDATA4"
    "length v \<le> MAX_SCRIPT_ELEMENT_SIZE" "fRequireMinimal env \<Longrightarrow> CheckMinimalPush v opcode" "length stack < 1000"
  shows "eval_loop env (at pc ops stack) = eval_loop env (at pc' ops (stack @ [v]))"
proof -
  have "eval_step env (at pc ops stack) = Inr (at pc' ops (stack @ [v]))"
    using assms(2-5) by (auto simp: eval_step_def assms(1) Let_def disabled_opcode_def not_less)
  then show ?thesis
    using GetOp2_pc_less [OF assms(1)] by (subst eval_loop.simps) simp
qed

lemma eval_loop_op:
  assumes "GetOp2 (env_script env) pc = (True, pc', opcode, [])" "OP_16 < opcode" "\<not> disabled_opcode opcode" "ops < 201"
  shows "eval_loop env (at pc ops stack) =
    bind (exec_opcode env True opcode (at pc' (ops + 1) stack)) (\<lambda>st.
      if length (eval_stack st) + length (eval_altstack st) > 1000 then set_error SCRIPT_ERR_STACK_SIZE
      else eval_loop env st)"
proof -
  have "eval_step env (at pc ops stack) =
      bind (exec_opcode env True opcode (at pc' (ops + 1) stack)) (\<lambda>st.
        if length (eval_stack st) + length (eval_altstack st) > 1000 then set_error SCRIPT_ERR_STACK_SIZE
        else Inr st)"
    using assms(2-4) by (simp add: eval_step_def assms(1) Let_def)
  then show ?thesis
    using GetOp2_pc_less [OF assms(1)]
    by (subst eval_loop.simps) (cases "exec_opcode env True opcode (at pc' (ops + 1) stack)"; simp)
qed

lemma eval_loop_end: "pc = length (env_script env) \<Longrightarrow> eval_loop env (at pc ops stack) = Inr (at pc ops stack)"
  by (simp add: eval_loop.simps)

lemma GetOp2_opcode:
  "pc < length script \<Longrightarrow> OP_PUSHDATA4 < unat (script ! pc) \<Longrightarrow>
   GetOp2 script pc = (True, pc + 1, unat (script ! pc), [])"
  by (simp add: GetOp2_def)

lemma stacktop_append [simp]:
  "stacktop (s @ [a]) 1 = Inr a" "stacktop (s @ [a]) (Suc 0) = Inr a"
  "stacktop [a, b] 2 = Inr a" "stacktop [a, b] (Suc 0) = Inr b"
  "stacktop [a] (Suc 0) = Inr a" "stacktop [a, b, c] (Suc 0) = Inr c" "stacktop [a, b, c, d] (Suc 0) = Inr d"
  "stacktop [a, b, c, d] 2 = Inr c" "stacktop [a, b, c] 2 = Inr b"
  by (simp_all add: stacktop_def nth_append)

lemma popstack_append [simp]: "popstack (s @ [a]) = Inr s" "popstack [a] = Inr []"
  by (simp_all add: popstack_def)

lemma bind_right [simp]: "bind r Inr = r"
  by (cases r) simp_all

section \<open>Scripts that push data\<close>

lemma push_code_minimal: "2 \<le> length v \<Longrightarrow> CheckMinimalPush v (push_code v)"
  by (simp add: CheckMinimalPush_def push_code_def)

lemma push_code_le: "push_code v \<le> OP_PUSHDATA4"
  by (simp add: push_code_def)

lemma eval_loop_push_data:
  assumes "env_script env = push_data pre v @ rest" "length (env_script env) < 2 ^ 32"
    "2 \<le> length v" "length v \<le> MAX_SCRIPT_ELEMENT_SIZE" "length stack < 1000"
  shows "eval_loop env (at (length pre) ops stack) = eval_loop env (at (length (push_data pre v)) ops (stack @ [v]))"
  using assms by (intro eval_loop_push [where opcode = "push_code v"])
    (simp_all add: GetOp2_at_push push_code_le push_code_minimal)

lemma IsPushOnly_from_push:
  assumes "length (push_data pre v @ rest) < 2 ^ 32"
  shows "IsPushOnly_from (push_data pre v @ rest) (length pre) =
    IsPushOnly_from (push_data pre v @ rest) (length (push_data pre v))"
  using GetOp2_at_push [OF assms] push_code_le [of v] GetOp2_pc_less [OF GetOp2_at_push [OF assms]]
  by (subst IsPushOnly_from.simps) (simp add: GetOp_def)

lemma length_push_data_le: "length (push_data pre v) \<le> length pre + length v + 5"
  by (simp add: push_data_def)

text \<open>A script that pushes two values, as the inputs of the standard scripts do.\<close>

lemma two_pushes:
  assumes "2 \<le> length a" "length a \<le> MAX_SCRIPT_ELEMENT_SIZE" "2 \<le> length b" "length b \<le> MAX_SCRIPT_ELEMENT_SIZE"
  shows "EvalScript c [] (push_data (push_data [] a) b) flags checker = Inr [a, b]
    \<and> IsPushOnly (push_data (push_data [] a) b)"
proof -
  define s where "s = push_data (push_data [] a) b"
  let ?env = "\<lparr>env_script = s, env_flags = flags, env_checker = checker, env_crypto = c\<rparr>"
  have len: "length s \<le> 1050"
    using length_push_data_le [of "[]" a] length_push_data_le [of "push_data [] a" b] assms
    by (simp add: s_def MAX_SCRIPT_ELEMENT_SIZE_def)
  have s1: "s = push_data [] a @ push_data [] b" unfolding s_def by (rule push_data_append)
  have "eval_loop ?env (eval_init []) = Inr (at (length s) 0 [a, b])"
    using eval_loop_push_data [of ?env "[]" a "push_data [] b" "[]" 0]
      eval_loop_push_data [of ?env "push_data [] a" b "[]" "[a]" 0] len assms
    by (simp add: eval_init_at s_def [symmetric] s1 [symmetric] eval_loop_end)
  moreover have "IsPushOnly_from s 0"
    using IsPushOnly_from_push [of "[]" a "push_data [] b"] IsPushOnly_from_push [of "push_data [] a" b "[]"] len
    by (simp add: s_def [symmetric] s1 [symmetric] IsPushOnly_from.simps [of s "length s"])
  ultimately show ?thesis
    using len by (simp add: EvalScript_def Let_def MAX_SCRIPT_SIZE_def s_def [symmetric] IsPushOnly_def)
qed

section \<open>Pay to public key hash\<close>

lemma length_ToByteVector [simp]: "length (ToByteVector h) = 20"
  by (simp add: ToByteVector_def)

lemma p2pkh_bytes:
  "GetScriptForDestination (CKeyID h) = [0x76, 0xa9, 0x14] @ ToByteVector h @ [0x88, 0xac]"
  by (simp add: GetScriptForDestination_def push_data_def script_of_def)

lemma p2sh_bytes:
  "GetScriptForDestination (CScriptID h) = [0xa9, 0x14] @ ToByteVector h @ [0x87]"
  by (simp add: GetScriptForDestination_def push_data_def script_of_def)

lemma p2pkh_reads:
  assumes "script = GetScriptForDestination (CKeyID h)"
  shows "length script = 25"
    "GetOp2 script 0 = (True, 1, OP_DUP, [])" "GetOp2 script 1 = (True, 2, OP_HASH160, [])"
    "GetOp2 script 2 = (True, 23, 20, ToByteVector h)"
    "GetOp2 script 23 = (True, 24, OP_EQUALVERIFY, [])" "GetOp2 script 24 = (True, 25, OP_CHECKSIG, [])"
  unfolding assms p2pkh_bytes
  by (simp_all add: GetOp2_def GetOp2_operand_def Let_def nth_append nth_Cons')

lemma p2pkh_code:
  assumes "length sig \<noteq> 20" "length sig < 2 ^ 32"
  shows "fst (FindAndDelete (GetScriptForDestination (CKeyID h)) (push_data [] sig)) = GetScriptForDestination (CKeyID h)"
proof -
  have op: "is_op [0x76]" "is_op [0xa9]" "is_op (0x14 # ToByteVector h)" "is_op [0x88]" "is_op [0xac]"
    by (simp_all add: is_op_def GetOp_def GetOp2_def GetOp2_operand_def)
  have ops: "script_ops (GetScriptForDestination (CKeyID h)) = ([[0x76], [0xa9], 0x14 # ToByteVector h, [0x88], [0xac]], [])"
    using script_ops_op [OF op(1), of "[0xa9, 0x14] @ ToByteVector h @ [0x88, 0xac]"]
      script_ops_op [OF op(2), of "[0x14] @ ToByteVector h @ [0x88, 0xac]"]
      script_ops_op [OF op(3), of "[0x88, 0xac]"] script_ops_op [OF op(4), of "[0xac]"] script_ops_op [OF op(5), of "[]"]
      script_ops_stop [of "[]" 0 OP_INVALIDOPCODE]
    by (simp add: p2pkh_bytes GetOp_def GetOp2_def)
  have reads: "GetOp2 [b] 0 = (True, 1, unat b, [])" if "OP_PUSHDATA4 < unat b" for b :: byte
    using that by (simp add: GetOp2_def)
  have data: "GetOp2 (0x14 # ToByteVector h) 0 = (True, 21, 20, ToByteVector h)"
    by (simp add: GetOp2_def GetOp2_operand_def)
  note push = GetOp2_push_data [OF assms(2)] and le = push_code_le [of sig]
  have single: "push_data [] sig \<noteq> [b]" if "OP_PUSHDATA4 < unat b" for b
    using push reads [OF that] le that by (metis leD prod.inject)
  have "push_data [] sig \<noteq> 0x14 # ToByteVector h"
    using push data assms(1) by (metis length_ToByteVector prod.inject)
  moreover have "push_data [] sig \<noteq> [0x76]" "push_data [] sig \<noteq> [0xa9]" "push_data [] sig \<noteq> [0x88]"
      "push_data [] sig \<noteq> [0xac]"
    by (rule single, simp)+
  ultimately have "filter (\<lambda>c. c \<noteq> push_data [] sig) (fst (script_ops (GetScriptForDestination (CKeyID h)))) =
      fst (script_ops (GetScriptForDestination (CKeyID h)))"
    unfolding ops by (intro filter_True) auto
  moreover have "length (GetScriptForDestination (CKeyID h)) < 2 ^ 32" by (simp add: p2pkh_bytes)
  ultimately show ?thesis
    by (simp only: FindAndDelete_ops [OF is_op_push_data [OF assms(2)]] fst_conv concat_script_ops)
qed

lemma p2pkh_loop:
  assumes "env_script env = GetScriptForDestination (CKeyID h)" "length sig \<noteq> 20" "length sig < 2 ^ 32"
  shows "eval_loop env (at 0 0 [sig, pubkey]) =
    (if WRITEDATA 20 (Hash160 (env_crypto env) pubkey) \<noteq> ToByteVector h then set_error SCRIPT_ERR_EQUALVERIFY
     else bind (CheckSignatureEncoding env sig) (\<lambda>_. bind (CheckPubKeyEncoding env pubkey) (\<lambda>_.
       Inr (at 25 4 [if CheckSig (env_checker env) sig pubkey (env_script env) then vchTrue else vchFalse]))))"
proof -
  note r = p2pkh_reads [OF assms(1)]
  have 1: "eval_loop env (at 0 0 [sig, pubkey]) = eval_loop env (at 1 1 [sig, pubkey, pubkey])"
    by (simp add: eval_loop_op [OF r(2)] disabled_opcode_def exec_opcode_def on_stack_def op_dup_def)
  have 2: "\<dots> = eval_loop env (at 2 2 [sig, pubkey, WRITEDATA 20 (Hash160 (env_crypto env) pubkey)])"
    by (subst eval_loop_op [OF r(3)])
       (simp_all add: disabled_opcode_def exec_opcode_def on_stack_def op_hash_def popstack_def vchHash_def numeral_2_eq_2)
  have 3: "\<dots> = eval_loop env (at 23 2 [sig, pubkey, WRITEDATA 20 (Hash160 (env_crypto env) pubkey), ToByteVector h])"
    by (subst eval_loop_push [OF r(4)]) (simp_all add: MAX_SCRIPT_ELEMENT_SIZE_def CheckMinimalPush_def)
  have 4: "\<dots> = (if WRITEDATA 20 (Hash160 (env_crypto env) pubkey) \<noteq> ToByteVector h
      then set_error SCRIPT_ERR_EQUALVERIFY else eval_loop env (at 24 3 [sig, pubkey]))"
    by (simp add: eval_loop_op [OF r(5)] disabled_opcode_def exec_opcode_def on_stack_def op_equal_def popstack_def
        Let_def pop_n_take)
  have 5: "eval_loop env (at 24 3 [sig, pubkey]) = bind (CheckSignatureEncoding env sig) (\<lambda>_. bind (CheckPubKeyEncoding env pubkey) (\<lambda>_.
       Inr (at 25 4 [if CheckSig (env_checker env) sig pubkey (env_script env) then vchTrue else vchFalse])))"
    using p2pkh_code [OF assms(2,3), of h] r(1)
    by (cases "CheckSignatureEncoding env sig"; cases "CheckPubKeyEncoding env pubkey")
       (simp_all add: eval_loop_op [OF r(6)] disabled_opcode_def exec_opcode_def on_stack_def op_checksig_def
        assms(1) Let_def pop_n_take eval_loop_end)
  show ?thesis using 1 2 3 4 5 by simp
qed

lemma ToByteVector_inj: "ToByteVector a = ToByteVector b \<longleftrightarrow> a = b"
proof -
  have "word_of_nat (le_nat (WRITEDATA 20 w)) = w" for w :: "160 word"
    by (rule le_nat_WRITEDATA) simp
  then show ?thesis unfolding ToByteVector_def by metis
qed

abbreviation env_of :: "crypto \<Rightarrow> bytes \<Rightarrow> u32 \<Rightarrow> BaseSignatureChecker \<Rightarrow> eval_env" where
  "env_of c script flags checker \<equiv>
     \<lparr>env_script = script, env_flags = flags, env_checker = checker, env_crypto = c\<rparr>"

lemma cast_simps [simp]: "CastToBool vchTrue" "\<not> CastToBool vchFalse"
  by (simp_all add: vchTrue_def vchFalse_def)

lemma p2pkh_eval:
  fixes c keyID flags checker
  defines "spk \<equiv> GetScriptForDestination (CKeyID keyID)"
  defines "env \<equiv> env_of c spk flags checker"
  assumes "length sig \<noteq> 20" "length sig < 2 ^ 32"
  shows "bind (EvalScript c [sig, pubkey] spk flags checker) ends_true = Inr () \<longleftrightarrow>
    Hash160 c pubkey = keyID \<and> CheckSignatureEncoding env sig = Inr () \<and> CheckPubKeyEncoding env pubkey = Inr ()
    \<and> CheckSig checker sig pubkey spk"
proof -
  have "eval_loop env (at 0 0 [sig, pubkey]) =
    (if Hash160 c pubkey \<noteq> keyID then set_error SCRIPT_ERR_EQUALVERIFY
     else bind (CheckSignatureEncoding env sig) (\<lambda>_. bind (CheckPubKeyEncoding env pubkey) (\<lambda>_.
       Inr (at 25 4 [if CheckSig checker sig pubkey spk then vchTrue else vchFalse]))))"
    using p2pkh_loop [of env keyID sig pubkey] assms(3,4) ToByteVector_inj [of "Hash160 c pubkey" keyID]
    by (simp add: env_def spk_def ToByteVector_def)
  moreover have "length spk = 25" by (simp add: spk_def p2pkh_bytes)
  ultimately show ?thesis
    by (cases "CheckSignatureEncoding env sig"; cases "CheckPubKeyEncoding env pubkey")
       (auto simp: EvalScript_def env_def [symmetric] Let_def eval_init_at MAX_SCRIPT_SIZE_def ends_true_def
         split: failure.split)
qed

section \<open>Pay to script hash\<close>

lemma p2sh_reads:
  assumes "script = GetScriptForDestination (CScriptID h)"
  shows "length script = 23" "IsPayToScriptHash script"
    "GetOp2 script 0 = (True, 1, OP_HASH160, [])" "GetOp2 script 1 = (True, 22, 20, ToByteVector h)"
    "GetOp2 script 22 = (True, 23, OP_EQUAL, [])"
  unfolding assms p2sh_bytes
  by (simp_all add: GetOp2_def GetOp2_operand_def Let_def nth_append nth_Cons' IsPayToScriptHash_def)

lemma top_two [simp]: "stacktop (s @ [a, b]) 2 = Inr a" "stacktop (s @ [a, b]) (Suc 0) = Inr b" "pop_n 2 (s @ [a, b]) = Inr s"
  by (simp_all add: stacktop_def nth_append pop_n_take)

lemma p2sh_loop:
  assumes "env_script env = GetScriptForDestination (CScriptID h)" "length stack \<le> 998"
  shows "eval_loop env (at 0 0 (stack @ [redeem])) =
    Inr (at 23 2 (stack @ [if Hash160 (env_crypto env) redeem = h then vchTrue else vchFalse]))"
proof -
  note r = p2sh_reads [OF assms(1)]
  let ?H = "WRITEDATA 20 (Hash160 (env_crypto env) redeem)"
  have 1: "eval_loop env (at 0 0 (stack @ [redeem])) = eval_loop env (at 1 1 (stack @ [?H]))"
    using assms(2)
    by (simp add: eval_loop_op [OF r(3)] disabled_opcode_def exec_opcode_def on_stack_def op_hash_def vchHash_def)
  have 2: "\<dots> = eval_loop env (at 22 1 (stack @ [?H, ToByteVector h]))"
    using assms(2) by (subst eval_loop_push [OF r(4)]) (simp_all add: MAX_SCRIPT_ELEMENT_SIZE_def CheckMinimalPush_def)
  have 3: "\<dots> = Inr (at 23 2 (stack @ [if ?H = ToByteVector h then vchTrue else vchFalse]))"
    using assms(2) r(1)
    by (simp add: eval_loop_op [OF r(5)] disabled_opcode_def exec_opcode_def on_stack_def op_equal_def Let_def
        eval_loop_end numeral_2_eq_2 [symmetric])
  show ?thesis using 1 2 3 ToByteVector_inj [of "Hash160 (env_crypto env) redeem" h] by (simp add: ToByteVector_def)
qed

section \<open>Several signatures\<close>

lemma script_num_small:
  "n \<le> 20 \<Longrightarrow> script_num env nDefaultMaxNumSize (getvch (word_of_nat n)) = Inr (word_of_nat n)
   \<and> getint (word_of_nat n) = int n"
proof -
  assume "n \<le> 20"
  then have "sint (word_of_nat n :: int64) = int n" using sint_int64 [of "int n"] by simp
  then show ?thesis
    using \<open>n \<le> 20\<close> CScriptNum_serialize [of "word_of_nat n" 4]
    by (simp add: script_num_def getvch_def nDefaultMaxNumSize_def getint_in_range)
qed

lemma list_emb_rev: "list_emb P xs ys \<Longrightarrow> list_emb P (rev xs) (rev ys)"
proof (induction rule: list_emb.induct)
  case (list_emb_Cons xs ys y)
  then show ?case using list_emb_append_mono [of P "rev xs" "rev ys" "[]" "[y]"] by simp
next
  case (list_emb_Cons2 x y xs ys)
  then show ?case by (auto intro: list_emb_append_mono)
qed simp

lemma list_emb_rev_iff: "list_emb P (rev xs) (rev ys) \<longleftrightarrow> list_emb P xs ys"
  using list_emb_rev [of P xs ys] list_emb_rev [of P "rev xs" "rev ys"] by auto

lemma checkmultisig_stack:
  assumes "stack = rest @ [dummy] @ sigs @ [a] @ keys @ [b]"
  shows "stacktop stack 1 = Inr b" "stacktop stack (2 + length keys) = Inr a"
    "from_top stack 2 (length keys) = rev keys" "from_top stack (3 + length keys) (length sigs) = rev sigs"
    "pop_n (2 + length keys + length sigs) stack = Inr (rest @ [dummy])"
proof -
  show "pop_n (2 + length keys + length sigs) stack = Inr (rest @ [dummy])"
    unfolding assms by (subst pop_n_take) simp_all
qed (use assms in \<open>simp_all add: stacktop_rev from_top_def nth_append\<close>)

lemma op_checkmultisig_eval:
  assumes st: "eval_stack st = rest @ [dummy] @ sigs @ [getvch (word_of_nat (length sigs))]
      @ keys @ [getvch (word_of_nat (length keys))]"
    and n: "length sigs \<le> length keys" "length keys \<le> 20" "eval_nOpCount st + length keys \<le> 201"
    and dummy: "flag_set env SCRIPT_VERIFY_NULLDUMMY \<Longrightarrow> dummy = []"
  shows "op_checkmultisig env OP_CHECKMULTISIG st =
    bind (check_lists env (without_sigs (drop (eval_pbegincodehash st) (env_script env)) (rev sigs)) (rev sigs) (rev keys))
      (\<lambda>ok. Inr (st\<lparr>eval_nOpCount := eval_nOpCount st + length keys,
        eval_stack := rest @ [if ok then vchTrue else vchFalse]\<rparr>))"
proof -
  note s = checkmultisig_stack [OF st]
  have len: "length (eval_stack st) = length rest + length sigs + length keys + 3" using st by simp
  have loop: "multisig_loop env (eval_stack st) code (Suc (Suc (Suc (length keys)))) 2 (int (length sigs)) (int (length keys)) True =
      check_lists env code (rev sigs) (rev keys)" for code
    using multisig_loop_from_top [of "3 + length keys" "length sigs" "eval_stack st" 2 "length keys" env code] n(1) len s
    by (simp add: numeral_3_eq_3)
  have del: "delete_sigs (eval_stack st) (Suc (Suc (Suc (length keys)))) (length sigs) code = Inr (without_sigs code (rev sigs))" for code
    using delete_sigs_from_top [of "3 + length keys" "length sigs" "eval_stack st" code] len s by (simp add: numeral_3_eq_3)
  have sizes: "length sigs \<le> 20" using n by simp
  show ?thesis
    unfolding op_checkmultisig_def Let_def
    using s len loop del script_num_small [OF n(2), of env] script_num_small [OF sizes, of env] n dummy
    by (cases "check_lists env (without_sigs (drop (eval_pbegincodehash st) (env_script env)) (rev sigs)) (rev sigs) (rev keys)")
       (simp_all add: add.assoc)
qed

section \<open>Templates\<close>

text \<open>The operations that are read from a position on, and the matcher on them.\<close>

fun reads :: "bytes \<Rightarrow> nat \<Rightarrow> (opcodetype \<times> valtype) list \<Rightarrow> bool" where
  "reads script pc [] \<longleftrightarrow> pc = length script"
| "reads script pc ((opcode, v) # items) \<longleftrightarrow> (\<exists>pc'. GetOp2 script pc = (True, pc', opcode, v) \<and> reads script pc' items)"

fun match_items :: "(opcodetype \<times> valtype) list \<Rightarrow> opcodetype list \<Rightarrow> valtype list \<Rightarrow> valtype list option" where
  "match_items [] [] sols = Some sols"
| "match_items [] (_ # _) sols = None"
| "match_items (_ # _) [] sols = None"
| "match_items ((o1, v1) # items) (o2 # ops) sols =
     (case match_op o1 v1 o2 [] sols of None \<Rightarrow> None | Some sols \<Rightarrow> match_items items ops sols)"

definition encodes :: "bytes \<Rightarrow> opcodetype \<times> valtype \<Rightarrow> bool" where
  "encodes b item \<longleftrightarrow> (case item of (opcode, v) \<Rightarrow> GetOp2 b 0 = (True, length b, opcode, v))"

lemma encodes_opcode: "OP_PUSHDATA4 < opcode \<Longrightarrow> opcode < 256 \<Longrightarrow> encodes [word_of_nat opcode] (opcode, [])"
  by (simp add: encodes_def GetOp2_def unat_of_nat)

lemma encodes_push: "length v < 2 ^ 32 \<Longrightarrow> encodes (push_data [] v) (push_code v, v)"
  by (simp add: encodes_def GetOp2_push_data)

lemma reads_concat:
  "list_all2 encodes bs items \<Longrightarrow> length (pre @ concat bs) < 2 ^ 32 \<Longrightarrow> reads (pre @ concat bs) (length pre) items"
proof (induction bs items arbitrary: pre rule: list_all2_induct)
  case (Cons b bs item items)
  obtain opcode v where item: "item = (opcode, v)" by fastforce
  have "GetOp2 (b @ concat bs) 0 = (True, length b, opcode, v)"
    using Cons by (intro GetOp2_append) (simp_all add: encodes_def item)
  then have "GetOp2 (pre @ concat (b # bs)) (length pre) = (True, length (pre @ b), opcode, v)"
    using GetOp2_drop [of "length pre" "pre @ concat (b # bs)"] by simp
  moreover have "reads ((pre @ b) @ concat bs) (length (pre @ b)) items"
    using Cons.IH [of "pre @ b"] Cons.prems by simp
  ultimately show ?case by (simp add: item)
qed simp

lemma reads_script_of:
  assumes "list_all (\<lambda>opcode. OP_PUSHDATA4 < opcode \<and> opcode < 256) ops" "length ops < 2 ^ 32"
  shows "reads (script_of ops) 0 (map (\<lambda>opcode. (opcode, [])) ops)"
proof -
  have "script_of ops = concat (map (\<lambda>opcode. [word_of_nat opcode]) ops)"
    by (induction ops) (simp_all add: script_of_def)
  moreover have "list_all2 encodes (map (\<lambda>opcode. [word_of_nat opcode]) ops) (map (\<lambda>opcode. (opcode, [])) ops)"
    using assms(1) by (induction ops) (simp_all add: encodes_opcode)
  ultimately show ?thesis
    using reads_concat [of "map (\<lambda>opcode. [word_of_nat opcode]) ops" _ "[]"] assms(2)
    by (simp add: script_of_def)
qed

lemma GetOp2_end: "GetOp2 script (length script) = (False, length script, OP_INVALIDOPCODE, [])"
  by (simp add: GetOp2_def)

lemma match_loop_step:
  assumes "GetOp2 s1 pc1 = (True, pc1', o1, v1)" "GetOp2 s2 pc2 = (True, pc2', o2, v2)" "o2 \<noteq> OP_PUBKEYS"
  shows "match_loop s1 s2 pc1 pc2 sols =
    (case match_op o1 v1 o2 v2 sols of None \<Rightarrow> None | Some sols \<Rightarrow> match_loop s1 s2 pc1' pc2' sols)"
proof -
  have "pc1 \<noteq> length s1" using GetOp2_pc_less [OF assms(1)] by simp
  then show ?thesis using assms by (subst match_loop.simps) simp
qed

lemma match_loop_items:
  "reads s1 pc1 items \<Longrightarrow> reads s2 pc2 (map (\<lambda>opcode. (opcode, [])) ops) \<Longrightarrow> OP_PUBKEYS \<notin> set ops \<Longrightarrow>
   match_loop s1 s2 pc1 pc2 sols = match_items items ops sols"
proof (induction items ops sols arbitrary: pc1 pc2 rule: match_items.induct)
  case (1 sols)
  then show ?case by (simp add: match_loop.simps)
next
  case (2 o2 ops sols)
  then have "pc1 = length s1" "pc2 < length s2" by (auto dest: GetOp2_pc_less)
  then show ?case by (subst match_loop.simps) (simp add: GetOp2_end)
next
  case (3 item items sols)
  then have "pc2 = length s2" "pc1 < length s1" by (cases item; auto dest: GetOp2_pc_less)+
  then show ?case by (subst match_loop.simps) (auto simp: GetOp2_end split: prod.split bool.split)
next
  case (4 o1 v1 items o2 ops sols)
  then obtain pc1' pc2' where "GetOp2 s1 pc1 = (True, pc1', o1, v1)" "reads s1 pc1' items"
      "GetOp2 s2 pc2 = (True, pc2', o2, [])" "reads s2 pc2' (map (\<lambda>opcode. (opcode, [])) ops)"
    by auto
  with 4 show ?case by (auto simp: match_loop_step split: option.split)
qed

lemma template_reads:
  "reads (script_of [OP_PUBKEY, OP_CHECKSIG]) 0 (map (\<lambda>opcode. (opcode, [])) [OP_PUBKEY, OP_CHECKSIG])"
  "reads (script_of [OP_DUP, OP_HASH160, OP_PUBKEYHASH, OP_EQUALVERIFY, OP_CHECKSIG]) 0
    (map (\<lambda>opcode. (opcode, [])) [OP_DUP, OP_HASH160, OP_PUBKEYHASH, OP_EQUALVERIFY, OP_CHECKSIG])"
  "reads (script_of [OP_SMALLINTEGER, OP_PUBKEYS, OP_SMALLINTEGER, OP_CHECKMULTISIG]) 0
    (map (\<lambda>opcode. (opcode, [])) [OP_SMALLINTEGER, OP_PUBKEYS, OP_SMALLINTEGER, OP_CHECKMULTISIG])"
  "reads (script_of [OP_DUP, OP_HASH160, OP_ROT, OP_IF, OP_CHECKCOLDSTAKEVERIFY, OP_PUBKEYHASH,
      OP_ELSE, OP_PUBKEYHASH, OP_ENDIF, OP_EQUALVERIFY, OP_CHECKSIG]) 0
    (map (\<lambda>opcode. (opcode, [])) [OP_DUP, OP_HASH160, OP_ROT, OP_IF, OP_CHECKCOLDSTAKEVERIFY, OP_PUBKEYHASH,
      OP_ELSE, OP_PUBKEYHASH, OP_ENDIF, OP_EQUALVERIFY, OP_CHECKSIG])"
  by (rule reads_script_of; simp)+

lemma match_multisig_first:
  assumes "reads s 0 ((o1, v1) # items)" "o1 \<noteq> OP_0" "o1 < OP_1 \<or> OP_16 < o1"
  shows "match_loop s (script_of [OP_SMALLINTEGER, OP_PUBKEYS, OP_SMALLINTEGER, OP_CHECKMULTISIG]) 0 0 [] = None"
  using assms template_reads(3) by (auto simp: match_loop_step match_op_def)

lemma scan_items:
  assumes "reads script 0 items" "items = (o1, v1) # items'" "o1 \<noteq> OP_0" "o1 < OP_1 \<or> OP_16 < o1"
  shows "scan_templates script mTemplates =
    (case match_items items [OP_PUBKEY, OP_CHECKSIG] [] of
       Some sols \<Rightarrow> (True, TX_PUBKEY, sols)
     | None \<Rightarrow>
         (case match_items items [OP_DUP, OP_HASH160, OP_PUBKEYHASH, OP_EQUALVERIFY, OP_CHECKSIG] [] of
            Some sols \<Rightarrow> (True, TX_PUBKEYHASH, sols)
          | None \<Rightarrow>
              (case match_items items [OP_DUP, OP_HASH160, OP_ROT, OP_IF, OP_CHECKCOLDSTAKEVERIFY, OP_PUBKEYHASH,
                  OP_ELSE, OP_PUBKEYHASH, OP_ENDIF, OP_EQUALVERIFY, OP_CHECKSIG] [] of
                 Some sols \<Rightarrow> (True, TX_COLDSTAKE, sols) | None \<Rightarrow> (False, TX_NONSTANDARD, []))))"
  using match_loop_items [OF assms(1) template_reads(1)] match_loop_items [OF assms(1) template_reads(2)]
    match_loop_items [OF assms(1) template_reads(4)] match_multisig_first [of script o1 v1 items'] assms
  by (simp add: mTemplates_def split: option.split)

lemma Solver_p2pkh: "Solver (GetScriptForDestination (CKeyID h)) = Some (True, TX_PUBKEYHASH, [ToByteVector h])"
proof -
  let ?bs = "[[0x76], [0xa9], push_data [] (ToByteVector h), [0x88], [0xac]]"
  let ?items = "[(OP_DUP, []), (OP_HASH160, []), (20, ToByteVector h), (OP_EQUALVERIFY, []), (OP_CHECKSIG, [])]"
  have enc: "list_all2 encodes ?bs ?items"
    using encodes_opcode [of OP_DUP] encodes_opcode [of OP_HASH160] encodes_opcode [of OP_EQUALVERIFY]
      encodes_opcode [of OP_CHECKSIG] encodes_push [of "ToByteVector h"]
    by (simp add: push_code_def)
  have script: "GetScriptForDestination (CKeyID h) = concat ?bs"
    by (simp add: p2pkh_bytes push_data_def)
  have r: "reads (GetScriptForDestination (CKeyID h)) 0 ?items"
    using reads_concat [OF enc, of "[]"] unfolding script by (simp add: push_data_def)
  have "scan_templates (GetScriptForDestination (CKeyID h)) mTemplates = (True, TX_PUBKEYHASH, [ToByteVector h])"
    by (simp add: scan_items [OF r refl] match_op_def)
  then show ?thesis
    by (simp add: Solver_def p2pkh_bytes IsPayToScriptHash_def IsZerocoinMint_def StartsWithOpcode_def)
qed

lemma Solver_p2sh: "Solver (GetScriptForDestination (CScriptID h)) = Some (True, TX_SCRIPTHASH, [ToByteVector h])"
  using p2sh_reads(2) [OF refl, of h] by (simp add: Solver_def) (simp add: p2sh_bytes)

lemma coldstake_bytes:
  "GetScriptForStakeDelegation a b =
     concat [[0x76], [0xa9], [0x7b], [0x63], [0xd1], push_data [] (ToByteVector a), [0x67],
       push_data [] (ToByteVector b), [0x68], [0x88], [0xac]]"
  by (simp add: GetScriptForStakeDelegation_def push_data_def script_of_def)

lemma Solver_coldstake:
  "Solver (GetScriptForStakeDelegation a b) = Some (True, TX_COLDSTAKE, [ToByteVector a, ToByteVector b])
   \<and> IsPayToColdStaking (GetScriptForStakeDelegation a b)"
proof -
  let ?items = "[(OP_DUP, []), (OP_HASH160, []), (OP_ROT, []), (OP_IF, []), (OP_CHECKCOLDSTAKEVERIFY, []),
    (20, ToByteVector a), (OP_ELSE, []), (20, ToByteVector b), (OP_ENDIF, []), (OP_EQUALVERIFY, []), (OP_CHECKSIG, [])]"
  have "list_all2 encodes [[0x76], [0xa9], [0x7b], [0x63], [0xd1], push_data [] (ToByteVector a), [0x67],
       push_data [] (ToByteVector b), [0x68], [0x88], [0xac]] ?items"
    using encodes_opcode [of OP_DUP] encodes_opcode [of OP_HASH160] encodes_opcode [of OP_EQUALVERIFY]
      encodes_opcode [of OP_CHECKSIG] encodes_push [of "ToByteVector a"] encodes_push [of "ToByteVector b"]
      encodes_opcode [of OP_ROT] encodes_opcode [of OP_IF] encodes_opcode [of OP_CHECKCOLDSTAKEVERIFY]
      encodes_opcode [of OP_ELSE] encodes_opcode [of OP_ENDIF]
    by (simp add: push_code_def)
  from reads_concat [OF this, of "[]"] have r: "reads (GetScriptForStakeDelegation a b) 0 ?items"
    unfolding coldstake_bytes by (simp add: push_data_def)
  have "scan_templates (GetScriptForStakeDelegation a b) mTemplates =
      (True, TX_COLDSTAKE, [ToByteVector a, ToByteVector b])"
    by (simp add: scan_items [OF r refl] match_op_def)
  then show ?thesis
    by (simp add: Solver_def coldstake_bytes IsPayToScriptHash_def IsZerocoinMint_def StartsWithOpcode_def
        push_data_def IsPayToColdStaking_def nth_append nth_Cons')
qed

text \<open>Several keys.\<close>

lemma pubkeys_loop_reads:
  assumes "reads s pc (map (\<lambda>k. (push_code k, k)) keys @ (oc, v) # items)"
    "\<forall>k \<in> set (k0 # keys). 33 \<le> length k \<and> length k \<le> 65" "\<not> (33 \<le> length v \<and> length v \<le> 65)"
  shows "\<exists>pc'. pubkeys_loop s pc oc0 k0 sols = (pc', oc, v, sols @ k0 # keys) \<and> reads s pc' items"
  using assms
proof (induction keys arbitrary: pc oc0 k0 sols)
  case Nil
  then obtain pc' where "GetOp2 s pc = (True, pc', oc, v)" "reads s pc' items" by auto
  moreover from Nil have "pubkeys_loop s pc' oc v (sols @ [k0]) = (pc', oc, v, sols @ [k0])"
    by (subst pubkeys_loop.simps) auto
  ultimately show ?case using Nil by (subst pubkeys_loop.simps) simp
next
  case (Cons k keys)
  then obtain pc' where g: "GetOp2 s pc = (True, pc', push_code k, k)"
    and "reads s pc' (map (\<lambda>k. (push_code k, k)) keys @ (oc, v) # items)" by auto
  with Cons.IH [of pc' k "push_code k" "sols @ [k0]"] Cons.prems obtain pc'' where
    "pubkeys_loop s pc' (push_code k) k (sols @ [k0]) = (pc'', oc, v, sols @ k0 # k # keys)" "reads s pc'' items"
    by auto
  then show ?case using Cons.prems g by (subst pubkeys_loop.simps) simp
qed

lemma foldl_push_data: "foldl push_data pre keys = pre @ concat (map (push_data []) keys)"
proof (induction keys arbitrary: pre)
  case (Cons k keys)
  then show ?case using push_data_append [of pre k] by simp
qed simp

lemma GetScriptForMultisig_bytes:
  assumes "1 \<le> m" "m \<le> 16" "keys \<noteq> []" "length keys \<le> 16"
  shows "GetScriptForMultisig (int m) keys =
    Some (concat ([[word_of_nat (80 + m)]] @ map (push_data []) keys
      @ [[word_of_nat (80 + length keys)], [word_of_nat OP_CHECKMULTISIG]]))"
  using assms by (simp add: GetScriptForMultisig_def EncodeOP_N_def foldl_push_data script_of_def nat_add_distrib nat_diff_distrib)

lemma multisig_script_reads:
  assumes "1 \<le> m" "m \<le> 16" "keys \<noteq> []" "length keys \<le> 16" "\<forall>k \<in> set keys. 33 \<le> length k \<and> length k \<le> 65"
    "GetScriptForMultisig (int m) keys = Some script"
  shows "reads script 0 ((80 + m, []) # map (\<lambda>k. (push_code k, k)) keys @ [(80 + length keys, []), (OP_CHECKMULTISIG, [])])"
proof -
  let ?bs = "[[word_of_nat (80 + m)]] @ map (push_data []) keys
      @ [[word_of_nat (80 + length keys)], [word_of_nat OP_CHECKMULTISIG]]"
  let ?items = "[(80 + m, [])] @ map (\<lambda>k. (push_code k, k)) keys @ [(80 + length keys, []), (OP_CHECKMULTISIG, [])]"
  have "list_all2 encodes (map (push_data []) keys) (map (\<lambda>k. (push_code k, k)) keys)"
    using assms(5) by (auto simp: list_all2_map1 list_all2_map2 list_all2_same intro!: encodes_push)
  then have enc: "list_all2 encodes ?bs ?items"
    using assms(1-4) by (intro list_all2_appendI) (simp_all add: encodes_opcode del: of_nat_add of_nat_numeral)
  have "length (concat (map (push_data []) keys)) \<le> 70 * length keys"
    using assms(5)
  proof (induction keys)
    case (Cons k keys)
    then show ?case using length_push_data_le [of "[]" k] by simp
  qed simp
  then have "length (concat ?bs) < 2 ^ 32" using assms(4) by simp
  then show ?thesis
    using reads_concat [OF enc, of "[]"] GetScriptForMultisig_bytes [OF assms(1-4)] assms(6) by simp
qed

lemma small_integer_solution:
  "1 \<le> n \<Longrightarrow> n \<le> 16 \<Longrightarrow> match_op (80 + n) [] OP_SMALLINTEGER [] sols = Some (sols @ [[word_of_nat n]])"
  by (simp add: match_op_def DecodeOP_N_def)

lemma match_loop_multisig:
  assumes "reads s 0 ((80 + m, []) # map (\<lambda>k. (push_code k, k)) (k0 # keys) @ [(80 + n, []), (OP_CHECKMULTISIG, [])])"
    "1 \<le> m" "m \<le> 16" "1 \<le> n" "n \<le> 16" "\<forall>k \<in> set (k0 # keys). 33 \<le> length k \<and> length k \<le> 65"
  shows "match_loop s (script_of [OP_SMALLINTEGER, OP_PUBKEYS, OP_SMALLINTEGER, OP_CHECKMULTISIG]) 0 0 [] =
    Some ([word_of_nat m] # k0 # keys @ [[word_of_nat n]])"
proof -
  let ?t = "script_of [OP_SMALLINTEGER, OP_PUBKEYS, OP_SMALLINTEGER, OP_CHECKMULTISIG]"
  obtain t1 t2 t3 where t: "GetOp2 ?t 0 = (True, t1, OP_SMALLINTEGER, [])" "GetOp2 ?t t1 = (True, t2, OP_PUBKEYS, [])"
      "GetOp2 ?t t2 = (True, t3, OP_SMALLINTEGER, [])" "GetOp2 ?t t3 = (True, length ?t, OP_CHECKMULTISIG, [])"
    using template_reads(3) by auto
  obtain p1 p2 where p: "GetOp2 s 0 = (True, p1, 80 + m, [])" "GetOp2 s p1 = (True, p2, push_code k0, k0)"
      "reads s p2 (map (\<lambda>k. (push_code k, k)) keys @ [(80 + n, []), (OP_CHECKMULTISIG, [])])"
    using assms(1) by auto
  obtain p3 where l: "pubkeys_loop s p2 (push_code k0) k0 [[word_of_nat m]] = (p3, 80 + n, [], [word_of_nat m] # k0 # keys)"
      "GetOp2 s p3 = (True, length s, OP_CHECKMULTISIG, [])"
    using pubkeys_loop_reads [OF p(3) assms(6), of "push_code k0" "[[word_of_nat m]]"] by auto
  have "match_loop s ?t 0 0 [] = match_loop s ?t p1 t1 [[word_of_nat m]]"
    using match_loop_step [OF p(1) t(1)] small_integer_solution [OF assms(2,3), of "[]"] by simp
  also have "\<dots> = match_loop s ?t p3 t3 ([word_of_nat m] # k0 # keys @ [[word_of_nat n]])"
  proof -
    have "p1 \<noteq> length s" using GetOp2_pc_less [OF p(2)] by simp
    then show ?thesis
      using p(2) t(2,3) l(1) small_integer_solution [OF assms(4,5), of "[word_of_nat m] # k0 # keys"]
      by (subst match_loop.simps) simp
  qed
  also have "\<dots> = match_loop s ?t (length s) (length ?t) ([word_of_nat m] # k0 # keys @ [[word_of_nat n]])"
    using match_loop_step [OF l(2) t(4)] by (simp add: match_op_def)
  also have "\<dots> = Some ([word_of_nat m] # k0 # keys @ [[word_of_nat n]])"
    by (subst match_loop.simps) simp
  finally show ?thesis .
qed

lemma Solver_multisig:
  assumes "1 \<le> m" "m \<le> length keys" "length keys \<le> 16" "\<forall>k \<in> set keys. 33 \<le> length k \<and> length k \<le> 65"
    "GetScriptForMultisig (int m) keys = Some script"
  shows "Solver script = Some (True, TX_MULTISIG, [word_of_nat m] # keys @ [[word_of_nat (length keys)]])"
proof -
  have m: "m \<le> 16" and ne: "keys \<noteq> []" using assms(1-3) by auto
  obtain k0 ks where k: "keys = k0 # ks" using ne by (cases keys) auto
  note r = multisig_script_reads [OF assms(1) m ne assms(3-5)]
  have u: "unat (word_of_nat m :: byte) = m" "unat (word_of_nat (length keys) :: byte) = length keys"
      "unat (word_of_nat (80 + m) :: byte) = 80 + m"
    using assms(2,3) m by (simp_all add: unat_of_nat del: of_nat_add of_nat_numeral)
  obtain rest where script: "script = word_of_nat (80 + m) # rest"
    using GetScriptForMultisig_bytes [OF assms(1) m ne assms(3)] assms(5) by simp
  have match: "match_loop script (script_of [OP_SMALLINTEGER, OP_PUBKEYS, OP_SMALLINTEGER, OP_CHECKMULTISIG]) 0 0 [] =
      Some ([word_of_nat m] # keys @ [[word_of_nat (length keys)]])"
    using match_loop_multisig [of script m k0 ks "length keys"] r assms m unfolding k by simp
  have checks: "multisig_checks ([word_of_nat m] # keys @ [[word_of_nat (length keys)]])"
    using assms(1,2) ne by (simp add: multisig_checks_def Let_def word_less_nat_alt u Suc_le_eq)
  have none: "match_loop script (script_of [OP_PUBKEY, OP_CHECKSIG]) 0 0 [] = None"
      "match_loop script (script_of [OP_DUP, OP_HASH160, OP_PUBKEYHASH, OP_EQUALVERIFY, OP_CHECKSIG]) 0 0 [] = None"
    using match_loop_items [OF r template_reads(1)] match_loop_items [OF r template_reads(2)] m
    by (simp_all add: match_op_def)
  have "scan_templates script mTemplates = (True, TX_MULTISIG, [word_of_nat m] # keys @ [[word_of_nat (length keys)]])"
    by (simp add: mTemplates_def none match checks)
  moreover have "unat (script ! 0) = 80 + m" using u(3) by (simp only: script nth_Cons_0)
  ultimately show ?thesis
    using m by (simp add: Solver_def IsPayToScriptHash_def IsZerocoinMint_def StartsWithOpcode_def)
qed

section \<open>Properties\<close>

text \<open>
  C12: What spends a pay-to-public-key-hash output.  The output script is the one that
  \<open>GetScriptForDestination\<close> builds for a key id, the input pushes a signature and a key (of 2
  to 520 bytes each; a signature of exactly 20 bytes is set aside, because its push could be
  deleted from the signed script).  Under all flags, \<open>VerifyScript\<close> accepts exactly when the
  key hashes to the key id, both encodings pass the checks that the flags ask for, and the
  signature is valid for the unchanged output script.
\<close>

theorem VerifyScript_p2pkh:
  assumes "2 \<le> length sig" "length sig \<le> MAX_SCRIPT_ELEMENT_SIZE" "length sig \<noteq> 20"
    "2 \<le> length pubkey" "length pubkey \<le> MAX_SCRIPT_ELEMENT_SIZE"
  shows "VerifyScript c (push_data (push_data [] sig) pubkey) (GetScriptForDestination (CKeyID keyID)) flags checker = Inr ()
    \<longleftrightarrow> Hash160 c pubkey = keyID
      \<and> CheckSignatureEncoding (env_of c (GetScriptForDestination (CKeyID keyID)) flags checker) sig = Inr ()
      \<and> CheckPubKeyEncoding (env_of c (GetScriptForDestination (CKeyID keyID)) flags checker) pubkey = Inr ()
      \<and> CheckSig checker sig pubkey (GetScriptForDestination (CKeyID keyID))"
proof -
  have "\<not> IsPayToScriptHash (GetScriptForDestination (CKeyID keyID))"
    by (simp add: p2pkh_bytes IsPayToScriptHash_def)
  moreover have "length sig < 2 ^ 32" using assms(2) by (simp add: MAX_SCRIPT_ELEMENT_SIZE_def)
  ultimately show ?thesis
    using two_pushes [OF assms(1,2,4,5), of c flags checker] p2pkh_eval [OF assms(3), of c pubkey keyID flags checker]
    by (cases "EvalScript c [sig, pubkey] (GetScriptForDestination (CKeyID keyID)) flags checker")
       (simp_all add: VerifyScript_def Let_def)
qed

theorem VerifyScript_p2pkh_witness:
  "VerifyScript witness_crypto (push_data (push_data [] [7, 8, 1]) [2, 9]) (GetScriptForDestination (CKeyID 2)) 0 witness_checker = Inr ()"
  using VerifyScript_p2pkh [of "[7, 8, 1]" "[2, 9]" witness_crypto 2 0 witness_checker]
  by (simp add: MAX_SCRIPT_ELEMENT_SIZE_def witness_crypto_def witness_checker_def Hash160_def
      CheckSignatureEncoding_def CheckPubKeyEncoding_def flag_set_def)

text \<open>
  C25: What spends a pay-to-script-hash output.  The output script is the one that
  \<open>GetScriptForDestination\<close> builds for a script id, the flag \<open>SCRIPT_VERIFY_P2SH\<close> is set, and
  the input is a push-only script that leaves at most 999 elements, the last one being the
  redeem script.  \<open>VerifyScript\<close> accepts exactly when the redeem script hashes to the script
  id and its evaluation on the remaining elements ends with a true value on top.
\<close>

theorem VerifyScript_p2sh:
  assumes "flags AND SCRIPT_VERIFY_P2SH \<noteq> 0" "IsPushOnly scriptSig"
    "EvalScript c [] scriptSig flags checker = Inr (stack @ [redeem])" "length stack \<le> 998"
  shows "VerifyScript c scriptSig (GetScriptForDestination (CScriptID scriptID)) flags checker = Inr ()
    \<longleftrightarrow> Hash160 c redeem = scriptID
      \<and> (\<exists>s v. EvalScript c stack redeem flags checker = Inr (s @ [v]) \<and> CastToBool v)"
proof -
  let ?spk = "GetScriptForDestination (CScriptID scriptID)"
  note r = p2sh_reads [OF refl, of scriptID]
  have "EvalScript c (stack @ [redeem]) ?spk flags checker =
      Inr (stack @ [if Hash160 c redeem = scriptID then vchTrue else vchFalse])"
    using p2sh_loop [of "env_of c ?spk flags checker" scriptID stack redeem] assms(4) r(1)
    by (simp add: EvalScript_def Let_def eval_init_at MAX_SCRIPT_SIZE_def)
  moreover have "bind (EvalScript c stack redeem flags checker) ends_true = Inr () \<longleftrightarrow>
      (\<exists>s v. EvalScript c stack redeem flags checker = Inr (s @ [v]) \<and> CastToBool v)"
  proof (cases "EvalScript c stack redeem flags checker")
    case (Inr t)
    then show ?thesis by (cases t rule: rev_cases) (auto simp: ends_true_def)
  qed simp
  ultimately show ?thesis
    using assms r(2) by (simp add: VerifyScript_def Let_def ends_true_def)
qed

theorem VerifyScript_p2sh_witness:
  "\<not> VerifyScript witness_crypto (push_data (push_data [] [7, 8]) [0x51, 0x93]) (GetScriptForDestination (CScriptID 5))
     SCRIPT_VERIFY_P2SH witness_checker = Inr ()"
proof -
  have pushes: "EvalScript witness_crypto [] (push_data (push_data [] [7, 8]) [0x51, 0x93]) SCRIPT_VERIFY_P2SH witness_checker
      = Inr ([[7, 8]] @ [[0x51, 0x93]])" "IsPushOnly (push_data (push_data [] [7, 8]) [0x51, 0x93])"
    using two_pushes [of "[7, 8]" "[0x51, 0x93]" witness_crypto SCRIPT_VERIFY_P2SH witness_checker]
    by (simp_all add: MAX_SCRIPT_ELEMENT_SIZE_def)
  show ?thesis
    using VerifyScript_p2sh [OF _ pushes(2,1), of 5]
    by (simp add: SCRIPT_VERIFY_P2SH_def witness_crypto_def Hash160_def)
qed

text \<open>
  C28: Several signatures.  Let the stack hold a dummy element, the signatures, their number,
  the keys and their number, with at most 20 keys, no more signatures than keys, and room
  for the keys in the operation count; let the dummy be empty if \<open>SCRIPT_VERIFY_NULLDUMMY\<close>
  asks for it, and all encodings pass the checks of the flags.  Then \<open>OP_CHECKMULTISIG\<close>
  replaces all of them by true exactly when the signatures can be assigned to keys in the
  order of both lists: every signature is valid for its key, for the script from the last
  code separator on without the pushes of the signatures.
\<close>

theorem checkmultisig_matches_in_order:
  assumes "eval_stack st = rest @ [dummy] @ sigs @ [getvch (word_of_nat (length sigs))]
      @ keys @ [getvch (word_of_nat (length keys))]"
    "length sigs \<le> length keys" "length keys \<le> 20" "eval_nOpCount st + length keys \<le> 201"
    "flag_set env SCRIPT_VERIFY_NULLDUMMY \<Longrightarrow> dummy = []"
    "\<And>sig. sig \<in> set sigs \<Longrightarrow> CheckSignatureEncoding env sig = Inr ()"
    "\<And>key. key \<in> set keys \<Longrightarrow> CheckPubKeyEncoding env key = Inr ()"
  shows "op_checkmultisig env OP_CHECKMULTISIG st =
    Inr (st\<lparr>eval_nOpCount := eval_nOpCount st + length keys,
      eval_stack := rest @
        [if list_emb (\<lambda>sig key. CheckSig (env_checker env) sig key
              (without_sigs (drop (eval_pbegincodehash st) (env_script env)) (rev sigs))) sigs keys
         then vchTrue else vchFalse]\<rparr>)"
  using op_checkmultisig_eval [OF assms(1-5)] check_lists_match [of "rev sigs" env "rev keys"] assms(6,7)
  by (simp add: list_emb_rev_iff)

theorem checkmultisig_matches_in_order_witness:
  "op_checkmultisig witness_env OP_CHECKMULTISIG (eval_init [[], [7], getvch 1, [2], [3], getvch 2]) =
   Inr ((eval_init [vchTrue])\<lparr>eval_nOpCount := 2\<rparr>)"
  using checkmultisig_matches_in_order [of "eval_init [[], [7], getvch 1, [2], [3], getvch 2]" "[]" "[]" "[[7]]" "[[2], [3]]" witness_env]
  by (simp add: eval_init_def witness_env_def witness_checker_def CheckSignatureEncoding_def CheckPubKeyEncoding_def
      flag_set_def list_emb_code)

text \<open>
  Unspendable outputs fail.  As the comment on \<open>IsUnspendable\<close> says, a script that it
  accepts is guaranteed to fail at execution, regardless of the initial stack; so no input
  spends such an output.
\<close>

theorem IsUnspendable_fails:
  assumes "IsUnspendable script"
  shows "(\<exists>e. EvalScript c stack script flags checker = Inl (Return_error e))
    \<and> VerifyScript c scriptSig script flags checker \<noteq> Inr ()"
proof -
  have fails: "\<exists>e. EvalScript c s script flags checker = Inl (Return_error e)" for s
  proof (cases "length script > MAX_SCRIPT_SIZE")
    case True
    then show ?thesis by (simp add: EvalScript_def)
  next
    case False
    then have "0 < length script" "unat (script ! 0) = OP_RETURN"
      using assms by (simp_all add: IsUnspendable_def)
    then have "GetOp2 (env_script (env_of c script flags checker)) 0 = (True, 1, OP_RETURN, [])"
      by (simp add: GetOp2_def)
    then have "eval_loop (env_of c script flags checker) (at 0 0 s) = set_error SCRIPT_ERR_OP_RETURN"
      by (simp add: eval_loop_op disabled_opcode_def exec_opcode_def)
    then show ?thesis using False by (simp add: EvalScript_def Let_def eval_init_at)
  qed
  moreover have "VerifyScript c scriptSig script flags checker \<noteq> Inr ()"
  proof (cases "EvalScript c [] scriptSig flags checker")
    case (Inr s)
    then show ?thesis using fails [of s] by (auto simp: VerifyScript_def Let_def)
  qed (simp add: VerifyScript_def)
  ultimately show ?thesis by blast
qed

theorem IsUnspendable_fails_witness:
  "IsUnspendable [0x6a, 0x51] \<and>
   VerifyScript witness_crypto [0x51] [0x6a, 0x51] 0 witness_checker \<noteq> Inr ()"
proof -
  have u: "IsUnspendable [0x6a, 0x51]" by (simp add: IsUnspendable_def)
  then show ?thesis using IsUnspendable_fails [OF u, of witness_crypto "[]" 0 witness_checker "[0x51]"] by simp
qed

lemma uint160_ToByteVector [simp]: "uint160 (ToByteVector h) = h"
proof -
  have "word_of_nat (le_nat (WRITEDATA 20 h)) = h" by (rule le_nat_WRITEDATA) simp
  then show ?thesis by (simp add: uint160_def ToByteVector_def)
qed

text \<open>
  \<open>Solver\<close> recovers what the builders wrote.  The destination of a script built for a key
  id or a script id is that destination; a script built for a stake delegation is
  recognised as such, with the staking key as its cold-staking destination and the
  spending key otherwise; a script built for \<open>m\<close> of at most 16 keys (of 33 to 65 bytes,
  \<open>1 \<le> m \<le> n\<close>) is recognised with \<open>m\<close>, the keys in their order, and their number.
\<close>

theorem Solver_recovers:
  assumes "1 \<le> m" "m \<le> length keys" "length keys \<le> 16" "\<forall>k \<in> set keys. 33 \<le> length k \<and> length k \<le> 65"
    "GetScriptForMultisig (int m) keys = Some script"
  shows "ExtractDestination c (GetScriptForDestination (CKeyID keyID)) f = Some (Some (CKeyID keyID))
    \<and> ExtractDestination c (GetScriptForDestination (CScriptID scriptID)) f = Some (Some (CScriptID scriptID))
    \<and> IsPayToColdStaking (GetScriptForStakeDelegation staking spending)
    \<and> ExtractDestination c (GetScriptForStakeDelegation staking spending) True = Some (Some (CKeyID staking))
    \<and> ExtractDestination c (GetScriptForStakeDelegation staking spending) False = Some (Some (CKeyID spending))
    \<and> Solver script = Some (True, TX_MULTISIG, [word_of_nat m] # keys @ [[word_of_nat (length keys)]])"
  using Solver_multisig [OF assms] Solver_coldstake [of staking spending]
  by (simp add: ExtractDestination_def Solver_p2pkh Solver_p2sh)

theorem Solver_recovers_witness:
  "\<exists>script. GetScriptForMultisig 1 [replicate 33 2, replicate 33 3] = Some script \<and>
     Solver script = Some (True, TX_MULTISIG, [[1], replicate 33 2, replicate 33 3, [2]])"
proof -
  obtain script where s: "GetScriptForMultisig (int 1) [replicate 33 2, replicate 33 3] = Some script"
    by (simp add: GetScriptForMultisig_def EncodeOP_N_def)
  show ?thesis
    using s Solver_recovers [of 1 "[replicate 33 2, replicate 33 3]" script] by auto
qed

text \<open>A script that consists of \<open>OP_ZEROCOINMINT\<close> alone is outside the domain of \<open>Solver\<close>.\<close>

theorem Solver_lone_zerocoinmint: "Solver [0xc1] = None"
  by (simp add: Solver_def IsPayToScriptHash_def IsZerocoinMint_def StartsWithOpcode_def)

end
