(* ===== verification/Transaction.thy ===== *)
theory Transaction
  imports Standard
begin

unbundle bit_operations_syntax

text \<open>
  Transactions: the data types of \<^verbatim>\<open>src/src/primitives/transaction.h\<close> with their serialization,
  the operations of \<^verbatim>\<open>src/src/primitives/transaction.cpp\<close>, the context-free checks of
  \<^verbatim>\<open>src/src/consensus/tx_verify.cpp\<close>, and the part of \<^verbatim>\<open>src/src/script/interpreter.cpp\<close> that
  connects them with the interpreter: the signature hash and \<open>TransactionSignatureChecker\<close>.

  \<^item> The memory-only members \<open>hash\<close> (a cache of \<open>SerializeHash\<close>), \<open>prevPubKey\<close> and \<open>nRounds\<close>, which
    no serialization contains, are left out.
  \<^item> \<open>CAmount\<close> is a 64-bit word that is compared by its signed value; sums wrap around.
  \<^item> Indices and counts of inputs and outputs, which are \<open>unsigned int\<close>, are natural numbers: no
    vector of a transaction has \<open>2^32\<close> elements.
  \<^item> \<open>pubkey.Verify\<close>, which calls libsecp256k1, is a parameter of the checker.

  The lemmas show that a transaction is read back as written; that the serializer for
  signature hashes, which works in place, writes what the original copy-and-modify
  algorithm (kept in \<^verbatim>\<open>src/src/test/sighash_tests.cpp\<close>) serializes; and what a transaction that
  \<open>CheckTransaction\<close> accepts satisfies.
\<close>

section \<open>Data\<close>

type_synonym CAmount = int64

definition COIN :: CAmount where
  "COIN = 100000000"

record COutPoint =
  out_hash :: "256 word"
  out_n :: u32

record CTxIn =
  prevout :: COutPoint
  scriptSig :: bytes
  nSequence :: u32

record CTxOut =
  nValue :: CAmount
  scriptPubKey :: bytes

record CTransaction =
  tx_nVersion :: u32
  vin :: "CTxIn list"
  vout :: "CTxOut list"
  nLockTime :: u32

definition COutPoint_IsNull :: "COutPoint \<Rightarrow> bool" where
  "COutPoint_IsNull o' \<longleftrightarrow> out_hash o' = 0 \<and> out_n o' = - 1"

definition IsFinal :: "CTxIn \<Rightarrow> bool" where
  "IsFinal txin \<longleftrightarrow> nSequence txin = 0xffffffff"

definition CTxIn_IsZerocoinSpend :: "CTxIn \<Rightarrow> bool" where
  "CTxIn_IsZerocoinSpend txin \<longleftrightarrow> out_hash (prevout txin) = 0 \<and> IsZerocoinSpend (scriptSig txin)"

definition CTxOut_SetNull :: CTxOut where
  "CTxOut_SetNull = \<lparr>nValue = - 1, scriptPubKey = []\<rparr>"

definition CTxOut_IsEmpty :: "CTxOut \<Rightarrow> bool" where
  "CTxOut_IsEmpty txout \<longleftrightarrow> nValue txout = 0 \<and> scriptPubKey txout = []"

definition CTxOut_IsZerocoinMint :: "CTxOut \<Rightarrow> bool" where
  "CTxOut_IsZerocoinMint txout = IsZerocoinMint (scriptPubKey txout)"

definition CTxOut_GetZerocoinMinted :: "CTxOut \<Rightarrow> CAmount" where
  "CTxOut_GetZerocoinMinted txout = (if \<not> CTxOut_IsZerocoinMint txout then 0 else nValue txout)"

section \<open>Serialization\<close>

definition Serialize_COutPoint :: "COutPoint \<Rightarrow> bytes" where
  "Serialize_COutPoint o' = WRITEDATA 32 (out_hash o') @ WRITEDATA 4 (out_n o')"

definition Unserialize_COutPoint :: "COutPoint reader" where
  "Unserialize_COutPoint s =
     (case READDATA 32 s of Inl e \<Rightarrow> Inl e | Inr (h, s) \<Rightarrow>
        case READDATA 4 s of Inl e \<Rightarrow> Inl e | Inr (n, s) \<Rightarrow> Inr (\<lparr>out_hash = h, out_n = n\<rparr>, s))"

definition GetSerializeSize_COutPoint :: "COutPoint \<Rightarrow> u32" where
  "GetSerializeSize_COutPoint o' = 36"

definition Serialize_CTxIn :: "CTxIn \<Rightarrow> bytes" where
  "Serialize_CTxIn txin =
     Serialize_COutPoint (prevout txin) @ Serialize_bytes (scriptSig txin) @ WRITEDATA 4 (nSequence txin)"

definition Unserialize_CTxIn :: "CTxIn reader" where
  "Unserialize_CTxIn s =
     (case Unserialize_COutPoint s of Inl e \<Rightarrow> Inl e | Inr (p, s) \<Rightarrow>
        case Unserialize_bytes s of Inl e \<Rightarrow> Inl e | Inr (sig, s) \<Rightarrow>
          case READDATA 4 s of Inl e \<Rightarrow> Inl e | Inr (n, s) \<Rightarrow>
            Inr (\<lparr>prevout = p, scriptSig = sig, nSequence = n\<rparr>, s))"

definition GetSerializeSize_CTxIn :: "CTxIn \<Rightarrow> u32" where
  "GetSerializeSize_CTxIn txin =
     GetSerializeSize_COutPoint (prevout txin) + GetSerializeSize_bytes (scriptSig txin) + 4"

definition Serialize_CTxOut :: "CTxOut \<Rightarrow> bytes" where
  "Serialize_CTxOut txout = WRITEDATA 8 (nValue txout) @ Serialize_bytes (scriptPubKey txout)"

definition Unserialize_CTxOut :: "CTxOut reader" where
  "Unserialize_CTxOut s =
     (case READDATA 8 s of Inl e \<Rightarrow> Inl e | Inr (v, s) \<Rightarrow>
        case Unserialize_bytes s of Inl e \<Rightarrow> Inl e | Inr (pk, s) \<Rightarrow>
          Inr (\<lparr>nValue = v, scriptPubKey = pk\<rparr>, s))"

definition GetSerializeSize_CTxOut :: "CTxOut \<Rightarrow> u32" where
  "GetSerializeSize_CTxOut txout = 8 + GetSerializeSize_bytes (scriptPubKey txout)"

definition Serialize_CTransaction :: "CTransaction \<Rightarrow> bytes" where
  "Serialize_CTransaction tx =
     WRITEDATA 4 (tx_nVersion tx) @ Serialize_vector Serialize_CTxIn (vin tx)
     @ Serialize_vector Serialize_CTxOut (vout tx) @ WRITEDATA 4 (nLockTime tx)"

text \<open>\<open>sizeof(CTxIn)\<close> is 96 and \<open>sizeof(CTxOut)\<close> is 40 on amd64.\<close>

definition Unserialize_CTransaction :: "bytes \<Rightarrow> CTransaction read_result option" where
  "Unserialize_CTransaction s =
     (case READDATA 4 s of Inl e \<Rightarrow> Some (Inl e) | Inr (version, s) \<Rightarrow>
        case Unserialize_vector Unserialize_CTxIn 96 s of
          None \<Rightarrow> None | Some (Inl e) \<Rightarrow> Some (Inl e) | Some (Inr (ins, s)) \<Rightarrow>
            case Unserialize_vector Unserialize_CTxOut 40 s of
              None \<Rightarrow> None | Some (Inl e) \<Rightarrow> Some (Inl e) | Some (Inr (outs, s)) \<Rightarrow>
                case READDATA 4 s of Inl e \<Rightarrow> Some (Inl e) | Inr (locktime, s) \<Rightarrow>
                  Some (Inr (\<lparr>tx_nVersion = version, vin = ins, vout = outs, nLockTime = locktime\<rparr>, s)))"

definition GetSerializeSize_CTransaction :: "CTransaction \<Rightarrow> u32" where
  "GetSerializeSize_CTransaction tx =
     4 + GetSerializeSize_vector GetSerializeSize_CTxIn (vin tx)
     + GetSerializeSize_vector GetSerializeSize_CTxOut (vout tx) + 4"

definition SerializeHash :: "crypto \<Rightarrow> CTransaction \<Rightarrow> 256 word" where
  "SerializeHash c tx = Hash256 c (Serialize_CTransaction tx)"

section \<open>Operations\<close>

definition HasZerocoinSpendInputs :: "CTransaction \<Rightarrow> bool" where
  "HasZerocoinSpendInputs tx = list_ex CTxIn_IsZerocoinSpend (vin tx)"

definition HasZerocoinMintOutputs :: "CTransaction \<Rightarrow> bool" where
  "HasZerocoinMintOutputs tx = list_ex CTxOut_IsZerocoinMint (vout tx)"

definition HasZerocoinPublicSpendInputs :: "CTransaction \<Rightarrow> bool" where
  "HasZerocoinPublicSpendInputs tx = False"

definition ContainsZerocoins :: "CTransaction \<Rightarrow> bool" where
  "ContainsZerocoins tx \<longleftrightarrow>
     HasZerocoinSpendInputs tx \<or> HasZerocoinPublicSpendInputs tx \<or> HasZerocoinMintOutputs tx"

definition IsCoinBase :: "CTransaction \<Rightarrow> bool" where
  "IsCoinBase tx \<longleftrightarrow>
     length (vin tx) = 1 \<and> COutPoint_IsNull (prevout (vin tx ! 0)) \<and> \<not> ContainsZerocoins tx"

definition IsCoinStake :: "CTransaction \<Rightarrow> bool" where
  "IsCoinStake tx =
     (if vin tx = [] then False
      else let fAllowNull = CTxIn_IsZerocoinSpend (vin tx ! 0)
           in if COutPoint_IsNull (prevout (vin tx ! 0)) \<and> \<not> fAllowNull then False
              else length (vout tx) \<ge> 2 \<and> CTxOut_IsEmpty (vout tx ! 0))"

text \<open>The two loops of \<open>CheckColdStake\<close> as a test over the indices they run through.\<close>

definition tx_CheckColdStake :: "CTransaction \<Rightarrow> bytes \<Rightarrow> bool" where
  "tx_CheckColdStake tx script =
     (if \<not> IsCoinStake tx then False
      else let firstScript = scriptSig (vin tx ! 0)
      in if length (vin tx) > 1 \<and> list_ex (\<lambda>i. scriptSig (vin tx ! i) \<noteq> firstScript) [1..<length (vin tx)] then False
      else if scriptPubKey (vout tx ! 1) \<noteq> script then False
      else if length (vin tx) > 3 \<and> list_ex (\<lambda>i. scriptPubKey (vout tx ! i) \<noteq> script) [2..<length (vout tx) - 1] then False
      else True)"

definition HasP2CSOutputs :: "CTransaction \<Rightarrow> bool" where
  "HasP2CSOutputs tx = list_ex (\<lambda>txout. IsPayToColdStaking (scriptPubKey txout)) (vout tx)"

datatype value_error = Value_negative | Value_wraps

fun GetValueOut_loop :: "CTxOut list \<Rightarrow> CAmount \<Rightarrow> value_error + CAmount" where
  "GetValueOut_loop [] nValueOut = Inr nValueOut"
| "GetValueOut_loop (txout # outs) nValueOut =
     (if sint (nValue txout) < 0 then Inl Value_negative
      else if sint (nValueOut + nValue txout) < sint nValueOut then Inl Value_wraps
      else GetValueOut_loop outs (nValueOut + nValue txout))"

definition GetValueOut :: "CTransaction \<Rightarrow> value_error + CAmount" where
  "GetValueOut tx = GetValueOut_loop (vout tx) 0"

definition GetZerocoinMinted :: "CTransaction \<Rightarrow> CAmount" where
  "GetZerocoinMinted tx = foldl (\<lambda>nValueOut txout. nValueOut + CTxOut_GetZerocoinMinted txout) 0 (vout tx)"

definition UsesUTXO :: "CTransaction \<Rightarrow> COutPoint \<Rightarrow> bool" where
  "UsesUTXO tx out = list_ex (\<lambda>txin. prevout txin = out) (vin tx)"

definition GetOutPoints :: "crypto \<Rightarrow> CTransaction \<Rightarrow> COutPoint list" where
  "GetOutPoints c tx =
     map (\<lambda>i. \<lparr>out_hash = SerializeHash c tx, out_n = word_of_nat i\<rparr>) [0..<length (vout tx)]"

definition GetZerocoinSpent :: "CTransaction \<Rightarrow> CAmount" where
  "GetZerocoinSpent tx =
     foldl (\<lambda>nValueOut txin. if \<not> CTxIn_IsZerocoinSpend txin then nValueOut
       else nValueOut + ucast (nSequence txin) * COIN) 0 (vin tx)"

definition GetZerocoinMintCount :: "CTransaction \<Rightarrow> int" where
  "GetZerocoinMintCount tx = int (length (filter CTxOut_IsZerocoinMint (vout tx)))"

definition CalculateModifiedSize :: "CTransaction \<Rightarrow> u32 \<Rightarrow> u32" where
  "CalculateModifiedSize tx nTxSize =
     (let nTxSize = (if nTxSize = 0 then GetSerializeSize_CTransaction tx else nTxSize)
      in foldl (\<lambda>nTxSize txin.
           let offset = 41 + min 110 (word_of_nat (length (scriptSig txin)))
           in if nTxSize > offset then nTxSize - offset else nTxSize) nTxSize (vin tx))"

definition IsMasternodeReward :: "COutPoint \<Rightarrow> CTransaction \<Rightarrow> bool" where
  "IsMasternodeReward o' tx =
     (if \<not> IsCoinStake tx then False
      else unat (out_n o') = length (vout tx) - 1
        \<and> scriptPubKey (vout tx ! 1) \<noteq> scriptPubKey (vout tx ! unat (out_n o')))"

section \<open>Checks without context\<close>

text \<open>\<open>nHeight\<close> is \<open>chainActive.Height()\<close>, \<open>nAdjustedTime\<close> is \<open>GetAdjustedTime()\<close>.\<close>

definition IsFinalTx :: "int \<Rightarrow> int \<Rightarrow> CTransaction \<Rightarrow> int \<Rightarrow> int \<Rightarrow> bool" where
  "IsFinalTx nHeight nAdjustedTime tx nBlockHeight nBlockTime =
     (if nLockTime tx = 0 then True
      else let nBlockHeight = (if nBlockHeight = 0 then nHeight else nBlockHeight);
               nBlockTime = (if nBlockTime = 0 then nAdjustedTime else nBlockTime)
           in if uint (nLockTime tx)
                < (if uint (nLockTime tx) < uint LOCKTIME_THRESHOLD then nBlockHeight else nBlockTime)
              then True
              else list_all IsFinal (vin tx))"

fun add_sigops :: "u32 option list \<Rightarrow> u32 \<Rightarrow> u32 option" where
  "add_sigops [] nSigOps = Some nSigOps"
| "add_sigops (None # counts) nSigOps = None"
| "add_sigops (Some n # counts) nSigOps = add_sigops counts (nSigOps + n)"

definition GetLegacySigOpCount :: "CTransaction \<Rightarrow> u32 option" where
  "GetLegacySigOpCount tx =
     add_sigops (map (\<lambda>txin. GetSigOpCount (scriptSig txin) False) (vin tx)
       @ map (\<lambda>txout. GetSigOpCount (scriptPubKey txout) False) (vout tx)) 0"

text \<open>\<open>GetOutputFor\<close> is the lookup in the coins view.\<close>

definition GetP2SHSigOpCount :: "(CTxIn \<Rightarrow> CTxOut) \<Rightarrow> CTransaction \<Rightarrow> u32 option" where
  "GetP2SHSigOpCount GetOutputFor tx =
     (if IsCoinBase tx \<or> HasZerocoinSpendInputs tx then Some 0
      else add_sigops (map (\<lambda>txin.
        if IsPayToScriptHash (scriptPubKey (GetOutputFor txin))
        then GetSigOpCount_P2SH (scriptPubKey (GetOutputFor txin)) (scriptSig txin)
        else Some 0) (vin tx)) 0)"

datatype tx_reject =
  Bad_txns_vin_empty | Bad_txns_vout_empty | Bad_txns_oversize | Txout_empty | Bad_txns_vout_negative
| Bad_txns_vout_toolarge | Bad_txns_txouttotal_toolarge | Bad_txns_cold_stake | Bad_txns_inputs_duplicate
| Bad_cb_length | Bad_txns_prevout_null

definition MAX_ZEROCOIN_TX_SIZE :: u32 where
  "MAX_ZEROCOIN_TX_SIZE = 150000"

definition MIN_COLDSTAKING_AMOUNT :: CAmount where
  "MIN_COLDSTAKING_AMOUNT = 1 * COIN"

definition MoneyRange :: "CAmount \<Rightarrow> CAmount \<Rightarrow> bool" where
  "MoneyRange nMaxMoneyOut v \<longleftrightarrow> sint v \<ge> 0 \<and> sint v \<le> sint nMaxMoneyOut"

text \<open>The loop over the outputs; a rejection carries the level of \<open>DoS\<close> and the reason.\<close>

fun check_outputs ::
  "CAmount \<Rightarrow> bool \<Rightarrow> bool \<Rightarrow> CTxOut list \<Rightarrow> CAmount \<Rightarrow> (nat \<times> tx_reject) + CAmount" where
  "check_outputs nMaxMoneyOut fColdStakingActive generated [] nValueOut = Inr nValueOut"
| "check_outputs nMaxMoneyOut fColdStakingActive generated (txout # outs) nValueOut =
     (if CTxOut_IsEmpty txout \<and> \<not> generated then Inl (100, Txout_empty)
      else if sint (nValue txout) < 0 then Inl (100, Bad_txns_vout_negative)
      else if sint (nValue txout) > sint nMaxMoneyOut then Inl (100, Bad_txns_vout_toolarge)
      else if \<not> MoneyRange nMaxMoneyOut (nValueOut + nValue txout) then Inl (100, Bad_txns_txouttotal_toolarge)
      else if IsPayToColdStaking (scriptPubKey txout) \<and> \<not> fColdStakingActive then Inl (10, Bad_txns_cold_stake)
      else if IsPayToColdStaking (scriptPubKey txout) \<and> sint (nValue txout) < sint MIN_COLDSTAKING_AMOUNT
        then Inl (100, Bad_txns_cold_stake)
      else check_outputs nMaxMoneyOut fColdStakingActive generated outs (nValueOut + nValue txout))"

fun check_inputs :: "CTxIn list \<Rightarrow> COutPoint set \<Rightarrow> (nat \<times> tx_reject) + unit" where
  "check_inputs [] vInOutPoints = Inr ()"
| "check_inputs (txin # ins) vInOutPoints =
     (if prevout txin \<in> vInOutPoints then Inl (100, Bad_txns_inputs_duplicate)
      else check_inputs ins
        (if \<not> CTxIn_IsZerocoinSpend txin then insert (prevout txin) vInOutPoints else vInOutPoints))"

definition CheckTransaction :: "CAmount \<Rightarrow> CTransaction \<Rightarrow> bool \<Rightarrow> bool \<Rightarrow> (nat \<times> tx_reject) + unit" where
  "CheckTransaction nMaxMoneyOut tx fZerocoinActive fColdStakingActive =
     (if vin tx = [] then Inl (10, Bad_txns_vin_empty)
      else if vout tx = [] then Inl (10, Bad_txns_vout_empty)
      else if GetSerializeSize_CTransaction tx > MAX_ZEROCOIN_TX_SIZE then Inl (100, Bad_txns_oversize)
      else bind (check_outputs nMaxMoneyOut fColdStakingActive (IsCoinBase tx \<or> IsCoinStake tx) (vout tx) 0) (\<lambda>_.
        bind (check_inputs (vin tx) {}) (\<lambda>_.
        if IsCoinBase tx then
          (if length (scriptSig (vin tx ! 0)) < 2 \<or> length (scriptSig (vin tx ! 0)) > 150
           then Inl (100, Bad_cb_length) else Inr ())
        else if list_ex (\<lambda>txin. COutPoint_IsNull (prevout txin) \<and> fZerocoinActive \<and> \<not> CTxIn_IsZerocoinSpend txin) (vin tx)
        then Inl (10, Bad_txns_prevout_null)
        else Inr ())))"

section \<open>The signature hash\<close>

text \<open>\<open>SerializeScriptCode\<close>: the count of the code separators, then the bytes between them.\<close>

function count_separators :: "bytes \<Rightarrow> nat \<Rightarrow> nat \<Rightarrow> nat" where
  "count_separators scriptCode it nCodeSeparators =
     (case GetOp scriptCode it of
        (True, it, opcode) \<Rightarrow>
          count_separators scriptCode it (if opcode = OP_CODESEPARATOR then nCodeSeparators + 1 else nCodeSeparators)
      | (False, _, _) \<Rightarrow> nCodeSeparators)"
  by pat_completeness auto
termination
  by (relation "measure (\<lambda>(s, it, n). length s - it)") (auto dest!: GetOp_advances [OF sym])

declare count_separators.simps [simp del]

definition slice :: "bytes \<Rightarrow> nat \<Rightarrow> nat \<Rightarrow> bytes" where
  "slice s a n = take n (drop a s)"

function write_between :: "bytes \<Rightarrow> nat \<Rightarrow> nat \<Rightarrow> bytes \<Rightarrow> bytes" where
  "write_between scriptCode it itBegin out =
     (case GetOp scriptCode it of
        (True, it, opcode) \<Rightarrow>
          if opcode = OP_CODESEPARATOR
          then write_between scriptCode it it (out @ slice scriptCode itBegin (it - itBegin - 1))
          else write_between scriptCode it itBegin out
      | (False, it, _) \<Rightarrow>
          if itBegin \<noteq> length scriptCode then out @ slice scriptCode itBegin (it - itBegin) else out)"
  by pat_completeness auto
termination
  by (relation "measure (\<lambda>(s, it, b, out). length s - it)") (auto dest!: GetOp_advances [OF sym])

declare write_between.simps [simp del]

definition SerializeScriptCode :: "bytes \<Rightarrow> bytes" where
  "SerializeScriptCode scriptCode =
     WriteCompactSize (word_of_nat (length scriptCode - count_separators scriptCode 0 0))
     @ write_between scriptCode 0 0 []"

type_synonym hashtype = "32 word"

definition fAnyoneCanPay :: "hashtype \<Rightarrow> bool" where
  "fAnyoneCanPay nHashType \<longleftrightarrow> nHashType AND 0x80 \<noteq> 0"

definition fHashSingle :: "hashtype \<Rightarrow> bool" where
  "fHashSingle nHashType \<longleftrightarrow> nHashType AND 0x1f = 3"

definition fHashNone :: "hashtype \<Rightarrow> bool" where
  "fHashNone nHashType \<longleftrightarrow> nHashType AND 0x1f = 2"

definition SerializeInput :: "CTransaction \<Rightarrow> bytes \<Rightarrow> nat \<Rightarrow> hashtype \<Rightarrow> nat \<Rightarrow> bytes" where
  "SerializeInput txTo scriptCode nIn nHashType nInput0 =
     (let nInput = (if fAnyoneCanPay nHashType then nIn else nInput0)
      in Serialize_COutPoint (prevout (vin txTo ! nInput))
         @ (if nInput \<noteq> nIn then Serialize_bytes [] else SerializeScriptCode scriptCode)
         @ (if nInput \<noteq> nIn \<and> (fHashSingle nHashType \<or> fHashNone nHashType) then WRITEDATA 4 (0 :: u32)
            else WRITEDATA 4 (nSequence (vin txTo ! nInput))))"

definition SerializeOutput :: "CTransaction \<Rightarrow> nat \<Rightarrow> hashtype \<Rightarrow> nat \<Rightarrow> bytes" where
  "SerializeOutput txTo nIn nHashType nOutput =
     (if fHashSingle nHashType \<and> nOutput \<noteq> nIn then Serialize_CTxOut CTxOut_SetNull
      else Serialize_CTxOut (vout txTo ! nOutput))"

definition Serialize_signed :: "CTransaction \<Rightarrow> bytes \<Rightarrow> nat \<Rightarrow> hashtype \<Rightarrow> bytes" where
  "Serialize_signed txTo scriptCode nIn nHashType =
     (let nInputs = (if fAnyoneCanPay nHashType then 1 else length (vin txTo));
          nOutputs = (if fHashNone nHashType then 0
                      else if fHashSingle nHashType then nIn + 1 else length (vout txTo))
      in WRITEDATA 4 (tx_nVersion txTo)
         @ WriteCompactSize (word_of_nat nInputs)
         @ concat (map (SerializeInput txTo scriptCode nIn nHashType) [0..<nInputs])
         @ WriteCompactSize (word_of_nat nOutputs)
         @ concat (map (SerializeOutput txTo nIn nHashType) [0..<nOutputs])
         @ WRITEDATA 4 (nLockTime txTo))"

definition SignatureHash :: "crypto \<Rightarrow> bytes \<Rightarrow> CTransaction \<Rightarrow> nat \<Rightarrow> hashtype \<Rightarrow> 256 word" where
  "SignatureHash c scriptCode txTo nIn nHashType =
     (if nIn \<ge> length (vin txTo) then 1
      else if nHashType AND 0x1f = 3 \<and> nIn \<ge> length (vout txTo) then 1
      else Hash256 c (Serialize_signed txTo scriptCode nIn nHashType @ WRITEDATA 4 nHashType))"

text \<open>The original algorithm, which modifies a copy of the transaction.\<close>

definition SignatureHashOld :: "crypto \<Rightarrow> bytes \<Rightarrow> CTransaction \<Rightarrow> nat \<Rightarrow> hashtype \<Rightarrow> 256 word" where
  "SignatureHashOld c scriptCode txTo nIn nHashType =
     (if nIn \<ge> length (vin txTo) then 1
      else
        let scriptCode = fst (FindAndDelete scriptCode [word_of_nat OP_CODESEPARATOR]);
            ins = map (\<lambda>txin. txin\<lparr>scriptSig := []\<rparr>) (vin txTo);
            ins = ins[nIn := (ins ! nIn)\<lparr>scriptSig := scriptCode\<rparr>];
            others = (\<lambda>ins. map (\<lambda>i. if i \<noteq> nIn then (ins ! i)\<lparr>nSequence := 0\<rparr> else ins ! i) [0..<length ins]);
            anyone = (\<lambda>ins. if nHashType AND 0x80 \<noteq> 0 then [ins ! nIn] else ins);
            finish = (\<lambda>ins outs. Hash256 c (Serialize_CTransaction (txTo\<lparr>vin := anyone ins, vout := outs\<rparr>)
              @ WRITEDATA 4 nHashType))
        in if nHashType AND 0x1f = 2 then finish (others ins) []
           else if nHashType AND 0x1f = 3 then
             (if nIn \<ge> length (vout txTo) then 1
              else finish (others ins) (replicate nIn CTxOut_SetNull @ [vout txTo ! nIn]))
           else finish ins (vout txTo))"

section \<open>The checker\<close>

definition tx_CheckLockTime :: "CTransaction \<Rightarrow> nat \<Rightarrow> int64 \<Rightarrow> bool" where
  "tx_CheckLockTime txTo nIn lockTime =
     (if \<not> ((nLockTime txTo < LOCKTIME_THRESHOLD \<and> sint lockTime < uint LOCKTIME_THRESHOLD)
          \<or> (nLockTime txTo \<ge> LOCKTIME_THRESHOLD \<and> sint lockTime \<ge> uint LOCKTIME_THRESHOLD)) then False
      else if sint lockTime > uint (nLockTime txTo) then False
      else if IsFinal (vin txTo ! nIn) then False
      else True)"

text \<open>\<open>pubkey.Verify(sighash, vchSig)\<close> is the parameter \<open>Verify\<close>.\<close>

definition tx_CheckSig ::
  "crypto \<Rightarrow> (bytes \<Rightarrow> 256 word \<Rightarrow> bytes \<Rightarrow> bool) \<Rightarrow> CTransaction \<Rightarrow> nat \<Rightarrow> bytes \<Rightarrow> bytes \<Rightarrow> bytes \<Rightarrow> bool" where
  "tx_CheckSig c Verify txTo nIn vchSig vchPubKey scriptCode =
     (let pubkey = CPubKey_Set vchPubKey
      in if \<not> CPubKey_IsValid pubkey then False
         else if vchSig = [] then False
         else let nHashType = ucast (last vchSig);
                  sighash = SignatureHash c scriptCode txTo nIn nHashType
              in if \<not> Verify pubkey sighash (butlast vchSig) then False else True)"

definition TransactionSignatureChecker ::
  "crypto \<Rightarrow> (bytes \<Rightarrow> 256 word \<Rightarrow> bytes \<Rightarrow> bool) \<Rightarrow> CTransaction \<Rightarrow> nat \<Rightarrow> BaseSignatureChecker" where
  "TransactionSignatureChecker c Verify txTo nIn =
     \<lparr>CheckSig = tx_CheckSig c Verify txTo nIn,
      CheckLockTime = tx_CheckLockTime txTo nIn,
      CheckColdStake = tx_CheckColdStake txTo\<rparr>"

section \<open>The serializer for signature hashes\<close>

lemma is_op_separator: "is_op [0xab]"
  by (simp add: is_op_def GetOp_def GetOp2_def Let_def)

lemma GetOp_opcode: "GetOp script 0 = (True, n, opcode) \<Longrightarrow> script \<noteq> [] \<and> opcode = unat (script ! 0)"
  by (auto simp: GetOp_def GetOp2_def GetOp2_operand_def Let_def split: if_splits)

lemma separator_op:
  assumes "GetOp script 0 = (True, n, opcode)" "length script < 2 ^ 32"
  shows "opcode = OP_CODESEPARATOR \<longleftrightarrow> take n script = [0xab]"
proof -
  have "unat (script ! 0) = 0xab \<longleftrightarrow> script ! 0 = 0xab"
    using word_unat_eq_iff [of "script ! 0" "0xab"] by simp
  then show ?thesis
    using GetOp_opcode [OF assms(1)] GetOp_take [OF is_op_separator assms(2,1)] by (cases script) auto
qed

lemma script_ops_next:
  assumes "GetOp script it = (True, it', opcode)" "it \<le> length script" "length script < 2 ^ 32"
  shows "fst (script_ops (drop it script)) = take (it' - it) (drop it script) # fst (script_ops (drop it' script))"
    "snd (script_ops (drop it script)) = snd (script_ops (drop it' script))"
    "opcode = OP_CODESEPARATOR \<longleftrightarrow> take (it' - it) (drop it script) = [0xab]"
proof -
  obtain k where g: "GetOp (drop it script) 0 = (True, k, opcode)" "it' = it + k"
    using GetOp_drop [OF assms(2)] assms(1) by (cases "GetOp (drop it script) 0") auto
  then show "fst (script_ops (drop it script)) = take (it' - it) (drop it script) # fst (script_ops (drop it' script))"
    "snd (script_ops (drop it script)) = snd (script_ops (drop it' script))"
    using script_ops_step [OF g(1)] by (simp_all add: add.commute)
  show "opcode = OP_CODESEPARATOR \<longleftrightarrow> take (it' - it) (drop it script) = [0xab]"
    using separator_op [OF g(1)] assms(3) g(2) by simp
qed

lemma script_ops_last:
  assumes "GetOp script it = (False, it', opcode)" "it \<le> length script"
  shows "script_ops (drop it script) = ([], drop it script)"
proof -
  obtain k where "GetOp (drop it script) 0 = (False, k, opcode)"
    using GetOp_drop [OF assms(2)] assms(1) by (cases "GetOp (drop it script) 0") auto
  then show ?thesis by (rule script_ops_stop)
qed

lemma count_separators_ops:
  assumes "it \<le> length script" "length script < 2 ^ 32"
  shows "count_separators script it n = n + count_list (fst (script_ops (drop it script))) [0xab]"
  using assms
proof (induction script it n rule: count_separators.induct)
  case (1 script it n)
  obtain ok it' opcode where g: "GetOp script it = (ok, it', opcode)" by (metis prod_cases3)
  show ?case
  proof (cases ok)
    case True
    with g have g: "GetOp script it = (True, it', opcode)" by simp
    note ops = script_ops_next [OF g "1.prems"]
    have "it' \<le> length script" using GetOp_advances [OF g] by simp
    then show ?thesis
      using "1.IH" [of True "(it', opcode)" it' opcode] g ops "1.prems"(2)
      by (subst count_separators.simps) simp
  next
    case False
    then show ?thesis
      using g script_ops_last [of script it it' opcode] "1.prems" by (subst count_separators.simps) simp
  qed
qed

lemma slice_snoc:
  "a \<le> b \<Longrightarrow> b \<le> c \<Longrightarrow> slice s a (c - a) = slice s a (b - a) @ take (c - b) (drop b s)"
proof -
  assume "a \<le> b" "b \<le> c"
  then obtain i j where "b = a + i" "c = a + i + j" by (metis le_Suc_ex)
  then show ?thesis by (simp add: slice_def take_add add.commute)
qed

lemma write_between_ops:
  assumes "itBegin \<le> it" "it \<le> length script" "length script < 2 ^ 32" "snd (script_ops (drop it script)) = []"
  shows "write_between script it itBegin out =
    out @ slice script itBegin (it - itBegin) @ concat (filter (\<lambda>c. c \<noteq> [0xab]) (fst (script_ops (drop it script))))"
  using assms
proof (induction script it itBegin out rule: write_between.induct)
  case (1 script it itBegin out)
  obtain ok it' opcode where g: "GetOp script it = (ok, it', opcode)" by (metis prod_cases3)
  show ?case
  proof (cases ok)
    case True
    with g have g: "GetOp script it = (True, it', opcode)" by simp
    note ops = script_ops_next [OF g "1.prems"(2,3)]
    have it': "it < it'" "it' \<le> length script" using GetOp_advances [OF g] by simp_all
    have s: "slice script itBegin (it' - itBegin) = slice script itBegin (it - itBegin) @ take (it' - it) (drop it script)"
      using "1.prems"(1) it' by (intro slice_snoc) simp_all
    show ?thesis
    proof (cases "opcode = OP_CODESEPARATOR")
      case sep: True
      then have "length (take (it' - it) (drop it script)) = 1" using ops(3) by simp
      then have "it' = it + 1" using it' by simp
      then show ?thesis
        using "1.IH"(1) [of True "(it', opcode)" it' opcode] g ops sep it' "1.prems"
        by (subst write_between.simps) (simp add: slice_def)
    next
      case False
      then show ?thesis
        using "1.IH"(2) [of True "(it', opcode)" it' opcode] g ops it' "1.prems" s
        by (subst write_between.simps) simp
    qed
  next
    case False
    then have "it = length script"
      using script_ops_last [of script it it' opcode] g "1.prems"(2,4) by simp
    moreover from this have "it' = it" using g False by (simp add: GetOp_def GetOp2_def)
    ultimately show ?thesis
      using g False script_ops_last [of script it it' opcode] by (subst write_between.simps) (auto simp: slice_def)
  qed
qed

lemma length_concat_filter:
  "length (concat (filter (\<lambda>c. c \<noteq> b) ops)) = length (concat ops) - count_list ops b * length b
   \<and> count_list ops b * length b \<le> length (concat ops)"
  by (induction ops) auto

lemma SerializeScriptCode_filters:
  assumes "length scriptCode < 2 ^ 32" "snd (script_ops scriptCode) = []"
  shows "SerializeScriptCode scriptCode = Serialize_bytes (fst (FindAndDelete scriptCode [0xab]))"
proof -
  have "length (concat (filter (\<lambda>c. c \<noteq> [0xab]) (fst (script_ops scriptCode)))) =
      length scriptCode - count_list (fst (script_ops scriptCode)) [0xab]"
    using length_concat_filter [of "[0xab]" "fst (script_ops scriptCode)"] concat_script_ops [of scriptCode] assms(2)
    by simp
  then show ?thesis
    using count_separators_ops [of 0 scriptCode 0] write_between_ops [of 0 0 scriptCode "[]"] assms
    by (simp add: SerializeScriptCode_def FindAndDelete_ops [OF is_op_separator] slice_def)
qed

section \<open>The signature hash of a modified copy\<close>

lemma Serialize_vector_concat:
  "Serialize_vector ser v = WriteCompactSize (word_of_nat (length v)) @ concat (map ser v)"
proof -
  have "foldl (\<lambda>os x. os @ ser x) a v = a @ concat (map ser v)" for a by (induction v arbitrary: a) auto
  then show ?thesis by (simp add: Serialize_vector_def)
qed

text \<open>The inputs that the serializer writes for a code with the separators removed.\<close>

definition signed_inputs :: "CTransaction \<Rightarrow> bytes \<Rightarrow> nat \<Rightarrow> bool \<Rightarrow> CTxIn list" where
  "signed_inputs txTo code nIn zeroed =
     map (\<lambda>i. if i = nIn then (vin txTo ! i)\<lparr>scriptSig := code\<rparr>
       else if zeroed then (vin txTo ! i)\<lparr>scriptSig := [], nSequence := 0\<rparr> else (vin txTo ! i)\<lparr>scriptSig := []\<rparr>)
       [0..<length (vin txTo)]"

lemma SerializeInput_copy:
  assumes "SerializeScriptCode scriptCode = Serialize_bytes code" "nIn < length (vin txTo)" "i < length (vin txTo)"
    "zeroed \<longleftrightarrow> fHashSingle nHashType \<or> fHashNone nHashType"
  shows "SerializeInput txTo scriptCode nIn nHashType i =
    Serialize_CTxIn (signed_inputs txTo code nIn zeroed ! (if fAnyoneCanPay nHashType then nIn else i))"
  using assms by (simp add: SerializeInput_def Let_def signed_inputs_def Serialize_CTxIn_def del: Serialize_bytes_append)

lemma signed_inputs_written:
  assumes "SerializeScriptCode scriptCode = Serialize_bytes code" "nIn < length (vin txTo)"
    "zeroed \<longleftrightarrow> fHashSingle nHashType \<or> fHashNone nHashType"
    "ins = (if fAnyoneCanPay nHashType then [signed_inputs txTo code nIn zeroed ! nIn] else signed_inputs txTo code nIn zeroed)"
    "nInputs = (if fAnyoneCanPay nHashType then 1 else length (vin txTo))"
  shows "WriteCompactSize (word_of_nat nInputs) @ concat (map (SerializeInput txTo scriptCode nIn nHashType) [0..<nInputs])
    = Serialize_vector Serialize_CTxIn ins"
proof -
  have l: "length (signed_inputs txTo code nIn zeroed) = length (vin txTo)" by (simp add: signed_inputs_def)
  have "map (SerializeInput txTo scriptCode nIn nHashType) [0..<nInputs] = map Serialize_CTxIn ins"
  proof (cases "fAnyoneCanPay nHashType")
    case True
    have "0 < length (vin txTo)" using assms(2) by linarith
    then show ?thesis using True assms(4,5) SerializeInput_copy [OF assms(1,2) _ assms(3), of 0] by simp
  next
    case False
    then show ?thesis
      using assms(4,5) SerializeInput_copy [OF assms(1,2) _ assms(3)] l by (intro nth_equalityI) auto
  qed
  moreover have "length ins = nInputs" using assms(4,5) l by simp
  ultimately show ?thesis by (simp add: Serialize_vector_concat)
qed

lemma signed_outputs_written:
  assumes "fHashSingle nHashType \<Longrightarrow> nIn < length (vout txTo)"
    "outs = (if fHashNone nHashType then [] else if fHashSingle nHashType
       then replicate nIn CTxOut_SetNull @ [vout txTo ! nIn] else vout txTo)"
    "nOutputs = (if fHashNone nHashType then 0 else if fHashSingle nHashType then nIn + 1 else length (vout txTo))"
  shows "WriteCompactSize (word_of_nat nOutputs) @ concat (map (SerializeOutput txTo nIn nHashType) [0..<nOutputs])
    = Serialize_vector Serialize_CTxOut outs"
proof -
  have "map (SerializeOutput txTo nIn nHashType) [0..<nOutputs] = map Serialize_CTxOut outs"
    using assms by (intro nth_equalityI) (auto simp: SerializeOutput_def nth_append)
  moreover have "length outs = nOutputs" using assms by auto
  ultimately show ?thesis by (simp add: Serialize_vector_concat)
qed

lemma copied_inputs:
  assumes "nIn < length (vin txTo)"
  shows "(map (\<lambda>txin. txin\<lparr>scriptSig := []\<rparr>) (vin txTo))[nIn := (map (\<lambda>txin. txin\<lparr>scriptSig := []\<rparr>) (vin txTo) ! nIn)\<lparr>scriptSig := code\<rparr>]
      = signed_inputs txTo code nIn False"
    "map (\<lambda>i. if i \<noteq> nIn then (signed_inputs txTo code nIn False ! i)\<lparr>nSequence := 0\<rparr> else signed_inputs txTo code nIn False ! i)
       [0..<length (signed_inputs txTo code nIn False)] = signed_inputs txTo code nIn True"
  using assms by (auto simp: signed_inputs_def nth_list_update intro!: nth_equalityI)

lemma SignatureHash_copy:
  assumes "length scriptCode < 2 ^ 32" "snd (script_ops scriptCode) = []"
  shows "SignatureHash c scriptCode txTo nIn nHashType = SignatureHashOld c scriptCode txTo nIn nHashType"
proof (cases "nIn < length (vin txTo) \<and> (fHashSingle nHashType \<longrightarrow> nIn < length (vout txTo))")
  case True
  define code where "code = fst (FindAndDelete scriptCode [0xab])"
  have w: "SerializeScriptCode scriptCode = Serialize_bytes code"
    unfolding code_def by (rule SerializeScriptCode_filters [OF assms])
  have "Serialize_signed txTo scriptCode nIn nHashType = Serialize_CTransaction (txTo\<lparr>
      vin := (if fAnyoneCanPay nHashType
        then [signed_inputs txTo code nIn (fHashSingle nHashType \<or> fHashNone nHashType) ! nIn]
        else signed_inputs txTo code nIn (fHashSingle nHashType \<or> fHashNone nHashType)),
      vout := (if fHashNone nHashType then [] else if fHashSingle nHashType
       then replicate nIn CTxOut_SetNull @ [vout txTo ! nIn] else vout txTo)\<rparr>)"
    using signed_inputs_written [OF w _ refl refl refl, of nIn txTo nHashType]
      signed_outputs_written [OF _ refl refl, of nHashType nIn txTo] True
    unfolding Serialize_signed_def Serialize_CTransaction_def Let_def by simp
  moreover have "[word_of_nat OP_CODESEPARATOR] = [0xab :: byte]" by simp
  moreover have "nIn < length (vin txTo)" using True by simp
  note copied = copied_inputs [OF this, of code]
  ultimately show ?thesis
    using True unfolding SignatureHashOld_def Let_def SignatureHash_def
    by (simp only: code_def [symmetric] copied) (auto simp: fHashSingle_def fHashNone_def fAnyoneCanPay_def)
next
  case False
  then show ?thesis by (auto simp: SignatureHash_def SignatureHashOld_def fHashSingle_def Let_def)
qed

section \<open>Round trips\<close>

interpretation outpoint: canonical_codec Serialize_COutPoint Unserialize_COutPoint "\<lambda>_. True" GetSerializeSize_COutPoint
proof unfold_locales
  show "Unserialize_COutPoint (Serialize_COutPoint x @ r) = Inr (x, r)" for x r
    by (simp add: Unserialize_COutPoint_def Serialize_COutPoint_def READDATA_WRITEDATA)
  show "GetSerializeSize_COutPoint x = word_of_nat (length (Serialize_COutPoint x))" for x
    by (simp add: GetSerializeSize_COutPoint_def Serialize_COutPoint_def)
  show "s = Serialize_COutPoint x @ r \<and> True" if "Unserialize_COutPoint s = Inr (x, r)" for s x r
    using that by (auto simp: Unserialize_COutPoint_def Serialize_COutPoint_def split: sum.splits dest!: READDATA_inv)
qed

interpretation txin: canonical_codec Serialize_CTxIn Unserialize_CTxIn
  "\<lambda>txin. length (scriptSig txin) \<le> 0x02000000" GetSerializeSize_CTxIn
proof unfold_locales
  show "Unserialize_CTxIn (Serialize_CTxIn x @ r) = Inr (x, r)" if "length (scriptSig x) \<le> 0x02000000" for x r
    using that
    by (simp add: Unserialize_CTxIn_def Serialize_CTxIn_def READDATA_WRITEDATA blob.unser_ser outpoint.unser_ser
      del: Serialize_bytes_append)
  show "GetSerializeSize_CTxIn x = word_of_nat (length (Serialize_CTxIn x))" for x
    by (simp add: GetSerializeSize_CTxIn_def Serialize_CTxIn_def blob.size_ser outpoint.size_ser
      del: Serialize_bytes_append)
  show "s = Serialize_CTxIn x @ r \<and> length (scriptSig x) \<le> 0x02000000" if "Unserialize_CTxIn s = Inr (x, r)" for s x r
    using that
    by (auto simp: Unserialize_CTxIn_def Serialize_CTxIn_def simp del: Serialize_bytes_append
      split: sum.splits dest!: READDATA_inv blob.ser_unser outpoint.ser_unser)
qed

interpretation txout: canonical_codec Serialize_CTxOut Unserialize_CTxOut
  "\<lambda>txout. length (scriptPubKey txout) \<le> 0x02000000" GetSerializeSize_CTxOut
proof unfold_locales
  show "Unserialize_CTxOut (Serialize_CTxOut x @ r) = Inr (x, r)" if "length (scriptPubKey x) \<le> 0x02000000" for x r
    using that
    by (simp add: Unserialize_CTxOut_def Serialize_CTxOut_def READDATA_WRITEDATA blob.unser_ser
      del: Serialize_bytes_append)
  show "GetSerializeSize_CTxOut x = word_of_nat (length (Serialize_CTxOut x))" for x
    by (simp add: GetSerializeSize_CTxOut_def Serialize_CTxOut_def blob.size_ser del: Serialize_bytes_append)
  show "s = Serialize_CTxOut x @ r \<and> length (scriptPubKey x) \<le> 0x02000000"
    if "Unserialize_CTxOut s = Inr (x, r)" for s x r
    using that
    by (auto simp: Unserialize_CTxOut_def Serialize_CTxOut_def simp del: Serialize_bytes_append
      split: sum.splits dest!: READDATA_inv blob.ser_unser)
qed

text \<open>A transaction all of whose vectors the reader accepts.\<close>

definition tx_readable :: "CTransaction \<Rightarrow> bool" where
  "tx_readable tx \<longleftrightarrow> length (vin tx) \<le> 0x02000000 \<and> length (vout tx) \<le> 0x02000000
     \<and> list_all (\<lambda>txin. length (scriptSig txin) \<le> 0x02000000) (vin tx)
     \<and> list_all (\<lambda>txout. length (scriptPubKey txout) \<le> 0x02000000) (vout tx)"

lemma Unserialize_CTransaction_ser:
  "tx_readable tx \<Longrightarrow> Unserialize_CTransaction (Serialize_CTransaction tx @ r) = Some (Inr (tx, r))"
  by (simp add: tx_readable_def Unserialize_CTransaction_def Serialize_CTransaction_def READDATA_WRITEDATA
    txin.Unserialize_vector_ser txout.Unserialize_vector_ser)

lemma Unserialize_CTransaction_inv:
  assumes "Unserialize_CTransaction s = Some (Inr (tx, r))"
  shows "s = Serialize_CTransaction tx @ r \<and> tx_readable tx"
proof -
  obtain v s1 ins s2 outs s3 l where r: "READDATA 4 s = Inr (v, s1)"
    "Unserialize_vector Unserialize_CTxIn 96 s1 = Some (Inr (ins, s2))"
    "Unserialize_vector Unserialize_CTxOut 40 s2 = Some (Inr (outs, s3))"
    "READDATA 4 s3 = Inr (l, r)" "tx = \<lparr>tx_nVersion = v, vin = ins, vout = outs, nLockTime = l\<rparr>"
    using assms by (auto simp: Unserialize_CTransaction_def split: sum.splits option.splits)
  show ?thesis
    using READDATA_inv [OF r(1)] READDATA_inv [OF r(4)] txin.Unserialize_vector_canonical [OF _ _ r(2)]
      txout.Unserialize_vector_canonical [OF _ _ r(3)]
    by (simp add: r(5) Serialize_CTransaction_def tx_readable_def)
qed

lemma GetSerializeSize_CTransaction_length:
  "GetSerializeSize_CTransaction tx = word_of_nat (length (Serialize_CTransaction tx))"
  by (simp add: GetSerializeSize_CTransaction_def Serialize_CTransaction_def txin.size_vector txout.size_vector)

section \<open>What \<open>CheckTransaction\<close> accepts\<close>

definition total_out :: "CTxOut list \<Rightarrow> int" where
  "total_out outs = sum_list (map (\<lambda>txout. sint (nValue txout)) outs)"

definition output_ok :: "bool \<Rightarrow> bool \<Rightarrow> CTxOut \<Rightarrow> bool" where
  "output_ok fColdStakingActive generated txout \<longleftrightarrow>
     sint (nValue txout) \<ge> 0 \<and> (CTxOut_IsEmpty txout \<longrightarrow> generated)
     \<and> (IsPayToColdStaking (scriptPubKey txout) \<longrightarrow> fColdStakingActive \<and> sint (nValue txout) \<ge> sint COIN)"

lemma total_out_nonneg: "list_all (output_ok cs g) outs \<Longrightarrow> 0 \<le> total_out outs"
  by (induction outs) (simp_all add: total_out_def output_ok_def)

lemma total_out_Cons: "total_out (txout # outs) = sint (nValue txout) + total_out outs"
  by (simp add: total_out_def)

lemma sint_inj64: "sint v = sint w \<Longrightarrow> v = w" for v w :: int64
  by (rule signed_word_eqI)

lemma check_outputs_iff:
  assumes "0 \<le> sint acc" "sint acc \<le> sint M" "sint M < 2 ^ 62"
  shows "check_outputs M cs g outs acc = Inr v \<longleftrightarrow>
    list_all (output_ok cs g) outs \<and> sint acc + total_out outs \<le> sint M \<and> sint v = sint acc + total_out outs"
  using assms(1,2)
proof (induction outs arbitrary: acc)
  case Nil
  then show ?case using sint_inj64 [of v acc] by (auto simp: total_out_def)
next
  case (Cons txout outs)
  let ?n = "sint (nValue txout)"
  show ?case
  proof (cases "output_ok cs g txout \<and> sint acc + ?n \<le> sint M")
    case True
    have s: "sint (acc + nValue txout) = sint acc + ?n"
      using True Cons.prems assms(3) by (intro sint_add64) (auto simp: output_ok_def)
    have "check_outputs M cs g (txout # outs) acc = check_outputs M cs g outs (acc + nValue txout)"
      using True s Cons.prems by (auto simp: output_ok_def MoneyRange_def MIN_COLDSTAKING_AMOUNT_def)
    then show ?thesis
      using Cons.IH [of "acc + nValue txout"] s True Cons.prems
      by (auto simp: total_out_Cons output_ok_def)
  next
    case False
    have "check_outputs M cs g (txout # outs) acc \<noteq> Inr v"
    proof
      assume c: "check_outputs M cs g (txout # outs) acc = Inr v"
      then have n: "0 \<le> ?n" "?n \<le> sint M" by (auto split: if_splits)
      then have "sint (acc + nValue txout) = sint acc + ?n"
        using Cons.prems assms(3) by (intro sint_add64) auto
      then show False
        using c False by (auto simp: output_ok_def MoneyRange_def MIN_COLDSTAKING_AMOUNT_def split: if_splits)
    qed
    moreover have "\<not> (list_all (output_ok cs g) (txout # outs) \<and> sint acc + total_out (txout # outs) \<le> sint M)"
      using False total_out_nonneg [of cs g outs] by (auto simp: total_out_Cons)
    ultimately show ?thesis by blast
  qed
qed

text \<open>An earlier input that is no zerocoin spend shares its outpoint with no later one.\<close>

definition inputs_ok :: "CTxIn list \<Rightarrow> bool" where
  "inputs_ok ins = sorted_wrt (\<lambda>a b. CTxIn_IsZerocoinSpend a \<or> prevout a \<noteq> prevout b) ins"

lemma check_inputs_iff:
  "check_inputs ins seen = Inr () \<longleftrightarrow> inputs_ok ins \<and> (\<forall>txin \<in> set ins. prevout txin \<notin> seen)"
  by (induction ins arbitrary: seen) (auto simp: inputs_ok_def)

lemma inputs_ok_distinct: "inputs_ok ins \<Longrightarrow> distinct (map prevout (filter (\<lambda>txin. \<not> CTxIn_IsZerocoinSpend txin) ins))"
  by (induction ins) (auto simp: inputs_ok_def)

lemma CheckTransaction_iff:
  assumes "0 \<le> sint M" "sint M < 2 ^ 62"
  shows "CheckTransaction M tx fZerocoinActive fColdStakingActive = Inr () \<longleftrightarrow>
    vin tx \<noteq> [] \<and> vout tx \<noteq> [] \<and> length (Serialize_CTransaction tx) mod 2 ^ 32 \<le> 150000
    \<and> list_all (output_ok fColdStakingActive (IsCoinBase tx \<or> IsCoinStake tx)) (vout tx)
    \<and> total_out (vout tx) \<le> sint M
    \<and> inputs_ok (vin tx)
    \<and> (if IsCoinBase tx then length (scriptSig (vin tx ! 0)) \<in> {2..150}
       else \<forall>txin \<in> set (vin tx). COutPoint_IsNull (prevout txin) \<and> fZerocoinActive \<longrightarrow> CTxIn_IsZerocoinSpend txin)"
proof -
  have size: "GetSerializeSize_CTransaction tx > MAX_ZEROCOIN_TX_SIZE \<longleftrightarrow>
      \<not> length (Serialize_CTransaction tx) mod 2 ^ 32 \<le> 150000"
    by (simp add: GetSerializeSize_CTransaction_length MAX_ZEROCOIN_TX_SIZE_def word_less_nat_alt unat_of_nat not_le)
  have outs: "(\<exists>v. check_outputs M fColdStakingActive g (vout tx) 0 = Inr v) \<longleftrightarrow>
      list_all (output_ok fColdStakingActive g) (vout tx) \<and> total_out (vout tx) \<le> sint M" for g
  proof -
    have "sint (word_of_int (total_out (vout tx)) :: int64) = total_out (vout tx)"
      if "list_all (output_ok fColdStakingActive g) (vout tx)" "total_out (vout tx) \<le> sint M"
      using total_out_nonneg [OF that(1)] that(2) assms(2) by (intro sint_int64) auto
    then show ?thesis using check_outputs_iff [of 0 M fColdStakingActive g "vout tx"] assms by auto
  qed
  show ?thesis
    unfolding CheckTransaction_def size
    using outs [of "IsCoinBase tx \<or> IsCoinStake tx"] check_inputs_iff [of "vin tx" "{}"]
    by (auto simp: bind_Inr list_ex_iff split: if_splits)
qed

lemma sint_wrap64:
  "0 \<le> sint v \<Longrightarrow> 0 \<le> sint w \<Longrightarrow> 2 ^ 63 \<le> sint v + sint w \<Longrightarrow> sint (v + w) = sint v + sint w - 2 ^ 64"
  for v w :: int64
proof -
  assume a: "0 \<le> sint v" "0 \<le> sint w" "2 ^ 63 \<le> sint v + sint w"
  have e: "word_of_int (sint v + sint w - 2 ^ 64) = v + w" by simp
  have "sint (word_of_int (sint v + sint w - 2 ^ 64) :: int64) = sint v + sint w - 2 ^ 64"
    using a sint_range64 [of v] sint_range64 [of w] by (intro sint_int64) simp_all
  then show ?thesis unfolding e .
qed

lemma GetValueOut_loop_iff:
  assumes "0 \<le> sint acc"
  shows "GetValueOut_loop outs acc = Inr v \<longleftrightarrow>
    list_all (\<lambda>txout. 0 \<le> sint (nValue txout)) outs \<and> sint acc + total_out outs < 2 ^ 63
    \<and> sint v = sint acc + total_out outs"
  using assms
proof (induction outs arbitrary: acc)
  case Nil
  then show ?case
    using sint_inj64 [of v acc] sint_range64 [of acc] by (auto simp: total_out_def)
next
  case (Cons txout outs)
  let ?n = "sint (nValue txout)"
  consider "?n < 0" | "0 \<le> ?n" "sint acc + ?n < 2 ^ 63" | "0 \<le> ?n" "2 ^ 63 \<le> sint acc + ?n" by linarith
  then show ?case
  proof cases
    case 1
    then show ?thesis by simp
  next
    case 2
    then have "sint (acc + nValue txout) = sint acc + ?n" using Cons.prems by (intro sint_add64) simp_all
    then show ?thesis using 2 Cons.IH [of "acc + nValue txout"] Cons.prems by (simp add: total_out_Cons add.assoc)
  next
    case 3
    have "0 \<le> total_out outs" if "list_all (\<lambda>txout. 0 \<le> sint (nValue txout)) outs"
      using that by (induction outs) (simp_all add: total_out_def)
    moreover have "sint (acc + nValue txout) < sint acc"
      using 3 Cons.prems sint_wrap64 [of acc "nValue txout"] sint_range64 [of "nValue txout"] by simp
    ultimately show ?thesis using 3 by (auto simp: total_out_Cons)
  qed
qed

section \<open>Properties\<close>

text \<open>The bound of the main network, \<open>200000000 * COIN\<close>.\<close>

definition main_nMaxMoneyOut :: CAmount where
  "main_nMaxMoneyOut = 200000000 * COIN"

definition witness_tx :: CTransaction where
  "witness_tx = \<lparr>tx_nVersion = 1,
     vin = [\<lparr>prevout = \<lparr>out_hash = 5, out_n = 0\<rparr>, scriptSig = [1, 2], nSequence = 7\<rparr>,
            \<lparr>prevout = \<lparr>out_hash = 5, out_n = 1\<rparr>, scriptSig = [], nSequence = 9\<rparr>],
     vout = [\<lparr>nValue = 30, scriptPubKey = [0x51]\<rparr>], nLockTime = 0\<rparr>"

text \<open>
  C11: The signature hash.  \<open>CTransactionSignatureSerializer\<close> writes parts of the transaction
  as they stand and never copies it.  For every script code of less than \<open>2^32\<close> bytes that
  consists of readable operations, every input index and every hash type, the hash is the one
  of the original algorithm, which deletes the code separators, copies the transaction, blanks
  the other inputs, and drops or blanks inputs and outputs as the hash type asks.
\<close>

theorem SignatureHash_matches_original:
  assumes "length scriptCode < 2 ^ 32" "snd (script_ops scriptCode) = []"
  shows "SignatureHash c scriptCode txTo nIn nHashType = SignatureHashOld c scriptCode txTo nIn nHashType"
  by (rule SignatureHash_copy [OF assms])

theorem SignatureHash_matches_original_witness:
  "script_ops [0x76, 0xab, 0x01, 0xab] = ([[0x76], [0xab], [0x01, 0xab]], []) \<and>
   SignatureHash witness_crypto [0x76, 0xab, 0x01, 0xab] witness_tx 1 0x83 = 1 \<and>
   SignatureHash witness_crypto [0x76, 0xab, 0x01, 0xab] witness_tx 0 0x83 =
   SignatureHashOld witness_crypto [0x76, 0xab, 0x01, 0xab] witness_tx 0 0x83"
proof -
  have ops: "script_ops [0x76, 0xab, 0x01, 0xab] = ([[0x76], [0xab], [0x01, 0xab]], [])"
    by (simp add: script_ops.simps GetOp_def GetOp2_def GetOp2_operand_def Let_def)
  have "SignatureHashOld witness_crypto [0x76, 0xab, 0x01, 0xab] witness_tx 1 0x83 = 1"
    by (simp add: SignatureHashOld_def Let_def witness_tx_def)
  then show ?thesis
    using SignatureHash_matches_original [of "[0x76, 0xab, 0x01, 0xab]" witness_crypto witness_tx 1 "0x83"]
      SignatureHash_matches_original [of "[0x76, 0xab, 0x01, 0xab]" witness_crypto witness_tx 0 "0x83"] ops
    by simp
qed

text \<open>
  C10: What \<open>CheckTransaction\<close> accepts.  The bound on amounts is a parameter of the chain; it is
  not negative and below \<open>2^62\<close>, so that no sum of checked amounts wraps around.  A transaction
  is accepted exactly when it has inputs and outputs; its size (as a 32-bit number) is at most
  150000 bytes; no output is negative, empty outputs occur only in coinbase and coinstake
  transactions and cold-staking outputs only when they are active and carry at least one
  coin; the exact sum of the outputs is within the bound; no two inputs spend the same output,
  except where the earlier is a zerocoin spend; and a coinbase has a script of 2 to 150 bytes,
  while another transaction has, once zerocoin is active, no null input but zerocoin spends.
\<close>

theorem CheckTransaction_accepts:
  assumes "0 \<le> sint nMaxMoneyOut" "sint nMaxMoneyOut < 2 ^ 62"
  shows "CheckTransaction nMaxMoneyOut tx fZerocoinActive fColdStakingActive = Inr () \<longleftrightarrow>
    vin tx \<noteq> [] \<and> vout tx \<noteq> [] \<and> length (Serialize_CTransaction tx) mod 2 ^ 32 \<le> 150000
    \<and> list_all (output_ok fColdStakingActive (IsCoinBase tx \<or> IsCoinStake tx)) (vout tx)
    \<and> total_out (vout tx) \<le> sint nMaxMoneyOut
    \<and> inputs_ok (vin tx)
    \<and> (if IsCoinBase tx then length (scriptSig (vin tx ! 0)) \<in> {2..150}
       else \<forall>txin \<in> set (vin tx). COutPoint_IsNull (prevout txin) \<and> fZerocoinActive \<longrightarrow> CTxIn_IsZerocoinSpend txin)"
  by (rule CheckTransaction_iff [OF assms])

theorem CheckTransaction_accepts_witness:
  "sint main_nMaxMoneyOut = 20000000000000000 \<and> CheckTransaction main_nMaxMoneyOut witness_tx True False = Inr ()"
proof -
  have m: "sint main_nMaxMoneyOut = 20000000000000000"
    using sint_int64 [of 20000000000000000] by (simp add: main_nMaxMoneyOut_def COIN_def)
  have v: "sint (30 :: CAmount) = 30" using sint_int64 [of 30] by simp
  have "length (Serialize_CTransaction witness_tx) = 104"
    by (simp add: witness_tx_def Serialize_CTransaction_def Serialize_vector_concat Serialize_CTxIn_def
      Serialize_CTxOut_def Serialize_COutPoint_def WriteCompactSize_def)
  then show ?thesis
    using CheckTransaction_accepts [of main_nMaxMoneyOut witness_tx True False] m v
    by (simp add: witness_tx_def output_ok_def total_out_def inputs_ok_def CTxOut_IsEmpty_def IsPayToColdStaking_def
      IsCoinBase_def COutPoint_IsNull_def CTxIn_IsZerocoinSpend_def)
qed

text \<open>
  C24: A transaction has one encoding.  The reader takes a transaction exactly from the bytes
  that the writer writes for it, followed by anything, provided that no vector in it has more
  than \<open>MAX_SIZE\<close> elements, and the loops over the vectors end; \<open>GetSerializeSize\<close> counts these
  bytes modulo \<open>2^32\<close>.
\<close>

theorem CTransaction_canonical:
  "(Unserialize_CTransaction s = Some (Inr (tx, r)) \<longleftrightarrow> s = Serialize_CTransaction tx @ r \<and> tx_readable tx)
   \<and> Unserialize_CTransaction s \<noteq> None
   \<and> GetSerializeSize_CTransaction tx = word_of_nat (length (Serialize_CTransaction tx))"
proof -
  have "Unserialize_CTransaction s \<noteq> None"
    by (simp add: Unserialize_CTransaction_def Unserialize_vector_run split: sum.split)
  then show ?thesis
    using Unserialize_CTransaction_ser [of tx r] Unserialize_CTransaction_inv [of s tx r]
      GetSerializeSize_CTransaction_length [of tx] by auto
qed

text \<open>
  \<open>GetValueOut\<close> adds up exactly.  With two's complement wrap-around of signed sums, its test
  for \<open>nValueOut + nValue < nValueOut\<close> finds every overflow: it returns a value exactly when no
  output is negative and the sum of the outputs is below \<open>2^63\<close>, and the value is the sum.
\<close>

theorem GetValueOut_exact:
  "GetValueOut tx = Inr v \<longleftrightarrow>
   list_all (\<lambda>txout. sint (nValue txout) \<ge> 0) (vout tx) \<and> total_out (vout tx) < 2 ^ 63
   \<and> sint v = total_out (vout tx)"
  using GetValueOut_loop_iff [of 0 "vout tx" v] by (simp add: GetValueOut_def)

text \<open>
  The comment in \<open>CheckColdStake\<close> asks that all outputs but the first and the last pay to the
  script that is spent.  The loop that checks this runs only when there are more than three
  \<^emph>\<open>inputs\<close>: with one input, the third of four outputs may pay to any script.
\<close>

theorem CheckColdStake_skips_outputs:
  "tx_CheckColdStake \<lparr>tx_nVersion = 1,
     vin = [\<lparr>prevout = \<lparr>out_hash = 5, out_n = 0\<rparr>, scriptSig = [], nSequence = 0\<rparr>],
     vout = [\<lparr>nValue = 0, scriptPubKey = []\<rparr>, \<lparr>nValue = 1, scriptPubKey = [1]\<rparr>,
             \<lparr>nValue = 9, scriptPubKey = [2]\<rparr>, \<lparr>nValue = 3, scriptPubKey = [3]\<rparr>],
     nLockTime = 0\<rparr> [1]"
  by (simp add: tx_CheckColdStake_def IsCoinStake_def COutPoint_IsNull_def CTxOut_IsEmpty_def)

end
