(* ===== verification/Compressor.thy ===== *)
theory Compressor
  imports Transaction
begin

unbundle bit_operations_syntax

text \<open>
  The compact encoding of outputs in the coin database: \<^verbatim>\<open>src/src/compressor.h\<close>,
  \<^verbatim>\<open>src/src/compressor.cpp\<close> and the two functions of \<open>CPubKey\<close> in \<^verbatim>\<open>src/src/pubkey.cpp\<close> that it calls.

  \<^item> The vendored library libsecp256k1 is the record \<open>secp256k1\<close> of two functions: the parser
    of a public key and the writer of a parsed key in its uncompressed form.
  \<^item> A reader that assigns to a member gets the old value as an argument, because a script
    that cannot be decompressed is left as it was.

  The lemmas show that amounts below \<open>2^60\<close> and scripts of up to 10000 bytes are read back as they
  were written.
\<close>

section \<open>Public keys\<close>

record 'p secp256k1 =
  ec_pubkey_parse :: "bytes \<Rightarrow> 'p option"
  ec_pubkey_serialize :: "'p \<Rightarrow> bytes"

definition CPubKey_IsFullyValid :: "'p secp256k1 \<Rightarrow> bytes \<Rightarrow> bool" where
  "CPubKey_IsFullyValid ec key = (if \<not> CPubKey_IsValid key then False else ec_pubkey_parse ec key \<noteq> None)"

definition CPubKey_Decompress :: "'p secp256k1 \<Rightarrow> bytes \<Rightarrow> bytes option" where
  "CPubKey_Decompress ec key =
     (if \<not> CPubKey_IsValid key then None
      else case ec_pubkey_parse ec key of None \<Rightarrow> None | Some p \<Rightarrow> Some (CPubKey_Set (ec_pubkey_serialize ec p)))"

section \<open>Scripts\<close>

definition nSpecialScripts :: u32 where
  "nSpecialScripts = 6"

definition IsToKeyID :: "bytes \<Rightarrow> bytes option" where
  "IsToKeyID script =
     (if length script = 25 \<and> unat (script ! 0) = OP_DUP \<and> unat (script ! 1) = OP_HASH160 \<and> script ! 2 = 20
         \<and> unat (script ! 23) = OP_EQUALVERIFY \<and> unat (script ! 24) = OP_CHECKSIG
      then Some (take 20 (drop 3 script)) else None)"

definition IsToScriptID :: "bytes \<Rightarrow> bytes option" where
  "IsToScriptID script =
     (if length script = 23 \<and> unat (script ! 0) = OP_HASH160 \<and> script ! 1 = 20 \<and> unat (script ! 22) = OP_EQUAL
      then Some (take 20 (drop 2 script)) else None)"

definition IsToPubKey :: "'p secp256k1 \<Rightarrow> bytes \<Rightarrow> bytes option" where
  "IsToPubKey ec script =
     (if length script = 35 \<and> script ! 0 = 33 \<and> unat (script ! 34) = OP_CHECKSIG \<and> (script ! 1 = 0x02 \<or> script ! 1 = 0x03)
      then Some (CPubKey_Set (take 33 (drop 1 script)))
      else if length script = 67 \<and> script ! 0 = 65 \<and> unat (script ! 66) = OP_CHECKSIG \<and> script ! 1 = 0x04
      then (let pubkey = CPubKey_Set (take 65 (drop 1 script))
            in if CPubKey_IsFullyValid ec pubkey then Some pubkey else None)
      else None)"

definition Compress :: "'p secp256k1 \<Rightarrow> bytes \<Rightarrow> bytes option" where
  "Compress ec script =
     (case IsToKeyID script of Some keyID \<Rightarrow> Some (0x00 # keyID)
      | None \<Rightarrow> (case IsToScriptID script of Some scriptID \<Rightarrow> Some (0x01 # scriptID)
      | None \<Rightarrow> (case IsToPubKey ec script of
          Some pubkey \<Rightarrow>
            (let out = take 32 (drop 1 pubkey)
             in if pubkey ! 0 = 0x02 \<or> pubkey ! 0 = 0x03 then Some (pubkey ! 0 # out)
                else if pubkey ! 0 = 0x04 then Some ((0x04 OR (pubkey ! 64 AND 0x01)) # out)
                else None)
        | None \<Rightarrow> None)))"

definition GetSpecialSize :: "u32 \<Rightarrow> u32" where
  "GetSpecialSize nSize =
     (if nSize = 0 \<or> nSize = 1 then 20
      else if nSize = 2 \<or> nSize = 3 \<or> nSize = 4 \<or> nSize = 5 then 32
      else 0)"

text \<open>\<open>None\<close> is a failed assertion; otherwise the result and the new script.\<close>

definition Decompress :: "'p secp256k1 \<Rightarrow> u32 \<Rightarrow> bytes \<Rightarrow> bytes \<Rightarrow> (bool \<times> bytes) option" where
  "Decompress ec nSize inp script =
     (if nSize = 0x00 then
        Some (True, [word_of_nat OP_DUP, word_of_nat OP_HASH160, 20] @ take 20 inp
          @ [word_of_nat OP_EQUALVERIFY, word_of_nat OP_CHECKSIG])
      else if nSize = 0x01 then
        Some (True, [word_of_nat OP_HASH160, 20] @ take 20 inp @ [word_of_nat OP_EQUAL])
      else if nSize = 0x02 \<or> nSize = 0x03 then
        Some (True, [33, ucast nSize] @ take 32 inp @ [word_of_nat OP_CHECKSIG])
      else if nSize = 0x04 \<or> nSize = 0x05 then
        (let vch = ucast (nSize - 2) # take 32 inp
         in case CPubKey_Decompress ec (CPubKey_Set vch) of
              None \<Rightarrow> Some (False, script)
            | Some pubkey \<Rightarrow>
                if length pubkey \<noteq> 65 then None
                else Some (True, [65] @ pubkey @ [word_of_nat OP_CHECKSIG]))
      else Some (False, script))"

definition stream_ignore :: "u32 \<Rightarrow> unit reader" where
  "stream_ignore nSize s =
     (if sint nSize < 0 then Inl Negative_size
      else if unat nSize > length s then Inl End_of_data
      else Inr ((), drop (unat nSize) s))"

definition GetSerializeSize_CScriptCompressor :: "'p secp256k1 \<Rightarrow> bytes \<Rightarrow> u32" where
  "GetSerializeSize_CScriptCompressor ec script =
     (case Compress ec script of
        Some compr \<Rightarrow> word_of_nat (length compr)
      | None \<Rightarrow> word_of_nat (length script) + GetSizeOfVarInt (word_of_nat (length script) + nSpecialScripts))"

definition Serialize_CScriptCompressor :: "'p secp256k1 \<Rightarrow> bytes \<Rightarrow> bytes" where
  "Serialize_CScriptCompressor ec script =
     (case Compress ec script of
        Some compr \<Rightarrow> compr
      | None \<Rightarrow> WriteVarInt (word_of_nat (length script) + nSpecialScripts) @ script)"

definition Unserialize_CScriptCompressor :: "'p secp256k1 \<Rightarrow> bytes \<Rightarrow> bytes reader" where
  "Unserialize_CScriptCompressor ec script s =
     (case ReadVarInt s of Inl e \<Rightarrow> Inl e | Inr (nSize, s) \<Rightarrow>
        if nSize < nSpecialScripts then
          (case stream_read (unat (GetSpecialSize nSize)) s of Inl e \<Rightarrow> Inl e | Inr (vch, s) \<Rightarrow>
             case Decompress ec nSize vch script of
               None \<Rightarrow> Inl Assertion_failed
             | Some (_, script) \<Rightarrow> Inr (script, s))
        else
          let nSize = nSize - nSpecialScripts
          in if unat nSize > MAX_SCRIPT_SIZE
             then (case stream_ignore nSize s of Inl e \<Rightarrow> Inl e | Inr (_, s) \<Rightarrow> Inr (script @ [word_of_nat OP_RETURN], s))
             else stream_read (unat nSize) s)"

section \<open>Amounts\<close>

function compress_loop :: "u64 \<Rightarrow> nat \<Rightarrow> u64 \<times> nat" where
  "compress_loop n e = (if n mod 10 = 0 \<and> e < 9 then compress_loop (n div 10) (e + 1) else (n, e))"
  by pat_completeness auto
termination
  by (relation "measure (\<lambda>(n, e). 9 - e)") auto

declare compress_loop.simps [simp del]

definition CompressAmount :: "u64 \<Rightarrow> u64" where
  "CompressAmount n =
     (if n = 0 then 0
      else case compress_loop n 0 of (n, e) \<Rightarrow>
        if e < 9 then
          let d = n mod 10; n = n div 10
          in 1 + (n * 9 + d - 1) * 10 + word_of_nat e
        else 1 + (n - 1) * 10 + 9)"

text \<open>The assertion in \<open>CompressAmount\<close>: it holds for every amount.\<close>

definition compress_asserts :: "u64 \<Rightarrow> bool" where
  "compress_asserts n =
     (if n = 0 then True
      else case compress_loop n 0 of (n, e) \<Rightarrow>
        if e < 9 then let d = n mod 10 in d \<ge> 1 \<and> d \<le> 9 else True)"

fun decompress_loop :: "nat \<Rightarrow> u64 \<Rightarrow> u64" where
  "decompress_loop 0 n = n"
| "decompress_loop (Suc e) n = decompress_loop e (n * 10)"

definition DecompressAmount :: "u64 \<Rightarrow> u64" where
  "DecompressAmount x =
     (if x = 0 then 0
      else
        let x = x - 1;
            e = unat (x mod 10);
            x = x div 10;
            n = (if e < 9 then let d = x mod 9 + 1; x = x div 9 in x * 10 + d else x + 1)
        in decompress_loop e n)"

section \<open>Outputs\<close>

definition Serialize_CTxOutCompressor :: "'p secp256k1 \<Rightarrow> CTxOut \<Rightarrow> bytes" where
  "Serialize_CTxOutCompressor ec txout =
     WriteVarInt (CompressAmount (nValue txout)) @ Serialize_CScriptCompressor ec (scriptPubKey txout)"

definition Unserialize_CTxOutCompressor :: "'p secp256k1 \<Rightarrow> CTxOut \<Rightarrow> CTxOut reader" where
  "Unserialize_CTxOutCompressor ec txout s =
     (case ReadVarInt s of Inl e \<Rightarrow> Inl e | Inr (nVal, s) \<Rightarrow>
        case Unserialize_CScriptCompressor ec (scriptPubKey txout) s of Inl e \<Rightarrow> Inl e | Inr (script, s) \<Rightarrow>
          Inr (\<lparr>nValue = DecompressAmount nVal, scriptPubKey = script\<rparr>, s))"

definition GetSerializeSize_CTxOutCompressor :: "'p secp256k1 \<Rightarrow> CTxOut \<Rightarrow> u32" where
  "GetSerializeSize_CTxOutCompressor ec txout =
     GetSizeOfVarInt (CompressAmount (nValue txout)) + GetSerializeSize_CScriptCompressor ec (scriptPubKey txout)"

section \<open>Amounts as natural numbers\<close>

function strip_zeros :: "nat \<Rightarrow> nat \<Rightarrow> nat \<times> nat" where
  "strip_zeros n e = (if n mod 10 = 0 \<and> e < 9 then strip_zeros (n div 10) (e + 1) else (n, e))"
  by pat_completeness auto
termination
  by (relation "measure (\<lambda>(n, e). 9 - e)") auto

declare strip_zeros.simps [simp del]

definition compress_nat :: "nat \<Rightarrow> nat" where
  "compress_nat n =
     (if n = 0 then 0
      else case strip_zeros n 0 of (m, e) \<Rightarrow>
        if e < 9 then 1 + (m div 10 * 9 + m mod 10 - 1) * 10 + e else 1 + (m - 1) * 10 + 9)"

definition decompress_nat :: "nat \<Rightarrow> nat" where
  "decompress_nat x =
     (if x = 0 then 0
      else
        let e = (x - 1) mod 10; y = (x - 1) div 10
        in (if e < 9 then y div 9 * 10 + (y mod 9 + 1) else y + 1) * 10 ^ e)"

lemma strip_zeros_spec:
  "strip_zeros n e = (m, e') \<Longrightarrow> e \<le> 9 \<Longrightarrow>
   e \<le> e' \<and> e' \<le> 9 \<and> n = m * 10 ^ (e' - e) \<and> (e' < 9 \<longrightarrow> m mod 10 \<noteq> 0)"
proof (induction n e rule: strip_zeros.induct)
  case (1 n e)
  show ?case
  proof (cases "n mod 10 = 0 \<and> e < 9")
    case True
    with "1.prems" have "strip_zeros (n div 10) (e + 1) = (m, e')" by (subst (asm) strip_zeros.simps) simp
    with "1.IH" True have ih: "e + 1 \<le> e'" "e' \<le> 9" "n div 10 = m * 10 ^ (e' - (e + 1))" "e' < 9 \<longrightarrow> m mod 10 \<noteq> 0"
      by simp_all
    from ih(1) have "e' - e = Suc (e' - (e + 1))" by simp
    moreover have "n = n div 10 * 10" using True by (simp add: mod_0_imp_dvd)
    ultimately show ?thesis using ih by simp
  next
    case False
    with "1.prems" show ?thesis by (subst (asm) (1) strip_zeros.simps) auto
  qed
qed

lemma strip_zeros_pow:
  "e + k \<le> 9 \<Longrightarrow> n mod 10 \<noteq> 0 \<or> e + k = 9 \<Longrightarrow> strip_zeros (n * 10 ^ k) e = (n, e + k)"
  by (induction k arbitrary: e) (subst strip_zeros.simps; force)+

lemma digits10: "e < 10 \<Longrightarrow> (a * 10 + e) mod 10 = e" "e < 10 \<Longrightarrow> (a * 10 + e) div 10 = a" for a e :: nat
  by simp_all

lemma decompress_compress_nat: "decompress_nat (compress_nat n) = n"
proof (cases "n = 0")
  case False
  obtain m e where s: "strip_zeros n 0 = (m, e)" by fastforce
  note spec = strip_zeros_spec [OF s, simplified]
  have "m \<noteq> 0" using spec False by auto
  show ?thesis
  proof (cases "e < 9")
    case True
    define q d where "q = m div 10" and "d = m mod 10 - 1"
    have m: "m = 10 * q + (d + 1)" "d < 9" "m mod 10 = d + 1" using spec True by (auto simp: q_def d_def)
    define x where "x = compress_nat n"
    have "x \<noteq> 0" and one: "x - 1 = (9 * q + d) * 10 + e"
      using s True False m(3) by (simp_all add: x_def compress_nat_def q_def)
    have "e < 10" using True by simp
    from digits10 [OF this, of "9 * q + d"] have x: "(x - 1) mod 10 = e" "(x - 1) div 10 = 9 * q + d"
      unfolding one .
    have "(9 * q + d) div 9 = q" "(9 * q + d) mod 9 = d" using m(2) by simp_all
    then show ?thesis
      using True spec m(1) unfolding x_def [symmetric] decompress_nat_def x Let_def by (simp add: \<open>x \<noteq> 0\<close>)
  next
    case e: False
    then have "e = 9" using spec by simp
    have "compress_nat n = 1 + ((m - 1) * 10 + 9)" using s \<open>e = 9\<close> False by (simp add: compress_nat_def)
    then show ?thesis using \<open>m \<noteq> 0\<close> spec \<open>e = 9\<close> by (simp add: decompress_nat_def Let_def)
  qed
qed (simp add: compress_nat_def decompress_nat_def)

lemma compress_decompress_nat: "compress_nat (decompress_nat x) = x"
proof (cases "x = 0")
  case False
  define e y where "e = (x - 1) mod 10" and "y = (x - 1) div 10"
  have x: "x = 1 + y * 10 + e" "e \<le> 9" using False by (simp_all add: e_def y_def)
  have dec: "decompress_nat x = (if e < 9 then y div 9 * 10 + (y mod 9 + 1) else y + 1) * 10 ^ e"
    using False unfolding decompress_nat_def e_def y_def Let_def by simp
  show ?thesis
  proof (cases "e < 9")
    case True
    define n where "n = y div 9 * 10 + (y mod 9 + 1)"
    have "y mod 9 + 1 < 10" by simp
    then have n: "n mod 10 = y mod 9 + 1" "n div 10 = y div 9" "n \<noteq> 0"
      using digits10 [of "y mod 9 + 1" "y div 9"] by (simp_all only: n_def)
    have "decompress_nat x = n * 10 ^ e" using True dec by (simp only: if_True n_def)
    moreover have "strip_zeros (n * 10 ^ e) 0 = (n, e)" using strip_zeros_pow [of 0 e n] True n by simp
    ultimately have "compress_nat (decompress_nat x) = 1 + (n div 10 * 9 + n mod 10 - 1) * 10 + e"
      using True n(3) by (simp add: compress_nat_def)
    also have "n div 10 * 9 + n mod 10 - 1 = y" unfolding n by simp
    finally show ?thesis using x(1) by simp
  next
    case e: False
    then have "e = 9" using x by simp
    then have "decompress_nat x = (y + 1) * 10 ^ 9" using dec by (simp only: if_False less_irrefl)
    moreover have "strip_zeros ((y + 1) * 10 ^ 9) 0 = (y + 1, 9)" using strip_zeros_pow [of 0 9 "y + 1"] by simp
    ultimately have "compress_nat (decompress_nat x) = 1 + (y + 1 - 1) * 10 + 9" by (simp add: compress_nat_def)
    then show ?thesis using x(1) \<open>e = 9\<close> by simp
  qed
qed (simp add: compress_nat_def decompress_nat_def)

lemma compress_nat_le: "compress_nat n \<le> 9 * n + 10"
proof (cases "n = 0")
  case False
  obtain m e where s: "strip_zeros n 0 = (m, e)" by fastforce
  note spec = strip_zeros_spec [OF s, simplified]
  have "m \<noteq> 0" using spec False by auto
  have "m \<le> n" using spec by simp
  have m: "m = m div 10 * 10 + m mod 10" "m mod 10 < 10" by simp_all
  show ?thesis
  proof (cases "e < 9")
    case True
    then have "1 \<le> m mod 10" using spec by simp
    moreover have "compress_nat n = 1 + (m div 10 * 9 + m mod 10 - 1) * 10 + e"
      using True s False by (simp add: compress_nat_def)
    ultimately show ?thesis using m \<open>m \<le> n\<close> True by linarith
  next
    case e: False
    then have "compress_nat n = 1 + (m - 1) * 10 + 9" using s False by (simp add: compress_nat_def)
    moreover have "e = 9" using e spec by simp
    then have "10 * m \<le> n" using spec by simp
    ultimately show ?thesis using \<open>m \<noteq> 0\<close> by linarith
  qed
qed (simp add: compress_nat_def)

section \<open>Amounts as machine words\<close>

lemma word_mod_div_64:
  assumes "n < 2 ^ 64" "k < 2 ^ 64"
  shows "(word_of_nat n :: u64) mod word_of_nat k = word_of_nat (n mod k)"
    "(word_of_nat n :: u64) div word_of_nat k = word_of_nat (n div k)"
proof -
  have u: "unat (word_of_nat n :: u64) = n" "unat (word_of_nat k :: u64) = k"
    using assms by (simp_all add: unat_of_nat)
  have "n mod k < 2 ^ 64" "n div k < 2 ^ 64"
    using assms mod_less_eq_dividend [of n k] div_le_dividend [of n k] by linarith+
  then show "(word_of_nat n :: u64) mod word_of_nat k = word_of_nat (n mod k)"
    "(word_of_nat n :: u64) div word_of_nat k = word_of_nat (n div k)"
    by (simp_all only: word_unat_eq_iff unat_mod unat_div u) (simp_all add: unat_of_nat)
qed

lemma word_mod_div_10:
  assumes "n < 2 ^ 64"
  shows "(word_of_nat n :: u64) mod 10 = word_of_nat (n mod 10)" "(word_of_nat n :: u64) div 10 = word_of_nat (n div 10)"
    "(word_of_nat n :: u64) mod 9 = word_of_nat (n mod 9)" "(word_of_nat n :: u64) div 9 = word_of_nat (n div 9)"
  using word_mod_div_64 [OF assms, of 10] word_mod_div_64 [OF assms, of 9] by simp_all

lemma word_nat_0: "n < 2 ^ 64 \<Longrightarrow> (word_of_nat n :: u64) = 0 \<longleftrightarrow> n = 0"
  by (simp add: word_unat_eq_iff unat_of_nat)

lemma compress_loop_nat:
  "n < 2 ^ 64 \<Longrightarrow> compress_loop (word_of_nat n) e = (case strip_zeros n e of (m, e) \<Rightarrow> (word_of_nat m, e))"
proof (induction n e rule: strip_zeros.induct)
  case (1 n e)
  have z: "(word_of_nat n :: u64) mod 10 = 0 \<longleftrightarrow> n mod 10 = 0"
    using word_mod_div_10 [of n] word_nat_0 [of "n mod 10"] "1.prems" by simp
  show ?case
  proof (cases "n mod 10 = 0 \<and> e < 9")
    case True
    moreover have "n div 10 < 2 ^ 64" using "1.prems" by simp
    ultimately show ?thesis
      using 1 z word_mod_div_10 [of n] by (subst compress_loop.simps, subst strip_zeros.simps) simp
  next
    case False
    then have "compress_loop (word_of_nat n) e = (word_of_nat n, e)" "strip_zeros n e = (n, e)"
      using z by (subst compress_loop.simps strip_zeros.simps; auto)+
    then show ?thesis by simp
  qed
qed

lemma strip_zeros_le: "strip_zeros n 0 = (m, e) \<Longrightarrow> m \<le> n"
  using strip_zeros_spec [of n 0 m e] by simp

lemma CompressAmount_nat:
  assumes n: "n < 2 ^ 64"
  shows "CompressAmount (word_of_nat n) = word_of_nat (compress_nat n)"
proof (cases "n = 0")
  case False
  obtain m e where s: "strip_zeros n 0 = (m, e)" by fastforce
  note spec = strip_zeros_spec [OF s, simplified]
  have m: "m < 2 ^ 64" using strip_zeros_le [OF s] n by simp
  have loop: "compress_loop (word_of_nat n) 0 = (word_of_nat m, e)" "(word_of_nat n :: u64) \<noteq> 0"
    using compress_loop_nat [OF n, of 0] s False word_nat_0 [OF n] by simp_all
  show ?thesis
  proof (cases "e < 9")
    case True
    then have "m mod 10 \<noteq> 0" using spec by simp
    then have "(word_of_nat (m div 10) * 9 + word_of_nat (m mod 10) - 1 :: u64) = word_of_nat (m div 10 * 9 + m mod 10 - 1)"
      by (simp add: of_nat_diff)
    then have "CompressAmount (word_of_nat n) = 1 + word_of_nat (m div 10 * 9 + m mod 10 - 1) * 10 + word_of_nat e"
      using True by (simp only: CompressAmount_def loop if_False if_True split Let_def word_mod_div_10 [OF m])
    also have "\<dots> = word_of_nat (compress_nat n)" using False True s by (simp add: compress_nat_def)
    finally show ?thesis .
  next
    case e: False
    have "m \<noteq> 0" using False spec by auto
    then have "(word_of_nat m - 1 :: u64) = word_of_nat (m - 1)" by (simp add: of_nat_diff)
    then have "CompressAmount (word_of_nat n) = 1 + word_of_nat (m - 1) * 10 + 9"
      using e by (simp only: CompressAmount_def loop if_False split Let_def)
    also have "\<dots> = word_of_nat (compress_nat n)" using False e s by (simp add: compress_nat_def)
    finally show ?thesis .
  qed
qed (simp add: CompressAmount_def compress_nat_def)

lemma decompress_loop_nat: "decompress_loop e (word_of_nat n) = word_of_nat (n * 10 ^ e)"
proof (induction e arbitrary: n)
  case (Suc e)
  have "decompress_loop (Suc e) (word_of_nat n) = decompress_loop e (word_of_nat (n * 10))" by simp
  then show ?case using Suc.IH [of "n * 10"] by (simp only: power_Suc mult.assoc)
qed simp

lemma DecompressAmount_nat: "x < 2 ^ 64 \<Longrightarrow> DecompressAmount (word_of_nat x) = word_of_nat (decompress_nat x)"
proof (cases "x = 0")
  case False
  assume x: "x < 2 ^ 64"
  have "(word_of_nat x :: u64) \<noteq> 0" using False word_nat_0 [OF x] by simp
  have one: "(word_of_nat x - 1 :: u64) = word_of_nat (x - 1)" using False by (simp add: of_nat_diff)
  have "x - 1 < 2 ^ 64" "(x - 1) div 10 < 2 ^ 64" using x by simp_all
  note w = word_mod_div_10(1,2) [OF this(1)] word_mod_div_10(3,4) [OF this(2)]
  have "unat (word_of_nat ((x - 1) mod 10) :: u64) = (x - 1) mod 10" by (simp add: unat_of_nat)
  moreover have "(word_of_nat (y mod 9) + 1 :: u64) = word_of_nat (y mod 9 + 1)" for y by simp
  ultimately have "DecompressAmount (word_of_nat x) = decompress_loop ((x - 1) mod 10)
      (word_of_nat (if (x - 1) mod 10 < 9 then (x - 1) div 10 div 9 * 10 + ((x - 1) div 10 mod 9 + 1) else (x - 1) div 10 + 1))"
    using \<open>word_of_nat x \<noteq> 0\<close> unfolding DecompressAmount_def one w Let_def by (simp add: ac_simps)
  also have "\<dots> = word_of_nat (decompress_nat x)"
    unfolding decompress_loop_nat using False by (simp add: decompress_nat_def Let_def)
  finally show ?thesis .
qed (simp add: DecompressAmount_def decompress_nat_def)

lemma Decompress_CompressAmount: "n < 2 ^ 60 \<Longrightarrow> DecompressAmount (CompressAmount n) = n"
proof -
  assume "n < 2 ^ 60"
  then have n: "unat n < 2 ^ 60" by (simp add: word_less_nat_alt)
  then have "compress_nat (unat n) < 2 ^ 64" using compress_nat_le [of "unat n"] by simp
  then show ?thesis
    using n CompressAmount_nat [of "unat n"] DecompressAmount_nat decompress_compress_nat [of "unat n"] by simp
qed

section \<open>Scripts\<close>

text \<open>
  What compression relies on: a key that parses in its uncompressed form is written back in
  that form, and its compressed form (the x coordinate behind the parity of y) parses to it.
\<close>

definition ec_recovers :: "'p secp256k1 \<Rightarrow> bool" where
  "ec_recovers ec \<longleftrightarrow>
     (\<forall>key p. length key = 65 \<and> key ! 0 = 4 \<and> ec_pubkey_parse ec key = Some p \<longrightarrow>
        ec_pubkey_serialize ec p = key
        \<and> ec_pubkey_parse ec ((2 + (key ! 64 AND 1)) # take 32 (drop 1 key)) = Some p)"

lemma split_script:
  assumes "length script = a + n + b"
  shows "script = take a script @ take n (drop a script) @ drop (a + n) script"
    "length (drop (a + n) script) = b" "length (take a script) = a"
proof -
  have "drop a script = take n (drop a script) @ drop (a + n) script"
    by (metis append_take_drop_id drop_drop add.commute)
  then show "script = take a script @ take n (drop a script) @ drop (a + n) script"
    by (metis append_take_drop_id)
qed (use assms in simp_all)

lemma byte_of_unat: "unat (b :: byte) = n \<longleftrightarrow> b = word_of_nat n" if "n < 256"
  using that by (auto simp: unat_of_nat)

lemma IsToKeyID_inv:
  "IsToKeyID script = Some keyID \<Longrightarrow> length keyID = 20 \<and> script = [0x76, 0xa9, 20] @ keyID @ [0x88, 0xac]"
proof -
  assume a: "IsToKeyID script = Some keyID"
  then have l: "length script = 3 + 20 + 2" and k: "keyID = take 20 (drop 3 script)"
    and b: "script ! 0 = 0x76" "script ! 1 = 0xa9" "script ! 2 = 20" "script ! 23 = 0x88" "script ! 24 = 0xac"
    by (auto simp: IsToKeyID_def byte_of_unat split: if_splits)
  have "take 3 script = [0x76, 0xa9, 20]" using l b
    by (intro nth_equalityI) (auto simp: less_Suc_eq numeral_eq_Suc)
  moreover have "drop 23 script = [0x88, 0xac]" using l b
    by (intro nth_equalityI) (auto simp: less_Suc_eq numeral_eq_Suc)
  ultimately show ?thesis using split_script(1) [OF l] l k by simp
qed

lemma IsToScriptID_inv:
  "IsToScriptID script = Some scriptID \<Longrightarrow> length scriptID = 20 \<and> script = [0xa9, 20] @ scriptID @ [0x87]"
proof -
  assume a: "IsToScriptID script = Some scriptID"
  then have l: "length script = 2 + 20 + 1" and k: "scriptID = take 20 (drop 2 script)"
    and b: "script ! 0 = 0xa9" "script ! 1 = 20" "script ! 22 = 0x87"
    by (auto simp: IsToScriptID_def byte_of_unat split: if_splits)
  have "take 2 script = [0xa9, 20]" using l b by (intro nth_equalityI) (auto simp: less_Suc_eq numeral_eq_Suc)
  moreover have "drop 22 script = [0x87]" using l b by (intro nth_equalityI) (auto simp: less_Suc_eq numeral_eq_Suc)
  ultimately show ?thesis using split_script(1) [OF l] l k by simp
qed

lemma CPubKey_Set_id:
  "length k = 33 \<Longrightarrow> k ! 0 = 2 \<or> k ! 0 = 3 \<Longrightarrow> CPubKey_Set k = k"
  "length k = 65 \<Longrightarrow> k ! 0 = 4 \<Longrightarrow> CPubKey_Set k = k"
  by (auto simp: CPubKey_Set_def GetLen_def COMPRESSED_PUBLIC_KEY_SIZE_def PUBLIC_KEY_SIZE_def Let_def)

lemma IsToPubKey_inv:
  assumes "IsToPubKey ec script = Some key"
  shows "length key = 33 \<and> (key ! 0 = 2 \<or> key ! 0 = 3) \<and> script = [33] @ key @ [0xac]
    \<or> length key = 65 \<and> key ! 0 = 4 \<and> ec_pubkey_parse ec key \<noteq> None \<and> script = [65] @ key @ [0xac]"
proof -
  have shape: "script = [c] @ take n (drop 1 script) @ [0xac]"
    if "length script = 1 + n + 1" "script ! 0 = c" "script ! (1 + n) = 0xac" for n c
  proof -
    have "take 1 script = [c]" "drop (1 + n) script = [0xac]"
      using that by (auto intro!: nth_equalityI)
    then show ?thesis using split_script(1) [OF that(1)] by simp
  qed
  consider "length script = 1 + 33 + 1" "script ! 0 = 33" "script ! (1 + 33) = 0xac" "script ! 1 = 2 \<or> script ! 1 = 3"
      "key = CPubKey_Set (take 33 (drop 1 script))"
    | "length script = 1 + 65 + 1" "script ! 0 = 65" "script ! (1 + 65) = 0xac" "script ! 1 = 4"
      "key = CPubKey_Set (take 65 (drop 1 script))" "CPubKey_IsFullyValid ec key"
    using assms by (auto simp: IsToPubKey_def Let_def byte_of_unat split: if_splits)
  then show ?thesis
  proof cases
    case 1
    then have "key = take 33 (drop 1 script)" by (simp add: CPubKey_Set_id)
    then show ?thesis using shape [OF 1(1-3)] 1 by simp
  next
    case 2
    then have "key = take 65 (drop 1 script)" by (simp add: CPubKey_Set_id)
    then show ?thesis
      using shape [OF 2(1-3)] 2 by (simp add: CPubKey_IsFullyValid_def split: if_splits)
  qed
qed

lemma ReadVarInt_special:
  assumes "b \<in> {0, 1, 2, 3, 4, 5 :: byte}"
  shows "ReadVarInt (b # s) = Inr (ucast b :: u32, s)"
proof -
  have "ReadVarInt (x # s) = Inr (ucast x :: u32, s)" if "x AND 0x80 = 0" "x AND 0x7F = x" for x
    using that by (simp add: ReadVarInt_def Let_def)
  then show ?thesis using assms by auto
qed

lemma and_1_cases: "b AND 1 = 0 \<or> b AND 1 = 1" for b :: byte
  by (simp add: and_one_eq mod_2_eq_odd)

lemma Unserialize_special:
  assumes "b \<in> {0, 1, 2, 3, 4, 5 :: byte}" "length v = unat (GetSpecialSize (ucast b))"
    "Decompress ec (ucast b) v script0 = Some (True, script)"
  shows "Unserialize_CScriptCompressor ec script0 ((b # v) @ r) = Inr (script, r)"
proof -
  have "(ucast b :: u32) < nSpecialScripts" using assms(1) by (auto simp: nSpecialScripts_def)
  then show ?thesis
    using ReadVarInt_special [OF assms(1), of "v @ r"] assms(2,3) stream_read_append [of v r]
    by (simp add: Unserialize_CScriptCompressor_def)
qed

lemma Unserialize_compressed:
  assumes "Compress ec script = Some compr" "ec_recovers ec"
  shows "Unserialize_CScriptCompressor ec script0 (compr @ r) = Inr (script, r)"
proof -
  note defs = GetSpecialSize_def Decompress_def
  consider keyID where "IsToKeyID script = Some keyID" "compr = 0 # keyID"
    | scriptID where "IsToScriptID script = Some scriptID" "compr = 1 # scriptID"
    | key where "IsToPubKey ec script = Some key" "key ! 0 = 2 \<or> key ! 0 = 3" "compr = key ! 0 # take 32 (drop 1 key)"
    | key where "IsToPubKey ec script = Some key" "key ! 0 = 4" "compr = (4 OR (key ! 64 AND 1)) # take 32 (drop 1 key)"
    using assms(1) by (auto simp: Compress_def Let_def split: option.splits if_splits)
  then show ?thesis
  proof cases
    case 1
    with IsToKeyID_inv [OF 1(1)] show ?thesis
      unfolding 1(2) by (intro Unserialize_special) (simp_all add: defs)
  next
    case 2
    with IsToScriptID_inv [OF 2(1)] show ?thesis
      unfolding 2(2) by (intro Unserialize_special) (simp_all add: defs)
  next
    case 3
    then have k: "length key = 33" "script = [33] @ key @ [0xac]" using IsToPubKey_inv [OF 3(1)] by auto
    then have "key = key ! 0 # take 32 (drop 1 key)" by (cases key) simp_all
    then show ?thesis
      unfolding 3(3) using 3(2) k by (intro Unserialize_special) (auto simp: defs)
  next
    case 4
    then obtain p where k: "length key = 65" "script = [65] @ key @ [0xac]" "ec_pubkey_parse ec key = Some p"
      using IsToPubKey_inv [OF 4(1)] by auto
    define c where "c = (2 + (key ! 64 AND 1)) # take 32 (drop 1 key)"
    have p: "ec_pubkey_serialize ec p = key" "ec_pubkey_parse ec c = Some p"
      using assms(2) k(1,3) 4(2) by (simp_all add: ec_recovers_def c_def)
    have "key ! 64 AND 1 = 0 \<or> key ! 64 AND 1 = 1" by (rule and_1_cases)
    moreover from this have "CPubKey_Set c = c" using k(1) by (intro CPubKey_Set_id) (auto simp: c_def)
    then have "CPubKey_Decompress ec (CPubKey_Set c) = Some key"
      using p k(1) 4(2) by (simp add: CPubKey_Decompress_def CPubKey_IsValid_def c_def CPubKey_Set_id)
    ultimately show ?thesis
      unfolding 4(3) using k by (intro Unserialize_special) (auto simp: defs c_def Let_def)
  qed
qed

lemma length_script_word:
  assumes "length script \<le> 10000"
  shows "unat (word_of_nat (length script) + nSpecialScripts) = length script + 6"
proof -
  have "unat (word_of_nat (length script + 6) :: u32) = length script + 6"
    using assms by (simp only: unat_of_nat) simp
  then show ?thesis by (simp add: nSpecialScripts_def)
qed

lemma Unserialize_CScriptCompressor_ser:
  assumes "length script \<le> MAX_SCRIPT_SIZE" "ec_recovers ec"
  shows "Unserialize_CScriptCompressor ec script0 (Serialize_CScriptCompressor ec script @ r) = Inr (script, r)"
proof (cases "Compress ec script")
  case None
  let ?n = "word_of_nat (length script) + nSpecialScripts"
  have n: "unat ?n = length script + 6"
    using assms(1) by (intro length_script_word) (simp add: MAX_SCRIPT_SIZE_def)
  have "\<not> ?n < nSpecialScripts" "unat (?n - nSpecialScripts) = length script"
    using n assms(1) by (simp_all add: word_less_nat_alt nSpecialScripts_def MAX_SCRIPT_SIZE_def unat_of_nat)
  then show ?thesis
    using None assms(1) stream_read_append [of script r]
    by (simp add: Unserialize_CScriptCompressor_def Serialize_CScriptCompressor_def varint32.unser_ser)
next
  case (Some compr)
  then show ?thesis
    using Unserialize_compressed [OF Some assms(2)] by (simp add: Serialize_CScriptCompressor_def)
qed

lemma Unserialize_CTxOutCompressor_ser:
  assumes "nValue txout < 2 ^ 60" "length (scriptPubKey txout) \<le> MAX_SCRIPT_SIZE" "ec_recovers ec"
  shows "Unserialize_CTxOutCompressor ec txout0 (Serialize_CTxOutCompressor ec txout @ r) = Inr (txout, r)"
  using assms
  by (simp add: Unserialize_CTxOutCompressor_def Serialize_CTxOutCompressor_def varint64.unser_ser
    Unserialize_CScriptCompressor_ser Decompress_CompressAmount)

lemma GetSerializeSize_CTxOutCompressor_length:
  "GetSerializeSize_CTxOutCompressor ec txout = word_of_nat (length (Serialize_CTxOutCompressor ec txout))"
  by (simp add: GetSerializeSize_CTxOutCompressor_def Serialize_CTxOutCompressor_def varint64.size_ser varint32.size_ser
    GetSerializeSize_CScriptCompressor_def Serialize_CScriptCompressor_def add.commute split: option.split)

lemma compress_asserts_hold: "compress_asserts n"
proof (cases "n = 0")
  case False
  obtain m e where s: "strip_zeros (unat n) 0 = (m, e)" by fastforce
  note spec = strip_zeros_spec [OF s, simplified]
  have m: "m < 2 ^ 64" using strip_zeros_le [OF s] unsigned_less [of n, where ?'a = nat] by simp
  have loop: "compress_loop n 0 = (word_of_nat m, e)" using compress_loop_nat [of "unat n" 0] s unsigned_less [of n, where ?'a = nat] by simp
  have "unat (word_of_nat (m mod 10) :: u64) = m mod 10" by (simp add: unat_of_nat)
  then have "1 \<le> (word_of_nat m mod 10 :: u64) \<and> (word_of_nat m mod 10 :: u64) \<le> 9" if "e < 9"
    using that spec by (simp only: word_mod_div_10 [OF m] word_le_nat_alt) simp
  then show ?thesis using False by (simp add: compress_asserts_def loop Let_def)
qed (simp add: compress_asserts_def)

end
