(* ===== verification/Coins.thy ===== *)
theory Coins
  imports Compressor
begin

unbundle bit_operations_syntax

text \<open>
  \<open>CCoins\<close>, the unspent outputs of one transaction (\<^verbatim>\<open>src/src/coins.h\<close>, \<^verbatim>\<open>src/src/coins.cpp\<close>), its encoding in
  the coin database, and the undo data of an input (\<^verbatim>\<open>src/src/undo.h\<close>) with the part of
  \<open>DisconnectBlock\<close> (\<^verbatim>\<open>src/src/main.cpp\<close>) that puts a spent output back.

  \<^item> \<open>int\<close> members are 32-bit words that are compared by their signed value.
  \<^item> A failed assertion is the result \<open>None\<close>, or the error \<open>Assertion_failed\<close> of a reader.
  \<^item> \<open>VARINT\<close> on an \<open>int\<close> compares the signed value, so that it has functions of its own.

  The lemmas show that coins are read back from the database as they were written, what
  \<open>GetSerializeSize\<close> gets wrong, and that undoing a spend restores the coins, except for the
  coinstake flag.
\<close>

section \<open>Variable-length encoding of \<open>int\<close>\<close>

type_synonym int32 = "32 word"

lemma sint_int32: "- (2 ^ 31) \<le> i \<Longrightarrow> i < 2 ^ 31 \<Longrightarrow> sint (word_of_int i :: int32) = i"
  by (simp add: signed_of_int signed_take_bit_int_eq_self)

lemma sint_range32: "- (2 ^ 31) \<le> sint v \<and> sint v < 2 ^ 31" for v :: int32
  using sint_ge [of v] sint_lt [of v] by simp

lemma uint_nonneg32: "0 \<le> sint v \<Longrightarrow> uint v = sint v" for v :: int32
proof -
  assume "0 \<le> sint v"
  then have "uint (word_of_int (sint v) :: int32) = sint v"
    using sint_range32 [of v] by (simp only: unsigned_of_int) (simp add: take_bit_int_eq_self)
  then show ?thesis by simp
qed

lemma signed_varint_step:
  fixes n :: int32
  assumes "\<not> sint n \<le> 0x7F"
  shows "sint (signed_drop_bit 7 n - 1) = sint n div 128 - 1"
proof -
  have "sint (signed_drop_bit 7 n) = sint n div 128"
    by (simp add: sint_signed_drop_bit_eq drop_bit_eq_div)
  moreover have "signed_drop_bit 7 n - 1 = word_of_int (sint (signed_drop_bit 7 n) - 1)" by simp
  ultimately have "signed_drop_bit 7 n - 1 = word_of_int (sint n div 128 - 1)" by (simp only:)
  moreover have "1 \<le> sint n div 128" "sint n div 128 \<le> sint n" using assms by presburger+
  ultimately show ?thesis using sint_range32 [of n] sint_int32 [of "sint n div 128 - 1"] by simp
qed

function GetSizeOfVarInt_int_loop :: "int32 \<Rightarrow> u32 \<Rightarrow> u32" where
  "GetSizeOfVarInt_int_loop n nRet =
     (let nRet = nRet + 1
      in if sint n \<le> 0x7F then nRet else GetSizeOfVarInt_int_loop (signed_drop_bit 7 n - 1) nRet)"
  by pat_completeness auto
termination
  by (relation "measure (\<lambda>(n, _). nat (sint n))") (simp_all add: signed_varint_step)

declare GetSizeOfVarInt_int_loop.simps [simp del]

definition GetSizeOfVarInt_int :: "int32 \<Rightarrow> u32" where
  "GetSizeOfVarInt_int n = GetSizeOfVarInt_int_loop n 0"

function WriteVarInt_int_loop :: "int32 \<Rightarrow> bytes \<Rightarrow> bytes" where
  "WriteVarInt_int_loop n tmp =
     (let tmp = tmp @ [ucast (n AND 0x7F) OR (if tmp \<noteq> [] then 0x80 else 0x00)]
      in if sint n \<le> 0x7F then tmp else WriteVarInt_int_loop (signed_drop_bit 7 n - 1) tmp)"
  by pat_completeness auto
termination
  by (relation "measure (\<lambda>(n, _). nat (sint n))") (simp_all add: signed_varint_step)

declare WriteVarInt_int_loop.simps [simp del]

definition WriteVarInt_int :: "int32 \<Rightarrow> bytes" where
  "WriteVarInt_int n = rev (WriteVarInt_int_loop n [])"

lemma signed_varint_unsigned:
  fixes n :: int32
  assumes "0 \<le> sint n"
  shows "n \<le> 0x7F \<longleftrightarrow> sint n \<le> 0x7F" "signed_drop_bit 7 n = drop_bit 7 n"
proof -
  show "n \<le> 0x7F \<longleftrightarrow> sint n \<le> 0x7F" using uint_nonneg32 [OF assms] by (simp add: word_le_def)
  have s: "sint (signed_drop_bit 7 n) = sint n div 128" by (simp add: sint_signed_drop_bit_eq drop_bit_eq_div)
  then have "uint (signed_drop_bit 7 n) = uint n div 128"
    using uint_nonneg32 [of "signed_drop_bit 7 n"] uint_nonneg32 [OF assms] assms by simp
  also have "\<dots> = uint (drop_bit 7 n)"
    by (simp only: uint_nat unat_drop_bit_eq) (simp add: drop_bit_eq_div zdiv_int)
  finally show "signed_drop_bit 7 n = drop_bit 7 n" by (rule unsigned_word_eqI)
qed

lemma WriteVarInt_int_loop_unsigned: "0 \<le> sint n \<Longrightarrow> WriteVarInt_int_loop n tmp = WriteVarInt_loop n tmp"
proof (induction n tmp rule: WriteVarInt_int_loop.induct)
  case (1 n tmp)
  show ?case
  proof (cases "sint n \<le> 0x7F")
    case True
    then show ?thesis
      using signed_varint_unsigned [OF "1.prems"] by (subst WriteVarInt_int_loop.simps, subst WriteVarInt_loop.simps) simp
  next
    case False
    then have "0 \<le> sint (signed_drop_bit 7 n - 1)" by (simp add: signed_varint_step)
    then show ?thesis
      using "1.IH" False signed_varint_unsigned [OF "1.prems"]
      by (subst WriteVarInt_int_loop.simps, subst WriteVarInt_loop.simps) (simp add: Let_def)
  qed
qed

lemma WriteVarInt_int_unsigned: "0 \<le> sint n \<Longrightarrow> WriteVarInt_int n = WriteVarInt n"
  by (simp add: WriteVarInt_int_def WriteVarInt_def WriteVarInt_int_loop_unsigned)

section \<open>Coins\<close>

record CCoins =
  fCoinBase :: bool
  fCoinStake :: bool
  coins_vout :: "CTxOut list"
  coins_nHeight :: int32
  coins_nVersion :: int32

definition CTxOut_IsNull :: "CTxOut \<Rightarrow> bool" where
  "CTxOut_IsNull txout \<longleftrightarrow> nValue txout = - 1"

definition CCoins_Clear :: CCoins where
  "CCoins_Clear = \<lparr>fCoinBase = False, fCoinStake = False, coins_vout = [], coins_nHeight = 0, coins_nVersion = 0\<rparr>"

function Cleanup_loop :: "CTxOut list \<Rightarrow> CTxOut list" where
  "Cleanup_loop outs = (if outs \<noteq> [] \<and> CTxOut_IsNull (last outs) then Cleanup_loop (butlast outs) else outs)"
  by pat_completeness auto
termination
  by (relation "measure length") auto

declare Cleanup_loop.simps [simp del]

definition Cleanup :: "CCoins \<Rightarrow> CCoins" where
  "Cleanup coins = coins\<lparr>coins_vout := Cleanup_loop (coins_vout coins)\<rparr>"

definition ClearUnspendable :: "CCoins \<Rightarrow> CCoins" where
  "ClearUnspendable coins =
     Cleanup (coins\<lparr>coins_vout :=
       map (\<lambda>txout. if IsUnspendable (scriptPubKey txout) then CTxOut_SetNull else txout) (coins_vout coins)\<rparr>)"

definition FromTx :: "CTransaction \<Rightarrow> int32 \<Rightarrow> CCoins" where
  "FromTx tx nHeightIn =
     ClearUnspendable \<lparr>fCoinBase = IsCoinBase tx, fCoinStake = IsCoinStake tx, coins_vout = vout tx,
       coins_nHeight = nHeightIn, coins_nVersion = tx_nVersion tx\<rparr>"

definition IsPruned :: "CCoins \<Rightarrow> bool" where
  "IsPruned coins = list_all CTxOut_IsNull (coins_vout coins)"

definition coins_eq :: "CCoins \<Rightarrow> CCoins \<Rightarrow> bool" where
  "coins_eq a b =
     (if IsPruned a \<and> IsPruned b then True
      else fCoinBase a = fCoinBase b \<and> fCoinStake a = fCoinStake b \<and> coins_nHeight a = coins_nHeight b
        \<and> coins_nVersion a = coins_nVersion b \<and> coins_vout a = coins_vout b)"

definition IsAvailable :: "CCoins \<Rightarrow> u32 \<Rightarrow> bool" where
  "IsAvailable coins nPos \<longleftrightarrow>
     unat nPos < length (coins_vout coins) \<and> \<not> CTxOut_IsNull (coins_vout coins ! unat nPos)
     \<and> \<not> CTxOut_IsZerocoinMint (coins_vout coins ! unat nPos)"

section \<open>Spending and its undo data\<close>

record CTxInUndo =
  undo_txout :: CTxOut
  undo_fCoinBase :: bool
  undo_fCoinStake :: bool
  undo_nHeight :: u32
  undo_nVersion :: int32

text \<open>The constructor from an output, with the default arguments.\<close>

definition new_CTxInUndo :: "CTxOut \<Rightarrow> CTxInUndo" where
  "new_CTxInUndo txout =
     \<lparr>undo_txout = txout, undo_fCoinBase = False, undo_fCoinStake = False, undo_nHeight = 0, undo_nVersion = 0\<rparr>"

text \<open>\<open>Spend\<close> returns \<open>None\<close> for false, where it changes nothing.\<close>

definition Spend :: "CCoins \<Rightarrow> COutPoint \<Rightarrow> (CTxInUndo \<times> CCoins) option" where
  "Spend coins out =
     (if unat (out_n out) \<ge> length (coins_vout coins) then None
      else if CTxOut_IsNull (coins_vout coins ! unat (out_n out)) then None
      else
        let undo = new_CTxInUndo (coins_vout coins ! unat (out_n out));
            coins = Cleanup (coins\<lparr>coins_vout := (coins_vout coins)[unat (out_n out) := CTxOut_SetNull]\<rparr>);
            undo = (if length (coins_vout coins) = 0
                    then undo\<lparr>undo_nHeight := coins_nHeight coins, undo_fCoinBase := fCoinBase coins,
                              undo_fCoinStake := fCoinStake coins, undo_nVersion := coins_nVersion coins\<rparr>
                    else undo)
        in Some (undo, coins))"

definition Spend_pos :: "CCoins \<Rightarrow> int32 \<Rightarrow> (CTxInUndo \<times> CCoins) option" where
  "Spend_pos coins nPos = Spend coins \<lparr>out_hash = 0, out_n = nPos\<rparr>"

text \<open>
  The step of \<open>DisconnectBlock\<close> that restores one output: the flag says whether an
  inconsistency was reported.
\<close>

definition restore_output :: "CCoins \<Rightarrow> COutPoint \<Rightarrow> CTxInUndo \<Rightarrow> bool \<times> CCoins" where
  "restore_output coins out undo =
     (let (fClean, coins) =
            (if undo_nHeight undo \<noteq> 0
             then (IsPruned coins,
                   CCoins_Clear\<lparr>fCoinBase := undo_fCoinBase undo, coins_nHeight := undo_nHeight undo,
                     coins_nVersion := undo_nVersion undo\<rparr>)
             else (\<not> IsPruned coins, coins));
          fClean = (fClean \<and> \<not> IsAvailable coins (out_n out));
          outs = (if length (coins_vout coins) < unat (out_n out + 1)
                  then coins_vout coins @ replicate (unat (out_n out + 1) - length (coins_vout coins)) CTxOut_SetNull
                  else coins_vout coins)
      in (fClean, coins\<lparr>coins_vout := outs[unat (out_n out) := undo_txout undo]\<rparr>))"

section \<open>The encoding of coins\<close>

definition mask_bit :: "CTxOut list \<Rightarrow> nat \<Rightarrow> nat \<Rightarrow> bool" where
  "mask_bit outs b i \<longleftrightarrow> 2 + b * 8 + i < length outs \<and> \<not> CTxOut_IsNull (outs ! (2 + b * 8 + i))"

function CalcMaskSize_loop :: "CTxOut list \<Rightarrow> nat \<Rightarrow> nat \<Rightarrow> nat \<Rightarrow> nat \<times> nat" where
  "CalcMaskSize_loop outs b nLastUsedByte nNonzeroBytes =
     (if 2 + b * 8 < length outs then
        let fZero = (\<not> list_ex (mask_bit outs b) [0..<8])
        in if \<not> fZero then CalcMaskSize_loop outs (b + 1) (b + 1) (nNonzeroBytes + 1)
           else CalcMaskSize_loop outs (b + 1) nLastUsedByte nNonzeroBytes
      else (nLastUsedByte, nNonzeroBytes))"
  by pat_completeness auto
termination
  by (relation "measure (\<lambda>(outs, b, _). length outs - b)") auto

declare CalcMaskSize_loop.simps [simp del]

definition CalcMaskSize :: "CCoins \<Rightarrow> nat \<times> nat" where
  "CalcMaskSize coins = CalcMaskSize_loop (coins_vout coins) 0 0 0"

definition fFirst :: "CCoins \<Rightarrow> bool" where
  "fFirst coins \<longleftrightarrow> length (coins_vout coins) > 0 \<and> \<not> CTxOut_IsNull (coins_vout coins ! 0)"

definition fSecond :: "CCoins \<Rightarrow> bool" where
  "fSecond coins \<longleftrightarrow> length (coins_vout coins) > 1 \<and> \<not> CTxOut_IsNull (coins_vout coins ! 1)"

text \<open>\<open>factor\<close> is 8 in \<open>GetSerializeSize\<close> and 16 in \<open>Serialize\<close>.\<close>

definition coins_nCode :: "u32 \<Rightarrow> CCoins \<Rightarrow> u32" where
  "coins_nCode factor coins =
     factor * (word_of_nat (snd (CalcMaskSize coins)) - (if fFirst coins \<or> fSecond coins then 0 else 1))
     + (if fCoinBase coins then 1 else 0) + (if fCoinStake coins then 2 else 0)
     + (if fFirst coins then 4 else 0) + (if fSecond coins then 8 else 0)"

definition GetSerializeSize_CCoins :: "'p secp256k1 \<Rightarrow> CCoins \<Rightarrow> u32 option" where
  "GetSerializeSize_CCoins ec coins =
     (if \<not> (fFirst coins \<or> fSecond coins \<or> snd (CalcMaskSize coins) \<noteq> 0) then None
      else Some (GetSizeOfVarInt_int (coins_nVersion coins) + GetSizeOfVarInt (coins_nCode 8 coins)
        + word_of_nat (fst (CalcMaskSize coins))
        + foldl (\<lambda>nSize txout. if \<not> CTxOut_IsNull txout then nSize + GetSerializeSize_CTxOutCompressor ec txout else nSize)
            0 (coins_vout coins)
        + GetSizeOfVarInt_int (coins_nHeight coins)))"

definition mask_byte :: "CTxOut list \<Rightarrow> nat \<Rightarrow> byte" where
  "mask_byte outs b = foldl (\<lambda>chAvail i. if mask_bit outs b i then chAvail OR push_bit i 1 else chAvail) 0 [0..<8]"

definition Serialize_CCoins :: "'p secp256k1 \<Rightarrow> CCoins \<Rightarrow> bytes option" where
  "Serialize_CCoins ec coins =
     (if \<not> (fFirst coins \<or> fSecond coins \<or> snd (CalcMaskSize coins) \<noteq> 0) then None
      else Some (WriteVarInt_int (coins_nVersion coins) @ WriteVarInt (coins_nCode 16 coins)
        @ map (mask_byte (coins_vout coins)) [0..<fst (CalcMaskSize coins)]
        @ concat (map (\<lambda>txout. if \<not> CTxOut_IsNull txout then Serialize_CTxOutCompressor ec txout else []) (coins_vout coins))
        @ WriteVarInt_int (coins_nHeight coins)))"

function read_mask :: "u32 \<Rightarrow> bool list \<Rightarrow> bool list reader" where
  "read_mask nMaskCode vAvail s =
     (if nMaskCode > 0 then
        case s of
          [] \<Rightarrow> Inl End_of_data
        | chAvail # s \<Rightarrow>
            read_mask (if chAvail \<noteq> 0 then nMaskCode - 1 else nMaskCode)
              (vAvail @ map (\<lambda>p. chAvail AND push_bit p 1 \<noteq> 0) [0..<8]) s
      else Inr (vAvail, s))"
  by pat_completeness auto
termination
  by (relation "measure (\<lambda>(n, v, s). length s)") auto

declare read_mask.simps [simp del]

fun read_outputs :: "'p secp256k1 \<Rightarrow> bool list \<Rightarrow> CTxOut list reader" where
  "read_outputs ec [] s = Inr ([], s)"
| "read_outputs ec (avail # vAvail) s =
     (case (if avail then Unserialize_CTxOutCompressor ec CTxOut_SetNull s else Inr (CTxOut_SetNull, s)) of
        Inl e \<Rightarrow> Inl e
      | Inr (txout, s) \<Rightarrow>
          case read_outputs ec vAvail s of Inl e \<Rightarrow> Inl e | Inr (outs, s) \<Rightarrow> Inr (txout # outs, s))"

definition Unserialize_CCoins :: "'p secp256k1 \<Rightarrow> CCoins reader" where
  "Unserialize_CCoins ec s =
     (case ReadVarInt s of Inl e \<Rightarrow> Inl e | Inr (nVersion, s) \<Rightarrow>
      case ReadVarInt s of Inl e \<Rightarrow> Inl e | Inr (nCode, s) \<Rightarrow>
      case read_mask (nCode div 16 + (if nCode AND 12 \<noteq> 0 then 0 else 1)) [nCode AND 4 \<noteq> 0, nCode AND 8 \<noteq> 0] s of
        Inl e \<Rightarrow> Inl e | Inr (vAvail, s) \<Rightarrow>
      case read_outputs ec vAvail s of Inl e \<Rightarrow> Inl e | Inr (outs, s) \<Rightarrow>
      case ReadVarInt s of Inl e \<Rightarrow> Inl e | Inr (nHeight, s) \<Rightarrow>
        Inr (Cleanup \<lparr>fCoinBase = (nCode AND 1 \<noteq> 0), fCoinStake = (nCode AND 2 \<noteq> 0), coins_vout = outs,
          coins_nHeight = nHeight, coins_nVersion = nVersion\<rparr>, s))"

section \<open>The encoding of undo data\<close>

definition undo_nCode :: "CTxInUndo \<Rightarrow> u32" where
  "undo_nCode undo =
     undo_nHeight undo * 4 + (if undo_fCoinBase undo then 2 else 0) + (if undo_fCoinStake undo then 1 else 0)"

definition GetSerializeSize_CTxInUndo :: "'p secp256k1 \<Rightarrow> CTxInUndo \<Rightarrow> u32" where
  "GetSerializeSize_CTxInUndo ec undo =
     GetSizeOfVarInt (undo_nCode undo)
     + (if undo_nHeight undo > 0 then GetSizeOfVarInt_int (undo_nVersion undo) else 0)
     + GetSerializeSize_CTxOutCompressor ec (undo_txout undo)"

definition Serialize_CTxInUndo :: "'p secp256k1 \<Rightarrow> CTxInUndo \<Rightarrow> bytes" where
  "Serialize_CTxInUndo ec undo =
     WriteVarInt (undo_nCode undo)
     @ (if undo_nHeight undo > 0 then WriteVarInt_int (undo_nVersion undo) else [])
     @ Serialize_CTxOutCompressor ec (undo_txout undo)"

text \<open>The object that is read into is a default-constructed one.\<close>

definition Unserialize_CTxInUndo :: "'p secp256k1 \<Rightarrow> CTxInUndo reader" where
  "Unserialize_CTxInUndo ec s =
     (case ReadVarInt s of Inl e \<Rightarrow> Inl e | Inr (nCode, s) \<Rightarrow>
      case (if drop_bit 2 nCode > 0 then ReadVarInt s else Inr (0, s)) of Inl e \<Rightarrow> Inl e | Inr (nVersion, s) \<Rightarrow>
      case Unserialize_CTxOutCompressor ec CTxOut_SetNull s of Inl e \<Rightarrow> Inl e | Inr (txout, s) \<Rightarrow>
        Inr (\<lparr>undo_txout = txout, undo_fCoinBase = (nCode AND 2 \<noteq> 0), undo_fCoinStake = (nCode AND 1 \<noteq> 0),
          undo_nHeight = drop_bit 2 nCode, undo_nVersion = nVersion\<rparr>, s))"

definition Serialize_CTxUndo :: "'p secp256k1 \<Rightarrow> CTxInUndo list \<Rightarrow> bytes" where
  "Serialize_CTxUndo ec vprevout = Serialize_vector (Serialize_CTxInUndo ec) vprevout"

definition Unserialize_CTxUndo :: "'p secp256k1 \<Rightarrow> bytes \<Rightarrow> CTxInUndo list read_result option" where
  "Unserialize_CTxUndo ec s = Unserialize_vector (Unserialize_CTxInUndo ec) 56 s"

section \<open>Trailing spent outputs\<close>

text \<open>No spent output at the end, and every spent output has been nulled.\<close>

definition vout_clean :: "CTxOut list \<Rightarrow> bool" where
  "vout_clean outs \<longleftrightarrow> outs = [] \<or> \<not> CTxOut_IsNull (last outs)"

definition nulled :: "CTxOut \<Rightarrow> bool" where
  "nulled txout \<longleftrightarrow> (CTxOut_IsNull txout \<longrightarrow> txout = CTxOut_SetNull)"

definition coins_wf :: "CCoins \<Rightarrow> bool" where
  "coins_wf coins \<longleftrightarrow> vout_clean (coins_vout coins) \<and> list_all nulled (coins_vout coins)"

lemma null_SetNull [simp]: "CTxOut_IsNull CTxOut_SetNull"
  by (simp add: CTxOut_IsNull_def CTxOut_SetNull_def)

lemma all_null_replicate [simp]: "list_all CTxOut_IsNull (replicate k CTxOut_SetNull)"
  by (induction k) simp_all

lemma Cleanup_loop_clean [simp]: "vout_clean outs \<Longrightarrow> Cleanup_loop outs = outs"
  by (subst Cleanup_loop.simps) (auto simp: vout_clean_def)

lemma Cleanup_loop_Nil [simp]: "Cleanup_loop [] = []"
  by (simp add: vout_clean_def)

lemma Cleanup_loop_snoc:
  "Cleanup_loop (outs @ [txout]) = (if CTxOut_IsNull txout then Cleanup_loop outs else outs @ [txout])"
  by (subst Cleanup_loop.simps) simp

lemma Cleanup_loop_append: "list_all CTxOut_IsNull ns \<Longrightarrow> Cleanup_loop (outs @ ns) = Cleanup_loop outs"
proof (induction ns rule: rev_induct)
  case (snoc n ns)
  then show ?case using Cleanup_loop_snoc [of "outs @ ns" n] by simp
qed simp

lemma Cleanup_loop_split:
  obtains ns where "outs = Cleanup_loop outs @ ns" "list_all CTxOut_IsNull ns" "vout_clean (Cleanup_loop outs)"
proof (induction outs arbitrary: thesis rule: rev_induct)
  case Nil
  then show ?case by (simp add: vout_clean_def)
next
  case (snoc x outs)
  show ?case
  proof (cases "CTxOut_IsNull x")
    case True
    from snoc.IH obtain ns where "outs = Cleanup_loop outs @ ns" "list_all CTxOut_IsNull ns" "vout_clean (Cleanup_loop outs)" .
    with True snoc.prems [of "ns @ [x]"] show ?thesis by (simp add: Cleanup_loop_snoc)
  next
    case False
    then show ?thesis using snoc.prems [of "[]"] by (simp add: Cleanup_loop_snoc vout_clean_def)
  qed
qed

lemma coins_wf_Cleanup: "list_all nulled (coins_vout coins) \<Longrightarrow> coins_wf (Cleanup coins)"
proof -
  assume "list_all nulled (coins_vout coins)"
  moreover obtain ns where "coins_vout coins = Cleanup_loop (coins_vout coins) @ ns" "vout_clean (Cleanup_loop (coins_vout coins))"
    by (rule Cleanup_loop_split)
  ultimately show ?thesis unfolding coins_wf_def Cleanup_def by (metis CCoins.select_convs(3) CCoins.surjective CCoins.update_convs(3) list_all_append)
qed

lemma IsPruned_wf: "coins_wf coins \<Longrightarrow> IsPruned coins \<longleftrightarrow> coins_vout coins = []"
  by (cases "coins_vout coins" rule: rev_cases) (auto simp: IsPruned_def coins_wf_def vout_clean_def)

section \<open>Undoing a spend\<close>

lemma nulls_replicate:
  "list_all CTxOut_IsNull ns \<Longrightarrow> list_all nulled ns \<Longrightarrow> ns = replicate (length ns) CTxOut_SetNull"
  by (induction ns) (simp_all add: nulled_def)

lemma spent_tail:
  assumes "vout_clean v" "list_all nulled v" "n < length v" "w = v[n := CTxOut_SetNull]" "x = Cleanup_loop w"
  shows "vout_clean x" "list_all nulled x"
    "(if length x < n + 1 then x @ replicate (n + 1 - length x) CTxOut_SetNull else x) = w"
proof -
  obtain ns where w: "w = x @ ns" "list_all CTxOut_IsNull ns" "vout_clean x"
    unfolding assms(5) by (rule Cleanup_loop_split)
  have "list_all nulled w" using assms(2,3,4) by (auto simp: list_all_length nth_list_update nulled_def)
  then have nulls: "list_all nulled x" "ns = replicate (length ns) CTxOut_SetNull"
    using w nulls_replicate [of ns] by simp_all
  show "vout_clean x" "list_all nulled x" by fact+
  show "(if length x < n + 1 then x @ replicate (n + 1 - length x) CTxOut_SetNull else x) = w"
  proof (cases "ns = []")
    case True
    then show ?thesis using w(1) assms(3,4) by auto
  next
    case False
    then have "CTxOut_IsNull (last w)" using w(1,2) by (auto simp: list_all_iff)
    moreover have "\<not> CTxOut_IsNull (last v)" using assms(1,3) by (auto simp: vout_clean_def)
    ultimately have "n = length v - 1"
      using assms(3,4) last_list_update [of v n CTxOut_SetNull] by (cases "v = []") (auto split: if_splits)
    moreover have "length v = length x + length ns" using w(1) assms(4) by (metis length_append length_list_update)
    ultimately have "n + 1 - length x = length ns" "length x < n + 1" using False assms(3) by auto
    then show ?thesis using w(1) nulls(2) by simp
  qed
qed

lemma restore_Spend:
  assumes "coins_wf coins" "coins_nHeight coins \<noteq> 0" "length (coins_vout coins) < 2 ^ 32"
    "Spend coins out = Some (undo, coins')"
  shows "coins_wf coins'"
    "restore_output coins' out undo =
      (True, if coins_vout coins' = [] then coins\<lparr>fCoinStake := False\<rparr> else coins)"
proof -
  define n v x where "n = unat (out_n out)" and "v = coins_vout coins" and "x = Cleanup_loop (v[n := CTxOut_SetNull])"
  have n: "n < length v" and c': "coins' = coins\<lparr>coins_vout := x\<rparr>"
    and u: "undo = (if x = [] then \<lparr>undo_txout = v ! n, undo_fCoinBase = fCoinBase coins,
        undo_fCoinStake = fCoinStake coins, undo_nHeight = coins_nHeight coins, undo_nVersion = coins_nVersion coins\<rparr>
      else new_CTxInUndo (v ! n))"
    using assms(4) by (auto simp: Spend_def Let_def Cleanup_def new_CTxInUndo_def n_def v_def x_def split: if_splits)
  note tail = spent_tail [OF _ _ n refl x_def]
  have wf: "vout_clean x" "list_all nulled x"
    and padded: "(if length x < n + 1 then x @ replicate (n + 1 - length x) CTxOut_SetNull else x) = v[n := CTxOut_SetNull]"
    using tail assms(1) by (simp_all add: coins_wf_def v_def)
  then show "coins_wf coins'" by (simp add: coins_wf_def c')
  have one: "unat (out_n out + 1) = n + 1"
    using n assms(3) unat_add_lem [of "out_n out" 1] by (simp add: n_def v_def)
  have free: "\<not> IsAvailable coins' (out_n out)"
    using padded n by (auto simp: IsAvailable_def c' n_def [symmetric] split: if_splits)
  have "IsPruned coins' \<longleftrightarrow> x = []"
    using IsPruned_wf [of coins'] wf by (simp add: coins_wf_def c')
  note pruned = this
  have upd: "v[n := CTxOut_SetNull, n := v ! n] = v" by simp
  have rec: "coins\<lparr>coins_vout := v\<rparr> = coins" by (simp add: v_def)
  show "restore_output coins' out undo =
      (True, if coins_vout coins' = [] then coins\<lparr>fCoinStake := False\<rparr> else coins)"
  proof (cases "x = []")
    case True
    have p: "replicate (Suc n) CTxOut_SetNull = v[n := CTxOut_SetNull]" using padded True by simp
    have "restore_output coins' out undo = (True, CCoins_Clear\<lparr>fCoinBase := fCoinBase coins,
        coins_nHeight := coins_nHeight coins, coins_nVersion := coins_nVersion coins,
        coins_vout := (replicate (Suc n) CTxOut_SetNull)[n := v ! n]\<rparr>)"
      using pruned assms(2) one True
      by (simp add: restore_output_def Let_def u c' n_def [symmetric] CCoins_Clear_def IsAvailable_def del: replicate_Suc)
    also have "\<dots> = (True, coins\<lparr>fCoinStake := False\<rparr>)"
      unfolding p upd by (cases coins) (simp add: CCoins_Clear_def v_def)
    finally show ?thesis using True by (simp add: c')
  next
    case False
    have "restore_output coins' out undo = (True, coins'\<lparr>coins_vout :=
        (if length x < n + 1 then x @ replicate (n + 1 - length x) CTxOut_SetNull else x)[n := v ! n]\<rparr>)"
      using pruned free one False by (simp add: restore_output_def Let_def u c' n_def [symmetric] new_CTxInUndo_def)
    also have "\<dots> = (True, coins)" unfolding padded upd by (simp add: c' rec)
    finally show ?thesis using False by (simp add: c')
  qed
qed

section \<open>The mask\<close>

definition byte_used :: "CTxOut list \<Rightarrow> nat \<Rightarrow> bool" where
  "byte_used outs b = list_ex (mask_bit outs b) [0..<8]"

lemma byte_used_outside: "\<not> 2 + b * 8 < length outs \<Longrightarrow> \<not> byte_used outs b"
  by (simp add: byte_used_def list_ex_iff mask_bit_def)

text \<open>The bytes up to the last used one: as many as the first result, with the second one of them used.\<close>

lemma CalcMaskSize_loop_spec:
  assumes "CalcMaskSize_loop outs b nl nz = (nl', nz')" "nl \<le> b" "nl = 0 \<or> byte_used outs (nl - 1)"
    "\<forall>k. nl \<le> k \<and> k < b \<longrightarrow> \<not> byte_used outs k" "nz = length (filter (byte_used outs) [0..<nl])"
  shows "(nl' = 0 \<or> byte_used outs (nl' - 1)) \<and> (\<forall>k \<ge> nl'. \<not> byte_used outs k)
    \<and> nz' = length (filter (byte_used outs) [0..<nl']) \<and> nl' \<le> max b (length outs)"
  using assms
proof (induction outs b nl nz rule: CalcMaskSize_loop.induct)
  case (1 outs b nl nz)
  show ?case
  proof (cases "2 + b * 8 < length outs")
    case inside: True
    show ?thesis
    proof (cases "byte_used outs b")
      case True
      have "CalcMaskSize_loop outs (b + 1) (b + 1) (nz + 1) = (nl', nz')"
        using "1.prems"(1) inside True by (subst (asm) CalcMaskSize_loop.simps) (simp add: byte_used_def [symmetric])
      moreover have "[0..<b + 1] = [0..<nl] @ [nl..<b] @ [b]"
        using "1.prems"(2) upt_add_eq_append [of 0 nl "b - nl"] by simp
      then have "length (filter (byte_used outs) [0..<b + 1]) = nz + 1"
        using "1.prems"(4,5) True by (simp add: filter_empty_conv)
      ultimately have "(nl' = 0 \<or> byte_used outs (nl' - 1)) \<and> (\<forall>k \<ge> nl'. \<not> byte_used outs k)
          \<and> nz' = length (filter (byte_used outs) [0..<nl']) \<and> nl' \<le> max (b + 1) (length outs)"
        by (intro "1.IH"(1) [of False]) (use inside True in \<open>auto simp: byte_used_def [symmetric]\<close>)
      then show ?thesis using inside by auto
    next
      case False
      have "CalcMaskSize_loop outs (b + 1) nl nz = (nl', nz')"
        using "1.prems"(1) inside False by (subst (asm) CalcMaskSize_loop.simps) (simp add: byte_used_def [symmetric])
      then have "(nl' = 0 \<or> byte_used outs (nl' - 1)) \<and> (\<forall>k \<ge> nl'. \<not> byte_used outs k)
          \<and> nz' = length (filter (byte_used outs) [0..<nl']) \<and> nl' \<le> max (b + 1) (length outs)"
        by (intro "1.IH"(2) [of True]) (use inside False "1.prems"(2-5) in \<open>simp_all add: byte_used_def [symmetric] less_Suc_eq\<close>, blast)
      then show ?thesis using inside by auto
    qed
  next
    case False
    then have r: "nl' = nl" "nz' = nz" using "1.prems"(1) by (subst (asm) CalcMaskSize_loop.simps; simp)+
    have "\<not> byte_used outs k" if "nl \<le> k" for k
      using that "1.prems"(4) False byte_used_outside [of k outs] by (cases "k < b") auto
    then show ?thesis using r "1.prems"(2,3,5) by simp
  qed
qed

lemma CalcMaskSize_spec:
  assumes "CalcMaskSize coins = (nb, nz)"
  shows "nb = 0 \<or> byte_used (coins_vout coins) (nb - 1)" "nb \<le> k \<Longrightarrow> \<not> byte_used (coins_vout coins) k"
    "nz = length (filter (byte_used (coins_vout coins)) [0..<nb])" "nz \<le> length (coins_vout coins)"
proof -
  have s: "(nb = 0 \<or> byte_used (coins_vout coins) (nb - 1)) \<and> (\<forall>k \<ge> nb. \<not> byte_used (coins_vout coins) k)
    \<and> nz = length (filter (byte_used (coins_vout coins)) [0..<nb]) \<and> nb \<le> max 0 (length (coins_vout coins))"
    using assms by (intro CalcMaskSize_loop_spec [of _ 0 0 0]) (simp_all add: CalcMaskSize_def)
  then show "nb = 0 \<or> byte_used (coins_vout coins) (nb - 1)" "nb \<le> k \<Longrightarrow> \<not> byte_used (coins_vout coins) k"
    "nz = length (filter (byte_used (coins_vout coins)) [0..<nb])" by simp_all
  from s show "nz \<le> length (coins_vout coins)"
    using length_filter_le [of "byte_used (coins_vout coins)" "[0..<nb]"] by simp
qed

lemma bit_mask_byte: "bit (mask_byte outs b) p \<longleftrightarrow> p < 8 \<and> mask_bit outs b p"
proof -
  have "bit (foldl (\<lambda>ch i. if mask_bit outs b i then ch OR push_bit i 1 else ch) (0 :: byte) [0..<k]) p
      \<longleftrightarrow> p < k \<and> mask_bit outs b p" if "k \<le> 8" for k
    using that by (induction k) (auto simp: bit_simps less_Suc_eq)
  then show ?thesis by (simp add: mask_byte_def)
qed

lemma mask_byte_0: "mask_byte outs b = 0 \<longleftrightarrow> \<not> byte_used outs b"
proof -
  have "mask_byte outs b = 0 \<longleftrightarrow> (\<forall>p. \<not> bit (mask_byte outs b) p)"
    using bit_imp_le_length [of "mask_byte outs b"] by (auto simp: bit_eq_iff)
  then show ?thesis by (auto simp: bit_mask_byte byte_used_def list_ex_iff)
qed

lemma and_push_bit: "w AND push_bit p 1 \<noteq> 0 \<longleftrightarrow> bit w p" for w :: "'a::len word"
  using and_exp_eq_0_iff_not_bit [of w p] by (simp add: push_bit_eq_mult)

lemma read_mask_bytes:
  assumes "nz = length (filter (\<lambda>c. c \<noteq> 0) bs)" "length bs < 2 ^ 32" "bs = [] \<or> last bs \<noteq> 0"
  shows "read_mask (word_of_nat nz) v (bs @ r) = Inr (v @ concat (map (\<lambda>c. map (bit c) [0..<8]) bs), r)"
  using assms
proof (induction bs arbitrary: nz v)
  case Nil
  then show ?case by (subst read_mask.simps) simp
next
  case (Cons c bs)
  have last: "bs = [] \<or> last bs \<noteq> 0" using Cons.prems(3) by auto
  have "nz \<noteq> 0"
  proof
    assume "nz = 0"
    then have "filter (\<lambda>c. c \<noteq> 0) (c # bs) = []" using Cons.prems(1) by (simp only: length_0_conv)
    then have "\<forall>x \<in> set (c # bs). x = 0" unfolding filter_empty_conv by simp
    then show False using Cons.prems(3) last_in_set [of "c # bs"] by auto
  qed
  moreover have "nz \<le> length (c # bs)" using Cons.prems(1) length_filter_le [of "\<lambda>c. c \<noteq> 0" "c # bs"] by simp
  ultimately have pos: "(word_of_nat nz :: u32) > 0"
    using Cons.prems(2) by (simp add: word_less_nat_alt unat_of_nat)
  define nz' where "nz' = length (filter (\<lambda>c. c \<noteq> 0) bs)"
  have "(if c \<noteq> 0 then word_of_nat nz - 1 else word_of_nat nz) = (word_of_nat nz' :: u32)"
    using Cons.prems(1) by (simp add: nz'_def)
  then have "read_mask (word_of_nat nz) v ((c # bs) @ r) =
      read_mask (word_of_nat nz') (v @ map (\<lambda>p. c AND push_bit p 1 \<noteq> 0) [0..<8]) (bs @ r)"
    using pos by (subst read_mask.simps) simp
  then show ?case
    using Cons.IH [OF nz'_def _ last] Cons.prems(2) by (simp only: and_push_bit) simp
qed

section \<open>Coins are read back as written\<close>

lemma code_fields:
  assumes "k < 2 ^ 28" "n = (word_of_nat (16 * k + of_bool a + 2 * of_bool b + 4 * of_bool c + 8 * of_bool d) :: u32)"
  shows "n AND 1 \<noteq> 0 \<longleftrightarrow> a" "n AND 2 \<noteq> 0 \<longleftrightarrow> b" "n AND 4 \<noteq> 0 \<longleftrightarrow> c" "n AND 8 \<noteq> 0 \<longleftrightarrow> d"
    "n AND 12 \<noteq> 0 \<longleftrightarrow> c \<or> d" "n div 16 = word_of_nat k"
proof -
  define m where "m = 16 * k + of_bool a + 2 * of_bool b + 4 * of_bool c + 8 * of_bool d"
  have n: "n = word_of_nat m" using assms(2) by (simp add: m_def)
  have small: "m < 2 ^ 32" using assms(1) by (cases a; cases b; cases c; cases d) (simp_all add: m_def)
  then have u: "unat n = m" by (simp add: n unat_of_nat)
  have mb: "bit n i \<longleftrightarrow> odd (m div 2 ^ i)" for i
    using bit_unsigned_iff [of n i, where ?'a = nat] by (simp add: u bit_iff_odd)
  have m: "odd m \<longleftrightarrow> a" "odd (m div 2) \<longleftrightarrow> b" "odd (m div 4) \<longleftrightarrow> c" "odd (m div 8) \<longleftrightarrow> d" "m div 16 = k"
    unfolding m_def by (cases a; cases b; cases c; cases d; simp; presburger)+
  have bits: "bit n 0 \<longleftrightarrow> a" "bit n 1 \<longleftrightarrow> b" "bit n 2 \<longleftrightarrow> c" "bit n 3 \<longleftrightarrow> d"
    using mb [of 0] mb [of 1] mb [of 2] mb [of 3] m by simp_all
  have p: "n AND 2 ^ i \<noteq> 0 \<longleftrightarrow> bit n i" for i by (simp add: and_exp_eq_0_iff_not_bit)
  show "n AND 1 \<noteq> 0 \<longleftrightarrow> a" "n AND 2 \<noteq> 0 \<longleftrightarrow> b" "n AND 4 \<noteq> 0 \<longleftrightarrow> c" "n AND 8 \<noteq> 0 \<longleftrightarrow> d"
    using p [of 0] p [of 1] p [of 2] p [of 3] bits by simp_all
  have "n AND 12 = (n AND 4) OR (n AND 8)" by (simp flip: bit.conj_disj_distrib)
  then show "n AND 12 \<noteq> 0 \<longleftrightarrow> c \<or> d"
    using \<open>n AND 4 \<noteq> 0 \<longleftrightarrow> c\<close> \<open>n AND 8 \<noteq> 0 \<longleftrightarrow> d\<close> by (simp add: or_eq_0_iff)
  show "n div 16 = word_of_nat k"
    using m(5) assms(1) by (simp add: word_unat_eq_iff unat_div u unat_of_nat)
qed

lemma read_outputs_written:
  assumes "ec_recovers ec"
    "list_all (\<lambda>txout. \<not> CTxOut_IsNull txout \<longrightarrow> nValue txout < 2 ^ 60 \<and> length (scriptPubKey txout) \<le> MAX_SCRIPT_SIZE) outs"
    "list_all nulled outs"
  shows "read_outputs ec (map (\<lambda>txout. \<not> CTxOut_IsNull txout) outs)
    (concat (map (\<lambda>txout. if \<not> CTxOut_IsNull txout then Serialize_CTxOutCompressor ec txout else []) outs) @ r) = Inr (outs, r)"
  using assms(2,3)
  by (induction outs) (auto simp: Unserialize_CTxOutCompressor_ser assms(1) nulled_def)

text \<open>What the database can hold: unspent outputs with amounts below \<open>2^60\<close> and scripts that may be spent.\<close>

definition coins_storable :: "CCoins \<Rightarrow> bool" where
  "coins_storable coins \<longleftrightarrow> coins_wf coins \<and> \<not> IsPruned coins \<and> length (coins_vout coins) < 2 ^ 28
     \<and> list_all (\<lambda>txout. \<not> CTxOut_IsNull txout \<longrightarrow> nValue txout < 2 ^ 60 \<and> length (scriptPubKey txout) \<le> MAX_SCRIPT_SIZE)
         (coins_vout coins)
     \<and> 0 \<le> sint (coins_nHeight coins) \<and> 0 \<le> sint (coins_nVersion coins)"

lemma avail_bits:
  assumes "CalcMaskSize coins = (nb, nz)" "i < length (coins_vout coins)" "\<not> CTxOut_IsNull (coins_vout coins ! i)"
  shows "i < 2 + 8 * nb"
proof (rule ccontr)
  assume "\<not> i < 2 + 8 * nb"
  moreover define j where "j = i - 2"
  ultimately have j: "i = 2 + j" "8 * nb \<le> j" by linarith+
  then have "nb \<le> j div 8" by linarith
  moreover have "byte_used (coins_vout coins) (j div 8)"
    using assms(2,3) j(1) by (auto simp: byte_used_def list_ex_iff mask_bit_def intro!: bexI [of _ "j mod 8"])
  ultimately show False using CalcMaskSize_spec(2) [OF assms(1)] by blast
qed

lemma nth_concat_8:
  assumes "i < 8 * n"
  shows "concat (map (\<lambda>b. map (f b) [0..<8]) [0..<n]) ! i = f (i div 8) (i mod 8)"
  using assms
proof (induction n)
  case (Suc n)
  have len: "length (concat (map (\<lambda>b. map (f b) [0..<8]) [0..<n])) = 8 * n"
    by (induction n) simp_all
  show ?case
  proof (cases "i < 8 * n")
    case True
    then show ?thesis using Suc.IH len by (simp add: nth_append)
  next
    case False
    then have "8 * n \<le> i" by simp
    then obtain j where i: "i = 8 * n + j" by (metis le_Suc_ex)
    then have "j < 8" using Suc.prems by simp
    then have "i div 8 = n" "i mod 8 = j" unfolding i by simp_all
    then show ?thesis using \<open>j < 8\<close> len i by (simp add: nth_append)
  qed
qed simp

lemma bits_mask_byte: "map (bit (mask_byte outs b)) [0..<8] = map (mask_bit outs b) [0..<8]"
  by (rule map_cong) (auto simp: bit_mask_byte)

lemma read_availability:
  assumes "CalcMaskSize coins = (nb, nz)" "length (coins_vout coins) < 2 ^ 28"
    "outs = coins_vout coins @ replicate (2 + 8 * nb - length (coins_vout coins)) CTxOut_SetNull"
  shows "read_mask (word_of_nat nz) [fFirst coins, fSecond coins] (map (mask_byte (coins_vout coins)) [0..<nb] @ r)
    = Inr (map (\<lambda>txout. \<not> CTxOut_IsNull txout) (take (2 + 8 * nb) outs), r)"
proof -
  let ?v = "coins_vout coins"
  have filt: "nz = length (filter (\<lambda>c. c \<noteq> 0) (map (mask_byte ?v) [0..<nb]))"
    using CalcMaskSize_spec(3) [OF assms(1)] by (simp add: filter_map o_def mask_byte_0)
  have last: "map (mask_byte ?v) [0..<nb] = [] \<or> last (map (mask_byte ?v) [0..<nb]) \<noteq> 0"
    using CalcMaskSize_spec(1) [OF assms(1)] by (cases nb) (simp_all add: mask_byte_0)
  have "nb \<le> length ?v"
  proof (cases nb)
    case (Suc m)
    then have "byte_used ?v m" using CalcMaskSize_spec(1) [OF assms(1)] by simp
    then have "2 + m * 8 < length ?v" using byte_used_outside by blast
    then show ?thesis using Suc by simp
  qed simp
  then have "read_mask (word_of_nat nz) [fFirst coins, fSecond coins] (map (mask_byte ?v) [0..<nb] @ r)
    = Inr ([fFirst coins, fSecond coins] @ concat (map (\<lambda>b. map (mask_bit ?v b) [0..<8]) [0..<nb]), r)"
    using read_mask_bytes [OF filt _ last] assms(2) by (simp add: comp_def bits_mask_byte)
  moreover have "[fFirst coins, fSecond coins] @ concat (map (\<lambda>b. map (mask_bit ?v b) [0..<8]) [0..<nb])
      = map (\<lambda>txout. \<not> CTxOut_IsNull txout) (take (2 + 8 * nb) outs)" (is "?l = ?r")
  proof (rule nth_equalityI)
    have len: "length (concat (map (\<lambda>b. map (mask_bit ?v b) [0..<8]) [0..<nb])) = 8 * nb" by (induction nb) simp_all
    then show "length ?l = length ?r" using assms(3) by simp
    fix i assume "i < length ?l"
    then have i: "i < 2 + 8 * nb" using len by simp
    have r: "?r ! i \<longleftrightarrow> i < length ?v \<and> \<not> CTxOut_IsNull (?v ! i)"
      using i assms(3) by (auto simp: nth_append)
    consider "i = 0" | "i = 1" | j where "i = 2 + j" by (metis One_nat_def Suc_1 add.commute add_2_eq_Suc' not0_implies_Suc)
    then show "?l ! i = ?r ! i"
    proof cases
      case 3
      then have "?l ! i = mask_bit ?v (j div 8) (j mod 8)" using i nth_concat_8 [of j nb "mask_bit ?v"] by simp
      then show ?thesis unfolding r using 3 by (simp add: mask_bit_def)
    qed (use r in \<open>simp_all add: fFirst_def fSecond_def\<close>)
  qed
  ultimately show ?thesis by simp
qed

lemma some_used:
  assumes "\<not> IsPruned coins"
  shows "fFirst coins \<or> fSecond coins \<or> snd (CalcMaskSize coins) \<noteq> 0"
proof -
  obtain nb nz where c: "CalcMaskSize coins = (nb, nz)" by fastforce
  obtain i where i: "i < length (coins_vout coins)" "\<not> CTxOut_IsNull (coins_vout coins ! i)"
    using assms by (auto simp: IsPruned_def list_all_length)
  have "i < 2 + 8 * nb" by (rule avail_bits [OF c i])
  consider "i = 0" | "i = 1" | "2 \<le> i" by linarith
  then show ?thesis
  proof cases
    case 3
    then have "0 < nb" using \<open>i < 2 + 8 * nb\<close> by simp
    then have "byte_used (coins_vout coins) (nb - 1)" "nb - 1 \<in> set [0..<nb]"
      using CalcMaskSize_spec(1) [OF c] by simp_all
    then have "filter (byte_used (coins_vout coins)) [0..<nb] \<noteq> []" by (auto simp: filter_empty_conv)
    then show ?thesis using CalcMaskSize_spec(3) [OF c] c by simp
  qed (use i in \<open>simp_all add: fFirst_def fSecond_def\<close>)
qed

lemma coins_nCode_fields:
  assumes "CalcMaskSize coins = (nb, nz)" "fFirst coins \<or> fSecond coins \<or> nz \<noteq> 0"
    "k = (if fFirst coins \<or> fSecond coins then nz else nz - 1)"
  shows "coins_nCode 16 coins = word_of_nat (16 * k + of_bool (fCoinBase coins) + 2 * of_bool (fCoinStake coins)
    + 4 * of_bool (fFirst coins) + 8 * of_bool (fSecond coins))"
  using assms by (auto simp: coins_nCode_def of_nat_diff)

lemma Unserialize_CCoins_ser:
  assumes "coins_storable coins" "ec_recovers ec"
  shows "\<exists>b. Serialize_CCoins ec coins = Some b \<and> (\<forall>r. Unserialize_CCoins ec (b @ r) = Inr (coins, r))"
proof -
  let ?v = "coins_vout coins" and ?n = "coins_nCode 16 coins"
  have ok: "coins_wf coins" "length ?v < 2 ^ 28" "0 \<le> sint (coins_nHeight coins)" "0 \<le> sint (coins_nVersion coins)"
    "list_all (\<lambda>txout. \<not> CTxOut_IsNull txout \<longrightarrow> nValue txout < 2 ^ 60 \<and> length (scriptPubKey txout) \<le> MAX_SCRIPT_SIZE) ?v"
    and used: "fFirst coins \<or> fSecond coins \<or> snd (CalcMaskSize coins) \<noteq> 0"
    using assms(1) some_used by (auto simp: coins_storable_def)
  obtain nb nz where c: "CalcMaskSize coins = (nb, nz)" by fastforce
  define k where "k = (if fFirst coins \<or> fSecond coins then nz else nz - 1)"
  define outs where "outs = ?v @ replicate (2 + 8 * nb - length ?v) CTxOut_SetNull"
  have k: "k < 2 ^ 28" using CalcMaskSize_spec(4) [OF c] ok(2) unfolding k_def by (auto intro: le_less_trans [of _ nz])
  note fields = code_fields [OF k coins_nCode_fields [OF c _ k_def]]
  have code: "?n div 16 + (if ?n AND 12 \<noteq> 0 then 0 else 1) = word_of_nat nz"
    using fields(5,6) used c by (auto simp: k_def of_nat_diff)
  have "CTxOut_IsNull (?v ! (2 + 8 * nb + i))" if "2 + 8 * nb + i < length ?v" for i
    using avail_bits [OF c that] by auto
  then have null: "list_all CTxOut_IsNull (drop (2 + 8 * nb) outs)"
    by (auto simp: outs_def list_all_length nth_append)
  define f where "f = (\<lambda>txout. if \<not> CTxOut_IsNull txout then Serialize_CTxOutCompressor ec txout else [])"
  have empty: "concat (map f xs) = []" if "list_all CTxOut_IsNull xs" for xs using that by (induction xs) (simp_all add: f_def)
  have "concat (map f outs) = concat (map f (take (2 + 8 * nb) outs)) @ concat (map f (drop (2 + 8 * nb) outs))"
    by (simp flip: concat_append map_append)
  moreover have "concat (map f outs) = concat (map f ?v)" by (simp add: outs_def f_def)
  ultimately have body: "concat (map f ?v) = concat (map f (take (2 + 8 * nb) outs))" using empty [OF null] by simp
  have wf: "list_all nulled outs" using ok(1) by (auto simp: outs_def coins_wf_def list_all_iff nulled_def)
  have "read_outputs ec (map (\<lambda>txout. \<not> CTxOut_IsNull txout) (take (2 + 8 * nb) outs)) (concat (map f ?v) @ r)
      = Inr (take (2 + 8 * nb) outs, r)" for r
    unfolding body unfolding f_def using ok(5) wf
    by (intro read_outputs_written assms(2)) (auto simp: outs_def list_all_iff dest!: in_set_takeD)
  note outputs = this
  have "Cleanup_loop (take (2 + 8 * nb) outs) = Cleanup_loop outs"
    using Cleanup_loop_append [OF null, of "take (2 + 8 * nb) outs"] by simp
  also have "\<dots> = ?v"
    using ok(1) Cleanup_loop_append [of "replicate (2 + 8 * nb - length ?v) CTxOut_SetNull" ?v]
    by (simp add: outs_def coins_wf_def)
  finally have clean: "Cleanup_loop (take (2 + 8 * nb) outs) = ?v" .
  define b where "b = WriteVarInt (coins_nVersion coins) @ WriteVarInt ?n @ map (mask_byte ?v) [0..<nb]
    @ concat (map f ?v) @ WriteVarInt (coins_nHeight coins)"
  have "Serialize_CCoins ec coins = Some b"
    using used c ok(3,4) by (simp add: Serialize_CCoins_def b_def f_def WriteVarInt_int_unsigned)
  moreover have "Unserialize_CCoins ec (b @ r) = Inr (coins, r)" for r
    using read_availability [OF c ok(2) outs_def] fields used c code clean outputs
    by (simp add: Unserialize_CCoins_def b_def varint32.unser_ser Cleanup_def)
  ultimately show ?thesis by blast
qed

section \<open>What \<open>GetSerializeSize\<close> counts\<close>

lemma GetSizeOfVarInt_int_loop_length:
  "GetSizeOfVarInt_int_loop n (word_of_nat (length tmp)) = word_of_nat (length (WriteVarInt_int_loop n tmp))"
proof (induction n tmp rule: WriteVarInt_int_loop.induct)
  case (1 n tmp)
  let ?c = "ucast (n AND 0x7F) OR (if tmp \<noteq> [] then 0x80 else 0x00) :: byte"
  show ?case
  proof (cases "sint n \<le> 0x7F")
    case True
    then show ?thesis
      by (subst GetSizeOfVarInt_int_loop.simps, subst WriteVarInt_int_loop.simps) (simp add: Let_def)
  next
    case False
    then have "GetSizeOfVarInt_int_loop (signed_drop_bit 7 n - 1) (word_of_nat (length (tmp @ [?c])))
        = word_of_nat (length (WriteVarInt_int_loop (signed_drop_bit 7 n - 1) (tmp @ [?c])))"
      using "1.IH" by blast
    then show ?thesis
      using False by (subst GetSizeOfVarInt_int_loop.simps, subst WriteVarInt_int_loop.simps) (simp add: Let_def add.commute)
  qed
qed

lemma GetSizeOfVarInt_int_length: "GetSizeOfVarInt_int n = word_of_nat (length (WriteVarInt_int n))"
  using GetSizeOfVarInt_int_loop_length [of n "[]"] by (simp add: GetSizeOfVarInt_int_def WriteVarInt_int_def)

lemma size_outputs:
  "foldl (\<lambda>nSize txout. if \<not> CTxOut_IsNull txout then nSize + GetSerializeSize_CTxOutCompressor ec txout else nSize) n outs =
   n + word_of_nat (length (concat (map (\<lambda>txout. if \<not> CTxOut_IsNull txout then Serialize_CTxOutCompressor ec txout else []) outs)))"
  by (induction outs arbitrary: n) (simp_all add: GetSerializeSize_CTxOutCompressor_length add.assoc)

lemma GetSerializeSize_CCoins_difference:
  "Serialize_CCoins ec coins = Some b \<Longrightarrow>
   GetSerializeSize_CCoins ec coins =
     Some (word_of_nat (length b) + GetSizeOfVarInt (coins_nCode 8 coins) - GetSizeOfVarInt (coins_nCode 16 coins))"
  by (auto simp: Serialize_CCoins_def GetSerializeSize_CCoins_def GetSizeOfVarInt_int_length varint32.size_ser
    size_outputs split: if_splits)

section \<open>Undo data is read back as written\<close>

definition undo_storable :: "CTxInUndo \<Rightarrow> bool" where
  "undo_storable undo \<longleftrightarrow> nValue (undo_txout undo) < 2 ^ 60 \<and> length (scriptPubKey (undo_txout undo)) \<le> MAX_SCRIPT_SIZE
     \<and> undo_nHeight undo < 2 ^ 30 \<and> 0 \<le> sint (undo_nVersion undo)
     \<and> (undo_nHeight undo = 0 \<longrightarrow> undo_nVersion undo = 0)"

lemma undo_fields:
  assumes "undo_nHeight undo < 2 ^ 30"
  shows "undo_nCode undo AND 2 \<noteq> 0 \<longleftrightarrow> undo_fCoinBase undo" "undo_nCode undo AND 1 \<noteq> 0 \<longleftrightarrow> undo_fCoinStake undo"
    "drop_bit 2 (undo_nCode undo) = undo_nHeight undo"
proof -
  define h where "h = unat (undo_nHeight undo)"
  define m where "m = h * 4 + 2 * of_bool (undo_fCoinBase undo) + of_bool (undo_fCoinStake undo)"
  have h: "h < 2 ^ 30" using assms by (simp add: h_def word_less_nat_alt)
  then have small: "m < 2 ^ 32" by (cases "undo_fCoinBase undo"; cases "undo_fCoinStake undo") (simp_all add: m_def)
  have n: "undo_nCode undo = word_of_nat m" by (simp add: undo_nCode_def m_def h_def)
  then have u: "unat (undo_nCode undo) = m" using small by (simp add: unat_of_nat)
  have mb: "bit (undo_nCode undo) i \<longleftrightarrow> odd (m div 2 ^ i)" for i
    using bit_unsigned_iff [of "undo_nCode undo" i, where ?'a = nat] by (simp add: u bit_iff_odd)
  have m: "odd m \<longleftrightarrow> undo_fCoinStake undo" "odd (m div 2) \<longleftrightarrow> undo_fCoinBase undo" "m div 4 = h"
    unfolding m_def by (cases "undo_fCoinBase undo"; cases "undo_fCoinStake undo"; simp; presburger)+
  have p: "undo_nCode undo AND 2 ^ i \<noteq> 0 \<longleftrightarrow> bit (undo_nCode undo) i" for i by (simp add: and_exp_eq_0_iff_not_bit)
  show "undo_nCode undo AND 2 \<noteq> 0 \<longleftrightarrow> undo_fCoinBase undo" "undo_nCode undo AND 1 \<noteq> 0 \<longleftrightarrow> undo_fCoinStake undo"
    using p [of 0] p [of 1] mb [of 0] mb [of 1] m by simp_all
  have "unat (drop_bit 2 (undo_nCode undo)) = m div 4"
    by (simp only: unat_drop_bit_eq u) (simp add: drop_bit_eq_div)
  then show "drop_bit 2 (undo_nCode undo) = undo_nHeight undo" by (simp add: m(3) h_def word_unat_eq_iff)
qed

lemma Unserialize_CTxInUndo_ser:
  assumes "undo_storable undo" "ec_recovers ec"
  shows "Unserialize_CTxInUndo ec (Serialize_CTxInUndo ec undo @ r) = Inr (undo, r)"
proof -
  have "undo_nHeight undo > 0 \<longleftrightarrow> undo_nHeight undo \<noteq> 0" by (simp add: word_gt_0)
  then show ?thesis
    using assms undo_fields [of undo]
    by (auto simp: undo_storable_def Unserialize_CTxInUndo_def Serialize_CTxInUndo_def varint32.unser_ser
      WriteVarInt_int_unsigned Unserialize_CTxOutCompressor_ser)
qed

section \<open>Properties\<close>

text \<open>Keys \<open>(x, y)\<close> with \<open>y\<close> of 32 bytes equal to 0 or 1: a parser that satisfies \<open>ec_recovers\<close>.\<close>

definition witness_ec :: "bytes secp256k1" where
  "witness_ec = \<lparr>ec_pubkey_parse = (\<lambda>key.
       if length key = 33 then Some (4 # drop 1 key @ replicate 31 0 @ [key ! 0 - 2])
       else if length key = 65 \<and> key = 4 # take 32 (drop 1 key) @ replicate 31 0 @ [key ! 64 AND 1] then Some key
       else None),
     ec_pubkey_serialize = (\<lambda>p. p)\<rparr>"

lemma witness_ec_recovers: "ec_recovers witness_ec"
proof -
  have "4 # take 32 (drop 1 key) @ replicate 31 0 @ [2 + (key ! 64 AND 1) - 2] = key"
    if "key = 4 # take 32 (drop 1 key) @ replicate 31 0 @ [key ! 64 AND 1]" for key :: bytes
    using that by (simp del: replicate_numeral)
  then show ?thesis
    by (auto simp: ec_recovers_def witness_ec_def simp del: replicate_numeral split: if_splits)
qed

text \<open>
  C14: The coin database.  Coins that are not pruned and have no spent output at the end, whose
  spent outputs are nulled, whose amounts are below \<open>2^60\<close> and whose scripts have at most 10000
  bytes, with a height and a version that are not negative, are written without a failed
  assertion and read back unchanged, whatever follows them in the stream: the compressed
  amounts and scripts, the code and the mask of unspent outputs lose nothing.
\<close>

theorem CCoins_database_roundtrip:
  assumes "coins_storable coins" "ec_recovers ec"
  shows "\<exists>b. Serialize_CCoins ec coins = Some b \<and> (\<forall>r. Unserialize_CCoins ec (b @ r) = Inr (coins, r))"
  by (rule Unserialize_CCoins_ser [OF assms])

definition witness_coins :: CCoins where
  "witness_coins = \<lparr>fCoinBase = False, fCoinStake = True,
     coins_vout = [CTxOut_SetNull, \<lparr>nValue = 30, scriptPubKey = [0x51]\<rparr>], coins_nHeight = 7, coins_nVersion = 1\<rparr>"

lemma sint_small32: "sint (7 :: int32) = 7" "sint (1 :: int32) = 1"
  using sint_int32 [of 7] sint_int32 [of 1] by simp_all

lemma witness_coins_storable: "coins_storable witness_coins"
  by (simp add: coins_storable_def coins_wf_def vout_clean_def nulled_def witness_coins_def IsPruned_def
    CTxOut_IsNull_def CTxOut_SetNull_def MAX_SCRIPT_SIZE_def sint_small32)

theorem CCoins_database_roundtrip_witness:
  "\<exists>b. Serialize_CCoins witness_ec witness_coins = Some b \<and> Unserialize_CCoins witness_ec b = Inr (witness_coins, [])"
  using CCoins_database_roundtrip [OF witness_coins_storable witness_ec_recovers] by (metis append_Nil2)

text \<open>
  C26: Disconnecting a block puts spent outputs back.  Let an output of well-formed coins at a
  height other than 0 be spent, and let the step of \<open>DisconnectBlock\<close> that restores an output
  run on the result with the undo data that \<open>Spend\<close> returned.  No inconsistency is reported and
  the coins are as before, with one exception: when the last unspent output is restored, the
  coinstake flag, which the undo data contains, is not restored but false.
\<close>

theorem restore_undoes_Spend:
  assumes "coins_wf coins" "coins_nHeight coins \<noteq> 0" "length (coins_vout coins) < 2 ^ 32"
    "Spend coins out = Some (undo, coins')"
  shows "restore_output coins' out undo =
    (True, if coins_vout coins' = [] then coins\<lparr>fCoinStake := False\<rparr> else coins)"
  by (rule restore_Spend [OF assms])

theorem restore_undoes_Spend_witness:
  "\<exists>undo coins'. Spend witness_coins \<lparr>out_hash = 5, out_n = 1\<rparr> = Some (undo, coins') \<and> undo_fCoinStake undo \<and>
     restore_output coins' \<lparr>out_hash = 5, out_n = 1\<rparr> undo = (True, witness_coins\<lparr>fCoinStake := False\<rparr>)"
proof -
  have "Cleanup_loop [CTxOut_SetNull, CTxOut_SetNull] = []"
    using Cleanup_loop_append [of "[CTxOut_SetNull, CTxOut_SetNull]" "[]"] by simp
  then have "Spend witness_coins \<lparr>out_hash = 5, out_n = 1\<rparr> =
      Some (\<lparr>undo_txout = \<lparr>nValue = 30, scriptPubKey = [0x51]\<rparr>, undo_fCoinBase = False, undo_fCoinStake = True,
        undo_nHeight = 7, undo_nVersion = 1\<rparr>, witness_coins\<lparr>coins_vout := []\<rparr>)"
    by (simp add: Spend_def Let_def Cleanup_def new_CTxInUndo_def witness_coins_def CTxOut_IsNull_def)
  moreover from restore_undoes_Spend [OF _ _ _ this] have
    "restore_output (witness_coins\<lparr>coins_vout := []\<rparr>) \<lparr>out_hash = 5, out_n = 1\<rparr>
       \<lparr>undo_txout = \<lparr>nValue = 30, scriptPubKey = [0x51]\<rparr>, undo_fCoinBase = False, undo_fCoinStake = True,
        undo_nHeight = 7, undo_nVersion = 1\<rparr> = (True, witness_coins\<lparr>fCoinStake := False\<rparr>)"
    using witness_coins_storable by (simp add: coins_storable_def) (simp add: witness_coins_def)
  ultimately show ?thesis by (intro exI conjI) simp_all
qed

text \<open>
  \<open>GetSerializeSize\<close> computes the code of the coins with the factor 8 where \<open>Serialize\<close> takes 16:
  with eight used bytes in the mask and a first output, it counts one byte less than is written.
\<close>

theorem GetSerializeSize_CCoins_short:
  assumes "Serialize_CCoins ec coins = Some b" "CalcMaskSize coins = (nb, 8)" "fFirst coins" "\<not> fCoinBase coins"
    "\<not> fCoinStake coins" "\<not> fSecond coins"
  shows "GetSerializeSize_CCoins ec coins = Some (word_of_nat (length b) - 1)"
proof -
  have "coins_nCode 8 coins = 68" "coins_nCode 16 coins = 132" using assms(2-6) by (simp_all add: coins_nCode_def)
  moreover have "GetSizeOfVarInt (68 :: u32) = 1" "GetSizeOfVarInt (132 :: u32) = 2"
    by (simp_all add: GetSizeOfVarInt_def GetSizeOfVarInt_loop.simps Let_def)
  ultimately show ?thesis using GetSerializeSize_CCoins_difference [OF assms(1)] by simp
qed

end
