(* ===== verification/CoinsView.thy ===== *)
theory CoinsView
  imports Coins "HOL-Library.AList"
begin

unbundle bit_operations_syntax

text \<open>
  The views on the set of unspent outputs: the database view of \<^verbatim>\<open>src/src/txdb.cpp\<close>, the cache
  \<open>CCoinsViewCache\<close> with its modifiers (\<^verbatim>\<open>src/src/coins.h\<close>, \<^verbatim>\<open>src/src/coins.cpp\<close>), and the functions
  that read the inputs of a transaction through it.

  \<^item> A view is the record of its virtual functions over a state.  A cache is a view over the
    state of its base, so that caches over caches, as the node stacks them, need nothing new.
    Reading through a cache changes its state (and that of its base), as in the code.
  \<^item> \<open>CCoinsMap\<close> is an association list in the order of the iteration.
  \<^item> A failed assertion or an exception is \<open>None\<close>.
  \<^item> leveldb is a map from keys to bytes: coins are encoded when they are written and decoded
    when they are read, with the functions of the theory \<open>Coins\<close>.  Whether leveldb takes the next
    batch is a part of its state; a batch that it does not take throws, which is \<open>None\<close>.  An error
    of a read is not modelled: \<open>CCoinsViewErrorCatcher\<close> ends the process then.
  \<^item> \<open>ModifyCoins\<close> returns a reference whose destructor tidies up; \<open>with_modifier\<close> runs a
    modification between the two.

  The locale \<open>coins_view\<close> is what a view promises: a map of unspent coins that reading does not
  change and that a batch updates.  The database satisfies it, and so does a cache over any
  view that does; a flush carries the map of the cache over to its base.
\<close>

section \<open>Cache entries and views\<close>

type_synonym txid = "256 word"

record CCoinsCacheEntry =
  entry_coins :: CCoins
  entry_flags :: byte

definition DIRTY :: byte where
  "DIRTY = 1"

definition FRESH :: byte where
  "FRESH = 2"

definition entry_dirty :: "CCoinsCacheEntry \<Rightarrow> bool" where
  "entry_dirty e \<longleftrightarrow> entry_flags e AND DIRTY \<noteq> 0"

definition entry_fresh :: "CCoinsCacheEntry \<Rightarrow> bool" where
  "entry_fresh e \<longleftrightarrow> entry_flags e AND FRESH \<noteq> 0"

type_synonym CCoinsMap = "(txid \<times> CCoinsCacheEntry) list"

record 'v CCoinsView =
  view_GetCoins :: "'v \<Rightarrow> txid \<Rightarrow> CCoins option \<times> 'v"
  view_HaveCoins :: "'v \<Rightarrow> txid \<Rightarrow> bool \<times> 'v"
  view_GetBestBlock :: "'v \<Rightarrow> txid \<times> 'v"
  view_BatchWrite :: "'v \<Rightarrow> CCoinsMap \<Rightarrow> txid \<Rightarrow> (bool \<times> 'v) option"

section \<open>The database\<close>

text \<open>The keys \<open>('c', txid)\<close> and \<open>'B'\<close>.\<close>

datatype db_key = Coins_key txid | Best_key

record coins_db =
  db_map :: "db_key \<Rightarrow> bytes option"
  db_writable :: bool

datatype batch_op = Batch_erase db_key | Batch_write db_key bytes

definition BatchWriteCoins :: "'p secp256k1 \<Rightarrow> txid \<Rightarrow> CCoins \<Rightarrow> batch_op option" where
  "BatchWriteCoins ec hash coins =
     (if IsPruned coins then Some (Batch_erase (Coins_key hash))
      else map_option (Batch_write (Coins_key hash)) (Serialize_CCoins ec coins))"

definition BatchWriteHashBestChain :: "txid \<Rightarrow> batch_op" where
  "BatchWriteHashBestChain hash = Batch_write Best_key (WRITEDATA 32 hash)"

fun batch_apply :: "coins_db \<Rightarrow> batch_op \<Rightarrow> coins_db" where
  "batch_apply db (Batch_erase k) = db\<lparr>db_map := (db_map db)(k := None)\<rparr>"
| "batch_apply db (Batch_write k v) = db\<lparr>db_map := (db_map db)(k := Some v)\<rparr>"

definition WriteBatch :: "coins_db \<Rightarrow> batch_op list \<Rightarrow> (bool \<times> coins_db) option" where
  "WriteBatch db batch = (if db_writable db then Some (True, foldl batch_apply db batch) else None)"

fun batch_coins :: "'p secp256k1 \<Rightarrow> CCoinsMap \<Rightarrow> batch_op list option" where
  "batch_coins ec [] = Some []"
| "batch_coins ec ((txid, e) # mapCoins) =
     (if entry_dirty e then
        (case BatchWriteCoins ec txid (entry_coins e) of
           None \<Rightarrow> None
         | Some op \<Rightarrow> map_option ((#) op) (batch_coins ec mapCoins))
      else batch_coins ec mapCoins)"

definition CCoinsViewDB_BatchWrite ::
  "'p secp256k1 \<Rightarrow> coins_db \<Rightarrow> CCoinsMap \<Rightarrow> txid \<Rightarrow> (bool \<times> coins_db) option" where
  "CCoinsViewDB_BatchWrite ec db mapCoins hashBlock =
     (case batch_coins ec mapCoins of
        None \<Rightarrow> None
      | Some batch \<Rightarrow> WriteBatch db (batch @ (if hashBlock \<noteq> 0 then [BatchWriteHashBestChain hashBlock] else [])))"

text \<open>\<open>Read\<close> decodes the value, and returns false when there is none or when it cannot be decoded.\<close>

definition db_coins :: "'p secp256k1 \<Rightarrow> coins_db \<Rightarrow> txid \<Rightarrow> CCoins option" where
  "db_coins ec db txid =
     (case db_map db (Coins_key txid) of
        None \<Rightarrow> None
      | Some v \<Rightarrow> (case Unserialize_CCoins ec v of Inl _ \<Rightarrow> None | Inr (coins, _) \<Rightarrow> Some coins))"

definition db_best_block :: "coins_db \<Rightarrow> txid" where
  "db_best_block db =
     (case db_map db Best_key of
        None \<Rightarrow> 0
      | Some v \<Rightarrow> (case READDATA 32 v of Inl _ \<Rightarrow> 0 | Inr (hash, _) \<Rightarrow> hash))"

definition CCoinsViewDB :: "'p secp256k1 \<Rightarrow> coins_db CCoinsView" where
  "CCoinsViewDB ec = \<lparr>
     view_GetCoins = (\<lambda>db txid. (db_coins ec db txid, db)),
     view_HaveCoins = (\<lambda>db txid. (db_map db (Coins_key txid) \<noteq> None, db)),
     view_GetBestBlock = (\<lambda>db. (db_best_block db, db)),
     view_BatchWrite = CCoinsViewDB_BatchWrite ec\<rparr>"

section \<open>The cache\<close>

record 'v CCoinsViewCache =
  cache_base :: 'v
  hasModifier :: bool
  hashBlock :: txid
  cacheCoins :: CCoinsMap

definition new_CCoinsViewCache :: "'v \<Rightarrow> 'v CCoinsViewCache" where
  "new_CCoinsViewCache baseIn = \<lparr>cache_base = baseIn, hasModifier = False, hashBlock = 0, cacheCoins = []\<rparr>"

definition FetchCoins ::
  "'v CCoinsView \<Rightarrow> 'v CCoinsViewCache \<Rightarrow> txid \<Rightarrow> CCoinsCacheEntry option \<times> 'v CCoinsViewCache" where
  "FetchCoins view cache txid =
     (case map_of (cacheCoins cache) txid of
        Some e \<Rightarrow> (Some e, cache)
      | None \<Rightarrow>
          (case view_GetCoins view (cache_base cache) txid of
             (None, b) \<Rightarrow> (None, cache\<lparr>cache_base := b\<rparr>)
           | (Some tmp, b) \<Rightarrow>
               let ret = \<lparr>entry_coins = tmp, entry_flags = (if IsPruned tmp then FRESH else 0)\<rparr>
               in (Some ret, cache\<lparr>cache_base := b, cacheCoins := (txid, ret) # cacheCoins cache\<rparr>)))"

definition cache_GetCoins ::
  "'v CCoinsView \<Rightarrow> 'v CCoinsViewCache \<Rightarrow> txid \<Rightarrow> CCoins option \<times> 'v CCoinsViewCache" where
  "cache_GetCoins view cache txid =
     (case FetchCoins view cache txid of
        (Some it, cache) \<Rightarrow> (Some (entry_coins it), cache)
      | (None, cache) \<Rightarrow> (None, cache))"

definition AccessCoins ::
  "'v CCoinsView \<Rightarrow> 'v CCoinsViewCache \<Rightarrow> txid \<Rightarrow> CCoins option \<times> 'v CCoinsViewCache" where
  "AccessCoins view cache txid =
     (case FetchCoins view cache txid of
        (None, cache) \<Rightarrow> (None, cache)
      | (Some it, cache) \<Rightarrow> (Some (entry_coins it), cache))"

definition cache_HaveCoins :: "'v CCoinsView \<Rightarrow> 'v CCoinsViewCache \<Rightarrow> txid \<Rightarrow> bool \<times> 'v CCoinsViewCache" where
  "cache_HaveCoins view cache txid =
     (case FetchCoins view cache txid of
        (Some it, cache) \<Rightarrow> (coins_vout (entry_coins it) \<noteq> [], cache)
      | (None, cache) \<Rightarrow> (False, cache))"

definition cache_GetBestBlock :: "'v CCoinsView \<Rightarrow> 'v CCoinsViewCache \<Rightarrow> txid \<times> 'v CCoinsViewCache" where
  "cache_GetBestBlock view cache =
     (if hashBlock cache = 0
      then (case view_GetBestBlock view (cache_base cache) of
              (hash, b) \<Rightarrow> (hash, cache\<lparr>cache_base := b, hashBlock := hash\<rparr>))
      else (hashBlock cache, cache))"

definition SetBestBlock :: "'v CCoinsViewCache \<Rightarrow> txid \<Rightarrow> 'v CCoinsViewCache" where
  "SetBestBlock cache hashBlockIn = cache\<lparr>hashBlock := hashBlockIn\<rparr>"

text \<open>\<open>ModifyCoins\<close>, the access through the modifier, and its destructor.\<close>

definition ModifyCoins ::
  "'v CCoinsView \<Rightarrow> 'v CCoinsViewCache \<Rightarrow> txid \<Rightarrow> 'v CCoinsViewCache option" where
  "ModifyCoins view cache txid =
     (if hasModifier cache then None
      else
        let (ret, cache) =
              (case map_of (cacheCoins cache) txid of
                 Some e \<Rightarrow> (e, cache)
               | None \<Rightarrow>
                   (case view_GetCoins view (cache_base cache) txid of
                      (None, b) \<Rightarrow> (\<lparr>entry_coins = CCoins_Clear, entry_flags = FRESH\<rparr>, cache\<lparr>cache_base := b\<rparr>)
                    | (Some coins, b) \<Rightarrow>
                        (\<lparr>entry_coins = coins, entry_flags = (if IsPruned coins then FRESH else 0)\<rparr>,
                         cache\<lparr>cache_base := b\<rparr>)))
        in Some (cache\<lparr>hasModifier := True,
             cacheCoins := AList.update txid (ret\<lparr>entry_flags := entry_flags ret OR DIRTY\<rparr>) (cacheCoins cache)\<rparr>))"

definition modifier_coins :: "'v CCoinsViewCache \<Rightarrow> txid \<Rightarrow> CCoins" where
  "modifier_coins cache txid =
     (case map_of (cacheCoins cache) txid of Some e \<Rightarrow> entry_coins e | None \<Rightarrow> CCoins_Clear)"

definition modifier_assign :: "'v CCoinsViewCache \<Rightarrow> txid \<Rightarrow> CCoins \<Rightarrow> 'v CCoinsViewCache" where
  "modifier_assign cache txid coins =
     (case map_of (cacheCoins cache) txid of
        Some e \<Rightarrow> cache\<lparr>cacheCoins := AList.update txid (e\<lparr>entry_coins := coins\<rparr>) (cacheCoins cache)\<rparr>
      | None \<Rightarrow> cache)"

definition CCoinsModifier_destroy :: "'v CCoinsViewCache \<Rightarrow> txid \<Rightarrow> 'v CCoinsViewCache option" where
  "CCoinsModifier_destroy cache txid =
     (if \<not> hasModifier cache then None
      else
        let cache = cache\<lparr>hasModifier := False\<rparr>;
            cache = modifier_assign cache txid (Cleanup (modifier_coins cache txid))
        in case map_of (cacheCoins cache) txid of
             Some e \<Rightarrow>
               if entry_fresh e \<and> IsPruned (entry_coins e)
               then Some (cache\<lparr>cacheCoins := AList.delete txid (cacheCoins cache)\<rparr>)
               else Some cache
           | None \<Rightarrow> Some cache)"

definition with_modifier ::
  "'v CCoinsView \<Rightarrow> 'v CCoinsViewCache \<Rightarrow> txid \<Rightarrow> (CCoins \<Rightarrow> 'r \<times> CCoins) \<Rightarrow> ('r \<times> 'v CCoinsViewCache) option" where
  "with_modifier view cache txid f =
     (case ModifyCoins view cache txid of
        None \<Rightarrow> None
      | Some cache \<Rightarrow>
          (case f (modifier_coins cache txid) of
             (r, coins) \<Rightarrow>
               (case CCoinsModifier_destroy (modifier_assign cache txid coins) txid of
                  None \<Rightarrow> None
                | Some cache \<Rightarrow> Some (r, cache))))"

section \<open>Writing to the base\<close>

definition batch_entry :: "'v CCoinsViewCache \<Rightarrow> txid \<times> CCoinsCacheEntry \<Rightarrow> 'v CCoinsViewCache option" where
  "batch_entry cache it =
     (case it of (txid, e) \<Rightarrow>
        if entry_dirty e then
          (case map_of (cacheCoins cache) txid of
             None \<Rightarrow>
               if \<not> IsPruned (entry_coins e) then
                 (if \<not> entry_fresh e then None
                  else Some (cache\<lparr>cacheCoins :=
                    (txid, \<lparr>entry_coins = entry_coins e, entry_flags = DIRTY OR FRESH\<rparr>) # cacheCoins cache\<rparr>))
               else Some cache
           | Some itUs \<Rightarrow>
               if entry_fresh itUs \<and> IsPruned (entry_coins e)
               then Some (cache\<lparr>cacheCoins := AList.delete txid (cacheCoins cache)\<rparr>)
               else Some (cache\<lparr>cacheCoins :=
                 AList.update txid \<lparr>entry_coins = entry_coins e, entry_flags = entry_flags itUs OR DIRTY\<rparr> (cacheCoins cache)\<rparr>))
        else Some cache)"

fun batch_entries :: "'v CCoinsViewCache \<Rightarrow> CCoinsMap \<Rightarrow> 'v CCoinsViewCache option" where
  "batch_entries cache [] = Some cache"
| "batch_entries cache (it # mapCoins) =
     (case batch_entry cache it of None \<Rightarrow> None | Some cache \<Rightarrow> batch_entries cache mapCoins)"

definition cache_BatchWrite ::
  "'v CCoinsViewCache \<Rightarrow> CCoinsMap \<Rightarrow> txid \<Rightarrow> (bool \<times> 'v CCoinsViewCache) option" where
  "cache_BatchWrite cache mapCoins hashBlockIn =
     (if hasModifier cache then None
      else case batch_entries cache mapCoins of
             None \<Rightarrow> None
           | Some cache \<Rightarrow> Some (True, cache\<lparr>hashBlock := hashBlockIn\<rparr>))"

definition Flush :: "'v CCoinsView \<Rightarrow> 'v CCoinsViewCache \<Rightarrow> (bool \<times> 'v CCoinsViewCache) option" where
  "Flush view cache =
     (case view_BatchWrite view (cache_base cache) (cacheCoins cache) (hashBlock cache) of
        None \<Rightarrow> None
      | Some (fOk, b) \<Rightarrow> Some (fOk, cache\<lparr>cache_base := b, cacheCoins := []\<rparr>))"

definition GetCacheSize :: "'v CCoinsViewCache \<Rightarrow> u32" where
  "GetCacheSize cache = word_of_nat (length (cacheCoins cache))"

section \<open>Reading the inputs of a transaction\<close>

definition GetOutputFor :: "'v CCoinsView \<Rightarrow> 'v CCoinsViewCache \<Rightarrow> CTxIn \<Rightarrow> (CTxOut \<times> 'v CCoinsViewCache) option" where
  "GetOutputFor view cache input =
     (case AccessCoins view cache (out_hash (prevout input)) of
        (None, _) \<Rightarrow> None
      | (Some coins, cache) \<Rightarrow>
          if IsAvailable coins (out_n (prevout input))
          then Some (coins_vout coins ! unat (out_n (prevout input)), cache) else None)"

fun GetValueIn_loop ::
  "'v CCoinsView \<Rightarrow> 'v CCoinsViewCache \<Rightarrow> CTxIn list \<Rightarrow> CAmount \<Rightarrow> (CAmount \<times> 'v CCoinsViewCache) option" where
  "GetValueIn_loop view cache [] nResult = Some (nResult, cache)"
| "GetValueIn_loop view cache (txin # ins) nResult =
     (case GetOutputFor view cache txin of
        None \<Rightarrow> None
      | Some (txout, cache) \<Rightarrow> GetValueIn_loop view cache ins (nResult + nValue txout))"

definition GetValueIn ::
  "'v CCoinsView \<Rightarrow> 'v CCoinsViewCache \<Rightarrow> CTransaction \<Rightarrow> (CAmount \<times> 'v CCoinsViewCache) option" where
  "GetValueIn view cache tx =
     (if IsCoinBase tx then Some (0, cache)
      else if HasZerocoinSpendInputs tx then Some (GetZerocoinSpent tx, cache)
      else GetValueIn_loop view cache (vin tx) 0)"

fun HaveInputs_loop :: "'v CCoinsView \<Rightarrow> 'v CCoinsViewCache \<Rightarrow> CTxIn list \<Rightarrow> bool \<times> 'v CCoinsViewCache" where
  "HaveInputs_loop view cache [] = (True, cache)"
| "HaveInputs_loop view cache (txin # ins) =
     (case AccessCoins view cache (out_hash (prevout txin)) of
        (None, cache) \<Rightarrow> (False, cache)
      | (Some coins, cache) \<Rightarrow>
          if \<not> IsAvailable coins (out_n (prevout txin)) then (False, cache) else HaveInputs_loop view cache ins)"

definition HaveInputs :: "'v CCoinsView \<Rightarrow> 'v CCoinsViewCache \<Rightarrow> CTransaction \<Rightarrow> bool \<times> 'v CCoinsViewCache" where
  "HaveInputs view cache tx =
     (if \<not> IsCoinBase tx \<and> \<not> HasZerocoinSpendInputs tx then HaveInputs_loop view cache (vin tx) else (True, cache))"

definition IsOutputAvailable :: "'v CCoinsView \<Rightarrow> 'v CCoinsViewCache \<Rightarrow> txid \<Rightarrow> int32 \<Rightarrow> bool \<times> 'v CCoinsViewCache" where
  "IsOutputAvailable view cache txId index =
     (case AccessCoins view cache txId of
        (None, cache) \<Rightarrow> (False, cache)
      | (Some coins, cache) \<Rightarrow> (IsAvailable coins index, cache))"

text \<open>The virtual functions of a cache.\<close>

definition cache_view :: "'v CCoinsView \<Rightarrow> 'v CCoinsViewCache CCoinsView" where
  "cache_view view = \<lparr>
     view_GetCoins = cache_GetCoins view,
     view_HaveCoins = cache_HaveCoins view,
     view_GetBestBlock = cache_GetBestBlock view,
     view_BatchWrite = cache_BatchWrite\<rparr>"

section \<open>What a view promises\<close>

text \<open>The coins that count: a pruned entry is as good as none.\<close>

definition live :: "CCoins option \<Rightarrow> CCoins option" where
  "live r = (case r of None \<Rightarrow> None | Some coins \<Rightarrow> if IsPruned coins then None else Some coins)"

definition merge :: "CCoinsMap \<Rightarrow> (txid \<Rightarrow> CCoins option) \<Rightarrow> txid \<Rightarrow> CCoins option" where
  "merge m u txid =
     (case map_of m txid of
        Some e \<Rightarrow> if entry_dirty e then live (Some (entry_coins e)) else u txid
      | None \<Rightarrow> u txid)"

text \<open>
  A map that fits a view: a fresh entry is unknown to the view, any other has been read
  from it.  What else a view needs to take a map is the parameter \<open>takes\<close> of the locale: a cache
  needs nothing, the database has to be writable and to be able to encode the coins.
\<close>

definition writable :: "(txid \<Rightarrow> CCoins option) \<Rightarrow> (txid \<Rightarrow> bool) \<Rightarrow> CCoinsMap \<Rightarrow> bool" where
  "writable u known m \<longleftrightarrow> distinct (map fst m)
     \<and> (\<forall>txid e. map_of m txid = Some e \<longrightarrow> entry_dirty e \<longrightarrow>
          (entry_fresh e \<longrightarrow> u txid = None) \<and> (\<not> entry_fresh e \<longrightarrow> known txid))"

locale coins_view =
  fixes view :: "'v CCoinsView"
    and ok :: "'v \<Rightarrow> bool"
    and known :: "'v \<Rightarrow> txid \<Rightarrow> bool"
    and utxo :: "'v \<Rightarrow> txid \<Rightarrow> CCoins option"
    and best :: "'v \<Rightarrow> txid"
    and takes :: "'v \<Rightarrow> CCoinsMap \<Rightarrow> bool"
  assumes get_coins: "ok v \<Longrightarrow> view_GetCoins view v txid = (r, v') \<Longrightarrow>
      live r = utxo v txid \<and> ok v' \<and> utxo v' = utxo v \<and> best v' = best v
      \<and> (\<forall>t. known v t \<longrightarrow> known v' t) \<and> (r \<noteq> None \<longrightarrow> known v' txid)"
    and get_best: "ok v \<Longrightarrow> view_GetBestBlock view v = (h, v') \<Longrightarrow>
      h = best v \<and> ok v' \<and> utxo v' = utxo v \<and> best v' = best v \<and> (\<forall>t. known v t \<longrightarrow> known v' t)"
    and batch_write: "ok v \<Longrightarrow> writable (utxo v) (known v) m \<Longrightarrow> takes v m \<Longrightarrow>
      \<exists>v'. view_BatchWrite view v m h = Some (True, v') \<and> ok v' \<and> utxo v' = merge m (utxo v)
        \<and> (h \<noteq> 0 \<longrightarrow> best v' = h)"

lemma flag_simps [simp]:
  "entry_fresh (e\<lparr>entry_coins := c\<rparr>) = entry_fresh e" "entry_dirty (e\<lparr>entry_coins := c\<rparr>) = entry_dirty e"
  "entry_fresh \<lparr>entry_coins = c, entry_flags = FRESH\<rparr>" "\<not> entry_dirty \<lparr>entry_coins = c, entry_flags = FRESH\<rparr>"
  "\<not> entry_fresh \<lparr>entry_coins = c, entry_flags = 0\<rparr>" "\<not> entry_dirty \<lparr>entry_coins = c, entry_flags = 0\<rparr>"
  "entry_fresh \<lparr>entry_coins = c, entry_flags = DIRTY OR FRESH\<rparr>"
  "entry_dirty \<lparr>entry_coins = c, entry_flags = DIRTY OR FRESH\<rparr>"
  by (simp_all add: entry_fresh_def entry_dirty_def FRESH_def DIRTY_def)

lemma flag_or [simp]:
  "entry_fresh (e\<lparr>entry_flags := entry_flags e OR DIRTY\<rparr>) = entry_fresh e"
  "entry_dirty (e\<lparr>entry_flags := entry_flags e OR DIRTY\<rparr>)"
  "entry_fresh \<lparr>entry_coins = c, entry_flags = entry_flags e OR DIRTY\<rparr> = entry_fresh e"
  "entry_dirty \<lparr>entry_coins = c, entry_flags = entry_flags e OR DIRTY\<rparr>"
proof -
  have "(f OR 1) AND 2 = f AND 2" "(f OR 1) AND 1 = 1" for f :: byte
    by (simp_all add: bit.conj_disj_distrib2)
  then show "entry_fresh (e\<lparr>entry_flags := entry_flags e OR DIRTY\<rparr>) = entry_fresh e"
    "entry_dirty (e\<lparr>entry_flags := entry_flags e OR DIRTY\<rparr>)"
    "entry_fresh \<lparr>entry_coins = c, entry_flags = entry_flags e OR DIRTY\<rparr> = entry_fresh e"
    "entry_dirty \<lparr>entry_coins = c, entry_flags = entry_flags e OR DIRTY\<rparr>"
    by (simp_all add: entry_fresh_def entry_dirty_def FRESH_def DIRTY_def)
qed

lemma live_simps [simp]: "live None = None" "live (Some c) = (if IsPruned c then None else Some c)"
  by (simp_all add: live_def)

section \<open>The database is a view\<close>

text \<open>Coins that can be encoded and are read back as they were written; a map the database takes.\<close>

definition db_keeps :: "'p secp256k1 \<Rightarrow> CCoins \<Rightarrow> bool" where
  "db_keeps ec coins \<longleftrightarrow>
     (case Serialize_CCoins ec coins of
        None \<Rightarrow> False
      | Some v \<Rightarrow> (case Unserialize_CCoins ec v of Inl _ \<Rightarrow> False | Inr (coins', _) \<Rightarrow> coins' = coins))"

definition db_takes :: "'p secp256k1 \<Rightarrow> coins_db \<Rightarrow> CCoinsMap \<Rightarrow> bool" where
  "db_takes ec db m \<longleftrightarrow> db_writable db
     \<and> list_all (\<lambda>(txid, e). entry_dirty e \<and> \<not> IsPruned (entry_coins e) \<longrightarrow> db_keeps ec (entry_coins e)) m"

lemma db_keeps_storable:
  assumes "coins_storable coins" "ec_recovers ec"
  shows "db_keeps ec coins"
proof -
  obtain v where "Serialize_CCoins ec coins = Some v" "\<forall>r. Unserialize_CCoins ec (v @ r) = Inr (coins, r)"
    using Unserialize_CCoins_ser [OF assms] by blast
  moreover from this(2) have "Unserialize_CCoins ec v = Inr (coins, [])" by (metis append_Nil2)
  ultimately show ?thesis by (simp add: db_keeps_def)
qed

lemma BatchWriteCoins_read:
  assumes "\<not> IsPruned coins \<Longrightarrow> db_keeps ec coins"
  obtains op where "BatchWriteCoins ec txid coins = Some op"
    "db_coins ec (batch_apply db op) = (db_coins ec db)(txid := live (Some coins))"
    "db_best_block (batch_apply db op) = db_best_block db"
proof (cases "IsPruned coins")
  case True
  then show ?thesis
    by (intro that [of "Batch_erase (Coins_key txid)"])
       (auto simp: BatchWriteCoins_def db_coins_def db_best_block_def live_def fun_eq_iff)
next
  case False
  then obtain v w where "Serialize_CCoins ec coins = Some v" "Unserialize_CCoins ec v = Inr (coins, w)"
    using assms by (auto simp: db_keeps_def split: option.splits sum.splits)
  with False show ?thesis
    by (intro that [of "Batch_write (Coins_key txid) v"])
       (auto simp: BatchWriteCoins_def db_coins_def db_best_block_def live_def fun_eq_iff)
qed

lemma batch_coins_merge:
  assumes "distinct (map fst m)"
    "list_all (\<lambda>(txid, e). entry_dirty e \<and> \<not> IsPruned (entry_coins e) \<longrightarrow> db_keeps ec (entry_coins e)) m"
  shows "\<exists>batch. batch_coins ec m = Some batch
    \<and> (\<forall>db. db_coins ec (foldl batch_apply db batch) = merge m (db_coins ec db)
        \<and> db_best_block (foldl batch_apply db batch) = db_best_block db)"
  using assms
proof (induction m)
  case Nil
  show ?case by (simp add: merge_def fun_eq_iff)
next
  case (Cons x m)
  obtain txid e where x: "x = (txid, e)" by fastforce
  have none: "map_of m txid = None" using Cons.prems x by (simp add: map_of_eq_None_iff)
  obtain batch where batch: "batch_coins ec m = Some batch"
    "\<And>db. db_coins ec (foldl batch_apply db batch) = merge m (db_coins ec db)"
    "\<And>db. db_best_block (foldl batch_apply db batch) = db_best_block db"
    using Cons x by auto
  have step: "merge (x # m) u = merge m (if entry_dirty e then u(txid := live (Some (entry_coins e))) else u)" for u
    using none by (auto simp: merge_def x fun_eq_iff split: option.splits)
  show ?case
  proof (cases "entry_dirty e")
    case False
    then show ?thesis using batch by (simp add: x step [unfolded x])
  next
    case True
    then have "\<not> IsPruned (entry_coins e) \<Longrightarrow> db_keeps ec (entry_coins e)" using Cons.prems(2) x by simp
    note op = BatchWriteCoins_read [OF this, of txid]
    obtain op where "BatchWriteCoins ec txid (entry_coins e) = Some op" using op by blast
    with op have "BatchWriteCoins ec txid (entry_coins e) = Some op"
      "\<And>db. db_coins ec (batch_apply db op) = (db_coins ec db)(txid := live (Some (entry_coins e)))"
      "\<And>db. db_best_block (batch_apply db op) = db_best_block db"
      by (metis option.inject)+
    then show ?thesis using batch True by (simp add: x step [unfolded x])
  qed
qed

text \<open>The database never holds pruned coins.\<close>

definition db_inv :: "'p secp256k1 \<Rightarrow> coins_db \<Rightarrow> bool" where
  "db_inv ec db \<longleftrightarrow> (\<forall>txid coins. db_coins ec db txid = Some coins \<longrightarrow> \<not> IsPruned coins)"

lemma best_block_written:
  "db_best_block (batch_apply db (BatchWriteHashBestChain h)) = h"
  "db_coins ec (batch_apply db (BatchWriteHashBestChain h)) = db_coins ec db"
  using u256.unser_ser [of h "[]"]
  by (simp_all add: BatchWriteHashBestChain_def db_best_block_def db_coins_def fun_eq_iff)

interpretation db: coins_view "CCoinsViewDB ec" "db_inv ec" "\<lambda>_ _. True" "db_coins ec" db_best_block "db_takes ec"
  for ec :: "'p secp256k1"
proof unfold_locales
  show "live r = db_coins ec v txid \<and> db_inv ec v' \<and> db_coins ec v' = db_coins ec v \<and> db_best_block v' = db_best_block v
      \<and> (\<forall>t. True \<longrightarrow> True) \<and> (r \<noteq> None \<longrightarrow> True)"
    if "db_inv ec v" "view_GetCoins (CCoinsViewDB ec) v txid = (r, v')" for v txid r v'
    using that by (auto simp: CCoinsViewDB_def db_inv_def live_def split: option.splits)
  show "h = db_best_block v \<and> db_inv ec v' \<and> db_coins ec v' = db_coins ec v \<and> db_best_block v' = db_best_block v \<and> (\<forall>t. True \<longrightarrow> True)"
    if "db_inv ec v" "view_GetBestBlock (CCoinsViewDB ec) v = (h, v')" for v h v'
    using that by (auto simp: CCoinsViewDB_def)
  show "\<exists>v'. view_BatchWrite (CCoinsViewDB ec) v m h = Some (True, v') \<and> db_inv ec v' \<and> db_coins ec v' = merge m (db_coins ec v)
      \<and> (h \<noteq> 0 \<longrightarrow> db_best_block v' = h)"
    if "db_inv ec v" "writable (db_coins ec v) (\<lambda>_. True) m" "db_takes ec v m" for v m h
  proof -
    note v = that
    have inv: "db_inv ec v'" if "db_coins ec v' = merge m (db_coins ec v)" for v'
      using that v(1) by (auto simp: db_inv_def merge_def split: option.splits if_splits)
    obtain batch where "batch_coins ec m = Some batch"
      "\<And>db. db_coins ec (foldl batch_apply db batch) = merge m (db_coins ec db)"
      using batch_coins_merge [of m ec] v(2,3) by (auto simp: writable_def db_takes_def)
    with v(3) inv show ?thesis
      by (auto simp: CCoinsViewDB_def CCoinsViewDB_BatchWrite_def WriteBatch_def db_takes_def best_block_written)
  qed
qed

section \<open>A cache over a view is a view\<close>

definition cache_known :: "'v CCoinsViewCache \<Rightarrow> txid \<Rightarrow> bool" where
  "cache_known cache txid \<longleftrightarrow> map_of (cacheCoins cache) txid \<noteq> None"

definition cache_utxo :: "('v \<Rightarrow> txid \<Rightarrow> CCoins option) \<Rightarrow> 'v CCoinsViewCache \<Rightarrow> txid \<Rightarrow> CCoins option" where
  "cache_utxo utxo cache txid =
     (case map_of (cacheCoins cache) txid of
        Some e \<Rightarrow> live (Some (entry_coins e))
      | None \<Rightarrow> utxo (cache_base cache) txid)"

definition cache_best :: "('v \<Rightarrow> txid) \<Rightarrow> 'v CCoinsViewCache \<Rightarrow> txid" where
  "cache_best best cache = (if hashBlock cache = 0 then best (cache_base cache) else hashBlock cache)"

text \<open>
  A clean entry agrees with the base, a fresh one is unknown there, and any other has been
  read from it.
\<close>

definition entry_ok :: "CCoins option \<Rightarrow> bool \<Rightarrow> CCoinsCacheEntry \<Rightarrow> bool" where
  "entry_ok base_coins base_known e \<longleftrightarrow>
     (\<not> entry_dirty e \<longrightarrow> live (Some (entry_coins e)) = base_coins)
     \<and> (entry_fresh e \<longrightarrow> base_coins = None) \<and> (\<not> entry_fresh e \<longrightarrow> base_known)"

definition cache_ok ::
  "('v \<Rightarrow> bool) \<Rightarrow> ('v \<Rightarrow> txid \<Rightarrow> bool) \<Rightarrow> ('v \<Rightarrow> txid \<Rightarrow> CCoins option) \<Rightarrow> 'v CCoinsViewCache \<Rightarrow> bool" where
  "cache_ok ok known utxo cache \<longleftrightarrow> ok (cache_base cache) \<and> distinct (map fst (cacheCoins cache))
     \<and> (\<forall>txid e. map_of (cacheCoins cache) txid = Some e \<longrightarrow>
          entry_ok (utxo (cache_base cache) txid) (known (cache_base cache) txid) e)"

definition cache_inv ::
  "('v \<Rightarrow> bool) \<Rightarrow> ('v \<Rightarrow> txid \<Rightarrow> bool) \<Rightarrow> ('v \<Rightarrow> txid \<Rightarrow> CCoins option) \<Rightarrow> 'v CCoinsViewCache \<Rightarrow> bool" where
  "cache_inv ok known utxo cache \<longleftrightarrow> cache_ok ok known utxo cache \<and> \<not> hasModifier cache"

lemma cache_utxo_cases:
  "map_of (cacheCoins cache) txid = Some e \<Longrightarrow> cache_utxo utxo cache txid = live (Some (entry_coins e))"
  "map_of (cacheCoins cache) txid = None \<Longrightarrow> cache_utxo utxo cache txid = utxo (cache_base cache) txid"
  by (simp_all add: cache_utxo_def)

lemma cache_utxo_simps:
  "cache_utxo utxo (cache\<lparr>cacheCoins := (txid, e) # cacheCoins cache\<rparr>) =
     (cache_utxo utxo cache)(txid := live (Some (entry_coins e)))"
  "cache_utxo utxo (cache\<lparr>cacheCoins := AList.update txid e (cacheCoins cache)\<rparr>) =
     (cache_utxo utxo cache)(txid := live (Some (entry_coins e)))"
  "cache_utxo utxo (cache\<lparr>cacheCoins := AList.delete txid (cacheCoins cache)\<rparr>) =
     (cache_utxo utxo cache)(txid := utxo (cache_base cache) txid)"
  "cache_utxo utxo (cache\<lparr>hasModifier := m\<rparr>) = cache_utxo utxo cache"
  "cache_utxo utxo (cache\<lparr>hashBlock := h\<rparr>) = cache_utxo utxo cache"
  by (simp_all add: cache_utxo_def update_conv' delete_conv' fun_eq_iff split: option.split)

lemma cache_utxo_base:
  "utxo b = utxo (cache_base cache) \<Longrightarrow> cache_utxo utxo (cache\<lparr>cache_base := b\<rparr>) = cache_utxo utxo cache"
  by (simp add: cache_utxo_def fun_eq_iff split: option.split)

lemma cache_known_simps:
  "cache_known (cache\<lparr>cacheCoins := (txid, e) # cacheCoins cache\<rparr>) t \<longleftrightarrow> t = txid \<or> cache_known cache t"
  "cache_known (cache\<lparr>cacheCoins := AList.update txid e (cacheCoins cache)\<rparr>) t \<longleftrightarrow> t = txid \<or> cache_known cache t"
  "cache_known (cache\<lparr>cacheCoins := AList.delete txid (cacheCoins cache)\<rparr>) t \<longleftrightarrow> t \<noteq> txid \<and> cache_known cache t"
  by (simp_all add: cache_known_def update_conv' delete_conv')

context coins_view
begin

lemma cache_okD:
  "cache_ok ok known utxo cache \<Longrightarrow> map_of (cacheCoins cache) txid = Some e \<Longrightarrow>
   entry_ok (utxo (cache_base cache) txid) (known (cache_base cache) txid) e"
  by (simp add: cache_ok_def)

lemma cache_ok_base:
  assumes "cache_ok ok known utxo cache" "view_GetCoins view (cache_base cache) txid = (r, b)"
  shows "cache_ok ok known utxo (cache\<lparr>cache_base := b\<rparr>)" "utxo b = utxo (cache_base cache)"
    "best b = best (cache_base cache)" "live r = utxo (cache_base cache) txid" "r \<noteq> None \<Longrightarrow> known b txid"
proof -
  have g: "live r = utxo (cache_base cache) txid \<and> ok b \<and> utxo b = utxo (cache_base cache) \<and> best b = best (cache_base cache)
      \<and> (\<forall>t. known (cache_base cache) t \<longrightarrow> known b t) \<and> (r \<noteq> None \<longrightarrow> known b txid)"
    using assms by (intro get_coins) (simp_all add: cache_ok_def)
  then show "cache_ok ok known utxo (cache\<lparr>cache_base := b\<rparr>)"
    using assms(1) by (simp add: cache_ok_def entry_ok_def)
  from g show "utxo b = utxo (cache_base cache)" "best b = best (cache_base cache)"
    "live r = utxo (cache_base cache) txid" "r \<noteq> None \<Longrightarrow> known b txid" by simp_all
qed

lemma cache_ok_update:
  assumes "cache_ok ok known utxo cache"
    "entry_ok (utxo (cache_base cache) txid) (known (cache_base cache) txid) e"
  shows "cache_ok ok known utxo (cache\<lparr>cacheCoins := AList.update txid e (cacheCoins cache)\<rparr>)"
  using assms by (simp add: cache_ok_def update_conv' distinct_update)

lemma cache_ok_delete:
  "cache_ok ok known utxo cache \<Longrightarrow> cache_ok ok known utxo (cache\<lparr>cacheCoins := AList.delete txid (cacheCoins cache)\<rparr>)"
  by (simp add: cache_ok_def delete_conv' distinct_delete)

lemma cache_ok_insert:
  assumes "cache_ok ok known utxo cache" "map_of (cacheCoins cache) txid = None"
    "entry_ok (utxo (cache_base cache) txid) (known (cache_base cache) txid) e"
  shows "cache_ok ok known utxo (cache\<lparr>cacheCoins := (txid, e) # cacheCoins cache\<rparr>)"
  using assms by (auto simp: cache_ok_def map_of_eq_None_iff)

text \<open>Reading fills the cache and changes nothing else.\<close>

lemma FetchCoins_ok:
  assumes "cache_ok ok known utxo cache" "FetchCoins view cache txid = (r, cache')"
  shows "cache_ok ok known utxo cache'" "cache_utxo utxo cache' = cache_utxo utxo cache"
    "cache_best best cache' = cache_best best cache" "hasModifier cache' = hasModifier cache"
    "live (map_option entry_coins r) = cache_utxo utxo cache txid"
    "cache_known cache t \<Longrightarrow> cache_known cache' t" "r \<noteq> None \<Longrightarrow> cache_known cache' txid"
proof -
  have "cache_ok ok known utxo cache' \<and> cache_utxo utxo cache' = cache_utxo utxo cache
    \<and> cache_best best cache' = cache_best best cache \<and> hasModifier cache' = hasModifier cache
    \<and> live (map_option entry_coins r) = cache_utxo utxo cache txid
    \<and> (cache_known cache t \<longrightarrow> cache_known cache' t) \<and> (r \<noteq> None \<longrightarrow> cache_known cache' txid)"
  proof (cases "map_of (cacheCoins cache) txid")
    case (Some e)
    then have "r = Some e" "cache' = cache" using assms(2) by (simp_all add: FetchCoins_def)
    then show ?thesis using assms(1) Some by (simp add: cache_utxo_cases cache_known_def)
  next
    case None
    obtain q b where g: "view_GetCoins view (cache_base cache) txid = (q, b)" by fastforce
    note base = cache_ok_base [OF assms(1) g]
    note same = cache_utxo_base [OF base(2)]
    show ?thesis
    proof (cases q)
      case q: None
      then have "r = None" "cache' = cache\<lparr>cache_base := b\<rparr>" using assms(2) None g by (simp_all add: FetchCoins_def)
      then show ?thesis
        using base same None q by (simp add: cache_utxo_cases cache_best_def cache_known_def)
    next
      case (Some tmp)
      define e where "e = \<lparr>entry_coins = tmp, entry_flags = (if IsPruned tmp then FRESH else 0)\<rparr>"
      define cache1 where "cache1 = cache\<lparr>cache_base := b\<rparr>"
      have r: "r = Some e" "cache' = cache1\<lparr>cacheCoins := (txid, e) # cacheCoins cache1\<rparr>"
        using assms(2) None g Some by (simp_all add: FetchCoins_def e_def cache1_def Let_def)
      have "entry_ok (utxo b txid) (known b txid) e"
        using base Some by (auto simp: entry_ok_def e_def)
      then have ok: "cache_ok ok known utxo cache'"
        unfolding r(2) using base(1) None by (intro cache_ok_insert) (simp_all add: cache1_def)
      have coins: "live (Some (entry_coins e)) = cache_utxo utxo cache txid"
        using base(4) Some None by (simp add: e_def cache_utxo_cases)
      have "cache_utxo utxo cache' = (cache_utxo utxo cache)(txid := live (Some (entry_coins e)))"
        unfolding r(2) cache_utxo_simps using same by (simp add: cache1_def)
      then have "cache_utxo utxo cache' = cache_utxo utxo cache" using coins by simp
      then show ?thesis
        using ok coins base(3) by (simp add: r cache1_def cache_best_def cache_known_def)
    qed
  qed
  then show "cache_ok ok known utxo cache'" "cache_utxo utxo cache' = cache_utxo utxo cache"
    "cache_best best cache' = cache_best best cache" "hasModifier cache' = hasModifier cache"
    "live (map_option entry_coins r) = cache_utxo utxo cache txid"
    "cache_known cache t \<Longrightarrow> cache_known cache' t" "r \<noteq> None \<Longrightarrow> cache_known cache' txid" by simp_all
qed

lemma batch_entry_ok:
  assumes "cache_ok ok known utxo cache"
    "entry_dirty e \<Longrightarrow> entry_fresh e \<Longrightarrow> cache_utxo utxo cache txid = None"
    "entry_dirty e \<Longrightarrow> \<not> entry_fresh e \<Longrightarrow> cache_known cache txid"
  obtains cache' where "batch_entry cache (txid, e) = Some cache'" "cache_ok ok known utxo cache'"
    "hasModifier cache' = hasModifier cache"
    "cache_utxo utxo cache' = (if entry_dirty e then (cache_utxo utxo cache)(txid := live (Some (entry_coins e))) else cache_utxo utxo cache)"
    "\<And>t. t \<noteq> txid \<Longrightarrow> cache_known cache' t = cache_known cache t"
proof (cases "entry_dirty e")
  case False
  then show ?thesis using that [of cache] assms(1) by (simp add: batch_entry_def)
next
  case dirty: True
  show ?thesis
  proof (cases "map_of (cacheCoins cache) txid")
    case None
    then have fresh: "entry_fresh e" "utxo (cache_base cache) txid = None"
      using assms(2,3) dirty by (auto simp: cache_known_def cache_utxo_cases)
    show ?thesis
    proof (cases "IsPruned (entry_coins e)")
      case True
      have "(cache_utxo utxo cache)(txid := None) = cache_utxo utxo cache" using None fresh by (simp add: fun_upd_idem cache_utxo_cases)
      then show ?thesis
        using that [of cache] None dirty assms(1) True by (simp add: batch_entry_def)
    next
      case False
      let ?e = "\<lparr>entry_coins = entry_coins e, entry_flags = DIRTY OR FRESH\<rparr>"
      have "batch_entry cache (txid, e) = Some (cache\<lparr>cacheCoins := (txid, ?e) # cacheCoins cache\<rparr>)"
        using None dirty False fresh by (simp add: batch_entry_def)
      moreover have "cache_ok ok known utxo (cache\<lparr>cacheCoins := (txid, ?e) # cacheCoins cache\<rparr>)"
        using fresh by (intro cache_ok_insert assms(1) None) (simp add: entry_ok_def)
      ultimately show ?thesis using dirty
        by (intro that [of "cache\<lparr>cacheCoins := (txid, ?e) # cacheCoins cache\<rparr>"]) (simp_all add: cache_utxo_simps cache_known_simps)
    qed
  next
    case (Some us)
    note us = cache_okD [OF assms(1) Some]
    show ?thesis
    proof (cases "entry_fresh us \<and> IsPruned (entry_coins e)")
      case True
      then have "utxo (cache_base cache) txid = None" using us by (simp add: entry_ok_def)
      moreover have "batch_entry cache (txid, e) = Some (cache\<lparr>cacheCoins := AList.delete txid (cacheCoins cache)\<rparr>)"
        using Some dirty True by (simp add: batch_entry_def)
      ultimately show ?thesis
        using dirty True cache_ok_delete [OF assms(1)]
        by (intro that [of "cache\<lparr>cacheCoins := AList.delete txid (cacheCoins cache)\<rparr>"]) (simp_all add: cache_utxo_simps cache_known_simps)
    next
      case False
      let ?e = "\<lparr>entry_coins = entry_coins e, entry_flags = entry_flags us OR DIRTY\<rparr>"
      have "entry_ok (utxo (cache_base cache) txid) (known (cache_base cache) txid) ?e"
        using us by (simp add: entry_ok_def)
      then have "cache_ok ok known utxo (cache\<lparr>cacheCoins := AList.update txid ?e (cacheCoins cache)\<rparr>)"
        by (rule cache_ok_update [OF assms(1)])
      moreover have "batch_entry cache (txid, e) = Some (cache\<lparr>cacheCoins := AList.update txid ?e (cacheCoins cache)\<rparr>)"
        using Some dirty False by (auto simp: batch_entry_def)
      ultimately show ?thesis using dirty
        by (intro that [of "cache\<lparr>cacheCoins := AList.update txid ?e (cacheCoins cache)\<rparr>"]) (simp_all add: cache_utxo_simps cache_known_simps)
    qed
  qed
qed

end

lemma writable_Cons:
  assumes "writable u known ((txid, e) # m)"
  shows "entry_dirty e \<Longrightarrow> entry_fresh e \<Longrightarrow> u txid = None"
    "entry_dirty e \<Longrightarrow> \<not> entry_fresh e \<Longrightarrow> known txid"
    "\<lbrakk>\<And>t. t \<noteq> txid \<Longrightarrow> u' t = u t; \<And>t. t \<noteq> txid \<Longrightarrow> known' t = known t\<rbrakk> \<Longrightarrow> writable u' known' m"
proof -
  show "entry_dirty e \<Longrightarrow> entry_fresh e \<Longrightarrow> u txid = None" "entry_dirty e \<Longrightarrow> \<not> entry_fresh e \<Longrightarrow> known txid"
    using assms by (simp_all add: writable_def)
  assume same: "\<And>t. t \<noteq> txid \<Longrightarrow> u' t = u t" "\<And>t. t \<noteq> txid \<Longrightarrow> known' t = known t"
  have "t \<noteq> txid" if "map_of m t = Some e'" for t e'
    using that assms by (auto simp: writable_def dest!: map_of_SomeD) (metis fst_conv image_eqI)
  then show "writable u' known' m" using assms same by (auto simp: writable_def split: if_splits)
qed

lemma merge_Cons:
  assumes "txid \<notin> fst ` set m"
  shows "merge ((txid, e) # m) u = merge m (if entry_dirty e then u(txid := live (Some (entry_coins e))) else u)"
proof -
  have "map_of m txid = None" using assms by (simp add: map_of_eq_None_iff)
  then show ?thesis by (auto simp: merge_def fun_eq_iff split: option.split)
qed

context coins_view
begin

lemma batch_entries_ok:
  assumes "cache_ok ok known utxo cache" "writable (cache_utxo utxo cache) (cache_known cache) m"
  shows "\<exists>cache'. batch_entries cache m = Some cache' \<and> cache_ok ok known utxo cache'
    \<and> hasModifier cache' = hasModifier cache \<and> cache_utxo utxo cache' = merge m (cache_utxo utxo cache)"
  using assms
proof (induction m arbitrary: cache)
  case Nil
  then show ?case by (simp add: merge_def fun_eq_iff)
next
  case (Cons x m)
  obtain txid e where x: "x = (txid, e)" by fastforce
  note w = writable_Cons [OF Cons.prems(2) [unfolded x]]
  obtain cache1 where c1: "batch_entry cache (txid, e) = Some cache1" "cache_ok ok known utxo cache1"
    "hasModifier cache1 = hasModifier cache"
    "cache_utxo utxo cache1 = (if entry_dirty e then (cache_utxo utxo cache)(txid := live (Some (entry_coins e))) else cache_utxo utxo cache)"
    "\<And>t. t \<noteq> txid \<Longrightarrow> cache_known cache1 t = cache_known cache t"
    using batch_entry_ok [OF Cons.prems(1) w(1,2)] by blast
  have "writable (cache_utxo utxo cache1) (cache_known cache1) m"
    by (rule w(3)) (simp_all add: c1)
  then obtain cache' where c: "batch_entries cache1 m = Some cache'" "cache_ok ok known utxo cache'"
    "hasModifier cache' = hasModifier cache1" "cache_utxo utxo cache' = merge m (cache_utxo utxo cache1)"
    using Cons.IH [OF c1(2)] by blast
  have "txid \<notin> fst ` set m" using Cons.prems(2) x by (simp add: writable_def)
  then have "merge (x # m) (cache_utxo utxo cache) = merge m (cache_utxo utxo cache1)"
    unfolding x c1(4) by (rule merge_Cons)
  then show ?case using c c1 by (simp add: x)
qed

lemma cache_GetCoins_ok:
  assumes "cache_inv ok known utxo cache" "cache_GetCoins view cache txid = (r, cache')"
  shows "live r = cache_utxo utxo cache txid \<and> cache_inv ok known utxo cache' \<and> cache_utxo utxo cache' = cache_utxo utxo cache
    \<and> cache_best best cache' = cache_best best cache
    \<and> (\<forall>t. cache_known cache t \<longrightarrow> cache_known cache' t) \<and> (r \<noteq> None \<longrightarrow> cache_known cache' txid)"
proof -
  obtain q cache1 where f: "FetchCoins view cache txid = (q, cache1)" by fastforce
  have "r = map_option entry_coins q" "cache' = cache1"
    using assms(2) f by (auto simp: cache_GetCoins_def split: option.splits)
  moreover have "cache_ok ok known utxo cache" "\<not> hasModifier cache" using assms(1) by (simp_all add: cache_inv_def)
  ultimately show ?thesis using FetchCoins_ok [OF _ f] by (simp add: cache_inv_def)
qed

lemma AccessCoins_is_GetCoins: "AccessCoins view cache txid = cache_GetCoins view cache txid"
  by (simp add: AccessCoins_def cache_GetCoins_def split: prod.split option.split)

lemma cache_GetBestBlock_ok:
  assumes "cache_inv ok known utxo cache" "cache_GetBestBlock view cache = (h, cache')"
  shows "h = cache_best best cache \<and> cache_inv ok known utxo cache' \<and> cache_utxo utxo cache' = cache_utxo utxo cache
    \<and> cache_best best cache' = cache_best best cache \<and> (\<forall>t. cache_known cache t \<longrightarrow> cache_known cache' t)"
proof (cases "hashBlock cache = 0")
  case True
  obtain b where g: "view_GetBestBlock view (cache_base cache) = (h, b)" "cache' = cache\<lparr>cache_base := b, hashBlock := h\<rparr>"
    using assms(2) True by (auto simp: cache_GetBestBlock_def split: prod.splits)
  have "ok (cache_base cache)" using assms(1) by (simp add: cache_inv_def cache_ok_def)
  note b = get_best [OF this g(1)]
  have "cache_utxo utxo cache' = cache_utxo utxo cache"
    unfolding g(2) using b by (simp add: cache_utxo_def fun_eq_iff split: option.split)
  moreover have "cache_inv ok known utxo cache'"
    using assms(1) b by (simp add: cache_inv_def cache_ok_def entry_ok_def g(2))
  ultimately show ?thesis using b True by (simp add: cache_best_def g(2) cache_known_def)
next
  case False
  then show ?thesis using assms by (auto simp: cache_GetBestBlock_def cache_best_def)
qed

lemma cache_BatchWrite_ok:
  assumes "cache_inv ok known utxo cache" "writable (cache_utxo utxo cache) (cache_known cache) m"
  shows "\<exists>cache'. cache_BatchWrite cache m h = Some (True, cache') \<and> cache_inv ok known utxo cache'
    \<and> cache_utxo utxo cache' = merge m (cache_utxo utxo cache) \<and> (h \<noteq> 0 \<longrightarrow> cache_best best cache' = h)"
proof -
  have inv: "cache_ok ok known utxo cache" "\<not> hasModifier cache" using assms(1) by (simp_all add: cache_inv_def)
  obtain cache1 where c: "batch_entries cache m = Some cache1" "cache_ok ok known utxo cache1"
    "hasModifier cache1 = hasModifier cache" "cache_utxo utxo cache1 = merge m (cache_utxo utxo cache)"
    using batch_entries_ok [OF inv(1) assms(2)] by blast
  have "cache_inv ok known utxo (cache1\<lparr>hashBlock := h\<rparr>)"
    using c inv by (simp add: cache_inv_def cache_ok_def)
  then show ?thesis
    using c inv by (simp add: cache_BatchWrite_def cache_utxo_simps cache_best_def)
qed

text \<open>A cache keeps the promise of its base.\<close>

lemma cache_is_view:
  "coins_view (cache_view view) (cache_inv ok known utxo) cache_known (cache_utxo utxo) (cache_best best)
    (\<lambda>_ _. True)"
proof
  show "live r = cache_utxo utxo v txid \<and> cache_inv ok known utxo v' \<and> cache_utxo utxo v' = cache_utxo utxo v
      \<and> cache_best best v' = cache_best best v
      \<and> (\<forall>t. cache_known v t \<longrightarrow> cache_known v' t) \<and> (r \<noteq> None \<longrightarrow> cache_known v' txid)"
    if "cache_inv ok known utxo v" "view_GetCoins (cache_view view) v txid = (r, v')" for v txid r v'
    using that(2) by (intro cache_GetCoins_ok [OF that(1)]) (simp add: cache_view_def)
  show "h = cache_best best v \<and> cache_inv ok known utxo v' \<and> cache_utxo utxo v' = cache_utxo utxo v
      \<and> cache_best best v' = cache_best best v \<and> (\<forall>t. cache_known v t \<longrightarrow> cache_known v' t)"
    if "cache_inv ok known utxo v" "view_GetBestBlock (cache_view view) v = (h, v')" for v h v'
    using that(2) by (intro cache_GetBestBlock_ok [OF that(1)]) (simp add: cache_view_def)
  show "\<exists>v'. view_BatchWrite (cache_view view) v m h = Some (True, v') \<and> cache_inv ok known utxo v'
      \<and> cache_utxo utxo v' = merge m (cache_utxo utxo v) \<and> (h \<noteq> 0 \<longrightarrow> cache_best best v' = h)"
    if "cache_inv ok known utxo v" "writable (cache_utxo utxo v) (cache_known v) m" True for v m h
    using cache_BatchWrite_ok [OF that(1,2)] by (simp add: cache_view_def)
qed

text \<open>A flush to a base that takes the map succeeds, empties the cache and carries its coins over.\<close>

lemma Flush_ok:
  assumes "cache_inv ok known utxo cache" "takes (cache_base cache) (cacheCoins cache)"
  obtains cache' where "Flush view cache = Some (True, cache')" "cache_inv ok known utxo cache'"
    "cacheCoins cache' = []" "utxo (cache_base cache') = cache_utxo utxo cache"
    "cache_utxo utxo cache' = cache_utxo utxo cache"
    "hashBlock cache \<noteq> 0 \<Longrightarrow> best (cache_base cache') = hashBlock cache"
proof -
  have ok: "ok (cache_base cache)" "distinct (map fst (cacheCoins cache))"
    "\<And>txid e. map_of (cacheCoins cache) txid = Some e \<Longrightarrow>
      entry_ok (utxo (cache_base cache) txid) (known (cache_base cache) txid) e" "\<not> hasModifier cache"
    using assms(1) by (simp_all add: cache_inv_def cache_ok_def)
  have "writable (utxo (cache_base cache)) (known (cache_base cache)) (cacheCoins cache)"
    using ok(2,3) by (simp add: writable_def entry_ok_def)
  from batch_write [OF ok(1) this assms(2), of "hashBlock cache"]
  obtain b where b: "view_BatchWrite view (cache_base cache) (cacheCoins cache) (hashBlock cache) = Some (True, b)"
    "ok b" "utxo b = merge (cacheCoins cache) (utxo (cache_base cache))" "hashBlock cache \<noteq> 0 \<Longrightarrow> best b = hashBlock cache"
    by blast
  have "merge (cacheCoins cache) (utxo (cache_base cache)) txid = cache_utxo utxo cache txid" for txid
    using ok(3) [of txid] by (auto simp: merge_def cache_utxo_def entry_ok_def simp del: live_simps split: option.split)
  then have u: "utxo b = cache_utxo utxo cache" using b(3) by (simp add: fun_eq_iff)
  show ?thesis
    by (rule that [of "cache\<lparr>cache_base := b, cacheCoins := []\<rparr>"])
       (use b u ok in \<open>simp_all add: Flush_def cache_inv_def cache_ok_def cache_utxo_def fun_eq_iff\<close>)
qed

lemma new_CCoinsViewCache_ok:
  assumes "ok b"
  shows "cache_inv ok known utxo (new_CCoinsViewCache b)" "cache_utxo utxo (new_CCoinsViewCache b) = utxo b"
    "cache_best best (new_CCoinsViewCache b) = best b"
  using assms by (simp_all add: new_CCoinsViewCache_def cache_inv_def cache_ok_def cache_utxo_def cache_best_def fun_eq_iff)

end

text \<open>
  The views the node stacks: the tip of the chain is a cache over the database, and a block
  is connected or disconnected in a cache over the tip.
\<close>

interpretation tip: coins_view "cache_view (CCoinsViewDB ec)" "cache_inv (db_inv ec) (\<lambda>_ _. True) (db_coins ec)" cache_known
  "cache_utxo (db_coins ec)" "cache_best db_best_block" "\<lambda>_ _. True"
  for ec :: "'p secp256k1"
  by (rule db.cache_is_view)

interpretation work: coins_view "cache_view (cache_view (CCoinsViewDB ec))"
  "cache_inv (cache_inv (db_inv ec) (\<lambda>_ _. True) (db_coins ec)) cache_known (cache_utxo (db_coins ec))" cache_known
  "cache_utxo (cache_utxo (db_coins ec))" "cache_best (cache_best db_best_block)" "\<lambda>_ _. True"
  for ec :: "'p secp256k1"
  by (rule tip.cache_is_view)

section \<open>Modifying and reading through a cache\<close>

context coins_view
begin

lemma cache_ok_modifier: "cache_ok ok known utxo (cache\<lparr>hasModifier := m\<rparr>) = cache_ok ok known utxo cache"
  by (simp add: cache_ok_def)

text \<open>After \<open>ModifyCoins\<close> the entry is in the cache and dirty, and holds what the view shows.\<close>

lemma ModifyCoins_ok:
  assumes "cache_inv ok known utxo cache"
  obtains cache' e where "ModifyCoins view cache txid = Some cache'" "cache_ok ok known utxo cache'"
    "hasModifier cache'" "map_of (cacheCoins cache') txid = Some e" "entry_dirty e"
    "live (Some (entry_coins e)) = cache_utxo utxo cache txid" "cache_utxo utxo cache' = cache_utxo utxo cache"
    "hashBlock cache' = hashBlock cache"
proof -
  have c: "cache_ok ok known utxo cache" "\<not> hasModifier cache" using assms by (simp_all add: cache_inv_def)
  obtain q b where g: "view_GetCoins view (cache_base cache) txid = (q, b)" by fastforce
  define r where "r = (case map_of (cacheCoins cache) txid of
      Some e \<Rightarrow> (e, cache)
    | None \<Rightarrow> (case q of None \<Rightarrow> (\<lparr>entry_coins = CCoins_Clear, entry_flags = FRESH\<rparr>, cache\<lparr>cache_base := b\<rparr>)
        | Some coins \<Rightarrow> (\<lparr>entry_coins = coins, entry_flags = (if IsPruned coins then FRESH else 0)\<rparr>, cache\<lparr>cache_base := b\<rparr>)))"
  obtain e cache1 where r: "r = (e, cache1)" by fastforce
  have base: "cache_ok ok known utxo cache1 \<and> entry_ok (utxo (cache_base cache1) txid) (known (cache_base cache1) txid) e
      \<and> live (Some (entry_coins e)) = cache_utxo utxo cache txid \<and> cache_utxo utxo cache1 = cache_utxo utxo cache
      \<and> hashBlock cache1 = hashBlock cache"
  proof (cases "map_of (cacheCoins cache) txid")
    case None
    note b = cache_ok_base [OF c(1) g]
    have "IsPruned CCoins_Clear" by (simp add: IsPruned_def CCoins_Clear_def)
    then have "entry_ok (utxo b txid) (known b txid) e" "live (Some (entry_coins e)) = live q"
      using b r None by (auto simp: r_def entry_ok_def split: option.splits)
    then show ?thesis
      using b r None cache_utxo_base [OF b(2)] by (auto simp: r_def cache_utxo_cases split: option.splits)
  next
    case (Some e')
    then show ?thesis using r c cache_okD [OF c(1)] by (auto simp: r_def cache_utxo_cases)
  qed
  let ?e = "e\<lparr>entry_flags := entry_flags e OR DIRTY\<rparr>"
  define cache2 where "cache2 = cache1\<lparr>hasModifier := True, cacheCoins := AList.update txid ?e (cacheCoins cache1)\<rparr>"
  have "ModifyCoins view cache txid = Some cache2"
    using c r unfolding ModifyCoins_def g r_def cache2_def by (auto simp: Let_def split: option.splits)
  moreover have "cache_ok ok known utxo (cache1\<lparr>cacheCoins := AList.update txid ?e (cacheCoins cache1)\<rparr>)"
    using base by (intro cache_ok_update) (simp_all add: entry_ok_def)
  then have "cache_ok ok known utxo cache2" by (simp add: cache2_def cache_ok_def)
  moreover have "cache_utxo utxo cache2 = (cache_utxo utxo cache1)(txid := live (Some (entry_coins e)))"
    by (simp add: cache2_def cache_utxo_def update_conv' fun_eq_iff split: option.split)
  then have "cache_utxo utxo cache2 = cache_utxo utxo cache" using base by simp
  ultimately show ?thesis
    using base by (intro that [of cache2 ?e]) (simp_all add: cache2_def update_conv')
qed

text \<open>The destructor keeps the cleaned coins, or drops an entry that no view has ever had.\<close>

lemma CCoinsModifier_destroy_ok:
  assumes "cache_ok ok known utxo cache" "hasModifier cache" "map_of (cacheCoins cache) txid = Some e" "entry_dirty e"
  obtains cache' where "CCoinsModifier_destroy cache txid = Some cache'" "cache_inv ok known utxo cache'"
    "cache_utxo utxo cache' = (cache_utxo utxo cache)(txid := live (Some (Cleanup (entry_coins e))))"
    "hashBlock cache' = hashBlock cache"
proof -
  let ?e = "e\<lparr>entry_coins := Cleanup (entry_coins e)\<rparr>"
  define cache1 where "cache1 = cache\<lparr>hasModifier := False\<rparr>"
  define cache2 where "cache2 = cache1\<lparr>cacheCoins := AList.update txid ?e (cacheCoins cache1)\<rparr>"
  have e: "entry_ok (utxo (cache_base cache) txid) (known (cache_base cache) txid) e" by (rule cache_okD [OF assms(1,3)])
  have ok1: "cache_ok ok known utxo cache1" using assms(1) by (simp add: cache1_def cache_ok_modifier)
  have ok2: "cache_ok ok known utxo cache2"
    unfolding cache2_def using e assms(4) by (intro cache_ok_update ok1) (simp add: entry_ok_def cache1_def)
  have u2: "cache_utxo utxo cache2 = (cache_utxo utxo cache)(txid := live (Some (Cleanup (entry_coins e))))"
    by (simp add: cache2_def cache_utxo_simps) (simp add: cache1_def cache_utxo_simps)
  have d: "CCoinsModifier_destroy cache txid =
      (if entry_fresh e \<and> IsPruned (Cleanup (entry_coins e))
       then Some (cache2\<lparr>cacheCoins := AList.delete txid (cacheCoins cache2)\<rparr>) else Some cache2)"
    using assms(2,3)
    by (simp add: CCoinsModifier_destroy_def Let_def modifier_assign_def modifier_coins_def cache2_def cache1_def update_conv')
  show ?thesis
  proof (cases "entry_fresh e \<and> IsPruned (Cleanup (entry_coins e))")
    case True
    then have "cache_utxo utxo (cache2\<lparr>cacheCoins := AList.delete txid (cacheCoins cache2)\<rparr>) =
        (cache_utxo utxo cache)(txid := live (Some (Cleanup (entry_coins e))))"
      using e by (simp add: cache_utxo_simps u2) (simp add: entry_ok_def cache2_def cache1_def)
    then show ?thesis
      using True cache_ok_delete [OF ok2]
      by (intro that [of "cache2\<lparr>cacheCoins := AList.delete txid (cacheCoins cache2)\<rparr>"])
         (simp_all add: d cache_inv_def, simp_all add: cache2_def cache1_def)
  next
    case False
    then show ?thesis
      using ok2 u2 by (intro that [of cache2]) (auto simp: d cache_inv_def cache2_def cache1_def)
  qed
qed

text \<open>
  A modification acts on the coins the view shows, or on a pruned entry where it shows none,
  and the view then shows the result.
\<close>

lemma with_modifier_ok:
  assumes "cache_inv ok known utxo cache"
  obtains coins cache' where "live (Some coins) = cache_utxo utxo cache txid"
    "with_modifier view cache txid f = Some (fst (f coins), cache')" "cache_inv ok known utxo cache'"
    "cache_utxo utxo cache' = (cache_utxo utxo cache)(txid := live (Some (Cleanup (snd (f coins)))))"
    "hashBlock cache' = hashBlock cache"
proof -
  obtain cache1 e where m: "ModifyCoins view cache txid = Some cache1" "cache_ok ok known utxo cache1"
    "hasModifier cache1" "map_of (cacheCoins cache1) txid = Some e" "entry_dirty e"
    "live (Some (entry_coins e)) = cache_utxo utxo cache txid" "cache_utxo utxo cache1 = cache_utxo utxo cache"
    "hashBlock cache1 = hashBlock cache"
    using ModifyCoins_ok [OF assms] by blast
  let ?e = "e\<lparr>entry_coins := snd (f (entry_coins e))\<rparr>"
  define cache2 where "cache2 = cache1\<lparr>cacheCoins := AList.update txid ?e (cacheCoins cache1)\<rparr>"
  have a: "modifier_coins cache1 txid = entry_coins e" "modifier_assign cache1 txid (snd (f (entry_coins e))) = cache2"
    using m(4) by (simp_all add: modifier_coins_def modifier_assign_def cache2_def)
  have "entry_ok (utxo (cache_base cache1) txid) (known (cache_base cache1) txid) e" by (rule cache_okD [OF m(2,4)])
  then have "cache_ok ok known utxo cache2"
    unfolding cache2_def using m(5) by (intro cache_ok_update m(2)) (simp add: entry_ok_def)
  moreover have "hasModifier cache2" "map_of (cacheCoins cache2) txid = Some ?e" "entry_dirty ?e"
    using m by (simp_all add: cache2_def update_conv')
  ultimately obtain cache' where d: "CCoinsModifier_destroy cache2 txid = Some cache'" "cache_inv ok known utxo cache'"
    "cache_utxo utxo cache' = (cache_utxo utxo cache2)(txid := live (Some (Cleanup (entry_coins ?e))))"
    "hashBlock cache' = hashBlock cache2"
    using CCoinsModifier_destroy_ok by blast
  have "cache_utxo utxo cache' = (cache_utxo utxo cache)(txid := live (Some (Cleanup (snd (f (entry_coins e))))))"
    using d(3) m(7) by (simp add: cache2_def cache_utxo_simps)
  moreover have "with_modifier view cache txid f = Some (fst (f (entry_coins e)), cache')"
    using a d(1) by (cases "f (entry_coins e)") (simp add: with_modifier_def m(1))
  ultimately show ?thesis
    using m(6,8) d(2,4) by (intro that [of "entry_coins e" cache']) (simp_all add: cache2_def)
qed

end
lemma available_live: "(\<exists>c. r = Some c \<and> IsAvailable c n) \<longleftrightarrow> (\<exists>c. live r = Some c \<and> IsAvailable c n)"
  by (auto simp: live_def IsPruned_def IsAvailable_def list_all_length split: option.splits)

definition available :: "(txid \<Rightarrow> CCoins option) \<Rightarrow> COutPoint \<Rightarrow> bool" where
  "available u out \<longleftrightarrow> (\<exists>c. u (out_hash out) = Some c \<and> IsAvailable c (out_n out))"

definition output_at :: "(txid \<Rightarrow> CCoins option) \<Rightarrow> COutPoint \<Rightarrow> CTxOut" where
  "output_at u out = coins_vout (the (u (out_hash out))) ! unat (out_n out)"

lemma available_Some: "u (out_hash out) = live (Some c) \<Longrightarrow> available u out \<longleftrightarrow> IsAvailable c (out_n out)"
  using available_live [of "Some c"] by (simp add: available_def)

context coins_view
begin

lemma AccessCoins_ok:
  assumes "cache_inv ok known utxo cache" "AccessCoins view cache txid = (r, cache')"
  shows "live r = cache_utxo utxo cache txid" "cache_inv ok known utxo cache'"
    "cache_utxo utxo cache' = cache_utxo utxo cache"
  using cache_GetCoins_ok [OF assms(1)] assms(2) unfolding AccessCoins_is_GetCoins by blast+

lemma HaveInputs_loop_ok:
  assumes "cache_inv ok known utxo cache" "HaveInputs_loop view cache ins = (r, cache')"
  shows "cache_inv ok known utxo cache' \<and> cache_utxo utxo cache' = cache_utxo utxo cache
    \<and> r = list_all (\<lambda>txin. available (cache_utxo utxo cache) (prevout txin)) ins"
  using assms
proof (induction ins arbitrary: cache)
  case (Cons txin ins)
  let ?out = "prevout txin"
  obtain q cache1 where a: "AccessCoins view cache (out_hash ?out) = (q, cache1)" by fastforce
  note acc = AccessCoins_ok [OF Cons.prems(1) a]
  show ?case
  proof (cases "available (cache_utxo utxo cache) ?out")
    case False
    then have "\<not> (\<exists>c. q = Some c \<and> IsAvailable c (out_n ?out))"
      using acc(1) available_live [of q] by (simp add: available_def)
    then have "r = False" "cache' = cache1" using Cons.prems(2) a by (simp_all split: option.splits if_splits)
    then show ?thesis using False acc(2,3) by simp
  next
    case True
    then obtain c where "q = Some c" "IsAvailable c (out_n ?out)"
      using acc(1) available_live [of q] by (auto simp: available_def)
    then have "HaveInputs_loop view cache1 ins = (r, cache')" using Cons.prems(2) a by simp
    from Cons.IH [OF acc(2) this] show ?thesis using True acc(3) by simp
  qed
qed simp_all

lemma GetValueIn_loop_ok:
  assumes "cache_inv ok known utxo cache" "list_all (\<lambda>txin. available (cache_utxo utxo cache) (prevout txin)) ins"
  shows "\<exists>cache'. GetValueIn_loop view cache ins v =
      Some (v + sum_list (map (\<lambda>txin. nValue (output_at (cache_utxo utxo cache) (prevout txin))) ins), cache')
    \<and> cache_inv ok known utxo cache' \<and> cache_utxo utxo cache' = cache_utxo utxo cache"
  using assms
proof (induction ins arbitrary: cache v)
  case (Cons txin ins)
  let ?out = "prevout txin"
  let ?v = "nValue (output_at (cache_utxo utxo cache) ?out)"
  obtain q cache1 where a: "AccessCoins view cache (out_hash ?out) = (q, cache1)" by fastforce
  note acc = AccessCoins_ok [OF Cons.prems(1) a]
  from Cons.prems(2) acc(1) obtain c where c: "live q = Some c" "IsAvailable c (out_n ?out)"
    by (auto simp: available_def)
  then have q: "q = Some c" by (auto simp: live_def split: option.splits if_splits)
  have u: "cache_utxo utxo cache (out_hash ?out) = Some c" using acc(1) c(1) by simp
  have g: "GetOutputFor view cache txin = Some (output_at (cache_utxo utxo cache) ?out, cache1)"
    using c(2) u by (simp add: GetOutputFor_def a output_at_def q)
  have "list_all (\<lambda>txin. available (cache_utxo utxo cache1) (prevout txin)) ins" using Cons.prems(2) acc(3) by simp
  from Cons.IH [OF acc(2) this, of "v + ?v"] show ?case by (simp add: g acc(3) add.assoc)
qed simp

end

section \<open>Properties\<close>

text \<open>The coins the node sees through its tip, and through a cache for a block over it.\<close>

abbreviation tip_inv :: "'p secp256k1 \<Rightarrow> coins_db CCoinsViewCache \<Rightarrow> bool" where
  "tip_inv ec \<equiv> cache_inv (db_inv ec) (\<lambda>_ _. True) (db_coins ec)"

abbreviation tip_utxo :: "'p secp256k1 \<Rightarrow> coins_db CCoinsViewCache \<Rightarrow> txid \<Rightarrow> CCoins option" where
  "tip_utxo ec \<equiv> cache_utxo (db_coins ec)"

abbreviation work_inv :: "'p secp256k1 \<Rightarrow> coins_db CCoinsViewCache CCoinsViewCache \<Rightarrow> bool" where
  "work_inv ec \<equiv> cache_inv (tip_inv ec) cache_known (tip_utxo ec)"

abbreviation work_utxo :: "'p secp256k1 \<Rightarrow> coins_db CCoinsViewCache CCoinsViewCache \<Rightarrow> txid \<Rightarrow> CCoins option" where
  "work_utxo ec \<equiv> cache_utxo (tip_utxo ec)"

lemma cache_base_Flush: "cache_base (cache\<lparr>cache_base := b, cacheCoins := m\<rparr>) = b"
  by simp

lemma batch_entries_base: "batch_entries cache m = Some cache' \<Longrightarrow> cache_base cache' = cache_base cache"
proof (induction m arbitrary: cache)
  case (Cons x m)
  then obtain cache1 where c: "batch_entry cache x = Some cache1" "batch_entries cache1 m = Some cache'"
    by (auto split: option.splits)
  then have "cache_base cache1 = cache_base cache" by (auto simp: batch_entry_def split: prod.splits option.splits if_splits)
  then show ?case using Cons.IH [OF c(2)] by simp
qed simp

text \<open>What a cache shows includes its entries, so that a database that can keep the one takes the other.\<close>

lemma cache_takes:
  assumes "distinct (map fst (cacheCoins cache))" "db_writable (cache_base cache)"
    "\<And>txid coins. tip_utxo ec cache txid = Some coins \<Longrightarrow> db_keeps ec coins"
  shows "db_takes ec (cache_base cache) (cacheCoins cache)"
proof -
  have "db_keeps ec (entry_coins e)" if "(txid, e) \<in> set (cacheCoins cache)" "\<not> IsPruned (entry_coins e)" for txid e
    using that assms(1) by (intro assms(3) [of txid]) (simp add: cache_utxo_def)
  then show ?thesis using assms(2) by (auto simp: db_takes_def list_all_iff)
qed

text \<open>
  C13: A flush loses nothing.  Let a cache over the tip, which is itself a cache over the
  database, satisfy its invariant.  \<open>Flush\<close> fails no assertion and succeeds, leaves the cache
  empty, and the tip then shows exactly the unspent coins that the cache showed.  When leveldb
  takes the batch, every coin the cache shows can be stored (its outputs, amounts and script
  sizes are in range, its height and version are not negative) and the key library recovers
  compressed keys, flushing the tip in turn succeeds too.  The bytes that are then in the
  database decode to exactly these coins, and to the best block when one was set.
\<close>

theorem Flush_reaches_database:
  assumes "work_inv ec cache" "hashBlock cache \<noteq> 0" "db_writable (cache_base (cache_base cache))" "ec_recovers ec"
    "\<forall>txid coins. work_utxo ec cache txid = Some coins \<longrightarrow> coins_storable coins"
  shows "\<exists>cache' tip'. Flush (cache_view (CCoinsViewDB ec)) cache = Some (True, cache') \<and> cacheCoins cache' = []
    \<and> tip_utxo ec (cache_base cache') = work_utxo ec cache
    \<and> Flush (CCoinsViewDB ec) (cache_base cache') = Some (True, tip') \<and> db_inv ec (cache_base tip')
    \<and> db_coins ec (cache_base tip') = work_utxo ec cache \<and> db_best_block (cache_base tip') = hashBlock cache"
proof -
  obtain cache' where c: "Flush (cache_view (CCoinsViewDB ec)) cache = Some (True, cache')" "work_inv ec cache'"
    "cacheCoins cache' = []" "tip_utxo ec (cache_base cache') = work_utxo ec cache"
    "cache_best db_best_block (cache_base cache') = hashBlock cache"
    using tip.Flush_ok [OF assms(1) TrueI] assms(2) by metis
  have inv: "tip_inv ec (cache_base cache')" using c(2) by (simp add: cache_inv_def cache_ok_def)
  have h: "hashBlock (cache_base cache') = hashBlock cache" "cache_base (cache_base cache') = cache_base (cache_base cache)"
    using c(1) by (auto simp: Flush_def cache_view_def cache_BatchWrite_def cache_base_Flush dest: batch_entries_base
        split: option.splits if_splits)
  have "db_takes ec (cache_base (cache_base cache')) (cacheCoins (cache_base cache'))"
    using inv assms(3-5) c(4) h(2) by (intro cache_takes) (auto simp: cache_inv_def cache_ok_def intro: db_keeps_storable)
  then obtain tip' where t: "Flush (CCoinsViewDB ec) (cache_base cache') = Some (True, tip')" "tip_inv ec tip'"
    "db_coins ec (cache_base tip') = tip_utxo ec (cache_base cache')"
    "hashBlock (cache_base cache') \<noteq> 0 \<Longrightarrow> db_best_block (cache_base tip') = hashBlock (cache_base cache')"
    using db.Flush_ok [OF inv] by metis
  have "db_inv ec (cache_base tip')" using t(2) by (simp add: cache_inv_def cache_ok_def)
  then show ?thesis using c t h assms(2) by auto
qed

definition witness_db :: coins_db where
  "witness_db = \<lparr>db_map = (\<lambda>_. None)(Coins_key 5 := Serialize_CCoins witness_ec witness_coins, Best_key := Some (WRITEDATA 32 (9 :: txid))),
     db_writable = True\<rparr>"

definition witness_tip :: "coins_db CCoinsViewCache" where
  "witness_tip = \<lparr>cache_base = witness_db, hasModifier = False, hashBlock = 10,
     cacheCoins = [(5, \<lparr>entry_coins = witness_coins, entry_flags = 0\<rparr>),
       (6, \<lparr>entry_coins = witness_coins, entry_flags = DIRTY OR FRESH\<rparr>)]\<rparr>"

definition witness_work :: "coins_db CCoinsViewCache CCoinsViewCache" where
  "witness_work = \<lparr>cache_base = witness_tip, hasModifier = False, hashBlock = 11,
     cacheCoins = [(5, \<lparr>entry_coins = CCoins_Clear, entry_flags = DIRTY\<rparr>)]\<rparr>"

lemma witness_pruned: "\<not> IsPruned witness_coins" "IsPruned CCoins_Clear"
  by (simp_all add: IsPruned_def witness_coins_def CCoins_Clear_def CTxOut_IsNull_def)

lemma witness_flags:
  "entry_dirty \<lparr>entry_coins = c, entry_flags = DIRTY\<rparr>" "\<not> entry_fresh \<lparr>entry_coins = c, entry_flags = DIRTY\<rparr>"
  by (simp_all add: entry_dirty_def entry_fresh_def DIRTY_def FRESH_def)

lemma witness_db_coins: "db_coins witness_ec witness_db = (\<lambda>_. None)(5 := Some witness_coins)"
  using db_keeps_storable [OF witness_coins_storable witness_ec_recovers]
  by (auto simp: db_keeps_def db_coins_def witness_db_def fun_eq_iff split: option.splits sum.splits)

lemma witness_db_inv: "db_inv witness_ec witness_db"
  by (simp add: db_inv_def witness_db_coins witness_pruned)

lemma witness_tip_inv: "tip_inv witness_ec witness_tip"
  using witness_db_inv
  by (simp add: cache_inv_def cache_ok_def witness_tip_def entry_ok_def witness_pruned witness_db_coins)

lemma witness_work_inv: "work_inv witness_ec witness_work"
  using witness_tip_inv
  by (simp add: cache_inv_def [of "tip_inv witness_ec"] cache_ok_def [of "tip_inv witness_ec"] witness_work_def entry_ok_def
    witness_flags cache_known_def witness_tip_def)

lemma witness_work_utxo: "work_utxo witness_ec witness_work = (\<lambda>_. None)(6 := Some witness_coins)"
  by (auto simp: cache_utxo_def witness_work_def witness_tip_def witness_pruned witness_db_coins fun_eq_iff)

theorem Flush_reaches_database_witness:
  "\<exists>cache' tip'. Flush (cache_view (CCoinsViewDB witness_ec)) witness_work = Some (True, cache')
    \<and> Flush (CCoinsViewDB witness_ec) (cache_base cache') = Some (True, tip')
    \<and> db_coins witness_ec (cache_base tip') 5 = None \<and> db_coins witness_ec (cache_base tip') 6 = Some witness_coins"
proof -
  have "hashBlock witness_work \<noteq> 0" "db_writable (cache_base (cache_base witness_work))"
    by (simp_all add: witness_work_def witness_tip_def witness_db_def)
  moreover have "\<forall>txid coins. work_utxo witness_ec witness_work txid = Some coins \<longrightarrow> coins_storable coins"
    using witness_coins_storable by (simp add: witness_work_utxo)
  ultimately show ?thesis
    using Flush_reaches_database [OF witness_work_inv _ _ witness_ec_recovers] unfolding witness_work_utxo by fastforce
qed

text \<open>
  C27: Reading the inputs of a transaction.  \<open>HaveInputs\<close> answers whether every input of a
  transaction with ordinary inputs refers to an available output of the unspent coins that
  the cache shows.  When it does, \<open>GetValueIn\<close> fails no assertion and returns the sum of the
  amounts of these outputs, in 64 bits.  Neither changes the coins that the cache shows.
\<close>

theorem inputs_are_read:
  assumes "work_inv ec cache" "\<not> IsCoinBase tx" "\<not> HasZerocoinSpendInputs tx"
    "HaveInputs (cache_view (CCoinsViewDB ec)) cache tx = (r, cache')"
  shows "work_inv ec cache' \<and> work_utxo ec cache' = work_utxo ec cache
    \<and> r = list_all (\<lambda>txin. available (work_utxo ec cache) (prevout txin)) (vin tx)
    \<and> (r \<longrightarrow> (\<exists>cache''. GetValueIn (cache_view (CCoinsViewDB ec)) cache' tx =
          Some (sum_list (map (\<lambda>txin. nValue (output_at (work_utxo ec cache) (prevout txin))) (vin tx)), cache'')
        \<and> work_inv ec cache'' \<and> work_utxo ec cache'' = work_utxo ec cache))"
proof -
  have "HaveInputs_loop (cache_view (CCoinsViewDB ec)) cache (vin tx) = (r, cache')"
    using assms(2-4) by (simp add: HaveInputs_def)
  note h = tip.HaveInputs_loop_ok [OF assms(1) this]
  show ?thesis
  proof (cases r)
    case True
    then have "list_all (\<lambda>txin. available (work_utxo ec cache') (prevout txin)) (vin tx)" using h by simp
    from tip.GetValueIn_loop_ok [OF _ this, of 0] h show ?thesis
      using assms(2,3) by (simp add: GetValueIn_def)
  next
    case False
    then show ?thesis using h by blast
  qed
qed

definition witness_spend :: CTransaction where
  "witness_spend = \<lparr>tx_nVersion = 1, vin = [\<lparr>prevout = \<lparr>out_hash = 6, out_n = 1\<rparr>, scriptSig = [], nSequence = - 1\<rparr>],
     vout = [\<lparr>nValue = 20, scriptPubKey = [0x52]\<rparr>], nLockTime = 0\<rparr>"

lemma witness_spend_ordinary: "\<not> IsCoinBase witness_spend" "\<not> HasZerocoinSpendInputs witness_spend"
  by (simp_all add: IsCoinBase_def HasZerocoinSpendInputs_def witness_spend_def COutPoint_IsNull_def
    CTxIn_IsZerocoinSpend_def HasZerocoinPublicSpendInputs_def)

lemma witness_available: "available (work_utxo witness_ec witness_work) \<lparr>out_hash = 6, out_n = 1\<rparr>"
  by (simp add: available_def cache_utxo_def witness_work_def witness_tip_def witness_pruned)
     (simp add: IsAvailable_def witness_coins_def CTxOut_IsNull_def CTxOut_IsZerocoinMint_def IsZerocoinMint_def StartsWithOpcode_def)

theorem inputs_are_read_witness:
  "\<exists>cache' cache''. HaveInputs (cache_view (CCoinsViewDB witness_ec)) witness_work witness_spend = (True, cache')
    \<and> GetValueIn (cache_view (CCoinsViewDB witness_ec)) cache' witness_spend = Some (30, cache'')"
proof -
  obtain r cache' where h: "HaveInputs (cache_view (CCoinsViewDB witness_ec)) witness_work witness_spend = (r, cache')" by fastforce
  have "output_at (work_utxo witness_ec witness_work) \<lparr>out_hash = 6, out_n = 1\<rparr> = \<lparr>nValue = 30, scriptPubKey = [0x51]\<rparr>"
    by (simp add: output_at_def cache_utxo_def witness_work_def witness_tip_def witness_pruned) (simp add: witness_coins_def)
  moreover have "map prevout (vin witness_spend) = [\<lparr>out_hash = 6, out_n = 1\<rparr>]" by (simp add: witness_spend_def)
  ultimately show ?thesis
    using inputs_are_read [OF witness_work_inv witness_spend_ordinary h] h witness_available
    by (auto simp: witness_spend_def)
qed

end
