(* ===== verification/ConnectBlock.thy ===== *)
theory ConnectBlock
  imports CoinsView
begin

unbundle bit_operations_syntax

text \<open>
  What connecting and disconnecting a block does to the unspent coins: \<open>UpdateCoins\<close> and
  \<open>DisconnectBlock\<close> (\<^verbatim>\<open>src/src/main.cpp\<close>).  \<open>ConnectBlock\<close> itself is in the theory \<open>Validation\<close>.

  \<^item> \<open>None\<close> is a failed assertion or, where \<open>DisconnectBlock\<close> would read the undo data in front of
    the first one, undefined behaviour.
  \<^item> The zerocoin database is not modelled: whether the erasures in it succeed is an argument.
  \<^item> Undo data that are written to a file and read back are the same data (theory \<open>Coins\<close>).

  \<open>connect_utxo\<close> is the specification of what connecting does: the same steps on a map from
  transaction ids to unspent coins.  The lemmas show that \<open>UpdateCoins\<close> on a stack of caches
  refines it, that its assertion holds, and what exactly \<open>DisconnectBlock\<close> restores: all coins,
  except that coins of which the block spent the last output lose the coinstake flag.
\<close>

section \<open>Updating the coins\<close>

abbreviation ordinary :: "CTransaction \<Rightarrow> bool" where
  "ordinary tx \<equiv> \<not> IsCoinBase tx \<and> \<not> HasZerocoinSpendInputs tx"

definition spend_coins :: "COutPoint \<Rightarrow> CCoins \<Rightarrow> CTxInUndo option \<times> CCoins" where
  "spend_coins out coins =
     (case Spend coins out of None \<Rightarrow> (None, coins) | Some (undo, coins) \<Rightarrow> (Some undo, coins))"

fun spend_inputs ::
  "'v CCoinsView \<Rightarrow> 'v CCoinsViewCache \<Rightarrow> CTxIn list \<Rightarrow> (CTxInUndo list \<times> 'v CCoinsViewCache) option" where
  "spend_inputs view inputs [] = Some ([], inputs)"
| "spend_inputs view inputs (txin # ins) =
     (case with_modifier view inputs (out_hash (prevout txin)) (spend_coins (prevout txin)) of
        None \<Rightarrow> None
      | Some (None, inputs) \<Rightarrow> None
      | Some (Some undo, inputs) \<Rightarrow>
          (case spend_inputs view inputs ins of
             None \<Rightarrow> None
           | Some (vprevout, inputs) \<Rightarrow> Some (undo # vprevout, inputs)))"

definition UpdateCoins ::
  "crypto \<Rightarrow> 'v CCoinsView \<Rightarrow> CTransaction \<Rightarrow> 'v CCoinsViewCache \<Rightarrow> CTxInUndo list \<Rightarrow> int32
   \<Rightarrow> (CTxInUndo list \<times> 'v CCoinsViewCache) option" where
  "UpdateCoins c view tx inputs txundo nHeight =
     (case (if ordinary tx then spend_inputs view inputs (vin tx) else Some ([], inputs)) of
        None \<Rightarrow> None
      | Some (vprevout, inputs) \<Rightarrow>
          (case with_modifier view inputs (SerializeHash c tx) (\<lambda>coins. ((), FromTx tx nHeight)) of
             None \<Rightarrow> None
           | Some (_, inputs) \<Rightarrow> Some (txundo @ vprevout, inputs)))"

text \<open>A transaction with unspent outputs has the same id.\<close>

abbreviation overwrites :: "CCoins option \<Rightarrow> bool" where
  "overwrites coins \<equiv> (case coins of None \<Rightarrow> False | Some coins \<Rightarrow> \<not> IsPruned coins)"

section \<open>Disconnecting a block\<close>

datatype disconnect_error =
  No_undo_data | Undo_read_failure | Block_undo_inconsistent | Transaction_undo_inconsistent | Zerocoin_erase_failed

definition remove_outputs :: "CTransaction \<Rightarrow> int32 \<Rightarrow> CCoins \<Rightarrow> bool \<times> CCoins" where
  "remove_outputs tx nHeight outs =
     (let outs = ClearUnspendable outs;
          outsBlock = FromTx tx nHeight;
          outs = (if sint (coins_nVersion outsBlock) < 0 then outs\<lparr>coins_nVersion := coins_nVersion outsBlock\<rparr> else outs)
      in (coins_eq outs outsBlock, CCoins_Clear))"

text \<open>The loop over the inputs counts down, so that the list is the reverse of the inputs.\<close>

fun restore_inputs ::
  "'v CCoinsView \<Rightarrow> (CTxIn \<times> CTxInUndo) list \<Rightarrow> bool \<Rightarrow> 'v CCoinsViewCache \<Rightarrow> (bool \<times> 'v CCoinsViewCache) option" where
  "restore_inputs view [] fClean cache = Some (fClean, cache)"
| "restore_inputs view ((txin, undo) # rest) fClean cache =
     (case with_modifier view cache (out_hash (prevout txin)) (\<lambda>coins. restore_output coins (prevout txin) undo) of
        None \<Rightarrow> None
      | Some (fOk, cache) \<Rightarrow> restore_inputs view rest (fClean \<and> fOk) cache)"

definition disconnect_tx ::
  "crypto \<Rightarrow> 'v CCoinsView \<Rightarrow> int32 \<Rightarrow> CTransaction \<Rightarrow> CTxInUndo list option \<Rightarrow> bool \<Rightarrow> 'v CCoinsViewCache
   \<Rightarrow> (disconnect_error + bool \<times> 'v CCoinsViewCache) option" where
  "disconnect_tx c view nHeight tx txundo fClean cache =
     (case with_modifier view cache (SerializeHash c tx) (remove_outputs tx nHeight) of
        None \<Rightarrow> None
      | Some (fOk, cache) \<Rightarrow>
          if ordinary tx then
            (case txundo of
               None \<Rightarrow> None
             | Some vprevout \<Rightarrow>
                 if length vprevout \<noteq> length (vin tx) then Some (Inl Transaction_undo_inconsistent)
                 else
                   (case restore_inputs view (rev (zip (vin tx) vprevout)) (fClean \<and> fOk) cache of
                      None \<Rightarrow> None
                    | Some r \<Rightarrow> Some (Inr r)))
          else Some (Inr (fClean \<and> fOk, cache)))"

fun disconnect_txs ::
  "crypto \<Rightarrow> (CTransaction \<Rightarrow> bool) \<Rightarrow> 'v CCoinsView \<Rightarrow> int32 \<Rightarrow> (CTransaction \<times> CTxInUndo list option) list \<Rightarrow> bool
   \<Rightarrow> 'v CCoinsViewCache \<Rightarrow> (disconnect_error + bool \<times> 'v CCoinsViewCache) option" where
  "disconnect_txs c erase view nHeight [] fClean cache = Some (Inr (fClean, cache))"
| "disconnect_txs c erase view nHeight ((tx, txundo) # rest) fClean cache =
     (if ContainsZerocoins tx \<and> \<not> erase tx then Some (Inl Zerocoin_erase_failed)
      else
        (case disconnect_tx c view nHeight tx txundo fClean cache of
           None \<Rightarrow> None
         | Some (Inl e) \<Rightarrow> Some (Inl e)
         | Some (Inr (fClean, cache)) \<Rightarrow> disconnect_txs c erase view nHeight rest fClean cache))"

text \<open>
  The undo data: none when the block index has no position for them, or what reading them
  gives.  The result has \<open>fClean\<close> in it, which \<open>DisconnectBlock\<close> returns or stores.
\<close>

definition DisconnectBlock ::
  "crypto \<Rightarrow> (CTransaction \<Rightarrow> bool) \<Rightarrow> 'v CCoinsView \<Rightarrow> txid \<Rightarrow> txid \<Rightarrow> int32 \<Rightarrow> CTxInUndo list list option option
   \<Rightarrow> CTransaction list \<Rightarrow> 'v CCoinsViewCache \<Rightarrow> (disconnect_error + bool \<times> 'v CCoinsViewCache) option" where
  "DisconnectBlock c erase view hash hashPrevBlock nHeight undo vtx cache =
     (case cache_GetBestBlock view cache of (best, cache) \<Rightarrow>
        if hash \<noteq> best then None
        else
          (case undo of
             None \<Rightarrow> Some (Inl No_undo_data)
           | Some None \<Rightarrow> Some (Inl Undo_read_failure)
           | Some (Some vtxundo) \<Rightarrow>
               if length vtxundo + 1 \<noteq> length vtx then Some (Inl Block_undo_inconsistent)
               else
                 (case disconnect_txs c erase view nHeight (rev (zip vtx (None # map Some vtxundo))) True cache of
                    None \<Rightarrow> None
                  | Some (Inl e) \<Rightarrow> Some (Inl e)
                  | Some (Inr (fClean, cache)) \<Rightarrow> Some (Inr (fClean, SetBestBlock cache hashPrevBlock)))))"

section \<open>The specification\<close>

type_synonym utxo = "txid \<Rightarrow> CCoins option"

fun spend_utxo :: "utxo \<Rightarrow> CTxIn list \<Rightarrow> (CTxInUndo list \<times> utxo) option" where
  "spend_utxo u [] = Some ([], u)"
| "spend_utxo u (txin # ins) =
     (case u (out_hash (prevout txin)) of
        None \<Rightarrow> None
      | Some coins \<Rightarrow>
          (case Spend coins (prevout txin) of
             None \<Rightarrow> None
           | Some (undo, coins) \<Rightarrow>
               map_option (\<lambda>(vprevout, u). (undo # vprevout, u))
                 (spend_utxo (u(out_hash (prevout txin) := live (Some coins))) ins)))"

definition update_utxo :: "crypto \<Rightarrow> CTransaction \<Rightarrow> utxo \<Rightarrow> int32 \<Rightarrow> (CTxInUndo list \<times> utxo) option" where
  "update_utxo c tx u nHeight =
     map_option (\<lambda>(vprevout, u). (vprevout, u(SerializeHash c tx := live (Some (FromTx tx nHeight)))))
       (if ordinary tx then spend_utxo u (vin tx) else Some ([], u))"

datatype connect_error = Bad_txns_BIP30 | Bad_txns_inputs_missingorspent

fun connect_utxo ::
  "crypto \<Rightarrow> int32 \<Rightarrow> CTransaction list \<Rightarrow> utxo \<Rightarrow> (connect_error + CTxInUndo list list \<times> utxo) option" where
  "connect_utxo c nHeight [] u = Some (Inr ([], u))"
| "connect_utxo c nHeight (tx # vtx) u =
     (if u (SerializeHash c tx) \<noteq> None then Some (Inl Bad_txns_BIP30)
      else if ordinary tx \<and> \<not> list_all (\<lambda>txin. available u (prevout txin)) (vin tx)
        then Some (Inl Bad_txns_inputs_missingorspent)
      else
        (case update_utxo c tx u nHeight of
           None \<Rightarrow> None
         | Some (txundo, u) \<Rightarrow>
             map_option (map_sum id (\<lambda>(vtxundo, u). (txundo # vtxundo, u))) (connect_utxo c nHeight vtx u)))"

section \<open>The caches refine the specification\<close>

lemma Cleanup_loop_idem [simp]: "Cleanup_loop (Cleanup_loop outs) = Cleanup_loop outs"
  using Cleanup_loop_split [of outs] by (metis Cleanup_loop_clean)

lemma Cleanup_idem [simp]: "Cleanup (Cleanup coins) = Cleanup coins"
  by (simp add: Cleanup_def)

lemma Cleanup_FromTx [simp]: "Cleanup (FromTx tx nHeight) = FromTx tx nHeight"
  by (simp add: FromTx_def ClearUnspendable_def)

lemma Spend_Cleanup: "Spend coins out = Some (undo, coins') \<Longrightarrow> Cleanup coins' = coins'"
  by (auto simp: Spend_def Let_def split: if_splits)

lemma Spend_pruned: "IsPruned coins \<Longrightarrow> Spend coins out = None"
  by (auto simp: Spend_def IsPruned_def list_all_length)

context coins_view
begin

lemma spend_inputs_refines:
  assumes "cache_inv ok known utxo cache"
  shows "case spend_utxo (cache_utxo utxo cache) ins of
      None \<Rightarrow> spend_inputs view cache ins = None
    | Some (undos, u) \<Rightarrow> \<exists>cache'. spend_inputs view cache ins = Some (undos, cache')
        \<and> cache_inv ok known utxo cache' \<and> cache_utxo utxo cache' = u"
  using assms
proof (induction ins arbitrary: cache)
  case (Cons txin ins)
  let ?out = "prevout txin"
  obtain coins cache1 where w: "live (Some coins) = cache_utxo utxo cache (out_hash ?out)"
    "with_modifier view cache (out_hash ?out) (spend_coins ?out) = Some (fst (spend_coins ?out coins), cache1)"
    "cache_inv ok known utxo cache1"
    "cache_utxo utxo cache1 = (cache_utxo utxo cache)(out_hash ?out := live (Some (Cleanup (snd (spend_coins ?out coins)))))"
    using with_modifier_ok [OF Cons.prems] by metis
  show ?case
  proof (cases "Spend coins ?out")
    case None
    then have "spend_utxo (cache_utxo utxo cache) (txin # ins) = None"
      using w(1) by (auto split: if_splits option.splits dest: sym)
    moreover have "spend_inputs view cache (txin # ins) = None"
      using w(2) None by (simp add: spend_coins_def)
    ultimately show ?thesis by simp
  next
    case (Some p)
    obtain undo coins' where p: "p = (undo, coins')" by fastforce
    have u: "cache_utxo utxo cache (out_hash ?out) = Some coins"
      using w(1) Some Spend_pruned by (metis live_simps(2) option.distinct(1))
    have "cache_utxo utxo cache1 = (cache_utxo utxo cache)(out_hash ?out := live (Some coins'))"
      using w(4) Some p Spend_Cleanup [of coins ?out undo coins'] by (simp add: spend_coins_def)
    then have "spend_utxo (cache_utxo utxo cache) (txin # ins) =
        map_option (\<lambda>(vprevout, u). (undo # vprevout, u)) (spend_utxo (cache_utxo utxo cache1) ins)"
      using u Some p by simp
    moreover have "spend_inputs view cache (txin # ins) =
        (case spend_inputs view cache1 ins of None \<Rightarrow> None | Some (vprevout, inputs) \<Rightarrow> Some (undo # vprevout, inputs))"
      using w(2) Some p by (simp add: spend_coins_def)
    ultimately show ?thesis
      using Cons.IH [OF w(3)] by (cases "spend_utxo (cache_utxo utxo cache1) ins") auto
  qed
qed simp

lemma UpdateCoins_refines:
  assumes "cache_inv ok known utxo cache"
  shows "case update_utxo c tx (cache_utxo utxo cache) nHeight of
      None \<Rightarrow> UpdateCoins c view tx cache txundo nHeight = None
    | Some (undos, u) \<Rightarrow> \<exists>cache'. UpdateCoins c view tx cache txundo nHeight = Some (txundo @ undos, cache')
        \<and> cache_inv ok known utxo cache' \<and> cache_utxo utxo cache' = u"
proof -
  let ?spend = "if ordinary tx then spend_inputs view cache (vin tx) else Some ([], cache)"
  let ?spec = "if ordinary tx then spend_utxo (cache_utxo utxo cache) (vin tx) else Some ([], cache_utxo utxo cache)"
  have s: "case ?spec of None \<Rightarrow> ?spend = None
    | Some (undos, u) \<Rightarrow> \<exists>cache'. ?spend = Some (undos, cache') \<and> cache_inv ok known utxo cache' \<and> cache_utxo utxo cache' = u"
    using spend_inputs_refines [OF assms, of "vin tx"] assms by simp
  show ?thesis
  proof (cases ?spec)
    case None
    then have "?spend = None" using s by simp
    then show ?thesis using None by (simp add: UpdateCoins_def update_utxo_def)
  next
    case (Some p)
    obtain undos u where p: "p = (undos, u)" by fastforce
    obtain cache1 where c1: "?spend = Some (undos, cache1)" "cache_inv ok known utxo cache1" "cache_utxo utxo cache1 = u"
      using s Some p by auto
    obtain cache2 where w: "with_modifier view cache1 (SerializeHash c tx) (\<lambda>coins. ((), FromTx tx nHeight)) = Some ((), cache2)"
      "cache_inv ok known utxo cache2"
      "cache_utxo utxo cache2 = u(SerializeHash c tx := live (Some (FromTx tx nHeight)))"
      using with_modifier_ok [OF c1(2), of "SerializeHash c tx" "\<lambda>coins. ((), FromTx tx nHeight)"] c1(3)
      by (metis Cleanup_FromTx fst_conv snd_conv)
    have "UpdateCoins c view tx cache txundo nHeight = Some (txundo @ undos, cache2)"
      unfolding UpdateCoins_def c1(1) by (simp add: w(1))
    moreover have "update_utxo c tx (cache_utxo utxo cache) nHeight =
        Some (undos, u(SerializeHash c tx := live (Some (FromTx tx nHeight))))"
      unfolding update_utxo_def Some p by simp
    ultimately show ?thesis using w by auto
  qed
qed

end

context coins_view
begin

lemma HaveInputs_ok:
  assumes "cache_inv ok known utxo cache" "HaveInputs view cache tx = (r, cache')" "ordinary tx"
  shows "cache_inv ok known utxo cache'" "cache_utxo utxo cache' = cache_utxo utxo cache"
    "r = list_all (\<lambda>txin. available (cache_utxo utxo cache) (prevout txin)) (vin tx)"
  using HaveInputs_loop_ok [OF assms(1), of "vin tx" r cache'] assms(2,3) by (simp_all add: HaveInputs_def)

end

section \<open>The assertion in \<open>UpdateCoins\<close>\<close>

lemma nth_Cleanup_loop:
  assumes "n < length outs" "\<not> CTxOut_IsNull (outs ! n)"
  shows "n < length (Cleanup_loop outs)" "Cleanup_loop outs ! n = outs ! n"
proof -
  obtain ns where ns: "outs = Cleanup_loop outs @ ns" "list_all CTxOut_IsNull ns" by (rule Cleanup_loop_split)
  have "CTxOut_IsNull (outs ! n)" if "\<not> n < length (Cleanup_loop outs)"
  proof -
    have "n - length (Cleanup_loop outs) < length ns"
      using assms(1) ns(1) that by (metis add_less_cancel_left length_append le_add_diff_inverse not_less)
    then have "CTxOut_IsNull (ns ! (n - length (Cleanup_loop outs)))" using ns(2) by (simp add: list_all_length)
    then show ?thesis using ns(1) that by (metis nth_append)
  qed
  then show n: "n < length (Cleanup_loop outs)" using assms(2) by blast
  show "Cleanup_loop outs ! n = outs ! n" using ns(1) n by (metis nth_append)
qed

text \<open>An available output can be spent, and spending it leaves the others available.\<close>

lemma Spend_available: "IsAvailable coins (out_n out) \<Longrightarrow> \<exists>undo coins'. Spend coins out = Some (undo, coins')"
  by (auto simp: IsAvailable_def Spend_def Let_def)

lemma Spend_others:
  assumes "Spend coins out = Some (undo, coins')" "IsAvailable coins n" "n \<noteq> out_n out"
  shows "IsAvailable coins' n"
proof -
  have "coins_vout coins' = Cleanup_loop ((coins_vout coins)[unat (out_n out) := CTxOut_SetNull])"
    using assms(1) by (auto simp: Spend_def Let_def Cleanup_def split: if_splits)
  moreover have "unat n \<noteq> unat (out_n out)" using assms(3) word_unat_eq_iff by blast
  ultimately show ?thesis
    using assms(2) nth_Cleanup_loop [of "unat n" "(coins_vout coins)[unat (out_n out) := CTxOut_SetNull]"]
    by (auto simp: IsAvailable_def)
qed

lemma available_spent:
  assumes "u (out_hash out) = Some coins" "Spend coins out = Some (undo, coins')" "available u out'" "out' \<noteq> out"
  shows "available (u(out_hash out := live (Some coins'))) out'"
proof (cases "out_hash out' = out_hash out")
  case True
  then have n: "out_n out' \<noteq> out_n out" using assms(4) by (metis COutPoint.equality unit.exhaust)
  have "IsAvailable coins' (out_n out')"
    using assms(1,3) True by (intro Spend_others [OF assms(2)] n) (simp add: available_def)
  then show ?thesis using True available_Some [of "u(out_hash out := live (Some coins'))" out' coins'] by simp
next
  case False
  then show ?thesis using assms(3) by (simp add: available_def)
qed

lemma spend_utxo_total:
  assumes "list_all (\<lambda>txin. available u (prevout txin)) ins" "distinct (map prevout ins)"
  shows "spend_utxo u ins \<noteq> None"
  using assms
proof (induction ins arbitrary: u)
  case (Cons txin ins)
  from Cons.prems(1) obtain coins where coins: "u (out_hash (prevout txin)) = Some coins" "IsAvailable coins (out_n (prevout txin))"
    by (auto simp: available_def)
  obtain undo coins' where s: "Spend coins (prevout txin) = Some (undo, coins')" using Spend_available [OF coins(2)] by blast
  have "list_all (\<lambda>txin'. available (u(out_hash (prevout txin) := live (Some coins'))) (prevout txin')) ins"
    unfolding list_all_iff
  proof
    fix txin' assume t: "txin' \<in> set ins"
    have "prevout txin' \<in> set (map prevout ins)" "prevout txin \<notin> set (map prevout ins)"
      using t Cons.prems(2) by simp_all
    then have "available u (prevout txin')" "prevout txin' \<noteq> prevout txin"
      using Cons.prems(1) t by (auto simp only: list_all_iff list.set)
    then show "available (u(out_hash (prevout txin) := live (Some coins'))) (prevout txin')"
      by (intro available_spent [of u "prevout txin" coins, OF coins(1) s])
  qed
  then have "spend_utxo (u(out_hash (prevout txin) := live (Some coins'))) ins \<noteq> None"
    by (rule Cons.IH) (use Cons.prems(2) in simp)
  then show ?case by (auto simp: coins(1) s simp del: live_simps)
qed simp

section \<open>Disconnecting leads back\<close>

text \<open>
  The coins of which inputs spend the last unspent output, for a list of inputs and for the
  transactions of a block.
\<close>

fun emptied :: "utxo \<Rightarrow> CTxIn list \<Rightarrow> txid set" where
  "emptied u [] = {}"
| "emptied u (txin # ins) =
     (case u (out_hash (prevout txin)) of
        None \<Rightarrow> {}
      | Some coins \<Rightarrow>
          (case Spend coins (prevout txin) of
             None \<Rightarrow> {}
           | Some (undo, coins) \<Rightarrow>
               (if IsPruned coins then {out_hash (prevout txin)} else {})
               \<union> emptied (u(out_hash (prevout txin) := live (Some coins))) ins))"

fun block_emptied :: "crypto \<Rightarrow> int32 \<Rightarrow> CTransaction list \<Rightarrow> utxo \<Rightarrow> txid set" where
  "block_emptied c nHeight [] u = {}"
| "block_emptied c nHeight (tx # vtx) u =
     (if ordinary tx then emptied u (vin tx) else {})
     \<union> (case update_utxo c tx u nHeight of None \<Rightarrow> {} | Some (_, u) \<Rightarrow> block_emptied c nHeight vtx u)"

text \<open>A map in which the coins of the transactions in \<open>F\<close> have lost the coinstake flag.\<close>

definition forget_stake :: "txid set \<Rightarrow> utxo \<Rightarrow> utxo" where
  "forget_stake F u txid = (if txid \<in> F then map_option (\<lambda>coins. coins\<lparr>fCoinStake := False\<rparr>) (u txid) else u txid)"

lemma forget_stake_upd:
  assumes "a = forget_stake F' (u(txid := b)) txid" "F \<subseteq> F'" "F' \<subseteq> insert txid F"
  shows "(forget_stake F (u(txid := d)))(txid := a) = forget_stake F' (u(txid := b))"
  using assms by (auto simp: forget_stake_def fun_eq_iff)

lemma forget_stake_simps [simp]: "forget_stake {} u = u" "forget_stake F u txid = None \<longleftrightarrow> u txid = None"
  by (auto simp: forget_stake_def fun_eq_iff)

definition good_coins :: "CCoins \<Rightarrow> bool" where
  "good_coins coins \<longleftrightarrow> coins_wf coins \<and> coins_nHeight coins \<noteq> 0 \<and> length (coins_vout coins) < 2 ^ 32 \<and> \<not> IsPruned coins"

definition good_utxo :: "utxo \<Rightarrow> bool" where
  "good_utxo u \<longleftrightarrow> (\<forall>txid coins. u txid = Some coins \<longrightarrow> good_coins coins)"

lemma good_utxo_upd: "good_utxo u \<Longrightarrow> (\<And>coins. r = Some coins \<Longrightarrow> good_coins coins) \<Longrightarrow> good_utxo (u(txid := r))"
  by (simp add: good_utxo_def)

lemma stake_simps [simp]:
  "IsPruned (coins\<lparr>fCoinStake := b\<rparr>) = IsPruned coins" "IsAvailable (coins\<lparr>fCoinStake := b\<rparr>) = IsAvailable coins"
  "Cleanup (coins\<lparr>fCoinStake := b\<rparr>) = (Cleanup coins)\<lparr>fCoinStake := b\<rparr>"
  by (simp_all add: IsPruned_def IsAvailable_def Cleanup_def fun_eq_iff)

lemma restore_output_stake:
  "undo_nHeight undo = 0 \<Longrightarrow> restore_output coins out undo = (r, coins') \<Longrightarrow>
   restore_output (coins\<lparr>fCoinStake := b\<rparr>) out undo = (r, coins'\<lparr>fCoinStake := b\<rparr>)"
  by (auto simp: restore_output_def Let_def)

lemma restore_output_pruned:
  "undo_nHeight undo \<noteq> 0 \<Longrightarrow> IsPruned coins \<Longrightarrow> IsPruned coins' \<Longrightarrow>
   restore_output coins out undo = restore_output coins' out undo"
  by (simp add: restore_output_def Let_def)

lemma Cleanup_loop_sub: "length (Cleanup_loop outs) \<le> length outs" "list_all P outs \<Longrightarrow> list_all P (Cleanup_loop outs)"
proof -
  obtain ns where ns: "outs = Cleanup_loop outs @ ns" by (rule Cleanup_loop_split)
  show "length (Cleanup_loop outs) \<le> length outs" by (subst (2) ns) simp
  show "list_all P outs \<Longrightarrow> list_all P (Cleanup_loop outs)" by (subst (asm) ns) simp
qed

lemma Spend_fields:
  assumes "Spend coins out = Some (undo, coins')"
  shows "coins_nHeight coins' = coins_nHeight coins" "length (coins_vout coins') \<le> length (coins_vout coins)"
    "undo_nHeight undo = (if coins_vout coins' = [] then coins_nHeight coins else 0)"
proof -
  have "length (Cleanup_loop ((coins_vout coins)[unat (out_n out) := CTxOut_SetNull])) \<le> length (coins_vout coins)"
    using Cleanup_loop_sub(1) [of "(coins_vout coins)[unat (out_n out) := CTxOut_SetNull]"] by simp
  then show "coins_nHeight coins' = coins_nHeight coins" "length (coins_vout coins') \<le> length (coins_vout coins)"
    "undo_nHeight undo = (if coins_vout coins' = [] then coins_nHeight coins else 0)"
    using assms by (auto simp: Spend_def Let_def Cleanup_def new_CTxInUndo_def split: if_splits)
qed

lemma Spend_good:
  assumes "good_coins coins" "Spend coins out = Some (undo, coins')" "live (Some coins') = Some d"
  shows "good_coins d"
  using assms Spend_fields [OF assms(2)] restore_Spend(1) [OF _ _ _ assms(2)]
  by (auto simp: good_coins_def split: if_splits)

lemma good_spent:
  assumes "good_utxo u" "good_coins coins" "Spend coins out = Some (undo, coins')"
  shows "good_utxo (u(txid := live (Some coins')))"
  by (rule good_utxo_upd [OF assms(1)]) (rule Spend_good [OF assms(2,3)])

text \<open>One output, whatever pruned entry the cache has where the coins are gone.\<close>

lemma restore_one:
  assumes "good_coins coins" "Spend coins out = Some (undo, coins')"
    "live (Some d) = forget_stake F (u(txid := live (Some coins'))) txid"
  obtains q where "restore_output d out undo = (True, q)" "Cleanup q = q"
    "live (Some q) = forget_stake (F \<union> (if IsPruned coins' then {txid} else {})) (u(txid := Some coins)) txid"
proof -
  have wf: "coins_wf coins" "coins_nHeight coins \<noteq> 0" "length (coins_vout coins) < 2 ^ 32" "\<not> IsPruned coins"
    using assms(1) by (simp_all add: good_coins_def)
  note restored = restore_Spend [OF wf(1-3) assms(2)]
  have clean: "Cleanup coins = coins" using wf(1) by (simp add: Cleanup_def coins_wf_def)
  have pruned: "IsPruned coins' \<longleftrightarrow> coins_vout coins' = []" using IsPruned_wf [OF restored(1)] .
  show thesis
  proof (cases "coins_vout coins' = []")
    case True
    then have "IsPruned d" using assms(3) pruned by (auto simp: forget_stake_def split: if_splits)
    then have "restore_output d out undo = restore_output coins' out undo"
      using wf(2) Spend_fields(3) [OF assms(2)] True pruned by (intro restore_output_pruned) simp_all
    then show thesis using restored(2) True that clean wf(4) pruned by (simp add: forget_stake_def)
  next
    case False
    then have d: "d = (if txid \<in> F then coins'\<lparr>fCoinStake := False\<rparr> else coins')"
      using assms(3) pruned by (auto simp: forget_stake_def split: if_splits)
    have q: "restore_output coins' out undo = (True, coins)" using restored(2) False by simp
    have "restore_output (coins'\<lparr>fCoinStake := False\<rparr>) out undo = (True, coins\<lparr>fCoinStake := False\<rparr>)"
      using Spend_fields(3) [OF assms(2)] False q by (intro restore_output_stake) simp_all
    then have "restore_output d out undo = (True, if txid \<in> F then coins\<lparr>fCoinStake := False\<rparr> else coins)"
      using d q by simp
    then show thesis by (rule that) (use False pruned clean wf(4) in \<open>auto simp: forget_stake_def\<close>)
  qed
qed

lemma restore_inputs_append:
  "restore_inputs view (xs @ ys) fClean cache =
     (case restore_inputs view xs fClean cache of None \<Rightarrow> None | Some (fClean, cache) \<Rightarrow> restore_inputs view ys fClean cache)"
  by (induction view xs fClean cache rule: restore_inputs.induct) (auto split: option.split)

lemma spend_utxo_good:
  assumes "good_utxo u" "spend_utxo u ins = Some (undos, u')"
  shows "good_utxo u'" "length undos = length ins" "u txid = None \<Longrightarrow> u' txid = None"
proof -
  have "good_utxo u' \<and> length undos = length ins \<and> (u txid = None \<longrightarrow> u' txid = None)"
    using assms
  proof (induction ins arbitrary: u undos)
    case (Cons txin ins)
    let ?h = "out_hash (prevout txin)"
    obtain coins undo coins' us where s: "u ?h = Some coins" "Spend coins (prevout txin) = Some (undo, coins')"
      "spend_utxo (u(?h := live (Some coins'))) ins = Some (us, u')" "undos = undo # us"
      using Cons.prems(2) by (auto split: option.splits)
    have "good_coins coins" using Cons.prems(1) s(1) by (simp add: good_utxo_def)
    then have "good_utxo (u(?h := live (Some coins')))"
      by (rule good_spent [OF Cons.prems(1) _ s(2)])
    from Cons.IH [OF this s(3)] s(1,4) show ?case by (cases "txid = ?h") auto
  qed simp
  then show "good_utxo u'" "length undos = length ins" "u txid = None \<Longrightarrow> u' txid = None" by blast+
qed

context coins_view
begin

lemma restore_inputs_undoes:
  assumes "cache_inv ok known utxo cache" "good_utxo u" "spend_utxo u ins = Some (undos, u')"
    "cache_utxo utxo cache = forget_stake F u'"
  shows "\<exists>cache'. restore_inputs view (rev (zip ins undos)) fClean cache = Some (fClean, cache')
    \<and> cache_inv ok known utxo cache' \<and> cache_utxo utxo cache' = forget_stake (F \<union> emptied u ins) u
    \<and> hashBlock cache' = hashBlock cache"
  using assms
proof (induction ins arbitrary: u undos)
  case (Cons txin ins)
  let ?h = "out_hash (prevout txin)"
  obtain coins undo coins' us where s: "u ?h = Some coins" "Spend coins (prevout txin) = Some (undo, coins')"
    "spend_utxo (u(?h := live (Some coins'))) ins = Some (us, u')" "undos = undo # us"
    using Cons.prems(3) by (auto split: option.splits)
  let ?u1 = "u(?h := live (Some coins'))" and ?E = "if IsPruned coins' then {?h} else {}"
  let ?F = "F \<union> emptied ?u1 ins"
  have good: "good_coins coins" using Cons.prems(2) s(1) by (simp add: good_utxo_def)
  then have "good_utxo ?u1" by (rule good_spent [OF Cons.prems(2) _ s(2)])
  then obtain cache1 where c1: "restore_inputs view (rev (zip ins us)) fClean cache = Some (fClean, cache1)"
    "cache_inv ok known utxo cache1" "cache_utxo utxo cache1 = forget_stake ?F ?u1"
    "hashBlock cache1 = hashBlock cache"
    using Cons.IH [OF Cons.prems(1) _ s(3) Cons.prems(4)] by blast
  obtain d cache2 where w: "live (Some d) = cache_utxo utxo cache1 ?h"
    "with_modifier view cache1 ?h (\<lambda>coins. restore_output coins (prevout txin) undo) =
      Some (fst (restore_output d (prevout txin) undo), cache2)" "cache_inv ok known utxo cache2"
    "cache_utxo utxo cache2 = (cache_utxo utxo cache1)(?h := live (Some (Cleanup (snd (restore_output d (prevout txin) undo)))))"
    "hashBlock cache2 = hashBlock cache1"
    using with_modifier_ok [OF c1(2)] by metis
  obtain q where q: "restore_output d (prevout txin) undo = (True, q)" "Cleanup q = q"
    "live (Some q) = forget_stake (?F \<union> ?E) (u(?h := Some coins)) ?h"
    using restore_one [OF good s(2) w(1) [unfolded c1(3)]] by blast
  have "cache_utxo utxo cache2 = forget_stake (?F \<union> ?E) (u(?h := Some coins))"
    unfolding w(4) c1(3) q(1) snd_conv q(2) by (rule forget_stake_upd [OF q(3)]) auto
  moreover have "u(?h := Some coins) = u" using s(1) by auto
  moreover have "?F \<union> ?E = F \<union> emptied u (txin # ins)" using s(1,2) by auto
  moreover have "restore_inputs view (rev (zip (txin # ins) undos)) fClean cache = Some (fClean, cache2)"
    using c1(1) w(2) q(1) by (simp add: s(4) restore_inputs_append)
  ultimately show ?case using w(3,5) c1(4) by auto
qed auto

end

lemma ClearUnspendable_idem: "ClearUnspendable (ClearUnspendable coins) = ClearUnspendable coins"
proof -
  define f where "f = (\<lambda>txout. if IsUnspendable (scriptPubKey txout) then CTxOut_SetNull else txout)"
  define outs where "outs = map f (coins_vout coins)"
  have "f (f txout) = f txout" for txout
    by (simp add: f_def CTxOut_SetNull_def IsUnspendable_def)
  then have "list_all (\<lambda>txout. f txout = txout) outs" by (simp add: outs_def list_all_iff)
  then have "list_all (\<lambda>txout. f txout = txout) (Cleanup_loop outs)" by (rule Cleanup_loop_sub)
  then have "map f (Cleanup_loop outs) = Cleanup_loop outs" by (simp add: list_all_iff map_idI)
  then show ?thesis by (simp add: ClearUnspendable_def Cleanup_def flip: f_def outs_def)
qed

lemma ClearUnspendable_pruned: "IsPruned coins \<Longrightarrow> IsPruned (ClearUnspendable coins)"
  unfolding IsPruned_def ClearUnspendable_def Cleanup_def
  by (simp, rule Cleanup_loop_sub) (auto simp: list_all_iff)

lemma coins_eq_refl [simp]: "coins_eq coins coins"
  by (simp add: coins_eq_def)

lemma FromTx_fields [simp]:
  "fCoinStake (FromTx tx nHeight) = IsCoinStake tx" "coins_nHeight (FromTx tx nHeight) = nHeight"
  "ClearUnspendable (FromTx tx nHeight) = FromTx tx nHeight"
  by (simp_all add: FromTx_def ClearUnspendable_idem, simp_all add: ClearUnspendable_def Cleanup_def)

text \<open>The outputs are found as the block created them.\<close>

lemma remove_outputs_clean:
  assumes "live (Some outs) = forget_stake F (u(txid := live (Some (FromTx tx nHeight)))) txid" "IsCoinStake tx \<Longrightarrow> txid \<notin> F"
  shows "remove_outputs tx nHeight outs = (True, CCoins_Clear)"
proof (cases "IsPruned (FromTx tx nHeight)")
  case True
  then have "IsPruned outs" using assms(1) by (auto simp: forget_stake_def split: if_splits)
  then have "IsPruned (ClearUnspendable outs)" by (rule ClearUnspendable_pruned)
  then have "coins_eq ((ClearUnspendable outs)\<lparr>coins_nVersion := v\<rparr>) (FromTx tx nHeight)"
    "coins_eq (ClearUnspendable outs) (FromTx tx nHeight)" for v
    using True by (simp_all add: coins_eq_def) (simp_all add: IsPruned_def)
  then show ?thesis by (simp add: remove_outputs_def Let_def)
next
  case False
  have stake: "(FromTx tx nHeight)\<lparr>fCoinStake := False\<rparr> = FromTx tx nHeight" if "\<not> IsCoinStake tx"
    using that by (simp add: FromTx_def ClearUnspendable_def Cleanup_def)
  have "outs = FromTx tx nHeight"
    using assms False stake by (cases "IsCoinStake tx") (auto simp: forget_stake_def split: if_splits)
  then show ?thesis by (simp add: remove_outputs_def Let_def)
qed

definition good_tx :: "CTransaction \<Rightarrow> bool" where
  "good_tx tx \<longleftrightarrow> length (vout tx) < 2 ^ 32 \<and> list_all (\<lambda>txout. nValue txout \<noteq> - 1) (vout tx)"

lemma FromTx_good:
  assumes "good_tx tx" "nHeight \<noteq> 0" "live (Some (FromTx tx nHeight)) = Some coins"
  shows "good_coins coins"
proof -
  let ?outs = "map (\<lambda>txout. if IsUnspendable (scriptPubKey txout) then CTxOut_SetNull else txout) (vout tx)"
  define base where "base = \<lparr>fCoinBase = IsCoinBase tx, fCoinStake = IsCoinStake tx, coins_vout = ?outs,
    coins_nHeight = nHeight, coins_nVersion = tx_nVersion tx\<rparr>"
  have f: "FromTx tx nHeight = Cleanup base" by (simp add: FromTx_def ClearUnspendable_def base_def)
  have "list_all nulled ?outs"
    using assms(1) by (auto simp: good_tx_def list_all_iff nulled_def CTxOut_IsNull_def CTxOut_SetNull_def)
  then have "coins_wf (FromTx tx nHeight)" unfolding f by (intro coins_wf_Cleanup) (simp add: base_def)
  moreover have "length (coins_vout (FromTx tx nHeight)) \<le> length (vout tx)"
    using Cleanup_loop_sub(1) [of ?outs] by (simp add: f Cleanup_def base_def)
  ultimately show ?thesis
    using assms by (auto simp: good_coins_def good_tx_def split: if_splits)
qed

context coins_view
begin

lemma disconnect_tx_undoes:
  assumes "cache_inv ok known utxo cache" "good_utxo u" "u (SerializeHash c tx) = None"
    "update_utxo c tx u nHeight = Some (txundo, u')" "cache_utxo utxo cache = forget_stake F u'"
    "IsCoinStake tx \<Longrightarrow> SerializeHash c tx \<notin> F" "ordinary tx \<Longrightarrow> o' = Some txundo"
  shows "\<exists>cache'. disconnect_tx c view nHeight tx o' fClean cache = Some (Inr (fClean, cache'))
    \<and> cache_inv ok known utxo cache'
    \<and> cache_utxo utxo cache' = forget_stake (F \<union> (if ordinary tx then emptied u (vin tx) else {})) u
    \<and> hashBlock cache' = hashBlock cache"
proof -
  let ?h = "SerializeHash c tx"
  obtain u1 where u1: "(if ordinary tx then spend_utxo u (vin tx) else Some ([], u)) = Some (txundo, u1)"
    "u' = u1(?h := live (Some (FromTx tx nHeight)))"
    using assms(4) by (auto simp: update_utxo_def)
  have none: "u1 ?h = None"
    using u1(1) assms(3) spend_utxo_good(3) [OF assms(2)] by (auto split: if_splits)
  obtain outs cache1 where w: "live (Some outs) = cache_utxo utxo cache ?h"
    "with_modifier view cache ?h (remove_outputs tx nHeight) = Some (fst (remove_outputs tx nHeight outs), cache1)"
    "cache_inv ok known utxo cache1"
    "cache_utxo utxo cache1 = (cache_utxo utxo cache)(?h := live (Some (Cleanup (snd (remove_outputs tx nHeight outs)))))"
    "hashBlock cache1 = hashBlock cache"
    using with_modifier_ok [OF assms(1)] by metis
  have removed: "remove_outputs tx nHeight outs = (True, CCoins_Clear)"
    by (rule remove_outputs_clean [OF w(1) [unfolded assms(5) u1(2)] assms(6)])
  have "live (Some (Cleanup CCoins_Clear)) = None" by (simp add: Cleanup_def CCoins_Clear_def IsPruned_def)
  then have "cache_utxo utxo cache1 = (forget_stake F u')(?h := None)" using w(4) removed assms(5) by simp
  also have "\<dots> = forget_stake F (u1(?h := None))"
    unfolding u1(2) by (rule forget_stake_upd) (auto simp: forget_stake_def)
  finally have same: "cache_utxo utxo cache1 = forget_stake F u1" using none by (simp add: fun_upd_idem)
  show ?thesis
  proof (cases "ordinary tx")
    case False
    then show ?thesis using w(2,3,5) removed u1(1) same by (auto simp: disconnect_tx_def)
  next
    case True
    then have s: "spend_utxo u (vin tx) = Some (txundo, u1)" using u1(1) by simp
    obtain cache2 where "restore_inputs view (rev (zip (vin tx) txundo)) fClean cache1 = Some (fClean, cache2)"
      "cache_inv ok known utxo cache2" "cache_utxo utxo cache2 = forget_stake (F \<union> emptied u (vin tx)) u"
      "hashBlock cache2 = hashBlock cache1"
      using restore_inputs_undoes [OF w(3) assms(2) s same] by blast
    then show ?thesis
      using True w(2,5) removed assms(7) spend_utxo_good(2) [OF assms(2) s] by (simp add: disconnect_tx_def)
  qed
qed

end

lemma disconnect_txs_append:
  "disconnect_txs c erase view nHeight (xs @ ys) fClean cache =
     (case disconnect_txs c erase view nHeight xs fClean cache of
        None \<Rightarrow> None
      | Some (Inl e) \<Rightarrow> Some (Inl e)
      | Some (Inr (fClean, cache)) \<Rightarrow> disconnect_txs c erase view nHeight ys fClean cache)"
  by (induction c erase view nHeight xs fClean cache rule: disconnect_txs.induct) (auto split: option.split sum.split)

text \<open>No later transaction of the block spends the last output of a coinstake.\<close>

fun stakes_kept :: "crypto \<Rightarrow> int32 \<Rightarrow> CTransaction list \<Rightarrow> utxo \<Rightarrow> bool" where
  "stakes_kept c nHeight [] u = True"
| "stakes_kept c nHeight (tx # vtx) u =
     (case update_utxo c tx u nHeight of
        None \<Rightarrow> True
      | Some (_, u) \<Rightarrow>
          (IsCoinStake tx \<longrightarrow> SerializeHash c tx \<notin> block_emptied c nHeight vtx u) \<and> stakes_kept c nHeight vtx u)"

lemma connect_utxo_Cons:
  assumes "connect_utxo c nHeight (tx # vtx) u = Some (Inr (undos, u'))"
  obtains txundo us u1 where "u (SerializeHash c tx) = None" "update_utxo c tx u nHeight = Some (txundo, u1)"
    "connect_utxo c nHeight vtx u1 = Some (Inr (us, u'))" "undos = txundo # us"
proof -
  obtain r where r: "update_utxo c tx u nHeight = Some r" "u (SerializeHash c tx) = None"
    using assms by (auto split: if_splits option.splits)
  obtain txundo u1 where p: "r = (txundo, u1)" by fastforce
  have "map_option (map_sum id (\<lambda>(vtxundo, u). (txundo # vtxundo, u))) (connect_utxo c nHeight vtx u1) = Some (Inr (undos, u'))"
    using assms r p by (auto split: if_splits)
  then obtain q where "connect_utxo c nHeight vtx u1 = Some q"
    "map_sum id (\<lambda>(vtxundo, u). (txundo # vtxundo, u)) q = Inr (undos, u')" by auto
  then show thesis using that r p by (cases q) auto
qed

lemma connect_utxo_length: "connect_utxo c nHeight vtx u = Some (Inr (undos, u')) \<Longrightarrow> length undos = length vtx"
  by (induction vtx arbitrary: u undos) (auto elim!: connect_utxo_Cons simp del: connect_utxo.simps(2))

lemma update_utxo_good:
  assumes "good_utxo u" "good_tx tx" "nHeight \<noteq> 0" "update_utxo c tx u nHeight = Some (txundo, u')"
  shows "good_utxo u'"
proof -
  obtain u1 where u1: "(if ordinary tx then spend_utxo u (vin tx) else Some ([], u)) = Some (txundo, u1)"
    "u' = u1(SerializeHash c tx := live (Some (FromTx tx nHeight)))"
    using assms(4) by (auto simp: update_utxo_def)
  then have "good_utxo u1" using assms(1) spend_utxo_good(1) [OF assms(1)] by (auto split: if_splits)
  then show ?thesis unfolding u1(2) by (rule good_utxo_upd) (rule FromTx_good [OF assms(2,3)])
qed

lemma SetBestBlock_simps [simp]:
  "cache_inv ok known utxo (SetBestBlock cache hash) = cache_inv ok known utxo cache"
  "cache_utxo utxo (SetBestBlock cache hash) = cache_utxo utxo cache" "hashBlock (SetBestBlock cache hash) = hash"
  by (simp_all add: SetBestBlock_def cache_inv_def cache_ok_def cache_utxo_simps)

context coins_view
begin

lemma disconnect_txs_undoes:
  assumes "cache_inv ok known utxo cache" "good_utxo u" "connect_utxo c nHeight vtx u = Some (Inr (undos, u'))"
    "cache_utxo utxo cache = u'" "nHeight \<noteq> 0" "list_all good_tx vtx" "list_all (\<lambda>tx. ContainsZerocoins tx \<longrightarrow> erase tx) vtx"
    "stakes_kept c nHeight vtx u"
    "length os = length vtx" "list_all (\<lambda>(tx, o', undo). ordinary tx \<longrightarrow> o' = Some undo) (zip vtx (zip os undos))"
  shows "\<exists>cache'. disconnect_txs c erase view nHeight (rev (zip vtx os)) fClean cache = Some (Inr (fClean, cache'))
    \<and> cache_inv ok known utxo cache' \<and> cache_utxo utxo cache' = forget_stake (block_emptied c nHeight vtx u) u
    \<and> hashBlock cache' = hashBlock cache"
  using assms
proof (induction vtx arbitrary: u undos os)
  case (Cons tx vtx)
  obtain txundo us u1 where s: "u (SerializeHash c tx) = None" "update_utxo c tx u nHeight = Some (txundo, u1)"
    "connect_utxo c nHeight vtx u1 = Some (Inr (us, u'))" "undos = txundo # us"
    using Cons.prems(3) by (rule connect_utxo_Cons)
  let ?F = "block_emptied c nHeight vtx u1"
  obtain o' os' where os: "os = o' # os'" using Cons.prems(9) by (cases os) auto
  have tx: "good_tx tx" "ContainsZerocoins tx \<Longrightarrow> erase tx" "IsCoinStake tx \<Longrightarrow> SerializeHash c tx \<notin> ?F"
    using Cons.prems(6-8) s(2) by auto
  have good: "good_utxo u1" using Cons.prems(2,5) s(2) tx(1) by (auto intro: update_utxo_good)
  have rest: "list_all (\<lambda>(tx, o', undo). ordinary tx \<longrightarrow> o' = Some undo) (zip vtx (zip os' us))" "length os' = length vtx"
    "ordinary tx \<Longrightarrow> o' = Some txundo" "list_all good_tx vtx" "list_all (\<lambda>tx. ContainsZerocoins tx \<longrightarrow> erase tx) vtx"
    "stakes_kept c nHeight vtx u1"
    using Cons.prems(6-10) os s(2,4) by auto
  obtain cache1 where c1: "disconnect_txs c erase view nHeight (rev (zip vtx os')) fClean cache = Some (Inr (fClean, cache1))"
    "cache_inv ok known utxo cache1" "cache_utxo utxo cache1 = forget_stake ?F u1" "hashBlock cache1 = hashBlock cache"
    using Cons.IH [OF Cons.prems(1) good s(3) Cons.prems(4,5) rest(4-6,2,1)] by blast
  obtain cache2 where "disconnect_tx c view nHeight tx o' fClean cache1 = Some (Inr (fClean, cache2))"
    "cache_inv ok known utxo cache2"
    "cache_utxo utxo cache2 = forget_stake (?F \<union> (if ordinary tx then emptied u (vin tx) else {})) u"
    "hashBlock cache2 = hashBlock cache1"
    using disconnect_tx_undoes [OF c1(2) Cons.prems(2) s(1,2) c1(3) tx(3) rest(3), of fClean] by blast
  moreover have "?F \<union> (if ordinary tx then emptied u (vin tx) else {}) = block_emptied c nHeight (tx # vtx) u"
    using s(2) by auto
  ultimately show ?case
    using c1 tx(2) by (auto simp: os disconnect_txs_append)
qed auto

text \<open>The whole block, of which \<open>undo\<close> are the undo data that \<open>ConnectBlock\<close> keeps.\<close>

lemma DisconnectBlock_undoes:
  assumes "cache_inv ok known utxo cache" "good_utxo u" "connect_utxo c nHeight vtx u = Some (Inr (undos, u'))"
    "cache_utxo utxo cache = u'" "nHeight \<noteq> 0" "list_all good_tx vtx" "list_all (\<lambda>tx. ContainsZerocoins tx \<longrightarrow> erase tx) vtx"
    "stakes_kept c nHeight vtx u" "hashBlock cache = hash" "hash \<noteq> 0" "vtx \<noteq> []" "IsCoinBase (hd vtx)"
  shows "\<exists>cache'. DisconnectBlock c erase view hash hashPrevBlock nHeight (Some (Some (tl undos))) vtx cache = Some (Inr (True, cache'))
    \<and> cache_inv ok known utxo cache' \<and> cache_utxo utxo cache' = forget_stake (block_emptied c nHeight vtx u) u
    \<and> hashBlock cache' = hashPrevBlock"
proof -
  have len: "length undos = length vtx" by (rule connect_utxo_length [OF assms(3)])
  obtain tx0 vtx' where vtx: "vtx = tx0 # vtx'" using assms(11) by (cases vtx) auto
  obtain undo0 undo where undos: "undos = undo0 # undo" using len vtx by (cases undos) auto
  have "list_all (\<lambda>(tx, o', undo). ordinary tx \<longrightarrow> o' = Some undo) (zip vtx' (zip (map Some undo) undo))"
    by (auto simp: list_all_length)
  then have os: "list_all (\<lambda>(tx, o', undo). ordinary tx \<longrightarrow> o' = Some undo) (zip vtx (zip (None # map Some undo) undos))"
    using assms(12) vtx undos by simp
  obtain cache2 where d:
    "disconnect_txs c erase view nHeight (rev (zip vtx (None # map Some undo))) True cache = Some (Inr (True, cache2))"
    "cache_inv ok known utxo cache2" "cache_utxo utxo cache2 = forget_stake (block_emptied c nHeight vtx u) u"
    using disconnect_txs_undoes [OF assms(1-8) _ os, of True] len undos vtx by auto
  have "cache_GetBestBlock view cache = (hash, cache)"
    using assms(9,10) by (simp add: cache_GetBestBlock_def)
  then have "DisconnectBlock c erase view hash hashPrevBlock nHeight (Some (Some undo)) vtx cache
      = Some (Inr (True, SetBestBlock cache2 hashPrevBlock))"
    using d(1) len undos vtx by (simp add: DisconnectBlock_def)
  then show ?thesis using d(2,3) undos by simp
qed

end

section \<open>A sample block\<close>

text \<open>Transactions get the first byte of their encoding, that of the version, as their id.\<close>

definition witness_hash :: crypto where
  "witness_hash = \<lparr>sha1 = \<lambda>_. 1, ripemd160 = \<lambda>_. 2, sha256 = (\<lambda>b. if b = [] then 0 else ucast (hd b)), CheckLowS = \<lambda>_. True\<rparr>"

definition witness_coinbase :: CTransaction where
  "witness_coinbase = \<lparr>tx_nVersion = 21, vin = [\<lparr>prevout = \<lparr>out_hash = 0, out_n = - 1\<rparr>, scriptSig = [1, 2], nSequence = - 1\<rparr>],
     vout = [\<lparr>nValue = 50, scriptPubKey = [0x51]\<rparr>], nLockTime = 0\<rparr>"

definition witness_vtx :: "CTransaction list" where
  "witness_vtx = [witness_coinbase, witness_spend\<lparr>tx_nVersion := 22\<rparr>]"

lemma nat_le_numeral: "nat_le (numeral k) n = word_of_nat n # nat_le (pred_numeral k) (n div 256)"
  by (metis nat_le.simps(2) numeral_eq_Suc)

lemma witness_ids: "SerializeHash witness_hash witness_coinbase = 21"
  "SerializeHash witness_hash (witness_spend\<lparr>tx_nVersion := 22\<rparr>) = 22"
  by (simp_all add: SerializeHash_def Hash256_def witness_hash_def Serialize_CTransaction_def witness_coinbase_def
    witness_spend_def WRITEDATA_def nat_le_numeral)

lemma witness_vtx_ordinary: "IsCoinBase witness_coinbase" "ordinary (witness_spend\<lparr>tx_nVersion := 22\<rparr>)"
  by (simp_all add: IsCoinBase_def HasZerocoinSpendInputs_def witness_spend_def witness_coinbase_def COutPoint_IsNull_def
    CTxIn_IsZerocoinSpend_def HasZerocoinPublicSpendInputs_def ContainsZerocoins_def HasZerocoinMintOutputs_def
    CTxOut_IsZerocoinMint_def IsZerocoinMint_def IsZerocoinSpend_def StartsWithOpcode_def)

lemma witness_connects:
  obtains undos u where "connect_utxo witness_hash 8 witness_vtx (work_utxo witness_ec witness_work) = Some (Inr (undos, u))"
proof -
  have none: "work_utxo witness_ec witness_work 21 = None" "work_utxo witness_ec witness_work 22 = None"
    by (simp_all add: witness_work_utxo)
  define u where "u = (work_utxo witness_ec witness_work)(21 := live (Some (FromTx witness_coinbase 8)))"
  have "update_utxo witness_hash witness_coinbase (work_utxo witness_ec witness_work) 8 = Some ([], u)"
    using witness_vtx_ordinary by (simp add: update_utxo_def witness_ids u_def)
  then have "connect_utxo witness_hash 8 witness_vtx (work_utxo witness_ec witness_work) =
      map_option (map_sum id (\<lambda>(vtxundo, u). ([] # vtxundo, u))) (connect_utxo witness_hash 8 [witness_spend\<lparr>tx_nVersion := 22\<rparr>] u)"
    using witness_vtx_ordinary none by (simp add: witness_vtx_def witness_ids)
  moreover have a: "available u \<lparr>out_hash = 6, out_n = 1\<rparr>"
    using witness_available by (simp add: available_def u_def)
  have "update_utxo witness_hash (witness_spend\<lparr>tx_nVersion := 22\<rparr>) u 8 \<noteq> None"
    using spend_utxo_total [of u "vin witness_spend"] a witness_vtx_ordinary
    by (auto simp: update_utxo_def witness_spend_def)
  then have "\<exists>us u'. connect_utxo witness_hash 8 [witness_spend\<lparr>tx_nVersion := 22\<rparr>] u = Some (Inr (us, u'))"
    using a none witness_vtx_ordinary(2) by (auto simp: witness_ids u_def) (auto simp: witness_spend_def)
  ultimately show thesis using that by auto
qed

lemma witness_best: "cache_best (cache_best db_best_block) witness_work = 11"
  by (simp add: cache_best_def witness_work_def)

lemma witness_good: "good_utxo (work_utxo witness_ec witness_work)"
proof -
  have "good_coins witness_coins"
    using witness_coins_storable by (simp add: good_coins_def coins_storable_def) (simp add: witness_coins_def)
  then show ?thesis by (simp add: good_utxo_def witness_work_utxo)
qed

end
