(* ===== verification/Validation.thy ===== *)
theory Validation
  imports ConnectBlock
begin

unbundle bit_operations_syntax

text \<open>
  The checks of a block that is connected (\<^verbatim>\<open>src/src/main.cpp\<close>): \<open>CheckInputs\<close> with \<open>CScriptCheck\<close>,
  \<open>GetBlockValue\<close>, the limit on what a block may mint (\<open>IsBlockValueValid\<close> in
  \<^verbatim>\<open>src/src/masternode-payments.cpp\<close>), \<open>ConnectBlock\<close> around them, and the cache of valid signatures
  (\<^verbatim>\<open>src/src/script/sigcache.cpp\<close>).

  \<^item> \<open>None\<close> is a failed assertion or undefined behaviour; a rejected block or transaction is a
    value with the reason.  \<open>GetValueOut\<close> may throw, and nothing here catches the exception.
  \<^item> Amounts are 64-bit words that wrap around; heights are \<open>int\<close>.
  \<^item> The state of other parts of the node that the functions read (the block index, sporks, the
    finalized budgets, the synchronisation of masternodes) is the record \<open>connect_env\<close>, and so are
    the values the zerocoin library parses from inputs and outputs.
  \<^item> The checks that \<open>ConnectBlock\<close> gives to the queue are collected; \<open>control.Wait()\<close> is whether all of
    them succeed, which the theory \<open>CheckQueue\<close> shows.  The signature checker is the one without the cache,
    which makes no difference (theorem \<open>signature_cache_transparent\<close>).

  The lemmas show what a transaction that \<open>CheckInputs\<close> accepts satisfies, that an accepted block
  changes the unspent coins as the specification of \<open>ConnectBlock\<close> says, that it adds no more
  than the block reward to their total value, and that \<open>DisconnectBlock\<close> undoes it.  Of \<open>CheckBlock\<close>,
  which runs before \<open>ConnectBlock\<close>, the rules on coinbases and coinstakes are modelled (\<open>CheckBlock_kinds\<close>).
\<close>

section \<open>Results\<close>

definition and_then :: "('e + 'a) option \<Rightarrow> ('a \<Rightarrow> ('e + 'b) option) \<Rightarrow> ('e + 'b) option" where
  "and_then x f = (case x of None \<Rightarrow> None | Some (Inl e) \<Rightarrow> Some (Inl e) | Some (Inr a) \<Rightarrow> f a)"

lemma and_then_simps [simp]:
  "and_then None f = None" "and_then (Some (Inl e)) f = Some (Inl e)" "and_then (Some (Inr a)) f = f a"
  by (simp_all add: and_then_def)

lemma and_then_Inr: "and_then x f = Some (Inr b) \<longleftrightarrow> (\<exists>a. x = Some (Inr a) \<and> f a = Some (Inr b))"
  by (auto simp: and_then_def split: option.split sum.split)

section \<open>The cache of valid signatures\<close>

text \<open>
  A public key is compared by its bytes; an invalid one has the header byte \<open>0xFF\<close>.  The set
  is sorted by hash, signature and key, so that \<open>lower_bound\<close> is the first element that is not smaller.
\<close>

type_synonym sigdata_type = "256 word \<times> bytes \<times> bytes"

definition sig_less_eq :: "sigdata_type \<Rightarrow> sigdata_type \<Rightarrow> bool" where
  "sig_less_eq a b \<longleftrightarrow>
     (case a of (h, sig, key) \<Rightarrow> case b of (h', sig', key') \<Rightarrow>
        h < h' \<or> h = h' \<and> (sig < sig' \<or> sig = sig' \<and>
          (if key = [] then [0xFF] else key) \<le> (if key' = [] then [0xFF] else key')))"

definition cache_Get :: "sigdata_type list \<Rightarrow> sigdata_type \<Rightarrow> bool" where
  "cache_Get setValid k = (k \<in> set setValid)"

lemma filter_hd_mem: "setValid \<noteq> [] \<Longrightarrow> (case filter P setValid of [] \<Rightarrow> hd setValid | k # _ \<Rightarrow> k) \<in> set setValid"
  by (auto split: list.split) (metis filter_is_subset list.set_intros(1) subsetD)

text \<open>The loop that evicts entries; \<open>rand\<close> are the values of \<open>GetRandHash\<close>, one for every round.\<close>

function evict :: "(nat \<Rightarrow> 256 word) \<Rightarrow> nat \<Rightarrow> int \<Rightarrow> sigdata_type list \<Rightarrow> sigdata_type list" where
  "evict rand i nMaxCacheSize setValid =
     (if int (length setValid) > nMaxCacheSize \<and> setValid \<noteq> [] then
        let it = (case filter (sig_less_eq (rand i, [], [])) setValid of [] \<Rightarrow> hd setValid | k # _ \<Rightarrow> k)
        in evict rand (i + 1) nMaxCacheSize (remove1 it setValid)
      else setValid)"
  by pat_completeness auto

termination
  by (relation "measure (\<lambda>(_, _, _, setValid). length setValid)")
     (use filter_hd_mem in \<open>auto simp: length_remove1 simp del: list.case\<close>)

declare evict.simps [simp del]

definition cache_Set :: "(nat \<Rightarrow> 256 word) \<Rightarrow> int \<Rightarrow> sigdata_type list \<Rightarrow> sigdata_type \<Rightarrow> sigdata_type list" where
  "cache_Set rand nMaxCacheSize setValid k =
     (if nMaxCacheSize \<le> 0 then setValid
      else let setValid = evict rand 0 nMaxCacheSize setValid
           in if k \<in> set setValid then setValid
              else takeWhile (\<lambda>x. sig_less_eq x k) setValid @ k # dropWhile (\<lambda>x. sig_less_eq x k) setValid)"

definition Caching_VerifySignature ::
  "(bytes \<Rightarrow> 256 word \<Rightarrow> bytes \<Rightarrow> bool) \<Rightarrow> (nat \<Rightarrow> 256 word) \<Rightarrow> int \<Rightarrow> bool \<Rightarrow> sigdata_type list
   \<Rightarrow> bytes \<Rightarrow> bytes \<Rightarrow> 256 word \<Rightarrow> bool \<times> sigdata_type list" where
  "Caching_VerifySignature Verify rand nMaxCacheSize store setValid vchSig pubkey sighash =
     (if cache_Get setValid (sighash, vchSig, pubkey) then (True, setValid)
      else if \<not> Verify pubkey sighash vchSig then (False, setValid)
      else if store then (True, cache_Set rand nMaxCacheSize setValid (sighash, vchSig, pubkey))
      else (True, setValid))"

section \<open>Checking the inputs of a transaction\<close>

record check_params =
  cp_nMaxMoneyOut :: CAmount
  cp_nCoinbaseMaturity :: int

datatype check_reject =
    Inputs_unavailable
  | Premature_spend_of_coinbase
  | Inputvalues_outofrange
  | In_belowout
  | Fee_negative
  | Fee_outofrange
  | Non_mandatory_script_verify_flag ScriptError
  | Mandatory_script_verify_flag_failed ScriptError

text \<open>A rejection comes with the level of \<open>state.DoS\<close> (0 for \<open>state.Invalid\<close>).\<close>

datatype check_failure = Reject nat check_reject | Throws value_error

record CScriptCheck =
  sc_scriptPubKey :: bytes
  sc_txTo :: CTransaction
  sc_nIn :: nat
  sc_nFlags :: u32

definition CScriptCheck_run :: "crypto \<Rightarrow> (bytes \<Rightarrow> 256 word \<Rightarrow> bytes \<Rightarrow> bool) \<Rightarrow> CScriptCheck \<Rightarrow> unit outcome" where
  "CScriptCheck_run c Verify check =
     VerifyScript c (scriptSig (vin (sc_txTo check) ! sc_nIn check)) (sc_scriptPubKey check) (sc_nFlags check)
       (TransactionSignatureChecker c Verify (sc_txTo check) (sc_nIn check))"

definition STANDARD_NOT_MANDATORY_VERIFY_FLAGS :: u32 where
  "STANDARD_NOT_MANDATORY_VERIFY_FLAGS =
     (SCRIPT_VERIFY_P2SH OR SCRIPT_VERIFY_DERSIG OR SCRIPT_VERIFY_STRICTENC OR SCRIPT_VERIFY_MINIMALDATA
      OR SCRIPT_VERIFY_NULLDUMMY OR SCRIPT_VERIFY_DISCOURAGE_UPGRADABLE_NOPS) AND NOT SCRIPT_VERIFY_P2SH"

text \<open>The first loop: maturity and amounts.\<close>

fun check_amounts ::
  "check_params \<Rightarrow> 'v CCoinsView \<Rightarrow> int \<Rightarrow> CTxIn list \<Rightarrow> CAmount \<Rightarrow> 'v CCoinsViewCache
   \<Rightarrow> (check_failure + CAmount \<times> 'v CCoinsViewCache) option" where
  "check_amounts p view nSpendHeight [] nValueIn cache = Some (Inr (nValueIn, cache))"
| "check_amounts p view nSpendHeight (txin # ins) nValueIn cache =
     (case AccessCoins view cache (out_hash (prevout txin)) of
        (None, _) \<Rightarrow> None
      | (Some coins, cache) \<Rightarrow>
          if (fCoinBase coins \<or> fCoinStake coins)
            \<and> nSpendHeight - sint (coins_nHeight coins) < cp_nCoinbaseMaturity p
          then Some (Inl (Reject 0 Premature_spend_of_coinbase))
          else if \<not> unat (out_n (prevout txin)) < length (coins_vout coins) then None
          else let v = nValue (coins_vout coins ! unat (out_n (prevout txin)));
                   nValueIn = nValueIn + v
               in if \<not> MoneyRange (cp_nMaxMoneyOut p) v \<or> \<not> MoneyRange (cp_nMaxMoneyOut p) nValueIn
                  then Some (Inl (Reject 100 Inputvalues_outofrange))
                  else check_amounts p view nSpendHeight ins nValueIn cache)"

definition check_fee :: "check_params \<Rightarrow> CAmount \<Rightarrow> CTransaction \<Rightarrow> check_failure + unit" where
  "check_fee p nValueIn tx =
     (case GetValueOut tx of
        Inl e \<Rightarrow> Inl (Throws e)
      | Inr nValueOut \<Rightarrow>
          if sint nValueIn < sint nValueOut then Inl (Reject 100 In_belowout)
          else let nTxFee = nValueIn - nValueOut;
                   nFees = 0 + nTxFee
               in if sint nTxFee < 0 then Inl (Reject 100 Fee_negative)
                  else if \<not> MoneyRange (cp_nMaxMoneyOut p) nFees then Inl (Reject 100 Fee_outofrange)
                  else Inr ())"

text \<open>
  One check that is run at once.  The second check of a script without the flags that are not
  mandatory reports its own error, which is \<open>SCRIPT_ERR_OK\<close> when it succeeds.
\<close>

definition run_now :: "crypto \<Rightarrow> (bytes \<Rightarrow> 256 word \<Rightarrow> bytes \<Rightarrow> bool) \<Rightarrow> u32 \<Rightarrow> CScriptCheck \<Rightarrow> (check_failure + unit) option" where
  "run_now c Verify flags check =
     (case CScriptCheck_run c Verify check of
        Inr _ \<Rightarrow> Some (Inr ())
      | Inl (Return_error e) \<Rightarrow>
          if flags AND STANDARD_NOT_MANDATORY_VERIFY_FLAGS \<noteq> 0
            \<and> CScriptCheck_run c Verify (check\<lparr>sc_nFlags := flags AND NOT STANDARD_NOT_MANDATORY_VERIFY_FLAGS\<rparr>) = Inr ()
          then Some (Inl (Reject 0 (Non_mandatory_script_verify_flag SCRIPT_ERR_OK)))
          else Some (Inl (Reject 100 (Mandatory_script_verify_flag_failed e)))
      | Inl _ \<Rightarrow> None)"

text \<open>The second loop: scripts.  With \<open>fQueue\<close> (\<open>pvChecks\<close> is not null) the checks are returned.\<close>

fun check_scripts ::
  "crypto \<Rightarrow> (bytes \<Rightarrow> 256 word \<Rightarrow> bytes \<Rightarrow> bool) \<Rightarrow> 'v CCoinsView \<Rightarrow> CTransaction \<Rightarrow> u32 \<Rightarrow> bool \<Rightarrow> nat \<Rightarrow> CTxIn list
   \<Rightarrow> 'v CCoinsViewCache \<Rightarrow> (check_failure + CScriptCheck list \<times> 'v CCoinsViewCache) option" where
  "check_scripts c Verify view tx flags fQueue i [] cache = Some (Inr ([], cache))"
| "check_scripts c Verify view tx flags fQueue i (txin # ins) cache =
     (case AccessCoins view cache (out_hash (prevout txin)) of
        (None, _) \<Rightarrow> None
      | (Some coins, cache) \<Rightarrow>
          if \<not> unat (out_n (prevout txin)) < length (coins_vout coins) then None
          else let check = \<lparr>sc_scriptPubKey = scriptPubKey (coins_vout coins ! unat (out_n (prevout txin))),
                            sc_txTo = tx, sc_nIn = i, sc_nFlags = flags\<rparr>
               in if fQueue then
                    and_then (check_scripts c Verify view tx flags fQueue (i + 1) ins cache)
                      (\<lambda>(vChecks, cache). Some (Inr (check # vChecks, cache)))
                  else
                    and_then (run_now c Verify flags check)
                      (\<lambda>_. check_scripts c Verify view tx flags fQueue (i + 1) ins cache))"

text \<open>\<open>mapBlockIndex\<close> gives the height of a block; the best block of the view is looked up without a test.\<close>

definition CheckInputs ::
  "crypto \<Rightarrow> (bytes \<Rightarrow> 256 word \<Rightarrow> bytes \<Rightarrow> bool) \<Rightarrow> check_params \<Rightarrow> (txid \<Rightarrow> int option) \<Rightarrow> 'v CCoinsView \<Rightarrow> CTransaction
   \<Rightarrow> 'v CCoinsViewCache \<Rightarrow> bool \<Rightarrow> u32 \<Rightarrow> bool \<Rightarrow> (check_failure + CScriptCheck list \<times> 'v CCoinsViewCache) option" where
  "CheckInputs c Verify p mapBlockIndex view tx inputs fScriptChecks flags fQueue =
     (if \<not> ordinary tx then Some (Inr ([], inputs))
      else
        (case HaveInputs view inputs tx of (fHave, inputs) \<Rightarrow>
           if \<not> fHave then Some (Inl (Reject 0 Inputs_unavailable))
           else
             (case cache_GetBestBlock view inputs of (best, inputs) \<Rightarrow>
                case mapBlockIndex best of
                  None \<Rightarrow> None
                | Some nHeight \<Rightarrow>
                    and_then (check_amounts p view (nHeight + 1) (vin tx) 0 inputs) (\<lambda>(nValueIn, inputs).
                      and_then (Some (if IsCoinStake tx then Inr () else check_fee p nValueIn tx)) (\<lambda>_.
                        if fScriptChecks then check_scripts c Verify view tx flags fQueue 0 (vin tx) inputs
                        else Some (Inr ([], inputs)))))))"

section \<open>The reward of a block\<close>

text \<open>
  A binary fraction \<open>m / 2 ^ k\<close> of 53 bits: the nearest one to \<open>a / b\<close>, ties to even, where \<open>a / b\<close> lies
  between \<open>2 ^ (52 - k)\<close> and \<open>2 ^ (53 - k)\<close>.  \<open>32.3 * COIN\<close> is such a fraction: \<open>32.3\<close> has \<open>k = 47\<close>, the
  product \<open>k = 21\<close>, and the conversion to \<open>int64_t\<close> truncates it.
\<close>

definition round_half_even :: "int \<Rightarrow> int \<Rightarrow> int" where
  "round_half_even a b =
     (let q = a div b; r = a mod b
      in if 2 * r < b \<or> (2 * r = b \<and> even q) then q else q + 1)"

definition double_32_3 :: int where
  "double_32_3 = round_half_even (323 * 2 ^ 47) 10"

definition double_32_3_times_COIN :: int where
  "double_32_3_times_COIN = round_half_even (double_32_3 * sint COIN * 2 ^ 21) (2 ^ 47)"

definition GetBlockValue :: "bool \<Rightarrow> int \<Rightarrow> CAmount" where
  "GetBlockValue testnet nHeight =
     (if testnet \<and> nHeight < 200 \<and> nHeight > 0 then 1000000 * COIN
      else if nHeight = 0 then 22000000 * COIN
      else word_of_int (double_32_3_times_COIN div 2 ^ 21))"

section \<open>Connecting a block\<close>

record connect_env =
  ce_params :: check_params
  ce_testnet :: bool
  ce_hashGenesisBlock :: txid
  ce_height_last_PoW :: int
  ce_height_start_BIP65 :: int
  ce_nBudgetCycleBlocks :: int
  ce_TotalBlocksEstimate :: int
  ce_nScriptCheckThreads :: nat
  ce_mapBlockIndex :: "txid \<Rightarrow> int option"
  ce_chain_tip :: "(txid \<times> int) option"
  ce_zerocoin_disabled :: bool
  ce_mints_parse :: "CTransaction \<Rightarrow> bool"
  ce_spend_value :: "CTransaction \<Rightarrow> CAmount"
  ce_UpdateZSCHSupply :: bool
  ce_mn_synced :: bool
  ce_superblocks_active :: bool
  ce_IsBudgetPaymentBlock :: "int \<Rightarrow> bool"

text \<open>A block with its position in the index: the parent is none for the first block.\<close>

record block_data =
  blk_hash :: txid
  blk_vtx :: "CTransaction list"
  blk_nHeight :: int
  blk_pprev :: "(txid \<times> int \<times> CAmount) option"

definition blk_IsProofOfStake :: "CTransaction list \<Rightarrow> bool" where
  "blk_IsProofOfStake vtx \<longleftrightarrow> length vtx > 1 \<and> IsCoinStake (vtx ! 1)"

text \<open>\<open>hashPrevBlock\<close> is the member of the block.  A height that is not found is 0.\<close>

definition IsBlockValueValid :: "connect_env \<Rightarrow> txid \<Rightarrow> CAmount \<Rightarrow> CAmount \<Rightarrow> bool" where
  "IsBlockValueValid env hashPrevBlock nExpectedValue nMinted =
     (case ce_chain_tip env of
        None \<Rightarrow> True
      | Some (tip, tip_nHeight) \<Rightarrow>
          let nHeight = (if tip = hashPrevBlock then tip_nHeight + 1
                         else case ce_mapBlockIndex env hashPrevBlock of None \<Rightarrow> 0 | Some h \<Rightarrow> h + 1)
          in if \<not> ce_mn_synced env then
               (if nHeight mod ce_nBudgetCycleBlocks env < 100 then True
                else if sint nMinted > sint nExpectedValue then False else True)
             else if \<not> ce_superblocks_active env then sint nMinted \<le> sint nExpectedValue
             else if ce_IsBudgetPaymentBlock env nHeight then True
             else if sint nMinted > sint nExpectedValue then False else True)"

datatype block_failure =
    PoS_early
  | PoW_ended
  | Blk_BIP30
  | Blk_sigops
  | Zerocoin_disabled
  | Zerocoin_mint
  | Inputs_missingorspent
  | Inputs_rejected check_failure
  | Value_out value_error
  | Zsch_supply
  | Cb_amount
  | Block_validation_failed

definition MAX_BLOCK_SIGOPS_CURRENT :: u32 where
  "MAX_BLOCK_SIGOPS_CURRENT = 2000000 div 50"

text \<open>The variables of the loop over the transactions.\<close>

record connect_totals =
  ct_nFees :: CAmount
  ct_nSigOps :: u32
  ct_nValueIn :: CAmount
  ct_nValueOut :: CAmount
  ct_checks :: "CScriptCheck list"
  ct_undos :: "CTxInUndo list list"

fun p2sh_sigops ::
  "'v CCoinsView \<Rightarrow> CTxIn list \<Rightarrow> u32 \<Rightarrow> 'v CCoinsViewCache \<Rightarrow> (u32 \<times> 'v CCoinsViewCache) option" where
  "p2sh_sigops view [] nSigOps cache = Some (nSigOps, cache)"
| "p2sh_sigops view (txin # ins) nSigOps cache =
     (case GetOutputFor view cache txin of
        None \<Rightarrow> None
      | Some (txout, cache) \<Rightarrow>
          if IsPayToScriptHash (scriptPubKey txout) then
            (case GetSigOpCount_P2SH (scriptPubKey txout) (scriptSig txin) of
               None \<Rightarrow> None
             | Some n \<Rightarrow> p2sh_sigops view ins (nSigOps + n) cache)
          else p2sh_sigops view ins nSigOps cache)"

definition GetP2SHSigOpCount_view :: "'v CCoinsView \<Rightarrow> CTransaction \<Rightarrow> 'v CCoinsViewCache \<Rightarrow> (u32 \<times> 'v CCoinsViewCache) option" where
  "GetP2SHSigOpCount_view view tx inputs =
     (if IsCoinBase tx \<or> HasZerocoinSpendInputs tx then Some (0, inputs) else p2sh_sigops view (vin tx) 0 inputs)"

text \<open>The branch for transactions that spend coins of the view: fees, the value of the inputs, the checks.\<close>

definition add_fees ::
  "'v CCoinsView \<Rightarrow> CTransaction \<Rightarrow> connect_totals \<Rightarrow> 'v CCoinsViewCache
   \<Rightarrow> (block_failure + connect_totals \<times> 'v CCoinsViewCache) option" where
  "add_fees view tx tot cache =
     (if IsCoinStake tx then Some (Inr (tot, cache))
      else
        (case GetValueIn view cache tx of
           None \<Rightarrow> None
         | Some (v, cache) \<Rightarrow>
             (case GetValueOut tx of
                Inl e \<Rightarrow> Some (Inl (Value_out e))
              | Inr w \<Rightarrow> Some (Inr (tot\<lparr>ct_nFees := ct_nFees tot + (v - w)\<rparr>, cache)))))"

definition add_checks ::
  "crypto \<Rightarrow> (bytes \<Rightarrow> 256 word \<Rightarrow> bytes \<Rightarrow> bool) \<Rightarrow> connect_env \<Rightarrow> 'v CCoinsView \<Rightarrow> bool \<Rightarrow> u32 \<Rightarrow> CTransaction
   \<Rightarrow> connect_totals \<Rightarrow> 'v CCoinsViewCache \<Rightarrow> (block_failure + connect_totals \<times> 'v CCoinsViewCache) option" where
  "add_checks c Verify env view fScriptChecks flags tx tot cache =
     (case GetValueIn view cache tx of
        None \<Rightarrow> None
      | Some (v, cache) \<Rightarrow>
          (case CheckInputs c Verify (ce_params env) (ce_mapBlockIndex env) view tx cache
                  fScriptChecks flags (ce_nScriptCheckThreads env \<noteq> 0) of
             None \<Rightarrow> None
           | Some (Inl e) \<Rightarrow> Some (Inl (Inputs_rejected e))
           | Some (Inr (vChecks, cache)) \<Rightarrow>
               Some (Inr (tot\<lparr>ct_nValueIn := ct_nValueIn tot + v, ct_checks := ct_checks tot @ vChecks\<rparr>, cache))))"

definition connect_inputs ::
  "crypto \<Rightarrow> (bytes \<Rightarrow> 256 word \<Rightarrow> bytes \<Rightarrow> bool) \<Rightarrow> connect_env \<Rightarrow> 'v CCoinsView \<Rightarrow> bool \<Rightarrow> u32 \<Rightarrow> CTransaction
   \<Rightarrow> connect_totals \<Rightarrow> 'v CCoinsViewCache \<Rightarrow> (block_failure + connect_totals \<times> 'v CCoinsViewCache) option" where
  "connect_inputs c Verify env view fScriptChecks flags tx tot cache =
     (case HaveInputs view cache tx of (fHave, cache) \<Rightarrow>
        if \<not> fHave then Some (Inl Inputs_missingorspent)
        else
          (case GetP2SHSigOpCount_view view tx cache of
             None \<Rightarrow> None
           | Some (n, cache) \<Rightarrow>
               let tot = tot\<lparr>ct_nSigOps := ct_nSigOps tot + n\<rparr>
               in if ct_nSigOps tot > MAX_BLOCK_SIGOPS_CURRENT then Some (Inl Blk_sigops)
                  else and_then (add_fees view tx tot cache)
                    (\<lambda>(tot, cache). add_checks c Verify env view fScriptChecks flags tx tot cache)))"

text \<open>One round of the loop.\<close>

definition connect_tx ::
  "crypto \<Rightarrow> (bytes \<Rightarrow> 256 word \<Rightarrow> bytes \<Rightarrow> bool) \<Rightarrow> connect_env \<Rightarrow> 'v CCoinsView \<Rightarrow> int32 \<Rightarrow> bool \<Rightarrow> u32 \<Rightarrow> CTransaction
   \<Rightarrow> connect_totals \<Rightarrow> 'v CCoinsViewCache \<Rightarrow> (block_failure + connect_totals \<times> 'v CCoinsViewCache) option" where
  "connect_tx c Verify env view nHeight fScriptChecks flags tx tot cache =
     (case AccessCoins view cache (SerializeHash c tx) of (coins, cache) \<Rightarrow>
        if overwrites coins then Some (Inl Blk_BIP30)
        else
          (case GetLegacySigOpCount tx of
             None \<Rightarrow> None
           | Some n \<Rightarrow>
               let tot = tot\<lparr>ct_nSigOps := ct_nSigOps tot + n\<rparr>
               in if ct_nSigOps tot > MAX_BLOCK_SIGOPS_CURRENT then Some (Inl Blk_sigops)
                  else if ce_zerocoin_disabled env \<and> ContainsZerocoins tx then Some (Inl Zerocoin_disabled)
                  else if HasZerocoinMintOutputs tx \<and> \<not> ce_mints_parse env tx then Some (Inl Zerocoin_mint)
                  else
                    and_then
                      (if HasZerocoinSpendInputs tx
                       then Some (Inr (tot\<lparr>ct_nValueIn := ct_nValueIn tot + ce_spend_value env tx\<rparr>, cache))
                       else if \<not> IsCoinBase tx then connect_inputs c Verify env view fScriptChecks flags tx tot cache
                       else Some (Inr (tot, cache)))
                      (\<lambda>(tot, cache).
                         case GetValueOut tx of
                           Inl e \<Rightarrow> Some (Inl (Value_out e))
                         | Inr w \<Rightarrow>
                             (case UpdateCoins c view tx cache [] nHeight of
                                None \<Rightarrow> None
                              | Some (txundo, cache) \<Rightarrow>
                                  Some (Inr (tot\<lparr>ct_nValueOut := ct_nValueOut tot + w, ct_undos := ct_undos tot @ [txundo]\<rparr>,
                                    cache))))))"

fun connect_loop ::
  "crypto \<Rightarrow> (bytes \<Rightarrow> 256 word \<Rightarrow> bytes \<Rightarrow> bool) \<Rightarrow> connect_env \<Rightarrow> 'v CCoinsView \<Rightarrow> int32 \<Rightarrow> bool \<Rightarrow> u32 \<Rightarrow> CTransaction list
   \<Rightarrow> connect_totals \<Rightarrow> 'v CCoinsViewCache \<Rightarrow> (block_failure + connect_totals \<times> 'v CCoinsViewCache) option" where
  "connect_loop c Verify env view nHeight fScriptChecks flags [] tot cache = Some (Inr (tot, cache))"
| "connect_loop c Verify env view nHeight fScriptChecks flags (tx # vtx) tot cache =
     and_then (connect_tx c Verify env view nHeight fScriptChecks flags tx tot cache)
       (\<lambda>(tot, cache). connect_loop c Verify env view nHeight fScriptChecks flags vtx tot cache)"

text \<open>Whether scripts are checked (\<open>fScriptChecks\<close>), and with which flags.\<close>

definition block_fScriptChecks :: "connect_env \<Rightarrow> block_data \<Rightarrow> bool" where
  "block_fScriptChecks env block \<longleftrightarrow> blk_nHeight block \<ge> ce_TotalBlocksEstimate env"

definition block_flags :: "connect_env \<Rightarrow> block_data \<Rightarrow> u32" where
  "block_flags env block =
     (let fCLTVIsActivated =
            (block_fScriptChecks env block
             \<and> (case blk_pprev block of None \<Rightarrow> False | Some (_, h, _) \<Rightarrow> h \<ge> ce_height_start_BIP65 env));
          flags = SCRIPT_VERIFY_P2SH OR SCRIPT_VERIFY_DERSIG
      in if fCLTVIsActivated then flags OR SCRIPT_VERIFY_CHECKLOCKTIMEVERIFY else flags)"

text \<open>Behind the loop: money supply, reward, and the wait for the queue.\<close>

definition finish_block ::
  "crypto \<Rightarrow> (bytes \<Rightarrow> 256 word \<Rightarrow> bytes \<Rightarrow> bool) \<Rightarrow> connect_env \<Rightarrow> block_data \<Rightarrow> connect_totals \<Rightarrow> 'v CCoinsViewCache
   \<Rightarrow> (block_failure + CTxInUndo list list \<times> CAmount \<times> 'v CCoinsViewCache) option" where
  "finish_block c Verify env block tot cache =
     (if \<not> ce_UpdateZSCHSupply env then Some (Inl Zsch_supply)
      else
        (case blk_pprev block of
           None \<Rightarrow> None
         | Some (hash, h, nMoneySupplyPrev) \<Rightarrow>
             let nMoneySupply = nMoneySupplyPrev + ct_nValueOut tot - ct_nValueIn tot;
                 nMint = nMoneySupply - nMoneySupplyPrev + ct_nFees tot;
                 nExpectedMint = GetBlockValue (ce_testnet env) h;
                 nExpectedMint = (if \<not> blk_IsProofOfStake (blk_vtx block) then nExpectedMint + ct_nFees tot else nExpectedMint)
             in if \<not> IsBlockValueValid env hash nExpectedMint nMint then Some (Inl Cb_amount)
                else if block_fScriptChecks env block \<and> ce_nScriptCheckThreads env \<noteq> 0
                  \<and> \<not> list_all (\<lambda>check. CScriptCheck_run c Verify check = Inr ()) (ct_checks tot)
                then Some (Inl Block_validation_failed)
                else Some (Inr (tl (ct_undos tot), nMoneySupply, SetBestBlock cache (blk_hash block)))))"

definition new_totals :: connect_totals where
  "new_totals = \<lparr>ct_nFees = 0, ct_nSigOps = 0, ct_nValueIn = 0, ct_nValueOut = 0, ct_checks = [], ct_undos = []\<rparr>"

text \<open>
  \<open>ConnectBlock\<close> from the test of the best block on, with \<open>fJustCheck\<close> not set.  The result is the
  undo data (without those of the first transaction), the money supply for the index entry
  and the view.  The files and databases that are written then are not part of the model.
\<close>

definition ConnectBlock_full ::
  "crypto \<Rightarrow> (bytes \<Rightarrow> 256 word \<Rightarrow> bytes \<Rightarrow> bool) \<Rightarrow> connect_env \<Rightarrow> 'v CCoinsView \<Rightarrow> block_data \<Rightarrow> 'v CCoinsViewCache
   \<Rightarrow> (block_failure + CTxInUndo list list \<times> CAmount \<times> 'v CCoinsViewCache) option" where
  "ConnectBlock_full c Verify env view block cache =
     (let hashPrevBlock = (case blk_pprev block of None \<Rightarrow> 0 | Some (h, _, _) \<Rightarrow> h);
          nHeight = blk_nHeight block;
          vtx = blk_vtx block
      in case cache_GetBestBlock view cache of (best, cache) \<Rightarrow>
        if hashPrevBlock \<noteq> best then None
        else if blk_hash block = ce_hashGenesisBlock env then Some (Inr ([], 0, SetBestBlock cache (blk_hash block)))
        else if nHeight \<le> ce_height_last_PoW env \<and> blk_IsProofOfStake vtx then Some (Inl PoS_early)
        else if nHeight > ce_height_last_PoW env \<and> \<not> blk_IsProofOfStake vtx then Some (Inl PoW_ended)
        else
          and_then
            (connect_loop c Verify env view (word_of_int nHeight) (block_fScriptChecks env block) (block_flags env block)
               vtx new_totals cache)
            (\<lambda>(tot, cache). finish_block c Verify env block tot cache))"

section \<open>The cache of signatures makes no difference\<close>

lemma evict_step:
  "evict rand i n s =
     (if int (length s) > n \<and> s \<noteq> []
      then evict rand (i + 1) n (remove1 (case filter (sig_less_eq (rand i, [], [])) s of [] \<Rightarrow> hd s | k # _ \<Rightarrow> k) s)
      else s)"
  by (subst evict.simps) (simp add: Let_def)

lemma evict_ok: "set (evict rand i n s) \<subseteq> set s" "0 < n \<Longrightarrow> int (length (evict rand i n s)) \<le> n"
proof -
  have "set (evict rand i n s) \<subseteq> set s \<and> (0 < n \<longrightarrow> int (length (evict rand i n s)) \<le> n)"
  proof (induction rand i n s rule: evict.induct)
    case (1 rand i n s)
    show ?case
    proof (cases "int (length s) > n \<and> s \<noteq> []")
      case True
      then show ?thesis
        using 1 [OF True refl] set_remove1_subset by (subst (1 2) evict_step) fastforce
    next
      case False
      then show ?thesis by (subst (1 2) evict_step) auto
    qed
  qed
  then show "set (evict rand i n s) \<subseteq> set s" "0 < n \<Longrightarrow> int (length (evict rand i n s)) \<le> n" by blast+
qed

lemma set_insert_between: "set (takeWhile P xs @ k # dropWhile P xs) = insert k (set xs)"
  by (metis Un_insert_right list.simps(15) set_append takeWhile_dropWhile_id)

lemma length_insert_between: "length (takeWhile P xs @ k # dropWhile P xs) = length xs + 1"
  by (metis add_Suc_right Suc_eq_plus1 length_Cons length_append takeWhile_dropWhile_id)

lemma cache_Set_ok:
  "set (cache_Set rand n s k) \<subseteq> insert k (set s)" "int (length (cache_Set rand n s k)) \<le> max (int (length s)) (n + 1)"
  using evict_ok [where rand = rand and i = 0 and n = n and s = s]
  by (auto simp: cache_Set_def Let_def set_insert_between length_insert_between simp del: set_append length_append)

text \<open>A sequence of verifications that share the cache.\<close>

record sig_call =
  call_store :: bool
  call_rand :: "nat \<Rightarrow> 256 word"
  call_sig :: bytes
  call_key :: bytes
  call_hash :: "256 word"

fun verify_all ::
  "(bytes \<Rightarrow> 256 word \<Rightarrow> bytes \<Rightarrow> bool) \<Rightarrow> int \<Rightarrow> sig_call list \<Rightarrow> sigdata_type list \<Rightarrow> bool list \<times> sigdata_type list" where
  "verify_all Verify nMaxCacheSize [] setValid = ([], setValid)"
| "verify_all Verify nMaxCacheSize (k # ks) setValid =
     (case Caching_VerifySignature Verify (call_rand k) nMaxCacheSize (call_store k) setValid (call_sig k) (call_key k) (call_hash k) of
        (r, setValid) \<Rightarrow> (case verify_all Verify nMaxCacheSize ks setValid of (rs, setValid) \<Rightarrow> (r # rs, setValid)))"

abbreviation all_valid :: "(bytes \<Rightarrow> 256 word \<Rightarrow> bytes \<Rightarrow> bool) \<Rightarrow> sigdata_type list \<Rightarrow> bool" where
  "all_valid Verify setValid \<equiv> (\<forall>(h, sig, key) \<in> set setValid. Verify key h sig)"

lemma Caching_VerifySignature_ok:
  assumes "all_valid Verify s" "Caching_VerifySignature Verify rand n store s sig key h = (r, s')"
  shows "r = Verify key h sig" "all_valid Verify s'" "int (length s') \<le> max (int (length s)) (n + 1)"
proof -
  have "all_valid Verify (cache_Set rand n s (h, sig, key))" if "Verify key h sig"
    using assms(1) that cache_Set_ok(1) [of rand n s "(h, sig, key)"] by blast
  then show "all_valid Verify s'"
    using assms by (auto simp: Caching_VerifySignature_def split: if_splits)
  show "r = Verify key h sig" "int (length s') \<le> max (int (length s)) (n + 1)"
    using assms cache_Set_ok(2) [of rand n s "(h, sig, key)"]
    by (auto simp: Caching_VerifySignature_def cache_Get_def split: if_splits)
qed

lemma verify_all_ok:
  assumes "all_valid Verify s" "int (length s) \<le> n + 1"
  shows "fst (verify_all Verify n ks s) = map (\<lambda>k. Verify (call_key k) (call_hash k) (call_sig k)) ks
    \<and> int (length (snd (verify_all Verify n ks s))) \<le> n + 1"
  using assms
proof (induction ks arbitrary: s)
  case (Cons k ks)
  obtain r s' where c: "Caching_VerifySignature Verify (call_rand k) n (call_store k) s (call_sig k) (call_key k) (call_hash k) = (r, s')"
    by fastforce
  note ok = Caching_VerifySignature_ok [OF Cons.prems(1) c]
  have "int (length s') \<le> n + 1" using ok(3) Cons.prems(2) by simp
  from Cons.IH [OF ok(2) this] show ?case using c ok(1) by (auto split: prod.splits)
qed simp

section \<open>Reading through a view\<close>

text \<open>A cache that shows the coins \<open>u\<close>, with the best block \<open>h\<close>.\<close>

definition shows_coins ::
  "('v \<Rightarrow> bool) \<Rightarrow> ('v \<Rightarrow> txid \<Rightarrow> bool) \<Rightarrow> ('v \<Rightarrow> txid \<Rightarrow> CCoins option) \<Rightarrow> 'v CCoinsViewCache \<Rightarrow> utxo \<Rightarrow> txid \<Rightarrow> bool" where
  "shows_coins ok known utxo cache u h \<longleftrightarrow>
     cache_inv ok known utxo cache \<and> cache_utxo utxo cache = u \<and> hashBlock cache = h \<and> h \<noteq> 0"

lemma AccessCoins_hashBlock: "AccessCoins view cache txid = (r, cache') \<Longrightarrow> hashBlock cache' = hashBlock cache"
  by (auto simp: AccessCoins_def FetchCoins_def Let_def split: option.splits prod.splits)

lemma with_modifier_hashBlock: "with_modifier view cache txid f = Some (r, cache') \<Longrightarrow> hashBlock cache' = hashBlock cache"
  by (auto simp: with_modifier_def ModifyCoins_def CCoinsModifier_destroy_def modifier_assign_def Let_def
      split: option.splits prod.splits if_splits)

lemma spend_inputs_hashBlock: "spend_inputs view cache ins = Some (undos, cache') \<Longrightarrow> hashBlock cache' = hashBlock cache"
  by (induction ins arbitrary: cache undos) (auto split: option.splits dest!: with_modifier_hashBlock)

lemma UpdateCoins_hashBlock: "UpdateCoins c view tx cache txundo nHeight = Some (r, cache') \<Longrightarrow> hashBlock cache' = hashBlock cache"
  by (auto simp: UpdateCoins_def split: option.splits if_splits dest!: with_modifier_hashBlock spend_inputs_hashBlock)

text \<open>The count of signature operations over the outputs that a view shows.\<close>

abbreviation p2sh_count :: "utxo \<Rightarrow> CTransaction \<Rightarrow> u32 option" where
  "p2sh_count u tx \<equiv> GetP2SHSigOpCount (\<lambda>txin. output_at u (prevout txin)) tx"

context coins_view
begin

abbreviation "at_coins \<equiv> shows_coins ok known utxo"

lemma access:
  assumes "at_coins cache u h" "AccessCoins view cache txid = (r, cache')"
  shows "live r = u txid" "at_coins cache' u h"
  using AccessCoins_ok [OF _ assms(2)] AccessCoins_hashBlock [OF assms(2)] assms(1) by (auto simp: shows_coins_def)

lemma access_available:
  assumes "at_coins cache u h" "available u out"
  shows "\<exists>cache' coins. AccessCoins view cache (out_hash out) = (Some coins, cache') \<and> at_coins cache' u h
    \<and> u (out_hash out) = Some coins \<and> unat (out_n out) < length (coins_vout coins)
    \<and> coins_vout coins ! unat (out_n out) = output_at u out \<and> IsAvailable coins (out_n out)"
proof -
  obtain r cache' where a: "AccessCoins view cache (out_hash out) = (r, cache')" by fastforce
  note acc = access [OF assms(1) a]
  obtain coins where c: "u (out_hash out) = Some coins" "IsAvailable coins (out_n out)"
    using assms(2) by (auto simp: available_def)
  have "r = Some coins" using acc(1) c(1) by (cases r) (auto split: if_splits)
  then show ?thesis using a acc(2) c by (simp add: output_at_def IsAvailable_def)
qed

lemma GetOutputFor_at:
  assumes "at_coins cache u h" "available u (prevout txin)"
  shows "\<exists>cache'. GetOutputFor view cache txin = Some (output_at u (prevout txin), cache') \<and> at_coins cache' u h"
  using access_available [OF assms] by (auto simp: GetOutputFor_def)

lemma HaveInputs_at:
  assumes "at_coins cache u h" "ordinary tx"
  shows "\<exists>cache'. HaveInputs view cache tx = (list_all (\<lambda>txin. available u (prevout txin)) (vin tx), cache') \<and> at_coins cache' u h"
proof -
  have loop: "hashBlock (snd (HaveInputs_loop view cache ins)) = hashBlock cache" for ins cache
    by (induction ins arbitrary: cache) (auto split: prod.splits option.splits dest!: AccessCoins_hashBlock)
  obtain r cache' where h: "HaveInputs view cache tx = (r, cache')" by fastforce
  then have "hashBlock cache' = hashBlock cache" using loop [of cache "vin tx"] assms(2) by (simp add: HaveInputs_def)
  then show ?thesis using HaveInputs_ok [OF _ h assms(2)] h assms(1) by (auto simp: shows_coins_def)
qed

lemma p2sh_sigops_at:
  assumes "at_coins cache u h" "list_all (\<lambda>txin. available u (prevout txin)) ins"
  shows "case add_sigops (map (\<lambda>txin. if IsPayToScriptHash (scriptPubKey (output_at u (prevout txin)))
        then GetSigOpCount_P2SH (scriptPubKey (output_at u (prevout txin))) (scriptSig txin) else Some 0) ins) n of
      None \<Rightarrow> p2sh_sigops view ins n cache = None
    | Some m \<Rightarrow> \<exists>cache'. p2sh_sigops view ins n cache = Some (m, cache') \<and> at_coins cache' u h"
  using assms
proof (induction ins arbitrary: n cache)
  case (Cons txin ins)
  obtain cache1 where g: "GetOutputFor view cache txin = Some (output_at u (prevout txin), cache1)" "at_coins cache1 u h"
    using GetOutputFor_at Cons.prems by fastforce
  let ?spk = "scriptPubKey (output_at u (prevout txin))"
  show ?case
  proof (cases "IsPayToScriptHash ?spk \<longrightarrow> GetSigOpCount_P2SH ?spk (scriptSig txin) \<noteq> None")
    case True
    define k where "k = (if IsPayToScriptHash ?spk then the (GetSigOpCount_P2SH ?spk (scriptSig txin)) else 0)"
    have eq: "p2sh_sigops view (txin # ins) n cache = p2sh_sigops view ins (n + k) cache1"
      using True g(1) by (auto simp: k_def)
    have k: "(if IsPayToScriptHash ?spk then GetSigOpCount_P2SH ?spk (scriptSig txin) else Some 0) = Some k"
      using True by (auto simp: k_def)
    show ?thesis
      unfolding eq list.map k add_sigops.simps using Cons.IH [OF g(2), of "n + k"] Cons.prems(2) by simp
  next
    case False
    then show ?thesis using g(1) by auto
  qed
qed simp

lemma GetP2SHSigOpCount_at:
  assumes "at_coins cache u h" "ordinary tx" "list_all (\<lambda>txin. available u (prevout txin)) (vin tx)"
  shows "case p2sh_count u tx of
      None \<Rightarrow> GetP2SHSigOpCount_view view tx cache = None
    | Some n \<Rightarrow> \<exists>cache'. GetP2SHSigOpCount_view view tx cache = Some (n, cache') \<and> at_coins cache' u h"
proof -
  have eq: "GetP2SHSigOpCount_view view tx cache = p2sh_sigops view (vin tx) 0 cache"
    using assms(2) by (simp add: GetP2SHSigOpCount_view_def)
  show ?thesis unfolding eq using p2sh_sigops_at [OF assms(1,3), of 0] assms(2) by (simp add: GetP2SHSigOpCount_def)
qed

lemma GetValueIn_at:
  assumes "at_coins cache u h" "ordinary tx" "list_all (\<lambda>txin. available u (prevout txin)) (vin tx)"
  shows "\<exists>cache'. GetValueIn view cache tx =
      Some (sum_list (map (\<lambda>txin. nValue (output_at u (prevout txin))) (vin tx)), cache') \<and> at_coins cache' u h"
proof -
  have "\<exists>cache'. GetValueIn_loop view cache ins v =
      Some (v + sum_list (map (\<lambda>txin. nValue (output_at u (prevout txin))) ins), cache') \<and> at_coins cache' u h"
    if "list_all (\<lambda>txin. available u (prevout txin)) ins" for ins v
    using that assms(1)
  proof (induction ins arbitrary: v cache)
    case (Cons txin ins)
    obtain cache1 where g: "GetOutputFor view cache txin = Some (output_at u (prevout txin), cache1)" "at_coins cache1 u h"
      using GetOutputFor_at Cons.prems by fastforce
    from Cons.IH [OF _ g(2), of "v + nValue (output_at u (prevout txin))"] Cons.prems(1) show ?case
      by (simp add: g(1) add.assoc)
  qed simp
  from this [OF assms(3), of 0] show ?thesis using assms(2) by (simp add: GetValueIn_def)
qed

end

section \<open>What \<open>CheckInputs\<close> accepts\<close>

abbreviation p_max :: "check_params \<Rightarrow> int" where
  "p_max p \<equiv> sint (cp_nMaxMoneyOut p)"

definition matured :: "check_params \<Rightarrow> int \<Rightarrow> CCoins \<Rightarrow> bool" where
  "matured p nSpendHeight coins \<longleftrightarrow>
     (fCoinBase coins \<or> fCoinStake coins \<longrightarrow> nSpendHeight - sint (coins_nHeight coins) \<ge> cp_nCoinbaseMaturity p)"

abbreviation value_at :: "utxo \<Rightarrow> CTxIn \<Rightarrow> int" where
  "value_at u txin \<equiv> sint (nValue (output_at u (prevout txin)))"

definition total_in :: "utxo \<Rightarrow> CTxIn list \<Rightarrow> int" where
  "total_in u ins = sum_list (map (value_at u) ins)"

definition input_ok :: "check_params \<Rightarrow> utxo \<Rightarrow> int \<Rightarrow> CTxIn \<Rightarrow> bool" where
  "input_ok p u nSpendHeight txin \<longleftrightarrow> available u (prevout txin)
     \<and> matured p nSpendHeight (the (u (out_hash (prevout txin)))) \<and> 0 \<le> value_at u txin \<and> value_at u txin \<le> p_max p"

text \<open>Inputs that exist, are mature and have amounts in range; and no more is spent than they are worth.\<close>

definition amounts_valid :: "check_params \<Rightarrow> utxo \<Rightarrow> int \<Rightarrow> CTransaction \<Rightarrow> bool" where
  "amounts_valid p u nSpendHeight tx \<longleftrightarrow> list_all (input_ok p u nSpendHeight) (vin tx) \<and> total_in u (vin tx) \<le> p_max p
     \<and> (\<not> IsCoinStake tx \<longrightarrow> list_all (\<lambda>txout. 0 \<le> sint (nValue txout)) (vout tx) \<and> total_out (vout tx) \<le> total_in u (vin tx))"

text \<open>The script checks of a transaction.\<close>

fun script_checks :: "utxo \<Rightarrow> CTransaction \<Rightarrow> u32 \<Rightarrow> nat \<Rightarrow> CTxIn list \<Rightarrow> CScriptCheck list" where
  "script_checks u tx flags i [] = []"
| "script_checks u tx flags i (txin # ins) =
     \<lparr>sc_scriptPubKey = scriptPubKey (output_at u (prevout txin)), sc_txTo = tx, sc_nIn = i, sc_nFlags = flags\<rparr>
     # script_checks u tx flags (i + 1) ins"

lemma script_checks_nth:
  "k < length ins \<Longrightarrow> length (script_checks u tx flags i ins) = length ins \<and> script_checks u tx flags i ins ! k =
     \<lparr>sc_scriptPubKey = scriptPubKey (output_at u (prevout (ins ! k))), sc_txTo = tx, sc_nIn = i + k, sc_nFlags = flags\<rparr>"
proof (induction ins arbitrary: i k)
  case (Cons txin ins)
  show ?case
  proof (cases k)
    case 0
    then show ?thesis using Cons.IH [of 0 "i + 1"] by (cases ins) simp_all
  next
    case (Suc j)
    then show ?thesis using Cons.IH [of j "i + 1"] Cons.prems by simp
  qed
qed simp

abbreviation succeeds :: "crypto \<Rightarrow> (bytes \<Rightarrow> 256 word \<Rightarrow> bytes \<Rightarrow> bool) \<Rightarrow> CScriptCheck \<Rightarrow> bool" where
  "succeeds c Verify check \<equiv> CScriptCheck_run c Verify check = Inr ()"

lemma CScriptCheck_answers:
  "succeeds c Verify check \<or> (\<exists>e. CScriptCheck_run c Verify check = Inl (Return_error e))"
proof -
  let ?r = "CScriptCheck_run c Verify check"
  have "holds reported (\<lambda>_. True) ?r" unfolding CScriptCheck_run_def by (rule VerifyScript_ok)
  then show ?thesis by (cases ?r) (auto simp: reported_def)
qed

lemma run_now_result:
  "if succeeds c Verify check then run_now c Verify flags check = Some (Inr ())
   else \<exists>e. run_now c Verify flags check = Some (Inl e)"
  using CScriptCheck_answers [of c Verify check] by (auto simp: run_now_def)

lemma total_in_Cons: "total_in u (txin # ins) = value_at u txin + total_in u ins"
  by (simp add: total_in_def)

lemma total_in_nonneg: "list_all (input_ok p u nSpendHeight) ins \<Longrightarrow> 0 \<le> total_in u ins"
  by (induction ins) (simp_all add: total_in_def input_ok_def)

lemma check_fee_iff:
  assumes "0 \<le> sint v" "sint v \<le> p_max p" "p_max p < 2 ^ 62"
  shows "check_fee p v tx = Inr () \<longleftrightarrow>
    list_all (\<lambda>txout. 0 \<le> sint (nValue txout)) (vout tx) \<and> total_out (vout tx) \<le> sint v"
proof (cases "GetValueOut tx")
  case (Inl e)
  have "\<not> (list_all (\<lambda>txout. 0 \<le> sint (nValue txout)) (vout tx) \<and> total_out (vout tx) < 2 ^ 63)"
  proof
    assume a: "list_all (\<lambda>txout. 0 \<le> sint (nValue txout)) (vout tx) \<and> total_out (vout tx) < 2 ^ 63"
    then have "0 \<le> total_out (vout tx)" by (induction "vout tx") (auto simp: total_out_def list_all_iff intro!: sum_list_nonneg)
    then have "sint (word_of_int (total_out (vout tx)) :: CAmount) = total_out (vout tx)" using a by (intro sint_int64) simp_all
    then have "GetValueOut tx = Inr (word_of_int (total_out (vout tx)))"
      using a GetValueOut_loop_iff [of 0 "vout tx"] by (simp add: GetValueOut_def)
    then show False using Inl by simp
  qed
  then show ?thesis using Inl assms by (auto simp: check_fee_def)
next
  case (Inr w)
  then have w: "list_all (\<lambda>txout. 0 \<le> sint (nValue txout)) (vout tx)" "sint w = total_out (vout tx)"
    using GetValueOut_loop_iff [of 0 "vout tx" w] by (simp_all add: GetValueOut_def)
  then have "0 \<le> sint w" by (induction "vout tx") (auto simp: total_out_def list_all_iff intro!: sum_list_nonneg)
  then have "sint (v - w) = sint v - sint w" if "sint w \<le> sint v"
    using that assms \<open>0 \<le> sint w\<close> by (intro sint_sub64) simp_all
  then show ?thesis using Inr w assms \<open>0 \<le> sint w\<close> by (auto simp: check_fee_def Let_def MoneyRange_def)
qed

context coins_view
begin

lemma check_amounts_at:
  assumes "at_coins cache u h" "list_all (\<lambda>txin. available u (prevout txin)) ins"
    "0 \<le> sint acc" "sint acc \<le> p_max p" "p_max p < 2 ^ 62"
  shows "\<exists>r. check_amounts p view nSpendHeight ins acc cache = Some r \<and>
    (case r of Inl e \<Rightarrow> \<not> (list_all (input_ok p u nSpendHeight) ins \<and> sint acc + total_in u ins \<le> p_max p)
     | Inr (v, cache') \<Rightarrow> list_all (input_ok p u nSpendHeight) ins \<and> sint v = sint acc + total_in u ins \<and> sint v \<le> p_max p
         \<and> at_coins cache' u h)"
  using assms(1-4)
proof (induction ins arbitrary: acc cache)
  case Nil
  then show ?case by (simp add: total_in_def)
next
  case (Cons txin ins)
  let ?out = "prevout txin" and ?v = "nValue (output_at u (prevout txin))"
  have av: "available u ?out" using Cons.prems(2) by simp
  obtain cache1 coins where a: "AccessCoins view cache (out_hash ?out) = (Some coins, cache1)" "at_coins cache1 u h"
    "u (out_hash ?out) = Some coins" "unat (out_n ?out) < length (coins_vout coins)"
    "coins_vout coins ! unat (out_n ?out) = output_at u ?out"
    using access_available [OF Cons.prems(1) av] by blast
  have step: "check_amounts p view nSpendHeight (txin # ins) acc cache =
      (if \<not> matured p nSpendHeight coins then Some (Inl (Reject 0 Premature_spend_of_coinbase))
       else if \<not> MoneyRange (cp_nMaxMoneyOut p) ?v \<or> \<not> MoneyRange (cp_nMaxMoneyOut p) (acc + ?v)
       then Some (Inl (Reject 100 Inputvalues_outofrange))
       else check_amounts p view nSpendHeight ins (acc + ?v) cache1)"
    using a by (auto simp: matured_def Let_def)
  have input: "input_ok p u nSpendHeight txin \<longleftrightarrow> matured p nSpendHeight coins \<and> MoneyRange (cp_nMaxMoneyOut p) ?v"
    using av a(3) by (simp add: input_ok_def MoneyRange_def)
  show ?case
  proof (cases "input_ok p u nSpendHeight txin")
    case False
    then show ?thesis unfolding step using input by auto
  next
    case True
    then have add: "sint (acc + ?v) = sint acc + sint ?v"
      using Cons.prems(3,4) assms(5) by (intro sint_add64) (auto simp: input_ok_def)
    show ?thesis
    proof (cases "sint acc + sint ?v \<le> p_max p")
      case False
      then have "\<not> (list_all (input_ok p u nSpendHeight) (txin # ins) \<and> sint acc + total_in u (txin # ins) \<le> p_max p)"
        using total_in_nonneg [of p u nSpendHeight ins] by (auto simp: total_in_Cons)
      then show ?thesis unfolding step using False True input add by (auto simp: MoneyRange_def)
    next
      case le: True
      then have range: "MoneyRange (cp_nMaxMoneyOut p) (acc + ?v)"
        using True Cons.prems(3) add by (auto simp: MoneyRange_def input_ok_def)
      have "check_amounts p view nSpendHeight (txin # ins) acc cache = check_amounts p view nSpendHeight ins (acc + ?v) cache1"
        unfolding step using True input range by simp
      moreover have "0 \<le> sint (acc + ?v)" "sint (acc + ?v) \<le> p_max p" using range by (simp_all add: MoneyRange_def)
      ultimately obtain r where r: "check_amounts p view nSpendHeight (txin # ins) acc cache = Some r"
        "case r of Inl e \<Rightarrow> \<not> (list_all (input_ok p u nSpendHeight) ins \<and> sint (acc + ?v) + total_in u ins \<le> p_max p)
         | Inr (v, cache') \<Rightarrow> list_all (input_ok p u nSpendHeight) ins \<and> sint v = sint (acc + ?v) + total_in u ins
             \<and> sint v \<le> p_max p \<and> at_coins cache' u h"
        using Cons.IH [OF a(2), of "acc + ?v"] Cons.prems(2) by auto
      show ?thesis
        by (rule exI [of _ r]) (use r True add in \<open>cases r; simp add: total_in_Cons add.assoc case_prod_beta\<close>)
    qed
  qed
qed

lemma check_scripts_at:
  assumes "at_coins cache u h" "list_all (\<lambda>txin. available u (prevout txin)) ins"
  shows "\<exists>r. check_scripts c Verify view tx flags fQueue i ins cache = Some r \<and>
    (case r of Inl e \<Rightarrow> \<not> fQueue \<and> \<not> list_all (succeeds c Verify) (script_checks u tx flags i ins)
     | Inr (vChecks, cache') \<Rightarrow> vChecks = (if fQueue then script_checks u tx flags i ins else []) \<and> at_coins cache' u h
         \<and> (\<not> fQueue \<longrightarrow> list_all (succeeds c Verify) (script_checks u tx flags i ins)))"
  using assms
proof (induction ins arbitrary: i cache)
  case (Cons txin ins)
  let ?out = "prevout txin"
  let ?check = "\<lparr>sc_scriptPubKey = scriptPubKey (output_at u ?out), sc_txTo = tx, sc_nIn = i, sc_nFlags = flags\<rparr>"
  obtain cache1 coins where a: "AccessCoins view cache (out_hash ?out) = (Some coins, cache1)" "at_coins cache1 u h"
    "unat (out_n ?out) < length (coins_vout coins)" "coins_vout coins ! unat (out_n ?out) = output_at u ?out"
    using access_available [OF Cons.prems(1), of ?out] Cons.prems(2) by auto
  have step: "check_scripts c Verify view tx flags fQueue i (txin # ins) cache =
      (if fQueue then and_then (check_scripts c Verify view tx flags fQueue (i + 1) ins cache1)
         (\<lambda>(vChecks, cache). Some (Inr (?check # vChecks, cache)))
       else and_then (run_now c Verify flags ?check) (\<lambda>_. check_scripts c Verify view tx flags fQueue (i + 1) ins cache1))"
    using a by (simp add: Let_def)
  obtain r where r: "check_scripts c Verify view tx flags fQueue (i + 1) ins cache1 = Some r"
    "case r of Inl e \<Rightarrow> \<not> fQueue \<and> \<not> list_all (succeeds c Verify) (script_checks u tx flags (i + 1) ins)
     | Inr (vChecks, cache') \<Rightarrow> vChecks = (if fQueue then script_checks u tx flags (i + 1) ins else []) \<and> at_coins cache' u h
         \<and> (\<not> fQueue \<longrightarrow> list_all (succeeds c Verify) (script_checks u tx flags (i + 1) ins))"
    using Cons.IH [OF a(2), of "i + 1"] Cons.prems(2) by auto
  show ?case
    unfolding step using r run_now_result [of c Verify ?check flags] by (cases r) (auto split: if_splits)
qed simp

lemma CheckInputs_at:
  assumes "at_coins cache u h" "mapBlockIndex h = Some nHeight" "ordinary tx" "0 \<le> p_max p" "p_max p < 2 ^ 62"
  shows "\<exists>r. CheckInputs c Verify p mapBlockIndex view tx cache fScriptChecks flags fQueue = Some r \<and>
    (case r of
       Inl e \<Rightarrow> \<not> (amounts_valid p u (nHeight + 1) tx
         \<and> (fScriptChecks \<and> \<not> fQueue \<longrightarrow> list_all (succeeds c Verify) (script_checks u tx flags 0 (vin tx))))
     | Inr (vChecks, cache') \<Rightarrow> amounts_valid p u (nHeight + 1) tx \<and> at_coins cache' u h
         \<and> vChecks = (if fScriptChecks \<and> fQueue then script_checks u tx flags 0 (vin tx) else [])
         \<and> (fScriptChecks \<and> \<not> fQueue \<longrightarrow> list_all (succeeds c Verify) (script_checks u tx flags 0 (vin tx))))"
proof -
  let ?av = "list_all (\<lambda>txin. available u (prevout txin)) (vin tx)"
  obtain cache1 where h: "HaveInputs view cache tx = (?av, cache1)" "at_coins cache1 u h"
    using HaveInputs_at [OF assms(1,3)] by blast
  have g: "cache_GetBestBlock view cache1 = (h, cache1)"
    using h(2) by (auto simp: cache_GetBestBlock_def shows_coins_def)
  show ?thesis
  proof (cases ?av)
    case False
    then have "\<not> amounts_valid p u (nHeight + 1) tx" by (auto simp: amounts_valid_def input_ok_def list_all_iff)
    then show ?thesis using h(1) False assms(3) by (simp add: CheckInputs_def)
  next
    case True
    obtain r where r: "check_amounts p view (nHeight + 1) (vin tx) 0 cache1 = Some r"
      "case r of Inl e \<Rightarrow> \<not> (list_all (input_ok p u (nHeight + 1)) (vin tx) \<and> sint (0 :: CAmount) + total_in u (vin tx) \<le> p_max p)
       | Inr (v, cache') \<Rightarrow> list_all (input_ok p u (nHeight + 1)) (vin tx) \<and> sint v = sint (0 :: CAmount) + total_in u (vin tx)
           \<and> sint v \<le> p_max p \<and> at_coins cache' u h"
      using check_amounts_at [OF h(2) True, of 0 p "nHeight + 1"] assms(4,5) by auto
    have eq: "CheckInputs c Verify p mapBlockIndex view tx cache fScriptChecks flags fQueue =
        and_then (Some r) (\<lambda>(nValueIn, inputs).
          and_then (Some (if IsCoinStake tx then Inr () else check_fee p nValueIn tx)) (\<lambda>_.
            if fScriptChecks then check_scripts c Verify view tx flags fQueue 0 (vin tx) inputs
            else Some (Inr ([], inputs))))"
      using h(1) g True assms(2,3) r(1) by (simp add: CheckInputs_def)
    show ?thesis
    proof (cases r)
      case (Inl e)
      then show ?thesis unfolding eq using r(2) by (auto simp: amounts_valid_def)
    next
      case (Inr q)
      obtain v cache2 where q: "q = (v, cache2)" by fastforce
      have v: "list_all (input_ok p u (nHeight + 1)) (vin tx)" "sint v = total_in u (vin tx)" "sint v \<le> p_max p"
        "at_coins cache2 u h" using r(2) Inr q by simp_all
      have "0 \<le> sint v" using v(1,2) total_in_nonneg by simp
      then have valid: "amounts_valid p u (nHeight + 1) tx \<longleftrightarrow> IsCoinStake tx \<or> check_fee p v tx = Inr ()"
        using v check_fee_iff [of v p tx] assms(5) by (auto simp: amounts_valid_def)
      show ?thesis
      proof (cases "IsCoinStake tx \<or> check_fee p v tx = Inr ()")
        case False
        then obtain e where "check_fee p v tx = Inl e" by (cases "check_fee p v tx") auto
        then show ?thesis unfolding eq using Inr q False valid by auto
      next
        case ok: True
        obtain s where s: "check_scripts c Verify view tx flags fQueue 0 (vin tx) cache2 = Some s"
          "case s of Inl e \<Rightarrow> \<not> fQueue \<and> \<not> list_all (succeeds c Verify) (script_checks u tx flags 0 (vin tx))
           | Inr (vChecks, cache') \<Rightarrow> vChecks = (if fQueue then script_checks u tx flags 0 (vin tx) else []) \<and> at_coins cache' u h
               \<and> (\<not> fQueue \<longrightarrow> list_all (succeeds c Verify) (script_checks u tx flags 0 (vin tx)))"
          using check_scripts_at [OF v(4) True, of c Verify tx flags fQueue 0] by blast
        have "CheckInputs c Verify p mapBlockIndex view tx cache fScriptChecks flags fQueue =
            Some (if fScriptChecks then s else Inr ([], cache2))"
          unfolding eq using Inr q ok s(1) by auto
        then show ?thesis using s(2) ok valid v(4) by (cases s) auto
      qed
    qed
  qed
qed

lemma CheckInputs_accepts:
  assumes "at_coins cache u h" "mapBlockIndex h = Some nHeight" "ordinary tx" "0 \<le> p_max p" "p_max p < 2 ^ 62"
    "amounts_valid p u (nHeight + 1) tx"
    "fScriptChecks \<and> \<not> fQueue \<Longrightarrow> list_all (succeeds c Verify) (script_checks u tx flags 0 (vin tx))"
  shows "\<exists>vChecks cache'. CheckInputs c Verify p mapBlockIndex view tx cache fScriptChecks flags fQueue = Some (Inr (vChecks, cache'))"
proof -
  obtain r where r: "CheckInputs c Verify p mapBlockIndex view tx cache fScriptChecks flags fQueue = Some r"
    "case r of
       Inl e \<Rightarrow> \<not> (amounts_valid p u (nHeight + 1) tx
         \<and> (fScriptChecks \<and> \<not> fQueue \<longrightarrow> list_all (succeeds c Verify) (script_checks u tx flags 0 (vin tx))))
     | Inr (vChecks, cache') \<Rightarrow> amounts_valid p u (nHeight + 1) tx \<and> at_coins cache' u h
         \<and> vChecks = (if fScriptChecks \<and> fQueue then script_checks u tx flags 0 (vin tx) else [])
         \<and> (fScriptChecks \<and> \<not> fQueue \<longrightarrow> list_all (succeeds c Verify) (script_checks u tx flags 0 (vin tx)))"
    using CheckInputs_at [where mapBlockIndex = mapBlockIndex, OF assms(1-5)] by blast
  then show ?thesis using assms(6,7) by (cases r) auto
qed

end

section \<open>The loop over the transactions\<close>

text \<open>Every transaction with the unspent coins it meets.\<close>

fun ledger :: "crypto \<Rightarrow> int32 \<Rightarrow> CTransaction list \<Rightarrow> utxo \<Rightarrow> (utxo \<times> CTransaction) list" where
  "ledger c nHeight [] u = []"
| "ledger c nHeight (tx # vtx) u =
     (u, tx) # (case update_utxo c tx u nHeight of None \<Rightarrow> [] | Some (_, u') \<Rightarrow> ledger c nHeight vtx u')"

definition value_in :: "utxo \<times> CTransaction \<Rightarrow> int" where
  "value_in l = (case l of (u, tx) \<Rightarrow> if ordinary tx then total_in u (vin tx) else 0)"

definition value_out :: "utxo \<times> CTransaction \<Rightarrow> int" where
  "value_out l = total_out (vout (snd l))"

definition fee :: "utxo \<times> CTransaction \<Rightarrow> int" where
  "fee l = (if ordinary (snd l) \<and> \<not> IsCoinStake (snd l) then value_in l - value_out l else 0)"

definition checks_of :: "u32 \<Rightarrow> utxo \<times> CTransaction \<Rightarrow> CScriptCheck list" where
  "checks_of flags l = (case l of (u, tx) \<Rightarrow> if ordinary tx then script_checks u tx flags 0 (vin tx) else [])"

definition tx_valid :: "check_params \<Rightarrow> int \<Rightarrow> utxo \<times> CTransaction \<Rightarrow> bool" where
  "tx_valid p nSpendHeight l = (case l of (u, tx) \<Rightarrow>
     list_all (\<lambda>txout. 0 \<le> sint (nValue txout)) (vout tx) \<and> total_out (vout tx) < 2 ^ 63
     \<and> (ordinary tx \<longrightarrow> amounts_valid p u nSpendHeight tx))"

lemma sum_words: "sum_list (map (\<lambda>x. f x) xs) = (word_of_int (sum_list (map (\<lambda>x. sint (f x)) xs)) :: CAmount)"
  by (induction xs) simp_all

lemma GetValueOut_word:
  assumes "GetValueOut tx = Inr w"
  shows "w = word_of_int (total_out (vout tx))" "list_all (\<lambda>txout. 0 \<le> sint (nValue txout)) (vout tx)" "total_out (vout tx) < 2 ^ 63"
proof -
  have "list_all (\<lambda>txout. 0 \<le> sint (nValue txout)) (vout tx) \<and> total_out (vout tx) < 2 ^ 63 \<and> sint w = total_out (vout tx)"
    using assms GetValueOut_loop_iff [of 0 "vout tx" w] by (simp add: GetValueOut_def)
  moreover have sint_w: "(word_of_int (sint w) :: CAmount) = w" by simp
  ultimately show "w = word_of_int (total_out (vout tx))" "list_all (\<lambda>txout. 0 \<le> sint (nValue txout)) (vout tx)" "total_out (vout tx) < 2 ^ 63"
    using sint_w by (metis, simp_all)
qed

lemma GetValueOut_total:
  assumes "list_all (\<lambda>txout. 0 \<le> sint (nValue txout)) (vout tx)" "total_out (vout tx) < 2 ^ 63"
  shows "GetValueOut tx = Inr (word_of_int (total_out (vout tx)))"
proof -
  have "0 \<le> total_out (vout tx)" using assms(1) by (auto simp: total_out_def list_all_iff intro!: sum_list_nonneg)
  then have "sint (word_of_int (total_out (vout tx)) :: CAmount) = total_out (vout tx)" using assms(2) by (intro sint_int64) simp_all
  then show ?thesis using assms GetValueOut_loop_iff [of 0 "vout tx"] by (simp add: GetValueOut_def)
qed

text \<open>The count of signature operations after a transaction, if it stays within the limit.\<close>

definition sigops_after :: "u32 \<Rightarrow> utxo \<times> CTransaction \<Rightarrow> u32 option" where
  "sigops_after k l =
     (case l of (u, tx) \<Rightarrow>
        case GetLegacySigOpCount tx of
          None \<Rightarrow> None
        | Some n \<Rightarrow>
            if k + n > MAX_BLOCK_SIGOPS_CURRENT then None
            else if \<not> ordinary tx then Some (k + n)
            else
              (case p2sh_count u tx of
                 None \<Rightarrow> None
               | Some m \<Rightarrow> if k + n + m > MAX_BLOCK_SIGOPS_CURRENT then None else Some (k + n + m)))"

fun sigops_ok :: "u32 \<Rightarrow> (utxo \<times> CTransaction) list \<Rightarrow> bool" where
  "sigops_ok k [] = True"
| "sigops_ok k (l # ls) = (case sigops_after k l of None \<Rightarrow> False | Some k \<Rightarrow> sigops_ok k ls)"

text \<open>What one round adds to the totals.\<close>

definition totals_grow :: "bool \<Rightarrow> u32 \<Rightarrow> connect_totals \<Rightarrow> (utxo \<times> CTransaction) list \<Rightarrow> connect_totals \<Rightarrow> bool" where
  "totals_grow fQueued flags tot ls tot' \<longleftrightarrow>
     ct_nValueIn tot' = ct_nValueIn tot + word_of_int (sum_list (map value_in ls))
     \<and> ct_nValueOut tot' = ct_nValueOut tot + word_of_int (sum_list (map value_out ls))
     \<and> ct_nFees tot' = ct_nFees tot + word_of_int (sum_list (map fee ls))
     \<and> ct_checks tot' = ct_checks tot @ (if fQueued then concat (map (checks_of flags) ls) else [])"

lemma totals_grow_trans:
  "totals_grow q flags tot ls tot1 \<Longrightarrow> totals_grow q flags tot1 ls' tot2 \<Longrightarrow> totals_grow q flags tot (ls @ ls') tot2"
  by (auto simp: totals_grow_def)

context coins_view
begin

lemma GetValueIn_word:
  assumes "at_coins cache u h" "ordinary tx" "list_all (\<lambda>txin. available u (prevout txin)) (vin tx)"
  shows "\<exists>cache'. GetValueIn view cache tx = Some (word_of_int (value_in (u, tx)), cache') \<and> at_coins cache' u h"
proof -
  have "sum_list (map (\<lambda>txin. nValue (output_at u (prevout txin))) (vin tx)) = (word_of_int (value_in (u, tx)) :: CAmount)"
    unfolding sum_words value_in_def total_in_def using assms(2) by simp
  then show ?thesis using GetValueIn_at [OF assms] by simp
qed

lemma add_fees_at:
  assumes "at_coins cache u h" "ordinary tx" "list_all (\<lambda>txin. available u (prevout txin)) (vin tx)"
    "add_fees view tx tot cache = Some (Inr (tot', cache'))"
  shows "at_coins cache' u h" "tot' = tot\<lparr>ct_nFees := ct_nFees tot + word_of_int (fee (u, tx))\<rparr>"
proof -
  obtain cache1 where v: "GetValueIn view cache tx = Some (word_of_int (value_in (u, tx)), cache1)" "at_coins cache1 u h"
    using GetValueIn_word [OF assms(1-3)] by blast
  have "at_coins cache' u h \<and> tot' = tot\<lparr>ct_nFees := ct_nFees tot + word_of_int (fee (u, tx))\<rparr>"
  proof (cases "IsCoinStake tx")
    case True
    then show ?thesis using assms(1,4) by (simp add: add_fees_def fee_def)
  next
    case False
    then obtain w where w: "GetValueOut tx = Inr w" using assms(4) v by (auto simp: add_fees_def split: sum.splits)
    then show ?thesis
      using assms(2,4) v False GetValueOut_word(1) [OF w] by (simp add: add_fees_def fee_def value_out_def)
  qed
  then show "at_coins cache' u h" "tot' = tot\<lparr>ct_nFees := ct_nFees tot + word_of_int (fee (u, tx))\<rparr>" by blast+
qed

lemma add_checks_at:
  assumes "at_coins cache u h" "ce_mapBlockIndex env h = Some nHeight" "ordinary tx"
    "list_all (\<lambda>txin. available u (prevout txin)) (vin tx)"
    "0 \<le> p_max (ce_params env)" "p_max (ce_params env) < 2 ^ 62"
    "add_checks c Verify env view fScriptChecks flags tx tot cache = Some (Inr (tot', cache'))"
  shows "at_coins cache' u h \<and> amounts_valid (ce_params env) u (nHeight + 1) tx
    \<and> (fScriptChecks \<and> ce_nScriptCheckThreads env = 0 \<longrightarrow> list_all (succeeds c Verify) (checks_of flags (u, tx)))
    \<and> tot' = tot\<lparr>ct_nValueIn := ct_nValueIn tot + word_of_int (value_in (u, tx)), ct_checks := ct_checks tot @
        (if fScriptChecks \<and> ce_nScriptCheckThreads env \<noteq> 0 then checks_of flags (u, tx) else [])\<rparr>"
proof -
  obtain cache1 where v: "GetValueIn view cache tx = Some (word_of_int (value_in (u, tx)), cache1)" "at_coins cache1 u h"
    using GetValueIn_word [OF assms(1,3,4)] by blast
  have checks: "checks_of flags (u, tx) = script_checks u tx flags 0 (vin tx)" using assms(3) by (simp add: checks_of_def)
  obtain vChecks cache2 where r: "CheckInputs c Verify (ce_params env) (ce_mapBlockIndex env) view tx cache1 fScriptChecks flags
      (ce_nScriptCheckThreads env \<noteq> 0) = Some (Inr (vChecks, cache2))"
    using assms(7) v(1) by (auto simp: add_checks_def split: option.splits sum.splits)
  then have "cache' = cache2" "tot' = tot\<lparr>ct_nValueIn := ct_nValueIn tot + word_of_int (value_in (u, tx)), ct_checks := ct_checks tot @ vChecks\<rparr>"
    using assms(7) v(1) by (simp_all add: add_checks_def)
  then show ?thesis
    using CheckInputs_at [where mapBlockIndex = "ce_mapBlockIndex env", OF v(2) assms(2,3,5,6), where c = c and Verify = Verify and fScriptChecks = fScriptChecks
      and flags = flags and fQueue = "ce_nScriptCheckThreads env \<noteq> 0"] r checks by simp
qed

lemma connect_inputs_at:
  assumes "at_coins cache u h" "ce_mapBlockIndex env h = Some nHeight" "ordinary tx"
    "0 \<le> p_max (ce_params env)" "p_max (ce_params env) < 2 ^ 62"
    "connect_inputs c Verify env view fScriptChecks flags tx tot cache = Some (Inr (tot', cache'))"
  shows "at_coins cache' u h \<and> amounts_valid (ce_params env) u (nHeight + 1) tx
    \<and> (fScriptChecks \<and> ce_nScriptCheckThreads env = 0 \<longrightarrow> list_all (succeeds c Verify) (checks_of flags (u, tx)))
    \<and> ct_undos tot' = ct_undos tot \<and> ct_nValueOut tot' = ct_nValueOut tot
    \<and> ct_nValueIn tot' = ct_nValueIn tot + word_of_int (value_in (u, tx)) \<and> ct_nFees tot' = ct_nFees tot + word_of_int (fee (u, tx))
    \<and> ct_checks tot' = ct_checks tot @ (if fScriptChecks \<and> ce_nScriptCheckThreads env \<noteq> 0 then checks_of flags (u, tx) else [])
    \<and> (\<exists>n. p2sh_count u tx = Some n \<and> ct_nSigOps tot' = ct_nSigOps tot + n) \<and> ct_nSigOps tot' \<le> MAX_BLOCK_SIGOPS_CURRENT"
proof -
  let ?av = "list_all (\<lambda>txin. available u (prevout txin)) (vin tx)"
  obtain cache1 where hv: "HaveInputs view cache tx = (?av, cache1)" "at_coins cache1 u h"
    using HaveInputs_at [OF assms(1,3)] by blast
  have av: ?av using assms(6) hv(1) by (auto simp: connect_inputs_def split: if_splits)
  obtain n cache2 where sig: "GetP2SHSigOpCount_view view tx cache1 = Some (n, cache2)"
    using assms(6) hv(1) av by (auto simp: connect_inputs_def split: option.splits)
  then have at2: "at_coins cache2 u h" and count: "p2sh_count u tx = Some n"
    using GetP2SHSigOpCount_at [OF hv(2) assms(3) av] by (auto split: option.splits)
  define tot1 where "tot1 = tot\<lparr>ct_nSigOps := ct_nSigOps tot + n\<rparr>"
  obtain tot2 cache3 where f: "add_fees view tx tot1 cache2 = Some (Inr (tot2, cache3))"
    "add_checks c Verify env view fScriptChecks flags tx tot2 cache3 = Some (Inr (tot', cache'))"
    "ct_nSigOps tot + n \<le> MAX_BLOCK_SIGOPS_CURRENT"
    using assms(6) hv(1) av sig by (auto simp: connect_inputs_def Let_def tot1_def and_then_Inr split: if_splits)
  note fees = add_fees_at [OF at2 assms(3) av f(1)]
  show ?thesis
    using add_checks_at [OF fees(1) assms(2,3) av assms(4,5) f(2)] fees(2) count f(3) by (simp add: tot1_def)
qed

text \<open>And a transaction that satisfies all of this is accepted.\<close>

lemma connect_inputs_accepts:
  assumes "at_coins cache u h" "ce_mapBlockIndex env h = Some nHeight" "ordinary tx"
    "0 \<le> p_max (ce_params env)" "p_max (ce_params env) < 2 ^ 62"
    "amounts_valid (ce_params env) u (nHeight + 1) tx" "GetValueOut tx = Inr w"
    "p2sh_count u tx = Some n" "ct_nSigOps tot + n \<le> MAX_BLOCK_SIGOPS_CURRENT"
    "fScriptChecks \<and> ce_nScriptCheckThreads env = 0 \<Longrightarrow> list_all (succeeds c Verify) (checks_of flags (u, tx))"
  shows "\<exists>tot' cache'. connect_inputs c Verify env view fScriptChecks flags tx tot cache = Some (Inr (tot', cache'))"
proof -
  have av: "list_all (\<lambda>txin. available u (prevout txin)) (vin tx)"
    using assms(6) by (auto simp: amounts_valid_def input_ok_def list_all_iff)
  obtain cache1 where hv: "HaveInputs view cache tx = (True, cache1)" "at_coins cache1 u h"
    using HaveInputs_at [OF assms(1,3)] av by auto
  obtain cache2 where sig: "GetP2SHSigOpCount_view view tx cache1 = Some (n, cache2)" "at_coins cache2 u h"
    using GetP2SHSigOpCount_at [OF hv(2) assms(3) av] assms(8) by auto
  define tot1 where "tot1 = tot\<lparr>ct_nSigOps := ct_nSigOps tot + n\<rparr>"
  obtain tot2 cache3 where f: "add_fees view tx tot1 cache2 = Some (Inr (tot2, cache3))"
    using GetValueIn_word [OF sig(2) assms(3) av] assms(7) by (cases "IsCoinStake tx") (auto simp: add_fees_def)
  note fees = add_fees_at [OF sig(2) assms(3) av f]
  obtain cache4 where v: "GetValueIn view cache3 tx = Some (word_of_int (value_in (u, tx)), cache4)" "at_coins cache4 u h"
    using GetValueIn_word [OF fees(1) assms(3) av] by blast
  have "checks_of flags (u, tx) = script_checks u tx flags 0 (vin tx)" using assms(3) by (simp add: checks_of_def)
  then obtain vChecks cache5 where "CheckInputs c Verify (ce_params env) (ce_mapBlockIndex env) view tx cache4 fScriptChecks flags
      (ce_nScriptCheckThreads env \<noteq> 0) = Some (Inr (vChecks, cache5))"
    using CheckInputs_accepts [where mapBlockIndex = "ce_mapBlockIndex env" and p = "ce_params env", OF v(2) assms(2-6), where c = c and Verify = Verify
      and fScriptChecks = fScriptChecks and flags = flags and fQueue = "ce_nScriptCheckThreads env \<noteq> 0"] assms(10)
    by auto
  then show ?thesis
    using hv(1) sig(1) f v(1) assms(9) by (simp add: connect_inputs_def Let_def tot1_def add_checks_def)
qed

lemma UpdateCoins_at:
  assumes "at_coins cache u h" "UpdateCoins c view tx cache [] nHeight = Some (txundo, cache')"
  shows "\<exists>u'. update_utxo c tx u nHeight = Some (txundo, u') \<and> at_coins cache' u' h"
  using UpdateCoins_refines [where cache = cache and c = c and tx = tx and nHeight = nHeight and txundo = "[]"] UpdateCoins_hashBlock [OF assms(2)] assms
  by (auto simp: shows_coins_def split: option.splits prod.splits)

lemma connect_tx_at:
  assumes "at_coins cache u h" "ce_mapBlockIndex env h = Some nSpend" "\<not> HasZerocoinSpendInputs tx"
    "0 \<le> p_max (ce_params env)" "p_max (ce_params env) < 2 ^ 62"
    "connect_tx c Verify env view nHeight fScriptChecks flags tx tot cache = Some (Inr (tot', cache'))"
  shows "\<exists>txundo u'. u (SerializeHash c tx) = None \<and> update_utxo c tx u nHeight = Some (txundo, u') \<and> at_coins cache' u' h
    \<and> tx_valid (ce_params env) (nSpend + 1) (u, tx) \<and> ct_undos tot' = ct_undos tot @ [txundo]
    \<and> totals_grow (fScriptChecks \<and> ce_nScriptCheckThreads env \<noteq> 0) flags tot [(u, tx)] tot'
    \<and> sigops_after (ct_nSigOps tot) (u, tx) = Some (ct_nSigOps tot')
    \<and> (fScriptChecks \<and> ce_nScriptCheckThreads env = 0 \<longrightarrow> list_all (succeeds c Verify) (checks_of flags (u, tx)))"
proof -
  obtain coins cache1 where a: "AccessCoins view cache (SerializeHash c tx) = (coins, cache1)" by fastforce
  note acc = access [OF assms(1) a]
  define n where "n = the (GetLegacySigOpCount tx)"
  define tot1 where "tot1 = tot\<lparr>ct_nSigOps := ct_nSigOps tot + n\<rparr>"
  have bip: "\<not> overwrites coins" and legacy: "GetLegacySigOpCount tx = Some n" "ct_nSigOps tot + n \<le> MAX_BLOCK_SIGOPS_CURRENT"
    using assms(6) a by (auto simp: connect_tx_def n_def Let_def split: if_splits option.splits)
  then have none: "u (SerializeHash c tx) = None"
    using acc(1) by (auto split: option.splits if_splits dest: sym)
  obtain tot2 cache2 where i: "(if \<not> IsCoinBase tx then connect_inputs c Verify env view fScriptChecks flags tx tot1 cache1
      else Some (Inr (tot1, cache1))) = Some (Inr (tot2, cache2))"
    "(case GetValueOut tx of Inl e \<Rightarrow> Some (Inl (Value_out e))
      | Inr w \<Rightarrow> (case UpdateCoins c view tx cache2 [] nHeight of None \<Rightarrow> None
         | Some (txundo, cache) \<Rightarrow> Some (Inr (tot2\<lparr>ct_nValueOut := ct_nValueOut tot2 + w, ct_undos := ct_undos tot2 @ [txundo]\<rparr>, cache))))
     = Some (Inr (tot', cache'))"
    using assms(3,6) a bip legacy by (auto simp: connect_tx_def Let_def and_then_Inr tot1_def split: if_splits)
  obtain w where w: "GetValueOut tx = Inr w" using i(2) by (auto split: sum.splits)
  obtain txundo where up: "UpdateCoins c view tx cache2 [] nHeight = Some (txundo, cache')"
    "tot' = tot2\<lparr>ct_nValueOut := ct_nValueOut tot2 + w, ct_undos := ct_undos tot2 @ [txundo]\<rparr>"
    using i(2) w by (auto split: option.splits)
  note out = GetValueOut_word [OF w]
  have two: "at_coins cache2 u h \<and> (ordinary tx \<longrightarrow> amounts_valid (ce_params env) u (nSpend + 1) tx)
    \<and> (fScriptChecks \<and> ce_nScriptCheckThreads env = 0 \<longrightarrow> list_all (succeeds c Verify) (checks_of flags (u, tx)))
    \<and> ct_undos tot2 = ct_undos tot \<and> ct_nValueOut tot2 = ct_nValueOut tot
    \<and> ct_nValueIn tot2 = ct_nValueIn tot + word_of_int (value_in (u, tx)) \<and> ct_nFees tot2 = ct_nFees tot + word_of_int (fee (u, tx))
    \<and> ct_checks tot2 = ct_checks tot @ (if fScriptChecks \<and> ce_nScriptCheckThreads env \<noteq> 0 then checks_of flags (u, tx) else [])
    \<and> sigops_after (ct_nSigOps tot) (u, tx) = Some (ct_nSigOps tot2)"
  proof (cases "IsCoinBase tx")
    case True
    then show ?thesis using i(1) acc(2) legacy by (auto simp: tot1_def value_in_def fee_def checks_of_def sigops_after_def)
  next
    case False
    then have o: "ordinary tx" using assms(3) by simp
    have ci: "connect_inputs c Verify env view fScriptChecks flags tx tot1 cache1 = Some (Inr (tot2, cache2))" using i(1) False by simp
    show ?thesis
      using connect_inputs_at [OF acc(2) assms(2) o assms(4,5) ci] legacy o by (auto simp: tot1_def sigops_after_def)
  qed
  obtain u' where "update_utxo c tx u nHeight = Some (txundo, u')" "at_coins cache' u' h"
    using UpdateCoins_at [OF _ up(1)] two by blast
  then show ?thesis
    using none two out up(2) by (auto simp: tx_valid_def totals_grow_def value_out_def)
qed

lemma connect_tx_accepts:
  assumes "at_coins cache u h" "ce_mapBlockIndex env h = Some nSpend" "\<not> ContainsZerocoins tx"
    "0 \<le> p_max (ce_params env)" "p_max (ce_params env) < 2 ^ 62"
    "u (SerializeHash c tx) = None" "update_utxo c tx u nHeight = Some (txundo, u')"
    "tx_valid (ce_params env) (nSpend + 1) (u, tx)" "sigops_after (ct_nSigOps tot) (u, tx) = Some k"
    "fScriptChecks \<and> ce_nScriptCheckThreads env = 0 \<Longrightarrow> list_all (succeeds c Verify) (checks_of flags (u, tx))"
  shows "\<exists>tot' cache'. connect_tx c Verify env view nHeight fScriptChecks flags tx tot cache = Some (Inr (tot', cache'))"
proof -
  obtain coins cache1 where a: "AccessCoins view cache (SerializeHash c tx) = (coins, cache1)" by fastforce
  note acc = access [OF assms(1) a]
  have bip: "\<not> overwrites coins" using acc(1) assms(6) by (auto split: option.splits if_splits)
  obtain n where legacy: "GetLegacySigOpCount tx = Some n" "ct_nSigOps tot + n \<le> MAX_BLOCK_SIGOPS_CURRENT"
    using assms(9) by (auto simp: sigops_after_def split: option.splits if_splits)
  have zc: "\<not> HasZerocoinSpendInputs tx" "\<not> HasZerocoinMintOutputs tx" using assms(3) by (simp_all add: ContainsZerocoins_def)
  obtain w where w: "GetValueOut tx = Inr w" using assms(8) GetValueOut_total by (auto simp: tx_valid_def)
  define tot1 where "tot1 = tot\<lparr>ct_nSigOps := ct_nSigOps tot + n\<rparr>"
  have "\<exists>tot2 cache2. (if \<not> IsCoinBase tx then connect_inputs c Verify env view fScriptChecks flags tx tot1 cache1
      else Some (Inr (tot1, cache1))) = Some (Inr (tot2, cache2)) \<and> at_coins cache2 u h"
  proof (cases "IsCoinBase tx")
    case True
    then show ?thesis using acc(2) by simp
  next
    case False
    then have o: "ordinary tx" using zc by simp
    then obtain m where m: "p2sh_count u tx = Some m" "ct_nSigOps tot1 + m \<le> MAX_BLOCK_SIGOPS_CURRENT"
      using assms(9) legacy by (auto simp: sigops_after_def tot1_def split: option.splits if_splits)
    have "amounts_valid (ce_params env) u (nSpend + 1) tx" using assms(8) o by (simp add: tx_valid_def)
    then obtain tot2 cache2 where ci: "connect_inputs c Verify env view fScriptChecks flags tx tot1 cache1 = Some (Inr (tot2, cache2))"
      using connect_inputs_accepts [OF acc(2) assms(2) o assms(4,5) _ w m assms(10)] by blast
    then show ?thesis using connect_inputs_at [OF acc(2) assms(2) o assms(4,5) ci] False by auto
  qed
  then obtain tot2 cache2 where i: "(if \<not> IsCoinBase tx then connect_inputs c Verify env view fScriptChecks flags tx tot1 cache1
      else Some (Inr (tot1, cache1))) = Some (Inr (tot2, cache2))" "at_coins cache2 u h" by blast
  obtain cache3 where "UpdateCoins c view tx cache2 [] nHeight = Some (txundo, cache3)"
    using UpdateCoins_refines [where cache = cache2 and c = c and tx = tx and nHeight = nHeight and txundo = "[]"] i(2) assms(7)
    by (auto simp: shows_coins_def)
  then show ?thesis
    using a bip legacy zc assms(3) i(1) w by (cases "IsCoinBase tx") (auto simp: connect_tx_def Let_def tot1_def)
qed

lemma connect_loop_at:
  assumes "at_coins cache u h" "ce_mapBlockIndex env h = Some nSpend" "list_all (\<lambda>tx. \<not> HasZerocoinSpendInputs tx) vtx"
    "0 \<le> p_max (ce_params env)" "p_max (ce_params env) < 2 ^ 62"
    "connect_loop c Verify env view nHeight fScriptChecks flags vtx tot cache = Some (Inr (tot', cache'))"
  shows "\<exists>undos u'. connect_utxo c nHeight vtx u = Some (Inr (undos, u')) \<and> at_coins cache' u' h
    \<and> list_all (tx_valid (ce_params env) (nSpend + 1)) (ledger c nHeight vtx u) \<and> ct_undos tot' = ct_undos tot @ undos
    \<and> totals_grow (fScriptChecks \<and> ce_nScriptCheckThreads env \<noteq> 0) flags tot (ledger c nHeight vtx u) tot'
    \<and> sigops_ok (ct_nSigOps tot) (ledger c nHeight vtx u)
    \<and> (fScriptChecks \<and> ce_nScriptCheckThreads env = 0 \<longrightarrow>
        list_all (succeeds c Verify) (concat (map (checks_of flags) (ledger c nHeight vtx u))))"
  using assms(1,3,6)
proof (induction vtx arbitrary: u cache tot)
  case Nil
  then show ?case by (simp add: totals_grow_def)
next
  case (Cons tx vtx)
  obtain tot1 cache1 where t: "connect_tx c Verify env view nHeight fScriptChecks flags tx tot cache = Some (Inr (tot1, cache1))"
    "connect_loop c Verify env view nHeight fScriptChecks flags vtx tot1 cache1 = Some (Inr (tot', cache'))"
    using Cons.prems(3) by (auto simp: and_then_Inr)
  have "\<not> HasZerocoinSpendInputs tx" and rest: "list_all (\<lambda>tx. \<not> HasZerocoinSpendInputs tx) vtx" using Cons.prems(2) by simp_all
  then obtain txundo u1 where u1: "u (SerializeHash c tx) = None" "update_utxo c tx u nHeight = Some (txundo, u1)"
    "at_coins cache1 u1 h" "tx_valid (ce_params env) (nSpend + 1) (u, tx)" "ct_undos tot1 = ct_undos tot @ [txundo]"
    "totals_grow (fScriptChecks \<and> ce_nScriptCheckThreads env \<noteq> 0) flags tot [(u, tx)] tot1"
    "sigops_after (ct_nSigOps tot) (u, tx) = Some (ct_nSigOps tot1)"
    "fScriptChecks \<and> ce_nScriptCheckThreads env = 0 \<longrightarrow> list_all (succeeds c Verify) (checks_of flags (u, tx))"
    using connect_tx_at [OF Cons.prems(1) assms(2) _ assms(4,5) t(1)] by blast
  obtain undos u' where u': "connect_utxo c nHeight vtx u1 = Some (Inr (undos, u'))" "at_coins cache' u' h"
    "list_all (tx_valid (ce_params env) (nSpend + 1)) (ledger c nHeight vtx u1)" "ct_undos tot' = ct_undos tot1 @ undos"
    "totals_grow (fScriptChecks \<and> ce_nScriptCheckThreads env \<noteq> 0) flags tot1 (ledger c nHeight vtx u1) tot'"
    "sigops_ok (ct_nSigOps tot1) (ledger c nHeight vtx u1)"
    "fScriptChecks \<and> ce_nScriptCheckThreads env = 0 \<longrightarrow>
      list_all (succeeds c Verify) (concat (map (checks_of flags) (ledger c nHeight vtx u1)))"
    using Cons.IH [OF u1(3) rest t(2)] by blast
  have "list_all (\<lambda>txin. available u (prevout txin)) (vin tx)" if "ordinary tx"
    using u1(4) that by (auto simp: tx_valid_def amounts_valid_def input_ok_def list_all_iff)
  then have "connect_utxo c nHeight (tx # vtx) u = Some (Inr (txundo # undos, u'))"
    using u1(1,2) u'(1) by auto
  moreover have "ledger c nHeight (tx # vtx) u = [(u, tx)] @ ledger c nHeight vtx u1" using u1(2) by simp
  ultimately show ?case
    using u' u1(4,5,7,8) totals_grow_trans [OF u1(6) u'(5)] by auto
qed

lemma connect_loop_accepts:
  assumes "at_coins cache u h" "ce_mapBlockIndex env h = Some nSpend" "list_all (\<lambda>tx. \<not> ContainsZerocoins tx) vtx"
    "0 \<le> p_max (ce_params env)" "p_max (ce_params env) < 2 ^ 62"
    "connect_utxo c nHeight vtx u = Some (Inr (undos, u'))"
    "list_all (tx_valid (ce_params env) (nSpend + 1)) (ledger c nHeight vtx u)" "sigops_ok (ct_nSigOps tot) (ledger c nHeight vtx u)"
    "fScriptChecks \<and> ce_nScriptCheckThreads env = 0 \<Longrightarrow>
        list_all (succeeds c Verify) (concat (map (checks_of flags) (ledger c nHeight vtx u)))"
  shows "\<exists>tot' cache'. connect_loop c Verify env view nHeight fScriptChecks flags vtx tot cache = Some (Inr (tot', cache'))"
  using assms(1,3,6-)
proof (induction vtx arbitrary: u cache tot undos)
  case (Cons tx vtx)
  obtain txundo us u1 where s: "u (SerializeHash c tx) = None" "update_utxo c tx u nHeight = Some (txundo, u1)"
    "connect_utxo c nHeight vtx u1 = Some (Inr (us, u'))"
    using Cons.prems(3) by (rule connect_utxo_Cons)
  have l: "ledger c nHeight (tx # vtx) u = (u, tx) # ledger c nHeight vtx u1" using s(2) by simp
  obtain k where k: "sigops_after (ct_nSigOps tot) (u, tx) = Some k" "sigops_ok k (ledger c nHeight vtx u1)"
    using Cons.prems(5) l by (auto split: option.splits)
  have zc: "\<not> ContainsZerocoins tx" "list_all (\<lambda>tx. \<not> ContainsZerocoins tx) vtx" "\<not> HasZerocoinSpendInputs tx"
    using Cons.prems(2) by (simp_all add: ContainsZerocoins_def)
  have valid: "tx_valid (ce_params env) (nSpend + 1) (u, tx)" "list_all (tx_valid (ce_params env) (nSpend + 1)) (ledger c nHeight vtx u1)"
    using Cons.prems(4) unfolding l by simp_all
  have checks: "list_all (succeeds c Verify) (checks_of flags (u, tx))"
      "list_all (succeeds c Verify) (concat (map (checks_of flags) (ledger c nHeight vtx u1)))"
    if "fScriptChecks \<and> ce_nScriptCheckThreads env = 0"
    using Cons.prems(6) [OF that] unfolding l by simp_all
  obtain tot1 cache1 where t: "connect_tx c Verify env view nHeight fScriptChecks flags tx tot cache = Some (Inr (tot1, cache1))"
    using connect_tx_accepts [OF Cons.prems(1) assms(2) zc(1) assms(4,5) s(1,2) valid(1) k(1) checks(1)] by blast
  have one: "at_coins cache1 u1 h" "k = ct_nSigOps tot1"
    using connect_tx_at [OF Cons.prems(1) assms(2) zc(3) assms(4,5) t] s(2) k(1) by auto
  have "\<exists>tot' cache'. connect_loop c Verify env view nHeight fScriptChecks flags vtx tot1 cache1 = Some (Inr (tot', cache'))"
    using Cons.IH [OF one(1) zc(2) s(3) valid(2) k(2) [unfolded one(2)] checks(2)] by blast
  then show ?case using t by simp
qed simp

end

section \<open>The total value of the unspent coins\<close>

definition txout_value :: "CTxOut \<Rightarrow> int" where
  "txout_value txout = (if CTxOut_IsNull txout then 0 else sint (nValue txout))"

definition coins_value :: "CCoins option \<Rightarrow> int" where
  "coins_value r = (case r of None \<Rightarrow> 0 | Some coins \<Rightarrow> sum_list (map txout_value (coins_vout coins)))"

definition total_value :: "utxo \<Rightarrow> int" where
  "total_value u = (\<Sum>txid \<in> dom u. coins_value (u txid))"

text \<open>No output that is not null has a negative amount.\<close>

definition values_ok :: "utxo \<Rightarrow> bool" where
  "values_ok u \<longleftrightarrow> (\<forall>txid coins. u txid = Some coins \<longrightarrow> list_all (\<lambda>txout. 0 \<le> txout_value txout) (coins_vout coins))"

text \<open>Transaction ids are words, so that a map has a finite domain.\<close>

lemma supply_upd: "total_value (u(txid := r)) = total_value u - coins_value (u txid) + coins_value r"
proof -
  have fin: "finite (dom u)" by simp
  have all: "total_value v = (\<Sum>x \<in> insert txid (dom u). coins_value (v x))" if "dom v \<subseteq> insert txid (dom u)" for v
    unfolding total_value_def using that fin by (intro sum.mono_neutral_left) (auto simp: coins_value_def split: option.splits)
  have "total_value (u(txid := r)) = (\<Sum>x \<in> insert txid (dom u). coins_value ((u(txid := r)) x))"
    by (rule all) (auto split: if_splits)
  also have "\<dots> = coins_value r + (\<Sum>x \<in> dom u - {txid}. coins_value (u x))"
    using fin by (subst sum.insert_remove) simp_all
  moreover have "total_value u = coins_value (u txid) + (\<Sum>x \<in> dom u - {txid}. coins_value (u x))"
    using all [of u] fin by (simp add: sum.insert_remove subset_insertI)
  ultimately show ?thesis by simp
qed

lemma supply_nonneg:
  assumes "values_ok u"
  shows "0 \<le> total_value u"
proof -
  have "0 \<le> sum_list (map txout_value outs)" if "list_all (\<lambda>txout. 0 \<le> txout_value txout) outs" for outs
    using that by (induction outs) auto
  then show ?thesis
    using assms unfolding total_value_def by (intro sum_nonneg) (auto simp: values_ok_def coins_value_def)
qed

lemma nulls_value: "list_all CTxOut_IsNull outs \<Longrightarrow> sum_list (map txout_value outs) = 0"
  by (induction outs) (simp_all add: txout_value_def)

lemma SetNull_value [simp]: "txout_value CTxOut_SetNull = 0"
  by (simp add: txout_value_def CTxOut_IsNull_def CTxOut_SetNull_def)

lemma live_value: "coins_value (live r) = coins_value r"
  by (cases r) (auto simp: coins_value_def IsPruned_def nulls_value)

lemma Cleanup_loop_value: "sum_list (map txout_value (Cleanup_loop outs)) = sum_list (map txout_value outs)"
proof -
  obtain ns where "outs = Cleanup_loop outs @ ns" "list_all CTxOut_IsNull ns" by (rule Cleanup_loop_split)
  then show ?thesis using nulls_value by (metis add.right_neutral map_append sum_list_append)
qed

lemma Spend_vout:
  assumes "Spend coins out = Some (undo, coins')"
  shows "coins_vout coins' = Cleanup_loop ((coins_vout coins)[unat (out_n out) := CTxOut_SetNull])"
    "unat (out_n out) < length (coins_vout coins)" "\<not> CTxOut_IsNull (coins_vout coins ! unat (out_n out))"
  using assms by (auto simp: Spend_def Let_def Cleanup_def split: if_splits)

lemma Spend_value:
  assumes "Spend coins out = Some (undo, coins')"
  shows "coins_value (Some coins') = coins_value (Some coins) - sint (nValue (coins_vout coins ! unat (out_n out)))"
proof -
  note s = Spend_vout [OF assms]
  have "(\<Sum>x\<leftarrow>xs[i := y]. f x) = (\<Sum>x\<leftarrow>xs. f x) - f (xs ! i) + f y" if "i < length xs"
    for f :: "CTxOut \<Rightarrow> int" and xs i y
    using that by (induction xs arbitrary: i) (auto split: nat.split)
  from this [OF s(2)] show ?thesis
    using s(3) by (simp add: coins_value_def s(1) Cleanup_loop_value) (simp add: txout_value_def)
qed

lemma output_at_spent:
  assumes "u (out_hash out) = Some coins" "Spend coins out = Some (undo, coins')" "available u out'" "out' \<noteq> out"
  shows "output_at (u(out_hash out := live (Some coins'))) out' = output_at u out'"
proof (cases "out_hash out' = out_hash out")
  case True
  then have "unat (out_n out') \<noteq> unat (out_n out)" using assms(4) by (metis COutPoint.equality unit.exhaust word_unat_eq_iff)
  moreover have "unat (out_n out') < length (coins_vout coins)" "\<not> CTxOut_IsNull (coins_vout coins ! unat (out_n out'))"
    using assms(1,3) True by (simp_all add: available_def IsAvailable_def)
  ultimately have n: "unat (out_n out') < length (coins_vout coins')" "coins_vout coins' ! unat (out_n out') = coins_vout coins ! unat (out_n out')"
    using nth_Cleanup_loop [of "unat (out_n out')" "(coins_vout coins)[unat (out_n out) := CTxOut_SetNull]"]
    unfolding Spend_vout(1) [OF assms(2)] by simp_all
  then have "\<not> IsPruned coins'"
    using \<open>\<not> CTxOut_IsNull (coins_vout coins ! unat (out_n out'))\<close> by (auto simp: IsPruned_def list_all_length)
  then show ?thesis using n(2) True assms(1) by (simp add: output_at_def)
next
  case False
  then show ?thesis by (simp add: output_at_def)
qed

lemma values_ok_upd:
  "values_ok u \<Longrightarrow> (\<And>coins. r = Some coins \<Longrightarrow> list_all (\<lambda>txout. 0 \<le> txout_value txout) (coins_vout coins)) \<Longrightarrow> values_ok (u(txid := r))"
  by (auto simp: values_ok_def)

lemma spend_utxo_supply:
  assumes "spend_utxo u ins = Some (undos, u')" "values_ok u"
    "list_all (\<lambda>txin. available u (prevout txin)) ins" "distinct (map prevout ins)"
  shows "total_value u' = total_value u - total_in u ins" "values_ok u'" "u txid = None \<Longrightarrow> u' txid = None"
proof -
  have "total_value u' = total_value u - total_in u ins \<and> values_ok u' \<and> (u txid = None \<longrightarrow> u' txid = None)"
    using assms
  proof (induction ins arbitrary: u undos)
    case Nil
    then show ?case by (simp add: total_in_def)
  next
    case (Cons txin ins)
    let ?out = "prevout txin"
    obtain coins undo coins' us where s: "u (out_hash ?out) = Some coins" "Spend coins ?out = Some (undo, coins')"
      "spend_utxo (u(out_hash ?out := live (Some coins'))) ins = Some (us, u')"
      using Cons.prems(1) by (auto split: option.splits)
    let ?u = "u(out_hash ?out := live (Some coins'))"
    have other: "prevout t \<noteq> ?out \<and> available u (prevout t)" if "t \<in> set ins" for t
      using that Cons.prems(3,4) by (auto simp: list_all_iff) (metis image_eqI)
    have av: "list_all (\<lambda>txin. available ?u (prevout txin)) ins"
      using other available_spent [where u = u and out = ?out, OF s(1,2)] by (auto simp: list_all_iff simp del: live_simps)
    have same: "total_in ?u ins = total_in u ins"
      unfolding total_in_def using other output_at_spent [where u = u and out = ?out, OF s(1,2)]
      by (intro arg_cong [where f = sum_list] map_cong) (simp_all del: live_simps)
    have less: "total_value ?u = total_value u - value_at u txin"
      using supply_upd [of u "out_hash ?out" "live (Some coins')"] Spend_value [OF s(2)] s(1)
      by (simp add: live_value output_at_def del: live_simps)
    have ok: "values_ok ?u"
    proof (rule values_ok_upd [OF Cons.prems(2)])
      fix d assume "live (Some coins') = Some d"
      then have "d = coins'" by (auto split: if_splits)
      moreover have "list_all (\<lambda>txout. 0 \<le> txout_value txout) ((coins_vout coins)[unat (out_n ?out) := CTxOut_SetNull])"
        using Cons.prems(2) s(1) set_update_subset_insert [of "coins_vout coins" "unat (out_n ?out)" CTxOut_SetNull]
        by (fastforce simp: values_ok_def list_all_iff)
      ultimately show "list_all (\<lambda>txout. 0 \<le> txout_value txout) (coins_vout d)"
        using Cleanup_loop_sub(2) Spend_vout(1) [OF s(2)] by simp
    qed
    have dist: "distinct (map prevout ins)" using Cons.prems(4) by simp
    note ih = Cons.IH [OF s(3) ok av dist]
    have "total_value u' = total_value ?u - total_in ?u ins" using ih by blast
    then have "total_value u' = total_value u - total_in u (txin # ins)" by (simp only: same less total_in_Cons diff_diff_eq)
    moreover have "u' txid = None" if "u txid = None"
    proof -
      have "txid \<noteq> out_hash ?out" using that s(1) by auto
      then have "?u txid = None" using that by simp
      then show ?thesis using ih by blast
    qed
    ultimately show ?case using ih by blast
  qed
  then show "total_value u' = total_value u - total_in u ins" "values_ok u'" "u txid = None \<Longrightarrow> u' txid = None" by blast+
qed

lemma FromTx_value:
  assumes "list_all (\<lambda>txout. 0 \<le> sint (nValue txout)) (vout tx)"
  shows "coins_value (Some (FromTx tx nHeight)) \<le> total_out (vout tx)"
    "list_all (\<lambda>txout. 0 \<le> txout_value txout) (coins_vout (FromTx tx nHeight))"
proof -
  let ?f = "\<lambda>txout. if IsUnspendable (scriptPubKey txout) then CTxOut_SetNull else txout"
  have v: "coins_vout (FromTx tx nHeight) = Cleanup_loop (map ?f (vout tx))"
    by (simp add: FromTx_def ClearUnspendable_def Cleanup_def)
  have "sum_list (map txout_value (map ?f outs)) \<le> total_out outs" if "list_all (\<lambda>txout. 0 \<le> sint (nValue txout)) outs" for outs
    using that by (induction outs) (auto simp: total_out_def txout_value_def)
  then show "coins_value (Some (FromTx tx nHeight)) \<le> total_out (vout tx)"
    using assms by (simp add: coins_value_def v Cleanup_loop_value del: map_map)
  have "list_all (\<lambda>txout. 0 \<le> txout_value txout) (map ?f (vout tx))"
    using assms by (auto simp: list_all_iff) (simp_all add: txout_value_def)
  then show "list_all (\<lambda>txout. 0 \<le> txout_value txout) (coins_vout (FromTx tx nHeight))"
    unfolding v by (rule Cleanup_loop_sub)
qed

lemma update_utxo_supply:
  assumes "update_utxo c tx u nHeight = Some (txundo, u')" "u (SerializeHash c tx) = None" "values_ok u"
    "tx_valid p nSpendHeight (u, tx)" "distinct (map prevout (vin tx))"
  shows "total_value u' \<le> total_value u - value_in (u, tx) + value_out (u, tx)" "values_ok u'"
proof -
  let ?h = "SerializeHash c tx" and ?new = "live (Some (FromTx tx nHeight))"
  obtain u1 where u1: "(if ordinary tx then spend_utxo u (vin tx) else Some ([], u)) = Some (txundo, u1)" "u' = u1(?h := ?new)"
    using assms(1) by (auto simp: update_utxo_def simp del: live_simps)
  have out: "list_all (\<lambda>txout. 0 \<le> sint (nValue txout)) (vout tx)" using assms(4) by (simp add: tx_valid_def)
  have av: "list_all (\<lambda>txin. available u (prevout txin)) (vin tx)" if "ordinary tx"
    using assms(4) that by (auto simp: tx_valid_def amounts_valid_def input_ok_def list_all_iff)
  have s: "total_value u1 = total_value u - value_in (u, tx) \<and> values_ok u1 \<and> u1 ?h = None"
  proof (cases "ordinary tx")
    case True
    then show ?thesis
      using spend_utxo_supply [of u "vin tx" txundo u1, OF _ assms(3) av [OF True] assms(5)] u1(1) assms(2)
      by (simp add: value_in_def)
  next
    case False
    then have "u1 = u" using u1(1) by (auto split: if_splits)
    then show ?thesis using assms(2,3) False by (auto simp: value_in_def)
  qed
  then have "total_value u' = total_value u1 + coins_value (Some (FromTx tx nHeight))"
    unfolding u1(2) using supply_upd [of u1 ?h ?new] by (simp add: live_value coins_value_def [of None] del: live_simps)
  then show "total_value u' \<le> total_value u - value_in (u, tx) + value_out (u, tx)"
    using s FromTx_value(1) [OF out, of nHeight] by (simp add: value_out_def)
  show "values_ok u'" unfolding u1(2)
    using s FromTx_value(2) [OF out, of nHeight] by (intro values_ok_upd) (auto split: if_splits)
qed

lemma ledger_supply:
  assumes "connect_utxo c nHeight vtx u = Some (Inr (undos, u'))" "values_ok u"
    "list_all (tx_valid p nSpendHeight) (ledger c nHeight vtx u)" "list_all (\<lambda>tx. distinct (map prevout (vin tx))) vtx"
  shows "total_value u' \<le> total_value u + sum_list (map value_out (ledger c nHeight vtx u)) - sum_list (map value_in (ledger c nHeight vtx u))
    \<and> values_ok u'"
  using assms
proof (induction vtx arbitrary: u undos)
  case (Cons tx vtx)
  obtain txundo us u1 where s: "u (SerializeHash c tx) = None" "update_utxo c tx u nHeight = Some (txundo, u1)"
    "connect_utxo c nHeight vtx u1 = Some (Inr (us, u'))"
    using Cons.prems(1) by (rule connect_utxo_Cons)
  have l: "ledger c nHeight (tx # vtx) u = (u, tx) # ledger c nHeight vtx u1" using s(2) by simp
  have "tx_valid p nSpendHeight (u, tx)" "distinct (map prevout (vin tx))" using Cons.prems(3,4) l by simp_all
  note one = update_utxo_supply [OF s(2,1) Cons.prems(2) this]
  have "list_all (tx_valid p nSpendHeight) (ledger c nHeight vtx u1)" "list_all (\<lambda>tx. distinct (map prevout (vin tx))) vtx"
    using Cons.prems(3,4) l by simp_all
  from Cons.IH [OF s(3) one(2) this] show ?case using one(1) unfolding l by simp
qed simp

section \<open>A whole block\<close>

abbreviation block_ledger :: "crypto \<Rightarrow> block_data \<Rightarrow> utxo \<Rightarrow> (utxo \<times> CTransaction) list" where
  "block_ledger c block u \<equiv> ledger c (word_of_int (blk_nHeight block)) (blk_vtx block) u"

text \<open>What the block mints: the outputs, less the inputs, and the fees that are not paid out.\<close>

definition minted :: "(utxo \<times> CTransaction) list \<Rightarrow> int" where
  "minted ls = sum_list (map value_out ls) - sum_list (map value_in ls) + sum_list (map fee ls)"

definition expected_mint :: "connect_env \<Rightarrow> block_data \<Rightarrow> int \<Rightarrow> (utxo \<times> CTransaction) list \<Rightarrow> CAmount" where
  "expected_mint env block h ls =
     GetBlockValue (ce_testnet env) h + (if blk_IsProofOfStake (blk_vtx block) then 0 else word_of_int (sum_list (map fee ls)))"

text \<open>
  The rules for a block on the coins \<open>u\<close>, whose parent has the hash \<open>hash\<close> and the height \<open>h\<close>:
  the period of proof of work or stake, transactions that can be connected one after the
  other, their amounts and maturity, the limit on signature operations, the scripts, the
  reward.
\<close>

definition block_valid ::
  "crypto \<Rightarrow> (bytes \<Rightarrow> 256 word \<Rightarrow> bytes \<Rightarrow> bool) \<Rightarrow> connect_env \<Rightarrow> block_data \<Rightarrow> txid \<Rightarrow> int \<Rightarrow> utxo
   \<Rightarrow> CTxInUndo list list \<Rightarrow> utxo \<Rightarrow> bool" where
  "block_valid c Verify env block hash h u undos u' \<longleftrightarrow>
     (blk_nHeight block \<le> ce_height_last_PoW env \<longleftrightarrow> \<not> blk_IsProofOfStake (blk_vtx block))
     \<and> connect_utxo c (word_of_int (blk_nHeight block)) (blk_vtx block) u = Some (Inr (undos, u'))
     \<and> list_all (tx_valid (ce_params env) (h + 1)) (block_ledger c block u)
     \<and> sigops_ok 0 (block_ledger c block u)
     \<and> (block_fScriptChecks env block \<longrightarrow>
          list_all (succeeds c Verify) (concat (map (checks_of (block_flags env block)) (block_ledger c block u))))
     \<and> IsBlockValueValid env hash (expected_mint env block h (block_ledger c block u)) (word_of_int (minted (block_ledger c block u)))"

text \<open>What the theorems assume of a block and its environment.\<close>

definition block_context :: "connect_env \<Rightarrow> block_data \<Rightarrow> txid \<Rightarrow> int \<Rightarrow> CAmount \<Rightarrow> bool" where
  "block_context env block hash h nMoneySupply \<longleftrightarrow>
     blk_pprev block = Some (hash, h, nMoneySupply) \<and> hash \<noteq> 0 \<and> ce_mapBlockIndex env hash = Some h
     \<and> blk_hash block \<noteq> ce_hashGenesisBlock env \<and> ce_UpdateZSCHSupply env
     \<and> list_all (\<lambda>tx. \<not> ContainsZerocoins tx) (blk_vtx block) \<and> 0 \<le> p_max (ce_params env) \<and> p_max (ce_params env) < 2 ^ 60"

lemma shows_coins_SetBestBlock:
  "shows_coins ok known utxo cache u h \<Longrightarrow> cache_inv ok known utxo (SetBestBlock cache hash) \<and> cache_utxo utxo (SetBestBlock cache hash) = u
    \<and> hashBlock (SetBestBlock cache hash) = hash"
  by (simp add: shows_coins_def)

lemma finish_block_iff:
  assumes "block_context env block hash h ms"
  shows "finish_block c Verify env block tot cache = Some (Inr (vtxundo, nMoneySupply, cache')) \<longleftrightarrow>
    IsBlockValueValid env hash
      (GetBlockValue (ce_testnet env) h + (if blk_IsProofOfStake (blk_vtx block) then 0 else ct_nFees tot))
      (ct_nValueOut tot - ct_nValueIn tot + ct_nFees tot)
    \<and> (block_fScriptChecks env block \<and> ce_nScriptCheckThreads env \<noteq> 0 \<longrightarrow> list_all (succeeds c Verify) (ct_checks tot))
    \<and> vtxundo = tl (ct_undos tot) \<and> nMoneySupply = ms + (ct_nValueOut tot - ct_nValueIn tot)
    \<and> cache' = SetBestBlock cache (blk_hash block)"
  using assms by (auto simp: finish_block_def block_context_def Let_def)

context coins_view
begin

abbreviation "run_loop c Verify env block \<equiv>
  connect_loop c Verify env view (word_of_int (blk_nHeight block)) (block_fScriptChecks env block) (block_flags env block)
    (blk_vtx block) new_totals"

lemma ConnectBlock_full_loop:
  assumes "cache_inv ok known utxo cache" "hash = cache_best best cache" "block_context env block hash h ms"
    "blk_nHeight block \<le> ce_height_last_PoW env \<longleftrightarrow> \<not> blk_IsProofOfStake (blk_vtx block)"
  shows "\<exists>cache1. at_coins cache1 (cache_utxo utxo cache) hash
    \<and> ConnectBlock_full c Verify env view block cache =
      and_then (run_loop c Verify env block cache1) (\<lambda>(tot, cache). finish_block c Verify env block tot cache)"
proof -
  obtain h0 cache1 where g: "cache_GetBestBlock view cache = (h0, cache1)" by fastforce
  note b = cache_GetBestBlock_ok [OF assms(1) g]
  have h0: "h0 = hash" using b assms(2) by simp
  moreover have "hashBlock cache1 = h0" using g by (auto simp: cache_GetBestBlock_def split: if_splits prod.splits)
  ultimately have "at_coins cache1 (cache_utxo utxo cache) hash"
    using b assms(3) by (simp add: shows_coins_def block_context_def)
  then show ?thesis
    using g h0 assms(3,4) by (intro exI [of _ cache1]) (auto simp: ConnectBlock_full_def Let_def block_context_def)
qed

lemma block_context_simps:
  assumes "block_context env block hash h ms"
  shows "ce_mapBlockIndex env hash = Some h" "list_all (\<lambda>tx. \<not> HasZerocoinSpendInputs tx) (blk_vtx block)"
    "0 \<le> p_max (ce_params env)" "p_max (ce_params env) < 2 ^ 62" "list_all (\<lambda>tx. \<not> ContainsZerocoins tx) (blk_vtx block)"
  using assms by (auto simp: block_context_def ContainsZerocoins_def list_all_iff)

text \<open>The totals behind the loop.\<close>

lemma run_loop_totals:
  assumes "at_coins cache u hash" "block_context env block hash h ms" "run_loop c Verify env block cache = Some (Inr (tot, cache'))"
  shows "\<exists>undos u'. connect_utxo c (word_of_int (blk_nHeight block)) (blk_vtx block) u = Some (Inr (undos, u')) \<and> at_coins cache' u' hash
    \<and> list_all (tx_valid (ce_params env) (h + 1)) (block_ledger c block u) \<and> ct_undos tot = undos \<and> sigops_ok 0 (block_ledger c block u)
    \<and> ct_nValueIn tot = word_of_int (sum_list (map value_in (block_ledger c block u)))
    \<and> ct_nValueOut tot = word_of_int (sum_list (map value_out (block_ledger c block u)))
    \<and> ct_nFees tot = word_of_int (sum_list (map fee (block_ledger c block u)))
    \<and> ct_checks tot = (if block_fScriptChecks env block \<and> ce_nScriptCheckThreads env \<noteq> 0
        then concat (map (checks_of (block_flags env block)) (block_ledger c block u)) else [])
    \<and> (block_fScriptChecks env block \<and> ce_nScriptCheckThreads env = 0 \<longrightarrow>
        list_all (succeeds c Verify) (concat (map (checks_of (block_flags env block)) (block_ledger c block u))))"
  using connect_loop_at [OF assms(1) block_context_simps(1-4) [OF assms(2)] assms(3)] by (auto simp: totals_grow_def new_totals_def)

lemma ConnectBlock_full_sound:
  assumes "cache_inv ok known utxo cache" "hash = cache_best best cache" "block_context env block hash h ms"
    "ConnectBlock_full c Verify env view block cache = Some (Inr (vtxundo, nMoneySupply, cache'))"
  shows "\<exists>undos. block_valid c Verify env block hash h (cache_utxo utxo cache) undos (cache_utxo utxo cache')
    \<and> vtxundo = tl undos \<and> cache_inv ok known utxo cache' \<and> hashBlock cache' = blk_hash block
    \<and> nMoneySupply = ms + word_of_int (sum_list (map value_out (block_ledger c block (cache_utxo utxo cache)))
        - sum_list (map value_in (block_ledger c block (cache_utxo utxo cache))))"
proof -
  let ?u = "cache_utxo utxo cache"
  have period: "blk_nHeight block \<le> ce_height_last_PoW env \<longleftrightarrow> \<not> blk_IsProofOfStake (blk_vtx block)"
    using assms(3,4) by (auto simp: ConnectBlock_full_def block_context_def Let_def split: prod.splits if_splits)
  obtain cache1 where c1: "at_coins cache1 ?u hash" "ConnectBlock_full c Verify env view block cache =
      and_then (run_loop c Verify env block cache1) (\<lambda>(tot, cache). finish_block c Verify env block tot cache)"
    using ConnectBlock_full_loop [OF assms(1-3) period] by blast
  obtain tot cache2 where loop: "run_loop c Verify env block cache1 = Some (Inr (tot, cache2))"
    and res: "finish_block c Verify env block tot cache2 = Some (Inr (vtxundo, nMoneySupply, cache'))"
    using assms(4) unfolding c1(2) and_then_Inr by auto
  note tot = run_loop_totals [OF c1(1) assms(3) loop] and res = res [unfolded finish_block_iff [OF assms(3)]]
  obtain undos u' where u': "connect_utxo c (word_of_int (blk_nHeight block)) (blk_vtx block) ?u = Some (Inr (undos, u'))"
    "at_coins cache2 u' hash" "ct_undos tot = undos" using tot by blast
  have "block_valid c Verify env block hash h ?u undos u'"
    using period tot u' res by (auto simp: block_valid_def expected_mint_def minted_def)
  then show ?thesis using shows_coins_SetBestBlock [OF u'(2)] res u'(3) tot by auto
qed

lemma ConnectBlock_full_accepts:
  assumes "cache_inv ok known utxo cache" "hash = cache_best best cache" "block_context env block hash h ms"
    "block_valid c Verify env block hash h (cache_utxo utxo cache) undos u'"
  shows "\<exists>r. ConnectBlock_full c Verify env view block cache = Some (Inr r)"
proof -
  let ?u = "cache_utxo utxo cache" and ?ls = "block_ledger c block (cache_utxo utxo cache)"
  have v: "blk_nHeight block \<le> ce_height_last_PoW env \<longleftrightarrow> \<not> blk_IsProofOfStake (blk_vtx block)"
    "connect_utxo c (word_of_int (blk_nHeight block)) (blk_vtx block) ?u = Some (Inr (undos, u'))"
    "list_all (tx_valid (ce_params env) (h + 1)) ?ls" "sigops_ok (ct_nSigOps new_totals) ?ls"
    "block_fScriptChecks env block \<Longrightarrow> list_all (succeeds c Verify) (concat (map (checks_of (block_flags env block)) ?ls))"
    "IsBlockValueValid env hash (expected_mint env block h ?ls) (word_of_int (minted ?ls))"
    using assms(4) by (simp_all add: block_valid_def new_totals_def)
  obtain cache1 where c1: "at_coins cache1 ?u hash" "ConnectBlock_full c Verify env view block cache =
      and_then (run_loop c Verify env block cache1) (\<lambda>(tot, cache). finish_block c Verify env block tot cache)"
    using ConnectBlock_full_loop [OF assms(1-3) v(1)] by blast
  note ctx = block_context_simps [OF assms(3)]
  obtain tot cache2 where loop: "run_loop c Verify env block cache1 = Some (Inr (tot, cache2))"
    using connect_loop_accepts [OF c1(1) ctx(1,5,3,4) v(2-4), where fScriptChecks = "block_fScriptChecks env block"
      and Verify = Verify and flags = "block_flags env block"] v(5) by blast
  have "finish_block c Verify env block tot cache2 = Some (Inr (tl (ct_undos tot), ms + (ct_nValueOut tot - ct_nValueIn tot),
      SetBestBlock cache2 (blk_hash block)))"
    unfolding finish_block_iff [OF assms(3)]
    using run_loop_totals [OF c1(1) assms(3) loop] v(5,6) by (auto simp: expected_mint_def minted_def)
  then show ?thesis unfolding c1(2) loop by simp
qed

end

section \<open>The reward limits the total value\<close>

lemma sint_COIN: "sint COIN = 100000000"
  using sint_int64 [of 100000000] by (simp add: COIN_def)

text \<open>\<open>32.3 * COIN\<close> is computed in binary and truncated: it is one unit less than \<open>32.3\<close> coins.\<close>

lemma GetBlockValue_eq:
  "GetBlockValue testnet nHeight =
     (if testnet \<and> nHeight < 200 \<and> nHeight > 0 then word_of_int (1000000 * 100000000)
      else if nHeight = 0 then word_of_int (22000000 * 100000000)
      else word_of_int (3230000000 - 1))"
proof -
  have "double_32_3_times_COIN div 2 ^ 21 = 3229999999"
    by (simp add: double_32_3_times_COIN_def double_32_3_def round_half_even_def sint_COIN Let_def)
  then show ?thesis by (simp add: GetBlockValue_def COIN_def)
qed

lemma GetBlockValue_bounds: "0 \<le> sint (GetBlockValue testnet nHeight)" "sint (GetBlockValue testnet nHeight) < 2 ^ 52"
  using sint_int64 [of "1000000 * 100000000"] sint_int64 [of "22000000 * 100000000"] sint_int64 [of "3230000000 - 1"]
  by (simp_all add: GetBlockValue_eq)

text \<open>
  The blocks whose reward \<open>IsBlockValueValid\<close> enforces: on the active tip, not one of the budget's
  superblocks, and not at the beginning of a budget cycle while the node is not synced.
\<close>

definition reward_enforced :: "connect_env \<Rightarrow> txid \<Rightarrow> int \<Rightarrow> bool" where
  "reward_enforced env hash h \<longleftrightarrow> ce_chain_tip env = Some (hash, h)
     \<and> (if ce_mn_synced env then \<not> (ce_superblocks_active env \<and> ce_IsBudgetPaymentBlock env (h + 1))
        else (h + 1) mod ce_nBudgetCycleBlocks env \<ge> 100)"

lemma reward_enforced_le: "reward_enforced env hash h \<Longrightarrow> IsBlockValueValid env hash e m \<Longrightarrow> sint m \<le> sint e"
  by (auto simp: reward_enforced_def IsBlockValueValid_def Let_def split: if_splits)

text \<open>
  The kinds of transactions that \<open>CheckBlock\<close> allows: the first one is the only coinbase, and in
  a proof of stake block (but only there) the second one is the only coinstake.
\<close>

definition CheckBlock_kinds :: "CTransaction list \<Rightarrow> bool" where
  "CheckBlock_kinds vtx \<longleftrightarrow>
     vtx \<noteq> [] \<and> IsCoinBase (vtx ! 0) \<and> list_all (\<lambda>tx. \<not> IsCoinBase tx) (drop 1 vtx)
     \<and> (blk_IsProofOfStake vtx \<longrightarrow>
          length (vout (vtx ! 0)) = 1 \<and> CTxOut_IsEmpty (vout (vtx ! 0) ! 0) \<and> IsCoinStake (vtx ! 1)
          \<and> list_all (\<lambda>tx. \<not> IsCoinStake tx) (drop 2 vtx))"

text \<open>What \<open>CheckBlock\<close> makes sure of, with what \<open>CheckTransaction\<close> does for every transaction.\<close>

definition block_checked :: "int \<Rightarrow> CTransaction list \<Rightarrow> bool" where
  "block_checked M vtx \<longleftrightarrow> CheckBlock_kinds vtx
     \<and> list_all (\<lambda>tx. distinct (map prevout (vin tx)) \<and> total_out (vout tx) \<le> M) vtx"

abbreviation coinstakes :: "CTransaction list \<Rightarrow> int" where
  "coinstakes vtx \<equiv> int (length (filter IsCoinStake vtx))"

lemma CheckBlock_kinds_counts:
  assumes "CheckBlock_kinds vtx"
  shows "length (filter IsCoinBase vtx) = 1" "blk_IsProofOfStake vtx \<Longrightarrow> length (filter IsCoinStake vtx) \<le> 2"
proof -
  obtain tx rest where vtx: "vtx = tx # rest" using assms by (cases vtx) (auto simp: CheckBlock_kinds_def)
  then show "length (filter IsCoinBase vtx) = 1"
    using assms by (auto simp: CheckBlock_kinds_def filter_empty_conv list_all_iff)
  assume pos: "blk_IsProofOfStake vtx"
  then obtain tx2 rest2 where "rest = tx2 # rest2" using vtx by (cases rest) (auto simp: blk_IsProofOfStake_def)
  moreover from this have "filter IsCoinStake rest2 = []"
    using assms pos vtx by (auto simp: CheckBlock_kinds_def filter_empty_conv list_all_iff)
  ultimately show "length (filter IsCoinStake vtx) \<le> 2" using vtx by auto
qed

lemma ledger_snd: "connect_utxo c nHeight vtx u = Some (Inr (undos, u')) \<Longrightarrow> map snd (ledger c nHeight vtx u) = vtx"
proof (induction vtx arbitrary: u undos)
  case (Cons tx vtx)
  from Cons.prems obtain txundo us u1 where "update_utxo c tx u nHeight = Some (txundo, u1)"
    "connect_utxo c nHeight vtx u1 = Some (Inr (us, u'))" by (rule connect_utxo_Cons)
  then show ?case using Cons.IH [of u1 us] by simp
qed simp

lemma value_bounds:
  assumes "tx_valid p nSpendHeight l" "\<not> HasZerocoinSpendInputs (snd l)" "value_out l \<le> p_max p" "0 \<le> p_max p"
  shows "0 \<le> fee l"
    "\<bar>value_out l - value_in l + fee l\<bar> \<le> p_max p * (of_bool (IsCoinBase (snd l)) + of_bool (IsCoinStake (snd l)))"
proof -
  obtain u tx where l: "l = (u, tx)" by fastforce
  have out: "0 \<le> value_out l"
    using assms(1) by (auto simp: l tx_valid_def value_out_def total_out_def list_all_iff intro!: sum_list_nonneg)
  have amounts: "amounts_valid p u nSpendHeight tx" if "ordinary tx" using assms(1) that by (simp add: l tx_valid_def)
  have ins: "0 \<le> total_in u (vin tx)" "total_in u (vin tx) \<le> p_max p" if "ordinary tx"
    using amounts [OF that] total_in_nonneg by (auto simp: amounts_valid_def)
  show "0 \<le> fee l"
    using amounts by (auto simp: l fee_def value_in_def value_out_def amounts_valid_def)
  show "\<bar>value_out l - value_in l + fee l\<bar> \<le> p_max p * (of_bool (IsCoinBase (snd l)) + of_bool (IsCoinStake (snd l)))"
  proof (cases "IsCoinBase tx")
    case True
    then have "value_in l = 0" "fee l = 0" by (simp_all add: l value_in_def fee_def)
    then show ?thesis using True out assms(3,4) by (auto simp: l)
  next
    case False
    then have o: "ordinary tx" using assms(2) by (simp add: l)
    show ?thesis
    proof (cases "IsCoinStake tx")
      case True
      then have "fee l = 0" "value_in l = total_in u (vin tx)" using o by (simp_all add: l fee_def value_in_def)
      then show ?thesis using True False ins [OF o] out assms(3) by (simp add: l)
    next
      case cs: False
      then show ?thesis using False o by (simp add: l fee_def)
    qed
  qed
qed

lemma minted_bounds:
  assumes "list_all (tx_valid p nSpendHeight) ls" "list_all (\<lambda>tx. \<not> HasZerocoinSpendInputs tx) (map snd ls)"
    "block_checked (p_max p) (map snd ls)" "0 \<le> p_max p"
  shows "0 \<le> sum_list (map fee ls)" "\<bar>minted ls\<bar> \<le> p_max p * (1 + coinstakes (map snd ls))"
proof -
  have "0 \<le> sum_list (map fee ls) \<and> \<bar>minted ls\<bar> \<le>
      p_max p * (int (length (filter IsCoinBase (map snd ls))) + int (length (filter IsCoinStake (map snd ls))))"
    if "list_all (\<lambda>tx. total_out (vout tx) \<le> p_max p) (map snd ls)"
    using assms(1,2) that
  proof (induction ls)
    case (Cons l ls)
    have "value_out l \<le> p_max p" using Cons.prems(3) by (simp add: value_out_def)
    note one = value_bounds [OF _ _ this assms(4)]
    have "minted (l # ls) = (value_out l - value_in l + fee l) + minted ls" by (simp add: minted_def)
    then have "\<bar>minted (l # ls)\<bar> \<le> p_max p * (of_bool (IsCoinBase (snd l)) + of_bool (IsCoinStake (snd l)))
        + p_max p * (int (length (filter IsCoinBase (map snd ls))) + int (length (filter IsCoinStake (map snd ls))))"
      using Cons one(2) [of nSpendHeight] by (auto intro: order_trans [OF abs_triangle_ineq add_mono])
    also have "\<dots> = p_max p * (int (length (filter IsCoinBase (map snd (l # ls)))) + int (length (filter IsCoinStake (map snd (l # ls)))))"
      by (simp add: algebra_simps)
    finally show ?case using Cons one(1) [of nSpendHeight] by auto
  qed (simp add: minted_def)
  then have b: "0 \<le> sum_list (map fee ls)" "\<bar>minted ls\<bar> \<le>
      p_max p * (int (length (filter IsCoinBase (map snd ls))) + int (length (filter IsCoinStake (map snd ls))))"
    using assms(3) by (auto simp: block_checked_def list_all_iff)
  have one: "length (filter IsCoinBase (map snd ls)) = 1"
    using assms(3) by (intro CheckBlock_kinds_counts(1)) (simp add: block_checked_def)
  show "0 \<le> sum_list (map fee ls)" by (rule b(1))
  show "\<bar>minted ls\<bar> \<le> p_max p * (1 + coinstakes (map snd ls))" using b(2) unfolding one by simp
qed

text \<open>The core: rules that a valid block satisfies bound what it adds.\<close>

lemma block_valid_supply:
  assumes "block_valid c Verify env block hash h u undos u'" "block_context env block hash h ms" "reward_enforced env hash h"
    "block_checked (p_max (ce_params env)) (blk_vtx block)"
    "\<not> blk_IsProofOfStake (blk_vtx block) \<longrightarrow> p_max (ce_params env) * (1 + coinstakes (blk_vtx block)) \<le> 2 ^ 62"
    "values_ok u" "total_value u \<le> 2 ^ 61"
  shows "total_value u' \<le> total_value u + sint (GetBlockValue (ce_testnet env) h) \<and> values_ok u'"
proof -
  let ?ls = "block_ledger c block u" and ?M = "p_max (ce_params env)"
  let ?out = "sum_list (map value_out ?ls)" and ?in = "sum_list (map value_in ?ls)" and ?fees = "sum_list (map fee ?ls)"
  have conn: "connect_utxo c (word_of_int (blk_nHeight block)) (blk_vtx block) u = Some (Inr (undos, u'))"
    and valid: "list_all (tx_valid (ce_params env) (h + 1)) ?ls"
    and reward: "IsBlockValueValid env hash (expected_mint env block h ?ls) (word_of_int (minted ?ls))"
    using assms(1) by (simp_all add: block_valid_def)
  note snd = ledger_snd [OF conn]
  have M: "0 \<le> ?M" "?M < 2 ^ 60" and zc: "list_all (\<lambda>tx. \<not> HasZerocoinSpendInputs tx) (map snd ?ls)"
    using assms(2) unfolding snd by (auto simp: block_context_def ContainsZerocoins_def list_all_iff)
  let ?B = "?M * (1 + coinstakes (blk_vtx block))"
  have bounds: "0 \<le> ?fees" "\<bar>minted ?ls\<bar> \<le> ?B"
    using minted_bounds [OF valid zc _ M(1)] assms(4) unfolding snd by blast+
  have B: "?B \<le> 2 ^ 62"
  proof (cases "blk_IsProofOfStake (blk_vtx block)")
    case True
    then have "?B \<le> ?M * 3"
      using CheckBlock_kinds_counts(2) assms(4) M(1) by (intro mult_left_mono) (auto simp: block_checked_def)
    then show ?thesis using M(2) by simp
  qed (use assms(5) in simp)
  have "list_all (\<lambda>tx. distinct (map prevout (vin tx))) (blk_vtx block)"
    using assms(4) by (auto simp: block_checked_def list_all_iff)
  then have sup: "total_value u' \<le> total_value u + ?out - ?in" "values_ok u'"
    using ledger_supply [OF conn assms(6) valid] by blast+
  have "0 \<le> total_value u'" using sup(2) by (rule supply_nonneg)
  then have fees: "?fees \<le> 2 ^ 61 + 2 ^ 62"
    using sup(1) bounds(2) B assms(7) unfolding minted_def by linarith
  have mint: "sint (word_of_int (minted ?ls) :: CAmount) = minted ?ls"
    using bounds(2) B by (intro sint_int64) (auto simp: abs_le_iff)
  have fw: "sint (word_of_int ?fees :: CAmount) = ?fees" using bounds(1) fees by (intro sint_int64) auto
  have "sint (expected_mint env block h ?ls) \<le> sint (GetBlockValue (ce_testnet env) h) + ?fees"
  proof (cases "blk_IsProofOfStake (blk_vtx block)")
    case True
    then show ?thesis using bounds(1) by (simp add: expected_mint_def)
  next
    case False
    have "sint (GetBlockValue (ce_testnet env) h + word_of_int ?fees) = sint (GetBlockValue (ce_testnet env) h) + ?fees"
      using GetBlockValue_bounds [of "ce_testnet env" h] bounds(1) fees fw by (subst sint_add64) auto
    then show ?thesis using False by (simp add: expected_mint_def)
  qed
  moreover have "minted ?ls \<le> sint (expected_mint env block h ?ls)"
    using reward_enforced_le [OF assms(3) reward] mint by simp
  ultimately have "?out - ?in \<le> sint (GetBlockValue (ce_testnet env) h)" by (simp add: minted_def)
  then show ?thesis using sup by linarith
qed


section \<open>Maturity protects the coinstakes of a block\<close>

lemma emptied_inputs: "emptied u ins \<subseteq> (\<lambda>txin. out_hash (prevout txin)) ` set ins"
proof (induction ins arbitrary: u)
  case (Cons txin ins)
  show ?case
  proof (cases "u (out_hash (prevout txin))")
    case (Some coins)
    then show ?thesis using Cons.IH by (cases "Spend coins (prevout txin)") (auto simp del: live_simps split: if_splits)
  qed simp
qed simp

lemma spend_utxo_other:
  "spend_utxo u ins = Some (undos, u') \<Longrightarrow> txid \<notin> (\<lambda>txin. out_hash (prevout txin)) ` set ins \<Longrightarrow> u' txid = u txid"
proof (induction ins arbitrary: u undos)
  case (Cons txin ins)
  then obtain coins undo coins' us where "spend_utxo (u(out_hash (prevout txin) := live (Some coins'))) ins = Some (us, u')"
    by (auto split: option.splits)
  from Cons.IH [OF this] Cons.prems(2) show ?case by auto
qed simp

text \<open>Coins that a block generated are too young to be spent in the same block.\<close>

lemma young_kept:
  assumes "u txid = Some coins" "\<not> matured p nSpendHeight coins"
    "connect_utxo c nHeight vtx u = Some (Inr (undos, u'))" "list_all (tx_valid p nSpendHeight) (ledger c nHeight vtx u)"
  shows "txid \<notin> block_emptied c nHeight vtx u"
  using assms
proof (induction vtx arbitrary: u undos)
  case (Cons tx vtx)
  obtain txundo us u1 where s: "u (SerializeHash c tx) = None" "update_utxo c tx u nHeight = Some (txundo, u1)"
    "connect_utxo c nHeight vtx u1 = Some (Inr (us, u'))"
    using Cons.prems(3) by (rule connect_utxo_Cons)
  have other: "txid \<notin> (\<lambda>txin. out_hash (prevout txin)) ` set (vin tx)" if "ordinary tx"
  proof
    assume "txid \<in> (\<lambda>txin. out_hash (prevout txin)) ` set (vin tx)"
    then obtain txin where t: "txin \<in> set (vin tx)" "txid = out_hash (prevout txin)" by blast
    have "amounts_valid p u nSpendHeight tx" using Cons.prems(4) that by (simp add: tx_valid_def)
    then have "matured p nSpendHeight (the (u (out_hash (prevout txin))))"
      using t(1) by (simp add: amounts_valid_def input_ok_def list_all_iff)
    then show False using t(2) Cons.prems(1,2) by simp
  qed
  have "u1 txid = u txid"
    using s(1,2) Cons.prems(1) other spend_utxo_other [of u "vin tx"]
    by (auto simp: update_utxo_def split: if_splits)
  then have "txid \<notin> block_emptied c nHeight vtx u1"
    using Cons.IH [OF _ Cons.prems(2) s(3)] Cons.prems(1,4) s(2) by simp
  then show ?case using s(2) other emptied_inputs [of u "vin tx"] by auto
qed simp

lemma FromTx_coinstake:
  assumes "IsCoinStake tx"
  shows "live (Some (FromTx tx nHeight)) = Some (FromTx tx nHeight)"
proof -
  let ?outs = "map (\<lambda>txout. if IsUnspendable (scriptPubKey txout) then CTxOut_SetNull else txout) (vout tx)"
  obtain mark outs where "vout tx = mark # outs" "CTxOut_IsEmpty mark"
    using assms by (cases "vout tx") (auto simp: IsCoinStake_def Let_def split: if_splits)
  then have "0 < length ?outs" "\<not> CTxOut_IsNull (?outs ! 0)"
    by (auto simp: CTxOut_IsEmpty_def CTxOut_IsNull_def IsUnspendable_def)
  note out = nth_Cleanup_loop [OF this]
  have "coins_vout (FromTx tx nHeight) = Cleanup_loop ?outs"
    by (simp add: FromTx_def ClearUnspendable_def Cleanup_def)
  then have "\<not> IsPruned (FromTx tx nHeight)"
    using out \<open>\<not> CTxOut_IsNull (?outs ! 0)\<close> by (auto simp: IsPruned_def list_all_length)
  then show ?thesis by simp
qed

lemma stakes_are_kept:
  assumes "connect_utxo c nHeight vtx u = Some (Inr (undos, u'))" "list_all (tx_valid p nSpendHeight) (ledger c nHeight vtx u)"
    "sint nHeight = nSpendHeight" "0 < cp_nCoinbaseMaturity p"
  shows "stakes_kept c nHeight vtx u"
  using assms(1,2)
proof (induction vtx arbitrary: u undos)
  case (Cons tx vtx)
  obtain txundo us u1 where s: "update_utxo c tx u nHeight = Some (txundo, u1)"
    "connect_utxo c nHeight vtx u1 = Some (Inr (us, u'))"
    using Cons.prems(1) by (rule connect_utxo_Cons)
  have l: "list_all (tx_valid p nSpendHeight) (ledger c nHeight vtx u1)" using Cons.prems(2) s(1) by simp
  have "SerializeHash c tx \<notin> block_emptied c nHeight vtx u1" if "IsCoinStake tx"
  proof (rule young_kept [OF _ _ s(2) l])
    show "u1 (SerializeHash c tx) = Some (FromTx tx nHeight)"
      using s(1) FromTx_coinstake [OF that, of nHeight] by (auto simp: update_utxo_def)
    show "\<not> matured p nSpendHeight (FromTx tx nHeight)" using that assms(3,4) by (simp add: matured_def)
  qed
  then show ?case using Cons.IH [OF s(2) l] s(1) by simp
qed simp

section \<open>Properties\<close>

text \<open>
  C8: The signature cache makes no difference.  Let any sequence of calls of
  \<open>CachingTransactionSignatureChecker::VerifySignature\<close> share a cache that starts empty, with any choice of
  evicted entries.  Every call returns what verifying the signature returns, and the cache
  never holds more than one entry more than \<open>-maxsigcachesize\<close>.
\<close>

theorem signature_cache_transparent:
  assumes "0 \<le> nMaxCacheSize"
  shows "fst (verify_all Verify nMaxCacheSize calls []) = map (\<lambda>k. Verify (call_key k) (call_hash k) (call_sig k)) calls
    \<and> int (length (snd (verify_all Verify nMaxCacheSize calls []))) \<le> nMaxCacheSize + 1"
  using assms verify_all_ok [where s = "[]" and Verify = Verify and n = nMaxCacheSize and ks = calls] by simp

definition witness_calls :: "sig_call list" where
  "witness_calls = [\<lparr>call_store = True, call_rand = (\<lambda>_. 0), call_sig = [1], call_key = [1], call_hash = 7\<rparr>,
     \<lparr>call_store = True, call_rand = (\<lambda>_. 0), call_sig = [1], call_key = [1], call_hash = 7\<rparr>,
     \<lparr>call_store = False, call_rand = (\<lambda>_. 0), call_sig = [1], call_key = [2], call_hash = 7\<rparr>]"

theorem signature_cache_transparent_witness:
  "fst (verify_all (\<lambda>key h sig. sig = key) 1 witness_calls []) = [True, True, False]"
proof -
  have "fst (verify_all (\<lambda>key h sig. sig = key) 1 witness_calls []) = map (\<lambda>k. call_sig k = call_key k) witness_calls"
    using signature_cache_transparent [of 1 "\<lambda>key h sig. sig = key" witness_calls] by simp
  then show ?thesis by (simp add: witness_calls_def)
qed

text \<open>
  C6: \<open>CheckInputs\<close> decides whether a transaction may spend its inputs.  On a cache whose best
  block is known, it returns without a failed assertion.  It accepts a transaction that
  spends coins of the view if and only if every input is available, is mature when it is
  generated by a block, and has an amount in range, their sum is in range, the outputs are not
  negative and are worth no more than the inputs (except in a coinstake), and every script
  succeeds.  With a queue, the scripts are not run and the checks are returned.
\<close>

theorem CheckInputs_decides:
  assumes "work_inv ec cache" "hashBlock cache \<noteq> 0" "mapBlockIndex (hashBlock cache) = Some nHeight" "ordinary tx"
    "0 \<le> p_max p" "p_max p < 2 ^ 62"
  shows "\<exists>r. CheckInputs c Verify p mapBlockIndex (cache_view (CCoinsViewDB ec)) tx cache True flags fQueue = Some r
    \<and> ((\<exists>vChecks cache'. r = Inr (vChecks, cache')) \<longleftrightarrow>
         amounts_valid p (work_utxo ec cache) (nHeight + 1) tx
         \<and> (fQueue \<or> list_all (succeeds c Verify) (script_checks (work_utxo ec cache) tx flags 0 (vin tx))))
    \<and> (\<forall>vChecks cache'. r = Inr (vChecks, cache') \<longrightarrow>
         vChecks = (if fQueue then script_checks (work_utxo ec cache) tx flags 0 (vin tx) else [])
         \<and> work_inv ec cache' \<and> work_utxo ec cache' = work_utxo ec cache \<and> hashBlock cache' = hashBlock cache)"
proof -
  have "shows_coins (tip_inv ec) cache_known (tip_utxo ec) cache (work_utxo ec cache) (hashBlock cache)"
    using assms(1,2) by (simp add: shows_coins_def)
  note at = tip.CheckInputs_at [where mapBlockIndex = mapBlockIndex, OF this assms(3-6), of c Verify True flags fQueue]
  obtain r where r: "CheckInputs c Verify p mapBlockIndex (cache_view (CCoinsViewDB ec)) tx cache True flags fQueue = Some r"
    using at by blast
  show ?thesis
  proof (cases r)
    case (Inl e)
    then show ?thesis using at r by auto
  next
    case (Inr q)
    then show ?thesis using at r by (cases q) (auto simp: shows_coins_def)
  qed
qed

text \<open>
  C1: \<open>ConnectBlock\<close> refines the rules for a block.  On a cache whose best block is the parent of
  the block, without zerocoins, it connects the block if and only if the block is valid for
  the unspent coins: the period of proof of work or stake fits, the transactions can be
  connected in their order, inputs are mature and pay for the outputs, the signature
  operations stay within the limit, every script succeeds (when scripts are checked, with or
  without threads), and no more than the reward and the fees is minted.  Then the cache
  shows the coins behind the block, and the undo data, the money supply and the best block are
  those of the block.
\<close>

theorem ConnectBlock_accepts_valid_blocks:
  assumes "work_inv ec cache" "hash = cache_best (cache_best db_best_block) cache" "block_context env block hash h nMoneySupplyPrev"
  shows "((\<exists>r. ConnectBlock_full c Verify env (cache_view (CCoinsViewDB ec)) block cache = Some (Inr r)) \<longleftrightarrow>
      (\<exists>undos u. block_valid c Verify env block hash h (work_utxo ec cache) undos u))
    \<and> (\<forall>vtxundo nMoneySupply cache'.
        ConnectBlock_full c Verify env (cache_view (CCoinsViewDB ec)) block cache = Some (Inr (vtxundo, nMoneySupply, cache')) \<longrightarrow>
        work_inv ec cache' \<and> hashBlock cache' = blk_hash block
        \<and> (\<exists>undos. block_valid c Verify env block hash h (work_utxo ec cache) undos (work_utxo ec cache') \<and> vtxundo = tl undos)
        \<and> nMoneySupply = nMoneySupplyPrev + word_of_int (sum_list (map value_out (block_ledger c block (work_utxo ec cache)))
            - sum_list (map value_in (block_ledger c block (work_utxo ec cache)))))"
proof (intro conjI iffI allI impI)
  assume "\<exists>r. ConnectBlock_full c Verify env (cache_view (CCoinsViewDB ec)) block cache = Some (Inr r)"
  then obtain vtxundo nMoneySupply cache' where
    "ConnectBlock_full c Verify env (cache_view (CCoinsViewDB ec)) block cache = Some (Inr (vtxundo, nMoneySupply, cache'))" by auto
  from tip.ConnectBlock_full_sound [OF assms this] show "\<exists>undos u. block_valid c Verify env block hash h (work_utxo ec cache) undos u"
    by blast
next
  assume "\<exists>undos u. block_valid c Verify env block hash h (work_utxo ec cache) undos u"
  then show "\<exists>r. ConnectBlock_full c Verify env (cache_view (CCoinsViewDB ec)) block cache = Some (Inr r)"
    using tip.ConnectBlock_full_accepts [OF assms] by blast
qed (use tip.ConnectBlock_full_sound [OF assms] in blast)+

text \<open>
  C2: A block adds no more than its reward to the money, where the reward is enforced: let
  \<open>ConnectBlock\<close> accept a block on the active tip, without zerocoins, that is neither a superblock of
  the budget (when the node is synced) nor, when it is not synced, among the first hundred
  blocks of a budget cycle (\<open>IsBlockValueValid\<close> accepts these whatever they mint).  Let its transactions
  have passed \<open>CheckBlock\<close>; in a proof of work block, where \<open>CheckBlock\<close> does not limit the number
  of coinstakes, let them be so few that the amounts cannot leave 64 bits.  Let the unspent outputs
  before the block not be negative and be worth at most \<open>2 ^ 61\<close> in total.  Then the total
  value of the unspent coins grows by at most \<open>GetBlockValue\<close> of the parent's height, and no
  unspent output becomes negative.
\<close>

theorem block_reward_limits_supply:
  assumes "work_inv ec cache" "hash = cache_best (cache_best db_best_block) cache" "block_context env block hash h nMoneySupplyPrev"
    "reward_enforced env hash h" "block_checked (p_max (ce_params env)) (blk_vtx block)"
    "\<not> blk_IsProofOfStake (blk_vtx block) \<longrightarrow> p_max (ce_params env) * (1 + coinstakes (blk_vtx block)) \<le> 2 ^ 62"
    "values_ok (work_utxo ec cache)" "total_value (work_utxo ec cache) \<le> 2 ^ 61"
    "ConnectBlock_full c Verify env (cache_view (CCoinsViewDB ec)) block cache = Some (Inr (vtxundo, nMoneySupply, cache'))"
  shows "total_value (work_utxo ec cache') \<le> total_value (work_utxo ec cache) + sint (GetBlockValue (ce_testnet env) h)
    \<and> values_ok (work_utxo ec cache')"
proof -
  obtain undos where "block_valid c Verify env block hash h (work_utxo ec cache) undos (work_utxo ec cache')"
    using tip.ConnectBlock_full_sound [OF assms(1-3,9)] by blast
  then show ?thesis by (rule block_valid_supply [OF _ assms(3-8)])
qed

text \<open>
  C4: Disconnecting a block undoes connecting it.  Let \<open>ConnectBlock\<close> connect a block that is not the
  first one, has no zerocoins and has passed \<open>CheckBlock\<close> to a cache whose unspent coins are well
  formed, with a positive maturity of generated coins, and let the undo data be read back.  \<open>DisconnectBlock\<close> then succeeds, reports no inconsistency, sets the best block
  back, and the cache shows exactly the coins it showed before the block, except that the coins
  of which the block spent the last output, and only these, have lost the coinstake flag.
\<close>

theorem DisconnectBlock_undoes_ConnectBlock:
  assumes "work_inv ec cache" "good_utxo (work_utxo ec cache)" "hash = cache_best (cache_best db_best_block) cache"
    "block_context env block hash h nMoneySupplyPrev" "blk_nHeight block = h + 1" "0 \<le> h" "h < 2 ^ 31 - 1"
    "0 < cp_nCoinbaseMaturity (ce_params env)" "blk_hash block \<noteq> 0" "CheckBlock_kinds (blk_vtx block)"
    "list_all (\<lambda>tx. length (vout tx) < 2 ^ 32) (blk_vtx block)"
    "ConnectBlock_full c Verify env (cache_view (CCoinsViewDB ec)) block cache = Some (Inr (vtxundo, nMoneySupply, cache'))"
  shows "\<exists>cache''. DisconnectBlock c erase (cache_view (CCoinsViewDB ec)) (blk_hash block) hash (word_of_int (blk_nHeight block))
        (Some (Some vtxundo)) (blk_vtx block) cache' = Some (Inr (True, cache''))
    \<and> work_inv ec cache'' \<and> hashBlock cache'' = hash
    \<and> work_utxo ec cache'' =
        forget_stake (block_emptied c (word_of_int (blk_nHeight block)) (blk_vtx block) (work_utxo ec cache)) (work_utxo ec cache)"
proof -
  let ?n = "word_of_int (blk_nHeight block) :: int32" and ?u = "work_utxo ec cache"
  obtain undos where v: "block_valid c Verify env block hash h ?u undos (work_utxo ec cache')" "vtxundo = tl undos"
    "work_inv ec cache'" "hashBlock cache' = blk_hash block"
    using tip.ConnectBlock_full_sound [OF assms(1,3,4,12)] by blast
  then have conn: "connect_utxo c ?n (blk_vtx block) ?u = Some (Inr (undos, work_utxo ec cache'))"
    and valid: "list_all (tx_valid (ce_params env) (h + 1)) (block_ledger c block ?u)"
    by (simp_all add: block_valid_def)
  have n: "sint ?n = h + 1" unfolding assms(5) using assms(6,7) by (intro sint_int32) simp_all
  then have "?n \<noteq> 0" using assms(6) by (metis add.commute add_strict_increasing less_irrefl sint_0 zero_less_one)
  moreover have "list_all good_tx (blk_vtx block)"
    unfolding list_all_iff
  proof
    fix tx assume tx: "tx \<in> set (blk_vtx block)"
    also have "set (blk_vtx block) = snd ` set (block_ledger c block ?u)"
      by (subst set_map [symmetric]) (simp only: ledger_snd [OF conn])
    finally obtain v where "(v, tx) \<in> set (block_ledger c block ?u)" by auto
    then have "tx_valid (ce_params env) (h + 1) (v, tx)" using valid by (simp add: list_all_iff)
    then show "good_tx tx" using assms(11) tx by (auto simp: list_all_iff good_tx_def tx_valid_def)
  qed
  moreover have "list_all (\<lambda>tx. ContainsZerocoins tx \<longrightarrow> erase tx) (blk_vtx block)"
    using assms(4) by (auto simp: block_context_def list_all_iff)
  moreover have "stakes_kept c ?n (blk_vtx block) ?u" by (rule stakes_are_kept [OF conn valid n assms(8)])
  moreover have "blk_vtx block \<noteq> []" "IsCoinBase (hd (blk_vtx block))"
    using assms(10) by (auto simp: CheckBlock_kinds_def hd_conv_nth)
  ultimately show ?thesis
    unfolding v(2) using tip.DisconnectBlock_undoes [OF v(3) assms(2) conn refl _ _ _ _ v(4) assms(9)] by blast
qed

definition witness_params :: check_params where
  "witness_params = \<lparr>cp_nMaxMoneyOut = main_nMaxMoneyOut, cp_nCoinbaseMaturity = 1\<rparr>"

definition witness_env :: connect_env where
  "witness_env = \<lparr>ce_params = witness_params, ce_testnet = False, ce_hashGenesisBlock = 1, ce_height_last_PoW = 200,
     ce_height_start_BIP65 = 100, ce_nBudgetCycleBlocks = 43200, ce_TotalBlocksEstimate = 0, ce_nScriptCheckThreads = 1,
     ce_mapBlockIndex = [11 \<mapsto> 7], ce_chain_tip = Some (11, 7), ce_zerocoin_disabled = True,
     ce_mints_parse = (\<lambda>_. True), ce_spend_value = (\<lambda>_. 0), ce_UpdateZSCHSupply = True, ce_mn_synced = True,
     ce_superblocks_active = False, ce_IsBudgetPaymentBlock = (\<lambda>_. False)\<rparr>"

definition witness_block :: block_data where
  "witness_block = \<lparr>blk_hash = 12, blk_vtx = witness_vtx, blk_nHeight = 8, blk_pprev = Some (11, 7, 1000)\<rparr>"

abbreviation witness_spend' :: CTransaction where
  "witness_spend' \<equiv> witness_spend\<lparr>tx_nVersion := 22\<rparr>"

lemma witness_p_max: "p_max witness_params = 20000000000000000"
  using sint_int64 [of 20000000000000000] by (simp add: witness_params_def main_nMaxMoneyOut_def COIN_def)

lemma witness_output: "work_utxo witness_ec witness_work 6 = Some witness_coins"
  "output_at (work_utxo witness_ec witness_work) \<lparr>out_hash = 6, out_n = 1\<rparr> = \<lparr>nValue = 30, scriptPubKey = [0x51]\<rparr>"
  by (simp_all add: output_at_def cache_utxo_def witness_work_def witness_tip_def witness_pruned) (simp add: witness_coins_def)

lemma witness_small: "sint (30 :: CAmount) = 30" "sint (20 :: CAmount) = 20" "sint (50 :: CAmount) = 50"
  using sint_int64 [of 30] sint_int64 [of 20] sint_int64 [of 50] by simp_all

lemma witness_stake: "\<not> IsCoinStake witness_coinbase" "\<not> IsCoinStake witness_spend'"
  by (simp_all add: IsCoinStake_def witness_coinbase_def witness_spend_def)

text \<open>Coins that show the output that is spent.\<close>

lemma witness_amounts:
  assumes "u 6 = Some witness_coins"
  shows "amounts_valid witness_params u 8 witness_spend'" "total_in u (vin witness_spend) = 30"
    "script_checks u witness_spend' flags 0 (vin witness_spend') =
      [\<lparr>sc_scriptPubKey = [0x51], sc_txTo = witness_spend', sc_nIn = 0, sc_nFlags = flags\<rparr>]"
proof -
  have a: "available u \<lparr>out_hash = 6, out_n = 1\<rparr>" "output_at u \<lparr>out_hash = 6, out_n = 1\<rparr> = \<lparr>nValue = 30, scriptPubKey = [0x51]\<rparr>"
    using witness_available witness_output assms by (simp_all add: available_def output_at_def)
  show "total_in u (vin witness_spend) = 30"
    using a(2) by (simp add: total_in_def witness_spend_def witness_small)
  moreover have "matured witness_params 8 witness_coins"
    by (simp add: matured_def witness_coins_def witness_params_def sint_small32)
  ultimately show "amounts_valid witness_params u 8 witness_spend'"
    using a assms witness_p_max by (auto simp: amounts_valid_def input_ok_def total_out_def witness_spend_def witness_small)
  show "script_checks u witness_spend' flags 0 (vin witness_spend') =
      [\<lparr>sc_scriptPubKey = [0x51], sc_txTo = witness_spend', sc_nIn = 0, sc_nFlags = flags\<rparr>]"
    using a(2) by (simp add: witness_spend_def)
qed

lemma witness_succeeds:
  "succeeds witness_hash Verify \<lparr>sc_scriptPubKey = [0x51], sc_txTo = witness_spend', sc_nIn = 0, sc_nFlags = flags\<rparr>"
proof -
  have e: "EvalScript c [] [] flags checker = Inr []" for c checker
    by (simp add: EvalScript_def Let_def eval_init_at eval_loop_end MAX_SCRIPT_SIZE_def)
  have "eval_step (env_of c [0x51] flags checker) (at 0 0 []) = Inr (at 1 0 [getvch 1])" for c checker
    by (simp add: eval_step_def GetOp2_opcode disabled_opcode_def exec_opcode_def on_stack_def op_small_number_def Let_def)
  then have "eval_loop (env_of c [0x51] flags checker) (at 0 0 []) = Inr (at 1 0 [getvch 1])" for c checker
    by (subst eval_loop.simps) (simp add: eval_loop_end)
  moreover have "getvch 1 = vchTrue" by code_simp
  ultimately have "EvalScript c [] [0x51] flags checker = Inr [vchTrue]" for c checker
    by (simp add: EvalScript_def Let_def eval_init_at MAX_SCRIPT_SIZE_def)
  then show ?thesis
    using e by (simp add: CScriptCheck_run_def VerifyScript_def witness_spend_def Let_def ends_true_def
      IsPayToScriptHash_def IsPushOnly_def IsPushOnly_from.simps)
qed

lemma witness_ledger:
  "\<exists>u. block_ledger witness_hash witness_block (work_utxo witness_ec witness_work) = [(work_utxo witness_ec witness_work, witness_coinbase), (u, witness_spend')]
    \<and> u 6 = Some witness_coins"
proof -
  have "update_utxo witness_hash witness_coinbase (work_utxo witness_ec witness_work) 8 =
      Some ([], (work_utxo witness_ec witness_work)(21 := live (Some (FromTx witness_coinbase 8))))"
    using witness_vtx_ordinary by (simp add: update_utxo_def witness_ids)
  then show ?thesis using witness_output by (auto simp: witness_block_def witness_vtx_def split: option.split)
qed

lemma witness_counts: "GetSigOpCount [1, 2] False = Some 0" "GetSigOpCount [] False = Some 0"
  "GetSigOpCount [0x51] False = Some 0" "GetSigOpCount [0x52] False = Some 0"
  by (simp_all add: GetSigOpCount_def sigop_loop.simps GetOp_def GetOp2_def GetOp2_operand_def)

lemma witness_sigops:
  assumes "u' 6 = Some witness_coins"
  shows "sigops_ok 0 [(u, witness_coinbase), (u', witness_spend')]"
proof -
  have "GetLegacySigOpCount witness_coinbase = Some 0" "GetLegacySigOpCount witness_spend' = Some 0"
    by (simp_all add: witness_counts GetLegacySigOpCount_def witness_coinbase_def witness_spend_def)
  moreover have "output_at u' \<lparr>out_hash = 6, out_n = 1\<rparr> = \<lparr>nValue = 30, scriptPubKey = [0x51]\<rparr>"
    using assms witness_output by (simp add: output_at_def)
  then have "p2sh_count u' witness_spend' = Some 0"
    by (simp add: GetP2SHSigOpCount_def witness_spend_def IsPayToScriptHash_def)
  ultimately show ?thesis using witness_vtx_ordinary by (simp add: sigops_after_def)
qed

lemma witness_context: "block_context witness_env witness_block 11 7 1000"
  using witness_p_max witness_vtx_ordinary
  by (simp add: block_context_def witness_block_def witness_env_def witness_vtx_def)
     (simp add: ContainsZerocoins_def HasZerocoinMintOutputs_def HasZerocoinSpendInputs_def CTxOut_IsZerocoinMint_def
       IsZerocoinMint_def StartsWithOpcode_def witness_coinbase_def witness_spend_def CTxIn_IsZerocoinSpend_def
       HasZerocoinPublicSpendInputs_def IsZerocoinSpend_def)

lemma witness_valid: "\<exists>undos u. block_valid witness_hash Verify witness_env witness_block 11 7 (work_utxo witness_ec witness_work) undos u"
proof -
  let ?ls = "block_ledger witness_hash witness_block (work_utxo witness_ec witness_work)"
  obtain u where l: "?ls = [(work_utxo witness_ec witness_work, witness_coinbase), (u, witness_spend')]" "u 6 = Some witness_coins"
    using witness_ledger by blast
  obtain undos u' where "connect_utxo witness_hash 8 witness_vtx (work_utxo witness_ec witness_work) = Some (Inr (undos, u'))"
    by (rule witness_connects)
  moreover have "list_all (tx_valid witness_params 8) ?ls"
    using l witness_amounts [where u = u, OF l(2)] witness_vtx_ordinary
    by (simp add: tx_valid_def) (simp add: witness_coinbase_def witness_spend_def total_out_def witness_small)
  moreover have "sigops_ok 0 ?ls" using witness_sigops [where u' = u, OF l(2)] l(1) by simp
  moreover have "list_all (succeeds witness_hash Verify) (concat (map (checks_of flags) ?ls))" for flags
    using l(1) witness_amounts(3) [where u = u, OF l(2)] witness_succeeds witness_vtx_ordinary by (simp add: checks_of_def)
  moreover have "minted ?ls = 50" "sum_list (map fee ?ls) = 10"
    using l(1) witness_amounts(2) [where u = u, OF l(2)] witness_vtx_ordinary witness_stake
    by (simp_all add: minted_def value_in_def value_out_def fee_def)
       (simp_all add: witness_coinbase_def witness_spend_def total_out_def witness_small)
  moreover have "\<not> blk_IsProofOfStake witness_vtx" using witness_stake by (simp add: blk_IsProofOfStake_def witness_vtx_def)
  moreover have "sint (GetBlockValue False 7 + 10) = 3230000009"
    using sint_int64 [of 3230000009] by (simp add: GetBlockValue_eq)
  ultimately show ?thesis
    using witness_small
    by (auto simp: block_valid_def witness_block_def witness_env_def IsBlockValueValid_def expected_mint_def)
qed

theorem CheckInputs_decides_witness:
  "\<exists>cache'. CheckInputs witness_hash (\<lambda>_ _ _. False) witness_params [11 \<mapsto> 7] (cache_view (CCoinsViewDB witness_ec)) witness_spend' witness_work
      True SCRIPT_VERIFY_P2SH False = Some (Inr ([], cache'))
    \<and> work_utxo witness_ec cache' = work_utxo witness_ec witness_work"
proof -
  let ?check = "list_all (succeeds witness_hash (\<lambda>_ _ _. False)) (script_checks (work_utxo witness_ec witness_work) witness_spend' SCRIPT_VERIFY_P2SH 0 (vin witness_spend'))"
  have "hashBlock witness_work = 11" by (simp add: witness_work_def)
  then have h: "hashBlock witness_work \<noteq> 0" "[11 \<mapsto> 7] (hashBlock witness_work) = Some 7" by simp_all
  have m: "0 \<le> p_max witness_params" "p_max witness_params < 2 ^ 62" using witness_p_max by simp_all
  have "amounts_valid witness_params (work_utxo witness_ec witness_work) 8 witness_spend'"
    by (rule witness_amounts(1)) (rule witness_output(1))
  moreover have ?check
    using witness_amounts(3) [where u = "work_utxo witness_ec witness_work", OF witness_output(1)] witness_succeeds by simp
  ultimately show ?thesis
    using CheckInputs_decides [where mapBlockIndex = "[11 \<mapsto> 7]" and c = witness_hash and Verify = "\<lambda>_ _ _. False"
        and flags = SCRIPT_VERIFY_P2SH and fQueue = False, OF witness_work_inv h witness_vtx_ordinary(2) m]
    by auto
qed

theorem ConnectBlock_accepts_valid_blocks_witness:
  "\<exists>vtxundo nMoneySupply cache'. ConnectBlock_full witness_hash (\<lambda>_ _ _. False) witness_env (cache_view (CCoinsViewDB witness_ec)) witness_block witness_work
      = Some (Inr (vtxundo, nMoneySupply, cache'))
    \<and> hashBlock cache' = 12"
proof -
  note ok = ConnectBlock_accepts_valid_blocks [OF witness_work_inv witness_best [symmetric] witness_context, of witness_hash "\<lambda>_ _ _. False"]
  obtain vtxundo nMoneySupply cache' where c:
    "ConnectBlock_full witness_hash (\<lambda>_ _ _. False) witness_env (cache_view (CCoinsViewDB witness_ec)) witness_block witness_work
      = Some (Inr (vtxundo, nMoneySupply, cache'))"
    using ok witness_valid by fastforce
  moreover have "blk_hash witness_block = 12" by (simp add: witness_block_def)
  ultimately show ?thesis using ok by metis
qed

lemma witness_total: "total_value (work_utxo witness_ec witness_work) = 30" "values_ok (work_utxo witness_ec witness_work)"
proof -
  have "work_utxo witness_ec witness_work = [6 \<mapsto> witness_coins]"
    by (rule witness_work_utxo)
  then show "total_value (work_utxo witness_ec witness_work) = 30" "values_ok (work_utxo witness_ec witness_work)"
    by (simp_all add: total_value_def values_ok_def coins_value_def)
       (simp_all add: witness_coins_def txout_value_def CTxOut_IsNull_def CTxOut_SetNull_def witness_small)
qed

lemma witness_checked: "block_checked (p_max (ce_params witness_env)) (blk_vtx witness_block)"
  "p_max (ce_params witness_env) * (1 + coinstakes (blk_vtx witness_block)) \<le> 2 ^ 62"
proof -
  have "\<not> IsCoinBase witness_spend'" "\<not> blk_IsProofOfStake witness_vtx"
    using witness_vtx_ordinary witness_stake by (simp_all add: witness_vtx_def blk_IsProofOfStake_def)
  then show "block_checked (p_max (ce_params witness_env)) (blk_vtx witness_block)"
    "p_max (ce_params witness_env) * (1 + coinstakes (blk_vtx witness_block)) \<le> 2 ^ 62"
    using witness_stake witness_vtx_ordinary witness_p_max
    by (simp_all add: block_checked_def CheckBlock_kinds_def witness_block_def witness_env_def witness_vtx_def)
       (simp add: witness_coinbase_def witness_spend_def total_out_def witness_small)
qed

theorem block_reward_limits_supply_witness:
  "\<exists>vtxundo nMoneySupply cache'. ConnectBlock_full witness_hash (\<lambda>_ _ _. False) witness_env (cache_view (CCoinsViewDB witness_ec)) witness_block witness_work
      = Some (Inr (vtxundo, nMoneySupply, cache'))
    \<and> total_value (work_utxo witness_ec cache') \<le> 30 + 3229999999"
proof -
  obtain vtxundo nMoneySupply cache' where c:
    "ConnectBlock_full witness_hash (\<lambda>_ _ _. False) witness_env (cache_view (CCoinsViewDB witness_ec)) witness_block witness_work
      = Some (Inr (vtxundo, nMoneySupply, cache'))"
    using tip.ConnectBlock_full_accepts [OF witness_work_inv witness_best [symmetric] witness_context] witness_valid by fastforce
  have "reward_enforced witness_env 11 7" by (simp add: reward_enforced_def witness_env_def)
  moreover have "sint (GetBlockValue (ce_testnet witness_env) 7) = 3229999999"
    using sint_int64 [of 3229999999] by (simp add: GetBlockValue_eq witness_env_def)
  ultimately show ?thesis
    using block_reward_limits_supply [OF witness_work_inv witness_best [symmetric] witness_context _ witness_checked(1) _ witness_total(2) _ c]
      witness_checked(2)
      witness_total c by auto
qed

text \<open>The second transaction spends the last output of a coinstake, which loses its flag.\<close>

lemma witness_emptied: "6 \<in> block_emptied witness_hash 8 witness_vtx (work_utxo witness_ec witness_work)"
proof -
  let ?u = "(work_utxo witness_ec witness_work)(21 := live (Some (FromTx witness_coinbase 8)))"
  have "Cleanup_loop [CTxOut_SetNull, CTxOut_SetNull] = []"
    using Cleanup_loop_append [of "[CTxOut_SetNull, CTxOut_SetNull]" "[]"] by simp
  then have "\<exists>undo. Spend witness_coins \<lparr>out_hash = 6, out_n = 1\<rparr> = Some (undo, witness_coins\<lparr>coins_vout := []\<rparr>)"
    by (simp add: Spend_def Let_def Cleanup_def new_CTxInUndo_def witness_coins_def CTxOut_IsNull_def)
  moreover have "?u 6 = Some witness_coins" by (simp add: witness_work_utxo)
  ultimately have e: "6 \<in> emptied ?u (vin witness_spend')" by (auto simp: witness_spend_def IsPruned_def)
  have "update_utxo witness_hash witness_coinbase (work_utxo witness_ec witness_work) 8 = Some ([], ?u)"
    using witness_vtx_ordinary by (simp add: update_utxo_def witness_ids)
  then have "block_emptied witness_hash 8 witness_vtx (work_utxo witness_ec witness_work)
      = block_emptied witness_hash 8 [witness_spend'] ?u"
    using witness_vtx_ordinary(1) by (simp add: witness_vtx_def)
  then show ?thesis using e witness_vtx_ordinary(2) by simp
qed

theorem DisconnectBlock_undoes_ConnectBlock_witness:
  "\<exists>vtxundo nMoneySupply cache' cache''.
    ConnectBlock_full witness_hash (\<lambda>_ _ _. False) witness_env (cache_view (CCoinsViewDB witness_ec)) witness_block witness_work
      = Some (Inr (vtxundo, nMoneySupply, cache'))
    \<and> DisconnectBlock witness_hash (\<lambda>_. True) (cache_view (CCoinsViewDB witness_ec)) 12 11 8 (Some (Some vtxundo)) witness_vtx cache'
        = Some (Inr (True, cache''))
    \<and> work_utxo witness_ec cache'' = [6 \<mapsto> witness_coins\<lparr>fCoinStake := False\<rparr>]"
proof -
  obtain vtxundo nMoneySupply cache' where c:
    "ConnectBlock_full witness_hash (\<lambda>_ _ _. False) witness_env (cache_view (CCoinsViewDB witness_ec)) witness_block witness_work
      = Some (Inr (vtxundo, nMoneySupply, cache'))"
    using tip.ConnectBlock_full_accepts [OF witness_work_inv witness_best [symmetric] witness_context] witness_valid by fastforce
  have b: "blk_nHeight witness_block = 8" "blk_hash witness_block = 12" "blk_vtx witness_block = witness_vtx"
    "CheckBlock_kinds witness_vtx"
    using witness_checked(1) by (simp_all add: witness_block_def block_checked_def)
  have "6 \<in> block_emptied witness_hash 8 witness_vtx (work_utxo witness_ec witness_work)"
    by (rule witness_emptied)
  then have "forget_stake (block_emptied witness_hash 8 witness_vtx (work_utxo witness_ec witness_work)) (work_utxo witness_ec witness_work)
      = [6 \<mapsto> witness_coins\<lparr>fCoinStake := False\<rparr>]"
    by (auto simp: forget_stake_def witness_work_utxo fun_eq_iff)
  moreover have "list_all (\<lambda>tx. length (vout tx) < 2 ^ 32) witness_vtx"
    by (simp add: witness_vtx_def witness_coinbase_def witness_spend_def)
  moreover have "0 < cp_nCoinbaseMaturity (ce_params witness_env)" by (simp add: witness_env_def witness_params_def)
  ultimately show ?thesis
    using DisconnectBlock_undoes_ConnectBlock [OF witness_work_inv witness_good witness_best [symmetric] witness_context, where erase = "\<lambda>_. True", OF _ _ _ _ _ _ _ c] c b
    by auto
qed

end
