(* ===== verification/Spending.thy ===== *)
theory Spending
  imports Validation
begin

text \<open>
  What it takes to spend a coin, across the components: an output that pays to a public key
  hash, any input script that spends it, and a block that \<open>ConnectBlock\<close> accepts.  The lemmas follow the
  execution of the output's script on every stack that the input's script may leave.
\<close>

section \<open>The script of an output on any stack\<close>

lemma EvalScript_Inr:
  "EvalScript c stack script flags checker = Inr s \<longleftrightarrow>
     length script \<le> MAX_SCRIPT_SIZE \<and>
     (\<exists>st. eval_loop (env_of c script flags checker) (at 0 0 stack) = Inr st \<and> eval_vfExec st = [] \<and> s = eval_stack st)"
  by (auto simp: EvalScript_def Let_def eval_init_at split: sum.splits failure.splits)

lemma bind_ok: "bind r f = Inr b \<longleftrightarrow> (\<exists>a. r = Inr a \<and> f a = Inr b)"
  by (cases r) auto

text \<open>An opcode of the output's script, when the rest succeeds.\<close>

lemma op_Inr:
  assumes "GetOp2 (env_script env) pc = (True, pc', opcode, [])" "OP_16 < opcode" "\<not> disabled_opcode opcode" "ops < 201"
    "exec_opcode env True opcode (at pc' (ops + 1) stack) = on_stack (at pc' (ops + 1) stack) f"
    "eval_loop env (at pc ops stack) = Inr st"
  shows "\<exists>s. f stack = Inr s \<and> eval_loop env (at pc' (ops + 1) s) = Inr st"
  using assms(6) unfolding eval_loop_op [OF assms(1-4)] assms(5)
  by (auto simp: on_stack_def bind_ok split: if_splits)

lemma push_Inr:
  assumes "GetOp2 (env_script env) pc = (True, pc', opcode, v)" "opcode \<le> OP_PUSHDATA4" "eval_loop env (at pc ops stack) = Inr st"
  shows "eval_loop env (at pc' ops (stack @ [v])) = Inr st"
proof -
  obtain st' where "eval_step env (at pc ops stack) = Inr st'" "eval_loop env st' = Inr st"
    using assms(3) GetOp2_pc_less [OF assms(1)] by (subst (asm) eval_loop.simps) (auto simp: bind_ok)
  moreover from this(1) have "st' = at pc' ops (stack @ [v])"
    using assms(2) by (auto simp: eval_step_def assms(1) Let_def bind_ok split: if_splits)
  ultimately show ?thesis by simp
qed

lemma p2pkh_any_stack:
  assumes "env_script env = GetScriptForDestination (CKeyID h)" "eval_loop env (at 0 0 stack) = Inr st"
  shows "\<exists>pre sig pubkey. stack = pre @ [sig, pubkey] \<and> Hash160 (env_crypto env) pubkey = h
    \<and> eval_stack st = pre @ [if CheckSig (env_checker env) sig pubkey (fst (FindAndDelete (env_script env) (push_data [] sig)))
        then vchTrue else vchFalse]"
proof -
  note r = p2pkh_reads [OF assms(1)]
  have ex: "exec_opcode env True OP_DUP s = on_stack s op_dup" "exec_opcode env True OP_HASH160 s = on_stack s (op_hash env OP_HASH160)"
    "exec_opcode env True OP_EQUALVERIFY s = on_stack s (op_equal OP_EQUALVERIFY)"
    "exec_opcode env True OP_CHECKSIG s = on_stack s (op_checksig env OP_CHECKSIG (eval_pbegincodehash s))" for s
    by (simp_all add: exec_opcode_def)
  have dis: "\<not> disabled_opcode OP_DUP" "\<not> disabled_opcode OP_HASH160" "\<not> disabled_opcode OP_EQUALVERIFY" "\<not> disabled_opcode OP_CHECKSIG"
    by (simp_all add: disabled_opcode_def)
  obtain s1 where "op_dup stack = Inr s1" and l1: "eval_loop env (at 1 1 s1) = Inr st"
    using op_Inr [OF r(2) _ dis(1) _ ex(1) assms(2)] by auto
  then obtain s pubkey where stack: "stack = s @ [pubkey]" and s1: "s1 = s @ [pubkey, pubkey]"
    by (cases stack rule: rev_cases) (auto simp: op_dup_def)
  let ?H = "WRITEDATA 20 (Hash160 (env_crypto env) pubkey)"
  obtain s2 where "op_hash env OP_HASH160 s1 = Inr s2" and l2: "eval_loop env (at 2 2 s2) = Inr st"
    using op_Inr [OF r(3) _ dis(2) _ ex(2) l1] by (auto simp: numeral_2_eq_2)
  then have s2: "s2 = s @ [pubkey, ?H]" by (simp add: s1 op_hash_def popstack_def butlast_append vchHash_def)
  have "eval_loop env (at 23 2 (s @ [pubkey, ?H, ToByteVector h])) = Inr st"
    using push_Inr [OF r(4) _ l2] by (simp add: s2)
  then obtain s3 where "op_equal OP_EQUALVERIFY (s @ [pubkey, ?H, ToByteVector h]) = Inr s3" and l3: "eval_loop env (at 24 3 s3) = Inr st"
    using op_Inr [OF r(5) _ dis(3) _ ex(3), of 2] by (auto simp: numeral_3_eq_3)
  then have h: "Hash160 (env_crypto env) pubkey = h" and s3: "s3 = s @ [pubkey]"
    using top_two [of "s @ [pubkey]" ?H "ToByteVector h"] ToByteVector_inj [of "Hash160 (env_crypto env) pubkey" h]
    by (auto simp: op_equal_def Let_def ToByteVector_def popstack_def butlast_append split: if_splits)
  obtain s4 where s4: "op_checksig env OP_CHECKSIG 0 s3 = Inr s4" and l4: "eval_loop env (at 25 4 s4) = Inr st"
    using op_Inr [OF r(6) _ dis(4) _ ex(4) l3] by auto
  then obtain pre sig where pre: "s = pre @ [sig]"
    by (cases s rule: rev_cases) (auto simp: s3 op_checksig_def)
  have "st = at 25 4 s4" using l4 r(1) by (simp add: eval_loop_end)
  then show ?thesis
    using s4 stack h pre
    by (auto simp: s3 op_checksig_def Let_def bind_ok)
qed

text \<open>Whatever the input's script does, it has to show a public key with the hash, and a signature that the checker accepts.\<close>

lemma p2pkh_needs_signature:
  assumes "VerifyScript c input (GetScriptForDestination (CKeyID keyID)) flags checker = Inr ()"
  shows "\<exists>sig pubkey. Hash160 c pubkey = keyID
    \<and> CheckSig checker sig pubkey (fst (FindAndDelete (GetScriptForDestination (CKeyID keyID)) (push_data [] sig)))"
proof -
  obtain stack s where "EvalScript c stack (GetScriptForDestination (CKeyID keyID)) flags checker = Inr s" "ends_true s = Inr ()"
    using assms by (auto simp: VerifyScript_def Let_def bind_ok split: if_splits)
  then obtain st where st: "eval_loop (env_of c (GetScriptForDestination (CKeyID keyID)) flags checker) (at 0 0 stack) = Inr st"
    "CastToBool (last (eval_stack st))"
    by (auto simp: EvalScript_Inr ends_true_def split: if_splits)
  from p2pkh_any_stack [OF _ st(1)] st(2) show ?thesis by (fastforce split: if_splits)
qed

section \<open>Spending in a block\<close>

lemma block_checks:
  assumes "block_valid c Verify env block hash h u0 undos u'" "block_fScriptChecks env block"
    "(u, tx) \<in> set (block_ledger c block u0)" "ordinary tx" "i < length (vin tx)"
  shows "available u (prevout (vin tx ! i))
    \<and> VerifyScript c (scriptSig (vin tx ! i)) (scriptPubKey (output_at u (prevout (vin tx ! i)))) (block_flags env block)
        (TransactionSignatureChecker c Verify tx i) = Inr ()"
proof -
  let ?flags = "block_flags env block"
  have "tx_valid (ce_params env) (h + 1) (u, tx)"
    using assms(1,3) by (auto simp: block_valid_def list_all_iff)
  then have "available u (prevout (vin tx ! i))"
    using assms(4,5) by (auto simp: tx_valid_def amounts_valid_def input_ok_def list_all_iff)
  moreover have "list_all (succeeds c Verify) (checks_of ?flags (u, tx))"
    using assms(1-3) by (auto simp: block_valid_def list_all_iff)
  then have "succeeds c Verify (script_checks u tx ?flags 0 (vin tx) ! i)"
    using assms(4,5) script_checks_nth [of i "vin tx" u tx ?flags 0] by (auto simp: checks_of_def list_all_length)
  ultimately show ?thesis
    using script_checks_nth [of i "vin tx" u tx ?flags 0] assms(5) by (simp add: CScriptCheck_run_def)
qed

lemma valid_pubkey: "CPubKey_IsValid (CPubKey_Set v) \<Longrightarrow> CPubKey_Set v = v"
  by (auto simp: CPubKey_Set_def CPubKey_IsValid_def Let_def split: if_splits)

section \<open>Properties\<close>

text \<open>
  C3: Coins that pay to a public key hash are spent with a signature only.  Let \<open>ConnectBlock\<close>
  accept a block whose scripts are checked, and let the input \<open>i\<close> of a transaction of the block
  spend an output that pays to the hash of a key, as the coins are when the
  transaction is reached.  Whatever script the input has, there are a public key with this
  hash and a signature such that the key verifies the signature for the signature hash
  of this transaction and input, under the hash type that the signature ends with.
\<close>

theorem p2pkh_coins_need_signature:
  assumes "work_inv ec cache" "hash = cache_best (cache_best db_best_block) cache" "block_context env block hash h nMoneySupplyPrev"
    "ConnectBlock_full c Verify env (cache_view (CCoinsViewDB ec)) block cache = Some (Inr (vtxundo, nMoneySupply, cache'))"
    "block_fScriptChecks env block" "(u, tx) \<in> set (block_ledger c block (work_utxo ec cache))" "ordinary tx" "i < length (vin tx)"
    "scriptPubKey (output_at u (prevout (vin tx ! i))) = GetScriptForDestination (CKeyID keyID)"
  shows "available u (prevout (vin tx ! i))
    \<and> (\<exists>pubkey sig nHashType. Hash160 c pubkey = keyID
        \<and> Verify pubkey (SignatureHash c (fst (FindAndDelete (GetScriptForDestination (CKeyID keyID)) (push_data [] (sig @ [nHashType]))))
            tx i (ucast nHashType)) sig)"
proof -
  obtain undos where "block_valid c Verify env block hash h (work_utxo ec cache) undos (work_utxo ec cache')"
    using tip.ConnectBlock_full_sound [OF assms(1-4)] by blast
  note check = block_checks [OF this assms(5-8), unfolded assms(9)]
  obtain vchSig pubkey where s: "Hash160 c pubkey = keyID"
    "tx_CheckSig c Verify tx i vchSig pubkey (fst (FindAndDelete (GetScriptForDestination (CKeyID keyID)) (push_data [] vchSig)))"
    using p2pkh_needs_signature [OF check [THEN conjunct2]] by (auto simp: TransactionSignatureChecker_def)
  then obtain sig nHashType where sig: "vchSig = sig @ [nHashType]"
    by (cases vchSig rule: rev_cases) (auto simp: tx_CheckSig_def Let_def split: if_splits)
  have "CPubKey_Set pubkey = pubkey"
    using s(2) valid_pubkey [of pubkey] by (auto simp: tx_CheckSig_def Let_def split: if_splits)
  then have "Verify pubkey (SignatureHash c (fst (FindAndDelete (GetScriptForDestination (CKeyID keyID)) (push_data [] (sig @ [nHashType]))))
      tx i (ucast nHashType)) sig"
    using s(2) sig by (auto simp: tx_CheckSig_def Let_def split: if_splits)
  then show ?thesis using s(1) check by blast
qed

text \<open>A coin that pays to a key hash, and a transaction that spends it with a signature in the DER format.\<close>

definition pk_pubkey :: bytes where
  "pk_pubkey = 2 # replicate 32 0"

definition pk_sig :: bytes where
  "pk_sig = [0x30, 6, 2, 1, 1, 2, 1, 1, 1]"

definition pk_coins :: CCoins where
  "pk_coins = \<lparr>fCoinBase = False, fCoinStake = False,
     coins_vout = [\<lparr>nValue = 30, scriptPubKey = GetScriptForDestination (CKeyID 2)\<rparr>], coins_nHeight = 7, coins_nVersion = 1\<rparr>"

definition pk_tip :: "coins_db CCoinsViewCache" where
  "pk_tip = \<lparr>cache_base = \<lparr>db_map = \<lambda>_. None, db_writable = True\<rparr>, hasModifier = False, hashBlock = 11,
     cacheCoins = [(6, \<lparr>entry_coins = pk_coins, entry_flags = DIRTY OR FRESH\<rparr>)]\<rparr>"

definition pk_work :: "coins_db CCoinsViewCache CCoinsViewCache" where
  "pk_work = new_CCoinsViewCache pk_tip"

definition pk_spend :: CTransaction where
  "pk_spend = \<lparr>tx_nVersion = 22, vin = [\<lparr>prevout = \<lparr>out_hash = 6, out_n = 0\<rparr>,
       scriptSig = push_data (push_data [] pk_sig) pk_pubkey, nSequence = - 1\<rparr>],
     vout = [\<lparr>nValue = 20, scriptPubKey = [0x52]\<rparr>], nLockTime = 0\<rparr>"

definition pk_block :: block_data where
  "pk_block = \<lparr>blk_hash = 12, blk_vtx = [witness_coinbase, pk_spend], blk_nHeight = 8, blk_pprev = Some (11, 7, 1000)\<rparr>"

definition pk_Verify :: "bytes \<Rightarrow> 256 word \<Rightarrow> bytes \<Rightarrow> bool" where
  "pk_Verify pubkey sighash sig \<longleftrightarrow> pubkey = pk_pubkey \<and> sig = butlast pk_sig"

lemma pk_spend_kind: "ordinary pk_spend" "\<not> IsCoinStake pk_spend" "\<not> ContainsZerocoins pk_spend" "\<not> ContainsZerocoins witness_coinbase"
  by (simp_all add: pk_spend_def IsCoinBase_def IsCoinStake_def HasZerocoinSpendInputs_def COutPoint_IsNull_def
    CTxIn_IsZerocoinSpend_def HasZerocoinPublicSpendInputs_def ContainsZerocoins_def HasZerocoinMintOutputs_def
    CTxOut_IsZerocoinMint_def IsZerocoinMint_def IsZerocoinSpend_def StartsWithOpcode_def witness_coinbase_def push_data_def pk_sig_def)

lemma pk_id: "SerializeHash witness_hash pk_spend = 22"
  by (simp add: SerializeHash_def Hash256_def witness_hash_def Serialize_CTransaction_def pk_spend_def WRITEDATA_def nat_le_numeral)

lemma pk_utxo: "work_utxo witness_ec pk_work = [6 \<mapsto> pk_coins]" "work_inv witness_ec pk_work"
  "cache_best (cache_best db_best_block) pk_work = 11"
proof -
  have empty: "db_coins witness_ec (cache_base pk_tip) = (\<lambda>_. None)" by (simp add: pk_tip_def db_coins_def fun_eq_iff)
  have "\<not> IsPruned pk_coins" by (simp add: pk_coins_def IsPruned_def CTxOut_IsNull_def)
  then have "tip_inv witness_ec pk_tip" "tip_utxo witness_ec pk_tip = [6 \<mapsto> pk_coins]"
    using empty by (simp_all add: cache_inv_def cache_ok_def cache_utxo_def pk_tip_def entry_ok_def db_inv_def fun_eq_iff)
  note t = tip.new_CCoinsViewCache_ok [OF this(1)] this(2)
  show "work_utxo witness_ec pk_work = [6 \<mapsto> pk_coins]" "work_inv witness_ec pk_work"
    "cache_best (cache_best db_best_block) pk_work = 11"
    using t by (simp_all add: pk_work_def) (simp add: cache_best_def pk_tip_def)
qed

lemma pk_succeeds: "VerifyScript witness_hash (push_data (push_data [] pk_sig) pk_pubkey) (GetScriptForDestination (CKeyID 2)) (SCRIPT_VERIFY_P2SH OR SCRIPT_VERIFY_DERSIG)
    (TransactionSignatureChecker witness_hash pk_Verify pk_spend 0) = Inr ()"
proof -
  let ?spk = "GetScriptForDestination (CKeyID 2)" and ?flags = "SCRIPT_VERIFY_P2SH OR SCRIPT_VERIFY_DERSIG"
    and ?checker = "TransactionSignatureChecker witness_hash pk_Verify pk_spend 0"
  let ?env = "env_of witness_hash ?spk ?flags ?checker"
  have flags: "\<not> flag_set ?env SCRIPT_VERIFY_LOW_S" "\<not> flag_set ?env SCRIPT_VERIFY_STRICTENC"
    by (simp_all add: flag_set_def SCRIPT_VERIFY_P2SH_def SCRIPT_VERIFY_DERSIG_def SCRIPT_VERIFY_LOW_S_def SCRIPT_VERIFY_STRICTENC_def)
  have lens: "length pk_sig = 9" "length pk_pubkey = 33" by (simp_all add: pk_sig_def pk_pubkey_def)
  have "Hash160 witness_hash pk_pubkey = 2" by (simp add: Hash160_def witness_hash_def)
  moreover have "IsValidSignatureEncoding pk_sig"
    by (simp add: IsValidSignatureEncoding_def pk_sig_def Let_def)
  then have "CheckSignatureEncoding ?env pk_sig = Inr ()"
    using flags by (simp add: CheckSignatureEncoding_def)
  moreover have "CheckPubKeyEncoding ?env pk_pubkey = Inr ()"
    using flags by (simp add: CheckPubKeyEncoding_def)
  moreover have "CheckSig ?checker pk_sig pk_pubkey ?spk"
    by (simp add: TransactionSignatureChecker_def tx_CheckSig_def pk_Verify_def Let_def)
       (simp add: pk_pubkey_def pk_sig_def CPubKey_Set_def CPubKey_IsValid_def GetLen_def COMPRESSED_PUBLIC_KEY_SIZE_def)
  ultimately have "bind (EvalScript witness_hash [pk_sig, pk_pubkey] ?spk ?flags ?checker) ends_true = Inr ()"
    using p2pkh_eval [of pk_sig witness_hash pk_pubkey 2 ?flags ?checker] lens by simp
  moreover have "EvalScript witness_hash [] (push_data (push_data [] pk_sig) pk_pubkey) ?flags ?checker = Inr [pk_sig, pk_pubkey]
      \<and> IsPushOnly (push_data (push_data [] pk_sig) pk_pubkey)"
    by (rule two_pushes) (simp_all add: lens MAX_SCRIPT_ELEMENT_SIZE_def)
  moreover have "\<not> IsPayToScriptHash ?spk" by (simp add: p2pkh_bytes IsPayToScriptHash_def)
  ultimately show ?thesis by (auto simp: VerifyScript_def Let_def bind_ok)
qed

lemma pk_context: "block_context witness_env pk_block 11 7 1000"
  using witness_p_max pk_spend_kind by (simp add: block_context_def witness_env_def pk_block_def)

lemma pk_ledger:
  obtains u undos u' where "block_ledger witness_hash pk_block (work_utxo witness_ec pk_work) = [(work_utxo witness_ec pk_work, witness_coinbase), (u, pk_spend)]"
    "u 6 = Some pk_coins" "connect_utxo witness_hash 8 [witness_coinbase, pk_spend] (work_utxo witness_ec pk_work) = Some (Inr (undos, u'))"
proof -
  define u where "u = (work_utxo witness_ec pk_work)(21 := live (Some (FromTx witness_coinbase 8)))"
  have up: "update_utxo witness_hash witness_coinbase (work_utxo witness_ec pk_work) 8 = Some ([], u)"
    using witness_vtx_ordinary by (simp add: update_utxo_def witness_ids u_def)
  have u6: "u 6 = Some pk_coins" by (simp add: u_def pk_utxo)
  then have a: "available u \<lparr>out_hash = 6, out_n = 0\<rparr>"
    by (simp add: available_def IsAvailable_def pk_coins_def CTxOut_IsNull_def CTxOut_IsZerocoinMint_def IsZerocoinMint_def
      StartsWithOpcode_def p2pkh_bytes)
  have "update_utxo witness_hash pk_spend u 8 \<noteq> None"
    using spend_utxo_total [of u "vin pk_spend"] a pk_spend_kind(1) by (auto simp: update_utxo_def) (auto simp: pk_spend_def)
  then have "\<exists>us u'. connect_utxo witness_hash 8 [pk_spend] u = Some (Inr (us, u'))"
    using a pk_spend_kind(1) pk_id by (auto simp: u_def pk_utxo) (auto simp: pk_spend_def)
  then obtain us u' where "connect_utxo witness_hash 8 [witness_coinbase, pk_spend] (work_utxo witness_ec pk_work) = Some (Inr ([] # us, u'))"
    using up witness_vtx_ordinary(1) by (auto simp: witness_ids pk_utxo)
  moreover have "block_ledger witness_hash pk_block (work_utxo witness_ec pk_work) = [(work_utxo witness_ec pk_work, witness_coinbase), (u, pk_spend)]"
    using up by (auto simp: pk_block_def split: option.split)
  ultimately show thesis using that u6 by blast
qed

lemma pk_sigops:
  assumes "output_at u \<lparr>out_hash = 6, out_n = 0\<rparr> = \<lparr>nValue = 30, scriptPubKey = GetScriptForDestination (CKeyID 2)\<rparr>"
  shows "sigops_ok 0 [(u', witness_coinbase), (u, pk_spend)]"
proof -
  have "GetSigOpCount (push_data (push_data [] pk_sig) pk_pubkey) False = Some 0"
    by (simp add: GetSigOpCount_def sigop_loop.simps GetOp_def GetOp2_def GetOp2_operand_def push_data_def pk_sig_def pk_pubkey_def nth_append)
  then have "GetLegacySigOpCount witness_coinbase = Some 0" "GetLegacySigOpCount pk_spend = Some 0"
    by (simp_all add: GetLegacySigOpCount_def witness_coinbase_def pk_spend_def witness_counts)
  moreover have "p2sh_count u pk_spend = Some 0"
    using assms by (simp add: GetP2SHSigOpCount_def pk_spend_def IsPayToScriptHash_def p2pkh_bytes)
  ultimately show ?thesis using witness_vtx_ordinary by (simp add: sigops_after_def)
qed

lemma pk_valid: "\<exists>undos u. block_valid witness_hash pk_Verify witness_env pk_block 11 7 (work_utxo witness_ec pk_work) undos u"
proof -
  let ?ls = "block_ledger witness_hash pk_block (work_utxo witness_ec pk_work)"
  obtain u undos u' where l: "?ls = [(work_utxo witness_ec pk_work, witness_coinbase), (u, pk_spend)]" "u 6 = Some pk_coins"
    "connect_utxo witness_hash 8 [witness_coinbase, pk_spend] (work_utxo witness_ec pk_work) = Some (Inr (undos, u'))" by (rule pk_ledger)
  have out: "available u \<lparr>out_hash = 6, out_n = 0\<rparr>"
    "output_at u \<lparr>out_hash = 6, out_n = 0\<rparr> = \<lparr>nValue = 30, scriptPubKey = GetScriptForDestination (CKeyID 2)\<rparr>"
    using l(2) by (simp_all add: available_def output_at_def IsAvailable_def pk_coins_def CTxOut_IsNull_def CTxOut_IsZerocoinMint_def
      IsZerocoinMint_def StartsWithOpcode_def p2pkh_bytes)
  then have total: "total_in u (vin pk_spend) = 30" by (simp add: total_in_def pk_spend_def witness_small)
  moreover have "matured witness_params 8 pk_coins" by (simp add: matured_def pk_coins_def)
  ultimately have "amounts_valid witness_params u 8 pk_spend"
    using out l(2) witness_p_max by (auto simp: amounts_valid_def input_ok_def total_out_def pk_spend_def witness_small)
  then have valid: "list_all (tx_valid witness_params 8) ?ls"
    using l(1) witness_vtx_ordinary
    by (simp add: tx_valid_def) (simp add: witness_coinbase_def pk_spend_def total_out_def witness_small)
  have flags: "block_flags witness_env pk_block = SCRIPT_VERIFY_P2SH OR SCRIPT_VERIFY_DERSIG"
    by (simp add: block_flags_def witness_env_def pk_block_def Let_def)
  have "script_checks u pk_spend flags 0 (vin pk_spend) = [\<lparr>sc_scriptPubKey = GetScriptForDestination (CKeyID 2),
      sc_txTo = pk_spend, sc_nIn = 0, sc_nFlags = flags\<rparr>]" for flags
    using out(2) by (simp add: pk_spend_def)
  moreover have "vin pk_spend ! 0 = \<lparr>prevout = \<lparr>out_hash = 6, out_n = 0\<rparr>,
      scriptSig = push_data (push_data [] pk_sig) pk_pubkey, nSequence = - 1\<rparr>" by (simp add: pk_spend_def)
  ultimately have "list_all (succeeds witness_hash pk_Verify) (concat (map (checks_of (block_flags witness_env pk_block)) ?ls))"
    using l(1) pk_spend_kind(1) witness_vtx_ordinary(1) pk_succeeds unfolding flags by (simp add: checks_of_def CScriptCheck_run_def)
  moreover have "minted ?ls = 50" "sum_list (map fee ?ls) = 10"
    using l(1) total witness_vtx_ordinary witness_stake pk_spend_kind
    by (simp_all add: minted_def value_in_def value_out_def fee_def)
       (simp_all add: witness_coinbase_def pk_spend_def total_out_def witness_small)
  moreover have "sigops_ok 0 ?ls" using pk_sigops [where u = u, OF out(2)] l(1) by simp
  moreover have "\<not> blk_IsProofOfStake [witness_coinbase, pk_spend]" using pk_spend_kind by (simp add: blk_IsProofOfStake_def)
  moreover have "sint (GetBlockValue False 7 + 10) = 3230000009"
    using sint_int64 [of 3230000009] by (simp add: GetBlockValue_eq)
  ultimately show ?thesis
    using witness_small l(3) valid
    by (auto simp: block_valid_def pk_block_def witness_env_def IsBlockValueValid_def expected_mint_def)
qed

theorem p2pkh_coins_need_signature_witness:
  "\<exists>vtxundo nMoneySupply cache' sig pubkey. ConnectBlock_full witness_hash pk_Verify witness_env (cache_view (CCoinsViewDB witness_ec)) pk_block pk_work
      = Some (Inr (vtxundo, nMoneySupply, cache'))
    \<and> Hash160 witness_hash pubkey = 2 \<and> pk_Verify pubkey 0 sig"
proof -
  obtain vtxundo nMoneySupply cache' where c: "ConnectBlock_full witness_hash pk_Verify witness_env (cache_view (CCoinsViewDB witness_ec)) pk_block pk_work
      = Some (Inr (vtxundo, nMoneySupply, cache'))"
    using tip.ConnectBlock_full_accepts [OF pk_utxo(2) pk_utxo(3) [symmetric] pk_context] pk_valid by fastforce
  obtain u undos u' where l: "block_ledger witness_hash pk_block (work_utxo witness_ec pk_work) = [(work_utxo witness_ec pk_work, witness_coinbase), (u, pk_spend)]"
    "u 6 = Some pk_coins" by (rule pk_ledger)
  have out: "scriptPubKey (output_at u (prevout (vin pk_spend ! 0))) = GetScriptForDestination (CKeyID 2)" "0 < length (vin pk_spend)"
    using l(2) by (simp_all add: pk_spend_def output_at_def pk_coins_def)
  have "block_fScriptChecks witness_env pk_block" by (simp add: block_fScriptChecks_def witness_env_def pk_block_def)
  from p2pkh_coins_need_signature [OF pk_utxo(2) pk_utxo(3) [symmetric] pk_context c this _ pk_spend_kind(1) out(2,1)] l(1)
  have "\<exists>pubkey sig. Hash160 witness_hash pubkey = 2 \<and> pk_Verify pubkey 0 sig" by (auto simp: pk_Verify_def)
  then show ?thesis using c by blast
qed

end
