(* ===== verification/Spec2Isabelle.thy ===== *)
theory Spec2Isabelle
  imports Blake Keccak MerkleBlock Pow Chain CheckQueue Spending
begin

text \<open>
  A verification development for SchillingCoin, a node of a Bitcoin-like currency with proof of
  stake (a descendant of PIVX).  Every definition that models code is a translation of the
  file and the function its section or the text before it names; paths are relative to the
  repository, and the build that is modelled is the default one for amd64 (little endian,
  64-bit words, unaligned access).

  \<^bold>\<open>The program.\<close>  Peers exchange blocks of transactions.  The header of a block is hashed with a
  chain of hash functions (\<^verbatim>\<open>src/src/crypto\<close>) and compared with the target of \<^verbatim>\<open>src/src/pow.cpp\<close>; its
  Merkle root (\<^verbatim>\<open>src/src/consensus/merkle.cpp\<close>) commits to the transactions.  A header becomes an
  entry of the block index (\<^verbatim>\<open>src/src/chain.h\<close>), a tree whose best branch is the active chain.
  When a branch becomes active, the transactions of its blocks are connected one after another
  (\<^verbatim>\<open>src/src/main.cpp\<close>): each spends unspent outputs, which the interpreter
  (\<^verbatim>\<open>src/src/script/interpreter.cpp\<close>) allows or not, and creates new ones.  The unspent outputs
  live in a database (\<^verbatim>\<open>src/src/txdb.cpp\<close>) under a stack of caches (\<^verbatim>\<open>src/src/coins.cpp\<close>), in a compressed
  format (\<^verbatim>\<open>src/src/compressor.cpp\<close>).  When the branch is given up, undo data lead back.  What is sent
  or stored goes through \<^verbatim>\<open>src/src/serialize.h\<close>.

  \<^bold>\<open>Conventions.\<close>
  \<^item> A C or C++ integer is a word of its width wherever it can wrap around; amounts and script
    numbers are words compared by their signed value.  Sizes, indices and heights that cannot
    wrap are \<open>nat\<close> or \<open>int\<close>; the theory that does so says why.
  \<^item> An exception, an error that is returned or a rejected input is a value of a sum type.
    \<open>None\<close>, or an error value of its own, is a failed assertion or an access that is undefined; the theorems
    show where it cannot happen.
  \<^item> Loops are recursive functions with a termination proof, or \<open>partial_function (option)\<close> where
    a loop follows pointers and may run forever; there the theorems show that it ends.
  \<^item> Functions of libraries the node calls (libsecp256k1, the hashes SHA-256, SHA-1 and
    RIPEMD-160 where they are only called) are arguments; what a theorem needs of them is a
    hypothesis, and where there is none it holds for all functions.

  \<^bold>\<open>The theories.\<close>
  \<^item> \<open>Prelude\<close>: machine types, memory blocks, lemmas on lists and words that all share.
  \<^item> \<open>Sph_Types\<close>, \<open>Sph_Buffer\<close>, \<open>Padding\<close>: the common parts of the hash functions of sphlib
    (\<^verbatim>\<open>src/src/crypto/sph_types.h\<close>): word codecs, with the portable and the fast bodies proved
    equal; buffered input, as the locales \<open>sph_stream\<close> and \<open>sph_hash\<close>, whose lemmas say that the cutting
    of the input into calls does not matter; padding on bit strings.
  \<^item> \<open>BlakeSpec\<close>, \<open>Blake\<close>, \<open>Keccak_F\<close>, \<open>Keccak\<close>: \<^verbatim>\<open>src/src/crypto/blake.c\<close> and \<^verbatim>\<open>src/src/crypto/keccak.c\<close>.
    \<open>BlakeSpec\<close> is BLAKE as its specification defines it, down to the constants.  The optimised rounds
    are proved equal to the ones of the specifications, and the public functions to compute
    the specified hash of a bit string; every digest size interprets \<open>sph_hash\<close>.
  \<^item> \<open>Merkle\<close>, \<open>MerkleBlock\<close>: \<^verbatim>\<open>src/src/consensus/merkle.cpp\<close> and \<^verbatim>\<open>src/src/merkleblock.cpp\<close>.  The
    constant-space computation of root and branch agrees with the level-by-level definition
    for up to \<open>2 ^ 31\<close> leaves, duplicated leaves are flagged, and a partial tree that
    \<open>ExtractMatches\<close> accepts, and that claims the true number of transactions, proves its matches,
    unless two of the hashed pairs collide.
  \<^item> \<open>Serialize\<close>: \<^verbatim>\<open>src/src/serialize.h\<close>.  The locales \<open>codec\<close> and \<open>canonical_codec\<close> say what a writer and
    its reader promise each other; they are interpreted for integers, \<open>CompactSize\<close>, variable-length
    integers, strings, vectors, pairs, sets, and later for outpoints, inputs and outputs.
  \<^item> \<open>UInt256\<close>, \<open>Pow\<close>: \<^verbatim>\<open>src/src/uint256.cpp\<close> and \<^verbatim>\<open>src/src/pow.cpp\<close>.  Big integers compute modulo a power of
    two; the compact form of a target is a round trip; difficulty adjustment never fails.
  \<^item> \<open>ScriptNum\<close>, \<open>Script\<close>, \<open>Interpreter\<close>, \<open>InterpreterSafety\<close>, \<open>Standard\<close>: the script language
    (\<^verbatim>\<open>src/src/script/script.h\<close>, \<^verbatim>\<open>src/src/script/script.cpp\<close>, \<^verbatim>\<open>src/src/script/interpreter.cpp\<close>, \<^verbatim>\<open>src/src/script/standard.cpp\<close>).
    The state of the interpreter is a record; \<open>eval_step\<close> is one round of the loop, and the
    limits on stack and operations are invariants of the step relation.  No script makes the
    interpreter leave a stack or fail an assertion, and it always answers.  The standard
    scripts are executed symbolically.
  \<^item> \<open>Transaction\<close>: \<^verbatim>\<open>src/src/primitives/transaction.h\<close>, \<^verbatim>\<open>src/src/primitives/transaction.cpp\<close>,
    \<^verbatim>\<open>src/src/consensus/tx_verify.cpp\<close> and the signature hash.  Encodings are canonical;
    \<open>CheckTransaction\<close> accepts exactly what its specification says; the in-place serializer of
    the signature hash equals the original algorithm.
  \<^item> \<open>Compressor\<close>, \<open>Coins\<close>: \<^verbatim>\<open>src/src/compressor.cpp\<close>, \<^verbatim>\<open>src/src/coins.h\<close>, \<^verbatim>\<open>src/src/undo.h\<close>.  Coins (with amounts below
    \<open>2 ^ 60\<close>) are read from the database as they were written, and undoing a spend restores them.
  \<^item> \<open>CoinsView\<close>: \<^verbatim>\<open>src/src/coins.cpp\<close>, \<^verbatim>\<open>src/src/txdb.cpp\<close>.  The locale \<open>coins_view\<close> is the contract of a view: a
    map of unspent coins that reading keeps and a batch updates.  It is interpreted for the
    database (a map of bytes that holds the encoded coins), for the cache over it (the tip of
    the node) and for a cache over that (a block in work); its lemmas carry the cache operations through the stack.
  \<^item> \<open>ConnectBlock\<close>: what connecting and disconnecting a block does to the coins, \<open>UpdateCoins\<close> and
    \<open>DisconnectBlock\<close> (\<^verbatim>\<open>src/src/main.cpp\<close>), with a specification on maps.
  \<^item> \<open>CheckQueue\<close>: \<^verbatim>\<open>src/src/checkqueue.h\<close>.  The threads that check scripts are a step relation whose steps
    are the critical sections of the code.  In every interleaving \<open>Wait\<close> returns whether all
    checks succeed, and the threads that are not asleep bring it to its return within a bounded
    number of steps.
  \<^item> \<open>Validation\<close>: the checks of \<open>CheckInputs\<close> and \<open>ConnectBlock\<close> in \<^verbatim>\<open>src/src/main.cpp\<close>, the reward, and the
    cache of signatures in \<^verbatim>\<open>src/src/script/sigcache.cpp\<close>.  \<open>ConnectBlock\<close> accepts exactly the blocks
    that satisfy the rules on a map of unspent coins, such a block adds no more than its
    reward to the total value of the coins (where the code enforces the reward), and \<open>DisconnectBlock\<close>
    undoes it, except for a flag of the coins of which the block spent the last output.
  \<^item> \<open>Spending\<close>: what the components show together.  Coins that pay to the hash of a key are
    spent only with a signature, whatever the input's script is.
  \<^item> \<open>Chain\<close>: \<^verbatim>\<open>src/src/chain.h\<close>, \<^verbatim>\<open>src/src/chain.cpp\<close> and the skip list in \<^verbatim>\<open>src/src/main.cpp\<close>, on a heap of index
    entries.  The invariant of the index holds in every index that \<open>AddToBlockIndex\<close> builds from the
    empty one (loading an index from disk is not modelled); the walk
    along skip pointers, the active chain, forks, locators (at most 43 entries) and the median
    of times are what following the parents gives.

  \<^bold>\<open>Not modelled.\<close>
  \<^item> The other hash functions of \<^verbatim>\<open>src/src/crypto\<close>: they follow the pattern of BLAKE and Keccak, mostly
    with large tables.  SHA-256, SHA-1 and RIPEMD-160 in C++ are arguments.
  \<^item> The zerocoin library, libsecp256k1, leveldb and univalue: vendored code, or arithmetic on
    OpenSSL numbers.  leveldb is a map of bytes; whether it takes the next batch is a part of its state.
  \<^item> Masternodes, budgets, SwiftX and sporks, the network, RPC, the wallet and the user
    interface: services around the consensus code, with input and output, locks and time.
  \<^item> \<open>CheckBlock\<close>, except for its rules on coinbases and coinstakes (\<open>CheckBlock_kinds\<close> in \<open>Validation\<close>); what the
    theorems on blocks need of the others is a hypothesis.  The choice and activation of the best chain in \<^verbatim>\<open>src/src/main.cpp\<close> (\<open>FindMostWorkChain\<close>, \<open>ActivateBestChain\<close>, \<open>ConnectTip\<close>,
    \<open>DisconnectTip\<close>, \<open>FlushStateToDisk\<close>), which change the index, files and caches under global locks.
  \<^item> The proof of stake kernel, which reads the block index and the database as it goes, and
    the pool of unconfirmed transactions.
\<close>

end
